(* ===== verification/Prelude.thy ===== *)
theory Prelude
  imports Main "HOL-Library.Word"
begin

text \<open>
  Shared vocabulary of the development: the result type of fallible Rust code, the integer
  helpers of the Rust standard library the sources call, the list operations behind
  \<open>Vec\<close> and the iterator adaptors, and the generic lemmas the component theories use.

  \<^item> \<open>('e, 'a) outcome\<close> is \<open>Result<'a, 'e>\<close> with a third constructor for a panic, so that a
    \<open>panic!\<close>, a failed \<open>assert!\<close>, an \<open>expect\<close> on nothing and an out-of-range index are values.
  \<^item> \<open>u64\<close> and \<open>usize\<close> sizes are \<open>nat\<close>. Casts to narrower widths (\<open>as u16\<close>, \<open>as u32\<close>) and
    saturating operations are written out where the sources use them.
\<close>

named_theorems layout_simps \<open>unfoldings of the memory layout predicates\<close>
named_theorems heap_simps \<open>equations of the shared descriptor heap\<close>

section \<open>Fallible results\<close>

datatype ('e, 'a) outcome = Ok 'a | Err 'e | Panic

text \<open>The \<open>?\<close> operator: continue on \<open>Ok\<close>, return anything else.\<close>

fun try_then :: "('e, 'a) outcome \<Rightarrow> ('a \<Rightarrow> ('e, 'b) outcome) \<Rightarrow> ('e, 'b) outcome" where
  "try_then (Ok x) k = k x"
| "try_then (Err e) k = Err e"
| "try_then Panic k = Panic"

fun is_ok :: "('e, 'a) outcome \<Rightarrow> bool" where
  "is_ok (Ok x) = True"
| "is_ok (Err e) = False"
| "is_ok Panic = False"

text \<open>A loop whose body can fail.\<close>

fun fold_try :: "('a \<Rightarrow> 's \<Rightarrow> ('e, 's) outcome) \<Rightarrow> 'a list \<Rightarrow> 's \<Rightarrow> ('e, 's) outcome" where
  "fold_try f [] st = Ok st"
| "fold_try f (x # xs) st = try_then (f x st) (fold_try f xs)"

lemma try_then_eq_Ok [simp]:
  "try_then r k = Ok y \<longleftrightarrow> (\<exists>x. r = Ok x \<and> k x = Ok y)"
  by (cases r) auto

lemma try_then_eq_Panic [simp]:
  "try_then r k = Panic \<longleftrightarrow> r = Panic \<or> (\<exists>x. r = Ok x \<and> k x = Panic)"
  by (cases r) auto

section \<open>Integer helpers of the standard library\<close>

definition u32_max :: nat where
  "u32_max = 2 ^ 32 - 1"

text \<open>\<open>u32::saturating_add\<close>.\<close>

definition u32_saturating_add :: "nat \<Rightarrow> nat \<Rightarrow> nat" where
  "u32_saturating_add a b = min u32_max (a + b)"

text \<open>\<open>checked_sub\<close>: nothing on underflow.\<close>

definition checked_sub :: "nat \<Rightarrow> nat \<Rightarrow> nat option" where
  "checked_sub a b = (if b \<le> a then Some (a - b) else None)"

text \<open>\<open>next_multiple_of\<close>, for a positive divisor.\<close>

definition next_multiple_of :: "nat \<Rightarrow> nat \<Rightarrow> nat" where
  "next_multiple_of a n = (if a mod n = 0 then a else a + (n - a mod n))"

lemma next_multiple_of_ge: "a \<le> next_multiple_of a n"
  by (simp add: next_multiple_of_def)

lemma add_complement_mod:
  fixes a n :: nat
  assumes "0 < n" "a mod n \<noteq> 0"
  shows "n dvd a + (n - a mod n)"
proof -
  have "a = n * (a div n) + a mod n" by simp
  moreover have "a mod n < n" using assms by simp
  ultimately have "a + (n - a mod n) = n * (a div n) + n" by linarith
  then show ?thesis by simp
qed

lemma dvd_next_multiple_of: "0 < n \<Longrightarrow> n dvd next_multiple_of a n"
  using add_complement_mod [of n a] by (auto simp: next_multiple_of_def)

lemma next_multiple_of_less: "0 < n \<Longrightarrow> next_multiple_of a n < a + n"
  by (auto simp: next_multiple_of_def)

lemma next_multiple_of_least:
  assumes "0 < n" "n dvd m" "a \<le> m"
  shows "next_multiple_of a n \<le> m"
proof (rule ccontr)
  assume "\<not> next_multiple_of a n \<le> m"
  then have gt: "m < next_multiple_of a n" by simp
  with assms have "n dvd next_multiple_of a n - m"
    by (simp add: dvd_next_multiple_of)
  with gt have "n \<le> next_multiple_of a n - m"
    by (simp add: dvd_imp_le)
  moreover have "next_multiple_of a n < a + n" using assms(1) by (rule next_multiple_of_less)
  ultimately show False using assms(3) gt by linarith
qed

section \<open>Vectors and iterators\<close>

text \<open>\<open>Iterator::position\<close> and \<open>Iterator::rposition\<close>.\<close>

fun position :: "('a \<Rightarrow> bool) \<Rightarrow> 'a list \<Rightarrow> nat option" where
  "position P [] = None"
| "position P (x # xs) = (if P x then Some 0 else map_option Suc (position P xs))"

definition rposition :: "('a \<Rightarrow> bool) \<Rightarrow> 'a list \<Rightarrow> nat option" where
  "rposition P xs = map_option (\<lambda>i. length xs - 1 - i) (position P (rev xs))"

text \<open>\<open>Vec::insert\<close> and \<open>Vec::remove\<close> within range.\<close>

definition insert_at :: "nat \<Rightarrow> 'a \<Rightarrow> 'a list \<Rightarrow> 'a list" where
  "insert_at i x xs = take i xs @ x # drop i xs"

definition remove_at :: "nat \<Rightarrow> 'a list \<Rightarrow> 'a list" where
  "remove_at i xs = take i xs @ drop (Suc i) xs"

text \<open>\<open>slice.get(i)\<close>.\<close>

definition get_opt :: "'a list \<Rightarrow> nat \<Rightarrow> 'a option" where
  "get_opt xs i = (if i < length xs then Some (xs ! i) else None)"

lemma get_opt_Some [simp]: "get_opt xs i = Some x \<longleftrightarrow> i < length xs \<and> x = xs ! i"
  by (auto simp: get_opt_def)

lemma get_opt_None [simp]: "get_opt xs i = None \<longleftrightarrow> length xs \<le> i"
  by (auto simp: get_opt_def)

lemma position_Some:
  "position P xs = Some i \<Longrightarrow> i < length xs \<and> P (xs ! i) \<and> (\<forall>j<i. \<not> P (xs ! j))"
proof (induction xs arbitrary: i)
  case Nil
  then show ?case by simp
next
  case (Cons x xs)
  show ?case
  proof (cases "P x")
    case True
    with Cons.prems show ?thesis by simp
  next
    case False
    with Cons.prems obtain k where k: "position P xs = Some k" "i = Suc k" by auto
    from Cons.IH [OF k(1)] k(2) False show ?thesis
      by (auto simp: less_Suc_eq_0_disj)
  qed
qed

lemma position_None: "position P xs = None \<longleftrightarrow> (\<forall>x \<in> set xs. \<not> P x)"
  by (induction xs) auto

lemma position_replicate: "P x \<Longrightarrow> 0 < n \<Longrightarrow> position P (replicate n x) = Some 0"
  by (cases n) auto

lemma rposition_Some:
  assumes "rposition P xs = Some i"
  shows "i < length xs \<and> P (xs ! i)"
proof -
  from assms obtain j where j: "position P (rev xs) = Some j" "i = length xs - 1 - j"
    by (auto simp: rposition_def)
  from position_Some [OF j(1)] j(2) show ?thesis
    by (auto simp: rev_nth)
qed

lemma rposition_None: "rposition P xs = None \<longleftrightarrow> (\<forall>x \<in> set xs. \<not> P x)"
  by (simp add: rposition_def position_None)

lemma length_insert_at [simp]: "length (insert_at i x xs) = Suc (length xs)"
  by (auto simp: insert_at_def min_def)

lemma length_remove_at [simp]: "i < length xs \<Longrightarrow> length (remove_at i xs) = length xs - 1"
  by (auto simp: remove_at_def min_def)

lemma remove_insert_at: "i \<le> length xs \<Longrightarrow> remove_at i (insert_at i x xs) = xs"
  by (simp add: remove_at_def insert_at_def min_def)

lemma set_insert_at [simp]: "set (insert_at i x xs) = insert x (set xs)"
proof -
  have "set (insert_at i x xs) = insert x (set (take i xs @ drop i xs))"
    unfolding insert_at_def by (simp only: set_append set_simps) blast
  then show ?thesis by (simp only: append_take_drop_id)
qed

end
