(* ===== verification/Drop_Queue.thy ===== *)
theory Drop_Queue
  imports Prelude "HOL-Library.Sublist"
begin

text \<open>
  The pending drop queue (\<open>memory_management/drop_queue/\<close>): host buffers handed to an
  asynchronous upload are kept until a device fence recorded after the upload has been waited
  on. Fences are the numbers of their creation; what the queue does to the device and to the
  buffers it holds is written to a log, so that safety is a property of the order of events.
\<close>

record bytes =
  bytes_id :: nat
  bytes_len :: nat

section \<open>Flushing policy\<close>

record flushing_policy =
  max_bytes_count :: nat
  max_bytes_size :: nat

definition flushing_policy_default :: flushing_policy where
  "flushing_policy_default = \<lparr>max_bytes_count = 64, max_bytes_size = 64 * 1024 * 1024\<rparr>"

record policy_state =
  bytes_count :: nat
  bytes_size :: nat

definition policy_state_default :: policy_state where
  "policy_state_default = \<lparr>bytes_count = 0, bytes_size = 0\<rparr>"

definition register :: "bytes \<Rightarrow> policy_state \<Rightarrow> policy_state" where
  "register b st =
     \<lparr>bytes_count = u32_saturating_add (bytes_count st) 1,
      bytes_size = u32_saturating_add (bytes_size st)
        (if bytes_len b \<le> u32_max then bytes_len b else u32_max)\<rparr>"

definition reset :: "policy_state \<Rightarrow> policy_state" where
  "reset st = \<lparr>bytes_count = 0, bytes_size = 0\<rparr>"

definition policy_should_flush :: "policy_state \<Rightarrow> flushing_policy \<Rightarrow> bool" where
  "policy_should_flush st p \<longleftrightarrow>
     max_bytes_count p \<le> bytes_count st \<or> max_bytes_size p \<le> bytes_size st"

section \<open>The queue\<close>

datatype event = Staged bytes | Minted nat | Synced nat | Freed bytes

record drop_queue =
  fence :: "nat option"
  pending :: "bytes list"
  staged :: "bytes list"
  policy :: flushing_policy
  queue_policy_state :: policy_state

text \<open>What the device and the allocator see: the next fence number and the log of events.\<close>

record device =
  next_fence :: nat
  events :: "event list"

definition device_empty :: device where
  "device_empty = \<lparr>next_fence = 0, events = []\<rparr>"

definition queue_new :: "flushing_policy \<Rightarrow> drop_queue" where
  "queue_new p = \<lparr>fence = None, pending = [], staged = [], policy = p,
     queue_policy_state = policy_state_default\<rparr>"

definition emit :: "event list \<Rightarrow> device \<Rightarrow> device" where
  "emit es d = d\<lparr>events := events d @ es\<rparr>"

text \<open>The \<open>factory\<close> closure: record a fence on the device.\<close>

definition mint :: "device \<Rightarrow> nat \<times> device" where
  "mint d = (next_fence d, emit [Minted (next_fence d)] (d\<lparr>next_fence := Suc (next_fence d)\<rparr>))"

definition push :: "bytes \<Rightarrow> drop_queue \<times> device \<Rightarrow> drop_queue \<times> device" where
  "push b qd = (case qd of (q, d) \<Rightarrow>
     (q\<lparr>queue_policy_state := register b (queue_policy_state q), staged := staged q @ [b]\<rparr>,
      emit [Staged b] d))"

definition should_flush :: "drop_queue \<Rightarrow> bool" where
  "should_flush q = policy_should_flush (queue_policy_state q) (policy q)"

text \<open>\<open>event.sync(); self.pending.clear()\<close>.\<close>

definition sync_and_clear :: "nat \<Rightarrow> drop_queue \<times> device \<Rightarrow> drop_queue \<times> device" where
  "sync_and_clear e qd = (case qd of (q, d) \<Rightarrow>
     (q\<lparr>pending := []\<rparr>, emit (Synced e # map Freed (pending q)) d))"

definition flush_fence :: "drop_queue \<times> device \<Rightarrow> drop_queue \<times> device" where
  "flush_fence qd = (case qd of (q, d) \<Rightarrow>
     (case fence q of
        Some e \<Rightarrow> sync_and_clear e (q\<lparr>fence := None\<rparr>, d)
      | None \<Rightarrow> (q, d)))"

definition flush_safety_net :: "drop_queue \<times> device \<Rightarrow> drop_queue \<times> device" where
  "flush_safety_net qd = (case qd of (q, d) \<Rightarrow>
     if pending q \<noteq> [] then (case mint d of (e, d') \<Rightarrow> sync_and_clear e (q, d')) else (q, d))"

definition flush_rotate :: "drop_queue \<times> device \<Rightarrow> drop_queue \<times> device" where
  "flush_rotate qd = (case qd of (q, d) \<Rightarrow>
     (case mint d of (e, d') \<Rightarrow>
       (q\<lparr>pending := staged q, staged := pending q, fence := Some e,
          queue_policy_state := reset (queue_policy_state q)\<rparr>, d')))"

definition flush :: "drop_queue \<times> device \<Rightarrow> drop_queue \<times> device" where
  "flush qd =
     (if pending (fst qd) = [] \<and> staged (fst qd) = [] then qd
      else flush_rotate (flush_safety_net (flush_fence qd)))"

definition drain :: "drop_queue \<times> device \<Rightarrow> drop_queue \<times> device" where
  "drain qd = flush (flush qd)"

section \<open>Reachable queues\<close>

inductive queue_reach :: "flushing_policy \<Rightarrow> drop_queue \<times> device \<Rightarrow> bool" for p where
  start: "queue_reach p (queue_new p, device_empty)"
| push: "queue_reach p qd \<Longrightarrow> queue_reach p (push b qd)"
| flush: "queue_reach p qd \<Longrightarrow> queue_reach p (flush qd)"

lemma queue_reach_drain: "queue_reach p qd \<Longrightarrow> queue_reach p (drain qd)"
  by (simp add: drain_def queue_reach.flush)

text \<open>
  A log is safe when every buffer is freed only after it was staged, a fence was recorded
  after that, and that very fence was waited on.
\<close>

definition protected :: "bytes \<Rightarrow> event list \<Rightarrow> bool" where
  "protected b es \<longleftrightarrow> (\<exists>n. subseq [Staged b, Minted n, Synced n] es)"

definition safe_log :: "event list \<Rightarrow> bool" where
  "safe_log es \<longleftrightarrow> (\<forall>pre b post. es = pre @ Freed b # post \<longrightarrow> protected b pre)"

lemma subseq_extend: "subseq xs ys \<Longrightarrow> subseq xs (ys @ zs)"
  by (metis append_Nil2 list_emb_append_mono list_emb_Nil)

lemma subseq_snoc: "subseq xs ys \<Longrightarrow> subseq (xs @ [z]) (ys @ [z])"
  by simp

lemma subseq_single: "subseq [x] xs \<longleftrightarrow> x \<in> set xs"
  by (metis subseq_singleton_left)

lemma protected_extend: "protected b es \<Longrightarrow> protected b (es @ fs)"
  by (auto simp: protected_def intro: subseq_extend)

lemma safe_log_snoc:
  "safe_log es \<Longrightarrow> (\<And>b. x = Freed b \<Longrightarrow> protected b es) \<Longrightarrow> safe_log (es @ [x])"
  unfolding safe_log_def
  by (auto simp: append_eq_append_conv2 append_eq_Cons_conv Cons_eq_append_conv)

lemma safe_log_frees:
  "safe_log es \<Longrightarrow> (\<And>b. b \<in> set bs \<Longrightarrow> protected b es) \<Longrightarrow> safe_log (es @ map Freed bs)"
proof (induction bs rule: rev_induct)
  case Nil
  then show ?case by simp
next
  case (snoc b bs)
  then have "safe_log (es @ map Freed bs)" and "protected b (es @ map Freed bs)"
    by (auto intro: protected_extend)
  then have "safe_log ((es @ map Freed bs) @ [Freed b])"
    by (intro safe_log_snoc) simp_all
  then show ?case by simp
qed

text \<open>
  The invariant behind safety: what is staged has been announced, and what is pending is
  guarded by the queue's own fence, which was recorded after it was staged.
\<close>

definition queue_inv :: "drop_queue \<times> device \<Rightarrow> bool" where
  "queue_inv qd \<longleftrightarrow> (case qd of (q, d) \<Rightarrow>
     safe_log (events d) \<and>
     (\<forall>b \<in> set (staged q). Staged b \<in> set (events d)) \<and>
     (\<forall>b \<in> set (pending q). \<exists>n. fence q = Some n \<and> subseq [Staged b, Minted n] (events d)))"

lemma queue_inv_push: "queue_inv qd \<Longrightarrow> queue_inv (push b qd)"
  by (cases qd)
    (fastforce simp: queue_inv_def push_def emit_def intro: safe_log_snoc subseq_extend)

lemma queue_inv_sync:
  assumes "safe_log (events d)"
    and "\<forall>b \<in> set (pending q). subseq [Staged b, Minted e] (events d)"
    and "\<forall>b \<in> set (staged q). Staged b \<in> set (events d)"
  shows "queue_inv (sync_and_clear e (q, d))"
proof -
  have "safe_log (events d @ [Synced e])"
    using assms(1) by (auto intro: safe_log_snoc)
  moreover have "protected b (events d @ [Synced e])" if "b \<in> set (pending q)" for b
    using subseq_snoc [of "[Staged b, Minted e]" "events d" "Synced e"] assms(2) that
    by (auto simp: protected_def)
  ultimately have "safe_log ((events d @ [Synced e]) @ map Freed (pending q))"
    by (rule safe_log_frees)
  then show ?thesis
    using assms(3) by (simp add: queue_inv_def sync_and_clear_def emit_def)
qed

lemma queue_inv_flush_fence: "queue_inv qd \<Longrightarrow> queue_inv (flush_fence qd)"
  by (cases qd) (auto simp: flush_fence_def queue_inv_def [of "(_, _)"]
      split: option.split intro!: queue_inv_sync)

lemma flush_fence_pending: "queue_inv qd \<Longrightarrow> pending (fst (flush_fence qd)) = []"
proof -
  assume inv: "queue_inv qd"
  obtain q d where qd: "qd = (q, d)" by (cases qd)
  show ?thesis
  proof (cases "fence q")
    case None
    with inv qd have "set (pending q) = {}" by (auto simp: queue_inv_def)
    with None qd show ?thesis by (simp add: flush_fence_def)
  next
    case (Some e)
    with qd show ?thesis by (simp add: flush_fence_def sync_and_clear_def)
  qed
qed

lemma queue_inv_rotate:
  assumes "queue_inv qd" "pending (fst qd) = []"
  shows "queue_inv (flush_rotate qd)"
proof -
  obtain q d where qd: "qd = (q, d)" by (cases qd)
  have "subseq [Staged b, Minted (next_fence d)] (events d @ [Minted (next_fence d)])"
    if "b \<in> set (staged q)" for b
    using subseq_snoc [of "[Staged b]" "events d"] that assms(1) qd
    by (auto simp: queue_inv_def subseq_single)
  moreover have "safe_log (events d @ [Minted (next_fence d)])"
    using assms(1) qd by (auto simp: queue_inv_def intro: safe_log_snoc)
  ultimately show ?thesis
    using assms(2) qd by (simp add: queue_inv_def flush_rotate_def mint_def emit_def)
qed

text \<open>The safety net of \<open>flush\<close> never fires: what is pending always has its fence.\<close>

lemma flush_safety_net_idle: "queue_inv qd \<Longrightarrow> flush_safety_net (flush_fence qd) = flush_fence qd"
  using flush_fence_pending [of qd] by (auto simp: flush_safety_net_def split: prod.split)

lemma queue_inv_flush: "queue_inv qd \<Longrightarrow> queue_inv (flush qd)"
  by (simp add: flush_def flush_safety_net_idle queue_inv_rotate queue_inv_flush_fence
      flush_fence_pending)

lemma queue_reach_inv: "queue_reach p qd \<Longrightarrow> queue_inv qd"
proof (induction rule: queue_reach.induct)
  case start
  show ?case by (simp add: queue_inv_def queue_new_def device_empty_def safe_log_def)
qed (simp_all add: queue_inv_push queue_inv_flush)

section \<open>What the queue promises\<close>

text \<open>C32: Use-after-free safety of staged uploads: in the log of any reachable queue, a buffer is
  freed only after it was staged, a device fence was recorded after that, and that fence was
  waited on.\<close>

theorem freed_after_its_fence:
  assumes "queue_reach p qd" and "events (snd qd) = pre @ Freed b # post"
  shows "\<exists>n. subseq [Staged b, Minted n, Synced n] pre"
  using queue_reach_inv [OF assms(1)] assms(2)
  by (cases qd) (auto simp: queue_inv_def safe_log_def protected_def)

definition sample_bytes :: bytes where
  "sample_bytes = \<lparr>bytes_id = 7, bytes_len = 16\<rparr>"

definition sample_run :: "drop_queue \<times> device" where
  "sample_run = drain (push sample_bytes (queue_new flushing_policy_default, device_empty))"

lemmas flush_defs = flush_def flush_fence_def flush_safety_net_def flush_rotate_def mint_def
  emit_def sync_and_clear_def

lemma sample_run_events:
  "events (snd sample_run) =
     [Staged sample_bytes, Minted 0, Synced 0] @ Freed sample_bytes # [Minted 1]"
  by (simp add: sample_run_def drain_def push_def queue_new_def device_empty_def flush_defs)

lemma sample_run_reach: "queue_reach flushing_policy_default sample_run"
  unfolding sample_run_def
  by (intro queue_reach_drain queue_reach.push queue_reach.start)

theorem freed_after_its_fence_witness:
  "\<exists>n. subseq [Staged sample_bytes, Minted n, Synced n]
     [Staged sample_bytes, Minted 0, Synced 0]"
  using freed_after_its_fence [OF sample_run_reach sample_run_events] .

lemma flush_eq:
  "queue_inv qd \<Longrightarrow> flush qd =
     (if pending (fst qd) = [] \<and> staged (fst qd) = [] then qd else flush_rotate (flush_fence qd))"
  by (simp add: flush_def flush_safety_net_idle)

lemma flush_rotate_simps:
  "pending (fst (flush_rotate qd)) = staged (fst qd)"
  "staged (fst (flush_rotate qd)) = pending (fst qd)"
  "events (snd (flush_rotate qd)) = events (snd qd) @ [Minted (next_fence (snd qd))]"
  "queue_policy_state (fst (flush_rotate qd)) = policy_state_default"
  by (cases qd, simp add: flush_rotate_def mint_def emit_def reset_def policy_state_default_def)+

lemma flush_fence_simps:
  "staged (fst (flush_fence qd)) = staged (fst qd)"
  "queue_policy_state (fst (flush_fence qd)) = queue_policy_state (fst qd)"
  by (cases qd, simp add: flush_fence_def sync_and_clear_def split: option.split)+

lemma flush_lists:
  assumes "queue_inv qd"
  shows "pending (fst (flush qd)) = staged (fst qd)" and "staged (fst (flush qd)) = []"
  using flush_fence_pending [OF assms]
  by (auto simp: flush_eq [OF assms] flush_rotate_simps flush_fence_simps)

lemma flush_events:
  assumes "queue_inv qd"
  shows "set (events (snd qd)) \<union> Freed ` set (pending (fst qd)) \<subseteq> set (events (snd (flush qd)))"
proof -
  have "set (events (snd qd)) \<union> Freed ` set (pending (fst qd)) \<subseteq> set (events (snd (flush_fence qd)))"
    using assms by (cases qd)
      (auto simp: queue_inv_def flush_fence_def sync_and_clear_def emit_def split: option.split)
  then show ?thesis
    by (auto simp: flush_eq [OF assms] flush_rotate_simps)
qed

text \<open>Draining a reachable queue really gives everything back: nothing is pending or staged
  afterwards, and every buffer that was held has been freed.\<close>

theorem drain_frees_everything:
  assumes "queue_reach p qd"
  shows "pending (fst (drain qd)) = [] \<and> staged (fst (drain qd)) = [] \<and>
    (\<forall>b. b \<in> set (pending (fst qd)) \<union> set (staged (fst qd)) \<longrightarrow>
       Freed b \<in> set (events (snd (drain qd))))"
proof -
  have inv: "queue_inv qd" and inv': "queue_inv (flush qd)"
    using queue_reach_inv [OF assms] by (simp_all add: queue_inv_flush)
  show ?thesis
    using flush_lists [OF inv] flush_lists [OF inv'] flush_events [OF inv] flush_events [OF inv']
    unfolding drain_def by auto
qed

theorem drain_frees_everything_witness:
  "pending (fst (drain sample_run)) = [] \<and> staged (fst (drain sample_run)) = []"
  using drain_frees_everything [OF sample_run_reach] by simp

text \<open>The flushing policy sees the batch that is really staged: its counters are the number of
  staged buffers and their total size, each cut off at the largest \<open>u32\<close>.\<close>

theorem policy_state_tracks_staged:
  assumes "queue_reach p qd"
  shows "queue_policy_state (fst qd) =
    \<lparr>bytes_count = min u32_max (length (staged (fst qd))),
     bytes_size = min u32_max (sum_list (map bytes_len (staged (fst qd))))\<rparr>"
  using assms
proof (induction rule: queue_reach.induct)
  case start
  show ?case by (simp add: queue_new_def policy_state_default_def)
next
  case (push qd b)
  then show ?case
    by (cases qd) (auto simp: push_def register_def u32_saturating_add_def min_def)
next
  case (flush qd)
  then show ?case
    using queue_reach_inv [OF flush.hyps] flush_lists(2) [of qd]
    by (auto simp: flush_eq flush_rotate_simps flush_fence_pending policy_state_default_def)
qed

theorem policy_state_tracks_staged_witness:
  "queue_policy_state (fst (push sample_bytes sample_run)) = \<lparr>bytes_count = 1, bytes_size = 16\<rparr>"
  using policy_state_tracks_staged [OF queue_reach.push [OF sample_run_reach, of sample_bytes]]
  by (simp add: sample_run_def drain_def push_def queue_new_def device_empty_def flush_defs
      sample_bytes_def u32_max_def)

end
