(* ===== verification/Memory_Handle.thy ===== *)
theory Memory_Handle
  imports Prelude
begin

unbundle bit_operations_syntax

text \<open>
  Managed memory handles (\<open>cubecl-runtime/src/memory_management/handle.rs\<close>).

  Handles and bindings share a descriptor through \<open>Arc\<close>, and the pools decide what is free from
  its strong count, so the descriptors live in an explicit heap: an id names a descriptor with
  its packed location, the number of handles and bindings that share it (\<open>strong\<close>) and the
  number of handles among them (\<open>handles\<close>). Cloning and dropping are the operations that move
  the counts. Ids come from a counter that never repeats one.
\<close>

section \<open>Memory locations\<close>

record memory_location =
  loc_pool :: "8 word"
  loc_page :: "16 word"
  loc_slice :: "32 word"
  loc_init :: "8 word"

definition to_bits :: "memory_location \<Rightarrow> 64 word" where
  "to_bits l = (ucast (loc_pool l) :: 64 word)
     OR push_bit 8 (ucast (loc_page l))
     OR push_bit 24 (ucast (loc_slice l))
     OR push_bit 56 (ucast (loc_init l))"

definition from_bits :: "64 word \<Rightarrow> memory_location" where
  "from_bits b = \<lparr>loc_pool = ucast b, loc_page = ucast (drop_bit 8 b),
     loc_slice = ucast (drop_bit 24 b), loc_init = ucast (drop_bit 56 b)\<rparr>"

definition location_new :: "8 word \<Rightarrow> 16 word \<Rightarrow> 32 word \<Rightarrow> memory_location" where
  "location_new p pg s = \<lparr>loc_pool = p, loc_page = pg, loc_slice = s, loc_init = 1\<rparr>"

definition uninit :: memory_location where
  "uninit = \<lparr>loc_pool = 0, loc_page = 0, loc_slice = 0, loc_init = 0\<rparr>"

section \<open>The descriptor heap\<close>

type_synonym handle = nat

record descriptor =
  location_bits :: "64 word"
  strong :: nat
  handles :: nat

record heap =
  descs :: "handle \<rightharpoonup> descriptor"
  next_id :: nat

definition heap_empty :: heap where
  "heap_empty = \<lparr>descs = Map.empty, next_id = 0\<rparr>"

definition modify :: "handle \<Rightarrow> (descriptor \<Rightarrow> descriptor option) \<Rightarrow> heap \<Rightarrow> heap" where
  "modify i f h = (case descs h i of None \<Rightarrow> h | Some d \<Rightarrow> h\<lparr>descs := (descs h)(i := f d)\<rparr>)"

definition update_location :: "handle \<Rightarrow> memory_location \<Rightarrow> heap \<Rightarrow> heap" where
  "update_location i l = modify i (\<lambda>d. Some (d\<lparr>location_bits := to_bits l\<rparr>))"

definition update_slice :: "handle \<Rightarrow> 32 word \<Rightarrow> heap \<Rightarrow> heap" where
  "update_slice i s = modify i (\<lambda>d. Some
     (d\<lparr>location_bits := to_bits ((from_bits (location_bits d))\<lparr>loc_slice := s\<rparr>)\<rparr>))"

definition update_page :: "handle \<Rightarrow> 16 word \<Rightarrow> heap \<Rightarrow> heap" where
  "update_page i p = modify i (\<lambda>d. Some
     (d\<lparr>location_bits := to_bits ((from_bits (location_bits d))\<lparr>loc_page := p\<rparr>)\<rparr>))"

definition location :: "heap \<Rightarrow> handle \<Rightarrow> memory_location" where
  "location h i = (case descs h i of None \<Rightarrow> uninit | Some d \<Rightarrow> from_bits (location_bits d))"

definition is_allocated :: "heap \<Rightarrow> handle \<Rightarrow> bool" where
  "is_allocated h i \<longleftrightarrow> loc_init (location h i) \<noteq> 0"

definition slice_index :: "heap \<Rightarrow> handle \<Rightarrow> nat" where
  "slice_index h i = unat (loc_slice (location h i))"

definition page_index :: "heap \<Rightarrow> handle \<Rightarrow> nat" where
  "page_index h i = unat (loc_page (location h i))"

section \<open>Handles, bindings and their counts\<close>

definition handle_new :: "heap \<Rightarrow> handle \<times> heap" where
  "handle_new h = (next_id h,
     \<lparr>descs = (descs h)(next_id h \<mapsto>
        \<lparr>location_bits = to_bits uninit, strong = 1, handles = 1\<rparr>), next_id = Suc (next_id h)\<rparr>)"

definition clone_handle :: "handle \<Rightarrow> heap \<Rightarrow> heap" where
  "clone_handle i = modify i (\<lambda>d. Some (d\<lparr>strong := Suc (strong d), handles := Suc (handles d)\<rparr>))"

text \<open>Dropping the last owner frees the descriptor.\<close>

definition drop_handle :: "handle \<Rightarrow> heap \<Rightarrow> heap" where
  "drop_handle i = modify i (\<lambda>d. if strong d \<le> 1 then None
     else Some (d\<lparr>strong := strong d - 1, handles := handles d - 1\<rparr>))"

text \<open>\<open>binding\<close> consumes the handle: the descriptor keeps its owner, one handle fewer.\<close>

definition binding :: "handle \<Rightarrow> heap \<Rightarrow> heap" where
  "binding i = modify i (\<lambda>d. Some (d\<lparr>handles := handles d - 1\<rparr>))"

definition clone_binding :: "handle \<Rightarrow> heap \<Rightarrow> heap" where
  "clone_binding i = modify i (\<lambda>d. Some (d\<lparr>strong := Suc (strong d)\<rparr>))"

definition drop_binding :: "handle \<Rightarrow> heap \<Rightarrow> heap" where
  "drop_binding i = modify i (\<lambda>d. if strong d \<le> 1 then None else Some (d\<lparr>strong := strong d - 1\<rparr>))"

definition strong_count :: "heap \<Rightarrow> handle \<Rightarrow> nat" where
  "strong_count h i = (case descs h i of None \<Rightarrow> 0 | Some d \<Rightarrow> strong d)"

definition handle_count :: "heap \<Rightarrow> handle \<Rightarrow> nat" where
  "handle_count h i = (case descs h i of None \<Rightarrow> 0 | Some d \<Rightarrow> handles d)"

definition can_mut :: "heap \<Rightarrow> handle \<Rightarrow> bool" where
  "can_mut h i \<longleftrightarrow> handle_count h i \<le> 2"

definition is_bound :: "heap \<Rightarrow> handle \<Rightarrow> bool" where
  "is_bound h i \<longleftrightarrow> handle_count h i < strong_count h i"

definition is_free :: "heap \<Rightarrow> handle \<Rightarrow> bool" where
  "is_free h i \<longleftrightarrow> strong_count h i \<le> 1"

text \<open>\<open>WeakMemoryBinding::upgrade\<close>: a weak binding is the id alone.\<close>

definition upgrade :: "handle \<Rightarrow> heap \<Rightarrow> handle option \<times> heap" where
  "upgrade i h = (if strong_count h i \<le> 1 then (None, h) else (Some i, clone_binding i h))"

text \<open>Every descriptor has an owner and an id already handed out.\<close>

definition heap_ok :: "heap \<Rightarrow> bool" where
  "heap_ok h \<longleftrightarrow> (\<forall>i d. descs h i = Some d \<longrightarrow>
     i < next_id h \<and> 1 \<le> strong d \<and> handles d \<le> strong d)"

section \<open>Packing\<close>

lemma from_to_bits [simp]: "from_bits (to_bits l) = l"
proof (cases l)
  case (fields p pg s i)
  have "(ucast (to_bits l) :: 8 word) = p"
    by (rule bit_word_eqI) (auto simp: fields to_bits_def bit_simps)
  moreover have "(ucast (drop_bit 8 (to_bits l)) :: 16 word) = pg"
    by (rule bit_word_eqI) (auto simp: fields to_bits_def bit_simps dest: bit_imp_le_length)
  moreover have "(ucast (drop_bit 24 (to_bits l)) :: 32 word) = s"
    by (rule bit_word_eqI) (auto simp: fields to_bits_def bit_simps dest: bit_imp_le_length)
  moreover have "(ucast (drop_bit 56 (to_bits l)) :: 8 word) = i"
    by (rule bit_word_eqI) (auto simp: fields to_bits_def bit_simps dest: bit_imp_le_length)
  ultimately show ?thesis by (simp add: from_bits_def fields)
qed

lemma to_from_bits [simp]: "to_bits (from_bits b) = b"
proof (rule bit_word_eqI)
  fix n :: nat
  assume "n < LENGTH(64)"
  then consider "n < 8" | "8 \<le> n" "n < 24" | "24 \<le> n" "n < 56" | "56 \<le> n" "n < 64" by fastforce
  then show "bit (to_bits (from_bits b)) n \<longleftrightarrow> bit b n"
    by cases (auto simp: to_bits_def from_bits_def bit_simps)
qed

section \<open>Laws of the heap\<close>

lemma descs_modify:
  "descs (modify i f h) j = (if j = i then Option.bind (descs h i) f else descs h j)"
  by (auto simp: modify_def split: option.split)

lemma next_id_modify [simp]: "next_id (modify i f h) = next_id h"
  by (simp add: modify_def split: option.split)

lemmas heap_op_defs = update_location_def update_slice_def update_page_def clone_handle_def
  drop_handle_def binding_def clone_binding_def drop_binding_def

lemma next_id_ops [simp]:
  "next_id (update_location i l h) = next_id h" "next_id (update_slice i s h) = next_id h"
  "next_id (update_page i p h) = next_id h" "next_id (clone_handle i h) = next_id h"
  "next_id (drop_handle i h) = next_id h" "next_id (binding i h) = next_id h"
  "next_id (clone_binding i h) = next_id h" "next_id (drop_binding i h) = next_id h"
  by (simp_all add: heap_op_defs)

lemma descs_handle_new [simp]:
  "descs (snd (handle_new h)) = (descs h)(next_id h \<mapsto>
     \<lparr>location_bits = to_bits uninit, strong = 1, handles = 1\<rparr>)"
  "next_id (snd (handle_new h)) = Suc (next_id h)" "fst (handle_new h) = next_id h"
  by (simp_all add: handle_new_def)

lemmas desc_defs = descs_modify location_def strong_count_def handle_count_def

lemma location_update_location [heap_simps]:
  "location (update_location i l h) j = (if j = i \<and> i \<in> dom (descs h) then l else location h j)"
  by (auto simp: heap_op_defs desc_defs split: option.splits)

lemma location_update_slice [heap_simps]:
  "location (update_slice i s h) j =
     (if j = i \<and> i \<in> dom (descs h) then (location h i)\<lparr>loc_slice := s\<rparr> else location h j)"
  by (auto simp: heap_op_defs desc_defs split: option.splits)

lemma location_update_page [heap_simps]:
  "location (update_page i p h) j =
     (if j = i \<and> i \<in> dom (descs h) then (location h i)\<lparr>loc_page := p\<rparr> else location h j)"
  by (auto simp: heap_op_defs desc_defs split: option.splits)

lemma location_clone_handle [heap_simps]: "location (clone_handle i h) j = location h j"
  by (auto simp: heap_op_defs desc_defs split: option.splits)

lemma location_binding [heap_simps]: "location (binding i h) j = location h j"
  by (auto simp: heap_op_defs desc_defs split: option.splits)

lemma location_clone_binding [heap_simps]: "location (clone_binding i h) j = location h j"
  by (auto simp: heap_op_defs desc_defs split: option.splits)

lemma location_drop_handle [heap_simps]: "j \<noteq> i \<Longrightarrow> location (drop_handle i h) j = location h j"
  by (auto simp: heap_op_defs desc_defs split: option.splits)

lemma location_handle_new [heap_simps]:
  "location (snd (handle_new h)) j = (if j = next_id h then uninit else location h j)"
  by (simp add: location_def)

lemma strong_update [heap_simps]:
  "strong_count (update_location i l h) j = strong_count h j"
  "strong_count (update_slice i s h) j = strong_count h j"
  "strong_count (update_page i p h) j = strong_count h j"
  "strong_count (binding i h) j = strong_count h j"
  by (auto simp: heap_op_defs desc_defs split: option.splits)

lemma strong_clone [heap_simps]:
  "strong_count (clone_handle i h) j =
     strong_count h j + (if j = i \<and> i \<in> dom (descs h) then 1 else 0)"
  "strong_count (clone_binding i h) j =
     strong_count h j + (if j = i \<and> i \<in> dom (descs h) then 1 else 0)"
  by (auto simp: heap_op_defs desc_defs split: option.splits)

lemma strong_drop [heap_simps]:
  "strong_count (drop_handle i h) j = strong_count h j - (if j = i then 1 else 0)"
  "strong_count (drop_binding i h) j = strong_count h j - (if j = i then 1 else 0)"
  by (auto simp: heap_op_defs desc_defs split: option.splits)

lemma strong_handle_new [heap_simps]:
  "strong_count (snd (handle_new h)) j = (if j = next_id h then 1 else strong_count h j)"
  by (simp add: strong_count_def)

lemma handles_update [heap_simps]:
  "handle_count (update_location i l h) j = handle_count h j"
  "handle_count (update_slice i s h) j = handle_count h j"
  "handle_count (update_page i p h) j = handle_count h j"
  "handle_count (clone_binding i h) j = handle_count h j"
  by (auto simp: heap_op_defs desc_defs split: option.splits)

lemma dom_heap_ops [heap_simps]:
  "dom (descs (update_location i l h)) = dom (descs h)"
  "dom (descs (update_slice i s h)) = dom (descs h)"
  "dom (descs (update_page i p h)) = dom (descs h)"
  "dom (descs (clone_handle i h)) = dom (descs h)"
  "dom (descs (clone_binding i h)) = dom (descs h)"
  "dom (descs (binding i h)) = dom (descs h)"
  "dom (descs (snd (handle_new h))) = insert (next_id h) (dom (descs h))"
  by (auto simp: heap_op_defs desc_defs dom_def split: option.splits if_splits)

lemma dom_drop_handle [heap_simps]:
  "dom (descs (drop_handle i h)) = (if strong_count h i \<le> 1 then dom (descs h) - {i} else dom (descs h))"
  by (auto simp: heap_op_defs desc_defs dom_def split: option.splits if_splits)

lemma heap_ok_modify:
  assumes "heap_ok h"
    and "\<And>d d'. descs h i = Some d \<Longrightarrow> 1 \<le> strong d \<Longrightarrow> handles d \<le> strong d \<Longrightarrow> f d = Some d' \<Longrightarrow>
      1 \<le> strong d' \<and> handles d' \<le> strong d'"
  shows "heap_ok (modify i f h)"
  unfolding heap_ok_def
proof (intro allI impI)
  fix j d' assume d': "descs (modify i f h) j = Some d'"
  show "j < next_id (modify i f h) \<and> 1 \<le> strong d' \<and> handles d' \<le> strong d'"
  proof (cases "j = i")
    case True
    with d' obtain d where "descs h i = Some d" "f d = Some d'"
      by (auto simp: descs_modify bind_eq_Some_conv)
    with assms True show ?thesis by (auto simp: heap_ok_def)
  next
    case False
    with d' assms(1) show ?thesis by (auto simp: descs_modify heap_ok_def)
  qed
qed

lemma heap_ok_ops:
  assumes "heap_ok h"
  shows "heap_ok (update_location i l h)" "heap_ok (update_slice i s h)"
    "heap_ok (update_page i p h)" "heap_ok (clone_handle i h)" "heap_ok (clone_binding i h)"
    "heap_ok (binding i h)" "heap_ok (drop_handle i h)" "heap_ok (snd (handle_new h))"
    and "is_bound h i \<Longrightarrow> heap_ok (drop_binding i h)"
proof -
  show "heap_ok (snd (handle_new h))"
    using assms by (auto simp: heap_ok_def less_Suc_eq)
qed (auto simp: heap_op_defs is_bound_def handle_count_def strong_count_def intro!: heap_ok_modify assms
    split: if_splits)

lemma heap_ok_fresh: "heap_ok h \<Longrightarrow> i \<in> dom (descs h) \<Longrightarrow> i < next_id h"
  by (auto simp: heap_ok_def)

lemma heap_ok_strong: "heap_ok h \<Longrightarrow> i \<in> dom (descs h) \<longleftrightarrow> 0 < strong_count h i"
  by (force simp: heap_ok_def strong_count_def dom_def split: option.splits)

text \<open>A location packed into its 64-bit word is read back field by field, every word is the
  packing of exactly one location, and updating the slice or the page of a descriptor changes
  that field alone.\<close>

theorem location_packing:
  "from_bits (to_bits l) = l \<and> to_bits (from_bits b) = b \<and>
   (i \<in> dom (descs h) \<longrightarrow>
      location (update_slice i s h) i = (location h i)\<lparr>loc_slice := s\<rparr> \<and>
      location (update_page i p h) i = (location h i)\<lparr>loc_page := p\<rparr>)"
  by (simp add: heap_simps)

theorem location_packing_witness:
  "location (update_slice 0 5 (update_location 0 (location_new 2 7 1) (snd (handle_new heap_empty)))) 0
     = location_new 2 7 5"
proof -
  have "0 \<in> dom (descs (update_location 0 (location_new 2 7 1) (snd (handle_new heap_empty))))"
    by (simp add: heap_simps heap_empty_def)
  with location_packing [of "location_new 2 7 1" 0 0
      "update_location 0 (location_new 2 7 1) (snd (handle_new heap_empty))" 5 0]
  show ?thesis by (simp add: heap_simps heap_empty_def location_new_def)
qed

text \<open>A weak binding comes back exactly while something other than the pool's own handle holds
  the allocation, and it then holds it too; a free slice's allocation is never handed back, and
  the heap stays consistent.\<close>

theorem upgrade_only_while_owned:
  assumes "heap_ok h"
  shows "case upgrade i h of (r, h') \<Rightarrow>
    (r = None \<longleftrightarrow> is_free h i) \<and> heap_ok h' \<and> (r = None \<longrightarrow> h' = h) \<and>
    (r = Some i \<longrightarrow> strong_count h' i = Suc (strong_count h i) \<and> is_bound h' i)"
proof -
  have "i \<in> dom (descs h)" if "\<not> strong_count h i \<le> 1"
    using that assms by (simp add: heap_ok_strong)
  moreover have "handle_count h i \<le> strong_count h i"
    using assms by (auto simp: heap_ok_def handle_count_def strong_count_def split: option.split)
  ultimately show ?thesis
    using assms by (auto simp: upgrade_def is_free_def is_bound_def heap_ok_ops heap_simps)
qed

theorem upgrade_only_while_owned_witness:
  "fst (upgrade 0 (snd (handle_new heap_empty))) = None \<and>
   fst (upgrade 0 (clone_handle 0 (snd (handle_new heap_empty)))) = Some 0"
proof -
  have e: "heap_ok heap_empty" by (simp add: heap_ok_def heap_empty_def)
  have "heap_ok (snd (handle_new heap_empty))"
    "heap_ok (clone_handle 0 (snd (handle_new heap_empty)))"
    by (intro heap_ok_ops e)+
  from upgrade_only_while_owned [OF this(1), of 0] upgrade_only_while_owned [OF this(2), of 0]
  show ?thesis
    by (simp add: upgrade_def is_free_def heap_simps heap_empty_def)
qed

end
