(* ===== verification/Error_Graph.thy ===== *)
theory Error_Graph
  imports Prelude
begin

text \<open>
  The device-wide store of failures (\<open>memory_management/error_graph.rs\<close>): a node per failure,
  counted by the allocations that carry its id, with the launches it stopped. A \<open>HashMap\<close> is a
  partial map. A panic of the code (\<open>expect\<close> on a missing node, exhausted ids) sets
  \<open>panicked\<close>; nothing is claimed of the rest of a panicked state.

  \<open>failure_ledger\<close> is the contract the carriers of ids rely on; it is interpreted on the graph
  at the end of the theory.
\<close>

type_synonym failure_id = nat
type_synonym memory_id = nat

section \<open>Data\<close>

text \<open>\<open>Skipped\<close>: one launch a failure stopped. The kernel is its short name.\<close>

record skipped =
  kernel :: string
  needed :: memory_id
  produced :: "memory_id list"

text \<open>
  The lines of a report, as data instead of formatted text, and the errors the graph makes
  itself; \<open>TornDown\<close> and \<open>SkippedLaunch\<close> are the errors of the write scopes (\<open>ServerError::TornDown\<close>,
  \<open>ServerError::Skipped\<close>), and \<open>Other\<close> stands for every other \<open>ServerError\<close>, which is only stored
  and cloned.
\<close>

datatype chain_line = SkippedLine string memory_id | DroppedLine nat

datatype server_error =
    Unwritten failure_id nat "chain_line list" server_error
  | Several "server_error list"
  | NeverAllocated memory_id
  | TornDown
  | SkippedLaunch
  | Other string

datatype claim = Failed failure_id memory_id | Unallocated memory_id

record failure =
  error :: server_error
  tagged :: nat
  skips :: "skipped list"
  skipped_total :: nat

record error_graph =
  nodes :: "failure_id \<rightharpoonup> failure"
  minted :: nat
  panicked :: bool

definition graph_default :: error_graph where
  "graph_default = \<lparr>nodes = Map.empty, minted = 0, panicked = False\<rparr>"

definition max_skipped :: nat where
  "max_skipped = 16"

section \<open>Operations\<close>

definition insert_failure :: "server_error \<Rightarrow> error_graph \<Rightarrow> failure_id \<times> error_graph" where
  "insert_failure err g =
     (if minted g + 1 < 2 ^ 64 then
        (minted g + 1,
         g\<lparr>minted := minted g + 1,
           nodes := (nodes g)(minted g + 1 \<mapsto>
             \<lparr>error = err, tagged = 0, skips = [], skipped_total = 0\<rparr>)\<rparr>)
      else (0, g\<lparr>panicked := True\<rparr>))"

definition push_skip :: "skipped \<Rightarrow> failure \<Rightarrow> failure" where
  "push_skip r n =
     (let kept = (if length (skips n) = max_skipped then remove_at 0 (skips n) else skips n)
      in n\<lparr>skipped_total := skipped_total n + 1, skips := kept @ [r]\<rparr>)"

definition record_skipped :: "failure_id \<Rightarrow> skipped \<Rightarrow> error_graph \<Rightarrow> error_graph" where
  "record_skipped f r g =
     (case nodes g f of None \<Rightarrow> g | Some n \<Rightarrow> g\<lparr>nodes := (nodes g)(f \<mapsto> push_skip r n)\<rparr>)"

text \<open>The loop of \<open>report\<close>: from \<open>target\<close>, the last record before \<open>upper\<close> that produced it.\<close>

function walk :: "skipped list \<Rightarrow> memory_id \<Rightarrow> nat \<Rightarrow> chain_line list" where
  "walk sk target upper =
     (case rposition (\<lambda>r. target \<in> set (produced r)) (take upper sk) of
        None \<Rightarrow> []
      | Some found \<Rightarrow>
          SkippedLine (kernel (sk ! found)) (needed (sk ! found))
            # walk sk (needed (sk ! found)) found)"
  by pat_completeness auto
termination
  by (relation "measure (\<lambda>(sk, target, upper). upper)") (auto dest!: rposition_Some)

declare walk.simps [simp del]

definition report :: "error_graph \<Rightarrow> failure_id \<Rightarrow> memory_id \<Rightarrow> server_error option" where
  "report g f memory =
     (case nodes g f of
        None \<Rightarrow> None
      | Some n \<Rightarrow>
          let chain = walk (skips n) memory (length (skips n));
              dropped = skipped_total n - length (skips n);
              chain = (if chain \<noteq> [] \<and> 0 < dropped then chain @ [DroppedLine dropped] else chain)
          in Some (Unwritten f (tagged n) chain (error n)))"

fun reports_loop :: "error_graph \<Rightarrow> claim list \<Rightarrow> failure_id list \<Rightarrow> server_error list" where
  "reports_loop g [] seen = []"
| "reports_loop g (Unallocated m # cs) seen = NeverAllocated m # reports_loop g cs seen"
| "reports_loop g (Failed f m # cs) seen =
     (if f \<in> set seen then reports_loop g cs seen
      else (case report g f m of
              Some e \<Rightarrow> e # reports_loop g cs (seen @ [f])
            | None \<Rightarrow> reports_loop g cs (seen @ [f])))"

definition reports :: "error_graph \<Rightarrow> claim list \<Rightarrow> (server_error, unit) outcome" where
  "reports g cs =
     (let errors = reports_loop g cs [] in if errors = [] then Ok () else Err (Several errors))"

definition tag :: "failure_id \<Rightarrow> error_graph \<Rightarrow> error_graph" where
  "tag f g = (case nodes g f of
     None \<Rightarrow> g\<lparr>panicked := True\<rparr>
   | Some n \<Rightarrow> g\<lparr>nodes := (nodes g)(f \<mapsto> n\<lparr>tagged := tagged n + 1\<rparr>)\<rparr>)"

definition untag :: "failure_id option \<Rightarrow> error_graph \<Rightarrow> error_graph" where
  "untag fo g = (case fo of
     None \<Rightarrow> g
   | Some f \<Rightarrow> (case nodes g f of
       None \<Rightarrow> g\<lparr>panicked := True\<rparr>
     | Some n \<Rightarrow>
         if tagged n - 1 = 0 then g\<lparr>nodes := (nodes g)(f := None)\<rparr>
         else g\<lparr>nodes := (nodes g)(f \<mapsto> n\<lparr>tagged := tagged n - 1\<rparr>)\<rparr>))"

definition replace :: "failure_id \<Rightarrow> server_error \<Rightarrow> error_graph \<Rightarrow> error_graph" where
  "replace f err g = (case nodes g f of
     None \<Rightarrow> g | Some n \<Rightarrow> g\<lparr>nodes := (nodes g)(f \<mapsto> n\<lparr>error := err\<rparr>)\<rparr>)"

definition prune :: "failure_id \<Rightarrow> error_graph \<Rightarrow> error_graph" where
  "prune f g = (case nodes g f of
     None \<Rightarrow> g
   | Some n \<Rightarrow> if tagged n = 0 then g\<lparr>nodes := (nodes g)(f := None)\<rparr> else g)"

definition graph_error :: "error_graph \<Rightarrow> failure_id \<Rightarrow> server_error option" where
  "graph_error g f = map_option error (nodes g f)"

definition graph_len :: "error_graph \<Rightarrow> nat" where
  "graph_len g = card (dom (nodes g))"

section \<open>The contract of the carriers\<close>

text \<open>
  How many carriers a failure has, and whether its node is held. What \<open>Taint\<close> relies on is that
  \<open>tag\<close> and \<open>untag\<close> move the count of their own failure by one and leave every other alone,
  and that balanced use never panics.
\<close>

locale failure_ledger =
  fixes count :: "'g \<Rightarrow> 'f \<Rightarrow> nat"
    and held :: "'g \<Rightarrow> 'f \<Rightarrow> bool"
    and broken :: "'g \<Rightarrow> bool"
    and inc :: "'f \<Rightarrow> 'g \<Rightarrow> 'g"
    and dec :: "'f \<Rightarrow> 'g \<Rightarrow> 'g"
  assumes count_held: "0 < count g f \<Longrightarrow> held g f"
    and count_inc: "held g f \<Longrightarrow> count (inc f g) x = count g x + (if x = f then 1 else 0)"
    and count_dec: "count (dec f g) x = count g x - (if x = f then 1 else 0)"
    and held_inc: "held g f \<Longrightarrow> held (inc f g) x = held g x"
    and held_dec: "x \<noteq> f \<Longrightarrow> held (dec f g) x = held g x"
    and held_dec_same: "held (dec f g) f \<longleftrightarrow> 1 < count g f"
    and broken_inc: "held g f \<Longrightarrow> broken (inc f g) = broken g"
    and broken_dec: "held g f \<Longrightarrow> broken (dec f g) = broken g"
begin

definition release :: "'f list \<Rightarrow> 'g \<Rightarrow> 'g" where
  "release fs g = foldl (\<lambda>g f. dec f g) g fs"

lemma release_simps [simp]: "release [] g = g" "release (f # fs) g = release fs (dec f g)"
  by (simp_all add: release_def)

lemma count_release: "count (release fs g) x = count g x - count_list fs x"
  by (induction fs arbitrary: g) (auto simp: count_dec)

lemma held_release: "x \<notin> set fs \<Longrightarrow> held (release fs g) x = held g x"
  by (induction fs arbitrary: g) (auto simp: held_dec)

lemma broken_release:
  "\<forall>f \<in> set fs. count_list fs f \<le> count g f \<Longrightarrow> broken (release fs g) = broken g"
proof (induction fs arbitrary: g)
  case Nil
  then show ?case by simp
next
  case (Cons f fs)
  then have "0 < count g f" by fastforce
  moreover have "\<forall>x \<in> set fs. count_list fs x \<le> count (dec f g) x"
    using Cons.prems by (fastforce simp: count_dec)
  ultimately show ?case
    using Cons.IH by (simp add: broken_dec count_held)
qed

end

definition tags :: "error_graph \<Rightarrow> failure_id \<Rightarrow> nat" where
  "tags g f = (case nodes g f of None \<Rightarrow> 0 | Some n \<Rightarrow> tagged n)"

definition is_held :: "error_graph \<Rightarrow> failure_id \<Rightarrow> bool" where
  "is_held g f \<longleftrightarrow> nodes g f \<noteq> None"

interpretation graph: failure_ledger tags is_held panicked tag "\<lambda>f. untag (Some f)"
proof unfold_locales
  fix g :: error_graph and f x
  show "0 < tags g f \<Longrightarrow> is_held g f"
    by (auto simp: tags_def is_held_def split: option.splits)
  show "is_held g f \<Longrightarrow> tags (tag f g) x = tags g x + (if x = f then 1 else 0)"
    by (auto simp: tags_def is_held_def tag_def)
  show "tags (untag (Some f) g) x = tags g x - (if x = f then 1 else 0)"
    by (auto simp: tags_def untag_def split: option.splits)
  show "is_held g f \<Longrightarrow> is_held (tag f g) x = is_held g x"
    by (auto simp: is_held_def tag_def split: if_splits)
  show "x \<noteq> f \<Longrightarrow> is_held (untag (Some f) g) x = is_held g x"
    by (auto simp: is_held_def untag_def split: option.splits)
  show "is_held (untag (Some f) g) f \<longleftrightarrow> 1 < tags g f"
    by (auto simp: tags_def is_held_def untag_def split: option.splits)
  show "is_held g f \<Longrightarrow> panicked (tag f g) = panicked g"
    by (auto simp: is_held_def tag_def)
  show "is_held g f \<Longrightarrow> panicked (untag (Some f) g) = panicked g"
    by (auto simp: is_held_def untag_def split: if_splits)
qed

lemmas graph_laws = graph.count_inc graph.count_dec graph.held_inc graph.held_dec
  graph.held_dec_same graph.broken_inc graph.broken_dec

section \<open>The skip records\<close>

lemma push_skip_history:
  assumes "skips n = drop (length hs - max_skipped) hs" "skipped_total n = length hs"
  shows "skips (push_skip r n) = drop (length (hs @ [r]) - max_skipped) (hs @ [r])"
    and "skipped_total (push_skip r n) = length (hs @ [r])"
proof -
  show "skips (push_skip r n) = drop (length (hs @ [r]) - max_skipped) (hs @ [r])"
  proof (cases "length hs < max_skipped")
    case True
    with assms show ?thesis by (simp add: push_skip_def)
  next
    case False
    then have "drop (Suc 0) (drop (length hs - max_skipped) hs) = drop (Suc (length hs) - max_skipped) hs"
      by (simp add: Suc_diff_le)
    with False assms show ?thesis by (simp add: push_skip_def remove_at_def max_skipped_def)
  qed
qed (simp add: push_skip_def assms(2) Let_def)

text \<open>A failure keeps exactly the newest 16 launches it stopped, in order, and counts them all:
  after recording \<open>rs\<close> on a failure just inserted, its records are the last 16 of \<open>rs\<close>.\<close>

theorem skips_keep_newest:
  assumes "insert_failure err g = (f, g')" "minted g + 1 < 2 ^ 64"
  shows "\<exists>n. nodes (fold (record_skipped f) rs g') f = Some n \<and>
    skips n = drop (length rs - max_skipped) rs \<and> skipped_total n = length rs \<and> error n = err"
proof (induction rs rule: rev_induct)
  case Nil
  show ?case using assms by (auto simp: insert_failure_def split: if_splits)
next
  case (snoc r rs)
  then obtain n where n: "nodes (fold (record_skipped f) rs g') f = Some n"
    "skips n = drop (length rs - max_skipped) rs" "skipped_total n = length rs" "error n = err"
    by blast
  have "error (push_skip r n) = err" by (simp add: push_skip_def n(4) Let_def)
  moreover have "nodes (record_skipped f r h) f = Some (push_skip r n)" if "nodes h f = Some n" for h
    using that by (simp add: record_skipped_def)
  ultimately show ?case
    using n(1) push_skip_history [OF n(2,3), of r] by simp
qed

theorem skips_keep_newest_witness:
  "\<exists>n. nodes (fold (record_skipped 1)
       (map (\<lambda>i. \<lparr>kernel = ''k'', needed = i, produced = [i + 1]\<rparr>) [0..<20])
       (snd (insert_failure (Other ''oom'') graph_default))) 1 = Some n \<and>
     map needed (skips n) = [4..<20] \<and> skipped_total n = 20"
proof -
  let ?rs = "map (\<lambda>i. \<lparr>kernel = ''k'', needed = i, produced = [i + 1]\<rparr>) [0..<20]"
  have "insert_failure (Other ''oom'') graph_default =
      (1, snd (insert_failure (Other ''oom'') graph_default))"
    by (simp add: insert_failure_def graph_default_def)
  from skips_keep_newest [OF this, of ?rs] show ?thesis
    by (auto simp: graph_default_def drop_map max_skipped_def o_def)
qed

section \<open>The report of a failure\<close>

text \<open>
  \<open>chained sk t u is\<close>: \<open>is\<close> are the positions of a walk that starts at the memory \<open>t\<close>, looks
  only before \<open>u\<close>, takes at every step the newest record that produced the current memory, goes
  on from what that launch needed, and stops only where no older record produced it.
\<close>

fun chained :: "skipped list \<Rightarrow> memory_id \<Rightarrow> nat \<Rightarrow> nat list \<Rightarrow> bool" where
  "chained sk t u [] \<longleftrightarrow> (\<forall>r \<in> set (take u sk). t \<notin> set (produced r))"
| "chained sk t u (i # is) \<longleftrightarrow>
     i < u \<and> i < length sk \<and> t \<in> set (produced (sk ! i)) \<and>
     (\<forall>r \<in> set (drop (Suc i) (take u sk)). t \<notin> set (produced r)) \<and>
     chained sk (needed (sk ! i)) i is"

lemma rposition_newest:
  assumes "rposition P xs = Some i"
  shows "\<forall>x \<in> set (drop (Suc i) xs). \<not> P x"
proof
  fix x assume "x \<in> set (drop (Suc i) xs)"
  then obtain k where k: "k < length xs - Suc i" "x = xs ! (Suc i + k)"
    by (auto simp: in_set_conv_nth)
  from assms obtain j where j: "position P (rev xs) = Some j" "i = length xs - 1 - j"
    by (auto simp: rposition_def)
  with position_Some [OF j(1)] k have "length xs - 1 - (Suc i + k) < j" by auto
  with position_Some [OF j(1)] have "\<not> P (rev xs ! (length xs - 1 - (Suc i + k)))" by blast
  with k show "\<not> P x" by (simp add: rev_nth)
qed

lemma walk_chained:
  "\<exists>is. walk sk t u = map (\<lambda>i. SkippedLine (kernel (sk ! i)) (needed (sk ! i))) is \<and>
     chained sk t u is"
proof (induction sk t u rule: walk.induct)
  case (1 sk t u)
  show ?case
  proof (cases "rposition (\<lambda>r. t \<in> set (produced r)) (take u sk)")
    case None
    then have "\<forall>r \<in> set (take u sk). t \<notin> set (produced r)" by (simp add: rposition_None)
    with None show ?thesis
      by (intro exI [of _ "[]"]) (simp add: walk.simps [of sk t u])
  next
    case (Some i)
    obtain "is" where is': "walk sk (needed (sk ! i)) i =
        map (\<lambda>i. SkippedLine (kernel (sk ! i)) (needed (sk ! i))) is"
      "chained sk (needed (sk ! i)) i is"
      using "1.IH" [OF Some] by blast
    with rposition_Some [OF Some] rposition_newest [OF Some] Some show ?thesis
      by (intro exI [of _ "i # is"]) (auto simp: walk.simps [of sk t u])
  qed
qed

lemma chained_length: "chained sk t u is \<Longrightarrow> length is \<le> u"
  by (induction "is" arbitrary: t u) fastforce+

text \<open>The report a read gets names the stored root error and a genuine skip path: every line is
  a recorded launch, the newest one that would have produced the memory the walk is at, the walk
  goes on from what that launch needed, and it stops only when no older record is left; a note
  about dropped records is added exactly when records were dropped and the path is not empty.\<close>

theorem report_walks_the_skip_path:
  assumes "nodes g f = Some n"
  shows "\<exists>is dropped. report g f m =
      Some (Unwritten f (tagged n)
        (map (\<lambda>i. SkippedLine (kernel (skips n ! i)) (needed (skips n ! i))) is @ dropped) (error n)) \<and>
    chained (skips n) m (length (skips n)) is \<and> length is \<le> length (skips n) \<and>
    dropped = (if is \<noteq> [] \<and> length (skips n) < skipped_total n
      then [DroppedLine (skipped_total n - length (skips n))] else [])"
proof -
  obtain "is" where w: "walk (skips n) m (length (skips n)) =
      map (\<lambda>i. SkippedLine (kernel (skips n ! i)) (needed (skips n ! i))) is"
    and c: "chained (skips n) m (length (skips n)) is"
    using walk_chained by blast
  show ?thesis
    by (rule exI [of _ "is"]) (use w c chained_length [OF c] assms in \<open>simp add: report_def\<close>)
qed

definition skip_chain_graph :: error_graph where
  "skip_chain_graph = fold (record_skipped 1)
     [\<lparr>kernel = ''a'', needed = 1, produced = [2]\<rparr>, \<lparr>kernel = ''b'', needed = 2, produced = [3]\<rparr>]
     (snd (insert_failure (Other ''root'') graph_default))"

definition skip_chain_node :: failure where
  "skip_chain_node = \<lparr>error = Other ''root'', tagged = 0,
     skips = [\<lparr>kernel = ''a'', needed = 1, produced = [2]\<rparr>,
       \<lparr>kernel = ''b'', needed = 2, produced = [3]\<rparr>], skipped_total = 2\<rparr>"

lemma skip_chain_graph_node: "nodes skip_chain_graph 1 = Some skip_chain_node"
  by (simp add: skip_chain_graph_def insert_failure_def graph_default_def record_skipped_def
      push_skip_def max_skipped_def skip_chain_node_def)

theorem report_walks_the_skip_path_witness:
  "\<exists>is chain. report skip_chain_graph 1 3 =
       Some (Unwritten 1 (tagged skip_chain_node) chain (error skip_chain_node)) \<and>
     chained (skips skip_chain_node) 3 (length (skips skip_chain_node)) is"
  using report_walks_the_skip_path [OF skip_chain_graph_node, of 3] by blast

lemma reports_loop_errors:
  "length (reports_loop g cs seen) =
     length (filter (\<lambda>c. case c of Unallocated m \<Rightarrow> True | _ \<Rightarrow> False) cs) +
     card {f. (\<exists>m. Failed f m \<in> set cs) \<and> is_held g f \<and> f \<notin> set seen}"
proof (induction g cs seen rule: reports_loop.induct)
  case (3 g f m cs seen)
  let ?S = "\<lambda>cs seen. {f. (\<exists>m. Failed f m \<in> set cs) \<and> is_held g f \<and> f \<notin> set seen}"
  have fin: "finite (?S cs seen')" for seen'
    by (rule finite_subset [of _ "(\<lambda>c. case c of Failed f m \<Rightarrow> f | _ \<Rightarrow> 0) ` set cs"]) force+
  show ?case
  proof (cases "f \<in> set seen")
    case True
    then have "?S (Failed f m # cs) seen = ?S cs seen" by auto
    with True 3 show ?thesis by simp
  next
    case False
    show ?thesis
    proof (cases "nodes g f")
      case None
      then have "?S (Failed f m # cs) seen = ?S cs (seen @ [f])" by (auto simp: is_held_def)
      with False None 3 show ?thesis by (simp add: report_def)
    next
      case (Some n)
      then obtain e where e: "report g f m = Some e" by (auto simp: report_def Let_def)
      define A where "A = ?S cs (seen @ [f])"
      have "finite A" and "f \<notin> A" using fin [of "seen @ [f]"] by (simp_all add: A_def)
      moreover from Some False have "?S (Failed f m # cs) seen = insert f A"
        by (auto simp: is_held_def A_def)
      ultimately have "card (?S (Failed f m # cs) seen) = Suc (card (?S cs (seen @ [f])))"
        by (metis A_def card_insert_disjoint)
      with False e 3 show ?thesis by simp
    qed
  qed
qed simp_all

text \<open>A read is answered with one error per distinct failure the device still holds among the
  claims found, however many buffers carry it, and one per buffer never allocated; it succeeds
  exactly when there is none.\<close>

theorem reports_once_per_failure:
  "reports g cs = Ok () \<and> N = 0 \<or>
   (\<exists>errors. reports g cs = Err (Several errors) \<and> length errors = N \<and> 0 < N)"
  if "N = length (filter (\<lambda>c. case c of Unallocated m \<Rightarrow> True | _ \<Rightarrow> False) cs) +
     card {f. (\<exists>m. Failed f m \<in> set cs) \<and> is_held g f}"
proof -
  have "length (reports_loop g cs []) = N"
    using reports_loop_errors [of g cs "[]"] that by simp
  then show ?thesis by (cases "reports_loop g cs []") (auto simp: reports_def)
qed

theorem reports_once_per_failure_witness:
  "(\<exists>errors. reports skip_chain_graph [Failed 1 2, Failed 1 3, Unallocated 9] = Err (Several errors) \<and>
     length errors = 2)"
proof -
  have s: "{f. (\<exists>m. Failed f m \<in> set [Failed 1 2, Failed 1 3, Unallocated 9]) \<and>
      is_held skip_chain_graph f} = {1}"
    using skip_chain_graph_node by (auto simp: is_held_def)
  show ?thesis
    using reports_once_per_failure [of 2 "[Failed 1 2, Failed 1 3, Unallocated 9]" skip_chain_graph]
    unfolding s by auto
qed

end
