(* ===== verification/Taint.thy ===== *)
theory Taint
  imports Error_Graph
begin

text \<open>
  The tainted regions of one allocation (\<open>memory_management/taint.rs\<close>): per failure, the byte
  ranges it left unwritten. The specification is a partial map from bytes to the failure that
  claims them; \<open>taint\<close> overrides it on a range, \<open>written\<close> erases it there. The carrier side of
  the failure count goes through the contract \<open>failure_ledger\<close> of \<open>Error_Graph\<close>.
\<close>

type_synonym range = "nat \<times> nat"

record tainted =
  t_failure :: failure_id
  t_ranges :: "range list"

type_synonym taint = "tainted list"

section \<open>Operations\<close>

fun range_is_empty :: "range \<Rightarrow> bool" where
  "range_is_empty (s, e) \<longleftrightarrow> \<not> s < e"

fun overlaps :: "range \<Rightarrow> range \<Rightarrow> bool" where
  "overlaps (s, e) (s', e') \<longleftrightarrow> max s s' < min e e'"

text \<open>The \<open>while\<close> loop of \<open>subtract\<close>, which leaves what is before its index alone.\<close>

fun subtract :: "range list \<Rightarrow> range \<Rightarrow> range list" where
  "subtract [] gap = []"
| "subtract (held # rs) gap =
     (if \<not> overlaps held gap then held # subtract rs gap
      else
        let left = (fst held, min (fst gap) (snd held));
            right = (max (snd gap) (fst held), snd held)
        in (case (range_is_empty left, range_is_empty right) of
              (True, True) \<Rightarrow> subtract rs gap
            | (False, True) \<Rightarrow> left # subtract rs gap
            | (True, False) \<Rightarrow> right # subtract rs gap
            | (False, False) \<Rightarrow> left # right # subtract rs gap))"

text \<open>The \<open>retain\<close> of \<open>add\<close>, whose closure grows \<open>new\<close> as it fuses.\<close>

fun fuse :: "range list \<Rightarrow> range \<Rightarrow> range list \<times> range" where
  "fuse [] new = ([], new)"
| "fuse (held # rs) new =
     (if fst held \<le> snd new \<and> fst new \<le> snd held
      then fuse rs (min (fst new) (fst held), max (snd new) (snd held))
      else (case fuse rs new of (kept, new') \<Rightarrow> (held # kept, new')))"

definition add_range :: "range list \<Rightarrow> range \<Rightarrow> range list" where
  "add_range rs new = (case fuse rs new of (kept, new') \<Rightarrow>
     insert_at (case position (\<lambda>held. snd new' < fst held) kept of Some i \<Rightarrow> i | None \<Rightarrow> length kept)
       new' kept)"

text \<open>
  The \<open>retain_mut\<close> that \<open>taint\<close> and \<open>written\<close> share: cut the range out of every entry the
  test does not spare, and release the failure of an entry left with nothing.
\<close>

fun retain_cut :: "(tainted \<Rightarrow> bool) \<Rightarrow> range \<Rightarrow> taint \<Rightarrow> error_graph \<Rightarrow> taint \<times> error_graph" where
  "retain_cut spare gap [] g = ([], g)"
| "retain_cut spare gap (e # es) g =
     (if spare e then (case retain_cut spare gap es g of (es', g') \<Rightarrow> (e # es', g'))
      else
        let rs = subtract (t_ranges e) gap
        in if rs = [] then retain_cut spare gap es (untag (Some (t_failure e)) g)
           else (case retain_cut spare gap es g of (es', g') \<Rightarrow> (e\<lparr>t_ranges := rs\<rparr> # es', g')))"

fun add_to_entry :: "taint \<Rightarrow> failure_id \<Rightarrow> range \<Rightarrow> taint" where
  "add_to_entry [] f r = []"
| "add_to_entry (e # es) f r =
     (if t_failure e = f then e\<lparr>t_ranges := add_range (t_ranges e) r\<rparr> # es
      else e # add_to_entry es f r)"

definition taint :: "range \<Rightarrow> failure_id \<Rightarrow> taint \<Rightarrow> error_graph \<Rightarrow> taint \<times> error_graph" where
  "taint r f es g =
     (if range_is_empty r then (es, g)
      else (case retain_cut (\<lambda>e. t_failure e = f) r es g of (es', g') \<Rightarrow>
        (case find (\<lambda>e. t_failure e = f) es' of
           Some e \<Rightarrow> (add_to_entry es' f r, g')
         | None \<Rightarrow> (es' @ [\<lparr>t_failure = f, t_ranges = [r]\<rparr>], tag f g'))))"

definition written :: "range \<Rightarrow> taint \<Rightarrow> error_graph \<Rightarrow> taint \<times> error_graph" where
  "written r es g = (if range_is_empty r then (es, g) else retain_cut (\<lambda>_. False) r es g)"

definition failure_of :: "taint \<Rightarrow> range \<Rightarrow> failure_id option" where
  "failure_of es r =
     map_option t_failure (find (\<lambda>e. list_ex (\<lambda>held. overlaps held r) (t_ranges e)) es)"

definition clear :: "taint \<Rightarrow> error_graph \<Rightarrow> taint \<times> error_graph" where
  "clear es g = ([], foldl (\<lambda>g e. untag (Some (t_failure e)) g) g es)"

definition is_clean :: "taint \<Rightarrow> bool" where
  "is_clean es \<longleftrightarrow> es = []"

section \<open>Ranges as sets of bytes\<close>

definition bytes_of :: "range \<Rightarrow> nat set" where
  "bytes_of r = {fst r..<snd r}"

definition covers :: "range list \<Rightarrow> nat set" where
  "covers rs = (\<Union>r \<in> set rs. bytes_of r)"

text \<open>Sorted, never empty, and never touching: what the comment on \<open>Tainted::ranges\<close> promises.\<close>

fun ranges_ok :: "range list \<Rightarrow> bool" where
  "ranges_ok [] = True"
| "ranges_ok (r # rs) \<longleftrightarrow>
     fst r < snd r \<and> (\<forall>r' \<in> set rs. snd r < fst r') \<and> ranges_ok rs"

lemma covers_simps [simp]:
  "covers [] = {}" "covers (r # rs) = bytes_of r \<union> covers rs"
  "covers (rs @ rs') = covers rs \<union> covers rs'"
  by (auto simp: covers_def)

lemma overlaps_bytes: "overlaps a b \<longleftrightarrow> bytes_of a \<inter> bytes_of b \<noteq> {}"
proof -
  have "bytes_of a \<inter> bytes_of b = {max (fst a) (fst b)..<min (snd a) (snd b)}"
    by (auto simp: bytes_of_def)
  then show ?thesis by (cases a; cases b) (auto simp: not_less)
qed

lemma range_is_empty_bytes: "range_is_empty r \<longleftrightarrow> bytes_of r = {}"
  by (cases r) (auto simp: bytes_of_def)

lemma covers_subtract: "covers (subtract rs gap) = covers rs - bytes_of gap"
proof (induction rs)
  case Nil
  then show ?case by simp
next
  case (Cons held rs)
  show ?case
  proof (cases "overlaps held gap")
    case False
    then have "bytes_of held \<inter> bytes_of gap = {}" by (simp add: overlaps_bytes)
    with False Cons.IH show ?thesis by auto
  next
    case True
    let ?l = "(fst held, min (fst gap) (snd held))" and ?r = "(max (snd gap) (fst held), snd held)"
    have split: "bytes_of held - bytes_of gap = bytes_of ?l \<union> bytes_of ?r"
      by (auto simp: bytes_of_def)
    show ?thesis
      using True Cons.IH split
      by (cases "range_is_empty ?l"; cases "range_is_empty ?r")
        (auto simp: range_is_empty_bytes Let_def simp del: range_is_empty.simps)
  qed
qed

lemma subtract_bounds:
  "r \<in> set (subtract rs gap) \<Longrightarrow> \<exists>r' \<in> set rs. fst r' \<le> fst r \<and> snd r \<le> snd r'"
proof (induction rs)
  case Nil
  then show ?case by simp
next
  case (Cons held rs)
  then show ?case
    by (auto simp: Let_def split: if_splits bool.splits)
qed

lemma ranges_ok_subtract:
  "ranges_ok rs \<Longrightarrow> fst gap < snd gap \<Longrightarrow> ranges_ok (subtract rs gap)"
proof (induction rs)
  case Nil
  then show ?case by simp
next
  case (Cons held rs)
  have rest: "snd held < fst r" if "r \<in> set (subtract rs gap)" for r
    using subtract_bounds [OF that] Cons.prems(1) by fastforce
  have "ranges_ok (subtract rs gap)" using Cons by simp
  with rest Cons.prems show ?case
    by (cases held; cases gap) (fastforce simp: Let_def split: bool.splits)
qed

lemma ranges_ok_sorted:
  "ranges_ok rs \<longleftrightarrow> (\<forall>r \<in> set rs. fst r < snd r) \<and> sorted_wrt (\<lambda>a b. snd a < fst b) rs"
  by (induction rs) auto

lemma bytes_of_fuse:
  assumes "fst a < snd a" "fst b < snd b" "fst a \<le> snd b" "fst b \<le> snd a"
  shows "bytes_of (min (fst b) (fst a), max (snd b) (snd a)) = bytes_of a \<union> bytes_of b"
  using assms by (auto simp: bytes_of_def min_def max_def)

lemma fuse_far: "(\<forall>r \<in> set rs. snd new < fst r) \<Longrightarrow> fuse rs new = (rs, new)"
  by (induction rs) auto

text \<open>What \<open>fuse\<close> leaves: the same bytes, and nothing that still touches the fused range.\<close>

definition fused :: "range list \<Rightarrow> range \<Rightarrow> range list \<times> range \<Rightarrow> bool" where
  "fused rs new res \<longleftrightarrow> (case res of (kept, new') \<Rightarrow>
     covers kept \<union> bytes_of new' = covers rs \<union> bytes_of new \<and>
     set kept \<subseteq> set rs \<and> ranges_ok kept \<and> fst new' < snd new' \<and>
     (\<forall>x. x < fst new \<and> (\<forall>r \<in> set rs. x < fst r) \<longrightarrow> x < fst new') \<and>
     (\<forall>k \<in> set kept. snd k < fst new' \<or> snd new' < fst k))"

lemma fuse_fused: "ranges_ok rs \<Longrightarrow> fst new < snd new \<Longrightarrow> fused rs new (fuse rs new)"
proof (induction rs arbitrary: new)
  case Nil
  then show ?case by (simp add: fused_def)
next
  case (Cons h rs)
  then have h: "fst h < snd h" "\<forall>r \<in> set rs. snd h < fst r" "ranges_ok rs" by auto
  consider (touch) "fst h \<le> snd new" "fst new \<le> snd h"
    | (right) "snd new < fst h" | (left) "snd h < fst new" by linarith
  then show ?case
  proof cases
    case touch
    let ?n = "(min (fst new) (fst h), max (snd new) (snd h))"
    have "fused rs ?n (fuse rs ?n)" using Cons.IH [of ?n] h Cons.prems(2) by (simp add: max_def min_def)
    moreover have "bytes_of ?n = bytes_of h \<union> bytes_of new"
      using bytes_of_fuse [of h new] touch h(1) Cons.prems(2) by simp
    ultimately show ?thesis
      using touch by (cases "fuse rs ?n") (auto simp: fused_def)
  next
    case right
    with h have "\<forall>r \<in> set (h # rs). snd new < fst r" by fastforce
    then have "fuse (h # rs) new = (h # rs, new)" by (rule fuse_far)
    with right Cons.prems show ?thesis
      using h by (force simp: fused_def)
  next
    case left
    obtain kept new' where f: "fuse rs new = (kept, new')" by (cases "fuse rs new")
    with Cons.IH [OF h(3) Cons.prems(2)] have fd: "fused rs new (kept, new')" by simp
    from left h fd have "snd h < fst new'" by (auto simp: fused_def)
    with left f fd h show ?thesis by (auto simp: fused_def)
  qed
qed

lemma covers_insert_at: "covers (insert_at i r rs) = bytes_of r \<union> covers rs"
  by (simp add: covers_def)

lemma ranges_ok_insert:
  assumes "ranges_ok kept" "fst new < snd new"
    and "\<forall>k \<in> set kept. snd k < fst new \<or> snd new < fst k"
    and "i = (case position (\<lambda>h. snd new < fst h) kept of Some i \<Rightarrow> i | None \<Rightarrow> length kept)"
  shows "ranges_ok (insert_at i new kept)"
proof -
  have before: "snd k < fst new" if "k \<in> set (take i kept)" for k
  proof -
    from that obtain j where j: "j < i" "j < length kept" "k = kept ! j"
      by (auto simp: in_set_conv_nth)
    have "\<not> snd new < fst k"
    proof (cases "position (\<lambda>h. snd new < fst h) kept")
      case None
      with j show ?thesis by (simp add: position_None)
    next
      case (Some a)
      with j assms(4) position_Some [OF Some] show ?thesis by simp
    qed
    with assms(3) j show ?thesis by force
  qed
  have after: "snd new < fst k" if "k \<in> set (drop i kept)" for k
  proof (cases "position (\<lambda>h. snd new < fst h) kept")
    case None
    with that assms(4) show ?thesis by simp
  next
    case (Some a)
    note p = position_Some [OF Some]
    with Some assms(4) have d: "drop i kept = kept ! a # drop (Suc a) kept"
      by (simp add: Cons_nth_drop_Suc)
    have "ranges_ok (drop i kept)"
      using assms(1) by (auto simp: ranges_ok_sorted sorted_wrt_drop dest: in_set_dropD)
    with d p that show ?thesis by (auto simp: ranges_ok_sorted)
  qed
  have "sorted_wrt (\<lambda>a b. snd a < fst b) (take i kept @ drop i kept)"
    using assms(1) by (simp add: ranges_ok_sorted)
  with before after assms(1,2) show ?thesis
    by (auto simp: ranges_ok_sorted insert_at_def sorted_wrt_append
        dest: in_set_takeD in_set_dropD simp del: append_take_drop_id)
qed

lemma add_range_spec:
  assumes "ranges_ok rs" "fst new < snd new"
  shows "ranges_ok (add_range rs new)" and "covers (add_range rs new) = covers rs \<union> bytes_of new"
proof -
  obtain kept new' where f: "fuse rs new = (kept, new')" by (cases "fuse rs new")
  with fuse_fused [OF assms] have fd: "fused rs new (kept, new')" by simp
  then show "covers (add_range rs new) = covers rs \<union> bytes_of new"
    by (simp add: add_range_def f covers_insert_at fused_def) blast
  from fd show "ranges_ok (add_range rs new)"
    unfolding add_range_def f by (auto simp: fused_def intro: ranges_ok_insert)
qed

section \<open>Claims as a map from bytes to failures\<close>

fun claim :: "taint \<Rightarrow> nat \<Rightarrow> failure_id option" where
  "claim [] b = None"
| "claim (e # es) b = (if b \<in> covers (t_ranges e) then Some (t_failure e) else claim es b)"

definition own :: "taint \<Rightarrow> failure_id \<Rightarrow> nat set" where
  "own es x = (\<Union>e \<in> {e \<in> set es. t_failure e = x}. covers (t_ranges e))"

definition taint_ok :: "taint \<Rightarrow> bool" where
  "taint_ok es \<longleftrightarrow> (\<forall>e \<in> set es. ranges_ok (t_ranges e) \<and> t_ranges e \<noteq> []) \<and>
     distinct (map t_failure es) \<and> (\<forall>x y. x \<noteq> y \<longrightarrow> own es x \<inter> own es y = {})"

text \<open>The failures an allocation carries, once each.\<close>

definition carried :: "taint \<Rightarrow> failure_id \<Rightarrow> nat" where
  "carried es x = count_list (map t_failure es) x"

lemma own_simps [simp]:
  "own [] x = {}"
  "own (e # es) x = (if t_failure e = x then covers (t_ranges e) else {}) \<union> own es x"
  "own (es @ es') x = own es x \<union> own es' x"
  by (auto simp: own_def)

lemma claim_own:
  assumes "\<forall>x y. x \<noteq> y \<longrightarrow> own es x \<inter> own es y = {}"
  shows "claim es b = Some x \<longleftrightarrow> b \<in> own es x"
  using assms
proof (induction es)
  case Nil
  then show ?case by simp
next
  case (Cons e es)
  have "\<forall>x y. x \<noteq> y \<longrightarrow> own es x \<inter> own es y = {}"
    using Cons.prems by (auto simp: disjoint_iff)
  with Cons show ?case by (auto simp: disjoint_iff split: if_splits)
qed

lemma claim_None: "claim es b = None \<longleftrightarrow> (\<forall>x. b \<notin> own es x)"
  by (induction es) auto

definition cut_entry :: "(tainted \<Rightarrow> bool) \<Rightarrow> range \<Rightarrow> tainted \<Rightarrow> tainted" where
  "cut_entry spare gap e = (if spare e then e else e\<lparr>t_ranges := subtract (t_ranges e) gap\<rparr>)"

lemma retain_cut_eq:
  "\<forall>e \<in> set es. t_ranges e \<noteq> [] \<Longrightarrow> retain_cut spare gap es g =
     (filter (\<lambda>e. t_ranges e \<noteq> []) (map (cut_entry spare gap) es),
      graph.release (map t_failure (filter (\<lambda>e. t_ranges (cut_entry spare gap e) = []) es)) g)"
  by (induction es arbitrary: g) (auto simp: cut_entry_def Let_def)

lemma cut_entry_simps:
  "t_failure (cut_entry spare gap e) = t_failure e"
  "covers (t_ranges (cut_entry spare gap e)) =
     covers (t_ranges e) - (if spare e then {} else bytes_of gap)"
  by (auto simp: cut_entry_def covers_subtract)

lemma own_retain:
  "own (filter (\<lambda>e. t_ranges e \<noteq> []) (map (cut_entry (\<lambda>e. S (t_failure e)) gap) es)) x =
    own es x - (if S x then {} else bytes_of gap)"
proof (induction es)
  case Nil
  then show ?case by simp
next
  case (Cons e es)
  let ?c = "cut_entry (\<lambda>e. S (t_failure e)) gap e"
  have "covers (t_ranges e) - (if S (t_failure e) then {} else bytes_of gap) = {}"
    if "t_ranges ?c = []"
    using cut_entry_simps(2) [of "\<lambda>e. S (t_failure e)" gap e] that by simp
  with Cons show ?case
    using cut_entry_simps(2) [of "\<lambda>e. S (t_failure e)" gap e] by (auto simp: cut_entry_simps(1))
qed

lemma distinct_retain:
  "distinct (map t_failure es) \<Longrightarrow>
     distinct (map t_failure (filter P (map (cut_entry spare gap) es)))"
  by (induction es) (auto simp: cut_entry_simps)

lemma taint_ok_retain:
  assumes "taint_ok es" "fst gap < snd gap"
  shows "taint_ok (filter (\<lambda>e. t_ranges e \<noteq> []) (map (cut_entry (\<lambda>e. S (t_failure e)) gap) es))"
  using assms own_retain [of S gap es]
  by (auto simp: taint_ok_def distinct_retain ranges_ok_subtract cut_entry_def disjoint_iff)

lemma find_failure_None: "find (\<lambda>e. t_failure e = f) es = None \<longleftrightarrow> f \<notin> set (map t_failure es)"
  by (auto simp: find_None_iff)

lemma failures_add_to_entry [simp]: "map t_failure (add_to_entry es f r) = map t_failure es"
  by (induction es) auto

lemma own_absent: "f \<notin> set (map t_failure es) \<Longrightarrow> own es f = {}"
  by (auto simp: own_def)

lemma add_range_nonempty: "add_range rs new \<noteq> []"
  by (auto simp: add_range_def insert_at_def split: prod.splits)

lemma own_add_to_entry:
  assumes "f \<in> set (map t_failure es)" "fst r < snd r" "\<forall>e \<in> set es. ranges_ok (t_ranges e)"
  shows "own (add_to_entry es f r) x = own es x \<union> (if x = f then bytes_of r else {})"
  using assms by (induction es) (auto simp: add_range_spec)

lemma add_to_entry_ranges:
  assumes "fst r < snd r" "\<forall>e \<in> set es. ranges_ok (t_ranges e) \<and> t_ranges e \<noteq> []"
  shows "\<forall>e \<in> set (add_to_entry es f r). ranges_ok (t_ranges e) \<and> t_ranges e \<noteq> []"
  using assms by (induction es) (simp_all add: add_range_spec add_range_nonempty)

section \<open>Refinement of the byte map\<close>

lemma nonempty_range: "\<not> range_is_empty r \<longleftrightarrow> fst r < snd r"
  by (cases r) simp

text \<open>The two outcomes of \<open>taint\<close> on a non-empty range, over the entries left by the cut.\<close>

lemma taint_cases:
  assumes "taint_ok es" "fst r < snd r"
    and "es' = filter (\<lambda>e. t_ranges e \<noteq> []) (map (cut_entry (\<lambda>e. t_failure e = f) r) es)"
    and "g' = graph.release (map t_failure
      (filter (\<lambda>e. t_ranges (cut_entry (\<lambda>e. t_failure e = f) r e) = []) es)) g"
  shows "taint r f es g = (if f \<in> set (map t_failure es') then (add_to_entry es' f r, g')
    else (es' @ [\<lparr>t_failure = f, t_ranges = [r]\<rparr>], tag f g'))"
proof -
  have "retain_cut (\<lambda>e. t_failure e = f) r es g = (es', g')"
    using assms by (simp add: retain_cut_eq taint_ok_def)
  then show ?thesis
    using assms(2) find_failure_None [of f es'] nonempty_range [of r]
    by (cases "find (\<lambda>e. t_failure e = f) es'") (auto simp: taint_def)
qed

lemma own_taint:
  assumes "taint_ok es" "fst r < snd r"
  shows "own (fst (taint r f es g)) x = (if x = f then own es f \<union> bytes_of r else own es x - bytes_of r)"
    and "taint_ok (fst (taint r f es g))"
proof -
  define es' where "es' = filter (\<lambda>e. t_ranges e \<noteq> []) (map (cut_entry (\<lambda>e. t_failure e = f) r) es)"
  have ok: "taint_ok es'"
    unfolding es'_def by (rule taint_ok_retain [OF assms, where S = "\<lambda>x. x = f"])
  have own': "own es' x = own es x - (if x = f then {} else bytes_of r)" for x
    unfolding es'_def using own_retain [of "\<lambda>x. x = f"] by simp
  note cases = taint_cases [OF assms es'_def refl, of g]
  show own: "own (fst (taint r f es g)) x =
      (if x = f then own es f \<union> bytes_of r else own es x - bytes_of r)" for x
  proof (cases "f \<in> set (map t_failure es')")
    case True
    with ok own' assms(2) show ?thesis by (simp add: cases own_add_to_entry taint_ok_def)
  next
    case False
    with own' own_absent [OF False] show ?thesis by (simp add: cases)
  qed
  have "(\<forall>e \<in> set (fst (taint r f es g)). ranges_ok (t_ranges e) \<and> t_ranges e \<noteq> []) \<and>
      distinct (map t_failure (fst (taint r f es g)))"
  proof (cases "f \<in> set (map t_failure es')")
    case True
    with ok add_to_entry_ranges [OF assms(2), of es' f] show ?thesis
      by (simp add: cases taint_ok_def)
  next
    case False
    with ok assms(2) show ?thesis by (auto simp: cases taint_ok_def)
  qed
  moreover have "own es x \<inter> own es y = {}" if "x \<noteq> y" for x y
    using assms(1) that by (simp add: taint_ok_def)
  ultimately show "taint_ok (fst (taint r f es g))"
    unfolding taint_ok_def own by (auto simp: disjoint_iff)
qed

lemma own_written:
  assumes "taint_ok es" "fst r < snd r"
  shows "own (fst (written r es g)) x = own es x - bytes_of r"
    and "taint_ok (fst (written r es g))"
proof -
  have w: "fst (written r es g) =
      filter (\<lambda>e. t_ranges e \<noteq> []) (map (cut_entry (\<lambda>_. False) r) es)"
    using assms nonempty_range [of r] by (simp add: written_def retain_cut_eq taint_ok_def)
  show "own (fst (written r es g)) x = own es x - bytes_of r"
    unfolding w using own_retain [where S = "\<lambda>_. False" and gap = r] by simp
  show "taint_ok (fst (written r es g))"
    unfolding w by (rule taint_ok_retain [OF assms, where S = "\<lambda>_. False"])
qed

lemma taint_empty: "\<not> fst r < snd r \<Longrightarrow> taint r f es g = (es, g)"
  using nonempty_range [of r] by (simp add: taint_def)

lemma written_empty: "\<not> fst r < snd r \<Longrightarrow> written r es g = (es, g)"
  using nonempty_range [of r] by (simp add: written_def)

lemma taint_ok_taint: "taint_ok es \<Longrightarrow> taint_ok (fst (taint r f es g))"
  by (cases "fst r < snd r") (simp_all add: own_taint taint_empty)

lemma taint_ok_written: "taint_ok es \<Longrightarrow> taint_ok (fst (written r es g))"
  by (cases "fst r < snd r") (simp_all add: own_written written_empty)

lemma bytes_of_empty: "\<not> fst r < snd r \<Longrightarrow> bytes_of r = {}"
  by (simp add: bytes_of_def)

lemma option_eqI: "(\<And>x. a = Some x \<longleftrightarrow> c = Some x) \<Longrightarrow> a = c"
  by (metis not_Some_eq)

lemma claim_eqI:
  assumes "taint_ok es" "\<And>x. b \<in> own es x \<longleftrightarrow> c = Some x"
  shows "claim es b = c"
proof (rule option_eqI)
  fix x
  have "claim es b = Some x \<longleftrightarrow> b \<in> own es x"
    by (rule claim_own) (use assms(1) in \<open>simp add: taint_ok_def\<close>)
  then show "claim es b = Some x \<longleftrightarrow> c = Some x" by (simp only: assms(2))
qed

lemma claim_taint:
  assumes "taint_ok es"
  shows "claim (fst (taint r f es g)) b = (if b \<in> bytes_of r then Some f else claim es b)"
proof (cases "fst r < snd r")
  case True
  have "\<And>x. b \<in> own es x \<longleftrightarrow> claim es b = Some x" using assms claim_own [of es b] by (auto simp: taint_ok_def)
  with True show ?thesis by (intro claim_eqI) (auto simp: own_taint taint_ok_taint assms)
qed (simp add: taint_empty bytes_of_empty)

lemma claim_written:
  assumes "taint_ok es"
  shows "claim (fst (written r es g)) b = (if b \<in> bytes_of r then None else claim es b)"
proof (cases "fst r < snd r")
  case True
  have "\<And>x. b \<in> own es x \<longleftrightarrow> claim es b = Some x" using assms claim_own [of es b] by (auto simp: taint_ok_def)
  with True show ?thesis by (intro claim_eqI) (auto simp: own_written taint_ok_written assms)
qed (simp add: written_empty bytes_of_empty)

text \<open>C33: Tainting is \<open>set\<close>, never \<open>add\<close>, and a write releases exactly what it covers: on the map
  from bytes to the failure that claims them, \<open>taint\<close> overrides its range with its failure,
  \<open>written\<close> erases its range, \<open>clear\<close> erases everything, and each keeps the claims sorted,
  disjoint, never empty and once per failure.\<close>

theorem taint_refines_byte_map:
  assumes "taint_ok es"
  shows "claim (fst (taint r f es g)) b = (if b \<in> bytes_of r then Some f else claim es b) \<and>
    claim (fst (written r es g)) b = (if b \<in> bytes_of r then None else claim es b) \<and>
    claim (fst (clear es g)) b = None \<and>
    taint_ok (fst (taint r f es g)) \<and> taint_ok (fst (written r es g)) \<and> taint_ok (fst (clear es g))"
proof -
  have "taint_ok []" by (simp add: taint_ok_def)
  then show ?thesis
    using assms by (simp add: claim_taint claim_written taint_ok_taint taint_ok_written clear_def)
qed

definition sample_taint :: taint where
  "sample_taint = [\<lparr>t_failure = 1, t_ranges = [(0, 10), (20, 30)]\<rparr>]"

lemma sample_taint_ok: "taint_ok sample_taint"
  by (auto simp: taint_ok_def sample_taint_def bytes_of_def)

theorem taint_refines_byte_map_witness:
  "claim (fst (taint (5, 25) 2 sample_taint graph_default)) 7 = Some 2 \<and>
   claim (fst (written (5, 25) sample_taint graph_default)) 22 = None"
  using taint_refines_byte_map [OF sample_taint_ok, of "(5, 25)" 2 graph_default 7]
    taint_refines_byte_map [OF sample_taint_ok, of "(5, 25)" 2 graph_default 22]
  by (simp add: bytes_of_def)

lemma range_claimed:
  "list_ex (\<lambda>h. overlaps h r) hs \<longleftrightarrow> covers hs \<inter> bytes_of r \<noteq> {}"
  by (induction hs) (auto simp: overlaps_bytes simp del: overlaps.simps)

text \<open>The read check is exact: it names a failure exactly when some byte of the range is
  claimed, and the failure it names claims a byte of that range.\<close>

lemma failure_of_exact:
  assumes "taint_ok es"
  shows "(failure_of es r = None \<longleftrightarrow> (\<forall>b \<in> bytes_of r. claim es b = None)) \<and>
    (\<forall>f. failure_of es r = Some f \<longrightarrow> (\<exists>b \<in> bytes_of r. claim es b = Some f))"
proof -
  have o: "\<And>x b. b \<in> own es x \<longleftrightarrow> claim es b = Some x"
    using assms claim_own by (auto simp: taint_ok_def)
  have "failure_of es r = None \<longleftrightarrow> (\<forall>x. own es x \<inter> bytes_of r = {})"
    by (auto simp: failure_of_def find_None_iff range_claimed own_def disjoint_iff)
  moreover have "own es f \<inter> bytes_of r \<noteq> {}" if "failure_of es r = Some f" for f
    using that unfolding failure_of_def
    by (auto simp: find_Some_iff range_claimed own_def disjoint_iff) (metis nth_mem)
  ultimately show ?thesis
    using o by (auto simp: disjoint_iff) (metis option.exhaust)+
qed

section \<open>Counting carriers\<close>

lemma carried_distinct:
  "distinct (map t_failure es) \<Longrightarrow> carried es x = (if x \<in> set (map t_failure es) then 1 else 0)"
  unfolding carried_def by (induction es) auto

lemma carried_retain:
  "carried es x = carried (filter (\<lambda>e. t_ranges e \<noteq> []) (map (cut_entry sp gap) es)) x +
     count_list (map t_failure (filter (\<lambda>e. t_ranges (cut_entry sp gap e) = []) es)) x"
  by (induction es) (auto simp: carried_def cut_entry_simps)

text \<open>
  Every operation moves the graph's count of a failure by exactly what it changes in this
  allocation's own claims, and never panics as long as the graph counts what is carried.
\<close>

lemma tags_retain:
  assumes "\<forall>x. carried es x \<le> tags g x"
    and "fs = map t_failure (filter (\<lambda>e. t_ranges (cut_entry sp gap e) = []) es)"
  shows "tags (graph.release fs g) x + carried es x =
      tags g x + carried (filter (\<lambda>e. t_ranges e \<noteq> []) (map (cut_entry sp gap) es)) x"
    and "panicked (graph.release fs g) = panicked g"
proof -
  have split: "carried es y =
      carried (filter (\<lambda>e. t_ranges e \<noteq> []) (map (cut_entry sp gap) es)) y + count_list fs y" for y
    unfolding assms(2) by (rule carried_retain)
  have le: "count_list fs y \<le> tags g y" for y
    using split [of y] assms(1) by (metis add_leE)
  show "panicked (graph.release fs g) = panicked g"
    by (rule graph.broken_release) (simp add: le)
  show "tags (graph.release fs g) x + carried es x =
      tags g x + carried (filter (\<lambda>e. t_ranges e \<noteq> []) (map (cut_entry sp gap) es)) x"
    using split [of x] le [of x] by (simp add: graph.count_release)
qed

lemma taint_tags:
  assumes "taint_ok es" "\<forall>x. carried es x \<le> tags g x" "is_held g f"
  shows "tags (snd (taint r f es g)) x + carried es x = tags g x + carried (fst (taint r f es g)) x"
    and "panicked (snd (taint r f es g)) = panicked g"
proof -
  define es' where "es' = filter (\<lambda>e. t_ranges e \<noteq> []) (map (cut_entry (\<lambda>e. t_failure e = f) r) es)"
  define fs where "fs = map t_failure
    (filter (\<lambda>e. t_ranges (cut_entry (\<lambda>e. t_failure e = f) r e) = []) es)"
  note t = tags_retain [OF assms(2) fs_def, folded es'_def]
  have "f \<notin> set fs"
    using assms(1) by (auto simp: fs_def cut_entry_def taint_ok_def split: if_splits)
  then have held: "is_held (graph.release fs g) f" using assms(3) by (simp add: graph.held_release)
  have "tags (snd (taint r f es g)) x + carried es x = tags g x + carried (fst (taint r f es g)) x \<and>
      panicked (snd (taint r f es g)) = panicked g"
  proof (cases "fst r < snd r")
    case True
    note cases = taint_cases [OF assms(1) True es'_def refl, of g, folded fs_def]
    show ?thesis
    proof (cases "f \<in> set (map t_failure es')")
      case True
      then show ?thesis
        using t by (simp only: cases if_True fst_conv snd_conv carried_def failures_add_to_entry)
    next
      case False
      then show ?thesis
        using t(1) [of x] t(2) held
        by (simp add: cases carried_def graph.count_inc graph.broken_inc)
    qed
  qed (simp add: taint_empty)
  then show "tags (snd (taint r f es g)) x + carried es x = tags g x + carried (fst (taint r f es g)) x"
    and "panicked (snd (taint r f es g)) = panicked g" by blast+
qed

lemma written_tags:
  assumes "taint_ok es" "\<forall>x. carried es x \<le> tags g x"
  shows "tags (snd (written r es g)) x + carried es x = tags g x + carried (fst (written r es g)) x"
    and "panicked (snd (written r es g)) = panicked g"
  using tags_retain [OF assms(2) refl] assms(1) nonempty_range [of r]
  by (cases "fst r < snd r"; simp add: written_def retain_cut_eq taint_ok_def)+

lemma clear_eq: "clear es g = ([], graph.release (map t_failure es) g)"
proof -
  have "foldl (\<lambda>g e. untag (Some (t_failure e)) g) g es = graph.release (map t_failure es) g"
    by (induction es arbitrary: g) simp_all
  then show ?thesis by (simp add: clear_def)
qed

lemma clear_tags:
  assumes "\<forall>x. carried es x \<le> tags g x"
  shows "tags (snd (clear es g)) x + carried es x = tags g x"
    and "panicked (snd (clear es g)) = panicked g"
  using assms by (simp_all add: clear_eq graph.count_release carried_def graph.broken_release)

text \<open>C34: The reference count is exact: if the graph counts at least what an allocation carries,
  then tainting, writing and clearing change the count of every failure by exactly the change in
  what the allocation carries, and none of them panics. So the sum over all allocations stays
  equal to the graph's count, and a node is dropped exactly when its last carrier lets go.\<close>

theorem taint_counts_carriers:
  assumes "taint_ok es" "\<forall>x. carried es x \<le> tags g x" "is_held g f"
  shows "tags (snd (taint r f es g)) x + carried es x = tags g x + carried (fst (taint r f es g)) x \<and>
    tags (snd (written r es g)) x + carried es x = tags g x + carried (fst (written r es g)) x \<and>
    tags (snd (clear es g)) x + carried es x = tags g x \<and>
    panicked (snd (taint r f es g)) = panicked g \<and>
    panicked (snd (written r es g)) = panicked g \<and> panicked (snd (clear es g)) = panicked g"
  using taint_tags [OF assms] written_tags [OF assms(1,2)] clear_tags [OF assms(2)] by simp

definition one_failure_graph :: error_graph where
  "one_failure_graph = tag 1 (snd (insert_failure (Other ''x'') graph_default))"

lemma one_failure_graph_eqs:
  "tags one_failure_graph x = (if x = 1 then 1 else 0)" "is_held one_failure_graph 1"
  "panicked one_failure_graph = False"
  by (simp_all add: one_failure_graph_def tag_def insert_failure_def graph_default_def tags_def
      is_held_def)

theorem taint_counts_carriers_witness:
  "tags (snd (written (0, 40) sample_taint one_failure_graph)) 1 = 0 \<and>
   \<not> panicked (snd (written (0, 40) sample_taint one_failure_graph))"
proof -
  have "\<forall>x. carried sample_taint x \<le> tags one_failure_graph x"
    by (simp add: carried_def sample_taint_def one_failure_graph_eqs)
  from taint_counts_carriers [OF sample_taint_ok this one_failure_graph_eqs(2), of "(0, 40)" 1]
  show ?thesis
    by (simp add: one_failure_graph_eqs carried_def sample_taint_def written_def)
qed

end
