(* ===== verification/Stream_Pool.thy ===== *)
theory Stream_Pool
  imports Prelude
begin

text \<open>
  The pool of backend streams (\<open>cubecl-server/src/stream/base.rs\<close>): a fixed vector of slots, the
  regular ones first and the special ones behind them, each filled by the factory on its first
  use. A logical stream folds onto the slot its number names modulo the number of regular slots.

  The factory is a parameter: \<open>create\<close> makes a stream and the next state of the factory. A
  borrowed stream is read with \<open>get_mut_index\<close> and written back with \<open>put_stream\<close>. The slots
  are accessed unchecked in the code; an access out of range, and a remainder by zero, is
  \<open>Panic\<close> here. Logical stream numbers are \<open>u64\<close>, the same width as an index.
\<close>

type_synonym stream_id = nat

record ('s, 'f) stream_pool =
  streams :: "'s option list"
  factory :: 'f
  max_streams :: nat

section \<open>Operations\<close>

text \<open>The two counts are \<open>u8\<close>, and their sum saturates.\<close>

definition u8_saturating_add :: "nat \<Rightarrow> nat \<Rightarrow> nat" where
  "u8_saturating_add a b = min 255 (a + b)"

definition pool_new :: "'f \<Rightarrow> nat \<Rightarrow> nat \<Rightarrow> ('s, 'f) stream_pool" where
  "pool_new backend n special =
     \<lparr>streams = replicate (u8_saturating_add n special) None, factory = backend, max_streams = n\<rparr>"

text \<open>\<open>StreamPool::streams\<close>: the slots in use, in order.\<close>

definition live_streams :: "('s, 'f) stream_pool \<Rightarrow> 's list" where
  "live_streams p = List.map_filter (\<lambda>s. s) (streams p)"

definition stream_index :: "stream_id \<Rightarrow> nat \<Rightarrow> ('e, nat) outcome" where
  "stream_index sid n = (if n = 0 then Panic else Ok (sid mod n))"

definition pool_index :: "('s, 'f) stream_pool \<Rightarrow> stream_id \<Rightarrow> ('e, nat) outcome" where
  "pool_index p sid = stream_index sid (max_streams p)"

definition stream_ids :: "('s, 'f) stream_pool \<Rightarrow> ('e, stream_id list) outcome" where
  "stream_ids p =
     (if length (streams p) < max_streams p then Panic
      else Ok (filter (\<lambda>i. streams p ! i \<noteq> None) [0..<max_streams p]))"

definition get_mut_index ::
  "('f \<Rightarrow> 's \<times> 'f) \<Rightarrow> nat \<Rightarrow> ('s, 'f) stream_pool \<Rightarrow> ('e, 's \<times> ('s, 'f) stream_pool) outcome" where
  "get_mut_index create i p =
     (case get_opt (streams p) i of
        None \<Rightarrow> Panic
      | Some (Some s) \<Rightarrow> Ok (s, p)
      | Some None \<Rightarrow> (case create (factory p) of (s, f) \<Rightarrow>
          Ok (s, p\<lparr>streams := (streams p)[i := Some s], factory := f\<rparr>)))"

definition get_mut ::
  "('f \<Rightarrow> 's \<times> 'f) \<Rightarrow> stream_id \<Rightarrow> ('s, 'f) stream_pool \<Rightarrow> ('e, 's \<times> ('s, 'f) stream_pool) outcome" where
  "get_mut create sid p = try_then (pool_index p sid) (\<lambda>i. get_mut_index create i p)"

definition get_special ::
  "('f \<Rightarrow> 's \<times> 'f) \<Rightarrow> nat \<Rightarrow> ('s, 'f) stream_pool \<Rightarrow> ('e, 's \<times> ('s, 'f) stream_pool) outcome" where
  "get_special create k p = get_mut_index create (max_streams p + k) p"

text \<open>The end of a mutable borrow: the stream goes back to its slot.\<close>

definition put_stream :: "nat \<Rightarrow> 's \<Rightarrow> ('s, 'f) stream_pool \<Rightarrow> ('s, 'f) stream_pool" where
  "put_stream i s p = p\<lparr>streams := (streams p)[i := Some s]\<rparr>"

definition try_get :: "('s, 'f) stream_pool \<Rightarrow> stream_id \<Rightarrow> ('e, 's option) outcome" where
  "try_get p sid = try_then (pool_index p sid) (\<lambda>i.
     case get_opt (streams p) i of None \<Rightarrow> Panic | Some s \<Rightarrow> Ok s)"

text \<open>
  \<open>try_get_mut\<close> with the work done on the borrowed stream: nothing happens on a slot that was
  never initialised, and none is created.
\<close>

definition try_update ::
  "('s \<Rightarrow> 'g \<Rightarrow> 's \<times> 'g) \<Rightarrow> stream_id \<Rightarrow> ('s, 'f) stream_pool \<Rightarrow> 'g \<Rightarrow>
     ('e, ('s, 'f) stream_pool \<times> 'g) outcome" where
  "try_update work sid p g = try_then (pool_index p sid) (\<lambda>i.
     case get_opt (streams p) i of
       None \<Rightarrow> Panic
     | Some None \<Rightarrow> Ok (p, g)
     | Some (Some s) \<Rightarrow> (case work s g of (s', g') \<Rightarrow> Ok (put_stream i s' p, g')))"

section \<open>What the pool promises\<close>

text \<open>Every regular slot exists, and there is one.\<close>

definition regular_ok :: "('s, 'f) stream_pool \<Rightarrow> bool" where
  "regular_ok p \<longleftrightarrow> 0 < max_streams p \<and> max_streams p \<le> length (streams p)"

text \<open>The slot a logical stream folds onto.\<close>

definition slot :: "('s, 'f) stream_pool \<Rightarrow> stream_id \<Rightarrow> nat" where
  "slot p sid = sid mod max_streams p"

lemma regular_new_ok: "0 < n \<Longrightarrow> n \<le> 255 \<Longrightarrow> regular_ok (pool_new f n special)"
  by (simp add: regular_ok_def pool_new_def u8_saturating_add_def)

lemma slot_less: "regular_ok p \<Longrightarrow> slot p sid < max_streams p"
  by (simp add: slot_def regular_ok_def)

lemma slot_in_range [simp]: "regular_ok p \<Longrightarrow> slot p sid < length (streams p)"
  using slot_less [of p sid] by (simp add: regular_ok_def)

lemma pool_index_ok [simp]: "regular_ok p \<Longrightarrow> pool_index p sid = Ok (slot p sid)"
  by (simp add: pool_index_def stream_index_def slot_def regular_ok_def)

text \<open>The pool with the slot filled, and what the slot then holds: the total form of a lookup.\<close>

definition filled :: "('f \<Rightarrow> 's \<times> 'f) \<Rightarrow> nat \<Rightarrow> ('s, 'f) stream_pool \<Rightarrow> ('s, 'f) stream_pool" where
  "filled create i p = (case streams p ! i of
     Some s \<Rightarrow> p
   | None \<Rightarrow> p\<lparr>streams := (streams p)[i := Some (fst (create (factory p)))], factory := snd (create (factory p))\<rparr>)"

definition stream_at :: "nat \<Rightarrow> ('s, 'f) stream_pool \<Rightarrow> 's" where
  "stream_at i p = the (streams p ! i)"

lemma get_mut_index_filled:
  "i < length (streams p) \<Longrightarrow>
     get_mut_index create i p = Ok (stream_at i (filled create i p), filled create i p)"
  by (auto simp: get_mut_index_def filled_def stream_at_def get_opt_def split: option.splits prod.splits)

lemma get_mut_filled:
  "regular_ok p \<Longrightarrow> get_mut create sid p =
     Ok (stream_at (slot p sid) (filled create (slot p sid) p), filled create (slot p sid) p)"
  by (simp add: get_mut_def get_mut_index_filled)

lemma filled_fields [simp]:
  "length (streams (filled create i p)) = length (streams p)"
  "max_streams (filled create i p) = max_streams p"
  "regular_ok (filled create i p) = regular_ok p"
  "slot (filled create i p) sid = slot p sid"
  "j \<noteq> i \<Longrightarrow> streams (filled create i p) ! j = streams p ! j"
  by (auto simp: filled_def regular_ok_def slot_def split: option.splits)

lemma filled_some: "i < length (streams p) \<Longrightarrow> \<exists>s. streams (filled create i p) ! i = Some s"
  by (auto simp: filled_def split: option.splits)

lemma filled_kept: "streams p ! j = Some s \<Longrightarrow> streams (filled create i p) ! j = Some s"
  by (cases "j = i") (auto simp: filled_def split: option.splits)

lemma filled_idem [simp]:
  "i < length (streams p) \<Longrightarrow> streams p ! i \<noteq> None \<Longrightarrow> filled create i p = p"
  by (auto simp: filled_def)

lemma put_stream_fields [simp]:
  "length (streams (put_stream i s p)) = length (streams p)"
  "max_streams (put_stream i s p) = max_streams p"
  "factory (put_stream i s p) = factory p"
  "regular_ok (put_stream i s p) = regular_ok p"
  "slot (put_stream i s p) sid = slot p sid"
  "j \<noteq> i \<Longrightarrow> streams (put_stream i s p) ! j = streams p ! j"
  "i < length (streams p) \<Longrightarrow> streams (put_stream i s p) ! i = Some s"
  by (auto simp: put_stream_def regular_ok_def slot_def)

lemma put_same: "i < length (streams p) \<Longrightarrow> streams p ! i = Some x \<Longrightarrow> put_stream i x p = p"
  by (simp add: put_stream_def list_update_same_conv)

lemma put_twice: "put_stream i y (put_stream i x p) = put_stream i y p"
  by (simp add: put_stream_def)

lemma at_put: "i < length (streams p) \<Longrightarrow> stream_at i (put_stream i x p) = x"
  by (simp add: stream_at_def)

text \<open>What an operation keeps of the pool: its size, and every slot in use.\<close>

definition grows :: "('a, 'b) stream_pool \<Rightarrow> ('a, 'b) stream_pool \<Rightarrow> bool" where
  "grows p p' \<longleftrightarrow> max_streams p' = max_streams p \<and> length (streams p') = length (streams p) \<and>
     (\<forall>k < length (streams p). streams p ! k \<noteq> None \<longrightarrow> streams p' ! k \<noteq> None)"

lemma grows_refl: "grows p p"
  by (simp add: grows_def)

lemma grows_trans: "grows a b \<Longrightarrow> grows b c \<Longrightarrow> grows a c"
  by (simp add: grows_def)

lemma grows_ok: "grows p p' \<Longrightarrow> regular_ok p' = regular_ok p" "grows p p' \<Longrightarrow> slot p' sid = slot p sid"
  by (simp_all add: grows_def regular_ok_def slot_def)

lemma grows_put: "i < length (streams p) \<Longrightarrow> grows p (put_stream i s p)"
  by (auto simp: grows_def put_stream_def nth_list_update)

lemma grows_filled: "i < length (streams p) \<Longrightarrow> grows p (filled c i p)"
  by (auto simp: grows_def intro: filled_kept)

text \<open>Slots that hold a stream.\<close>

definition slots_used :: "nat list \<Rightarrow> ('a, 'b) stream_pool \<Rightarrow> bool" where
  "slots_used is p \<longleftrightarrow> (\<forall>i \<in> set is. i < length (streams p) \<and> streams p ! i \<noteq> None)"

lemma slots_used_grows: "slots_used is p \<Longrightarrow> grows p p' \<Longrightarrow> slots_used is p'"
  by (simp add: slots_used_def grows_def)

lemma slots_used_tail: "slots_used (i # is) p \<Longrightarrow> slots_used is p"
  by (simp add: slots_used_def)

lemma slots_used_get:
  assumes "slots_used is p" "i \<in> set is"
  obtains s where "streams p ! i = Some s" "i < length (streams p)" "get_mut_index c i p = Ok (s, p)"
  using assms by (auto simp: slots_used_def get_mut_index_def get_opt_def)

lemma try_get_slot [simp]: "regular_ok p \<Longrightarrow> try_get p sid = Ok (streams p ! slot p sid)"
  by (simp add: try_get_def get_opt_def split: option.splits)

lemma try_update_slot:
  "regular_ok p \<Longrightarrow> try_update work sid p g =
     (case streams p ! slot p sid of
        None \<Rightarrow> Ok (p, g)
      | Some s \<Rightarrow> Ok (put_stream (slot p sid) (fst (work s g)) p, snd (work s g)))"
  by (auto simp: try_update_def get_opt_def split: option.splits prod.splits)

lemma stream_ids_slots:
  "regular_ok p \<Longrightarrow> stream_ids p = Ok (filter (\<lambda>i. streams p ! i \<noteq> None) [0..<max_streams p])"
  by (simp add: stream_ids_def regular_ok_def)

text \<open>C22: The ids of a pool round trip: \<open>stream_ids\<close> lists, in order and once each, exactly the
  regular slots that hold a stream; looking one up with \<open>get_mut\<close> returns the stream of the slot
  it names and changes nothing; and any logical stream, whatever its number, finds on its first
  use a slot that from then on keeps the stream it was given, every other slot being untouched.
\<close>

theorem stream_ids_roundtrip:
  fixes create :: "'f \<Rightarrow> 's \<times> 'f"
  assumes "regular_ok p"
  shows "(\<exists>is. (stream_ids p :: ('e, nat list) outcome) = Ok is \<and> sorted is \<and> distinct is \<and>
      set is = {i. i < max_streams p \<and> streams p ! i \<noteq> None} \<and>
      (\<forall>i \<in> set is. \<exists>s. streams p ! i = Some s \<and> (get_mut create i p :: ('e, _) outcome) = Ok (s, p))) \<and>
    (\<exists>s p'. (get_mut create sid p :: ('e, _) outcome) = Ok (s, p') \<and>
      streams p' ! slot p sid = Some s \<and> (\<forall>j. j \<noteq> slot p sid \<longrightarrow> streams p' ! j = streams p ! j) \<and>
      (get_mut create sid p' :: ('e, _) outcome) = Ok (s, p'))"
proof (rule conjI, intro exI conjI)
  let ?is = "filter (\<lambda>i. streams p ! i \<noteq> None) [0..<max_streams p]"
  show "stream_ids p = Ok ?is" using assms by (rule stream_ids_slots)
  show "sorted ?is" by (simp add: sorted_wrt_filter)
  show "\<forall>i \<in> set ?is. \<exists>s. streams p ! i = Some s \<and> (get_mut create i p :: ('e, _) outcome) = Ok (s, p)"
    using assms by (auto simp: get_mut_filled slot_def stream_at_def regular_ok_def filled_def)
next
  obtain s where s: "streams (filled create (slot p sid) p) ! slot p sid = Some s"
    using filled_some [of "slot p sid" p create] assms by auto
  then show "\<exists>s p'. (get_mut create sid p :: ('e, _) outcome) = Ok (s, p') \<and>
      streams p' ! slot p sid = Some s \<and> (\<forall>j. j \<noteq> slot p sid \<longrightarrow> streams p' ! j = streams p ! j) \<and>
      (get_mut create sid p' :: ('e, _) outcome) = Ok (s, p')"
    using assms by (intro exI [of _ s] exI [of _ "filled create (slot p sid) p"]) (simp add: get_mut_filled stream_at_def)
qed auto

text \<open>C30: A pool of 255 regular streams has no special one: the sum of the counts saturates, and the
  first special slot is the one past the end, reached without a bounds check.
\<close>

theorem special_slot_lost:
  "special \<le> 255 \<Longrightarrow> 1 \<le> special \<Longrightarrow>
     (get_special create 0 (pool_new f n special) = (Panic :: ('e, _) outcome) \<longleftrightarrow> 255 \<le> n)"
  by (auto simp: get_special_def get_mut_index_def pool_new_def u8_saturating_add_def get_opt_def
      split: prod.splits)

definition sample_pool :: "(bool, unit) stream_pool" where
  "sample_pool = \<lparr>streams = [None, Some True, None, Some False, None], factory = (), max_streams = 4\<rparr>"

theorem stream_ids_roundtrip_witness:
  "\<exists>is. (stream_ids sample_pool :: (unit, nat list) outcome) = Ok is \<and> 3 \<in> set is"
proof -
  have "regular_ok sample_pool" by (simp add: sample_pool_def regular_ok_def)
  note stream_ids_roundtrip [OF this, where ?'e = unit and create = "\<lambda>_. (True, ())" and sid = 0, THEN conjunct1]
  then show ?thesis by (elim exE) (auto simp: sample_pool_def)
qed

theorem special_slot_lost_witness:
  "get_special (\<lambda>_. (True, ())) 0 (pool_new () 255 1) = (Panic :: (unit, _) outcome)"
  using special_slot_lost [of 1 "\<lambda>_. (True, ())" "()" 255, where ?'e = unit] by simp

end
