(* ===== verification/Buffer_Binding.thy ===== *)
theory Buffer_Binding
  imports Memory_Handle Taint Stream_Pool
begin

text \<open>
  The handles and bindings a server is given (\<open>cubecl-runtime/src/server/handle.rs\<close>): a managed
  memory with the service and the logical stream it was created on, and the two offsets that cut
  the byte range it names out of the allocation. Cloning, binding, downgrading and upgrading move
  the counts of the shared descriptor, so they act on the heap of \<open>Memory_Handle\<close>. A weak binding
  has the fields of a binding and no count.

  Sizes and offsets are \<open>u64\<close>; a subtraction that would go below zero wraps, as it does in a
  release build, and \<open>binding_ok\<close> is the condition under which it does not.
\<close>

type_synonym service_id = nat

record server_handle =
  sh_memory :: handle
  sh_service :: service_id
  sh_offset_start :: "nat option"
  sh_offset_end :: "nat option"
  sh_stream :: stream_id
  sh_size :: nat

record buffer_binding =
  bb_memory :: handle
  bb_service :: service_id
  bb_offset_start :: "nat option"
  bb_offset_end :: "nat option"
  bb_stream :: stream_id
  bb_size :: nat

type_synonym weak_buffer_binding = buffer_binding

definition unwrap_or :: "'a option \<Rightarrow> 'a \<Rightarrow> 'a" where
  "unwrap_or x d = (case x of Some v \<Rightarrow> v | None \<Rightarrow> d)"

definition u64_sub :: "nat \<Rightarrow> nat \<Rightarrow> nat" where
  "u64_sub a b = (if b \<le> a then a - b else a + 2 ^ 64 - b)"

definition u64_add :: "nat \<Rightarrow> nat \<Rightarrow> nat" where
  "u64_add a b = (a + b) mod 2 ^ 64"

section \<open>Handles\<close>

definition handle_from_memory :: "handle \<Rightarrow> service_id \<Rightarrow> stream_id \<Rightarrow> nat \<Rightarrow> server_handle" where
  "handle_from_memory i service sid n =
     \<lparr>sh_memory = i, sh_service = service, sh_offset_start = None, sh_offset_end = None,
      sh_stream = sid, sh_size = n\<rparr>"

definition server_handle_new :: "service_id \<Rightarrow> stream_id \<Rightarrow> nat \<Rightarrow> heap \<Rightarrow> server_handle \<times> heap" where
  "server_handle_new service sid n h =
     (case handle_new h of (i, h) \<Rightarrow> (handle_from_memory i service sid n, h))"

definition server_handle_clone :: "server_handle \<Rightarrow> heap \<Rightarrow> server_handle \<times> heap" where
  "server_handle_clone s h = (s, clone_handle (sh_memory s) h)"

definition server_handle_can_mut :: "heap \<Rightarrow> server_handle \<Rightarrow> bool" where
  "server_handle_can_mut h s = can_mut h (sh_memory s)"

definition server_handle_binding :: "server_handle \<Rightarrow> heap \<Rightarrow> buffer_binding \<times> heap" where
  "server_handle_binding s h =
     (\<lparr>bb_memory = sh_memory s, bb_service = sh_service s, bb_offset_start = sh_offset_start s,
       bb_offset_end = sh_offset_end s, bb_stream = sh_stream s, bb_size = sh_size s\<rparr>,
      binding (sh_memory s) h)"

definition handle_offset_start :: "nat \<Rightarrow> server_handle \<Rightarrow> server_handle" where
  "handle_offset_start k s = (case sh_offset_start s of
     Some v \<Rightarrow> s\<lparr>sh_offset_start := Some (u64_add v k)\<rparr> | None \<Rightarrow> s\<lparr>sh_offset_start := Some k\<rparr>)"

definition handle_offset_end :: "nat \<Rightarrow> server_handle \<Rightarrow> server_handle" where
  "handle_offset_end k s = (case sh_offset_end s of
     Some v \<Rightarrow> s\<lparr>sh_offset_end := Some (u64_add v k)\<rparr> | None \<Rightarrow> s\<lparr>sh_offset_end := Some k\<rparr>)"

definition handle_size_in_used :: "server_handle \<Rightarrow> nat" where
  "handle_size_in_used s =
     u64_sub (u64_sub (sh_size s) (unwrap_or (sh_offset_start s) 0)) (unwrap_or (sh_offset_end s) 0)"

section \<open>Bindings\<close>

definition binding_clone :: "buffer_binding \<Rightarrow> heap \<Rightarrow> buffer_binding \<times> heap" where
  "binding_clone b h = (b, clone_binding (bb_memory b) h)"

definition downgrade :: "buffer_binding \<Rightarrow> weak_buffer_binding" where
  "downgrade b = b"

definition upgrade_binding :: "weak_buffer_binding \<Rightarrow> heap \<Rightarrow> buffer_binding option \<times> heap" where
  "upgrade_binding b h = (case upgrade (bb_memory b) h of
     (None, h) \<Rightarrow> (None, h) | (Some i, h) \<Rightarrow> (Some (b\<lparr>bb_memory := i\<rparr>), h))"

definition size_in_used :: "buffer_binding \<Rightarrow> nat" where
  "size_in_used b =
     u64_sub (u64_sub (bb_size b) (unwrap_or (bb_offset_start b) 0)) (unwrap_or (bb_offset_end b) 0)"

definition binding_range :: "buffer_binding \<Rightarrow> range" where
  "binding_range b = (unwrap_or (bb_offset_start b) 0, u64_sub (bb_size b) (unwrap_or (bb_offset_end b) 0))"

definition claim_key :: "buffer_binding \<Rightarrow> handle \<times> nat \<times> nat" where
  "claim_key b = (bb_memory b, binding_range b)"

section \<open>The bytes a binding names\<close>

definition binding_ok :: "buffer_binding \<Rightarrow> bool" where
  "binding_ok b \<longleftrightarrow> unwrap_or (bb_offset_start b) 0 + unwrap_or (bb_offset_end b) 0 \<le> bb_size b"

definition binding_bytes :: "buffer_binding \<Rightarrow> nat set" where
  "binding_bytes b = bytes_of (binding_range b)"

lemma binding_bytes_ok:
  "binding_ok b \<Longrightarrow> binding_bytes b \<subseteq> {..<bb_size b} \<and> card (binding_bytes b) = size_in_used b"
  by (auto simp: binding_ok_def binding_bytes_def bytes_of_def binding_range_def size_in_used_def u64_sub_def)

text \<open>The offsets of a handle move the two ends of the range inwards, and only those.\<close>

lemma offsets_narrow:
  assumes "unwrap_or (sh_offset_start s) 0 + a + (unwrap_or (sh_offset_end s) 0 + b) \<le> sh_size s" "sh_size s < 2 ^ 64"
  shows "binding_range (fst (server_handle_binding (handle_offset_start a (handle_offset_end b s)) h))
    = (unwrap_or (sh_offset_start s) 0 + a, sh_size s - (unwrap_or (sh_offset_end s) 0 + b))"
  using assms
  by (auto simp: binding_range_def server_handle_binding_def handle_offset_start_def handle_offset_end_def
      unwrap_or_def u64_sub_def u64_add_def split: option.splits)

text \<open>A recorded binding comes back with its fields while something other than its pool holds the memory.\<close>

lemma upgrade_binding_cases:
  "upgrade_binding (downgrade b) h =
     (if strong_count h (bb_memory b) \<le> 1 then (None, h) else (Some b, clone_binding (bb_memory b) h))"
  by (simp add: upgrade_binding_def downgrade_def upgrade_def)

end
