(* ===== verification/Failure_Store.thy ===== *)
theory Failure_Store
  imports Buffer_Binding
begin

text \<open>
  What the streams record on their memory (\<open>cubecl-server/src/stream/base.rs\<close>, the free
  functions) and the failure store every driver gives over it (\<open>stream/failures.rs\<close>): a binding
  is resolved to the stream that allocated it, and that stream's memory is told what happened.

  The memory behind a stream is the trait \<open>StreamMemory\<close>, a record of operations here; the heap of
  descriptors is only read. \<open>stream_memory\<close> is the contract the store relies on: byte by byte, which
  failure claims which memory, and how many carriers a stream has of each failure. A store is a
  pool and the failures of its device; the logger is left out.
\<close>

record 's memory_ops =
  sm_failure :: "heap \<Rightarrow> buffer_binding \<Rightarrow> 's \<Rightarrow> failure_id option"
  sm_taint :: "heap \<Rightarrow> buffer_binding \<Rightarrow> failure_id \<Rightarrow> 's \<Rightarrow> error_graph \<Rightarrow> 's \<times> error_graph"
  sm_written :: "heap \<Rightarrow> buffer_binding \<Rightarrow> 's \<Rightarrow> error_graph \<Rightarrow> 's \<times> error_graph"

record failures =
  fs_graph :: error_graph
  fs_scratch :: "buffer_binding list"

record ('s, 'f) failure_store =
  st_pool :: "('s, 'f) stream_pool"
  st_failures :: failures

record found_failure =
  rf_failure :: failure_id
  rf_needed :: handle
  rf_error :: server_error

definition failures_new :: failures where
  "failures_new = \<lparr>fs_graph = graph_default, fs_scratch = []\<rparr>"

abbreviation store_graph :: "('s, 'f) failure_store \<Rightarrow> error_graph" where
  "store_graph st \<equiv> fs_graph (st_failures st)"

definition with_graph :: "('s, 'f) stream_pool \<times> error_graph \<Rightarrow> ('s, 'f) failure_store \<Rightarrow> ('s, 'f) failure_store" where
  "with_graph pg st = st\<lparr>st_pool := fst pg, st_failures := (st_failures st)\<lparr>fs_graph := snd pg\<rparr>\<rparr>"

section \<open>Recording on the memory\<close>

fun taint_with ::
  "'s memory_ops \<Rightarrow> heap \<Rightarrow> failure_id \<Rightarrow> buffer_binding list \<Rightarrow> ('s, 'f) stream_pool \<Rightarrow> error_graph
     \<Rightarrow> (server_error, ('s, 'f) stream_pool \<times> error_graph) outcome" where
  "taint_with ops h f [] p g = Ok (p, g)"
| "taint_with ops h f (b # bs) p g =
     try_then (try_update (sm_taint ops h b f) (bb_stream b) p g) (\<lambda>(p, g). taint_with ops h f bs p g)"

definition pool_taint ::
  "'s memory_ops \<Rightarrow> heap \<Rightarrow> server_error \<Rightarrow> buffer_binding list \<Rightarrow> ('s, 'f) stream_pool \<Rightarrow> error_graph
     \<Rightarrow> (server_error, ('s, 'f) stream_pool \<times> error_graph) outcome" where
  "pool_taint ops h err bs p g = (case insert_failure err g of (f, g) \<Rightarrow>
     try_then (taint_with ops h f bs p g) (\<lambda>(p, g). Ok (p, prune f g)))"

fun pool_written ::
  "'s memory_ops \<Rightarrow> heap \<Rightarrow> buffer_binding list \<Rightarrow> ('s, 'f) stream_pool \<Rightarrow> error_graph
     \<Rightarrow> (server_error, ('s, 'f) stream_pool \<times> error_graph) outcome" where
  "pool_written ops h [] p g = Ok (p, g)"
| "pool_written ops h (b # bs) p g =
     try_then (try_update (sm_written ops h b) (bb_stream b) p g) (\<lambda>(p, g). pool_written ops h bs p g)"

section \<open>The failure store\<close>

text \<open>The closure of \<open>ensure_written\<close>.\<close>

definition claim_of ::
  "'s memory_ops \<Rightarrow> heap \<Rightarrow> ('s, 'f) stream_pool \<Rightarrow> buffer_binding \<Rightarrow> (server_error, claim option) outcome" where
  "claim_of ops h p b =
     (if \<not> is_allocated h (bb_memory b) then Ok (Some (Unallocated (bb_memory b)))
      else try_then (try_get p (bb_stream b)) (\<lambda>s. Ok (case s of
          None \<Rightarrow> None
        | Some s \<Rightarrow> map_option (\<lambda>f. Failed f (bb_memory b)) (sm_failure ops h b s))))"

fun claims_of ::
  "'s memory_ops \<Rightarrow> heap \<Rightarrow> ('s, 'f) stream_pool \<Rightarrow> buffer_binding list \<Rightarrow> (server_error, claim list) outcome" where
  "claims_of ops h p [] = Ok []"
| "claims_of ops h p (b # bs) =
     try_then (claim_of ops h p b) (\<lambda>c. try_then (claims_of ops h p bs) (\<lambda>cs.
       Ok (case c of None \<Rightarrow> cs | Some c \<Rightarrow> c # cs)))"

definition ensure_written ::
  "'s memory_ops \<Rightarrow> heap \<Rightarrow> buffer_binding list \<Rightarrow> ('s, 'f) failure_store \<Rightarrow> (server_error, unit) outcome" where
  "ensure_written ops h bs st =
     try_then (claims_of ops h (st_pool st) bs) (reports (store_graph st))"

definition read_failure_of ::
  "'s memory_ops \<Rightarrow> heap \<Rightarrow> ('s, 'f) failure_store \<Rightarrow> buffer_binding \<Rightarrow> (server_error, found_failure option) outcome" where
  "read_failure_of ops h st b =
     try_then (try_get (st_pool st) (bb_stream b)) (\<lambda>s. Ok (
       Option.bind s (\<lambda>s. Option.bind (sm_failure ops h b s) (\<lambda>f.
         map_option (\<lambda>e. \<lparr>rf_failure = f, rf_needed = bb_memory b, rf_error = e\<rparr>)
           (graph_error (store_graph st) f)))))"

fun read_failure ::
  "'s memory_ops \<Rightarrow> heap \<Rightarrow> buffer_binding list \<Rightarrow> ('s, 'f) failure_store \<Rightarrow> (server_error, found_failure option) outcome" where
  "read_failure ops h [] st = Ok None"
| "read_failure ops h (b # bs) st =
     try_then (read_failure_of ops h st b) (\<lambda>r. case r of
       Some found \<Rightarrow> Ok (Some found) | None \<Rightarrow> read_failure ops h bs st)"

definition store_taint ::
  "'s memory_ops \<Rightarrow> heap \<Rightarrow> server_error \<Rightarrow> buffer_binding list \<Rightarrow> ('s, 'f) failure_store
     \<Rightarrow> (server_error, ('s, 'f) failure_store) outcome" where
  "store_taint ops h err bs st =
     try_then (pool_taint ops h err bs (st_pool st) (store_graph st)) (\<lambda>pg. Ok (with_graph pg st))"

definition store_written ::
  "'s memory_ops \<Rightarrow> heap \<Rightarrow> buffer_binding list \<Rightarrow> ('s, 'f) failure_store
     \<Rightarrow> (server_error, ('s, 'f) failure_store) outcome" where
  "store_written ops h bs st =
     try_then (pool_written ops h bs (st_pool st) (store_graph st)) (\<lambda>pg. Ok (with_graph pg st))"

text \<open>The vector handed back to the store is empty; its capacity is not modelled.\<close>

definition give_back :: "('s, 'f) failure_store \<Rightarrow> ('s, 'f) failure_store" where
  "give_back st = st\<lparr>st_failures := (st_failures st)\<lparr>fs_scratch := []\<rparr>\<rparr>"

definition propagate ::
  "'s memory_ops \<Rightarrow> heap \<Rightarrow> found_failure \<Rightarrow> string \<Rightarrow> buffer_binding list \<Rightarrow> ('s, 'f) failure_store
     \<Rightarrow> (server_error, ('s, 'f) failure_store) outcome" where
  "propagate ops h found k bs st =
     (let g = record_skipped (rf_failure found)
            \<lparr>kernel = k, needed = rf_needed found, produced = map bb_memory bs\<rparr> (store_graph st)
      in try_then (taint_with ops h (rf_failure found) bs (st_pool st) g)
           (\<lambda>pg. Ok (give_back (with_graph pg st))))"

definition write_set :: "('s, 'f) failure_store \<Rightarrow> buffer_binding list \<times> ('s, 'f) failure_store" where
  "write_set st = (fs_scratch (st_failures st), give_back st)"

definition enter_write ::
  "'s memory_ops \<Rightarrow> heap \<Rightarrow> buffer_binding list \<Rightarrow> ('s, 'f) failure_store
     \<Rightarrow> (server_error, failure_id option \<times> ('s, 'f) failure_store) outcome" where
  "enter_write ops h bs st =
     (if bs = [] then Ok (None, st)
      else (case insert_failure TornDown (store_graph st) of (f, g) \<Rightarrow>
        try_then (taint_with ops h f bs (st_pool st) g) (\<lambda>pg. Ok (Some f, with_graph pg st))))"

definition exit_write ::
  "'s memory_ops \<Rightarrow> heap \<Rightarrow> failure_id option \<Rightarrow> buffer_binding list \<Rightarrow> server_error option
     \<Rightarrow> ('s, 'f) failure_store \<Rightarrow> (server_error, ('s, 'f) failure_store) outcome" where
  "exit_write ops h provisional bs err st =
     try_then
       (case err of
          None \<Rightarrow> store_written ops h bs st
        | Some e \<Rightarrow> Ok (case provisional of
            None \<Rightarrow> st | Some f \<Rightarrow> with_graph (st_pool st, replace f e (store_graph st)) st))
       (\<lambda>st. Ok (give_back (case provisional of
          None \<Rightarrow> st | Some f \<Rightarrow> with_graph (st_pool st, prune f (store_graph st)) st)))"

section \<open>The contract of a stream's memory\<close>

text \<open>
  What the graph keeps while carriers come and go: the errors of the failures it holds, and that a
  failure which loses its last carrier is gone.
\<close>

definition errors_kept :: "error_graph \<Rightarrow> error_graph \<Rightarrow> bool" where
  "errors_kept g g' \<longleftrightarrow> minted g' = minted g \<and> panicked g' = panicked g \<and>
     (\<forall>x. is_held g' x \<longrightarrow> graph_error g' x = graph_error g x \<and> (tags g' x = 0 \<longrightarrow> tags g x = 0))"

lemma errors_kept_refl: "errors_kept g g"
  by (simp add: errors_kept_def)

lemma is_held_error: "is_held g x \<longleftrightarrow> graph_error g x \<noteq> None"
  by (simp add: is_held_def graph_error_def)

lemma errors_kept_held: "errors_kept g g' \<Longrightarrow> is_held g' x \<Longrightarrow> is_held g x"
  by (auto simp: errors_kept_def is_held_error)

lemma errors_kept_trans: "errors_kept a b \<Longrightarrow> errors_kept b c \<Longrightarrow> errors_kept a c"
  using errors_kept_held [of b c] by (simp add: errors_kept_def)

text \<open>The loop the two functions of the pool share.\<close>

fun each_binding ::
  "(buffer_binding \<Rightarrow> 's \<Rightarrow> error_graph \<Rightarrow> 's \<times> error_graph) \<Rightarrow> buffer_binding list \<Rightarrow> ('s, 'f) stream_pool
     \<Rightarrow> error_graph \<Rightarrow> (server_error, ('s, 'f) stream_pool \<times> error_graph) outcome" where
  "each_binding act [] p g = Ok (p, g)"
| "each_binding act (b # bs) p g =
     try_then (try_update (act b) (bb_stream b) p g) (\<lambda>(p, g). each_binding act bs p g)"

lemma taint_with_each: "taint_with ops h f bs p g = each_binding (\<lambda>b. sm_taint ops h b f) bs p g"
  by (induction bs arbitrary: p g) (simp_all add: case_prod_unfold)

lemma pool_written_each: "pool_written ops h bs p g = each_binding (sm_written ops h) bs p g"
  by (induction bs arbitrary: p g) (simp_all add: case_prod_unfold)

locale stream_memory =
  fixes ops :: "'s memory_ops"
    and sane :: "heap \<Rightarrow> 's \<Rightarrow> bool"
    and owns :: "heap \<Rightarrow> 's \<Rightarrow> handle \<Rightarrow> bool"
    and claimed :: "'s \<Rightarrow> handle \<Rightarrow> nat \<Rightarrow> failure_id option"
    and carries :: "'s \<Rightarrow> failure_id \<Rightarrow> nat"
  assumes failure_none: "sane h s \<Longrightarrow> owns h s (bb_memory b) \<Longrightarrow>
      sm_failure ops h b s = None \<longleftrightarrow> (\<forall>x \<in> binding_bytes b. claimed s (bb_memory b) x = None)"
    and failure_some: "sane h s \<Longrightarrow> owns h s (bb_memory b) \<Longrightarrow> sm_failure ops h b s = Some f \<Longrightarrow>
      \<exists>x \<in> binding_bytes b. claimed s (bb_memory b) x = Some f"
    and claim_carried: "sane h s \<Longrightarrow> owns h s i \<Longrightarrow> claimed s i x = Some f \<Longrightarrow> 0 < carries s f"
    and carried_claim: "sane h s \<Longrightarrow> 0 < carries s f \<Longrightarrow> \<exists>i x. owns h s i \<and> claimed s i x = Some f"
    and taint_claims: "sane h s \<Longrightarrow> owns h s (bb_memory b) \<Longrightarrow> sm_taint ops h b f s g = (s', g') \<Longrightarrow>
      sane h s' \<and> owns h s' = owns h s \<and> (\<forall>i x. owns h s i \<longrightarrow> claimed s' i x =
        (if i = bb_memory b \<and> x \<in> binding_bytes b then Some f else claimed s i x))"
    and taint_counts: "sane h s \<Longrightarrow> owns h s (bb_memory b) \<Longrightarrow> sm_taint ops h b f s g = (s', g') \<Longrightarrow>
      \<forall>x. carries s x \<le> tags g x \<Longrightarrow> is_held g f \<Longrightarrow>
        errors_kept g g' \<and> is_held g' f \<and> (\<forall>x. tags g' x + carries s x = tags g x + carries s' x)"
    and written_claims: "sane h s \<Longrightarrow> owns h s (bb_memory b) \<Longrightarrow> sm_written ops h b s g = (s', g') \<Longrightarrow>
      sane h s' \<and> owns h s' = owns h s \<and> (\<forall>i x. owns h s i \<longrightarrow> claimed s' i x =
        (if i = bb_memory b \<and> x \<in> binding_bytes b then None else claimed s i x))"
    and written_counts: "sane h s \<Longrightarrow> owns h s (bb_memory b) \<Longrightarrow> sm_written ops h b s g = (s', g') \<Longrightarrow>
      \<forall>x. carries s x \<le> tags g x \<Longrightarrow>
        errors_kept g g' \<and> (\<forall>x. tags g' x + carries s x = tags g x + carries s' x)"
begin

definition carriers :: "('s, 'f) stream_pool \<Rightarrow> failure_id \<Rightarrow> nat" where
  "carriers p x = (\<Sum>i < length (streams p). case streams p ! i of None \<Rightarrow> 0 | Some s \<Rightarrow> carries s x)"

text \<open>The failure that claims a byte of a memory on a slot.\<close>

definition byte_claim :: "('s, 'f) stream_pool \<Rightarrow> nat \<Rightarrow> handle \<Rightarrow> nat \<Rightarrow> failure_id option" where
  "byte_claim p k i x = (case streams p ! k of None \<Rightarrow> None | Some s \<Rightarrow> claimed s i x)"

text \<open>A slot holds the memory a binding names, or was never used.\<close>

definition resolves :: "heap \<Rightarrow> ('s, 'f) stream_pool \<Rightarrow> nat \<Rightarrow> handle \<Rightarrow> bool" where
  "resolves h p k i \<longleftrightarrow> (case streams p ! k of None \<Rightarrow> True | Some s \<Rightarrow> owns h s i)"

abbreviation reaches :: "heap \<Rightarrow> ('s, 'f) stream_pool \<Rightarrow> buffer_binding \<Rightarrow> bool" where
  "reaches h p b \<equiv> resolves h p (slot p (bb_stream b)) (bb_memory b)"

text \<open>The graph counts exactly the carriers, and the memory of every stream is well formed.\<close>

definition tallied :: "heap \<Rightarrow> ('s, 'f) stream_pool \<Rightarrow> error_graph \<Rightarrow> bool" where
  "tallied h p g \<longleftrightarrow> regular_ok p \<and> \<not> panicked g \<and> (\<forall>x. is_held g x \<longrightarrow> x \<le> minted g) \<and> (\<forall>x. tags g x = carriers p x) \<and>
     (\<forall>i < length (streams p). case streams p ! i of None \<Rightarrow> True | Some s \<Rightarrow> sane h s)"

definition names :: "('s, 'f) stream_pool \<Rightarrow> buffer_binding list \<Rightarrow> nat \<Rightarrow> handle \<Rightarrow> nat \<Rightarrow> bool" where
  "names p bs k i x \<longleftrightarrow> streams p ! k \<noteq> None \<and>
     (\<exists>b \<in> set bs. slot p (bb_stream b) = k \<and> bb_memory b = i \<and> x \<in> binding_bytes b)"

text \<open>One pool after another: the same slots in use, the same memories on them.\<close>

definition same_shape :: "heap \<Rightarrow> ('s, 'f) stream_pool \<Rightarrow> ('s, 'f) stream_pool \<Rightarrow> bool" where
  "same_shape h p p' \<longleftrightarrow> max_streams p' = max_streams p \<and> length (streams p') = length (streams p) \<and>
     (\<forall>k i. resolves h p' k i = resolves h p k i) \<and> (\<forall>k. (streams p' ! k = None) = (streams p ! k = None))"

lemma same_shape_refl: "same_shape h p p"
  by (simp add: same_shape_def)

lemma same_shape_trans: "same_shape h a b \<Longrightarrow> same_shape h b c \<Longrightarrow> same_shape h a c"
  by (simp add: same_shape_def)

lemma same_shape_slot: "same_shape h p p' \<Longrightarrow> slot p' sid = slot p sid"
  by (simp add: same_shape_def slot_def)

lemma same_shape_names: "same_shape h p p' \<Longrightarrow> names p' bs = names p bs"
  by (intro ext) (simp add: names_def same_shape_def slot_def)

lemma same_shape_reaches: "same_shape h p p' \<Longrightarrow> reaches h p' b = reaches h p b"
  by (simp add: same_shape_def slot_def)

lemma carriers_put:
  assumes "k < length (streams p)" "streams p ! k = Some s"
  shows "carriers (put_stream k s' p) x + carries s x = carriers p x + carries s' x"
proof -
  let ?f = "\<lambda>p i. case streams p ! i of None \<Rightarrow> 0 | Some s \<Rightarrow> carries s x"
  have "(\<Sum>i \<in> {..<length (streams p)} - {k}. ?f (put_stream k s' p) i) = (\<Sum>i \<in> {..<length (streams p)} - {k}. ?f p i)"
    by (rule sum.cong) auto
  then show ?thesis
    using assms sum.remove [of "{..<length (streams p)}" k "?f p"]
      sum.remove [of "{..<length (streams p)}" k "?f (put_stream k s' p)"]
    by (simp add: carriers_def)
qed

lemma carries_le: "tallied h p g \<Longrightarrow> k < length (streams p) \<Longrightarrow> streams p ! k = Some s \<Longrightarrow> carries s x \<le> tags g x"
proof -
  assume "tallied h p g" "k < length (streams p)" "streams p ! k = Some s"
  then show ?thesis
    using member_le_sum [of k "{..<length (streams p)}" "\<lambda>i. case streams p ! i of None \<Rightarrow> 0 | Some s \<Rightarrow> carries s x"]
    by (simp add: tallied_def carriers_def)
qed

lemma tallied_sane: "tallied h p g \<Longrightarrow> k < length (streams p) \<Longrightarrow> streams p ! k = Some s \<Longrightarrow> sane h s"
  unfolding tallied_def by (metis option.simps(5))

text \<open>A claim is on a failure the graph holds.\<close>

lemma claim_tagged:
  assumes "tallied h p g" "k < length (streams p)" "resolves h p k i" "byte_claim p k i x = Some f"
  shows "0 < tags g f"
proof -
  obtain s where s: "streams p ! k = Some s" "claimed s i x = Some f"
    using assms(4) by (auto simp: byte_claim_def split: option.splits)
  then have "0 < carries s f"
    using assms(2,3) tallied_sane [OF assms(1)] by (auto simp: resolves_def intro: claim_carried)
  then show ?thesis using carries_le [OF assms(1,2) s(1)] less_le_trans by blast
qed

lemmas claim_held = graph.count_held [OF claim_tagged]

text \<open>
  One step of either loop: a stream replaced by one with the same memories, whose carriers the
  graph followed.
\<close>

lemma tallied_put:
  assumes "tallied h p g" "k < length (streams p)" "streams p ! k = Some s"
    "sane h s'" "owns h s' = owns h s" "errors_kept g g'" "\<forall>x. tags g' x + carries s x = tags g x + carries s' x"
  shows "tallied h (put_stream k s' p) g'" "same_shape h p (put_stream k s' p)"
proof -
  have "tags g' x = carriers (put_stream k s' p) x" for x
    using assms(1) assms(7) [THEN spec, of x] carriers_put [OF assms(2,3), of s' x] by (simp add: tallied_def)
  moreover have "case streams (put_stream k s' p) ! i of None \<Rightarrow> True | Some s \<Rightarrow> sane h s"
    if "i < length (streams p)" for i
    using that assms(1,2,4) by (cases "i = k") (auto simp: tallied_def)
  ultimately show "tallied h (put_stream k s' p) g'"
    using assms(1,6) errors_kept_held [OF assms(6)] by (simp add: tallied_def errors_kept_def)
  have "resolves h (put_stream k s' p) j i = resolves h p j i \<and> (streams (put_stream k s' p) ! j = None) = (streams p ! j = None)" for j i
    using assms(2,3,5) by (cases "j = k") (auto simp: resolves_def)
  then show "same_shape h p (put_stream k s' p)" by (simp add: same_shape_def)
qed

text \<open>Both loops, once: every binding marks the bytes it names.\<close>

lemma each_binding_spec:
  assumes act: "\<And>b s g s' g'. sane h s \<Longrightarrow> owns h s (bb_memory b) \<Longrightarrow> act b s g = (s', g') \<Longrightarrow>
      \<forall>x. carries s x \<le> tags g x \<Longrightarrow> pre g \<Longrightarrow>
        (sane h s' \<and> owns h s' = owns h s \<and> (\<forall>i x. owns h s i \<longrightarrow> claimed s' i x =
          (if i = bb_memory b \<and> x \<in> binding_bytes b then mark else claimed s i x))) \<and>
        errors_kept g g' \<and> pre g' \<and> (\<forall>x. tags g' x + carries s x = tags g x + carries s' x)"
    and "tallied h p g" "\<forall>b \<in> set bs. reaches h p b" "pre g"
  shows "\<exists>p' g'. each_binding act bs p g = Ok (p', g') \<and> tallied h p' g' \<and> same_shape h p p' \<and>
    errors_kept g g' \<and> pre g' \<and>
    (\<forall>k i x. resolves h p k i \<longrightarrow> byte_claim p' k i x = (if names p bs k i x then mark else byte_claim p k i x))"
  using assms(2-)
proof (induction bs arbitrary: p g)
  case Nil
  then show ?case by (auto simp: same_shape_refl errors_kept_refl names_def)
next
  case (Cons b bs)
  let ?k = "slot p (bb_stream b)"
  have ok: "regular_ok p" and k: "?k < length (streams p)" using Cons.prems(1) by (simp_all add: tallied_def)
  show ?case
  proof (cases "streams p ! ?k")
    case None
    then have "names p (b # bs) = names p bs" by (intro ext) (auto simp: names_def)
    with Cons.IH [OF Cons.prems(1) _ Cons.prems(3)] Cons.prems(2) None show ?thesis
      by (simp add: try_update_slot ok)
  next
    case (Some s)
    obtain s' g1 where t: "act b s g = (s', g1)" by fastforce
    have o: "owns h s (bb_memory b)" using Cons.prems(2) Some by (simp add: resolves_def)
    note cl = act [OF tallied_sane [OF Cons.prems(1) k Some] o t _ Cons.prems(3)] carries_le [OF Cons.prems(1) k Some]
    let ?p = "put_stream ?k s' p"
    have c1: "tallied h ?p g1" "same_shape h p ?p"
      using tallied_put [OF Cons.prems(1) k Some] cl by blast+
    obtain p' g' where ih: "each_binding act bs ?p g1 = Ok (p', g')" "tallied h p' g'" "same_shape h ?p p'"
      "errors_kept g1 g'" "pre g'"
      "\<forall>k i x. resolves h ?p k i \<longrightarrow> byte_claim p' k i x = (if names ?p bs k i x then mark else byte_claim ?p k i x)"
      using Cons.IH [OF c1(1)] Cons.prems(2) cl same_shape_reaches [OF c1(2)] by fastforce
    have "byte_claim p' j i x = (if names p (b # bs) j i x then mark else byte_claim p j i x)"
      if "resolves h p j i" for j i x
    proof -
      have "byte_claim ?p j i x = (if j = ?k \<and> i = bb_memory b \<and> x \<in> binding_bytes b then mark else byte_claim p j i x)"
        using cl that k Some by (cases "j = ?k") (auto simp: byte_claim_def resolves_def)
      with ih(6) that c1(2) Some show ?thesis
        by (auto simp: same_shape_names [OF c1(2)] same_shape_def names_def)
    qed
    with ih(1-5) c1(2) cl show ?thesis
      using Some t ok by (auto simp: try_update_slot intro: same_shape_trans errors_kept_trans)
  qed
qed

lemma taint_with_spec:
  assumes "tallied h p g" "\<forall>b \<in> set bs. reaches h p b" "is_held g f"
  shows "\<exists>p' g'. taint_with ops h f bs p g = Ok (p', g') \<and> tallied h p' g' \<and> same_shape h p p' \<and>
    errors_kept g g' \<and> is_held g' f \<and>
    (\<forall>k i x. resolves h p k i \<longrightarrow> byte_claim p' k i x = (if names p bs k i x then Some f else byte_claim p k i x))"
  unfolding taint_with_each using assms
  by (intro each_binding_spec [where pre = "\<lambda>g. is_held g f"]) (use taint_claims taint_counts in \<open>blast+\<close>)

lemma pool_written_spec:
  assumes "tallied h p g" "\<forall>b \<in> set bs. reaches h p b"
  shows "\<exists>p' g'. pool_written ops h bs p g = Ok (p', g') \<and> tallied h p' g' \<and> same_shape h p p' \<and>
    errors_kept g g' \<and>
    (\<forall>k i x. resolves h p k i \<longrightarrow> byte_claim p' k i x = (if names p bs k i x then None else byte_claim p k i x))"
proof -
  have "\<exists>p' g'. each_binding (sm_written ops h) bs p g = Ok (p', g') \<and> tallied h p' g' \<and> same_shape h p p' \<and>
    errors_kept g g' \<and> True \<and>
    (\<forall>k i x. resolves h p k i \<longrightarrow> byte_claim p' k i x = (if names p bs k i x then None else byte_claim p k i x))"
    using assms by (intro each_binding_spec [where pre = "\<lambda>g. True"]) (use written_claims written_counts in \<open>blast+\<close>)
  then show ?thesis unfolding pool_written_each by simp
qed

end

end
