(* ===== verification/Write_Scope.thy ===== *)
theory Write_Scope
  imports Failure_Store
begin

text \<open>
  What entering and leaving a write scope does, over the contract of a stream's memory: the write
  set is claimed while the work runs, and afterwards it is clean or carries the error of the work.
\<close>

section \<open>The graph around a scope\<close>

lemma insert_failure_spec:
  assumes "minted g + 1 < 2 ^ 64" "\<forall>x. is_held g x \<longrightarrow> x \<le> minted g"
  shows "\<exists>g'. insert_failure err g = (minted g + 1, g') \<and> (\<forall>x. tags g' x = tags g x) \<and>
    (\<forall>x. is_held g' x \<longleftrightarrow> x = minted g + 1 \<or> is_held g x) \<and> panicked g' = panicked g \<and> minted g' = minted g + 1 \<and>
    (\<forall>x. graph_error g' x = (if x = minted g + 1 then Some err else graph_error g x))"
proof -
  have "nodes g (minted g + 1) = None" using assms(2) by (force simp: is_held_def)
  with assms(1) show ?thesis by (auto simp: insert_failure_def tags_def is_held_def graph_error_def)
qed

lemma prune_fields:
  "tags (prune f g) x = tags g x" "minted (prune f g) = minted g" "panicked (prune f g) = panicked g"
  "is_held (prune f g) x \<longleftrightarrow> is_held g x \<and> (x = f \<longrightarrow> 0 < tags g f)"
  "is_held (prune f g) x \<Longrightarrow> graph_error (prune f g) x = graph_error g x"
  by (auto simp: prune_def tags_def is_held_def graph_error_def split: option.splits if_splits)

lemma replace_fields:
  "tags (replace f e g) x = tags g x" "minted (replace f e g) = minted g" "panicked (replace f e g) = panicked g"
  "is_held (replace f e g) x \<longleftrightarrow> is_held g x"
  "graph_error (replace f e g) x = (if x = f \<and> is_held g f then Some e else graph_error g x)"
  by (auto simp: replace_def tags_def is_held_def graph_error_def split: option.splits)

lemma record_skipped_fields:
  "tags (record_skipped f r g) x = tags g x" "minted (record_skipped f r g) = minted g"
  "panicked (record_skipped f r g) = panicked g" "is_held (record_skipped f r g) x \<longleftrightarrow> is_held g x"
  "graph_error (record_skipped f r g) x = graph_error g x"
  by (auto simp: record_skipped_def push_skip_def Let_def tags_def is_held_def graph_error_def split: option.splits)

text \<open>A read reports exactly the failures still held, each with the error it stands for.\<close>

lemma reports_loop_empty:
  "reports_loop g cs seen = [] \<longleftrightarrow> (\<forall>m. Unallocated m \<notin> set cs) \<and> (\<forall>f m. Failed f m \<in> set cs \<and> f \<notin> set seen \<longrightarrow> \<not> is_held g f)"
proof (induction g cs seen rule: reports_loop.induct)
  case (3 g f m cs seen)
  then show ?case by (cases "nodes g f") (auto simp: report_def is_held_def Let_def)
qed auto

lemma reports_loop_root:
  "Failed f m \<in> set cs \<Longrightarrow> f \<notin> set seen \<Longrightarrow> graph_error g f = Some e \<Longrightarrow>
     \<exists>n chain. Unwritten f n chain e \<in> set (reports_loop g cs seen)"
proof (induction g cs seen rule: reports_loop.induct)
  case (3 g f' m' cs seen)
  then obtain n where n: "nodes g f = Some n" "error n = e" by (auto simp: graph_error_def)
  from 3 show ?case
    by (cases "f' = f") (auto simp: report_def n Let_def split: option.splits)
qed auto

lemma reports_ok: "reports g cs = Ok () \<longleftrightarrow> (\<forall>m. Unallocated m \<notin> set cs) \<and> (\<forall>f m. Failed f m \<in> set cs \<longrightarrow> \<not> is_held g f)"
  using reports_loop_empty [of g cs "[]"] by (auto simp: reports_def Let_def)

lemma reports_root:
  assumes "Failed f m \<in> set cs" "graph_error g f = Some e"
  shows "\<exists>es n chain. reports g cs = Err (Several es) \<and> Unwritten f n chain e \<in> set es"
  using reports_loop_root [OF assms(1) _ assms(2), of "[]"] by (auto simp: reports_def Let_def)

section \<open>Reads\<close>

context stream_memory
begin

text \<open>The invariant of a store at rest: tallied, and nothing held that no memory carries.\<close>

definition store_ok :: "heap \<Rightarrow> ('s, 'f) failure_store \<Rightarrow> bool" where
  "store_ok h st \<longleftrightarrow> tallied h (st_pool st) (store_graph st) \<and> (\<forall>x. is_held (store_graph st) x \<longrightarrow> 0 < tags (store_graph st) x)"

abbreviation claim_at :: "('s, 'f) stream_pool \<Rightarrow> buffer_binding \<Rightarrow> nat \<Rightarrow> failure_id option" where
  "claim_at p b x \<equiv> byte_claim p (slot p (bb_stream b)) (bb_memory b) x"

text \<open>What the memory of a binding's slot answers, in terms of bytes.\<close>

lemma slot_failure:
  assumes "tallied h p g" "reaches h p b" "streams p ! slot p (bb_stream b) = Some s"
  shows "sm_failure ops h b s = None \<longleftrightarrow> (\<forall>x \<in> binding_bytes b. claim_at p b x = None)"
    and "sm_failure ops h b s = Some f \<Longrightarrow> is_held g f \<and> (\<exists>x \<in> binding_bytes b. claim_at p b x = Some f)"
proof -
  have k: "slot p (bb_stream b) < length (streams p)" using assms(1) by (simp add: tallied_def)
  have o: "owns h s (bb_memory b)" using assms(2,3) by (simp add: resolves_def)
  note sn = tallied_sane [OF assms(1) k assms(3)]
  show "sm_failure ops h b s = None \<longleftrightarrow> (\<forall>x \<in> binding_bytes b. claim_at p b x = None)"
    using failure_none [OF sn o] assms(3) by (simp add: byte_claim_def)
  assume "sm_failure ops h b s = Some f"
  from failure_some [OF sn o this] obtain x where x: "x \<in> binding_bytes b" "claim_at p b x = Some f"
    using assms(3) by (auto simp: byte_claim_def)
  with claim_held [OF assms(1) k assms(2)] show "is_held g f \<and> (\<exists>x \<in> binding_bytes b. claim_at p b x = Some f)" by blast
qed

lemma claims_of_spec:
  assumes "tallied h p g" "\<forall>b \<in> set bs. reaches h p b \<and> is_allocated h (bb_memory b)"
  shows "\<exists>cs. claims_of ops h p bs = Ok cs \<and> set cs = {Failed f (bb_memory b) | f b s. b \<in> set bs \<and>
      streams p ! slot p (bb_stream b) = Some s \<and> sm_failure ops h b s = Some f}"
  using assms(2)
proof (induction bs)
  case Nil
  then show ?case by simp
next
  case (Cons b bs)
  then obtain cs where cs: "claims_of ops h p bs = Ok cs" "set cs = {Failed f (bb_memory b) | f b s. b \<in> set bs \<and>
      streams p ! slot p (bb_stream b) = Some s \<and> sm_failure ops h b s = Some f}" by auto
  have ok: "regular_ok p" using assms(1) by (simp add: tallied_def)
  show ?case
  proof (cases "Option.bind (streams p ! slot p (bb_stream b)) (sm_failure ops h b)")
    case None
    then have "claim_of ops h p b = Ok None" using Cons.prems ok
      by (auto simp: claim_of_def split: option.splits)
    with cs None show ?thesis by (auto simp: bind_eq_None_conv)
  next
    case (Some f)
    then have "claim_of ops h p b = Ok (Some (Failed f (bb_memory b)))" using Cons.prems ok
      by (auto simp: claim_of_def bind_eq_Some_conv)
    with cs Some show ?thesis by (auto simp: bind_eq_Some_conv)
  qed
qed

lemma ensure_written_spec:
  assumes "tallied h (st_pool st) (store_graph st)" "\<forall>b \<in> set bs. reaches h (st_pool st) b \<and> is_allocated h (bb_memory b)"
  shows "ensure_written ops h bs st = Ok () \<longleftrightarrow> (\<forall>b \<in> set bs. \<forall>x \<in> binding_bytes b. claim_at (st_pool st) b x = None)"
proof -
  from claims_of_spec [OF assms] obtain cs where cs: "claims_of ops h (st_pool st) bs = Ok cs"
    "set cs = {Failed f (bb_memory b) | f b s. b \<in> set bs \<and>
      streams (st_pool st) ! slot (st_pool st) (bb_stream b) = Some s \<and> sm_failure ops h b s = Some f}" by blast
  have "ensure_written ops h bs st = Ok () \<longleftrightarrow> (\<forall>b \<in> set bs. \<forall>s.
      streams (st_pool st) ! slot (st_pool st) (bb_stream b) = Some s \<longrightarrow> sm_failure ops h b s = None)"
  proof -
    have held: "is_held (store_graph st) f" if "Failed f m \<in> set cs" for f m
      using that slot_failure(2) [OF assms(1)] assms(2) unfolding cs(2) by blast
    have form: "\<exists>f m. c = Failed f m" if "c \<in> set cs" for c
      using that unfolding cs(2) by blast
    have "reports (store_graph st) cs = Ok () \<longleftrightarrow> set cs = {}"
      using held form by (auto simp: reports_ok) (metis list.set_intros(1) neq_Nil_conv)
    also have "\<dots> \<longleftrightarrow> (\<forall>b \<in> set bs. \<forall>s. streams (st_pool st) ! slot (st_pool st) (bb_stream b) = Some s \<longrightarrow> sm_failure ops h b s = None)"
    proof (cases "set cs = {}")
      case True
      then have "sm_failure ops h b s \<noteq> Some f"
        if "b \<in> set bs" "streams (st_pool st) ! slot (st_pool st) (bb_stream b) = Some s" for b s f
        using that unfolding cs(2) by blast
      with True show ?thesis by (simp add: not_Some_eq [symmetric] del: not_Some_eq)
    next
      case False
      then show ?thesis unfolding cs(2) by force
    qed
    finally show ?thesis using cs(1) by (simp add: ensure_written_def)
  qed
  also have "\<dots> \<longleftrightarrow> (\<forall>b \<in> set bs. \<forall>x \<in> binding_bytes b. claim_at (st_pool st) b x = None)"
  proof (intro ball_cong refl)
    fix b assume "b \<in> set bs"
    with slot_failure(1) [OF assms(1)] assms(2) show "(\<forall>s. streams (st_pool st) ! slot (st_pool st) (bb_stream b) = Some s \<longrightarrow>
        sm_failure ops h b s = None) = (\<forall>x \<in> binding_bytes b. claim_at (st_pool st) b x = None)"
      by (cases "streams (st_pool st) ! slot (st_pool st) (bb_stream b)") (auto simp: byte_claim_def)
  qed
  finally show ?thesis .
qed

lemma ensure_written_root:
  assumes "tallied h (st_pool st) (store_graph st)" "\<forall>b \<in> set bs. reaches h (st_pool st) b \<and> is_allocated h (bb_memory b)"
    "b \<in> set bs" "binding_bytes b \<noteq> {}" "\<forall>x \<in> binding_bytes b. claim_at (st_pool st) b x = Some f"
    "graph_error (store_graph st) f = Some e"
  shows "\<exists>es n chain. ensure_written ops h bs st = Err (Several es) \<and> Unwritten f n chain e \<in> set es"
proof -
  obtain s where s: "streams (st_pool st) ! slot (st_pool st) (bb_stream b) = Some s"
    using assms(4,5) by (auto simp: byte_claim_def split: option.splits)
  have r: "reaches h (st_pool st) b" using assms(2,3) by blast
  have "sm_failure ops h b s \<noteq> None" using slot_failure(1) [OF assms(1) r s] assms(4,5) by force
  then obtain f' where f': "sm_failure ops h b s = Some f'" by blast
  with slot_failure(2) [OF assms(1) r s] assms(5) have "f' = f" by force
  with claims_of_spec [OF assms(1,2)] f' s assms(3) obtain cs where "claims_of ops h (st_pool st) bs = Ok cs"
    "Failed f (bb_memory b) \<in> set cs" by blast
  with reports_root [OF _ assms(6)] show ?thesis by (auto simp: ensure_written_def)
qed

lemma read_failure_spec:
  assumes "tallied h (st_pool st) (store_graph st)" "\<forall>b \<in> set bs. reaches h (st_pool st) b"
  shows "\<exists>r. read_failure ops h bs st = Ok r \<and>
    (r = None \<longleftrightarrow> (\<forall>b \<in> set bs. \<forall>x \<in> binding_bytes b. claim_at (st_pool st) b x = None)) \<and>
    (\<forall>found. r = Some found \<longrightarrow> is_held (store_graph st) (rf_failure found) \<and>
       graph_error (store_graph st) (rf_failure found) = Some (rf_error found) \<and>
       (\<exists>b \<in> set bs. rf_needed found = bb_memory b \<and> (\<exists>x \<in> binding_bytes b. claim_at (st_pool st) b x = Some (rf_failure found))))"
  using assms(2)
proof (induction bs)
  case Nil
  then show ?case by simp
next
  case (Cons b bs)
  have ok: "regular_ok (st_pool st)" using assms(1) by (simp add: tallied_def)
  have r: "reaches h (st_pool st) b" using Cons.prems by simp
  show ?case
  proof (cases "Option.bind (streams (st_pool st) ! slot (st_pool st) (bb_stream b)) (sm_failure ops h b)")
    case None
    then have "read_failure_of ops h st b = Ok None" using ok by (auto simp: read_failure_of_def split: option.splits bind_splits)
    moreover have "\<forall>x \<in> binding_bytes b. claim_at (st_pool st) b x = None"
      using None slot_failure(1) [OF assms(1) r] by (cases "streams (st_pool st) ! slot (st_pool st) (bb_stream b)") (auto simp: byte_claim_def)
    ultimately show ?thesis using Cons by auto
  next
    case (Some f)
    then obtain s where s: "streams (st_pool st) ! slot (st_pool st) (bb_stream b) = Some s" "sm_failure ops h b s = Some f"
      by (auto simp: bind_eq_Some_conv)
    note held = slot_failure(2) [OF assms(1) r s]
    then obtain e where e: "graph_error (store_graph st) f = Some e" by (auto simp: is_held_error)
    have "read_failure_of ops h st b = Ok (Some \<lparr>rf_failure = f, rf_needed = bb_memory b, rf_error = e\<rparr>)"
      using ok s e by (simp add: read_failure_of_def)
    with held e show ?thesis by force
  qed
qed

section \<open>Entering and leaving\<close>

lemma with_graph_fields [simp]:
  "st_pool (with_graph pg st) = fst pg" "store_graph (with_graph pg st) = snd pg"
  "st_pool (give_back st) = st_pool st" "store_graph (give_back st) = store_graph st"
  by (simp_all add: with_graph_def give_back_def)

lemma enter_spec:
  assumes "store_ok h st" "\<forall>b \<in> set bs. reaches h (st_pool st) b" "bs \<noteq> []" "minted (store_graph st) + 1 < 2 ^ 64"
  defines "f \<equiv> minted (store_graph st) + 1"
  shows "\<exists>st'. enter_write ops h bs st = Ok (Some f, st') \<and> tallied h (st_pool st') (store_graph st') \<and>
    same_shape h (st_pool st) (st_pool st') \<and> graph_error (store_graph st') f = Some TornDown \<and>
    (\<forall>x. x \<noteq> f \<and> is_held (store_graph st') x \<longrightarrow> 0 < tags (store_graph st') x \<and> graph_error (store_graph st') x = graph_error (store_graph st) x) \<and>
    (\<forall>k i x. resolves h (st_pool st) k i \<longrightarrow>
       byte_claim (st_pool st') k i x = (if names (st_pool st) bs k i x then Some f else byte_claim (st_pool st) k i x)) \<and>
    minted (store_graph st') = f"
proof -
  have c: "tallied h (st_pool st) (store_graph st)" using assms(1) by (simp add: store_ok_def)
  from insert_failure_spec [OF assms(4), of TornDown] c obtain g where g: "insert_failure TornDown (store_graph st) = (f, g)"
    "\<forall>x. tags g x = tags (store_graph st) x" "\<forall>x. is_held g x \<longleftrightarrow> x = f \<or> is_held (store_graph st) x"
    "panicked g = panicked (store_graph st)" "minted g = f" "\<forall>x. graph_error g x = (if x = f then Some TornDown else graph_error (store_graph st) x)"
    by (auto simp: tallied_def f_def)
  have "tallied h (st_pool st) g" using c g by (auto simp: tallied_def f_def)
  from taint_with_spec [OF this assms(2)] g(3) obtain p' g' where t: "taint_with ops h f bs (st_pool st) g = Ok (p', g')" "tallied h p' g'"
    "same_shape h (st_pool st) p'" "errors_kept g g'" "is_held g' f"
    "\<forall>k i x. resolves h (st_pool st) k i \<longrightarrow> byte_claim p' k i x = (if names (st_pool st) bs k i x then Some f else byte_claim (st_pool st) k i x)"
    by blast
  have "enter_write ops h bs st = Ok (Some f, with_graph (p', g') st)" using assms(3) g(1) t(1) by (simp add: enter_write_def)
  moreover have "0 < tags g' x \<and> graph_error g' x = graph_error (store_graph st) x" if "x \<noteq> f" "is_held g' x" for x
  proof -
    have "is_held (store_graph st) x" using that errors_kept_held [OF t(4) that(2)] g(3) by blast
    then have "0 < tags g x" using assms(1) g(2) by (simp add: store_ok_def)
    moreover have "graph_error g' x = graph_error g x \<and> (tags g' x = 0 \<longrightarrow> tags g x = 0)" using t(4) that(2) by (simp add: errors_kept_def)
    ultimately show ?thesis using g(6) that(1) by (cases "tags g' x") auto
  qed
  ultimately show ?thesis using t g by (auto simp: errors_kept_def)
qed

text \<open>A failure nothing claims is carried nowhere.\<close>

lemma unclaimed_untagged:
  assumes "tallied h p g" "\<And>k i x. k < length (streams p) \<Longrightarrow> resolves h p k i \<Longrightarrow> byte_claim p k i x \<noteq> Some f"
  shows "tags g f = 0"
proof -
  have "(case streams p ! k of None \<Rightarrow> 0 | Some s \<Rightarrow> carries s f) = 0" if k: "k < length (streams p)" for k
  proof (cases "streams p ! k")
    case (Some s)
    have "\<not> 0 < carries s f"
    proof
      assume "0 < carries s f"
      from carried_claim [OF tallied_sane [OF assms(1) k Some] this] assms(2) [OF k] Some show False
        by (auto simp: resolves_def byte_claim_def)
    qed
    with Some show ?thesis by simp
  qed simp
  then have "carriers p f = 0" by (simp add: carriers_def)
  with assms(1) show ?thesis by (simp add: tallied_def)
qed

lemma tallied_graph:
  assumes "tallied h p g" "\<And>x. tags g' x = tags g x" "minted g' = minted g" "panicked g' = panicked g" "\<And>x. is_held g' x \<Longrightarrow> is_held g x"
  shows "tallied h p g'"
  using assms by (auto simp: tallied_def)

lemma exit_ok_spec:
  assumes "tallied h (st_pool st) (store_graph st)" "\<forall>b \<in> set bs. reaches h (st_pool st) b"
    "\<forall>x. x \<noteq> f \<and> is_held (store_graph st) x \<longrightarrow> 0 < tags (store_graph st) x"
    "\<And>k i x. k < length (streams (st_pool st)) \<Longrightarrow> resolves h (st_pool st) k i \<Longrightarrow>
       byte_claim (st_pool st) k i x = Some f \<Longrightarrow> names (st_pool st) bs k i x"
  shows "\<exists>st'. exit_write ops h (Some f) bs None st = Ok st' \<and> store_ok h st' \<and> same_shape h (st_pool st) (st_pool st') \<and>
    \<not> is_held (store_graph st') f \<and> minted (store_graph st') = minted (store_graph st) \<and>
    (\<forall>x. is_held (store_graph st') x \<longrightarrow> graph_error (store_graph st') x = graph_error (store_graph st) x) \<and>
    (\<forall>k i x. resolves h (st_pool st) k i \<longrightarrow>
       byte_claim (st_pool st') k i x = (if names (st_pool st) bs k i x then None else byte_claim (st_pool st) k i x))"
proof -
  from pool_written_spec [OF assms(1,2)] obtain p' g' where w: "pool_written ops h bs (st_pool st) (store_graph st) = Ok (p', g')"
    "tallied h p' g'" "same_shape h (st_pool st) p'" "errors_kept (store_graph st) g'"
    "\<forall>k i x. resolves h (st_pool st) k i \<longrightarrow> byte_claim p' k i x = (if names (st_pool st) bs k i x then None else byte_claim (st_pool st) k i x)"
    by blast
  have "tags g' f = 0"
    using w(3,5) assms(4) by (intro unclaimed_untagged [OF w(2)]) (auto simp: same_shape_def split: if_splits)
  then have gone: "\<not> is_held (prune f g') f" by (simp add: prune_fields)
  have at_rest: "0 < tags (prune f g') x" if "is_held (prune f g') x" for x
  proof -
    from that gone have "x \<noteq> f" "is_held g' x" by (auto simp: prune_fields(4))
    with assms(3) errors_kept_held [OF w(4), of x] have "0 < tags (store_graph st) x" by blast
    with w(4) \<open>is_held g' x\<close> show ?thesis by (cases "tags g' x") (auto simp: prune_fields(1) errors_kept_def)
  qed
  have "tallied h p' (prune f g')" by (rule tallied_graph [OF w(2)]) (simp_all add: prune_fields)
  then have "store_ok h (give_back (with_graph (p', prune f g') st))" using at_rest by (simp add: store_ok_def)
  moreover have "exit_write ops h (Some f) bs None st = Ok (give_back (with_graph (p', prune f g') st))"
    using w(1) by (simp add: exit_write_def store_written_def with_graph_def)
  ultimately show ?thesis using w gone by (auto simp: prune_fields errors_kept_def)
qed

lemma exit_err_spec:
  assumes "tallied h (st_pool st) (store_graph st)" "\<forall>x. x \<noteq> f \<and> is_held (store_graph st) x \<longrightarrow> 0 < tags (store_graph st) x"
  shows "\<exists>st'. exit_write ops h (Some f) bs (Some e) st = Ok st' \<and> store_ok h st' \<and> st_pool st' = st_pool st \<and>
    minted (store_graph st') = minted (store_graph st) \<and>
    (\<forall>x. is_held (store_graph st') x \<longrightarrow> graph_error (store_graph st') x = (if x = f then Some e else graph_error (store_graph st) x))"
proof -
  let ?g = "prune f (replace f e (store_graph st))"
  have "0 < tags ?g x" if "is_held ?g x" for x
    using that assms(2) by (cases "x = f") (auto simp: prune_fields replace_fields)
  moreover have "tallied h (st_pool st) ?g"
    by (rule tallied_graph [OF assms(1)]) (simp_all add: prune_fields replace_fields)
  moreover have "exit_write ops h (Some f) bs (Some e) st = Ok (give_back (with_graph (st_pool st, ?g) st))"
    by (simp add: exit_write_def with_graph_def)
  ultimately show ?thesis by (auto simp: store_ok_def prune_fields replace_fields)
qed

lemma propagate_spec:
  assumes "store_ok h st" "\<forall>b \<in> set bs. reaches h (st_pool st) b" "is_held (store_graph st) (rf_failure found)"
  shows "\<exists>st'. propagate ops h found k bs st = Ok st' \<and> store_ok h st' \<and> same_shape h (st_pool st) (st_pool st') \<and>
    minted (store_graph st') = minted (store_graph st) \<and> is_held (store_graph st') (rf_failure found) \<and>
    (\<forall>x. is_held (store_graph st') x \<longrightarrow> graph_error (store_graph st') x = graph_error (store_graph st) x) \<and>
    (\<forall>k i x. resolves h (st_pool st) k i \<longrightarrow> byte_claim (st_pool st') k i x =
       (if names (st_pool st) bs k i x then Some (rf_failure found) else byte_claim (st_pool st) k i x))"
proof -
  let ?g = "record_skipped (rf_failure found) \<lparr>kernel = k, needed = rf_needed found, produced = map bb_memory bs\<rparr> (store_graph st)"
  have "tallied h (st_pool st) ?g"
    by (rule tallied_graph [of h _ "store_graph st"]) (use assms(1) in \<open>simp_all add: store_ok_def record_skipped_fields\<close>)
  moreover have "is_held ?g (rf_failure found)" using assms(3) by (simp add: record_skipped_fields)
  ultimately obtain p' g' where
    t: "taint_with ops h (rf_failure found) bs (st_pool st) ?g = Ok (p', g')" "tallied h p' g'" "same_shape h (st_pool st) p'"
    "errors_kept ?g g'" "is_held g' (rf_failure found)"
    "\<forall>k i x. resolves h (st_pool st) k i \<longrightarrow> byte_claim p' k i x = (if names (st_pool st) bs k i x then Some (rf_failure found) else byte_claim (st_pool st) k i x)"
    using taint_with_spec [OF _ assms(2)] by blast
  have "0 < tags g' x" if "is_held g' x" for x
  proof -
    from errors_kept_held [OF t(4) that] assms(1) have "0 < tags ?g x" by (simp add: record_skipped_fields store_ok_def)
    with t(4) that show ?thesis by (cases "tags g' x") (auto simp: errors_kept_def)
  qed
  then have "store_ok h (give_back (with_graph (p', g') st))" using t(2) by (simp add: store_ok_def)
  moreover have "propagate ops h found k bs st = Ok (give_back (with_graph (p', g') st))"
    using t(1) by (simp add: propagate_def)
  moreover have "minted g' = minted (store_graph st) \<and> (\<forall>x. is_held g' x \<longrightarrow> graph_error g' x = graph_error (store_graph st) x)"
    using t(4) by (simp add: errors_kept_def record_skipped_fields)
  ultimately show ?thesis using t(3,5,6) by (intro exI [of _ "give_back (with_graph (p', g') st)"]) simp
qed

end

end
