(* ===== verification/Storage.thy ===== *)
theory Storage
  imports Prelude
begin

text \<open>
  Storage handles and the \<open>ComputeStorage\<close> interface (\<open>cubecl-runtime/src/storage/base.rs\<close>), the
  I/O errors (\<open>cubecl-runtime/src/server/base.rs\<close>), and the host storage \<open>BytesStorage\<close>
  (\<open>cubecl-server/src/storage/bytes_cpu.rs\<close>).

  \<^item> A storage handle is an id with an offset and a size. Arithmetic that would underflow panics.
  \<^item> A \<open>ComputeStorage\<close> is a record of operations on a state; the pools take it as a parameter, as
    the sources take a type parameter. The laws the pools rely on are the locale
    \<open>compute_storage\<close>, interpreted on \<open>BytesStorage\<close>.
  \<^item> \<open>StorageId::new\<close> draws from one process-wide counter, kept in the storage state (\<open>so_mint\<close>).
  \<^item> In \<open>BytesStorage\<close> a buffer is its bytes. Whether the host allocator grants a request is a
    parameter, a list of future answers: \<open>alloc_zeroed\<close> may return null at any time.
\<close>

type_synonym storage_id = nat

record storage_handle =
  sh_id :: storage_id
  sh_offset :: nat
  sh_size :: nat

datatype not_found =
    SliceMissing nat
  | PageMissing nat
  | PoolMissing nat
  | NeverInitialized
  | DifferentAllocation

datatype io_error =
    BufferTooBig nat
  | OutOfMemory nat
  | PageUpdateForbidden nat
  | PageSizesExhausted nat
  | UnsupportedStrides
  | NotFound not_found
  | StorageHandleNotFound storage_id
  | StorageMappingFailed nat io_error
  | UnknownError string
  | UnsupportedIoOperation

type_synonym 'a io = "(io_error, 'a) outcome"

definition may_succeed_after_reclaim :: "io_error \<Rightarrow> bool" where
  "may_succeed_after_reclaim e =
    (case e of BufferTooBig _ \<Rightarrow> False | PageUpdateForbidden _ \<Rightarrow> False | _ \<Rightarrow> True)"

definition offset_start :: "storage_handle \<Rightarrow> nat \<Rightarrow> storage_handle io" where
  "offset_start s n =
    (case checked_sub (sh_size s) n of
       None \<Rightarrow> Panic
     | Some left \<Rightarrow> Ok (s\<lparr>sh_offset := sh_offset s + n, sh_size := left\<rparr>))"

definition offset_end :: "storage_handle \<Rightarrow> nat \<Rightarrow> storage_handle io" where
  "offset_end s n =
    (case checked_sub (sh_size s) n of
       None \<Rightarrow> Panic
     | Some left \<Rightarrow> Ok (s\<lparr>sh_size := left\<rparr>))"

section \<open>The storage interface\<close>

record 'st storage_ops =
  so_alloc :: "nat \<Rightarrow> 'st \<Rightarrow> storage_handle io \<times> 'st"
  so_dealloc :: "storage_id \<Rightarrow> 'st \<Rightarrow> 'st"
  so_flush :: "'st \<Rightarrow> 'st"
  so_bytes_allocated :: "'st \<Rightarrow> nat"
  so_mint :: "'st \<Rightarrow> storage_id \<times> 'st"

datatype page_mapping = Eager | Lazy

text \<open>\<open>PageMapping::current\<close>: lazy under a dry run.\<close>

definition mapping_current :: "bool \<Rightarrow> page_mapping" where
  "mapping_current dry_run = (if dry_run then Lazy else Eager)"

text \<open>\<open>PageMapping::storage_handle\<close>.\<close>

definition mapped_handle ::
  "'st storage_ops \<Rightarrow> page_mapping \<Rightarrow> nat \<Rightarrow> 'st \<Rightarrow> storage_handle io \<times> 'st" where
  "mapped_handle ops m n st =
    (case m of
       Eager \<Rightarrow> so_alloc ops n st
     | Lazy \<Rightarrow> (case so_mint ops st of
         (i, st') \<Rightarrow> (Ok \<lparr>sh_id = i, sh_offset = 0, sh_size = n\<rparr>, st')))"

text \<open>
  What the pools rely on: \<open>ids\<close> are the ids handed out so far and \<open>held\<close> the sizes of the
  allocations still held, by id. A fresh handle starts at offset zero with the requested size
  and an id never handed out before; an error allocates nothing.
\<close>

locale compute_storage =
  fixes ops :: "'st storage_ops"
    and ids :: "'st \<Rightarrow> storage_id set"
    and held :: "'st \<Rightarrow> storage_id \<rightharpoonup> nat"
    and sane :: "'st \<Rightarrow> bool"
  assumes alloc_sane: "sane st \<Longrightarrow> so_alloc ops n st = (r, st') \<Longrightarrow> r \<noteq> Panic \<Longrightarrow> sane st'"
    and dealloc_sane: "sane st \<Longrightarrow> sane (so_dealloc ops i st)"
    and mint_sane: "sane st \<Longrightarrow> sane (snd (so_mint ops st))"
    and alloc_fresh: "sane st \<Longrightarrow> so_alloc ops n st = (Ok s, st') \<Longrightarrow>
      sh_offset s = 0 \<and> sh_size s = n \<and> sh_id s \<notin> ids st \<and> ids st' = insert (sh_id s) (ids st)
      \<and> held st' = (held st)(sh_id s \<mapsto> n)"
    and alloc_err: "sane st \<Longrightarrow> so_alloc ops n st = (Err e, st') \<Longrightarrow> held st' = held st \<and> ids st \<subseteq> ids st'"
    and mint_fresh: "sane st \<Longrightarrow> so_mint ops st = (i, st') \<Longrightarrow>
      i \<notin> ids st \<and> ids st' = insert i (ids st) \<and> held st' = held st"
    and dealloc_held: "sane st \<Longrightarrow> held (so_dealloc ops i st) = (held st)(i := None)"
    and dealloc_ids: "sane st \<Longrightarrow> ids (so_dealloc ops i st) = ids st"
    and held_ids: "sane st \<Longrightarrow> dom (held st) \<subseteq> ids st"
    and flush_keeps: "sane st \<Longrightarrow> sane (so_flush ops st) \<and> held (so_flush ops st) = held st \<and> ids (so_flush ops st) = ids st"
begin

lemma mapped_handle_fresh:
  assumes "sane st" "mapped_handle ops m n st = (Ok s, st')"
  shows "sh_offset s = 0 \<and> sh_size s = n \<and> sh_id s \<notin> ids st \<and> sane st'
    \<and> held st' = (if m = Eager then (held st)(sh_id s \<mapsto> n) else held st)"
proof (cases m)
  case Eager
  with assms alloc_fresh [of st n s st'] alloc_sane [of st n "Ok s" st'] show ?thesis
    by (simp add: mapped_handle_def)
next
  case Lazy
  with assms show ?thesis
    using mint_fresh [of st "fst (so_mint ops st)" "snd (so_mint ops st)"] mint_sane [of st]
    by (auto simp: mapped_handle_def split: prod.splits)
qed

lemma alloc_never_reuses:
  assumes "sane st" "so_alloc ops n st = (Ok s, st')" "held st i = Some k"
  shows "i \<noteq> sh_id s \<and> held st' i = Some k"
  using assms alloc_fresh [OF assms(1,2)] held_ids [OF assms(1)] by auto

end

section \<open>The host storage\<close>

text \<open>The bytes of each buffer by id, the running total, the id counter and the answers the host
  allocator will give.\<close>

record bytes_storage =
  bs_memory :: "storage_id \<rightharpoonup> 8 word list"
  bs_allocated :: nat
  bs_counter :: nat
  bs_grants :: "bool list"

definition bs_alignment :: nat where
  "bs_alignment = 64"

text \<open>\<open>Layout::from_size_align\<close> fails when the size rounded up to the alignment passes
  \<open>isize::MAX\<close>; the source unwraps it.\<close>

definition layout_fits :: "nat \<Rightarrow> bool" where
  "layout_fits n \<longleftrightarrow> n \<le> 2 ^ 63 - bs_alignment"

definition next_grant :: "bytes_storage \<Rightarrow> bool \<times> bytes_storage" where
  "next_grant st =
    (case bs_grants st of [] \<Rightarrow> (True, st) | g # gs \<Rightarrow> (g, st\<lparr>bs_grants := gs\<rparr>))"

definition bs_mint :: "bytes_storage \<Rightarrow> storage_id \<times> bytes_storage" where
  "bs_mint st = (bs_counter st, st\<lparr>bs_counter := Suc (bs_counter st)\<rparr>)"

definition bs_insert :: "storage_id \<Rightarrow> 8 word list \<Rightarrow> bytes_storage \<Rightarrow> bytes_storage" where
  "bs_insert i b st = st\<lparr>bs_memory := (bs_memory st)(i \<mapsto> b)\<rparr>"

definition bs_alloc :: "nat \<Rightarrow> bytes_storage \<Rightarrow> storage_handle io \<times> bytes_storage" where
  "bs_alloc n st =
    (let (i, st) = bs_mint st;
         st = st\<lparr>bs_allocated := bs_allocated st + n\<rparr>;
         handle = \<lparr>sh_id = i, sh_offset = 0, sh_size = n\<rparr> in
     if n = 0 then (Ok handle, bs_insert i [] st)
     else if \<not> layout_fits n then (Panic, st)
     else
       let (granted, st) = next_grant st in
       if \<not> granted then (Err (BufferTooBig n), st\<lparr>bs_allocated := bs_allocated st - n\<rparr>)
       else (Ok handle, bs_insert i (replicate n 0) st))"

definition bs_dealloc :: "storage_id \<Rightarrow> bytes_storage \<Rightarrow> bytes_storage" where
  "bs_dealloc i st =
    (case bs_memory st i of
       None \<Rightarrow> st
     | Some b \<Rightarrow> st\<lparr>bs_memory := (bs_memory st)(i := None), bs_allocated := bs_allocated st - length b\<rparr>)"

definition bs_flush :: "bytes_storage \<Rightarrow> bytes_storage" where
  "bs_flush st = st"

definition bs_bytes_allocated :: "bytes_storage \<Rightarrow> nat" where
  "bs_bytes_allocated st = bs_allocated st"

text \<open>\<open>get\<close>: the resource is the buffer and the part of it the handle names.\<close>

definition bs_get :: "storage_handle \<Rightarrow> bytes_storage \<Rightarrow> storage_handle io" where
  "bs_get s st =
    (case bs_memory st (sh_id s) of None \<Rightarrow> Err (StorageHandleNotFound (sh_id s)) | Some b \<Rightarrow> Ok s)"

definition bs_read :: "storage_handle \<Rightarrow> bytes_storage \<Rightarrow> 8 word list" where
  "bs_read s st =
    (case bs_memory st (sh_id s) of None \<Rightarrow> [] | Some b \<Rightarrow> take (sh_size s) (drop (sh_offset s) b))"

text \<open>Writing through a resource; the written bytes are as many as the resource has.\<close>

definition bs_write :: "storage_handle \<Rightarrow> 8 word list \<Rightarrow> bytes_storage \<Rightarrow> bytes_storage" where
  "bs_write s d st =
    (case bs_memory st (sh_id s) of
       None \<Rightarrow> st
     | Some b \<Rightarrow> bs_insert (sh_id s) (take (sh_offset s) b @ d @ drop (sh_offset s + length d) b) st)"

definition bytes_ops :: "bytes_storage storage_ops" where
  "bytes_ops = \<lparr>so_alloc = bs_alloc, so_dealloc = bs_dealloc, so_flush = bs_flush,
     so_bytes_allocated = bs_bytes_allocated, so_mint = bs_mint\<rparr>"

definition bytes_storage_default :: bytes_storage where
  "bytes_storage_default = \<lparr>bs_memory = Map.empty, bs_allocated = 0, bs_counter = 0, bs_grants = []\<rparr>"

section \<open>The host storage keeps the contract\<close>

definition bs_ids :: "bytes_storage \<Rightarrow> storage_id set" where
  "bs_ids st = {..<bs_counter st}"

definition bs_held :: "bytes_storage \<Rightarrow> storage_id \<rightharpoonup> nat" where
  "bs_held st i = map_option length (bs_memory st i)"

definition bs_sane :: "bytes_storage \<Rightarrow> bool" where
  "bs_sane st \<longleftrightarrow> finite (dom (bs_memory st)) \<and> dom (bs_memory st) \<subseteq> {..<bs_counter st}
    \<and> bs_allocated st = (\<Sum>i \<in> dom (bs_memory st). length (the (bs_memory st i)))"

lemma bs_sane_bump:
  assumes "bs_sane st" "bs_memory st' = bs_memory st" "bs_allocated st' = bs_allocated st"
    "bs_counter st \<le> bs_counter st'"
  shows "bs_sane st'"
  using assms unfolding bs_sane_def by (auto dest: subsetD)

lemma bs_sane_add:
  assumes "bs_sane st" "bs_memory st' = (bs_memory st)(bs_counter st \<mapsto> b)"
    "bs_allocated st' = bs_allocated st + length b" "bs_counter st' = Suc (bs_counter st)"
  shows "bs_sane st'"
proof -
  have fresh: "bs_counter st \<notin> dom (bs_memory st)" and fin: "finite (dom (bs_memory st))"
    using assms(1) by (auto simp: bs_sane_def)
  have "(\<Sum>j \<in> dom (bs_memory st'). length (the (bs_memory st' j)))
      = length b + (\<Sum>j \<in> dom (bs_memory st). length (the (bs_memory st' j)))"
    using fresh fin by (simp add: assms(2))
  also have "(\<Sum>j \<in> dom (bs_memory st). length (the (bs_memory st' j)))
      = (\<Sum>j \<in> dom (bs_memory st). length (the (bs_memory st j)))"
    using fresh assms(2) by (intro sum.cong) auto
  finally have "bs_allocated st' = (\<Sum>j \<in> dom (bs_memory st'). length (the (bs_memory st' j)))"
    using assms(1,3) by (simp add: bs_sane_def)
  moreover have "finite (dom (bs_memory st')) \<and> dom (bs_memory st') \<subseteq> {..<bs_counter st'}"
    using assms fin unfolding bs_sane_def by (auto simp: less_Suc_eq dest: subsetD)
  ultimately show ?thesis unfolding bs_sane_def by blast
qed

lemma bs_sane_dealloc:
  assumes "bs_sane st"
  shows "bs_sane (bs_dealloc i st)"
proof (cases "bs_memory st i")
  case None
  with assms show ?thesis by (simp add: bs_dealloc_def)
next
  case (Some b)
  let ?D = "dom (bs_memory st)"
  have "(\<Sum>j \<in> ?D. length (the (bs_memory st j)))
      = length b + (\<Sum>j \<in> ?D - {i}. length (the (bs_memory st j)))"
    using assms Some by (subst sum.remove [of _ i]) (auto simp: bs_sane_def)
  moreover have "(\<Sum>j \<in> ?D - {i}. length (the (((bs_memory st)(i := None)) j)))
      = (\<Sum>j \<in> ?D - {i}. length (the (bs_memory st j)))"
    by (intro sum.cong) auto
  ultimately show ?thesis
    using assms Some by (auto simp: bs_sane_def bs_dealloc_def)
qed

lemma next_grant_keeps:
  "next_grant st = (g, st') \<Longrightarrow> bs_memory st' = bs_memory st \<and> bs_allocated st' = bs_allocated st
    \<and> bs_counter st' = bs_counter st"
  by (auto simp: next_grant_def split: list.splits)

text \<open>The three outcomes of an allocation.\<close>

lemma bs_alloc_cases:
  assumes "bs_alloc n st = (r, st')"
  shows "(\<exists>b. r = Ok \<lparr>sh_id = bs_counter st, sh_offset = 0, sh_size = n\<rparr> \<and> length b = n
      \<and> bs_memory st' = (bs_memory st)(bs_counter st \<mapsto> b) \<and> b = replicate n 0
      \<and> bs_allocated st' = bs_allocated st + n \<and> bs_counter st' = Suc (bs_counter st))
    \<or> r = Err (BufferTooBig n) \<and> bs_memory st' = bs_memory st
      \<and> bs_allocated st' = bs_allocated st \<and> bs_counter st' = Suc (bs_counter st)
    \<or> r = Panic"
  using assms
  by (auto simp: bs_alloc_def bs_mint_def bs_insert_def Let_def dest!: next_grant_keeps
      split: prod.splits if_splits)

interpretation host: compute_storage bytes_ops bs_ids bs_held bs_sane
proof
  fix st n r st' assume *: "bs_sane st" "so_alloc bytes_ops n st = (r, st')" "r \<noteq> Panic"
  then have cases: "bs_alloc n st = (r, st')" by (simp add: bytes_ops_def)
  from bs_alloc_cases [OF cases] *(3) show "bs_sane st'"
    by (auto intro: bs_sane_add [OF *(1)] bs_sane_bump [OF *(1)])
next
  fix st i assume "bs_sane st"
  then show "bs_sane (so_dealloc bytes_ops i st)" by (simp add: bytes_ops_def bs_sane_dealloc)
next
  fix st assume "bs_sane st"
  then show "bs_sane (snd (so_mint bytes_ops st))"
    by (rule bs_sane_bump) (simp_all add: bytes_ops_def bs_mint_def)
next
  fix st n s st' assume "bs_sane st" "so_alloc bytes_ops n st = (Ok s, st')"
  with bs_alloc_cases [of n st "Ok s" st'] show
    "sh_offset s = 0 \<and> sh_size s = n \<and> sh_id s \<notin> bs_ids st \<and> bs_ids st' = insert (sh_id s) (bs_ids st)
      \<and> bs_held st' = (bs_held st)(sh_id s \<mapsto> n)"
    by (auto simp: bytes_ops_def bs_ids_def bs_held_def fun_eq_iff lessThan_Suc)
next
  fix st n e st' assume "bs_sane st" "so_alloc bytes_ops n st = (Err e, st')"
  with bs_alloc_cases [of n st "Err e" st'] show "bs_held st' = bs_held st \<and> bs_ids st \<subseteq> bs_ids st'"
    by (auto simp: bytes_ops_def bs_ids_def bs_held_def fun_eq_iff)
next
  fix st assume "bs_sane st"
  moreover have "dom (bs_held st) = dom (bs_memory st)" by (auto simp: bs_held_def)
  ultimately show "dom (bs_held st) \<subseteq> bs_ids st" by (simp add: bs_ids_def bs_sane_def)
qed (auto simp: bytes_ops_def bs_flush_def bs_mint_def bs_ids_def bs_held_def fun_eq_iff bs_dealloc_def
    split: option.splits)

section \<open>Runs of the host storage\<close>

text \<open>A write stays inside the buffer: the region of a resource is within its allocation.\<close>

definition in_buffer :: "storage_handle \<Rightarrow> bytes_storage \<Rightarrow> bool" where
  "in_buffer s st \<longleftrightarrow> (\<exists>b. bs_memory st (sh_id s) = Some b \<and> sh_offset s + sh_size s \<le> length b)"

inductive host_run :: "bytes_storage \<Rightarrow> bool" where
  init: "host_run (bytes_storage_default\<lparr>bs_grants := gs\<rparr>)"
| alloc: "host_run st \<Longrightarrow> bs_alloc n st = (r, st') \<Longrightarrow> r \<noteq> Panic \<Longrightarrow> host_run st'"
| dealloc: "host_run st \<Longrightarrow> host_run (bs_dealloc i st)"
| mint: "host_run st \<Longrightarrow> host_run (snd (bs_mint st))"
| host_write: "host_run st \<Longrightarrow> in_buffer s st \<Longrightarrow> length d = sh_size s \<Longrightarrow> host_run (bs_write s d st)"

lemma bs_write_sane:
  assumes "bs_sane st" "in_buffer s st" "length d = sh_size s"
  shows "bs_sane (bs_write s d st)"
proof -
  from assms(2) obtain b where b: "bs_memory st (sh_id s) = Some b" "sh_offset s + sh_size s \<le> length b"
    by (auto simp: in_buffer_def)
  let ?st = "bs_write s d st"
  have mem: "bs_memory ?st = (bs_memory st)(sh_id s \<mapsto> take (sh_offset s) b @ d @ drop (sh_offset s + length d) b)"
    and rest: "bs_allocated ?st = bs_allocated st" "bs_counter ?st = bs_counter st"
    using b by (simp_all add: bs_write_def bs_insert_def)
  have dom: "dom (bs_memory ?st) = dom (bs_memory st)" using b by (auto simp: mem)
  have "length (the (bs_memory ?st i)) = length (the (bs_memory st i))" for i
    using b assms(3) by (auto simp: mem min_def)
  with assms(1) dom rest show ?thesis by (simp add: bs_sane_def)
qed

lemma host_run_sane: "host_run st \<Longrightarrow> bs_sane st"
proof (induction rule: host_run.induct)
  case (init gs)
  then show ?case by (simp add: bs_sane_def bytes_storage_default_def)
next
  case (alloc st n r st')
  then show ?case using host.alloc_sane [of st n r st'] by (simp add: bytes_ops_def)
next
  case (dealloc st i)
  then show ?case by (simp add: bs_sane_dealloc)
next
  case (mint st)
  then show ?case using host.mint_sane [of st] by (simp add: bytes_ops_def)
qed (simp add: bs_write_sane)

text \<open>The host storage accounts for every byte: in every run of allocations (granted or
  refused), deallocations, minted ids and in-bounds writes, \<open>bytes_allocated\<close> is the sum of the
  buffers held, and an allocation gives an id that was never handed out, with zeroed memory of
  the requested size.\<close>

theorem host_storage_accounts:
  assumes "host_run st"
  shows "bs_bytes_allocated st = (\<Sum>i \<in> dom (bs_memory st). length (the (bs_memory st i)))
    \<and> (\<forall>n s st'. bs_alloc n st = (Ok s, st') \<longrightarrow>
        sh_id s \<notin> bs_ids st \<and> bs_memory st (sh_id s) = None \<and> bs_read s st' = replicate n 0)"
proof
  show "bs_bytes_allocated st = (\<Sum>i \<in> dom (bs_memory st). length (the (bs_memory st i)))"
    using host_run_sane [OF assms] by (simp add: bs_sane_def bs_bytes_allocated_def)
  show "\<forall>n s st'. bs_alloc n st = (Ok s, st') \<longrightarrow>
        sh_id s \<notin> bs_ids st \<and> bs_memory st (sh_id s) = None \<and> bs_read s st' = replicate n 0"
  proof (intro allI impI)
    fix n s st' assume a: "bs_alloc n st = (Ok s, st')"
    from host.alloc_fresh [OF host_run_sane [OF assms], of n s st'] a
    have "sh_id s \<notin> bs_ids st" by (simp add: bytes_ops_def)
    moreover from this host_run_sane [OF assms] have "bs_memory st (sh_id s) = None"
      by (auto simp: bs_sane_def bs_ids_def dest: subsetD)
    moreover from bs_alloc_cases [OF a] have "bs_read s st' = replicate n 0"
      by (auto simp: bs_read_def)
    ultimately show "sh_id s \<notin> bs_ids st \<and> bs_memory st (sh_id s) = None \<and> bs_read s st' = replicate n 0"
      by blast
  qed
qed

theorem host_storage_accounts_witness:
  "bs_bytes_allocated (snd (bs_alloc 3 (snd (bs_alloc 5 (bytes_storage_default\<lparr>bs_grants := [True, False]\<rparr>))))) = 5
   \<and> bs_read \<lparr>sh_id = 0, sh_offset = 0, sh_size = 5\<rparr> (snd (bs_alloc 5 (bytes_storage_default\<lparr>bs_grants := [True, False]\<rparr>)))
     = replicate 5 0"
proof -
  let ?s0 = "bytes_storage_default\<lparr>bs_grants := [True, False]\<rparr>"
  note defs = bs_alloc_def bs_mint_def next_grant_def bs_insert_def layout_fits_def bs_alignment_def
    bytes_storage_default_def
  have run0: "host_run ?s0" by (rule host_run.init)
  have a1: "bs_alloc 5 ?s0 = (Ok \<lparr>sh_id = 0, sh_offset = 0, sh_size = 5\<rparr>, snd (bs_alloc 5 ?s0))"
    by (simp add: defs)
  from host_run.alloc [OF run0 a1] have run1: "host_run (snd (bs_alloc 5 ?s0))" by simp
  have a2: "bs_alloc 3 (snd (bs_alloc 5 ?s0)) = (Err (BufferTooBig 3), snd (bs_alloc 3 (snd (bs_alloc 5 ?s0))))"
    by (simp add: defs)
  from host_run.alloc [OF run1 a2] have run2: "host_run (snd (bs_alloc 3 (snd (bs_alloc 5 ?s0))))" by simp
  from host_storage_accounts [OF run0] a1
  have "bs_read \<lparr>sh_id = 0, sh_offset = 0, sh_size = 5\<rparr> (snd (bs_alloc 5 ?s0)) = replicate 5 0" by blast
  moreover from host_storage_accounts [OF run2]
  have "bs_bytes_allocated (snd (bs_alloc 3 (snd (bs_alloc 5 ?s0)))) = 5" by (simp add: defs)
  ultimately show ?thesis by blast
qed

end
