(* ===== verification/Memory_Page.thy ===== *)
theory Memory_Page
  imports Storage Taint Memory_Handle
begin

text \<open>
  Slices (\<open>memory_pool/base.rs\<close>) and the memory page that carves them out of one storage buffer
  (\<open>memory_pool/memory_page.rs\<close>).

  A page is a record of its storage handle, its slices in address order, its alignment, the base
  location its slices carry and the number of guards out on it. \<open>slices_tmp\<close> of the source is a
  scratch vector, empty at the start of every operation that uses it, and is a local of the
  model. Handles live in the descriptor heap of \<open>Memory_Handle\<close>: a slice that goes out of scope
  drops its handle there, and every relocation of a slice inside the page rewrites the location
  word of its descriptor.
\<close>

section \<open>Slices\<close>

record slice =
  sl_storage :: storage_handle
  sl_handle :: handle
  sl_padding :: nat
  sl_cursor :: nat
  sl_mapped :: bool
  sl_tainted :: taint

definition slice_new :: "storage_handle \<Rightarrow> nat \<Rightarrow> heap \<Rightarrow> slice \<times> heap" where
  "slice_new st pad h =
    (case handle_new h of (i, h') \<Rightarrow>
      (\<lparr>sl_storage = st, sl_handle = i, sl_padding = pad, sl_cursor = 0, sl_mapped = True,
        sl_tainted = []\<rparr>, h'))"

definition slice_bind :: "handle \<Rightarrow> slice \<Rightarrow> heap \<Rightarrow> error_graph \<Rightarrow> slice \<times> heap \<times> error_graph" where
  "slice_bind i s h g =
    (case clear (sl_tainted s) g of (t, g') \<Rightarrow>
      (s\<lparr>sl_tainted := t, sl_handle := i\<rparr>, drop_handle (sl_handle s) h, g'))"

definition hand_over ::
  "slice \<Rightarrow> slice \<Rightarrow> heap \<Rightarrow> error_graph \<Rightarrow> (slice \<times> slice) \<times> heap \<times> error_graph" where
  "hand_over self target h g =
    (let (t, g) = clear (sl_tainted target) g;
         target_location = location h (sl_handle target);
         source_location = location h (sl_handle self);
         (freed, h) = handle_new h;
         h = update_location freed source_location h;
         allocation = sl_handle self;
         h = update_location allocation target_location h;
         h = drop_handle (sl_handle target) h
     in ((self\<lparr>sl_handle := freed, sl_tainted := []\<rparr>,
          target\<lparr>sl_handle := allocation, sl_cursor := sl_cursor self, sl_tainted := sl_tainted self\<rparr>),
         h, g))"

definition slice_is_free :: "heap \<Rightarrow> slice \<Rightarrow> bool" where
  "slice_is_free h s \<longleftrightarrow> is_free h (sl_handle s)"

definition effective_size :: "slice \<Rightarrow> nat" where
  "effective_size s = sh_size (sl_storage s) + sl_padding s"

definition slice_materialize :: "'st storage_ops \<Rightarrow> slice \<Rightarrow> 'st \<Rightarrow> slice io \<times> 'st" where
  "slice_materialize ops s st =
    (case so_alloc ops (effective_size s) st of
       (Ok real, st') \<Rightarrow>
         (Ok (s\<lparr>sl_storage := (sl_storage s)\<lparr>sh_id := sh_id real\<rparr>, sl_mapped := True\<rparr>), st')
     | (Err e, st') \<Rightarrow> (Err (StorageMappingFailed (effective_size s) e), st')
     | (Panic, st') \<Rightarrow> (Panic, st'))"

definition calculate_padding :: "nat \<Rightarrow> nat \<Rightarrow> nat" where
  "calculate_padding n alignment =
    (let remainder = n mod alignment in if remainder \<noteq> 0 then alignment - remainder else 0)"

section \<open>The page\<close>

record memory_page =
  pg_storage :: storage_handle
  pg_slices :: "slice list"
  pg_alignment :: nat
  pg_base :: memory_location
  pg_mapped :: bool
  pg_guards :: nat

definition page_new ::
  "storage_handle \<Rightarrow> nat \<Rightarrow> memory_location \<Rightarrow> page_mapping \<Rightarrow> heap \<Rightarrow> memory_page \<times> heap" where
  "page_new st alignment base mapping h =
    (let (s, h) = slice_new st 0 h;
         h = update_location (sl_handle s) (base\<lparr>loc_slice := 0\<rparr>) h
     in (\<lparr>pg_storage = st, pg_slices = [s], pg_alignment = alignment, pg_base = base,
          pg_mapped = (mapping = Eager), pg_guards = 0\<rparr>, h))"

definition page_guard :: "memory_page \<Rightarrow> memory_page" where
  "page_guard p = p\<lparr>pg_guards := Suc (pg_guards p)\<rparr>"

text \<open>A guard going out of scope.\<close>

definition guard_drop :: "memory_page \<Rightarrow> memory_page" where
  "guard_drop p = p\<lparr>pg_guards := pg_guards p - 1\<rparr>"

definition is_guarded :: "memory_page \<Rightarrow> bool" where
  "is_guarded p \<longleftrightarrow> 0 < pg_guards p"

definition page_size :: "memory_page \<Rightarrow> nat" where
  "page_size p = sh_size (pg_storage p)"

definition page_is_empty :: "heap \<Rightarrow> memory_page \<Rightarrow> bool" where
  "page_is_empty h p \<longleftrightarrow> list_all (slice_is_free h) (pg_slices p)"

definition live :: "heap \<Rightarrow> memory_page \<Rightarrow> slice list" where
  "live h p = filter (\<lambda>s. \<not> slice_is_free h s) (pg_slices p)"

definition rebind_storage :: "storage_id \<Rightarrow> memory_page \<Rightarrow> memory_page" where
  "rebind_storage i p =
    p\<lparr>pg_storage := (pg_storage p)\<lparr>sh_id := i\<rparr>,
      pg_slices := map (\<lambda>s. s\<lparr>sl_storage := (sl_storage s)\<lparr>sh_id := i\<rparr>\<rparr>) (pg_slices p),
      pg_mapped := True\<rparr>"

definition page_bind ::
  "handle \<Rightarrow> handle \<Rightarrow> nat \<Rightarrow> memory_page \<Rightarrow> heap \<Rightarrow> error_graph \<Rightarrow> (memory_page \<times> heap \<times> error_graph) io" where
  "page_bind reserved new cursor p h g =
    (let index = slice_index h reserved in
     if index < length (pg_slices p) then
       let h = update_location new (location h reserved) h;
           s = (pg_slices p ! index)\<lparr>sl_cursor := cursor\<rparr>;
           (s, h, g) = slice_bind new s h g
       in Ok (p\<lparr>pg_slices := (pg_slices p)[index := s]\<rparr>, drop_handle reserved h, g)
     else Panic)"

record memory_usage =
  number_allocs :: nat
  bytes_in_use :: nat
  bytes_padding :: nat
  bytes_reserved :: nat

definition usage_default :: memory_usage where
  "usage_default = \<lparr>number_allocs = 0, bytes_in_use = 0, bytes_padding = 0, bytes_reserved = 0\<rparr>"

definition combine :: "memory_usage \<Rightarrow> memory_usage \<Rightarrow> memory_usage" where
  "combine a b = \<lparr>number_allocs = number_allocs a + number_allocs b,
     bytes_in_use = bytes_in_use a + bytes_in_use b,
     bytes_padding = bytes_padding a + bytes_padding b,
     bytes_reserved = bytes_reserved a + bytes_reserved b\<rparr>"

definition usage_step :: "heap \<Rightarrow> slice \<Rightarrow> memory_usage \<Rightarrow> memory_usage" where
  "usage_step h s u =
    (let u = u\<lparr>bytes_reserved := bytes_reserved u + effective_size s\<rparr> in
     if slice_is_free h s then u
     else u\<lparr>number_allocs := number_allocs u + 1,
            bytes_in_use := bytes_in_use u + sh_size (sl_storage s),
            bytes_padding := bytes_padding u + sl_padding s\<rparr>)"

definition page_usage :: "heap \<Rightarrow> memory_page \<Rightarrow> memory_usage" where
  "page_usage h p = fold (usage_step h) (pg_slices p) usage_default"

record page_summary =
  blocks :: "(bool \<times> nat) list"
  amount_free :: nat
  amount_full :: nat
  amount_total :: nat
  num_free :: nat
  num_full :: nat
  num_total :: nat

definition summary_step :: "heap \<Rightarrow> bool \<Rightarrow> slice \<Rightarrow> page_summary \<Rightarrow> page_summary" where
  "summary_step h memory_blocks s u =
    (let u = (if slice_is_free h s
              then u\<lparr>amount_free := amount_free u + effective_size s, num_free := num_free u + 1\<rparr>
              else u\<lparr>amount_full := amount_full u + effective_size s, num_full := num_full u + 1\<rparr>)
     in if memory_blocks then u\<lparr>blocks := blocks u @ [(slice_is_free h s, effective_size s)]\<rparr> else u)"

definition summary :: "heap \<Rightarrow> bool \<Rightarrow> memory_page \<Rightarrow> page_summary" where
  "summary h memory_blocks p =
    (fold (summary_step h memory_blocks) (pg_slices p)
       \<lparr>blocks = [], amount_free = 0, amount_full = 0, amount_total = 0, num_free = 0, num_full = 0,
        num_total = 0\<rparr>)
    \<lparr>amount_total := page_size p, num_total := length (pg_slices p)\<rparr>"

text \<open>\<open>add_new_slice\<close>: the loop over the drained slices, with the new vector so far.\<close>

fun add_loop ::
  "memory_location \<Rightarrow> nat \<Rightarrow> nat \<Rightarrow> slice list \<Rightarrow> nat \<Rightarrow> slice option \<Rightarrow> slice list \<Rightarrow> heap
    \<Rightarrow> (slice list \<times> heap) io" where
  "add_loop base prev sz [] index new tmp h = Ok (tmp, h)"
| "add_loop base prev sz (s # ss) index new tmp h =
    (if index = prev then
       let s = s\<lparr>sl_storage := (sl_storage s)\<lparr>sh_size := sz\<rparr>\<rparr>;
           h = update_slice (sl_handle s) (of_nat (length tmp)) h;
           tmp = tmp @ [s] in
       (case new of
          None \<Rightarrow> Panic
        | Some n \<Rightarrow>
            let h = update_location (sl_handle n) (base\<lparr>loc_slice := of_nat (length tmp)\<rparr>) h in
            add_loop base prev sz ss (index + 2) None (tmp @ [n]) h)
     else
       let h = update_slice (sl_handle s) (of_nat (length tmp)) h in
       add_loop base prev sz ss (index + 1) new (tmp @ [s]) h)"

definition add_new_slice ::
  "nat \<Rightarrow> nat \<Rightarrow> slice \<Rightarrow> memory_page \<Rightarrow> heap \<Rightarrow> (memory_page \<times> heap) io" where
  "add_new_slice prev sz new p h =
    try_then (add_loop (pg_base p) prev sz (pg_slices p) 0 (Some new) [] h)
      (\<lambda>(ss, h). Ok (p\<lparr>pg_slices := ss\<rparr>, h))"

definition can_use_slice :: "heap \<Rightarrow> nat \<Rightarrow> slice \<Rightarrow> bool" where
  "can_use_slice h effective s \<longleftrightarrow> effective \<le> sh_size (sl_storage s) \<and> slice_is_free h s"

definition page_try_reserve :: "nat \<Rightarrow> memory_page \<Rightarrow> heap \<Rightarrow> (handle option \<times> memory_page \<times> heap) io" where
  "page_try_reserve sz p h =
    (let padding = calculate_padding sz (pg_alignment p);
         effective = sz + padding in
     case position (can_use_slice h effective) (pg_slices p) of
       None \<Rightarrow> Ok (None, p, h)
     | Some index \<Rightarrow>
         let s = pg_slices p ! index;
             can_be_split = effective < sh_size (sl_storage s);
             h = clone_handle (sl_handle s) h;
             storage_old = sl_storage s;
             s' = s\<lparr>sl_storage := (sl_storage s)\<lparr>sh_size := sz\<rparr>, sl_padding := padding\<rparr>;
             p = p\<lparr>pg_slices := (pg_slices p)[index := s']\<rparr> in
         if can_be_split then
           try_then (offset_start storage_old effective) (\<lambda>st.
             let (new, h) = slice_new st 0 h in
             try_then (add_new_slice index sz new p h) (\<lambda>(p, h). Ok (Some (sl_handle s), p, h)))
         else Ok (Some (sl_handle s), p, h))"

definition page_find :: "handle \<Rightarrow> memory_page \<Rightarrow> heap \<Rightarrow> slice io" where
  "page_find i p h =
    (let index = slice_index h i in
     if index < length (pg_slices p) then Ok (pg_slices p ! index)
     else Err (NotFound (SliceMissing index)))"

fun shed_slices :: "slice list \<Rightarrow> error_graph \<Rightarrow> slice list \<times> error_graph" where
  "shed_slices [] g = ([], g)"
| "shed_slices (s # ss) g =
    (let (t, g) = clear (sl_tainted s) g;
         (ss, g) = shed_slices ss g in (s\<lparr>sl_tainted := t\<rparr> # ss, g))"

definition shed :: "memory_page \<Rightarrow> error_graph \<Rightarrow> memory_page \<times> error_graph" where
  "shed p g = (case shed_slices (pg_slices p) g of (ss, g) \<Rightarrow> (p\<lparr>pg_slices := ss\<rparr>, g))"

definition page_update_page :: "16 word \<Rightarrow> memory_page \<Rightarrow> heap \<Rightarrow> memory_page \<times> heap" where
  "page_update_page n p h =
    (p\<lparr>pg_base := (pg_base p)\<lparr>loc_page := n\<rparr>\<rparr>,
     fold (\<lambda>s. update_page (sl_handle s) n) (pg_slices p) h)"

section \<open>Coalescing\<close>

record memory_task =
  start_index :: nat
  count :: nat
  cursor :: nat
  task_size :: nat

definition task_default :: memory_task where
  "task_default = \<lparr>start_index = 0, count = 0, cursor = 0, task_size = 0\<rparr>"

datatype task_status = Merging | StartMerging | Ignoring | Completed

definition tag_coalesce :: "nat \<Rightarrow> memory_task \<Rightarrow> memory_task" where
  "tag_coalesce index t =
    (let t = (if count t = 0 then t\<lparr>start_index := index\<rparr> else t) in t\<lparr>count := count t + 1\<rparr>)"

definition on_coalesce :: "nat \<Rightarrow> memory_task \<Rightarrow> task_status \<times> memory_task" where
  "on_coalesce index t =
    (if start_index t + cursor t = index then
       let t = t\<lparr>cursor := cursor t + 1\<rparr> in
       (if cursor t = 1 then StartMerging
        else if cursor t = count t then Completed else Merging, t)
     else (Ignoring, t))"

text \<open>\<open>MemoryJob::add\<close>: a task of one slice is dropped; the task handed back is a fresh one.\<close>

definition job_add :: "memory_task list \<Rightarrow> memory_task \<Rightarrow> memory_task list \<times> memory_task" where
  "job_add tasks t = (if count t < 2 then (tasks, task_default) else (tasks @ [t], task_default))"

fun job_loop ::
  "heap \<Rightarrow> slice list \<Rightarrow> nat \<Rightarrow> memory_task list \<Rightarrow> memory_task \<Rightarrow> memory_task list" where
  "job_loop h [] index tasks t = fst (job_add tasks t)"
| "job_loop h (s # ss) index tasks t =
    (if slice_is_free h s then
       job_loop h ss (Suc index) tasks
         (tag_coalesce index (t\<lparr>task_size := task_size t + effective_size s\<rparr>))
     else
       let (tasks, t) = job_add tasks t in job_loop h ss (Suc index) tasks t)"

definition memory_job :: "heap \<Rightarrow> memory_page \<Rightarrow> memory_task list" where
  "memory_job h p = job_loop h (pg_slices p) 0 [] task_default"

record coalesce_state =
  cs_task :: "memory_task option"
  cs_tasks :: "memory_task list"
  cs_offset :: nat
  cs_size :: nat
  cs_tmp :: "slice list"
  cs_heap :: heap
  cs_graph :: error_graph

text \<open>A merged slice goes out of scope: its claims are released and its handle is dropped.\<close>

definition absorb :: "slice \<Rightarrow> coalesce_state \<Rightarrow> coalesce_state" where
  "absorb s cs =
    cs\<lparr>cs_graph := snd (clear (sl_tainted s) (cs_graph cs)),
       cs_heap := drop_handle (sl_handle s) (cs_heap cs)\<rparr>"

definition coalesce_step :: "memory_page \<Rightarrow> nat \<times> slice \<Rightarrow> coalesce_state \<Rightarrow> coalesce_state" where
  "coalesce_step p = (\<lambda>(index, s) cs.
    (let (status, task) = (case cs_task cs of
           Some t \<Rightarrow> (case on_coalesce index t of (status, t) \<Rightarrow> (status, Some t))
         | None \<Rightarrow> (Ignoring, None));
         cs = cs\<lparr>cs_task := task\<rparr> in
     case status of
       StartMerging \<Rightarrow>
         absorb s (cs\<lparr>cs_offset := sh_offset (sl_storage s), cs_size := effective_size s\<rparr>)
     | Merging \<Rightarrow> absorb s (cs\<lparr>cs_size := cs_size cs + effective_size s\<rparr>)
     | Ignoring \<Rightarrow>
         cs\<lparr>cs_heap := update_slice (sl_handle s) (of_nat (length (cs_tmp cs))) (cs_heap cs),
            cs_tmp := cs_tmp cs @ [s]\<rparr>
     | Completed \<Rightarrow>
         (let cs = absorb s (cs\<lparr>cs_size := cs_size cs + effective_size s\<rparr>);
              (merged, h) = slice_new
                ((pg_storage p)\<lparr>sh_offset := cs_offset cs, sh_size := cs_size cs\<rparr>) 0 (cs_heap cs);
              h = update_location (sl_handle merged)
                ((pg_base p)\<lparr>loc_slice := of_nat (length (cs_tmp cs))\<rparr>) h
          in cs\<lparr>cs_heap := h, cs_tmp := cs_tmp cs @ [merged],
                cs_task := (case cs_tasks cs of [] \<Rightarrow> None | t # _ \<Rightarrow> Some t),
                cs_tasks := tl (cs_tasks cs)\<rparr>)))"

definition coalesce :: "memory_page \<Rightarrow> heap \<Rightarrow> error_graph \<Rightarrow> memory_page \<times> heap \<times> error_graph" where
  "coalesce p h g =
    (case memory_job h p of
       [] \<Rightarrow> (p, h, g)
     | t # ts \<Rightarrow>
         let cs = fold (coalesce_step p) (enumerate 0 (pg_slices p))
               \<lparr>cs_task = Some t, cs_tasks = ts, cs_offset = 0, cs_size = 0, cs_tmp = [],
                cs_heap = h, cs_graph = g\<rparr>
         in (p\<lparr>pg_slices := cs_tmp cs\<rparr>, cs_heap cs, cs_graph cs))"

section \<open>Coalescing as a plan\<close>

text \<open>What coalescing does to a list of slices, read off the free slices alone: keep a slice, or
  join a maximal run of at least two free ones.\<close>

datatype action = Keep slice | Join "slice list"

function plan :: "(slice \<Rightarrow> bool) \<Rightarrow> slice list \<Rightarrow> action list" where
  "plan P [] = []"
| "plan P (s # ss) =
    (if P s \<and> takeWhile P ss \<noteq> []
     then Join (s # takeWhile P ss) # plan P (dropWhile P ss)
     else Keep s # plan P ss)"
  by pat_completeness auto
termination
  by (relation "measure (length \<circ> snd)") (auto simp: le_imp_less_Suc length_dropWhile_le)

fun action_slices :: "action \<Rightarrow> slice list" where
  "action_slices (Keep s) = [s]"
| "action_slices (Join ss) = ss"

definition total_size :: "slice list \<Rightarrow> nat" where
  "total_size ss = sum_list (map effective_size ss)"

lemma total_size_simps [simp]:
  "total_size [] = 0" "total_size (s # ss) = effective_size s + total_size ss"
  "total_size (xs @ ys) = total_size xs + total_size ys"
  by (simp_all add: total_size_def)

lemma plan_slices: "concat (map action_slices (plan P ss)) = ss"
proof (induction P ss rule: plan.induct)
  case (2 P s ss)
  then show ?case by (cases "P s \<and> takeWhile P ss \<noteq> []") auto
qed simp

fun plan_tasks :: "nat \<Rightarrow> action list \<Rightarrow> memory_task list" where
  "plan_tasks i [] = []"
| "plan_tasks i (Keep s # as) = plan_tasks (Suc i) as"
| "plan_tasks i (Join ss # as) =
    \<lparr>start_index = i, count = length ss, cursor = 0, task_size = total_size ss\<rparr>
    # plan_tasks (i + length ss) as"

lemma job_loop_run:
  "list_all (slice_is_free h) run \<Longrightarrow>
    job_loop h (run @ rest) i tasks t =
    job_loop h rest (i + length run) tasks
      (t\<lparr>start_index := (if count t = 0 \<and> run \<noteq> [] then i else start_index t),
         count := count t + length run, task_size := task_size t + total_size run\<rparr>)"
proof (induction run arbitrary: i t)
  case (Cons s run)
  then show ?case by (simp add: tag_coalesce_def Let_def add.assoc)
qed simp

lemma job_loop_task:
  "rest = [] \<or> \<not> slice_is_free h (hd rest) \<Longrightarrow>
    job_loop h rest i tasks t = job_loop h rest i (fst (job_add tasks t)) task_default"
  by (cases rest) (auto simp: job_add_def Let_def task_default_def)

lemma job_loop_plan:
  "job_loop h ss i tasks task_default = tasks @ plan_tasks i (plan (slice_is_free h) ss)"
proof (induction "slice_is_free h" ss arbitrary: i tasks rule: plan.induct)
  case 1
  then show ?case by (simp add: job_add_def task_default_def)
next
  case (2 s ss)
  let ?P = "slice_is_free h"
  define run where "run = takeWhile ?P ss"
  define rest where "rest = dropWhile ?P ss"
  have ss: "ss = run @ rest" by (simp add: run_def rest_def)
  have all: "list_all ?P run" by (auto simp: run_def list_all_iff dest: set_takeWhileD)
  have rest: "rest = [] \<or> \<not> ?P (hd rest)"
    unfolding rest_def by (metis hd_dropWhile)
  show ?case
  proof (cases "?P s")
    case True
    let ?t = "task_default\<lparr>start_index := i, count := length (s # run), task_size := total_size (s # run)\<rparr>"
    have "job_loop h (s # ss) i tasks task_default = job_loop h ((s # run) @ rest) i tasks task_default"
      by (simp add: ss)
    also have "\<dots> = job_loop h rest (i + length (s # run)) tasks ?t"
      using all True by (subst job_loop_run) (simp_all add: task_default_def)
    also have "\<dots> = job_loop h rest (i + length (s # run)) (fst (job_add tasks ?t)) task_default"
      by (rule job_loop_task [OF rest])
    finally have step: "job_loop h (s # ss) i tasks task_default
      = job_loop h rest (i + length (s # run)) (fst (job_add tasks ?t)) task_default" .
    show ?thesis
    proof (cases "run = []")
      case True
      from True have rs: "rest = ss" using ss by simp
      from True have pl: "plan ?P (s # ss) = Keep s # plan ?P ss" by (simp add: run_def)
      have "fst (job_add tasks ?t) = tasks" using True by (simp add: job_add_def)
      moreover have "job_loop h ss (Suc i) tasks task_default = tasks @ plan_tasks (Suc i) (plan ?P ss)"
        by (rule 2(2)) (use True in \<open>simp add: run_def\<close>)
      ultimately show ?thesis unfolding step pl rs using True by simp
    next
      case False
      then have pl: "plan ?P (s # ss) = Join (s # run) # plan ?P rest"
        using \<open>?P s\<close> by (simp add: run_def rest_def)
      from False have "fst (job_add tasks ?t) = tasks @ [?t]" by (cases run) (simp_all add: job_add_def)
      moreover have "?t = \<lparr>start_index = i, count = length (s # run), cursor = 0, task_size = total_size (s # run)\<rparr>"
        by (simp add: task_default_def)
      moreover have "job_loop h rest (i + length (s # run)) (tasks @ [?t]) task_default
          = (tasks @ [?t]) @ plan_tasks (i + length (s # run)) (plan ?P rest)"
        unfolding rest_def by (rule 2(1)) (use \<open>?P s\<close> False in \<open>simp_all add: run_def\<close>)
      ultimately show ?thesis unfolding step pl by simp
    qed
  next
    case False
    with 2(2) [of "Suc i" tasks] show ?thesis
      by (simp add: job_add_def task_default_def)
  qed
qed

text \<open>Executing a plan: the new slices, the heap and the failure graph.\<close>

definition join_state :: "slice list \<Rightarrow> heap \<times> error_graph \<Rightarrow> heap \<times> error_graph" where
  "join_state = fold (\<lambda>s (h, g). (drop_handle (sl_handle s) h, snd (clear (sl_tainted s) g)))"

fun exec :: "memory_page \<Rightarrow> action list \<Rightarrow> slice list \<times> heap \<times> error_graph \<Rightarrow> slice list \<times> heap \<times> error_graph" where
  "exec p [] st = st"
| "exec p (Keep s # as) (tmp, h, g) =
    exec p as (tmp @ [s], update_slice (sl_handle s) (of_nat (length tmp)) h, g)"
| "exec p (Join ss # as) (tmp, h, g) =
    (let (h, g) = join_state ss (h, g);
         (m, h) = slice_new ((pg_storage p)\<lparr>sh_offset := sh_offset (sl_storage (hd ss)), sh_size := total_size ss\<rparr>) 0 h;
         h = update_location (sl_handle m) ((pg_base p)\<lparr>loc_slice := of_nat (length tmp)\<rparr>) h
     in exec p as (tmp @ [m], h, g))"

definition cs_result :: "coalesce_state \<Rightarrow> slice list \<times> heap \<times> error_graph" where
  "cs_result cs = (cs_tmp cs, cs_heap cs, cs_graph cs)"

lemma plan_tasks_start: "t \<in> set (plan_tasks i as) \<Longrightarrow> i \<le> start_index t \<and> cursor t = 0"
  by (induction i as rule: plan_tasks.induct) fastforce+

definition tasks_state :: "memory_task list \<Rightarrow> coalesce_state \<Rightarrow> bool" where
  "tasks_state ts cs \<longleftrightarrow> cs_task cs = (case ts of [] \<Rightarrow> None | t # _ \<Rightarrow> Some t) \<and> cs_tasks cs = tl ts"

lemma coalesce_step_ignore:
  assumes "tasks_state (plan_tasks (Suc i) as) cs"
  shows "coalesce_step p (i, s) cs =
    cs\<lparr>cs_heap := update_slice (sl_handle s) (of_nat (length (cs_tmp cs))) (cs_heap cs),
       cs_tmp := cs_tmp cs @ [s]\<rparr>"
proof (cases "plan_tasks (Suc i) as")
  case Nil
  with assms show ?thesis by (simp add: coalesce_step_def tasks_state_def)
next
  case (Cons t ts)
  with plan_tasks_start [of t "Suc i" as] have "on_coalesce i t = (Ignoring, t)"
    by (simp add: on_coalesce_def)
  with assms Cons show ?thesis by (simp add: coalesce_step_def tasks_state_def)
qed

lemma coalesce_steps_merge:
  assumes "cs_task cs = Some t" "run \<noteq> []" "0 < cursor t" "start_index t + cursor t = i"
    "cursor t + length run = count t"
  shows "fold (coalesce_step p) (enumerate i run) cs =
    (let (h, g) = join_state run (cs_heap cs, cs_graph cs);
         n = cs_size cs + total_size run;
         (m, h) = slice_new ((pg_storage p)\<lparr>sh_offset := cs_offset cs, sh_size := n\<rparr>) 0 h;
         h = update_location (sl_handle m) ((pg_base p)\<lparr>loc_slice := of_nat (length (cs_tmp cs))\<rparr>) h
     in cs\<lparr>cs_size := n, cs_heap := h, cs_graph := g, cs_tmp := cs_tmp cs @ [m],
           cs_task := (case cs_tasks cs of [] \<Rightarrow> None | t # _ \<Rightarrow> Some t), cs_tasks := tl (cs_tasks cs)\<rparr>)"
  using assms
proof (induction run arbitrary: cs t i)
  case (Cons s run)
  show ?case
  proof (cases "run = []")
    case True
    with Cons.prems show ?thesis
      by (simp add: coalesce_step_def on_coalesce_def join_state_def absorb_def Let_def
          split: prod.splits)
  next
    case False
    let ?t = "t\<lparr>cursor := Suc (cursor t)\<rparr>"
    let ?cs = "absorb s (cs\<lparr>cs_task := Some ?t, cs_size := cs_size cs + effective_size s\<rparr>)"
    have "coalesce_step p (i, s) cs = ?cs"
    proof -
      have "Suc (cursor t) \<noteq> count t" using Cons.prems(5) False by (cases run) auto
      with Cons.prems show ?thesis by (simp add: coalesce_step_def on_coalesce_def)
    qed
    moreover have "cs_task ?cs = Some ?t" by (simp add: absorb_def)
    ultimately show ?thesis
      using Cons.IH [of ?cs ?t "Suc i"] Cons.prems False
      by (simp add: absorb_def join_state_def Let_def add.assoc split: prod.splits)
  qed
qed simp

lemma coalesce_fold_exec:
  "tasks_state (plan_tasks i as) cs \<Longrightarrow>
    \<forall>ss. Join ss \<in> set as \<longrightarrow> 2 \<le> length ss \<Longrightarrow>
    cs_result (fold (coalesce_step p) (enumerate i (concat (map action_slices as))) cs)
    = exec p as (cs_result cs)"
proof (induction as arbitrary: i cs)
  case Nil
  then show ?case by (simp add: cs_result_def)
next
  case (Cons a as)
  show ?case
  proof (cases a)
    case (Keep s)
    let ?cs = "coalesce_step p (i, s) cs"
    from Keep Cons.prems have "tasks_state (plan_tasks (Suc i) as) cs" by simp
    from coalesce_step_ignore [OF this, of p s] this have
      "tasks_state (plan_tasks (Suc i) as) ?cs"
      "cs_result ?cs = (cs_tmp cs @ [s], update_slice (sl_handle s) (of_nat (length (cs_tmp cs))) (cs_heap cs), cs_graph cs)"
      by (simp_all add: tasks_state_def cs_result_def)
    with Cons Keep show ?thesis by (simp add: cs_result_def)
  next
    case (Join ss)
    with Cons.prems obtain s run where ss: "ss = s # run" "run \<noteq> []"
      by (cases ss) (auto simp: numeral_2_eq_2 Suc_le_eq)
    let ?t = "\<lparr>start_index = i, count = length ss, cursor = 1, task_size = total_size ss\<rparr>"
    let ?cs = "absorb s (cs\<lparr>cs_task := Some ?t, cs_offset := sh_offset (sl_storage s), cs_size := effective_size s\<rparr>)"
    from Cons.prems Join have ts: "cs_task cs = Some (?t\<lparr>cursor := 0\<rparr>)"
      "cs_tasks cs = plan_tasks (i + length ss) as"
      by (simp_all add: tasks_state_def)
    then have start: "coalesce_step p (i, s) cs = ?cs"
      by (simp add: coalesce_step_def on_coalesce_def)
    let ?cs' = "fold (coalesce_step p) (enumerate (Suc i) run) ?cs"
    have "cs_task ?cs = Some ?t" by (simp add: absorb_def)
    note merge = coalesce_steps_merge [OF this ss(2), of "Suc i" p]
    have m: "tasks_state (plan_tasks (i + length ss) as) ?cs'
        \<and> exec p as (cs_result ?cs') = exec p (a # as) (cs_result cs)"
      using merge ts ss Join
      by (auto simp: tasks_state_def cs_result_def absorb_def join_state_def Let_def split: prod.splits)
    have "fold (coalesce_step p) (enumerate i (concat (map action_slices (a # as)))) cs
        = fold (coalesce_step p) (enumerate (i + length ss) (concat (map action_slices as))) ?cs'"
      using ss Join start by (simp add: enumerate_append_eq)
    with Cons.IH [of "i + length ss" ?cs'] m Cons.prems show ?thesis by simp
  qed
qed

lemma plan_joins: "Join ss \<in> set (plan P xs) \<Longrightarrow> 2 \<le> length ss \<and> list_all P ss"
proof (induction P xs rule: plan.induct)
  case (2 P s xs)
  have "takeWhile P xs \<noteq> [] \<Longrightarrow> 0 < length (takeWhile P xs)" by simp
  with 2 show ?case
    by (cases "P s \<and> takeWhile P xs \<noteq> []")
      (auto simp: list_all_iff Suc_le_eq dest: set_takeWhileD)
qed simp

lemma plan_no_tasks: "plan_tasks i (plan P ss) = [] \<Longrightarrow> plan P ss = map Keep ss"
proof (induction P ss arbitrary: i rule: plan.induct)
  case (2 P s ss)
  then show ?case by (cases "P s \<and> takeWhile P ss \<noteq> []") auto
qed simp

text \<open>Coalescing a page executes the plan of its free slices; with nothing to join it leaves the
  page as it is.\<close>

lemma plan_has_tasks: "plan_tasks i as = [] \<longleftrightarrow> \<not> (\<exists>ss. Join ss \<in> set as)"
  by (induction i as rule: plan_tasks.induct) auto

lemma coalesce_plan:
  "coalesce p h g =
    (if \<exists>ss. Join ss \<in> set (plan (slice_is_free h) (pg_slices p))
     then case exec p (plan (slice_is_free h) (pg_slices p)) ([], h, g) of
       (ss, h, g) \<Rightarrow> (p\<lparr>pg_slices := ss\<rparr>, h, g)
     else (p, h, g))"
proof -
  let ?as = "plan (slice_is_free h) (pg_slices p)"
  have job: "memory_job h p = plan_tasks 0 ?as"
    by (simp add: memory_job_def job_loop_plan)
  note some = plan_has_tasks
  show ?thesis
  proof (cases "plan_tasks 0 ?as")
    case Nil
    with job some show ?thesis by (simp add: coalesce_def)
  next
    case (Cons t ts)
    let ?cs = "\<lparr>cs_task = Some t, cs_tasks = ts, cs_offset = 0, cs_size = 0, cs_tmp = [],
                cs_heap = h, cs_graph = g\<rparr>"
    have "tasks_state (plan_tasks 0 ?as) ?cs" by (simp add: tasks_state_def Cons)
    from coalesce_fold_exec [OF this, of p] plan_joins
    have "cs_result (fold (coalesce_step p) (enumerate 0 (pg_slices p)) ?cs) = exec p ?as ([], h, g)"
      by (simp add: plan_slices cs_result_def)
    moreover have "\<exists>ss. Join ss \<in> set ?as" using Cons some by (metis list.distinct(1))
    ultimately show ?thesis
      using Cons by (auto simp: coalesce_def job cs_result_def Let_def split: prod.splits)
  qed
qed

section \<open>Slots: handles and the locations they carry\<close>

definition slots_ok :: "memory_location \<Rightarrow> slice list \<Rightarrow> heap \<Rightarrow> bool" where
  "slots_ok base ss h \<longleftrightarrow> heap_ok h \<and> distinct (map sl_handle ss)
    \<and> (\<forall>k < length ss. sl_handle (ss ! k) \<in> dom (descs h)
        \<and> location h (sl_handle (ss ! k)) = base\<lparr>loc_slice := of_nat k\<rparr>)"

text \<open>Slices still to be placed: their location agrees with the base up to the slice index.\<close>

definition waiting :: "memory_location \<Rightarrow> slice list \<Rightarrow> slice list \<Rightarrow> heap \<Rightarrow> bool" where
  "waiting base ss tmp h \<longleftrightarrow> distinct (map sl_handle ss) \<and> sl_handle ` set ss \<inter> sl_handle ` set tmp = {}
    \<and> (\<forall>s \<in> set ss. sl_handle s \<in> dom (descs h)
        \<and> (\<forall>x. (location h (sl_handle s))\<lparr>loc_slice := x\<rparr> = base\<lparr>loc_slice := x\<rparr>))"

lemma slots_ok_frame:
  assumes "slots_ok base ss h" "heap_ok h'"
    "\<And>i. i \<in> sl_handle ` set ss \<Longrightarrow> i \<in> dom (descs h) \<Longrightarrow> i \<in> dom (descs h') \<and> location h' i = location h i"
  shows "slots_ok base ss h'"
  using assms unfolding slots_ok_def by (metis image_eqI nth_mem)

lemma slots_ok_snoc:
  assumes "slots_ok base ss h" "sl_handle s \<notin> sl_handle ` set ss" "sl_handle s \<in> dom (descs h)"
    "location h (sl_handle s) = base\<lparr>loc_slice := of_nat (length ss)\<rparr>"
  shows "slots_ok base (ss @ [s]) h"
  using assms by (auto simp: slots_ok_def nth_append less_Suc_eq)

lemma waiting_frame:
  assumes "waiting base ss tmp h" "sl_handle ` set ss \<inter> sl_handle ` set tmp' = {}"
    "\<And>i. i \<in> sl_handle ` set ss \<Longrightarrow> i \<in> dom (descs h) \<Longrightarrow> i \<in> dom (descs h') \<and> location h' i = location h i"
  shows "waiting base ss tmp' h'"
  using assms unfolding waiting_def by (metis image_eqI)

lemma slots_ok_waiting: "slots_ok base ss h \<Longrightarrow> waiting base ss [] h"
  by (auto simp: slots_ok_def waiting_def in_set_conv_nth)

lemma waiting_append:
  "waiting base (xs @ ys) tmp h \<longleftrightarrow> waiting base xs tmp h \<and> waiting base ys tmp h
    \<and> sl_handle ` set xs \<inter> sl_handle ` set ys = {}"
  by (auto simp: waiting_def)

lemma slots_ok_heap: "slots_ok base ss h \<Longrightarrow> heap_ok h"
  by (simp add: slots_ok_def)

lemma slots_dom: "slots_ok base ss h \<Longrightarrow> sl_handle ` set ss \<subseteq> dom (descs h)"
  by (fastforce simp: slots_ok_def in_set_conv_nth)

lemma waiting_dom: "waiting base ss tmp h \<Longrightarrow> sl_handle ` set ss \<subseteq> dom (descs h)"
  by (auto simp: waiting_def)

lemma waiting_disjoint: "waiting base ss tmp h \<Longrightarrow> sl_handle ` set ss \<inter> sl_handle ` set tmp = {}"
  by (simp add: waiting_def)

text \<open>Placing one kept slice.\<close>

lemma place_slice:
  assumes "slots_ok base tmp h" "waiting base (s # ss) tmp h"
  defines "h' \<equiv> update_slice (sl_handle s) (of_nat (length tmp)) h"
  shows "slots_ok base (tmp @ [s]) h' \<and> waiting base ss (tmp @ [s]) h'
    \<and> next_id h' = next_id h \<and> (\<forall>i. strong_count h' i = strong_count h i)"
proof -
  from assms(2) have s: "sl_handle s \<in> dom (descs h)" "sl_handle s \<notin> sl_handle ` set tmp"
    "sl_handle s \<notin> sl_handle ` set ss"
    "(location h (sl_handle s))\<lparr>loc_slice := of_nat (length tmp)\<rparr> = base\<lparr>loc_slice := of_nat (length tmp)\<rparr>"
    by (auto simp: waiting_def)
  have hok: "heap_ok h'" unfolding h'_def by (intro heap_ok_ops slots_ok_heap [OF assms(1)])
  have "slots_ok base tmp h'"
  proof (rule slots_ok_frame [OF assms(1) hok])
    fix i assume "i \<in> sl_handle ` set tmp" "i \<in> dom (descs h)"
    moreover from this(1) s(2) have "i \<noteq> sl_handle s" by blast
    ultimately show "i \<in> dom (descs h') \<and> location h' i = location h i" by (simp add: h'_def heap_simps)
  qed
  moreover have "sl_handle s \<in> dom (descs h')" using s(1) by (simp add: h'_def heap_simps)
  moreover have "location h' (sl_handle s) = base\<lparr>loc_slice := of_nat (length tmp)\<rparr>"
    using s by (simp add: h'_def heap_simps)
  ultimately have "slots_ok base (tmp @ [s]) h'" using s(2) by (intro slots_ok_snoc)
  moreover have "waiting base ss (tmp @ [s]) h'"
  proof (rule waiting_frame)
    show "waiting base ss tmp h" using assms(2) by (auto simp: waiting_def)
    show "sl_handle ` set ss \<inter> sl_handle ` set (tmp @ [s]) = {}"
      using assms(2) s(3) by (auto simp: waiting_def)
    fix i assume "i \<in> sl_handle ` set ss" "i \<in> dom (descs h)"
    moreover from this(1) s(3) have "i \<noteq> sl_handle s" by blast
    ultimately show "i \<in> dom (descs h') \<and> location h' i = location h i" by (simp add: h'_def heap_simps)
  qed
  ultimately show ?thesis by (simp add: h'_def heap_simps)
qed

text \<open>Placing a new slice with a fresh handle.\<close>

lemma place_fresh:
  assumes "slots_ok base tmp h" "waiting base ss tmp h" "slice_new st pad h = (m, h1)"
  defines "h' \<equiv> update_location (sl_handle m) (base\<lparr>loc_slice := of_nat (length tmp)\<rparr>) h1"
  shows "slots_ok base (tmp @ [m]) h' \<and> waiting base ss (tmp @ [m]) h'
    \<and> sl_handle m = next_id h \<and> next_id h' = Suc (next_id h)
    \<and> (\<forall>i. strong_count h' i = (if i = next_id h then 1 else strong_count h i))
    \<and> sl_storage m = st \<and> sl_padding m = pad \<and> sl_tainted m = [] \<and> sl_mapped m \<and> sl_cursor m = 0"
proof -
  have m: "sl_handle m = next_id h" "h1 = snd (handle_new h)" "sl_storage m = st" "sl_padding m = pad"
    "sl_tainted m = []" "sl_mapped m" "sl_cursor m = 0"
    using assms(3) by (auto simp: slice_new_def handle_new_def)
  have old: "i \<noteq> next_id h" if "i \<in> dom (descs h)" for i
    using heap_ok_fresh [OF slots_ok_heap [OF assms(1)] that] by simp
  have fresh: "next_id h \<notin> sl_handle ` set tmp" "next_id h \<notin> sl_handle ` set ss"
    using slots_dom [OF assms(1)] waiting_dom [OF assms(2)] old by blast+
  have hok: "heap_ok h'" unfolding h'_def m(2) by (intro heap_ok_ops slots_ok_heap [OF assms(1)])
  have frame: "i \<in> dom (descs h') \<and> location h' i = location h i" if "i \<in> dom (descs h)" for i
    using that old [OF that] by (simp add: h'_def m heap_simps)
  have "slots_ok base tmp h'" by (rule slots_ok_frame [OF assms(1) hok]) (simp add: frame)
  then have "slots_ok base (tmp @ [m]) h'"
    using fresh by (intro slots_ok_snoc) (auto simp: h'_def m heap_simps)
  moreover have "waiting base ss (tmp @ [m]) h'"
  proof (rule waiting_frame [OF assms(2)])
    show "sl_handle ` set ss \<inter> sl_handle ` set (tmp @ [m]) = {}"
      using waiting_disjoint [OF assms(2)] fresh(2) m(1) by auto
  qed (rule frame)
  ultimately show ?thesis by (simp add: m h'_def heap_simps)
qed

lemma join_state_heap:
  assumes "join_state ss (h, g) = (h', g')" "heap_ok h"
  shows "heap_ok h' \<and> next_id h' = next_id h
    \<and> (\<forall>i. i \<notin> sl_handle ` set ss \<longrightarrow>
        strong_count h' i = strong_count h i \<and> location h' i = location h i
        \<and> (i \<in> dom (descs h') \<longleftrightarrow> i \<in> dom (descs h)))"
  using assms
proof (induction ss arbitrary: h g)
  case Nil
  then show ?case by (simp add: join_state_def)
next
  case (Cons s ss)
  let ?h = "drop_handle (sl_handle s) h"
  from Cons.prems have "join_state ss (?h, snd (clear (sl_tainted s) g)) = (h', g')" "heap_ok ?h"
    by (simp_all add: join_state_def heap_ok_ops)
  from Cons.IH [OF this] show ?case by (auto simp: heap_simps)
qed

definition realises :: "memory_page \<Rightarrow> action \<Rightarrow> slice \<Rightarrow> bool" where
  "realises p a s' = (case a of
     Keep s \<Rightarrow> s' = s
   | Join ss \<Rightarrow> sl_storage s' = (pg_storage p)\<lparr>sh_offset := sh_offset (sl_storage (hd ss)), sh_size := total_size ss\<rparr>
       \<and> sl_padding s' = 0 \<and> sl_tainted s' = [])"

definition counted :: "heap \<Rightarrow> heap \<Rightarrow> action \<Rightarrow> slice \<Rightarrow> bool" where
  "counted h h' a s' = (case a of
     Keep s \<Rightarrow> strong_count h' (sl_handle s) = strong_count h (sl_handle s)
   | Join ss \<Rightarrow> strong_count h' (sl_handle s') = 1)"

lemma list_all2_mono':
  assumes "list_all2 P xs ys" "\<And>x y. x \<in> set xs \<Longrightarrow> P x y \<Longrightarrow> Q x y"
  shows "list_all2 Q xs ys"
  using assms by (auto simp: list_all2_conv_all_nth)

lemma exec_spec:
  assumes "exec p as (tmp, h, g) = (out, h', g')"
    and "slots_ok (pg_base p) tmp h"
    and "waiting (pg_base p) (concat (map action_slices as)) tmp h"
  shows "\<exists>news. out = tmp @ news \<and> slots_ok (pg_base p) out h'
    \<and> list_all2 (\<lambda>a s'. realises p a s' \<and> counted h h' a s') as news
    \<and> next_id h \<le> next_id h'
    \<and> (\<forall>i. i < next_id h \<longrightarrow> i \<notin> sl_handle ` set (concat (map action_slices as)) \<longrightarrow> strong_count h' i = strong_count h i)"
  using assms
proof (induction as arbitrary: tmp h g)
  case Nil
  then show ?case by simp
next
  case (Cons a as)
  show ?case
  proof (cases a)
    case (Keep s)
    let ?h = "update_slice (sl_handle s) (of_nat (length tmp)) h"
    from Keep Cons.prems(3) have "waiting (pg_base p) (s # concat (map action_slices as)) tmp h" by simp
    note placed = place_slice [OF Cons.prems(2) this]
    from Cons.prems(1) Keep have "exec p as (tmp @ [s], ?h, g) = (out, h', g')" by simp
    from Cons.IH [OF this] placed obtain news where news: "out = (tmp @ [s]) @ news" "slots_ok (pg_base p) out h'"
      "list_all2 (\<lambda>a s'. realises p a s' \<and> counted ?h h' a s') as news" "next_id h \<le> next_id h'"
      "\<forall>i. i < next_id h \<longrightarrow> i \<notin> sl_handle ` set (concat (map action_slices as)) \<longrightarrow> strong_count h' i = strong_count h i"
      by auto
    have "sl_handle s < next_id h" "sl_handle s \<notin> sl_handle ` set (concat (map action_slices as))"
      using Cons.prems(2,3) Keep heap_ok_fresh [OF slots_ok_heap [OF Cons.prems(2)]] by (auto simp: waiting_def)
    then have "counted h h' a s" using news(5) Keep by (simp add: counted_def)
    moreover have "counted ?h h' = counted h h'"
      using placed by (simp add: counted_def fun_eq_iff split: action.split)
    ultimately show ?thesis using news Keep
      by (intro exI [of _ "s # news"]) (auto simp: realises_def)
  next
    case (Join ss)
    obtain h1 g1 where j: "join_state ss (h, g) = (h1, g1)" by (cases "join_state ss (h, g)")
    note jh = join_state_heap [OF j slots_ok_heap [OF Cons.prems(2)]]
    from Join Cons.prems(3) have w: "waiting (pg_base p) (ss @ concat (map action_slices as)) tmp h" by simp
    let ?rest = "concat (map action_slices as)"
    from w have w': "waiting (pg_base p) ss tmp h" "waiting (pg_base p) ?rest tmp h"
      and dj: "sl_handle ` set ss \<inter> sl_handle ` set ?rest = {}"
      unfolding waiting_append by blast+
    have frame: "i \<in> dom (descs h1) \<and> location h1 i = location h i"
      if "i \<in> dom (descs h)" "i \<notin> sl_handle ` set ss" for i
      using jh that by blast
    have s1: "slots_ok (pg_base p) tmp h1"
      by (rule slots_ok_frame [OF Cons.prems(2)]) (use jh frame waiting_disjoint [OF w'(1)] in blast)+
    have w1: "waiting (pg_base p) ?rest tmp h1"
      by (rule waiting_frame [OF w'(2) waiting_disjoint [OF w'(2)]]) (use frame dj in blast)
    let ?st = "(pg_storage p)\<lparr>sh_offset := sh_offset (sl_storage (hd ss)), sh_size := total_size ss\<rparr>"
    obtain m h2 where m: "slice_new ?st 0 h1 = (m, h2)" by (cases "slice_new ?st 0 h1")
    note placed = place_fresh [OF s1 w1 m]
    let ?h = "update_location (sl_handle m) ((pg_base p)\<lparr>loc_slice := of_nat (length tmp)\<rparr>) h2"
    from Cons.prems(1) Join j m have "exec p as (tmp @ [m], ?h, g1) = (out, h', g')" by simp
    from Cons.IH [OF this] placed jh obtain news where news: "out = (tmp @ [m]) @ news" "slots_ok (pg_base p) out h'"
      "list_all2 (\<lambda>a s'. realises p a s' \<and> counted ?h h' a s') as news" "Suc (next_id h) \<le> next_id h'"
      "\<forall>i. i < Suc (next_id h) \<longrightarrow> i \<notin> sl_handle ` set (concat (map action_slices as)) \<longrightarrow> strong_count h' i = strong_count ?h i"
      by auto
    have same: "strong_count ?h i = strong_count h i" if "i < next_id h" "i \<notin> sl_handle ` set ss" for i
      using placed jh that by auto
    have old: "i < next_id h" if "i \<in> sl_handle ` set ?rest" for i
      using that waiting_dom [OF w'(2)] heap_ok_fresh [OF slots_ok_heap [OF Cons.prems(2)]] by blast
    have "next_id h \<notin> sl_handle ` set ?rest" using old by blast
    with news(5) have "strong_count h' (next_id h) = strong_count ?h (next_id h)" by blast
    moreover have "strong_count ?h (next_id h) = 1" "sl_handle m = next_id h" using placed jh by metis+
    ultimately have "counted h h' a m" using Join by (simp add: counted_def)
    moreover have "list_all2 (\<lambda>a s'. realises p a s' \<and> counted h h' a s') as news"
    proof (rule list_all2_mono' [OF news(3)])
      fix b s' assume b: "b \<in> set as" "realises p b s' \<and> counted ?h h' b s'"
      show "realises p b s' \<and> counted h h' b s'"
      proof (cases b)
        case (Keep s)
        with b(1) have "s \<in> set ?rest" by force
        then have "sl_handle s < next_id h" "sl_handle s \<notin> sl_handle ` set ss" using old dj by blast+
        from same [OF this] b(2) Keep show ?thesis by (simp add: counted_def)
      next
        case (Join ts)
        with b(2) show ?thesis by (simp add: counted_def)
      qed
    qed
    moreover have "strong_count h' i = strong_count h i"
      if "i < next_id h" "i \<notin> sl_handle ` set (concat (map action_slices (a # as)))" for i
    proof -
      from that(2) Join have "i \<notin> sl_handle ` set ss" "i \<notin> sl_handle ` set ?rest" by auto
      with that(1) news(5) same show ?thesis by simp
    qed
    ultimately show ?thesis using news placed Join
      by (intro exI [of _ "m # news"]) (auto simp: realises_def)
  qed
qed

section \<open>The layout of a page\<close>

text \<open>Slices in address order, none reaching into the next, all within the page.\<close>

fun laid_out :: "nat \<Rightarrow> nat \<Rightarrow> slice list \<Rightarrow> bool" where
  "laid_out lo hi [] \<longleftrightarrow> lo \<le> hi"
| "laid_out lo hi (s # ss) \<longleftrightarrow>
    lo \<le> sh_offset (sl_storage s) \<and> laid_out (sh_offset (sl_storage s) + effective_size s) hi ss"

definition page_layout :: "memory_page \<Rightarrow> bool" where
  "page_layout p \<longleftrightarrow> 0 < pg_alignment p \<and> laid_out 0 (page_size p) (pg_slices p)
    \<and> (\<forall>s \<in> set (pg_slices p). pg_alignment p dvd sh_offset (sl_storage s)
        \<and> sh_id (sl_storage s) = sh_id (pg_storage p))"

definition page_ok :: "memory_page \<Rightarrow> heap \<Rightarrow> bool" where
  "page_ok p h \<longleftrightarrow> page_layout p \<and> slots_ok (pg_base p) (pg_slices p) h"

lemma laid_out_le: "laid_out lo hi ss \<Longrightarrow> lo \<le> hi"
  by (induction ss arbitrary: lo) (auto dest: le_trans add_leD1 le_trans [OF le_add1])

lemma laid_out_mono: "laid_out lo hi ss \<Longrightarrow> lo' \<le> lo \<Longrightarrow> laid_out lo' hi ss"
  by (cases ss) auto

lemma laid_out_join:
  "laid_out lo hi (ss @ rest) \<Longrightarrow> ss \<noteq> [] \<Longrightarrow>
    lo \<le> sh_offset (sl_storage (hd ss)) \<and> laid_out (sh_offset (sl_storage (hd ss)) + total_size ss) hi rest"
proof (induction ss arbitrary: lo)
  case (Cons s ss)
  show ?case
  proof (cases "ss = []")
    case True
    with Cons.prems show ?thesis by simp
  next
    case False
    with Cons.IH [of "sh_offset (sl_storage s) + effective_size s"] Cons.prems show ?thesis
      by (auto simp: add.assoc elim: laid_out_mono)
  qed
qed simp

text \<open>Two slices of a laid-out list do not overlap, and each ends inside.\<close>

lemma laid_out_ends: "laid_out lo hi ss \<Longrightarrow> s \<in> set ss \<Longrightarrow> lo \<le> sh_offset (sl_storage s)
    \<and> sh_offset (sl_storage s) + effective_size s \<le> hi"
proof (induction ss arbitrary: lo)
  case (Cons a ss)
  then show ?case
    by (cases "s = a") (auto dest: laid_out_le dest!: Cons.IH [rotated])
qed simp

lemma laid_out_disjoint:
  assumes "laid_out lo hi ss" "i < j" "j < length ss"
  shows "sh_offset (sl_storage (ss ! i)) + effective_size (ss ! i) \<le> sh_offset (sl_storage (ss ! j))"
  using assms
proof (induction ss arbitrary: lo i j)
  case (Cons s ss)
  then obtain j' where j: "j = Suc j'" by (cases j) auto
  show ?case
  proof (cases i)
    case 0
    with Cons.prems j laid_out_ends [of "sh_offset (sl_storage s) + effective_size s" hi ss "ss ! j'"]
    show ?thesis by auto
  next
    case (Suc i')
    with Cons.IH [of "sh_offset (sl_storage s) + effective_size s" i' j'] Cons.prems j show ?thesis by auto
  qed
qed simp

lemma realises_layout:
  assumes "list_all2 (realises p) as news" "laid_out lo hi (concat (map action_slices as))"
    "\<forall>ss. Join ss \<in> set as \<longrightarrow> ss \<noteq> []"
  shows "laid_out lo hi news \<and> total_size news = total_size (concat (map action_slices as))"
  using assms
proof (induction arbitrary: lo rule: list_all2_induct)
  case (Cons a as s news)
  show ?case
  proof (cases a)
    case (Keep t)
    with Cons show ?thesis by (auto simp: realises_def)
  next
    case (Join ss)
    with Cons.prems have ne: "ss \<noteq> []" by simp
    from Cons.hyps(1) Join have s: "sh_offset (sl_storage s) = sh_offset (sl_storage (hd ss))"
      "effective_size s = total_size ss"
      by (simp_all add: realises_def effective_size_def)
    from laid_out_join [of lo hi ss "concat (map action_slices as)"] Cons.prems ne Join
    show ?thesis using Cons.IH s by (auto simp: add.assoc)
  qed
qed simp

fun no_adjacent :: "('a \<Rightarrow> bool) \<Rightarrow> 'a list \<Rightarrow> bool" where
  "no_adjacent P (x # y # xs) \<longleftrightarrow> \<not> (P x \<and> P y) \<and> no_adjacent P (y # xs)"
| "no_adjacent P xs \<longleftrightarrow> True"

definition action_free :: "(slice \<Rightarrow> bool) \<Rightarrow> action \<Rightarrow> bool" where
  "action_free P a = (case a of Keep s \<Rightarrow> P s | Join _ \<Rightarrow> True)"

lemma no_adjacent_Cons:
  "no_adjacent P (x # xs) \<longleftrightarrow> (xs = [] \<or> \<not> (P x \<and> P (hd xs))) \<and> no_adjacent P xs"
  by (cases xs) auto

lemma no_adjacent_transfer:
  "list_all2 (\<lambda>a b. P a = Q b) as bs \<Longrightarrow> no_adjacent P as = no_adjacent Q bs"
proof (induction rule: list_all2_induct)
  case (Cons a as b bs)
  then show ?case by (cases as; cases bs) (auto simp: no_adjacent_Cons)
qed simp

lemma plan_hd: "ss \<noteq> [] \<Longrightarrow> plan P ss \<noteq> [] \<and> action_free P (hd (plan P ss)) = P (hd ss)"
  by (cases ss) (auto simp: action_free_def)

lemma plan_no_adjacent: "no_adjacent (action_free P) (plan P ss)"
proof (induction P ss rule: plan.induct)
  case (2 P s ss)
  show ?case
  proof (cases "P s \<and> takeWhile P ss \<noteq> []")
    case True
    have "plan P (dropWhile P ss) = [] \<or> \<not> action_free P (hd (plan P (dropWhile P ss)))"
    proof (cases "dropWhile P ss = []")
      case False
      with plan_hd [OF False, of P] show ?thesis by (metis hd_dropWhile)
    next
      case True
      then show ?thesis by (simp only: True plan.simps simp_thms)
    qed
    with True 2 show ?thesis by (simp add: no_adjacent_Cons)
  next
    case False
    then have "ss = [] \<or> \<not> (P s \<and> P (hd ss))" by (cases ss) auto
    moreover have "action_free P (Keep s) = P s" by (simp add: action_free_def)
    ultimately have "plan P ss = [] \<or> \<not> (action_free P (Keep s) \<and> action_free P (hd (plan P ss)))"
      using plan_hd [of ss P] by (cases "ss = []") auto
    with False 2 show ?thesis by (auto simp: no_adjacent_Cons)
  qed
qed simp

lemma live_realises:
  assumes "list_all2 (\<lambda>a s'. realises p a s' \<and> counted h h' a s') as news"
    "\<forall>ss. Join ss \<in> set as \<longrightarrow> list_all (slice_is_free h) ss"
  shows "filter (\<lambda>s. \<not> slice_is_free h' s) news = filter (\<lambda>s. \<not> slice_is_free h s) (concat (map action_slices as))
    \<and> list_all2 (\<lambda>a s'. action_free (slice_is_free h) a = slice_is_free h' s') as news"
  using assms
proof (induction rule: list_all2_induct)
  case (Cons a as s news)
  show ?case
  proof (cases a)
    case (Keep t)
    with Cons show ?thesis
      by (auto simp: realises_def counted_def slice_is_free_def is_free_def action_free_def)
  next
    case (Join ss)
    with Cons.prems have "filter (\<lambda>s. \<not> slice_is_free h s) ss = []"
      by (auto simp: filter_empty_conv list_all_iff)
    with Cons Join show ?thesis
      by (auto simp: counted_def slice_is_free_def is_free_def action_free_def)
  qed
qed simp

lemma coalesce_shown:
  assumes "page_ok p h" "coalesce p h g = (p', h', g')"
  shows "page_ok p' h' \<and> live h' p' = live h p \<and> no_adjacent (slice_is_free h') (pg_slices p')
    \<and> total_size (pg_slices p') = total_size (pg_slices p)
    \<and> p' = p\<lparr>pg_slices := pg_slices p'\<rparr>
    \<and> next_id h \<le> next_id h'
    \<and> (\<forall>i. i < next_id h \<longrightarrow> i \<notin> sl_handle ` set (pg_slices p) \<longrightarrow> strong_count h' i = strong_count h i)"
proof -
  let ?P = "slice_is_free h"
  let ?as = "plan ?P (pg_slices p)"
  have flat: "concat (map action_slices ?as) = pg_slices p" by (rule plan_slices)
  show ?thesis
  proof (cases "\<exists>ss. Join ss \<in> set ?as")
    case True
    obtain out where ex: "exec p ?as ([], h, g) = (out, h', g')" and p': "p' = p\<lparr>pg_slices := out\<rparr>"
      using assms(2) True by (auto simp: coalesce_plan split: prod.splits)
    have slots: "slots_ok (pg_base p) [] h" "waiting (pg_base p) (concat (map action_slices ?as)) [] h"
      using assms(1) by (auto simp: page_ok_def flat slots_ok_waiting slots_ok_def)
    from exec_spec [OF ex slots] have
      out: "slots_ok (pg_base p) out h'"
      and all: "list_all2 (\<lambda>a s'. realises p a s' \<and> counted h h' a s') ?as out"
      and nid: "next_id h \<le> next_id h'"
      and frame: "\<forall>i. i < next_id h \<longrightarrow> i \<notin> sl_handle ` set (pg_slices p) \<longrightarrow> strong_count h' i = strong_count h i"
      by (auto simp: flat)
    have joins: "\<forall>ss. Join ss \<in> set ?as \<longrightarrow> list_all ?P ss" "\<forall>ss. Join ss \<in> set ?as \<longrightarrow> ss \<noteq> []"
      using plan_joins [of _ ?P "pg_slices p"] by (blast, force)
    have re: "list_all2 (realises p) ?as out" using all by (rule list_all2_mono) simp
    have lay: "laid_out 0 (page_size p) out \<and> total_size out = total_size (pg_slices p)"
      using realises_layout [OF re _ joins(2), of 0 "page_size p"] assms(1)
      by (simp add: flat page_ok_def page_layout_def)
    have aligned: "pg_alignment p dvd sh_offset (sl_storage s) \<and> sh_id (sl_storage s) = sh_id (pg_storage p)"
      if "s \<in> set out" for s
    proof -
      from that obtain k where k: "k < length out" "s = out ! k" by (auto simp: in_set_conv_nth)
      with re have r: "realises p (?as ! k) s" "?as ! k \<in> set ?as" by (auto simp: list_all2_conv_all_nth)
      have sub: "set (action_slices (?as ! k)) \<subseteq> set (pg_slices p)"
        using r(2) by (subst flat [symmetric]) auto
      have page: "\<forall>s \<in> set (pg_slices p). pg_alignment p dvd sh_offset (sl_storage s)
          \<and> sh_id (sl_storage s) = sh_id (pg_storage p)"
        using assms(1) by (simp add: page_ok_def page_layout_def)
      show ?thesis
      proof (cases "?as ! k")
        case (Keep t)
        with r sub page show ?thesis by (simp add: realises_def)
      next
        case (Join ss)
        with joins(2) r(2) have "hd ss \<in> set ss" by simp
        with r sub page Join show ?thesis by (auto simp: realises_def)
      qed
    qed
    have "page_ok p' h'"
      using out lay aligned assms(1) by (simp add: page_ok_def page_layout_def p' page_size_def)
    moreover have "live h' p' = live h p \<and> no_adjacent (slice_is_free h') out"
      using live_realises [OF all joins(1)] plan_no_adjacent [of ?P "pg_slices p"]
        no_adjacent_transfer [of "action_free ?P" "slice_is_free h'" ?as out]
      by (simp add: live_def p' flat)
    ultimately show ?thesis using lay nid frame by (simp add: p')
  next
    case False
    then have same: "p' = p" "h' = h" using assms(2) by (auto simp: coalesce_plan)
    have "?as = map Keep (pg_slices p)"
      using False plan_no_tasks [of 0 ?P "pg_slices p"]
      by (metis (no_types, lifting) plan_has_tasks)
    then have "list_all2 (\<lambda>a s. action_free ?P a = ?P s) ?as (pg_slices p)"
      by (simp add: list_all2_conv_all_nth action_free_def)
    with plan_no_adjacent [of ?P "pg_slices p"] show ?thesis
      using assms(1) same no_adjacent_transfer [of "action_free ?P" ?P ?as "pg_slices p"] by simp
  qed
qed

section \<open>Reserving\<close>

lemma padding_next_multiple: "0 < a \<Longrightarrow> n + calculate_padding n a = next_multiple_of n a"
  by (simp add: calculate_padding_def next_multiple_of_def Let_def)

lemma padding_dvd: "0 < a \<Longrightarrow> a dvd n + calculate_padding n a"
  by (simp add: padding_next_multiple dvd_next_multiple_of)

lemma padded_fits: "0 < al \<Longrightarrow> al dvd m \<Longrightarrow> n \<le> m \<Longrightarrow> n + calculate_padding n al \<le> m"
  by (simp add: padding_next_multiple next_multiple_of_least)

lemma place_located:
  assumes "slots_ok base tmp h" "waiting base ss tmp h" "sl_handle n \<in> dom (descs h)"
    "sl_handle n \<notin> sl_handle ` set tmp" "sl_handle n \<notin> sl_handle ` set ss"
  defines "h' \<equiv> update_location (sl_handle n) (base\<lparr>loc_slice := of_nat (length tmp)\<rparr>) h"
  shows "slots_ok base (tmp @ [n]) h' \<and> waiting base ss (tmp @ [n]) h'
    \<and> next_id h' = next_id h \<and> (\<forall>i. strong_count h' i = strong_count h i)"
proof -
  have frame: "i \<in> dom (descs h') \<and> location h' i = location h i"
    if "i \<in> dom (descs h)" "i \<noteq> sl_handle n" for i
    using that by (simp add: h'_def heap_simps)
  have hok: "heap_ok h'" unfolding h'_def by (intro heap_ok_ops slots_ok_heap [OF assms(1)])
  have "slots_ok base tmp h'"
    by (rule slots_ok_frame [OF assms(1) hok]) (metis assms(4) frame)
  then have "slots_ok base (tmp @ [n]) h'"
    using assms(3,4) by (intro slots_ok_snoc) (auto simp: h'_def heap_simps)
  moreover have "waiting base ss (tmp @ [n]) h'"
  proof (rule waiting_frame [OF assms(2)])
    show "sl_handle ` set ss \<inter> sl_handle ` set (tmp @ [n]) = {}"
      using waiting_disjoint [OF assms(2)] assms(5) by auto
    fix i assume "i \<in> sl_handle ` set ss" "i \<in> dom (descs h)"
    then show "i \<in> dom (descs h') \<and> location h' i = location h i" using assms(5) frame [of i] by metis
  qed
  ultimately show ?thesis by (simp add: h'_def heap_simps)
qed

lemma add_loop_rest:
  assumes "slots_ok base tmp h" "waiting base ss tmp h" "prev < index"
  shows "\<exists>h'. add_loop base prev sz ss index None tmp h = Ok (tmp @ ss, h')
    \<and> slots_ok base (tmp @ ss) h' \<and> next_id h' = next_id h \<and> (\<forall>i. strong_count h' i = strong_count h i)"
  using assms
proof (induction ss arbitrary: tmp h index)
  case Nil
  then show ?case by simp
next
  case (Cons s ss)
  note placed = place_slice [OF Cons.prems(1,2)]
  from Cons.IH [of "tmp @ [s]" "update_slice (sl_handle s) (of_nat (length tmp)) h" "Suc index"]
    placed Cons.prems(3)
  show ?case by (auto simp: Let_def)
qed

lemma add_loop_split:
  fixes sz :: nat
  assumes "slots_ok base tmp h" "waiting base ss tmp h" "index \<le> prev" "prev - index < length ss"
    "sl_handle n \<in> dom (descs h)" "sl_handle n \<notin> sl_handle ` set tmp" "sl_handle n \<notin> sl_handle ` set ss"
  defines "k \<equiv> prev - index"
  defines "out \<equiv> tmp @ take k ss
      @ [(ss ! k)\<lparr>sl_storage := (sl_storage (ss ! k))\<lparr>sh_size := sz\<rparr>\<rparr>, n] @ drop (Suc k) ss"
  shows "\<exists>h'. add_loop base prev sz ss index (Some n) tmp h = Ok (out, h')
    \<and> slots_ok base out h' \<and> next_id h' = next_id h \<and> (\<forall>i. strong_count h' i = strong_count h i)"
  using assms(1-7) unfolding out_def k_def
proof (induction ss arbitrary: tmp h index)
  case Nil
  then show ?case by simp
next
  case (Cons s ss)
  let ?h = "update_slice (sl_handle s) (of_nat (length tmp)) h"
  show ?case
  proof (cases "index = prev")
    case True
    let ?s = "s\<lparr>sl_storage := (sl_storage s)\<lparr>sh_size := sz\<rparr>\<rparr>"
    have "waiting base (?s # ss) tmp h" using Cons.prems(2) by (simp add: waiting_def)
    from place_slice [OF Cons.prems(1) this]
    have placed: "slots_ok base (tmp @ [?s]) ?h" "waiting base ss (tmp @ [?s]) ?h" "next_id ?h = next_id h"
      "\<forall>i. strong_count ?h i = strong_count h i" by simp_all
    let ?h2 = "update_location (sl_handle n) (base\<lparr>loc_slice := of_nat (length (tmp @ [?s]))\<rparr>) ?h"
    have nd: "sl_handle n \<in> dom (descs ?h)" using Cons.prems(5) by (simp add: heap_simps)
    have nt: "sl_handle n \<notin> sl_handle ` set (tmp @ [?s])" "sl_handle n \<notin> sl_handle ` set ss"
      using Cons.prems(6,7) by auto
    note new = place_located [OF placed(1,2) nd nt]
    from add_loop_rest [of base "tmp @ [?s, n]" ?h2 ss prev "Suc (Suc index)" sz] new placed(3,4) True
    show ?thesis by (auto simp: Let_def)
  next
    case False
    note placed = place_slice [OF Cons.prems(1,2)]
    from False Cons.prems(3) obtain k where k: "prev - index = Suc k" "prev - Suc index = k" "Suc index \<le> prev"
      by (metis Suc_diff_Suc le_neq_implies_less less_eq_Suc_le)
    have "sl_handle n \<in> dom (descs ?h)" using Cons.prems(5) by (simp add: heap_simps)
    with Cons.IH [of "tmp @ [s]" ?h "Suc index"] placed Cons.prems k False
    show ?thesis by (auto simp: Let_def)
  qed
qed

lemma laid_out_replace:
  assumes "laid_out lo hi (xs @ s # ys)"
    "\<And>lo. lo \<le> sh_offset (sl_storage s) \<Longrightarrow> laid_out lo (sh_offset (sl_storage s) + effective_size s) new"
  shows "laid_out lo hi (xs @ new @ ys)"
proof -
  have glue: "laid_out lo mid new \<Longrightarrow> laid_out mid hi ys \<Longrightarrow> laid_out lo hi (new @ ys)" for lo mid
  proof (induction new arbitrary: lo)
    case Nil
    then show ?case by (auto elim: laid_out_mono)
  qed simp
  from assms show ?thesis
    by (induction xs arbitrary: lo) (auto intro: glue)
qed

text \<open>The slices a reservation leaves: the reserved one, and what is left of the slice it split.\<close>

definition carved :: "memory_page \<Rightarrow> nat \<Rightarrow> slice \<Rightarrow> heap \<Rightarrow> slice list" where
  "carved p sz s h =
    (let padding = calculate_padding sz (pg_alignment p); effective = sz + padding;
         s' = s\<lparr>sl_storage := (sl_storage s)\<lparr>sh_size := sz\<rparr>, sl_padding := padding\<rparr> in
     if effective < sh_size (sl_storage s)
     then [s', fst (slice_new ((sl_storage s)\<lparr>sh_offset := sh_offset (sl_storage s) + effective,
                  sh_size := sh_size (sl_storage s) - effective\<rparr>) 0 h)]
     else [s'])"

lemma page_try_reserve_None:
  "position (can_use_slice h (sz + calculate_padding sz (pg_alignment p))) (pg_slices p) = None \<Longrightarrow>
    page_try_reserve sz p h = Ok (None, p, h)"
  by (simp add: page_try_reserve_def Let_def)

lemma page_try_reserve_Some:
  assumes ok: "page_ok p h"
    and pos: "position (can_use_slice h (sz + calculate_padding sz (pg_alignment p))) (pg_slices p) = Some k"
  defines "s \<equiv> pg_slices p ! k"
  shows "\<exists>p' h'. page_try_reserve sz p h = Ok (Some (sl_handle s), p', h')
    \<and> p' = p\<lparr>pg_slices := take k (pg_slices p) @ carved p sz s h @ drop (Suc k) (pg_slices p)\<rparr>
    \<and> slots_ok (pg_base p) (pg_slices p') h' \<and> next_id h \<le> next_id h'
    \<and> (\<forall>i. strong_count h' i =
         (if i = sl_handle s then 2
          else if i = next_id h \<and> sz + calculate_padding sz (pg_alignment p) < sh_size (sl_storage s) then 1
          else strong_count h i))"
proof -
  let ?ss = "pg_slices p"
  define pad where "pad = calculate_padding sz (pg_alignment p)"
  define s' where "s' = s\<lparr>sl_storage := (sl_storage s)\<lparr>sh_size := sz\<rparr>, sl_padding := pad\<rparr>"
  from position_Some [OF pos] have k: "k < length ?ss" "can_use_slice h (sz + pad) s"
    by (auto simp: s_def pad_def)
  have slots: "slots_ok (pg_base p) ?ss h" using ok by (simp add: page_ok_def)
  have sd: "sl_handle s \<in> dom (descs h)" using slots k(1) by (auto simp: slots_ok_def s_def)
  have one: "strong_count h (sl_handle s) = 1"
    using heap_ok_strong [OF slots_ok_heap [OF slots]] sd k(2)
    by (simp add: can_use_slice_def slice_is_free_def is_free_def le_Suc_eq)
  let ?h1 = "clone_handle (sl_handle s) h"
  have h1: "heap_ok ?h1" by (intro heap_ok_ops slots_ok_heap [OF slots])
  have sc1: "strong_count ?h1 i = (if i = sl_handle s then 2 else strong_count h i)" for i
    using one sd by (simp add: heap_simps)
  let ?ss1 = "?ss[k := s']"
  have hs: "map sl_handle ?ss1 = map sl_handle ?ss"
    using k(1) by (simp add: s'_def s_def map_update list_update_same_conv)
  then have hset: "sl_handle ` set ?ss1 = sl_handle ` set ?ss" by (metis image_set)
  have nthh: "sl_handle (?ss1 ! j) = sl_handle (?ss ! j)" if "j < length ?ss" for j
    using arg_cong [OF hs, of "\<lambda>xs. xs ! j"] that by simp
  have slots1: "slots_ok (pg_base p) ?ss1 ?h1"
    using slots h1 hs nthh by (auto simp: slots_ok_def heap_simps)
  have split_list: "?ss1 = take k ?ss @ s' # drop (Suc k) ?ss" using k(1) by (simp add: upd_conv_take_nth_drop)
  show ?thesis
  proof (cases "sz + pad < sh_size (sl_storage s)")
    case False
    then have "page_try_reserve sz p h = Ok (Some (sl_handle s), p\<lparr>pg_slices := ?ss1\<rparr>, ?h1)"
      using pos by (simp add: page_try_reserve_def Let_def s_def [symmetric] pad_def [symmetric] s'_def)
    moreover have "carved p sz s h = [s']" using False by (simp add: carved_def pad_def [symmetric] s'_def Let_def)
    ultimately show ?thesis
      using slots1 False sc1 split_list by (auto simp: pad_def [symmetric])
  next
    case True
    let ?st = "(sl_storage s)\<lparr>sh_offset := sh_offset (sl_storage s) + (sz + pad), sh_size := sh_size (sl_storage s) - (sz + pad)\<rparr>"
    obtain n h2 where n: "slice_new ?st 0 ?h1 = (n, h2)" by (cases "slice_new ?st 0 ?h1")
    then have n': "sl_handle n = next_id h" "h2 = snd (handle_new ?h1)" "n = fst (slice_new ?st 0 h)"
      by (auto simp: slice_new_def handle_new_def)
    have fresh: "next_id h \<notin> sl_handle ` set ?ss1"
      using slots_dom [OF slots] heap_ok_fresh [OF slots_ok_heap [OF slots]] hset by blast
    have frame: "i \<in> dom (descs h2) \<and> location h2 i = location ?h1 i" if "i \<in> dom (descs ?h1)" for i
      using that heap_ok_fresh [OF h1 that] by (simp add: n' heap_simps)
    have h2: "heap_ok h2" unfolding n' by (intro heap_ok_ops slots_ok_heap [OF slots])
    have slots2: "slots_ok (pg_base p) ?ss1 h2"
      by (rule slots_ok_frame [OF slots1 h2]) (rule frame)
    have "slots_ok (pg_base p) [] h2" using h2 by (simp add: slots_ok_def)
    moreover have "sl_handle n \<in> dom (descs h2)" by (simp add: n'(1,2) heap_simps)
    ultimately obtain h3 where
      h3: "add_loop (pg_base p) k sz ?ss1 0 (Some n) [] h2 = Ok (take k ?ss1
        @ [(?ss1 ! k)\<lparr>sl_storage := (sl_storage (?ss1 ! k))\<lparr>sh_size := sz\<rparr>\<rparr>, n] @ drop (Suc k) ?ss1, h3)"
      "slots_ok (pg_base p) (take k ?ss1
        @ [(?ss1 ! k)\<lparr>sl_storage := (sl_storage (?ss1 ! k))\<lparr>sh_size := sz\<rparr>\<rparr>, n] @ drop (Suc k) ?ss1) h3"
      "next_id h3 = next_id h2" "\<forall>i. strong_count h3 i = strong_count h2 i"
      using add_loop_split [of "pg_base p" "[]" h2 ?ss1 0 k n sz] slots_ok_waiting [OF slots2] k(1) fresh n'(1)
      by auto
    have out: "take k ?ss1 @ [(?ss1 ! k)\<lparr>sl_storage := (sl_storage (?ss1 ! k))\<lparr>sh_size := sz\<rparr>\<rparr>, n] @ drop (Suc k) ?ss1
        = take k ?ss @ [s', n] @ drop (Suc k) ?ss"
      using k(1) by (simp add: s'_def)
    have cv: "carved p sz s h = [s', n]" using True by (simp add: carved_def pad_def [symmetric] s'_def Let_def n'(3))
    have os: "offset_start (sl_storage s) (sz + pad) = Ok ?st"
      using True by (simp add: offset_start_def checked_sub_def)
    have "page_try_reserve sz p h = Ok (Some (sl_handle s), p\<lparr>pg_slices := take k ?ss @ [s', n] @ drop (Suc k) ?ss\<rparr>, h3)"
      using pos True os n h3(1) unfolding out
      by (simp add: page_try_reserve_def Let_def s_def [symmetric] pad_def [symmetric] s'_def [symmetric] add_new_slice_def)
    moreover have "strong_count h3 i = (if i = sl_handle s then 2 else if i = next_id h then 1 else strong_count h i)" for i
    proof -
      have "sl_handle s \<noteq> next_id h" using heap_ok_fresh [OF slots_ok_heap [OF slots] sd] by simp
      then show ?thesis using h3(4) sc1 [of i] by (auto simp: n'(2) strong_handle_new)
    qed
    moreover have "next_id h \<le> next_id h3" using h3(3) by (simp add: n')
    ultimately show ?thesis using h3(2) True unfolding out cv pad_def by auto
  qed
qed

lemma carved_layout:
  assumes "sz + calculate_padding sz (pg_alignment p) \<le> sh_size (sl_storage s)"
    "lo \<le> sh_offset (sl_storage s)"
  shows "laid_out lo (sh_offset (sl_storage s) + effective_size s) (carved p sz s h)"
  using assms by (auto simp: carved_def Let_def effective_size_def slice_new_def handle_new_def)

lemma carved_total:
  assumes "sz + calculate_padding sz (pg_alignment p) \<le> sh_size (sl_storage s)"
  shows "total_size (carved p sz s h) + sl_padding s = effective_size s"
  using assms by (auto simp: carved_def Let_def effective_size_def slice_new_def handle_new_def)

lemma carved_members:
  assumes "t \<in> set (carved p sz s h)" "0 < pg_alignment p" "pg_alignment p dvd sh_offset (sl_storage s)"
  shows "pg_alignment p dvd sh_offset (sl_storage t) \<and> sh_id (sl_storage t) = sh_id (sl_storage s)"
  using assms padding_dvd [OF assms(2), of sz]
  by (auto simp: carved_def Let_def slice_new_def handle_new_def split: if_splits)

definition reserved_part :: "memory_page \<Rightarrow> nat \<Rightarrow> slice \<Rightarrow> slice" where
  "reserved_part p sz s =
    s\<lparr>sl_storage := (sl_storage s)\<lparr>sh_size := sz\<rparr>, sl_padding := calculate_padding sz (pg_alignment p)\<rparr>"

lemma carved_head:
  "\<exists>rest. carved p sz s h = reserved_part p sz s # rest
    \<and> (\<forall>t \<in> set rest. sl_handle t = next_id h \<and> sz + calculate_padding sz (pg_alignment p) < sh_size (sl_storage s))"
  unfolding carved_def Let_def reserved_part_def by (auto simp: slice_new_def handle_new_def)

text \<open>Everything a successful reservation guarantees, on the page split around the slice it took.\<close>

lemma page_try_reserve_shown:
  assumes ok: "page_ok p h"
    and pos: "position (can_use_slice h (sz + calculate_padding sz (pg_alignment p))) (pg_slices p) = Some k"
  defines "s \<equiv> pg_slices p ! k"
  shows "\<exists>p' h' s' rest. page_try_reserve sz p h = Ok (Some (sl_handle s), p', h')
    \<and> page_ok p' h' \<and> next_id h \<le> next_id h'
    \<and> carved p sz s h = s' # rest \<and> sl_handle s' = sl_handle s
    \<and> sh_size (sl_storage s') = sz \<and> sl_padding s' = calculate_padding sz (pg_alignment p)
    \<and> sh_offset (sl_storage s') = sh_offset (sl_storage s)
    \<and> p' = p\<lparr>pg_slices := take k (pg_slices p) @ carved p sz s h @ drop (Suc k) (pg_slices p)\<rparr>
    \<and> live h p = filter (\<lambda>t. \<not> slice_is_free h t) (take k (pg_slices p))
        @ filter (\<lambda>t. \<not> slice_is_free h t) (drop (Suc k) (pg_slices p))
    \<and> live h' p' = filter (\<lambda>t. \<not> slice_is_free h t) (take k (pg_slices p))
        @ s' # filter (\<lambda>t. \<not> slice_is_free h t) (drop (Suc k) (pg_slices p))
    \<and> total_size (pg_slices p') + sl_padding s = total_size (pg_slices p)"
proof -
  let ?ss = "pg_slices p"
  let ?eff = "sz + calculate_padding sz (pg_alignment p)"
  from position_Some [OF pos] have k: "k < length ?ss" "?eff \<le> sh_size (sl_storage s)" "slice_is_free h s"
    by (auto simp: s_def can_use_slice_def)
  have ss: "?ss = take k ?ss @ s # drop (Suc k) ?ss" using k(1) by (simp add: s_def id_take_nth_drop)
  from page_try_reserve_Some [OF ok pos] obtain p' h' where
    r: "page_try_reserve sz p h = Ok (Some (sl_handle s), p', h')"
    "p' = p\<lparr>pg_slices := take k ?ss @ carved p sz s h @ drop (Suc k) ?ss\<rparr>"
    "slots_ok (pg_base p) (pg_slices p') h'" "next_id h \<le> next_id h'"
    "\<forall>i. strong_count h' i = (if i = sl_handle s then 2
       else if i = next_id h \<and> ?eff < sh_size (sl_storage s) then 1 else strong_count h i)"
    unfolding s_def by blast
  have lay: "page_layout p" and slots: "slots_ok (pg_base p) ?ss h" using ok by (auto simp: page_ok_def)
  have "laid_out 0 (page_size p) (take k ?ss @ carved p sz s h @ drop (Suc k) ?ss)"
    by (rule laid_out_replace [of _ _ _ s]) (use lay ss carved_layout [OF k(2)] in \<open>auto simp: page_layout_def\<close>)
  moreover have mem: "s \<in> set ?ss" using k(1) by (simp add: s_def)
  ultimately have "page_layout p'"
    using lay carved_members [of _ p sz s h]
    by (auto simp: r(2) page_layout_def page_size_def dest: in_set_takeD in_set_dropD)
  then have ok': "page_ok p' h'" using r(2,3) by (simp add: page_ok_def)
  have other: "sl_handle t \<noteq> sl_handle s \<and> sl_handle t \<noteq> next_id h"
    if "t \<in> set (take k ?ss) \<or> t \<in> set (drop (Suc k) ?ss)" for t
  proof -
    have "distinct (map sl_handle (take k ?ss @ s # drop (Suc k) ?ss))"
      using slots ss by (metis slots_ok_def)
    then have "sl_handle t \<noteq> sl_handle s" using that by (auto simp: image_iff)
    moreover have "t \<in> set ?ss" using that by (auto dest: in_set_takeD in_set_dropD)
    then have "sl_handle t < next_id h"
      using slots_dom [OF slots] heap_ok_fresh [OF slots_ok_heap [OF slots]] by blast
    ultimately show ?thesis by simp
  qed
  have same: "filter (\<lambda>t. \<not> slice_is_free h' t) xs = filter (\<lambda>t. \<not> slice_is_free h t) xs"
    if "set xs \<subseteq> set (take k ?ss) \<union> set (drop (Suc k) ?ss)" for xs
  proof (rule filter_cong [OF refl])
    fix t assume "t \<in> set xs"
    with that other [of t] have "sl_handle t \<noteq> sl_handle s" "sl_handle t \<noteq> next_id h" by auto
    then show "(\<not> slice_is_free h' t) = (\<not> slice_is_free h t)"
      using r(5) by (simp add: slice_is_free_def is_free_def)
  qed
  obtain s' rest where c: "carved p sz s h = s' # rest" "sl_handle s' = sl_handle s"
    "sh_size (sl_storage s') = sz" "sl_padding s' = calculate_padding sz (pg_alignment p)"
    "sh_offset (sl_storage s') = sh_offset (sl_storage s)"
    "\<forall>t \<in> set rest. sl_handle t = next_id h \<and> ?eff < sh_size (sl_storage s)"
    using carved_head [of p sz s h] by (auto simp: reserved_part_def)
  have "sl_handle s \<in> dom (descs h)" using subsetD [OF slots_dom [OF slots] imageI [OF mem]] .
  from heap_ok_fresh [OF slots_ok_heap [OF slots] this] have hne: "sl_handle s \<noteq> next_id h" by simp
  have carv: "filter (\<lambda>t. \<not> slice_is_free h' t) (s' # rest) = [s']"
    using c r(5) hne by (auto simp: slice_is_free_def is_free_def filter_empty_conv)
  have "live h' p' = filter (\<lambda>t. \<not> slice_is_free h t) (take k ?ss) @ s' # filter (\<lambda>t. \<not> slice_is_free h t) (drop (Suc k) ?ss)"
  proof -
    have "live h' p' = filter (\<lambda>t. \<not> slice_is_free h' t) (take k ?ss)
        @ filter (\<lambda>t. \<not> slice_is_free h' t) (s' # rest) @ filter (\<lambda>t. \<not> slice_is_free h' t) (drop (Suc k) ?ss)"
      by (simp add: live_def r(2) c(1))
    then show ?thesis unfolding carv using same [of "take k ?ss"] same [of "drop (Suc k) ?ss"] by simp
  qed
  moreover have "live h p = filter (\<lambda>t. \<not> slice_is_free h t) (take k ?ss) @ filter (\<lambda>t. \<not> slice_is_free h t) (drop (Suc k) ?ss)"
    unfolding live_def by (subst ss) (simp add: k(3))
  moreover have "total_size (pg_slices p') + sl_padding s = total_size ?ss"
    using carved_total [OF k(2), of h] arg_cong [OF ss, of total_size] by (simp add: r(2))
  ultimately show ?thesis using r(1,2,4) ok' c by blast
qed

lemma laid_out_filter: "laid_out lo hi ss \<Longrightarrow> laid_out lo hi (filter P ss)"
proof (induction ss arbitrary: lo)
  case (Cons s ss)
  show ?case
  proof (cases "P s")
    case True
    with Cons show ?thesis by simp
  next
    case False
    with Cons.IH [of "sh_offset (sl_storage s) + effective_size s"] Cons.prems show ?thesis
      by (auto elim: laid_out_mono)
  qed
qed simp

text \<open>One slice ends before the other starts.\<close>

definition before :: "slice \<Rightarrow> slice \<Rightarrow> bool" where
  "before s t \<longleftrightarrow> sh_offset (sl_storage s) + effective_size s \<le> sh_offset (sl_storage t)"

lemma laid_out_sorted: "laid_out lo hi ss \<Longrightarrow> sorted_wrt before ss"
proof (induction ss arbitrary: lo)
  case (Cons s ss)
  then show ?case using laid_out_ends [of "sh_offset (sl_storage s) + effective_size s" hi ss]
    by (auto simp: before_def)
qed simp

lemma page_ok_live:
  assumes "page_ok p h"
  shows "sorted_wrt before (live h p)
    \<and> (\<forall>s \<in> set (live h p). sh_offset (sl_storage s) + effective_size s \<le> page_size p
        \<and> pg_alignment p dvd sh_offset (sl_storage s) \<and> sh_id (sl_storage s) = sh_id (pg_storage p))"
proof -
  have "laid_out 0 (page_size p) (live h p)"
    using assms unfolding page_ok_def page_layout_def live_def by (blast intro: laid_out_filter)
  from laid_out_sorted [OF this] laid_out_ends [OF this] show ?thesis
    using assms by (auto simp: page_ok_def page_layout_def live_def)
qed

text \<open>Reserving is safe and exact: on a well-formed page \<open>try_reserve\<close> never panics. It returns
  nothing, and changes nothing, exactly when no free slice is as large as the padded request;
  otherwise the page stays well formed, the live slices are the old ones and one more, of the
  requested size, aligned, padded to a multiple of the alignment, and live slices do not overlap.\<close>

theorem page_reserve_sound:
  fixes sz :: nat
  assumes "page_ok p h"
  defines "effective \<equiv> sz + calculate_padding sz (pg_alignment p)"
  shows "if list_ex (can_use_slice h effective) (pg_slices p)
    then \<exists>i p' h' xs s ys. page_try_reserve sz p h = Ok (Some i, p', h') \<and> page_ok p' h'
      \<and> live h p = xs @ ys \<and> live h' p' = xs @ s # ys \<and> sl_handle s = i
      \<and> sh_size (sl_storage s) = sz \<and> effective_size s = effective
      \<and> pg_alignment p dvd effective \<and> pg_alignment p dvd sh_offset (sl_storage s)
      \<and> sorted_wrt before (live h' p')
    else page_try_reserve sz p h = Ok (None, p, h)"
proof (cases "position (can_use_slice h effective) (pg_slices p)")
  case None
  then have "\<not> list_ex (can_use_slice h effective) (pg_slices p)" by (simp add: position_None list_ex_iff)
  then show ?thesis using None page_try_reserve_None [of h sz p] unfolding effective_def by simp
next
  case (Some k)
  from position_Some [OF Some] have ex: "list_ex (can_use_slice h effective) (pg_slices p)"
    by (auto simp: list_ex_iff intro: nth_mem)
  have al: "0 < pg_alignment p" using assms(1) by (simp add: page_ok_def page_layout_def)
  from page_try_reserve_shown [OF assms(1) Some [unfolded effective_def]] obtain p' h' s' rest where
    r: "page_try_reserve sz p h = Ok (Some (sl_handle (pg_slices p ! k)), p', h')" "page_ok p' h'"
    "sl_handle s' = sl_handle (pg_slices p ! k)" "sh_size (sl_storage s') = sz"
    "sl_padding s' = calculate_padding sz (pg_alignment p)"
    "p' = p\<lparr>pg_slices := take k (pg_slices p) @ carved p sz (pg_slices p ! k) h @ drop (Suc k) (pg_slices p)\<rparr>"
    "live h p = filter (\<lambda>t. \<not> slice_is_free h t) (take k (pg_slices p))
        @ filter (\<lambda>t. \<not> slice_is_free h t) (drop (Suc k) (pg_slices p))"
    "live h' p' = filter (\<lambda>t. \<not> slice_is_free h t) (take k (pg_slices p))
        @ s' # filter (\<lambda>t. \<not> slice_is_free h t) (drop (Suc k) (pg_slices p))"
    by blast
  have lv: "s' \<in> set (live h' p')" by (simp add: r(8))
  have lay: "pg_alignment p dvd sh_offset (sl_storage s')" "sorted_wrt before (live h' p')"
  proof -
    have same: "pg_alignment p' = pg_alignment p" by (simp add: r(6))
    show "pg_alignment p dvd sh_offset (sl_storage s')" "sorted_wrt before (live h' p')"
      using page_ok_live [OF r(2)] lv unfolding same by blast+
  qed
  have eff: "effective_size s' = effective" "pg_alignment p dvd effective"
    using r(4,5) padding_dvd [OF al] by (simp_all add: effective_size_def effective_def)
  show ?thesis
    unfolding if_P [OF ex]
    by (rule exI [of _ "sl_handle (pg_slices p ! k)"], rule exI [of _ p'], rule exI [of _ h'],
        rule exI [of _ "filter (\<lambda>t. \<not> slice_is_free h t) (take k (pg_slices p))"],
        rule exI [of _ s'],
        rule exI [of _ "filter (\<lambda>t. \<not> slice_is_free h t) (drop (Suc k) (pg_slices p))"])
      (intro conjI; rule r(1) r(2) r(3) r(4) r(7) r(8) lay eff)
qed

text \<open>Coalescing merges exactly the free memory: on a well-formed page it keeps every live
  slice as it is and in order, leaves no two adjacent free slices, keeps the bytes the slices
  account for, and keeps the page well formed, each handle locating its own slice again.\<close>

theorem coalesce_merges_free:
  assumes "page_ok p h" "coalesce p h g = (p', h', g')"
  shows "page_ok p' h' \<and> live h' p' = live h p \<and> no_adjacent (slice_is_free h') (pg_slices p')
    \<and> total_size (pg_slices p') = total_size (pg_slices p)"
  using coalesce_shown [OF assms] by blast

text \<open>A reservation loses the padding of the slice it reuses: after a successful
  \<open>try_reserve\<close> the slices of the page account for exactly the padding of the reused free slice
  less than before, so those bytes belong to no slice any more.\<close>

theorem reserve_loses_padding:
  assumes "page_ok p h" "page_try_reserve sz p h = Ok (Some i, p', h')"
  shows "\<exists>s \<in> set (pg_slices p). sl_handle s = i \<and> slice_is_free h s
    \<and> total_size (pg_slices p') + sl_padding s = total_size (pg_slices p)"
proof (cases "position (can_use_slice h (sz + calculate_padding sz (pg_alignment p))) (pg_slices p)")
  case None
  with assms page_try_reserve_None [OF None] show ?thesis by simp
next
  case (Some k)
  from position_Some [OF Some] have k: "k < length (pg_slices p)" "slice_is_free h (pg_slices p ! k)"
    by (auto simp: can_use_slice_def)
  from page_try_reserve_shown [OF assms(1) Some] assms(2)
  have "i = sl_handle (pg_slices p ! k)"
    "total_size (pg_slices p') + sl_padding (pg_slices p ! k) = total_size (pg_slices p)" by auto
  with k show ?thesis by (auto intro!: bexI [of _ "pg_slices p ! k"])
qed

section \<open>Runs of a page\<close>

lemma location_drop_shared [heap_simps]:
  "1 < strong_count h i \<Longrightarrow> location (drop_handle i h) j = location h j"
  "1 < strong_count h i \<Longrightarrow> location (drop_binding i h) j = location h j"
  "1 < strong_count h i \<Longrightarrow> dom (descs (drop_binding i h)) = dom (descs h)"
  by (auto simp: heap_op_defs desc_defs dom_def split: option.splits if_splits)

lemma slot_index:
  assumes "slots_ok base ss h" "k < length ss" "length ss \<le> 2 ^ 32"
  shows "slice_index h (sl_handle (ss ! k)) = k"
proof -
  from assms(2,3) have "k < 2 ^ 32" by linarith
  then have "unat (of_nat k :: 32 word) = k" by (simp add: unat_of_nat take_bit_nat_eq_self)
  with assms(1,2) show ?thesis by (simp add: slots_ok_def slice_index_def)
qed

lemma page_bind_shown:
  fixes c :: nat
  assumes ok: "page_ok p h" and k: "k < length (pg_slices p)" "length (pg_slices p) \<le> 2 ^ 32"
    and new: "new \<in> dom (descs h)" "new \<notin> sl_handle ` set (pg_slices p)"
  defines "i \<equiv> sl_handle (pg_slices p ! k)"
  defines "s' \<equiv> (pg_slices p ! k)\<lparr>sl_cursor := c, sl_tainted := [], sl_handle := new\<rparr>"
  shows "\<exists>h' g'. page_bind i new c p h g = Ok (p\<lparr>pg_slices := (pg_slices p)[k := s']\<rparr>, h', g')
    \<and> page_ok (p\<lparr>pg_slices := (pg_slices p)[k := s']\<rparr>) h'"
proof -
  let ?ss = "pg_slices p"
  have slots: "slots_ok (pg_base p) ?ss h" using ok by (simp add: page_ok_def)
  let ?h' = "drop_handle i (drop_handle i (update_location new (location h i) h))"
  have bind: "page_bind i new c p h g = Ok (p\<lparr>pg_slices := ?ss[k := s']\<rparr>, ?h', snd (clear (sl_tainted (?ss ! k)) g))"
    using slot_index [OF slots k] k(1)
    by (simp add: page_bind_def Let_def i_def s'_def slice_bind_def clear_def split: prod.splits)
  have hok: "heap_ok ?h'" by (intro heap_ok_ops slots_ok_heap [OF slots])
  have dist: "distinct (map sl_handle ?ss)" using slots by (simp add: slots_ok_def)
  have inew: "new \<noteq> i" using new(2) k(1) by (auto simp: i_def)
  have "slots_ok (pg_base p) (?ss[k := s']) ?h'"
    unfolding slots_ok_def
  proof (intro conjI allI impI hok)
    have "map sl_handle (?ss[k := s']) = (map sl_handle ?ss)[k := new]" by (simp add: map_update s'_def)
    moreover have "new \<notin> set (map sl_handle ?ss)" using new(2) by simp
    ultimately show "distinct (map sl_handle (?ss[k := s']))"
      using distinct_list_update [OF dist, of new k] by auto
  next
    fix j assume "j < length (?ss[k := s'])"
    then have j: "j < length ?ss" by simp
    have "sl_handle (?ss[k := s'] ! j) = (if j = k then new else sl_handle (?ss ! j))"
      using j by (simp add: s'_def nth_list_update)
    moreover have "sl_handle (?ss ! j) \<noteq> i \<and> sl_handle (?ss ! j) \<noteq> new" if "j \<noteq> k"
      using that dist j k(1) new(2) by (auto simp: i_def nth_eq_iff_index_eq distinct_conv_nth)
    ultimately show "sl_handle (?ss[k := s'] ! j) \<in> dom (descs ?h')"
      "location ?h' (sl_handle (?ss[k := s'] ! j)) = (pg_base p)\<lparr>loc_slice := of_nat j\<rparr>"
      using slots j k(1) new(1) inew
      by (auto simp: slots_ok_def heap_simps i_def)
  qed
  moreover have "page_layout (p\<lparr>pg_slices := ?ss[k := s']\<rparr>)"
  proof -
    have ss: "?ss = take k ?ss @ ?ss ! k # drop (Suc k) ?ss" using k(1) by (simp add: id_take_nth_drop)
    have upd: "?ss[k := s'] = take k ?ss @ [s'] @ drop (Suc k) ?ss" using k(1) by (simp add: upd_conv_take_nth_drop)
    have same: "sl_storage s' = sl_storage (?ss ! k)" "effective_size s' = effective_size (?ss ! k)"
      by (simp_all add: s'_def effective_size_def)
    have "laid_out 0 (page_size p) (?ss[k := s'])"
      unfolding upd by (rule laid_out_replace [of _ _ _ "?ss ! k"])
        (use ok ss same in \<open>auto simp: page_ok_def page_layout_def\<close>)
    with ok k(1) same show ?thesis
      by (auto simp: page_ok_def page_layout_def page_size_def dest!: set_update_subset_insert [THEN subsetD])
  qed
  ultimately show ?thesis using bind by (auto simp: page_ok_def)
qed

lemma update_page_fold:
  fixes n :: "16 word"
  assumes "heap_ok h" "distinct (map sl_handle ss)" "sl_handle ` set ss \<subseteq> dom (descs h)"
  defines "h' \<equiv> fold (\<lambda>s. update_page (sl_handle s) n) ss h"
  shows "heap_ok h' \<and> dom (descs h') = dom (descs h) \<and> next_id h' = next_id h
    \<and> (\<forall>i. strong_count h' i = strong_count h i)
    \<and> (\<forall>i. location h' i = (if i \<in> sl_handle ` set ss then (location h i)\<lparr>loc_page := n\<rparr> else location h i))"
  using assms(1-3) unfolding h'_def
proof (induction ss arbitrary: h)
  case (Cons s ss)
  let ?h = "update_page (sl_handle s) n h"
  have "heap_ok ?h" "sl_handle ` set ss \<subseteq> dom (descs ?h)" "distinct (map sl_handle ss)"
    using Cons.prems by (auto simp: heap_simps heap_ok_ops)
  from Cons.IH [OF this(1,3,2)] show ?case
    using Cons.prems by (auto simp: heap_simps image_iff)
qed simp

inductive page_run :: "memory_page \<Rightarrow> heap \<Rightarrow> error_graph \<Rightarrow> bool" where
  new: "heap_ok h \<Longrightarrow> 0 < alignment \<Longrightarrow> sh_offset st = 0 \<Longrightarrow>
    page_new st alignment base mapping h = (p, h') \<Longrightarrow> page_run p h' g"
| reserve: "page_run p h g \<Longrightarrow> page_try_reserve sz p h = Ok (r, p', h') \<Longrightarrow> page_run p' h' g"
| coalesce: "page_run p h g \<Longrightarrow> coalesce p h g = (p', h', g') \<Longrightarrow> page_run p' h' g'"
| bind: "page_run p h g \<Longrightarrow> s \<in> set (pg_slices p) \<Longrightarrow> length (pg_slices p) \<le> 2 ^ 32 \<Longrightarrow>
    i \<in> dom (descs h) \<Longrightarrow> i \<notin> sl_handle ` set (pg_slices p) \<Longrightarrow>
    page_bind (sl_handle s) i c p h g = Ok (p', h', g') \<Longrightarrow> page_run p' h' g'"
| shed: "page_run p h g \<Longrightarrow> shed p g = (p', g') \<Longrightarrow> page_run p' h g'"
| rebind: "page_run p h g \<Longrightarrow> page_run (rebind_storage i p) h g"
| renumber: "page_run p h g \<Longrightarrow> page_update_page n p h = (p', h') \<Longrightarrow> page_run p' h' g"
| guard: "page_run p h g \<Longrightarrow> page_run (page_guard p) h g"
| unguard: "page_run p h g \<Longrightarrow> page_run (guard_drop p) h g"
| fails: "page_run p h g \<Longrightarrow> page_run p h g'"
| user_new: "page_run p h g \<Longrightarrow> page_run p (snd (handle_new h)) g"
| user_clone: "page_run p h g \<Longrightarrow> page_run p (clone_handle i h) g"
| user_binding: "page_run p h g \<Longrightarrow> page_run p (binding i h) g"
| user_clone_binding: "page_run p h g \<Longrightarrow> page_run p (clone_binding i h) g"
| user_drop: "page_run p h g \<Longrightarrow> \<not> is_free h i \<Longrightarrow> page_run p (drop_handle i h) g"
| user_drop_binding: "page_run p h g \<Longrightarrow> \<not> is_free h i \<Longrightarrow> is_bound h i \<Longrightarrow> page_run p (drop_binding i h) g"

lemma page_ok_heap:
  assumes "page_ok p h" "heap_ok h'"
    "\<And>i. i \<in> dom (descs h) \<Longrightarrow> i \<in> dom (descs h') \<and> location h' i = location h i"
  shows "page_ok p h'"
  using assms slots_ok_frame [of "pg_base p" "pg_slices p" h h'] by (auto simp: page_ok_def)

lemma shed_slices_same:
  "shed_slices ss g = (ss', g') \<Longrightarrow> map sl_handle ss' = map sl_handle ss \<and> map sl_storage ss' = map sl_storage ss
    \<and> map sl_padding ss' = map sl_padding ss"
proof (induction ss arbitrary: ss' g g')
  case (Cons s ss)
  obtain t g1 where c: "clear (sl_tainted s) g = (t, g1)" by (cases "clear (sl_tainted s) g")
  obtain ts g2 where r: "shed_slices ss g1 = (ts, g2)" by (cases "shed_slices ss g1")
  from Cons.prems c r have "ss' = s\<lparr>sl_tainted := t\<rparr> # ts" by simp
  with Cons.IH [OF r] show ?case by simp
qed simp

lemma laid_out_cong:
  "map sl_storage ss' = map sl_storage ss \<Longrightarrow> map sl_padding ss' = map sl_padding ss \<Longrightarrow>
    laid_out lo hi ss' = laid_out lo hi ss"
proof (induction ss arbitrary: ss' lo)
  case (Cons s ss)
  then obtain t ts where ts: "ss' = t # ts" by (cases ss') auto
  with Cons.prems have "sl_storage t = sl_storage s" "effective_size t = effective_size s"
    "map sl_storage ts = map sl_storage ss" "map sl_padding ts = map sl_padding ss"
    by (simp_all add: effective_size_def)
  then show ?case unfolding ts laid_out.simps using Cons.IH [of ts] by metis
qed simp

lemma slots_ok_cong: "map sl_handle ss' = map sl_handle ss \<Longrightarrow> slots_ok base ss' h = slots_ok base ss h"
proof -
  assume eq: "map sl_handle ss' = map sl_handle ss"
  then have "length ss' = length ss" by (metis length_map)
  moreover have "sl_handle (ss' ! k) = sl_handle (ss ! k)" if "k < length ss" for k
    using arg_cong [OF eq, of "\<lambda>xs. xs ! k"] that \<open>length ss' = length ss\<close> by simp
  ultimately show ?thesis using eq by (simp add: slots_ok_def)
qed

lemma page_layout_cong:
  assumes "page_layout p" "map sl_storage ss = map sl_storage (pg_slices p)"
    "map sl_padding ss = map sl_padding (pg_slices p)"
  shows "page_layout (p\<lparr>pg_slices := ss\<rparr>)"
proof -
  have "sl_storage ` set ss = sl_storage ` set (pg_slices p)" using assms(2) by (metis image_set)
  then have "sl_storage s \<in> sl_storage ` set (pg_slices p)" if "s \<in> set ss" for s using that by blast
  then have "\<exists>t \<in> set (pg_slices p). sl_storage s = sl_storage t" if "s \<in> set ss" for s
    using that by blast
  then have "\<forall>s \<in> set ss. pg_alignment p dvd sh_offset (sl_storage s) \<and> sh_id (sl_storage s) = sh_id (pg_storage p)"
    using assms(1) unfolding page_layout_def by metis
  then show ?thesis
    using assms(1) laid_out_cong [OF assms(2,3)] unfolding page_layout_def page_size_def by simp
qed

lemma page_new_ok:
  assumes "heap_ok h" "0 < alignment" "sh_offset st = 0" "page_new st alignment base mapping h = (p, h')"
  shows "page_ok p h'"
proof -
  let ?h1 = "snd (handle_new h)"
  have p: "pg_slices p = [\<lparr>sl_storage = st, sl_handle = next_id h, sl_padding = 0, sl_cursor = 0,
      sl_mapped = True, sl_tainted = []\<rparr>]" "pg_base p = base" "pg_storage p = st" "pg_alignment p = alignment"
    "h' = update_location (next_id h) (base\<lparr>loc_slice := 0\<rparr>) ?h1"
    using assms(4) by (auto simp: page_new_def slice_new_def handle_new_def Let_def)
  have "heap_ok h'" unfolding p(5) by (intro heap_ok_ops assms(1))
  then show ?thesis
    using assms(2,3) by (simp add: page_ok_def page_layout_def slots_ok_def p page_size_def effective_size_def heap_simps)
qed

lemma rebind_ok:
  assumes "page_ok p h"
  shows "page_ok (rebind_storage i p) h"
proof -
  let ?f = "\<lambda>s. s\<lparr>sl_storage := (sl_storage s)\<lparr>sh_id := i\<rparr>\<rparr>"
  have lay: "laid_out lo hi (map ?f ss) = laid_out lo hi ss" for lo hi ss
    by (induction ss arbitrary: lo) (simp_all add: effective_size_def)
  have "slots_ok (pg_base p) (map ?f (pg_slices p)) h"
    using assms slots_ok_cong [of "map ?f (pg_slices p)" "pg_slices p"] by (simp add: page_ok_def comp_def)
  with assms lay show ?thesis
    by (auto simp: page_ok_def page_layout_def rebind_storage_def page_size_def)
qed

lemma update_page_shown:
  assumes "page_ok p h" "page_update_page n p h = (p', h')"
  shows "page_ok p' h' \<and> (\<forall>i. strong_count h' i = strong_count h i)
    \<and> p' = p\<lparr>pg_base := (pg_base p)\<lparr>loc_page := n\<rparr>\<rparr>"
proof -
  have slots: "slots_ok (pg_base p) (pg_slices p) h" using assms(1) by (simp add: page_ok_def)
  have p': "p' = p\<lparr>pg_base := (pg_base p)\<lparr>loc_page := n\<rparr>\<rparr>" "h' = fold (\<lambda>s. update_page (sl_handle s) n) (pg_slices p) h"
    using assms(2) by (auto simp: page_update_page_def)
  have "distinct (map sl_handle (pg_slices p))" using slots by (simp add: slots_ok_def)
  note u = update_page_fold [OF slots_ok_heap [OF slots] this slots_dom [OF slots], of n]
  have "slots_ok (pg_base p') (pg_slices p') h'"
    using slots u unfolding p' slots_ok_def by simp
  with assms(1) u show ?thesis by (simp add: page_ok_def page_layout_def p' page_size_def)
qed

lemmas update_page_ok = update_page_shown [THEN conjunct1]

lemma page_run_ok: "page_run p h g \<Longrightarrow> page_ok p h"
proof (induction rule: page_run.induct)
  case (new h alignment st base mapping p h' g)
  then show ?case by (rule page_new_ok)
next
  case (reserve p h g sz r p' h')
  show ?case
  proof (cases "position (can_use_slice h (sz + calculate_padding sz (pg_alignment p))) (pg_slices p)")
    case None
    with reserve page_try_reserve_None [OF None] show ?thesis by simp
  next
    case (Some k)
    from page_try_reserve_shown [OF reserve.IH Some] reserve.hyps(2) show ?thesis by auto
  qed
next
  case (coalesce p h g p' h' g')
  then show ?case using coalesce_shown by blast
next
  case (bind p h g s i c p' h' g')
  then obtain k where k: "k < length (pg_slices p)" "s = pg_slices p ! k" by (auto simp: in_set_conv_nth)
  from page_bind_shown [OF bind.IH k(1) bind.hyps(3-5), of c g] bind.hyps(6) k(2) show ?case by auto
next
  case (shed p h g p' g')
  then obtain ss where ss: "shed_slices (pg_slices p) g = (ss, g')" "p' = p\<lparr>pg_slices := ss\<rparr>"
    by (auto simp: shed_def split: prod.splits)
  note same = shed_slices_same [OF ss(1)]
  have "page_layout p'" unfolding ss(2) by (rule page_layout_cong) (use shed.IH same in \<open>simp_all add: page_ok_def\<close>)
  moreover have "slots_ok (pg_base p) ss h" using shed.IH same slots_ok_cong [of ss "pg_slices p"] by (simp add: page_ok_def)
  ultimately show ?case by (simp add: page_ok_def ss(2))
next
  case (rebind p h g i)
  then show ?case using rebind_ok by blast
next
  case (renumber p h g n p' h')
  then show ?case using update_page_ok by blast
next
  case (guard p h g)
  then show ?case by (simp add: page_ok_def page_layout_def page_guard_def page_size_def)
next
  case (unguard p h g)
  then show ?case by (simp add: page_ok_def page_layout_def guard_drop_def page_size_def)
next
  case (user_new p h g)
  have hok: "heap_ok h" using user_new.IH by (simp add: page_ok_def slots_ok_def)
  show ?case
    by (rule page_ok_heap [OF user_new.IH]) (use hok heap_ok_fresh [OF hok] in \<open>auto simp: heap_simps heap_ok_ops\<close>)
qed (auto intro!: page_ok_heap simp: heap_simps heap_ok_ops page_ok_def slots_ok_def is_free_def not_le)

text \<open>A page never hands out overlapping memory: in every run of a page, with reservations,
  coalescing, binds, renumbering, guards and owners cloning and dropping their handles in any
  order, the slices with an owner are disjoint, aligned and inside the page, and every handle of
  the page finds its own slice.\<close>

theorem page_run_safe:
  assumes "page_run p h g"
  shows "sorted_wrt before (live h p)
    \<and> (\<forall>s \<in> set (live h p). sh_offset (sl_storage s) + effective_size s \<le> page_size p
        \<and> pg_alignment p dvd sh_offset (sl_storage s) \<and> sh_id (sl_storage s) = sh_id (pg_storage p))
    \<and> (length (pg_slices p) \<le> 2 ^ 32 \<longrightarrow>
        (\<forall>s \<in> set (pg_slices p). page_find (sl_handle s) p h = Ok s))"
proof -
  note ok = page_run_ok [OF assms]
  have "page_find (sl_handle s) p h = Ok s" if "length (pg_slices p) \<le> 2 ^ 32" "s \<in> set (pg_slices p)" for s
  proof -
    from that(2) obtain k where k: "k < length (pg_slices p)" "s = pg_slices p ! k" by (auto simp: in_set_conv_nth)
    have "slice_index h (sl_handle s) = k"
      unfolding k(2) using ok slot_index [OF _ k(1) that(1)] unfolding page_ok_def by blast
    with k show ?thesis by (simp add: page_find_def Let_def)
  qed
  with page_ok_live [OF ok] show ?thesis by blast
qed

section \<open>A small page\<close>

definition small_handle :: storage_handle where
  "small_handle = \<lparr>sh_id = 7, sh_offset = 0, sh_size = 256\<rparr>"

definition sample_page :: "memory_page \<times> heap" where
  "sample_page = page_new small_handle 32 (location_new 1 2 0) Eager heap_empty"

text \<open>The page after reserving 100 bytes, and after the owner dropped them.\<close>

definition small_reserved :: "handle option \<times> memory_page \<times> heap" where
  "small_reserved = (case page_try_reserve 100 (fst sample_page) (snd sample_page) of
     Ok r \<Rightarrow> r | _ \<Rightarrow> (None, sample_page))"

definition small_freed :: heap where
  "small_freed = drop_handle 0 (snd (snd small_reserved))"

lemmas small_defs = sample_page_def page_new_def slice_new_def handle_new_def small_handle_def heap_empty_def
  small_reserved_def page_try_reserve_def can_use_slice_def slice_is_free_def is_free_def strong_count_def
  update_location_def modify_def clone_handle_def calculate_padding_def offset_start_def checked_sub_def
  add_new_slice_def update_slice_def

lemma small_run: "page_run (fst sample_page) (snd sample_page) graph_default"
proof -
  have "heap_ok heap_empty" by (simp add: heap_ok_def heap_empty_def)
  moreover have "page_new small_handle 32 (location_new 1 2 0) Eager heap_empty = (fst sample_page, snd sample_page)"
    by (simp add: sample_page_def)
  ultimately show ?thesis by (intro page_run.new) (simp_all add: small_handle_def)
qed

lemma small_reserve: "page_try_reserve 100 (fst sample_page) (snd sample_page)
    = Ok (Some 0, fst (snd small_reserved), snd (snd small_reserved))"
  by (simp add: small_defs)

lemma small_reserved_run: "page_run (fst (snd small_reserved)) (snd (snd small_reserved)) graph_default"
  by (rule page_run.reserve [OF small_run small_reserve])

lemma small_freed_run: "page_run (fst (snd small_reserved)) small_freed graph_default"
  unfolding small_freed_def
  by (rule page_run.user_drop [OF small_reserved_run]) (simp add: small_defs)

theorem page_run_safe_witness:
  "sorted_wrt before (live (snd (snd small_reserved)) (fst (snd small_reserved)))
   \<and> map (\<lambda>s. (sh_offset (sl_storage s), sh_size (sl_storage s), sl_padding s)) (pg_slices (fst (snd small_reserved)))
     = [(0, 100, 28), (128, 128, 0)]"
  using page_run_safe [OF small_reserved_run] by (simp add: small_defs)

theorem page_reserve_sound_witness:
  "\<exists>i p' h'. page_try_reserve 100 (fst sample_page) (snd sample_page) = Ok (Some i, p', h') \<and> page_ok p' h'"
proof -
  have "list_ex (can_use_slice (snd sample_page) (100 + calculate_padding 100 (pg_alignment (fst sample_page))))
      (pg_slices (fst sample_page))"
    by (simp add: small_defs)
  with page_reserve_sound [OF page_run_ok [OF small_run], of 100] show ?thesis by auto
qed

theorem coalesce_merges_free_witness:
  "case coalesce (fst (snd small_reserved)) small_freed graph_default of
     (p', h', g') \<Rightarrow> total_size (pg_slices p') = 256 \<and> no_adjacent (slice_is_free h') (pg_slices p')"
proof -
  obtain p' h' g' where c: "coalesce (fst (snd small_reserved)) small_freed graph_default = (p', h', g')"
    by (cases "coalesce (fst (snd small_reserved)) small_freed graph_default")
  have "total_size (pg_slices (fst (snd small_reserved))) = 256" by (simp add: small_defs effective_size_def)
  with coalesce_merges_free [OF page_run_ok [OF small_freed_run] c] c show ?thesis by simp
qed

text \<open>Reserving 96 bytes on the freed slice of 100 bytes and 28 of padding: 28 of the 256 bytes of
  the page are then in no slice.\<close>

theorem reserve_loses_padding_witness:
  "\<exists>p' h'. page_try_reserve 96 (fst (snd small_reserved)) small_freed = Ok (Some 0, p', h')
    \<and> total_size (pg_slices p') = 228 \<and> page_size p' = 256"
proof -
  obtain p' h' where r: "page_try_reserve 96 (fst (snd small_reserved)) small_freed = Ok (Some 0, p', h')"
    "page_size p' = 256"
    by (simp add: small_defs small_freed_def drop_handle_def page_size_def)
  have "total_size (pg_slices (fst (snd small_reserved))) = 256"
    "\<forall>s \<in> set (pg_slices (fst (snd small_reserved))). sl_handle s = 0 \<longrightarrow> sl_padding s = 28"
    by (simp_all add: small_defs effective_size_def)
  with reserve_loses_padding [OF page_run_ok [OF small_freed_run] r(1)] r show ?thesis by auto
qed

section \<open>Framing: what the operations of a page leave alone\<close>

text \<open>The descriptors of handles that are neither the page's nor fresh.\<close>

definition frames :: "handle set \<Rightarrow> heap \<Rightarrow> heap \<Rightarrow> bool" where
  "frames hs h h' \<longleftrightarrow> next_id h \<le> next_id h' \<and> (\<forall>i. i < next_id h \<longrightarrow> i \<notin> hs \<longrightarrow> descs h' i = descs h i)"

lemma frames_refl [simp]: "frames hs h h"
  by (simp add: frames_def)

lemma frames_trans: "frames hs h h' \<Longrightarrow> frames hs h' h'' \<Longrightarrow> frames hs h h''"
  by (auto simp: frames_def)

lemma frames_weaken: "frames hs h h' \<Longrightarrow> hs \<subseteq> hs' \<Longrightarrow> frames hs' h h'"
  by (auto simp: frames_def)

lemma frames_modify: "i \<in> hs \<or> next_id h \<le> i \<Longrightarrow> frames hs h (modify i f h)"
  by (auto simp: frames_def descs_modify)

lemma frames_ops:
  assumes "i \<in> hs \<or> next_id h \<le> i"
  shows "frames hs h (update_slice i x h)" "frames hs h (update_location i l h)" "frames hs h (drop_handle i h)"
    "frames hs h (clone_handle i h)" "frames hs h (update_page i n h)"
  unfolding heap_op_defs by (rule frames_modify [OF assms])+

lemma frames_handle_new: "frames hs h (snd (handle_new h))"
  by (auto simp: frames_def)

text \<open>Later handles count as fresh for an earlier heap.\<close>

lemma frames_later:
  assumes "frames hs h h'" "frames (hs \<union> {j. next_id h \<le> j}) h' h''"
  shows "frames hs h h''"
  using assms by (auto simp: frames_def not_le)

lemma frames_heap: "frames hs h h' \<Longrightarrow> i \<in> dom (descs h) \<Longrightarrow> heap_ok h \<Longrightarrow> i \<notin> hs \<Longrightarrow>
    i \<in> dom (descs h') \<and> location h' i = location h i \<and> strong_count h' i = strong_count h i"
  using heap_ok_fresh [of h i] by (auto simp: frames_def location_def strong_count_def dom_def)

lemma join_state_frame:
  "join_state ss (h, g) = (h', g') \<Longrightarrow> frames (sl_handle ` set ss) h h' \<and> next_id h' = next_id h"
proof (induction ss arbitrary: h g)
  case (Cons s ss)
  let ?h = "drop_handle (sl_handle s) h"
  have "join_state ss (?h, snd (clear (sl_tainted s) g)) = (h', g')"
    using Cons.prems by (simp add: join_state_def)
  from Cons.IH [OF this] have "frames (sl_handle ` set (s # ss)) ?h h'" "next_id h' = next_id h"
    by (auto intro: frames_weaken)
  moreover have "frames (sl_handle ` set (s # ss)) h ?h" by (rule frames_ops) simp
  ultimately show ?case by (blast intro: frames_trans)
qed (simp add: join_state_def)

definition own_or_fresh :: "handle set \<Rightarrow> heap \<Rightarrow> slice list \<Rightarrow> bool" where
  "own_or_fresh hs h ss \<longleftrightarrow> (\<forall>s \<in> set ss. sl_handle s \<in> hs \<or> next_id h \<le> sl_handle s)"

lemma exec_frame:
  assumes "exec p as (tmp, h, g) = (out, h', g')" "sl_handle ` set (concat (map action_slices as)) \<subseteq> hs"
    "own_or_fresh hs h0 tmp" "next_id h0 \<le> next_id h"
  shows "frames hs h h' \<and> own_or_fresh hs h0 out"
  using assms
proof (induction as arbitrary: tmp h g)
  case Nil
  then show ?case by simp
next
  case (Cons a as)
  show ?case
  proof (cases a)
    case (Keep s)
    let ?h = "update_slice (sl_handle s) (of_nat (length tmp)) h"
    have "frames hs h ?h" by (rule frames_ops) (use Cons.prems Keep in auto)
    moreover have "frames hs ?h h' \<and> own_or_fresh hs h0 out"
      by (rule Cons.IH [of "tmp @ [s]" _ g]) (use Cons.prems Keep in \<open>auto simp: own_or_fresh_def\<close>)
    ultimately show ?thesis by (blast intro: frames_trans)
  next
    case (Join ss)
    obtain h1 g1 where j: "join_state ss (h, g) = (h1, g1)" by (cases "join_state ss (h, g)")
    let ?st = "(pg_storage p)\<lparr>sh_offset := sh_offset (sl_storage (hd ss)), sh_size := total_size ss\<rparr>"
    obtain m h2 where m: "slice_new ?st 0 h1 = (m, h2)" by (cases "slice_new ?st 0 h1")
    then have m': "sl_handle m = next_id h1" "h2 = snd (handle_new h1)" by (auto simp: slice_new_def handle_new_def)
    let ?h = "update_location (sl_handle m) ((pg_base p)\<lparr>loc_slice := of_nat (length tmp)\<rparr>) h2"
    have jf: "frames hs h h1" "next_id h1 = next_id h"
      using join_state_frame [OF j] Cons.prems(2) Join by (auto intro: frames_weaken)
    have "frames hs h1 h2" unfolding m'(2) by (rule frames_handle_new)
    moreover have "frames (hs \<union> {j. next_id h1 \<le> j}) h2 ?h" by (rule frames_ops) (simp add: m'(1))
    ultimately have "frames hs h1 ?h" by (rule frames_later)
    moreover have "frames hs ?h h' \<and> own_or_fresh hs h0 out"
    proof (rule Cons.IH [of "tmp @ [m]" _ g1])
      show "exec p as (tmp @ [m], ?h, g1) = (out, h', g')" using Cons.prems(1) Join j m by simp
      show "own_or_fresh hs h0 (tmp @ [m])" using Cons.prems(3,4) jf(2) m'(1) by (auto simp: own_or_fresh_def)
      show "next_id h0 \<le> next_id ?h" using Cons.prems(4) jf(2) m'(2) by simp
    qed (use Cons.prems(2) in auto)
    ultimately show ?thesis using jf(1) by (blast intro: frames_trans)
  qed
qed

lemma coalesce_frame:
  assumes "coalesce p h g = (p', h', g')"
  shows "frames (sl_handle ` set (pg_slices p)) h h' \<and> own_or_fresh (sl_handle ` set (pg_slices p)) h (pg_slices p')"
proof (cases "\<exists>ss. Join ss \<in> set (plan (slice_is_free h) (pg_slices p))")
  case True
  then obtain out where "exec p (plan (slice_is_free h) (pg_slices p)) ([], h, g) = (out, h', g')" "pg_slices p' = out"
    using assms by (auto simp: coalesce_plan split: prod.splits)
  with exec_frame [of p "plan (slice_is_free h) (pg_slices p)" "[]" h g out h' g' "sl_handle ` set (pg_slices p)" h]
  show ?thesis by (simp add: plan_slices own_or_fresh_def)
next
  case False
  with assms show ?thesis by (auto simp: coalesce_plan own_or_fresh_def)
qed

lemma add_loop_frame:
  assumes "add_loop base prev sz ss index new tmp h = Ok (out, h')"
    "sl_handle ` set ss \<subseteq> hs" "\<forall>n. new = Some n \<longrightarrow> sl_handle n \<in> hs"
  shows "frames hs h h' \<and> next_id h' = next_id h"
  using assms
proof (induction base prev sz ss index new tmp h rule: add_loop.induct)
  case (2 base prev sz s ss index new tmp h)
  let ?h = "update_slice (sl_handle s) (of_nat (length tmp)) h"
  have f1: "frames hs h ?h" by (rule frames_ops) (use 2(4) in simp)
  show ?case
  proof (cases "index = prev")
    case True
    with 2(3) obtain n where n: "new = Some n" by (cases new) (auto simp: Let_def)
    let ?s = "s\<lparr>sl_storage := (sl_storage s)\<lparr>sh_size := sz\<rparr>\<rparr>"
    let ?h2 = "update_location (sl_handle n) (base\<lparr>loc_slice := of_nat (length (tmp @ [?s]))\<rparr>) ?h"
    have f2: "frames hs ?h ?h2" by (rule frames_ops) (use 2(5) n in simp)
    from 2(3) True n have "add_loop base prev sz ss (index + 2) None (tmp @ [?s] @ [n]) ?h2 = Ok (out, h')"
      by (simp add: Let_def)
    with 2(1) [OF True refl _ refl n refl] 2(4) have "frames hs ?h2 h' \<and> next_id h' = next_id ?h2" by simp
    with f1 f2 show ?thesis by (auto intro: frames_trans)
  next
    case False
    with 2 f1 show ?thesis by (auto simp: Let_def intro: frames_trans)
  qed
qed simp

lemma reserve_frame:
  assumes ok: "page_ok p h" and r: "page_try_reserve sz p h = Ok (r, p', h')"
  shows "frames (sl_handle ` set (pg_slices p)) h h'
    \<and> own_or_fresh (sl_handle ` set (pg_slices p)) h (pg_slices p')
    \<and> p' = p\<lparr>pg_slices := pg_slices p'\<rparr>"
proof (cases "position (can_use_slice h (sz + calculate_padding sz (pg_alignment p))) (pg_slices p)")
  case None
  with r page_try_reserve_None [OF None] show ?thesis by (simp add: own_or_fresh_def)
next
  case (Some k)
  let ?hs = "sl_handle ` set (pg_slices p)"
  let ?s = "pg_slices p ! k"
  let ?eff = "sz + calculate_padding sz (pg_alignment p)"
  from position_Some [OF Some] have k: "k < length (pg_slices p)" by simp
  let ?s' = "?s\<lparr>sl_storage := (sl_storage ?s)\<lparr>sh_size := sz\<rparr>, sl_padding := calculate_padding sz (pg_alignment p)\<rparr>"
  let ?h1 = "clone_handle (sl_handle ?s) h"
  have f1: "frames ?hs h ?h1" by (rule frames_ops) (use k in simp)
  have upd: "sl_handle ` set ((pg_slices p)[k := ?s']) \<subseteq> ?hs"
    using k by (auto dest!: set_update_subset_insert [THEN subsetD])
  have "frames ?hs h h'"
  proof (cases "?eff < sh_size (sl_storage ?s)")
    case False
    with r Some f1 show ?thesis by (auto simp: page_try_reserve_def Let_def)
  next
    case True
    let ?st = "(sl_storage ?s)\<lparr>sh_offset := sh_offset (sl_storage ?s) + ?eff, sh_size := sh_size (sl_storage ?s) - ?eff\<rparr>"
    obtain n h2 where n: "slice_new ?st 0 ?h1 = (n, h2)" by (cases "slice_new ?st 0 ?h1")
    then have n': "sl_handle n = next_id h" "h2 = snd (handle_new ?h1)" by (auto simp: slice_new_def handle_new_def)
    have os: "offset_start (sl_storage ?s) ?eff = Ok ?st" using True by (simp add: offset_start_def checked_sub_def)
    from r Some True os n obtain out where
      "add_loop (pg_base p) k sz ((pg_slices p)[k := ?s']) 0 (Some n) [] h2 = Ok (out, h')"
      by (auto simp: page_try_reserve_def Let_def add_new_slice_def split: prod.splits)
    from add_loop_frame [OF this, of "?hs \<union> {j. next_id h \<le> j}"] upd n'(1)
    have "frames (?hs \<union> {j. next_id h \<le> j}) h2 h'" by auto
    moreover have "frames ?hs h h2" unfolding n'(2) by (rule frames_trans [OF f1 frames_handle_new])
    ultimately show ?thesis by (blast intro: frames_later)
  qed
  moreover have "own_or_fresh ?hs h (pg_slices p') \<and> p' = p\<lparr>pg_slices := pg_slices p'\<rparr>"
  proof -
    from page_try_reserve_shown [OF ok Some] r have
      p': "p' = p\<lparr>pg_slices := take k (pg_slices p) @ carved p sz ?s h @ drop (Suc k) (pg_slices p)\<rparr>" by auto
    obtain rest where "carved p sz ?s h = reserved_part p sz ?s # rest" "\<forall>t \<in> set rest. sl_handle t = next_id h"
      using carved_head [of p sz ?s h] by blast
    moreover have "sl_handle (reserved_part p sz ?s) \<in> ?hs" using k by (simp add: reserved_part_def)
    ultimately show ?thesis
      unfolding p' own_or_fresh_def by (auto dest: in_set_takeD in_set_dropD)
  qed
  ultimately show ?thesis by blast
qed

text \<open>A page outside the framed handles stays as it was.\<close>

lemma page_ok_frame:
  assumes "page_ok p h" "frames hs h h'" "heap_ok h'" "sl_handle ` set (pg_slices p) \<inter> hs = {}"
  shows "page_ok p h' \<and> live h' p = live h p"
proof -
  have slots: "slots_ok (pg_base p) (pg_slices p) h" using assms(1) by (simp add: page_ok_def)
  have same: "i \<in> dom (descs h') \<and> location h' i = location h i \<and> strong_count h' i = strong_count h i"
    if "i \<in> sl_handle ` set (pg_slices p)" for i
    by (rule frames_heap [OF assms(2)]) (use that assms(4) slots_dom [OF slots] slots_ok_heap [OF slots] in blast)+
  have "slots_ok (pg_base p) (pg_slices p) h'"
    by (rule slots_ok_frame [OF slots assms(3)]) (use same in blast)
  moreover have "live h' p = live h p"
    unfolding live_def using same
    by (intro filter_cong) (auto simp: slice_is_free_def is_free_def)
  ultimately show ?thesis using assms(1) by (simp add: page_ok_def)
qed

text \<open>Folding an operation on the handles of a page.\<close>

lemma fold_frame:
  assumes "\<And>s h. s \<in> set ss \<Longrightarrow> frames hs h (f s h)" "\<And>s h. heap_ok h \<Longrightarrow> heap_ok (f s h)" "heap_ok h"
  shows "frames hs h (fold f ss h) \<and> heap_ok (fold f ss h)"
  using assms
proof (induction ss arbitrary: h)
  case (Cons s ss)
  have "frames hs (f s h) (fold f ss (f s h)) \<and> heap_ok (fold f ss (f s h))"
    by (rule Cons.IH) (use Cons.prems in auto)
  moreover have "frames hs h (f s h)" using Cons.prems by simp
  ultimately show ?case by (auto intro: frames_trans)
qed simp

lemma update_page_frame:
  assumes "page_update_page n p h = (p', h')" "heap_ok h"
  shows "frames (sl_handle ` set (pg_slices p)) h h'"
proof -
  have "h' = fold (\<lambda>s. update_page (sl_handle s) n) (pg_slices p) h" using assms(1) by (simp add: page_update_page_def)
  then show ?thesis
    using fold_frame [of "pg_slices p" _ "\<lambda>s. update_page (sl_handle s) n", OF _ heap_ok_ops(3) assms(2)]
    by (simp add: frames_ops)
qed

lemma page_bind_frame:
  assumes "page_bind i new c p h g = Ok (p', h', g')"
  shows "frames (insert i (insert new (sl_handle ` set (pg_slices p)))) h h'"
proof -
  let ?hs = "insert i (insert new (sl_handle ` set (pg_slices p)))"
  let ?h1 = "update_location new (location h i) h"
  let ?j = "sl_handle (pg_slices p ! slice_index h i)"
  from assms have "slice_index h i < length (pg_slices p)" and h': "h' = drop_handle i (drop_handle ?j ?h1)"
    by (auto simp: page_bind_def Let_def slice_bind_def split: if_splits prod.splits)
  then have "?j \<in> ?hs" by simp
  then have "frames ?hs h ?h1" "frames ?hs ?h1 (drop_handle ?j ?h1)" "frames ?hs (drop_handle ?j ?h1) h'"
    unfolding h' by (simp_all add: frames_ops)
  then show ?thesis by (blast intro: frames_trans)
qed

end
