(* ===== verification/Pool_Interface.thy ===== *)
theory Pool_Interface
  imports Memory_Page
begin

text \<open>
  What every memory pool offers (\<open>memory_pool/base.rs\<close>, trait \<open>MemoryPool\<close>), with the reports and
  the cleanup kinds they share (\<open>cubecl-runtime/src/memory_management/base.rs\<close>,
  \<open>memory_manage.rs\<close>).

  The locale \<open>memory_pool\<close> states the contract of \<open>try_reserve\<close> and \<open>find\<close> the callers of a pool
  rely on: a reservation gives one live slice more and touches no other, and a handle finds its
  slice. Each pool interprets it in its own theory.
\<close>

datatype cleanup_kind = Periodic | Explicit

datatype pool_kind =
    Sliced nat nat
  | Adaptive nat nat
  | Exclusive nat
  | Direct
  | Persistent

record pool_report =
  rp_kind :: pool_kind
  rp_usage :: memory_usage
  rp_pages :: nat
  rp_pages_peak :: nat
  rp_pages_unmapped :: nat
  rp_largest_alloc :: nat

text \<open>One slice more among the live ones, carrying the request.\<close>

definition one_more :: "nat \<Rightarrow> handle \<Rightarrow> slice list \<Rightarrow> slice list \<Rightarrow> bool" where
  "one_more n i ls ls' \<longleftrightarrow>
    (\<exists>xs s ys. ls = xs @ ys \<and> ls' = xs @ s # ys \<and> sl_handle s = i \<and> sh_size (sl_storage s) = n)"

lemma one_more_context: "one_more n i ls ls' \<Longrightarrow> one_more n i (as @ ls @ bs) (as @ ls' @ bs)"
proof -
  assume "one_more n i ls ls'"
  then obtain xs s ys where "ls = xs @ ys" "ls' = xs @ s # ys" "sl_handle s = i" "sh_size (sl_storage s) = n"
    by (auto simp: one_more_def)
  then show ?thesis
    unfolding one_more_def by (intro exI [of _ "as @ xs"] exI [of _ s] exI [of _ "ys @ bs"]) simp
qed

lemma one_more_new: "one_more n i ls ls' \<Longrightarrow> \<exists>s \<in> set ls'. sl_handle s = i \<and> sh_size (sl_storage s) = n"
  by (auto simp: one_more_def)

lemma one_more_old: "one_more n i ls ls' \<Longrightarrow> set ls \<subseteq> set ls' \<and> length ls' = Suc (length ls)"
  by (auto simp: one_more_def)

text \<open>\<open>small\<close>: the indices of the pool fit the location word.\<close>

locale memory_pool =
  fixes ok :: "'p \<Rightarrow> heap \<Rightarrow> 'st \<Rightarrow> bool"
    and small :: "'p \<Rightarrow> bool"
    and held_slices :: "heap \<Rightarrow> 'p \<Rightarrow> slice list"
    and try_reserve :: "nat \<Rightarrow> 'p \<Rightarrow> heap \<Rightarrow> error_graph \<Rightarrow> (handle option \<times> 'p \<times> heap \<times> error_graph) io"
    and find_slice :: "handle \<Rightarrow> 'p \<Rightarrow> heap \<Rightarrow> slice io"
  assumes reserve_total: "ok q h st \<Longrightarrow> \<exists>r q' h' g'. try_reserve n q h g = Ok (r, q', h', g') \<and> ok q' h' st
      \<and> (r = None \<longrightarrow> held_slices h' q' = held_slices h q)
      \<and> (\<forall>i. r = Some i \<longrightarrow> one_more n i (held_slices h q) (held_slices h' q'))"
    and find_held: "ok q h st \<Longrightarrow> small q \<Longrightarrow> s \<in> set (held_slices h q) \<Longrightarrow> find_slice (sl_handle s) q h = Ok s"
begin

lemma reserve_then_find:
  assumes "ok q h st" "try_reserve n q h g = Ok (Some i, q', h', g')" "small q'"
  shows "\<exists>s. find_slice i q' h' = Ok s \<and> sl_handle s = i \<and> sh_size (sl_storage s) = n"
proof -
  from reserve_total [OF assms(1), of n g] assms(2)
  have "ok q' h' st" "one_more n i (held_slices h q) (held_slices h' q')" by auto
  with find_held [OF this(1) assms(3)] one_more_new show ?thesis by blast
qed

lemma reserve_keeps_others:
  assumes "ok q h st" "try_reserve n q h g = Ok (r, q', h', g')" "small q'" "s \<in> set (held_slices h q)"
  shows "find_slice (sl_handle s) q' h' = Ok s"
proof -
  from reserve_total [OF assms(1), of n g] assms(2)
  have *: "ok q' h' st" "r = None \<longrightarrow> held_slices h' q' = held_slices h q"
    "\<forall>i. r = Some i \<longrightarrow> one_more n i (held_slices h q) (held_slices h' q')" by auto
  then have "s \<in> set (held_slices h' q')" using assms(4) one_more_old [of n _ "held_slices h q" "held_slices h' q'"]
    by (cases r) (simp, blast)
  with find_held [OF *(1) assms(3)] show ?thesis by blast
qed

end

end
