(* ===== verification/Sliced_Pool.thy ===== *)
theory Sliced_Pool
  imports Pool_Interface
begin

text \<open>
  The pool that carves slices out of pages of one size (\<open>memory_pool/sliced_pool.rs\<close>).

  A pool keeps its pages with the storage id of each. \<open>pages_tmp\<close> of the source is a scratch
  vector, empty between operations, and a local of the model. The operations take the descriptor
  heap, the failure graph and the storage, as the sources take them by mutable reference, and
  return them.
\<close>

record sliced_pool =
  sp_pages :: "(memory_page \<times> storage_id) list"
  sp_page_size :: nat
  sp_max_slice_size :: nat
  sp_near_page_size :: bool
  sp_alignment :: nat
  sp_base :: memory_location
  sp_pages_peak :: nat
  sp_largest_alloc :: nat

record sliced_layout =
  ly_page_size :: nat
  ly_max_slice_size :: nat
  ly_alignment :: nat
  ly_pool :: "8 word"

definition sliced_new :: "sliced_layout \<Rightarrow> sliced_pool" where
  "sliced_new layout =
    \<lparr>sp_pages = [], sp_page_size = ly_page_size layout,
     sp_max_slice_size = min (ly_max_slice_size layout) (ly_page_size layout),
     sp_near_page_size = True, sp_alignment = ly_alignment layout,
     sp_base = location_new (ly_pool layout) 0 0, sp_pages_peak = 0, sp_largest_alloc = 0\<rparr>"

definition up_to_max_slice :: "sliced_pool \<Rightarrow> sliced_pool" where
  "up_to_max_slice q = q\<lparr>sp_near_page_size := False\<rparr>"

definition sliced_accept :: "sliced_pool \<Rightarrow> nat \<Rightarrow> bool" where
  "sliced_accept q n \<longleftrightarrow>
    n \<le> sp_max_slice_size q \<or>
    sp_near_page_size q \<and>
      (case checked_sub (sp_page_size q) n of Some diff \<Rightarrow> diff * 5 < sp_page_size q | None \<Rightarrow> False)"

definition sliced_find :: "handle \<Rightarrow> sliced_pool \<Rightarrow> heap \<Rightarrow> slice io" where
  "sliced_find i q h =
    (let page_index = page_index h i in
     case get_opt (sp_pages q) page_index of
       None \<Rightarrow> Err (NotFound (PageMissing page_index))
     | Some (page, _) \<Rightarrow> page_find i page h)"

text \<open>\<open>reserve_free\<close>: the unguarded pages in order, each coalesced and then tried, up to the first
  that has room.\<close>

fun reserve_pages ::
  "nat \<Rightarrow> (memory_page \<times> storage_id) list \<Rightarrow> heap \<Rightarrow> error_graph
    \<Rightarrow> (handle option \<times> (memory_page \<times> storage_id) list \<times> heap \<times> error_graph) io" where
  "reserve_pages n [] h g = Ok (None, [], h, g)"
| "reserve_pages n ((page, i) # pages) h g =
    (if is_guarded page then
       try_then (reserve_pages n pages h g) (\<lambda>(r, pages, h, g). Ok (r, (page, i) # pages, h, g))
     else
       (case coalesce page h g of (page, h, g) \<Rightarrow>
         try_then (page_try_reserve n page h) (\<lambda>(r, page, h).
           case r of
             Some x \<Rightarrow> Ok (Some x, (page, i) # pages, h, g)
           | None \<Rightarrow>
               try_then (reserve_pages n pages h g)
                 (\<lambda>(r, pages, h, g). Ok (r, (page, i) # pages, h, g)))))"

definition sliced_try_reserve ::
  "nat \<Rightarrow> sliced_pool \<Rightarrow> heap \<Rightarrow> error_graph \<Rightarrow> (handle option \<times> sliced_pool \<times> heap \<times> error_graph) io" where
  "sliced_try_reserve n q h g =
    try_then (reserve_pages n (sp_pages q) h g) (\<lambda>(r, pages, h, g).
      let q = q\<lparr>sp_pages := pages\<rparr>;
          q = (if r \<noteq> None then q\<lparr>sp_largest_alloc := max (sp_largest_alloc q) n\<rparr> else q)
      in Ok (r, q, h, g))"

definition alloc_page ::
  "'st storage_ops \<Rightarrow> nat \<Rightarrow> page_mapping \<Rightarrow> sliced_pool \<Rightarrow> heap \<Rightarrow> 'st
    \<Rightarrow> (handle \<times> sliced_pool \<times> heap) io \<times> 'st" where
  "alloc_page ops n mapping q h st =
    (let base = (sp_base q)\<lparr>loc_page := of_nat (length (sp_pages q))\<rparr> in
     case mapped_handle ops mapping (sp_page_size q) st of
       (Ok handle, st) \<Rightarrow>
         let (page, h) = page_new handle (sp_alignment q) base mapping h in
         (try_then (page_try_reserve n page h) (\<lambda>(r, page, h).
            case r of
              None \<Rightarrow> Panic
            | Some x \<Rightarrow>
                let pages = sp_pages q @ [(page, sh_id (pg_storage page))] in
                Ok (x, q\<lparr>sp_pages := pages,
                         sp_pages_peak := max (sp_pages_peak q) (length pages),
                         sp_largest_alloc := max (sp_largest_alloc q) n\<rparr>, h)), st)
     | (Err e, st) \<Rightarrow> (Err e, st)
     | (Panic, st) \<Rightarrow> (Panic, st))"

text \<open>\<open>MemoryPool::reserve\<close>, the default method. An error of the storage is returned after the pages
  were coalesced.\<close>

definition sliced_reserve ::
  "'st storage_ops \<Rightarrow> nat \<Rightarrow> page_mapping \<Rightarrow> sliced_pool \<Rightarrow> heap \<Rightarrow> error_graph \<Rightarrow> 'st
    \<Rightarrow> handle io \<times> sliced_pool \<times> heap \<times> error_graph \<times> 'st" where
  "sliced_reserve ops n mapping q h g st =
    (case sliced_try_reserve n q h g of
       Ok (Some x, q, h, g) \<Rightarrow> (Ok x, q, h, g, st)
     | Ok (None, q, h, g) \<Rightarrow>
         (case alloc_page ops n mapping q h st of
            (Ok (x, q, h), st) \<Rightarrow> (Ok x, q, h, g, st)
          | (Err e, st) \<Rightarrow> (Err e, q, h, g, st)
          | (Panic, st) \<Rightarrow> (Panic, q, h, g, st))
     | Err e \<Rightarrow> (Err e, q, h, g, st)
     | Panic \<Rightarrow> (Panic, q, h, g, st))"

definition map_page :: "'st storage_ops \<Rightarrow> nat \<Rightarrow> sliced_pool \<Rightarrow> 'st \<Rightarrow> sliced_pool io \<times> 'st" where
  "map_page ops index q st =
    (case get_opt (sp_pages q) index of
       None \<Rightarrow> (Panic, st)
     | Some (page, i) \<Rightarrow>
         if pg_mapped page then (Ok q, st)
         else
           (case so_alloc ops (page_size page) st of
              (Ok real, st) \<Rightarrow>
                (Ok (q\<lparr>sp_pages := (sp_pages q)[index := (rebind_storage (sh_id real) page, sh_id real)]\<rparr>), st)
            | (Err e, st) \<Rightarrow> (Err (StorageMappingFailed (page_size page) e), st)
            | (Panic, st) \<Rightarrow> (Panic, st)))"

text \<open>\<open>slice_at\<close>, \<open>storage_at\<close> and \<open>mapped_storage_at\<close>: an index out of range panics.\<close>

definition slice_at :: "memory_location \<Rightarrow> sliced_pool \<Rightarrow> slice io" where
  "slice_at l q =
    (case get_opt (sp_pages q) (unat (loc_page l)) of
       None \<Rightarrow> Panic
     | Some (page, _) \<Rightarrow>
         (case get_opt (pg_slices page) (unat (loc_slice l)) of None \<Rightarrow> Panic | Some s \<Rightarrow> Ok s))"

definition storage_at :: "memory_location \<Rightarrow> sliced_pool \<Rightarrow> storage_handle option io" where
  "storage_at l q =
    (case get_opt (sp_pages q) (unat (loc_page l)) of
       None \<Rightarrow> Panic
     | Some (page, _) \<Rightarrow>
         if \<not> pg_mapped page then Ok None
         else try_then (slice_at l q) (\<lambda>s. Ok (Some (sl_storage s))))"

definition mapped_storage_at ::
  "'st storage_ops \<Rightarrow> memory_location \<Rightarrow> sliced_pool \<Rightarrow> 'st \<Rightarrow> (storage_handle \<times> sliced_pool) io \<times> 'st" where
  "mapped_storage_at ops l q st =
    (case map_page ops (unat (loc_page l)) q st of
       (r, st) \<Rightarrow> (try_then r (\<lambda>q. try_then (slice_at l q) (\<lambda>s. Ok (sl_storage s, q))), st))"

text \<open>\<open>release_empty\<close>: the loop over the drained pages, with the pages kept so far.\<close>

fun release_loop ::
  "'st storage_ops \<Rightarrow> (memory_page \<times> storage_id) list \<Rightarrow> (memory_page \<times> storage_id) list
    \<Rightarrow> heap \<Rightarrow> error_graph \<Rightarrow> 'st \<Rightarrow> (memory_page \<times> storage_id) list \<times> heap \<times> error_graph \<times> 'st" where
  "release_loop ops [] tmp h g st = (tmp, h, g, st)"
| "release_loop ops ((page, i) # pages) tmp h g st =
    (case coalesce page h g of (page, h, g) \<Rightarrow>
       if page_is_empty h page \<and> \<not> is_guarded page then
         (case shed page g of (page, g) \<Rightarrow>
           let st = (if pg_mapped page then so_dealloc ops i st else st);
               h = fold (\<lambda>s. drop_handle (sl_handle s)) (pg_slices page) h
           in release_loop ops pages tmp h g st)
       else
         (case page_update_page (of_nat (length tmp)) page h of (page, h) \<Rightarrow>
            release_loop ops pages (tmp @ [(page, i)]) h g st))"

definition release_empty ::
  "'st storage_ops \<Rightarrow> sliced_pool \<Rightarrow> heap \<Rightarrow> error_graph \<Rightarrow> 'st \<Rightarrow> sliced_pool \<times> heap \<times> error_graph \<times> 'st" where
  "release_empty ops q h g st =
    (case release_loop ops (sp_pages q) [] h g st of
       (pages, h, g, st) \<Rightarrow> (q\<lparr>sp_pages := pages\<rparr>, h, g, st))"

definition sliced_cleanup ::
  "'st storage_ops \<Rightarrow> nat \<Rightarrow> cleanup_kind \<Rightarrow> sliced_pool \<Rightarrow> heap \<Rightarrow> error_graph \<Rightarrow> 'st
    \<Rightarrow> sliced_pool \<times> heap \<times> error_graph \<times> 'st" where
  "sliced_cleanup ops alloc_nr cleanup q h g st =
    (if cleanup = Explicit then release_empty ops q h g st else (q, h, g, st))"

definition sliced_materialize ::
  "'st storage_ops \<Rightarrow> handle \<Rightarrow> sliced_pool \<Rightarrow> heap \<Rightarrow> 'st \<Rightarrow> sliced_pool io \<times> 'st" where
  "sliced_materialize ops i q h st =
    (let page_index = page_index h i;
         claimed = (case get_opt (sp_pages q) page_index of
             None \<Rightarrow> False
           | Some (page, _) \<Rightarrow> (case page_find i page h of Ok s \<Rightarrow> sl_handle s = i | _ \<Rightarrow> False))
     in if \<not> claimed then (Ok q, st) else map_page ops page_index q st)"

definition sliced_guard :: "memory_location \<Rightarrow> sliced_pool \<Rightarrow> sliced_pool option" where
  "sliced_guard l q =
    (case get_opt (sp_pages q) (unat (loc_page l)) of
       None \<Rightarrow> None
     | Some (page, i) \<Rightarrow>
         Some (q\<lparr>sp_pages := (sp_pages q)[unat (loc_page l) := (page_guard page, i)]\<rparr>))"

definition sliced_usage :: "heap \<Rightarrow> sliced_pool \<Rightarrow> memory_usage" where
  "sliced_usage h q = fold (\<lambda>(page, _) u. combine u (page_usage h page)) (sp_pages q) usage_default"

definition sliced_bind ::
  "handle \<Rightarrow> handle \<Rightarrow> nat \<Rightarrow> sliced_pool \<Rightarrow> heap \<Rightarrow> error_graph \<Rightarrow> (sliced_pool \<times> heap \<times> error_graph) io" where
  "sliced_bind reserved assigned c q h g =
    (let index = page_index h reserved in
     case get_opt (sp_pages q) index of
       None \<Rightarrow> Panic
     | Some (page, i) \<Rightarrow>
         try_then (page_bind reserved assigned c page h g) (\<lambda>(page, h, g).
           Ok (q\<lparr>sp_pages := (sp_pages q)[index := (page, i)]\<rparr>, h, g)))"

definition sliced_report :: "heap \<Rightarrow> sliced_pool \<Rightarrow> pool_report" where
  "sliced_report h q =
    \<lparr>rp_kind = Sliced (sp_page_size q) (sp_max_slice_size q), rp_usage = sliced_usage h q,
     rp_pages = length (sp_pages q), rp_pages_peak = sp_pages_peak q,
     rp_pages_unmapped = length (filter (\<lambda>(page, _). \<not> pg_mapped page) (sp_pages q)),
     rp_largest_alloc = sp_largest_alloc q\<rparr>"

section \<open>The invariant\<close>

definition handles_of :: "memory_page \<Rightarrow> handle set" where
  "handles_of p = sl_handle ` set (pg_slices p)"

definition all_handles :: "(memory_page \<times> storage_id) list \<Rightarrow> handle set" where
  "all_handles ps = (\<Union>x \<in> set ps. handles_of (fst x))"

definition page_at :: "sliced_pool \<Rightarrow> memory_page \<times> storage_id \<Rightarrow> heap \<Rightarrow> bool" where
  "page_at q x h \<longleftrightarrow> page_ok (fst x) h \<and> pg_alignment (fst x) = sp_alignment q
    \<and> page_size (fst x) = sp_page_size q \<and> sh_id (pg_storage (fst x)) = snd x
    \<and> (\<exists>n. pg_base (fst x) = (sp_base q)\<lparr>loc_page := n\<rparr>)"

definition pages_ok :: "sliced_pool \<Rightarrow> (memory_page \<times> storage_id) list \<Rightarrow> heap \<Rightarrow> bool" where
  "pages_ok q ps h \<longleftrightarrow> heap_ok h \<and> (\<forall>x \<in> set ps. page_at q x h)
    \<and> sorted_wrt (\<lambda>x y. handles_of (fst x) \<inter> handles_of (fst y) = {}) ps"

definition numbered :: "sliced_pool \<Rightarrow> (memory_page \<times> storage_id) list \<Rightarrow> bool" where
  "numbered q ps \<longleftrightarrow> (\<forall>k < length ps. pg_base (fst (ps ! k)) = (sp_base q)\<lparr>loc_page := of_nat k\<rparr>)"

definition pool_ok :: "sliced_pool \<Rightarrow> heap \<Rightarrow> bool" where
  "pool_ok q h \<longleftrightarrow> 0 < sp_alignment q \<and> pages_ok q (sp_pages q) h \<and> numbered q (sp_pages q)"

definition lives :: "heap \<Rightarrow> (memory_page \<times> storage_id) list \<Rightarrow> slice list list" where
  "lives h ps = map (\<lambda>x. live h (fst x)) ps"

definition pool_live :: "heap \<Rightarrow> (memory_page \<times> storage_id) list \<Rightarrow> slice list" where
  "pool_live h ps = concat (lives h ps)"

lemma pool_live_simps [simp]:
  "pool_live h [] = []" "pool_live h (x # xs) = live h (fst x) @ pool_live h xs"
  "pool_live h (xs @ ys) = pool_live h xs @ pool_live h ys"
  by (simp_all add: pool_live_def lives_def)

lemma lives_simps [simp]:
  "lives h [] = []" "lives h (x # xs) = live h (fst x) # lives h xs" "lives h (xs @ ys) = lives h xs @ lives h ys"
  "length (lives h xs) = length xs"
  by (simp_all add: lives_def)

lemma all_handles_simps [simp]:
  "all_handles [] = {}" "all_handles (x # xs) = handles_of (fst x) \<union> all_handles xs"
  "all_handles (xs @ ys) = all_handles xs \<union> all_handles ys"
  by (auto simp: all_handles_def)

lemma page_at_dom: "page_at q x h \<Longrightarrow> handles_of (fst x) \<subseteq> dom (descs h)"
  unfolding page_at_def page_ok_def handles_of_def using slots_dom by blast

lemma pages_dom: "pages_ok q ps h \<Longrightarrow> all_handles ps \<subseteq> dom (descs h)"
  using page_at_dom by (fastforce simp: pages_ok_def all_handles_def)

lemma pages_old: "pages_ok q ps h \<Longrightarrow> i \<in> all_handles ps \<Longrightarrow> i < next_id h"
  using pages_dom heap_ok_fresh by (force simp: pages_ok_def)

lemma pages_ok_drop: "pages_ok q (xs @ x # ys) h \<Longrightarrow> pages_ok q (xs @ ys) h"
  by (auto simp: pages_ok_def sorted_wrt_append)

lemma page_at_frame:
  assumes "page_at q x h" "frames hs h h'" "heap_ok h'" "handles_of (fst x) \<inter> hs = {}"
  shows "page_at q x h' \<and> live h' (fst x) = live h (fst x)"
  using page_ok_frame [OF _ assms(2,3), of "fst x"] assms(1,4) by (simp add: page_at_def handles_of_def)

lemma pages_frame:
  assumes "pages_ok q ps h" "frames hs h h'" "heap_ok h'" "all_handles ps \<inter> hs = {}"
  shows "pages_ok q ps h' \<and> lives h' ps = lives h ps"
proof -
  have one: "page_at q x h' \<and> live h' (fst x) = live h (fst x)" if "x \<in> set ps" for x
    by (rule page_at_frame [OF _ assms(2,3)]) (use assms that in \<open>auto simp: pages_ok_def all_handles_def\<close>)
  then have "lives h' ps = lives h ps" by (simp add: lives_def)
  with one assms(1,3) show ?thesis by (simp add: pages_ok_def)
qed

text \<open>A page put among the others, when its handles are its own or fresh.\<close>

lemma pages_insert:
  assumes ok: "pages_ok q (xs @ ys) h" and at: "page_at q x h'" and fr: "frames hs h h'"
    and own: "own_or_fresh hs h (pg_slices (fst x))" and dis: "all_handles (xs @ ys) \<inter> hs = {}"
  shows "pages_ok q (xs @ x # ys) h' \<and> lives h' (xs @ ys) = lives h (xs @ ys)"
proof -
  have hok: "heap_ok h'" using at slots_ok_heap by (auto simp: page_at_def page_ok_def)
  have sep: "handles_of (fst x) \<inter> all_handles (xs @ ys) = {}"
    using own dis pages_old [OF ok] by (fastforce simp: own_or_fresh_def handles_of_def)
  have "handles_of (fst x) \<inter> handles_of (fst y) = {}" "handles_of (fst y) \<inter> handles_of (fst x) = {}"
    if "y \<in> set (xs @ ys)" for y
    using sep that by (auto simp: all_handles_def)
  then have "pages_ok q (xs @ x # ys) h'"
    using pages_frame [OF ok fr hok dis] at by (simp add: pages_ok_def sorted_wrt_append)
  then show ?thesis using pages_frame [OF ok fr hok dis] by blast
qed

lemma pages_replace:
  assumes "pages_ok q (xs @ y # ys) h" "page_at q x h'" "frames hs h h'"
    "own_or_fresh hs h (pg_slices (fst x))" "all_handles (xs @ ys) \<inter> hs = {}"
  shows "pages_ok q (xs @ x # ys) h' \<and> lives h' (xs @ ys) = lives h (xs @ ys)"
  by (rule pages_insert [OF pages_ok_drop [OF assms(1)] assms(2-5)])

lemma pages_others: "pages_ok q (xs @ y # ys) h \<Longrightarrow> all_handles (xs @ ys) \<inter> handles_of (fst y) = {}"
  by (fastforce simp: pages_ok_def sorted_wrt_append all_handles_def)

lemma pages_member: "pages_ok q (xs @ y # ys) h \<Longrightarrow> page_at q y h \<and> page_ok (fst y) h"
  by (simp add: pages_ok_def page_at_def)

lemma numbered_cong:
  assumes "map (\<lambda>x. pg_base (fst x)) ps' = map (\<lambda>x. pg_base (fst x)) ps"
  shows "numbered q ps' = numbered q ps"
proof -
  have len: "length ps' = length ps" using assms by (metis length_map)
  have "pg_base (fst (ps' ! k)) = pg_base (fst (ps ! k))" if "k < length ps" for k
    using arg_cong [OF assms, of "\<lambda>xs. xs ! k"] that len by simp
  then show ?thesis by (simp add: numbered_def len)
qed

lemma numbered_snoc:
  assumes "numbered q ps" "pg_base (fst x) = (sp_base q)\<lparr>loc_page := of_nat (length ps)\<rparr>"
  shows "numbered q (ps @ [x])"
  unfolding numbered_def
proof (intro allI impI)
  fix k assume "k < length (ps @ [x])"
  then consider "k < length ps" | "k = length ps" by fastforce
  then show "pg_base (fst ((ps @ [x]) ! k)) = (sp_base q)\<lparr>loc_page := of_nat k\<rparr>"
    by cases (use assms in \<open>simp_all add: numbered_def nth_append\<close>)
qed

text \<open>Fields of the pool the invariant does not read.\<close>

lemma pool_fields [simp]:
  "page_at (q\<lparr>sp_pages := ps\<rparr>) = page_at q" "page_at (q\<lparr>sp_pages_peak := n\<rparr>) = page_at q"
  "page_at (q\<lparr>sp_largest_alloc := n\<rparr>) = page_at q" "page_at (q\<lparr>sp_near_page_size := b\<rparr>) = page_at q"
  "numbered (q\<lparr>sp_pages := ps\<rparr>) = numbered q" "numbered (q\<lparr>sp_pages_peak := n\<rparr>) = numbered q"
  "numbered (q\<lparr>sp_largest_alloc := n\<rparr>) = numbered q" "numbered (q\<lparr>sp_near_page_size := b\<rparr>) = numbered q"
  "pages_ok (q\<lparr>sp_pages := ps\<rparr>) = pages_ok q" "pages_ok (q\<lparr>sp_pages_peak := n\<rparr>) = pages_ok q"
  "pages_ok (q\<lparr>sp_largest_alloc := n\<rparr>) = pages_ok q" "pages_ok (q\<lparr>sp_near_page_size := b\<rparr>) = pages_ok q"
  by (simp_all add: fun_eq_iff page_at_def numbered_def pages_ok_def)

section \<open>Reserving\<close>

text \<open>What coalescing and reserving on one page do to it and to the heap.\<close>

definition evolved :: "memory_page \<Rightarrow> heap \<Rightarrow> memory_page \<Rightarrow> heap \<Rightarrow> bool" where
  "evolved p h p' h' \<longleftrightarrow> page_ok p' h' \<and> frames (handles_of p) h h'
    \<and> own_or_fresh (handles_of p) h (pg_slices p') \<and> (\<exists>ss. p' = p\<lparr>pg_slices := ss\<rparr>)"

lemma evolved_trans:
  assumes "evolved p h p1 h1" "evolved p1 h1 p2 h2"
  shows "evolved p h p2 h2"
proof -
  have sub: "handles_of p1 \<subseteq> handles_of p \<union> {j. next_id h \<le> j}" and le: "next_id h \<le> next_id h1"
    using assms(1) by (auto simp: evolved_def own_or_fresh_def handles_of_def frames_def)
  have "frames (handles_of p) h h2"
    by (rule frames_later [of _ _ h1]) (use assms sub in \<open>auto simp: evolved_def intro: frames_weaken\<close>)
  moreover have "own_or_fresh (handles_of p) h (pg_slices p2)"
    unfolding own_or_fresh_def
  proof
    fix s assume "s \<in> set (pg_slices p2)"
    then have "sl_handle s \<in> handles_of p1 \<or> next_id h1 \<le> sl_handle s"
      using assms(2) by (simp add: evolved_def own_or_fresh_def)
    with sub le show "sl_handle s \<in> handles_of p \<or> next_id h \<le> sl_handle s" by auto
  qed
  moreover have "\<exists>ss. p2 = p\<lparr>pg_slices := ss\<rparr>"
  proof -
    from assms obtain ss ss2 where "p1 = p\<lparr>pg_slices := ss\<rparr>" "p2 = p1\<lparr>pg_slices := ss2\<rparr>"
      unfolding evolved_def by blast
    then have "p2 = p\<lparr>pg_slices := ss2\<rparr>" by simp
    then show ?thesis by blast
  qed
  moreover have "page_ok p2 h2" using assms(2) by (simp add: evolved_def)
  ultimately show ?thesis unfolding evolved_def by blast
qed

lemma evolved_fields:
  "evolved p h p' h' \<Longrightarrow> pg_base p' = pg_base p \<and> pg_alignment p' = pg_alignment p \<and> pg_storage p' = pg_storage p
    \<and> pg_mapped p' = pg_mapped p \<and> pg_guards p' = pg_guards p"
  by (auto simp: evolved_def)

lemma evolved_ok: "evolved p h p' h' \<Longrightarrow> page_ok p' h'"
  by (simp add: evolved_def)

lemma evolved_at: "page_at q (p, i) h \<Longrightarrow> evolved p h p' h' \<Longrightarrow> page_at q (p', i) h'"
  using evolved_fields [of p h p' h'] evolved_ok [of p h p' h'] by (simp add: page_at_def page_size_def)

lemma coalesce_evolved:
  assumes "page_ok p h" "coalesce p h g = (p', h', g')"
  shows "evolved p h p' h' \<and> live h' p' = live h p"
  using coalesce_shown [OF assms] coalesce_frame [OF assms(2)] unfolding evolved_def handles_of_def by blast

definition fits :: "nat \<Rightarrow> heap \<Rightarrow> memory_page \<Rightarrow> bool" where
  "fits n h p \<longleftrightarrow> list_ex (can_use_slice h (n + calculate_padding n (pg_alignment p))) (pg_slices p)"

lemma reserve_evolved:
  assumes ok: "page_ok p h"
  shows "\<exists>r p' h'. page_try_reserve n p h = Ok (r, p', h') \<and> evolved p h p' h'
    \<and> (r = None \<longleftrightarrow> \<not> fits n h p) \<and> (r = None \<longrightarrow> live h' p' = live h p)
    \<and> (\<forall>i. r = Some i \<longrightarrow> one_more n i (live h p) (live h' p'))"
proof (cases "position (can_use_slice h (n + calculate_padding n (pg_alignment p))) (pg_slices p)")
  case None
  then have "page_try_reserve n p h = Ok (None, p, h)" by (rule page_try_reserve_None)
  moreover have "evolved p h p h"
    using ok by (auto simp: evolved_def own_or_fresh_def handles_of_def intro: exI [of _ "pg_slices p"])
  moreover have "\<not> fits n h p" using None by (simp add: fits_def position_None list_ex_iff)
  ultimately show ?thesis by blast
next
  case (Some k)
  let ?s = "pg_slices p ! k"
  from position_Some [OF Some] have fit: "fits n h p" by (auto simp: fits_def list_ex_iff intro: nth_mem)
  from page_try_reserve_shown [OF ok Some] obtain p' h' s' where
    r: "page_try_reserve n p h = Ok (Some (sl_handle ?s), p', h')" "page_ok p' h'"
    "sl_handle s' = sl_handle ?s" "sh_size (sl_storage s') = n"
    "live h p = filter (\<lambda>t. \<not> slice_is_free h t) (take k (pg_slices p))
        @ filter (\<lambda>t. \<not> slice_is_free h t) (drop (Suc k) (pg_slices p))"
    "live h' p' = filter (\<lambda>t. \<not> slice_is_free h t) (take k (pg_slices p))
        @ s' # filter (\<lambda>t. \<not> slice_is_free h t) (drop (Suc k) (pg_slices p))"
    by blast
  have "one_more n (sl_handle ?s) (live h p) (live h' p')" unfolding one_more_def using r by blast
  moreover have "evolved p h p' h'"
    using reserve_frame [OF ok r(1)] r(2) unfolding evolved_def handles_of_def by blast
  ultimately show ?thesis using r(1) fit by blast
qed

text \<open>The attempt the pool makes on each unguarded page.\<close>

lemma attempt_shown:
  assumes "page_ok p h"
  shows "\<exists>p1 h1 g1 r p' h'. coalesce p h g = (p1, h1, g1) \<and> page_try_reserve n p1 h1 = Ok (r, p', h')
    \<and> evolved p h p' h' \<and> (r = None \<longrightarrow> live h' p' = live h p)
    \<and> (\<forall>i. r = Some i \<longrightarrow> one_more n i (live h p) (live h' p'))"
proof -
  obtain p1 h1 g1 where c: "coalesce p h g = (p1, h1, g1)" by (cases "coalesce p h g")
  note e1 = coalesce_evolved [OF assms c]
  then have "page_ok p1 h1" by (simp add: evolved_def)
  from reserve_evolved [OF this, of n] obtain r p' h' where
    "page_try_reserve n p1 h1 = Ok (r, p', h')" "evolved p1 h1 p' h'"
    "r = None \<longrightarrow> live h' p' = live h1 p1" "\<forall>i. r = Some i \<longrightarrow> one_more n i (live h1 p1) (live h' p')"
    by blast
  with c e1 show ?thesis using evolved_trans by auto
qed

lemma pages_evolve:
  assumes "pages_ok q (xs @ (p, i) # ys) h" "evolved p h p' h'"
  shows "pages_ok q (xs @ (p', i) # ys) h' \<and> lives h' (xs @ ys) = lives h (xs @ ys)"
proof (rule pages_replace [OF assms(1)])
  show "page_at q (p', i) h'" using pages_member [OF assms(1)] assms(2) evolved_at by blast
  show "frames (handles_of p) h h'" "own_or_fresh (handles_of p) h (pg_slices (fst (p', i)))"
    using assms(2) by (simp_all add: evolved_def)
  show "all_handles (xs @ ys) \<inter> handles_of p = {}" using pages_others [OF assms(1)] by simp
qed

text \<open>What of a page no reservation changes.\<close>

definition frozen :: "memory_page \<times> storage_id \<Rightarrow> memory_location \<times> storage_id \<times> bool \<times> nat" where
  "frozen x = (pg_base (fst x), snd x, pg_mapped (fst x), pg_guards (fst x))"

lemma evolved_frozen: "evolved p h p' h' \<Longrightarrow> frozen (p', i) = frozen (p, i)"
  using evolved_fields by (simp add: frozen_def)

lemma lives_pool: "lives h' ps = lives h ps \<Longrightarrow> pool_live h' ps = pool_live h ps"
  by (simp add: pool_live_def)

lemma reserve_pages_shown:
  assumes "pages_ok q (zs @ ps) h"
  shows "\<exists>r ps' h' g'. reserve_pages n ps h g = Ok (r, ps', h', g') \<and> pages_ok q (zs @ ps') h'
    \<and> map frozen ps' = map frozen ps \<and> lives h' zs = lives h zs
    \<and> (r = None \<longrightarrow> pool_live h' ps' = pool_live h ps)
    \<and> (\<forall>i. r = Some i \<longrightarrow> one_more n i (pool_live h ps) (pool_live h' ps'))"
  using assms
proof (induction ps arbitrary: zs h g)
  case Nil
  then show ?case by simp
next
  case (Cons x ps)
  obtain p i where x: "x = (p, i)" by (cases x)
  show ?case
  proof (cases "is_guarded p")
    case True
    have "pages_ok q ((zs @ [x]) @ ps) h" using Cons.prems by simp
    from Cons.IH [OF this, of g] obtain r ps' h' g' where
      r: "reserve_pages n ps h g = Ok (r, ps', h', g')" "pages_ok q ((zs @ [x]) @ ps') h'"
      "map frozen ps' = map frozen ps" "lives h' (zs @ [x]) = lives h (zs @ [x])"
      "r = None \<longrightarrow> pool_live h' ps' = pool_live h ps"
      "\<forall>i. r = Some i \<longrightarrow> one_more n i (pool_live h ps) (pool_live h' ps')"
      by blast
    have lv: "lives h' zs = lives h zs" "live h' p = live h p" using r(4) x by simp_all
    have "reserve_pages n (x # ps) h g = Ok (r, x # ps', h', g')" using r(1) True x by simp
    moreover have "pages_ok q (zs @ (x # ps')) h'" using r(2) by simp
    moreover have "one_more n i (pool_live h (x # ps)) (pool_live h' (x # ps'))" if "r = Some i" for i
      using one_more_context [of n i _ _ "live h p" "[]"] r(6) that x lv by simp
    moreover have "r = None \<longrightarrow> pool_live h' (x # ps') = pool_live h (x # ps)" using r(5) x lv by simp
    ultimately show ?thesis using r(3) lv(1) by (metis list.simps(9))
  next
    case False
    have at: "pages_ok q (zs @ (p, i) # ps) h" using Cons.prems x by simp
    from attempt_shown [of p h g n] pages_member [OF at] obtain p1 h1 g1 r p' h' where
      a: "coalesce p h g = (p1, h1, g1)" "page_try_reserve n p1 h1 = Ok (r, p', h')"
      "evolved p h p' h'" "r = None \<longrightarrow> live h' p' = live h p"
      "\<forall>i. r = Some i \<longrightarrow> one_more n i (live h p) (live h' p')"
      by auto
    from pages_evolve [OF at a(3)] have
      e: "pages_ok q (zs @ (p', i) # ps) h'" "lives h' zs = lives h zs" "lives h' ps = lives h ps" by simp_all
    note fz = evolved_frozen [OF a(3), of i]
    show ?thesis
    proof (cases r)
      case (Some j)
      have "reserve_pages n (x # ps) h g = Ok (Some j, (p', i) # ps, h', g1)"
        using a(1,2) False x Some by simp
      moreover have "one_more n j (pool_live h (x # ps)) (pool_live h' ((p', i) # ps))"
        using one_more_context [of n j _ _ "[]" "pool_live h ps"] a(5) Some x lives_pool [OF e(3)] by simp
      moreover have "map frozen ((p', i) # ps) = map frozen (x # ps)" using fz x by simp
      ultimately show ?thesis using e by auto
    next
      case None
      have "pages_ok q ((zs @ [(p', i)]) @ ps) h'" using e(1) by simp
      from Cons.IH [OF this, of g1] obtain r' ps' h'' g' where
        b: "reserve_pages n ps h' g1 = Ok (r', ps', h'', g')" "pages_ok q ((zs @ [(p', i)]) @ ps') h''"
        "map frozen ps' = map frozen ps" "lives h'' (zs @ [(p', i)]) = lives h' (zs @ [(p', i)])"
        "r' = None \<longrightarrow> pool_live h'' ps' = pool_live h' ps"
        "\<forall>i. r' = Some i \<longrightarrow> one_more n i (pool_live h' ps) (pool_live h'' ps')"
        by blast
      have lv: "lives h'' zs = lives h zs" "live h'' p' = live h p" using b(4) e(2) a(4) None by simp_all
      have "reserve_pages n (x # ps) h g = Ok (r', (p', i) # ps', h'', g')"
        using a(1,2) False x None b(1) by simp
      moreover have "pages_ok q (zs @ ((p', i) # ps')) h''" using b(2) by simp
      moreover have "one_more n j (pool_live h (x # ps)) (pool_live h'' ((p', i) # ps'))" if "r' = Some j" for j
        using one_more_context [of n j _ _ "live h p" "[]"] b(6) that x lv lives_pool [OF e(3)] by simp
      moreover have "r' = None \<longrightarrow> pool_live h'' ((p', i) # ps') = pool_live h (x # ps)"
        using b(5) x lv lives_pool [OF e(3)] by simp
      moreover have "map frozen ((p', i) # ps') = map frozen (x # ps)" using fz b(3) x by simp
      ultimately show ?thesis using lv(1) by blast
    qed
  qed
qed

lemma pool_ok_pages: "pool_ok q h \<Longrightarrow> pages_ok q ([] @ sp_pages q) h"
  by (simp add: pool_ok_def)

lemma frozen_bases: "map frozen ps' = map frozen ps \<Longrightarrow> map (\<lambda>x. pg_base (fst x)) ps' = map (\<lambda>x. pg_base (fst x)) ps"
proof -
  assume "map frozen ps' = map frozen ps"
  then have "map fst (map frozen ps') = map fst (map frozen ps)" by simp
  then show ?thesis by (simp add: comp_def frozen_def)
qed

lemma try_reserve_shown:
  assumes "pool_ok q h"
  shows "\<exists>r q' h' g'. sliced_try_reserve n q h g = Ok (r, q', h', g') \<and> pool_ok q' h'
    \<and> map frozen (sp_pages q') = map frozen (sp_pages q)
    \<and> (sp_page_size q', sp_alignment q', sp_base q') = (sp_page_size q, sp_alignment q, sp_base q)
    \<and> (r = None \<longrightarrow> pool_live h' (sp_pages q') = pool_live h (sp_pages q))
    \<and> (\<forall>i. r = Some i \<longrightarrow> one_more n i (pool_live h (sp_pages q)) (pool_live h' (sp_pages q')))"
proof -
  from reserve_pages_shown [OF pool_ok_pages [OF assms], of n g] obtain r ps' h' g' where
    r: "reserve_pages n (sp_pages q) h g = Ok (r, ps', h', g')" "pages_ok q ps' h'"
    "map frozen ps' = map frozen (sp_pages q)" "r = None \<longrightarrow> pool_live h' ps' = pool_live h (sp_pages q)"
    "\<forall>i. r = Some i \<longrightarrow> one_more n i (pool_live h (sp_pages q)) (pool_live h' ps')"
    by auto
  let ?q1 = "q\<lparr>sp_pages := ps'\<rparr>"
  let ?q = "if r \<noteq> None then ?q1\<lparr>sp_largest_alloc := max (sp_largest_alloc ?q1) n\<rparr> else ?q1"
  have "sliced_try_reserve n q h g = Ok (r, ?q, h', g')" by (simp add: sliced_try_reserve_def r(1) Let_def)
  moreover have "pool_ok ?q h'"
    using assms r(2) numbered_cong [OF frozen_bases [OF r(3)]] by (simp add: pool_ok_def)
  moreover have "sp_pages ?q = ps'" by simp
  ultimately show ?thesis using r(3-5) by (intro exI [of _ r] exI [of _ ?q] exI [of _ h'] exI [of _ g']) simp
qed

section \<open>Allocating a page\<close>

lemma page_new_shown:
  assumes "heap_ok h" "0 < al" "sh_offset st = 0" "page_new st al base m h = (p, h')"
  shows "page_ok p h' \<and> frames {} h h' \<and> own_or_fresh {} h (pg_slices p) \<and> live h' p = []
    \<and> pg_storage p = st \<and> pg_alignment p = al \<and> pg_base p = base \<and> pg_mapped p = (m = Eager) \<and> pg_guards p = 0
    \<and> (\<forall>n. fits n h' p \<longleftrightarrow> n + calculate_padding n al \<le> sh_size st)"
proof -
  let ?s = "\<lparr>sl_storage = st, sl_handle = next_id h, sl_padding = 0, sl_cursor = 0, sl_mapped = True, sl_tainted = []\<rparr>"
  have p: "pg_slices p = [?s]" "pg_storage p = st" "pg_alignment p = al" "pg_base p = base" "pg_mapped p = (m = Eager)"
    "pg_guards p = 0" "h' = update_location (next_id h) (base\<lparr>loc_slice := 0\<rparr>) (snd (handle_new h))"
    using assms(4) by (auto simp: page_new_def slice_new_def handle_new_def Let_def)
  have "frames {} h h'"
    unfolding p(7)
    by (rule frames_later [OF frames_handle_new]) (rule frames_ops, simp)
  moreover have "strong_count h' (next_id h) = 1" unfolding p(7) by (simp add: heap_simps)
  ultimately show ?thesis
    using page_new_ok [OF assms] p(1-6)
    by (simp add: own_or_fresh_def live_def slice_is_free_def is_free_def fits_def can_use_slice_def)
qed

lemma own_or_fresh_later:
  assumes "next_id h \<le> next_id h'" "own_or_fresh {} h ss" "own_or_fresh (sl_handle ` set ss) h' ss'"
  shows "own_or_fresh {} h ss'"
  using assms by (fastforce simp: own_or_fresh_def)

lemma alloc_page_cases:
  assumes ok: "pool_ok q h"
    and m: "mapped_handle ops m (sp_page_size q) st = (Ok s, st')" "sh_offset s = 0" "sh_size s = sp_page_size q"
  shows "if n + calculate_padding n (sp_alignment q) \<le> sp_page_size q then
    \<exists>x q' h' p. alloc_page ops n m q h st = (Ok (x, q', h'), st') \<and> pool_ok q' h'
      \<and> sp_pages q' = sp_pages q @ [(p, sh_id s)] \<and> pg_mapped p = (m = Eager)
      \<and> one_more n x (pool_live h (sp_pages q)) (pool_live h' (sp_pages q'))
      \<and> (sp_page_size q', sp_alignment q', sp_base q') = (sp_page_size q, sp_alignment q, sp_base q)
      \<and> frames {} h h' \<and> own_or_fresh {} h (pg_slices p)
    else alloc_page ops n m q h st = (Panic, st')"
proof -
  let ?base = "(sp_base q)\<lparr>loc_page := of_nat (length (sp_pages q))\<rparr>"
  obtain p0 h1 where p0: "page_new s (sp_alignment q) ?base m h = (p0, h1)"
    by (cases "page_new s (sp_alignment q) ?base m h")
  have "heap_ok h" "0 < sp_alignment q" using ok by (auto simp: pool_ok_def pages_ok_def)
  note new = page_new_shown [OF this m(2) p0]
  from reserve_evolved [of p0 h1 n] new obtain r p h' where
    r: "page_try_reserve n p0 h1 = Ok (r, p, h')" "evolved p0 h1 p h'" "r = None \<longleftrightarrow> \<not> fits n h1 p0"
    "\<forall>i. r = Some i \<longrightarrow> one_more n i [] (live h' p)"
    by auto
  have fit: "fits n h1 p0 \<longleftrightarrow> n + calculate_padding n (sp_alignment q) \<le> sp_page_size q" using new m(3) by simp
  show ?thesis
  proof (cases "fits n h1 p0")
    case False
    then show ?thesis using r m(1) p0 fit by (simp add: alloc_page_def Let_def)
  next
    case True
    then obtain x where x: "r = Some x" using r(3) by auto
    note fields = evolved_fields [OF r(2)]
    have id: "sh_id (pg_storage p) = sh_id s" using fields new by simp
    have fr: "frames {} h h'"
    proof (rule frames_later [of _ _ h1])
      show "frames {} h h1" using new by simp
      have "handles_of p0 \<subseteq> {j. next_id h \<le> j}" using new by (auto simp: own_or_fresh_def handles_of_def)
      then show "frames ({} \<union> {j. next_id h \<le> j}) h1 h'" using r(2) by (auto simp: evolved_def intro: frames_weaken)
    qed
    have "next_id h \<le> next_id h1" using new by (simp add: frames_def)
    then have own: "own_or_fresh {} h (pg_slices p)"
      by (rule own_or_fresh_later [of _ h1 "pg_slices p0"]) (use r(2) new in \<open>simp_all add: evolved_def handles_of_def\<close>)
    have at: "page_at q (p, sh_id s) h'"
      unfolding page_at_def page_size_def fst_conv snd_conv
    proof (intro conjI)
      show "page_ok p h'" by (rule evolved_ok [OF r(2)])
      show "\<exists>n. pg_base p = (sp_base q)\<lparr>loc_page := n\<rparr>"
        by (rule exI [of _ "of_nat (length (sp_pages q))"]) (use fields new in simp)
    qed (use fields new m(3) in simp_all)
    have "pages_ok q (sp_pages q @ [(p, sh_id s)]) h' \<and> lives h' (sp_pages q @ []) = lives h (sp_pages q @ [])"
      by (rule pages_insert [OF _ at fr]) (use ok own in \<open>simp_all add: pool_ok_def\<close>)
    then have pages: "pages_ok q (sp_pages q @ [(p, sh_id s)]) h'" "pool_live h' (sp_pages q) = pool_live h (sp_pages q)"
      using lives_pool [of h' "sp_pages q" h] by simp_all
    have num: "numbered q (sp_pages q @ [(p, sh_id s)])"
    proof (rule numbered_snoc)
      show "numbered q (sp_pages q)" using ok by (simp add: pool_ok_def)
      show "pg_base (fst (p, sh_id s)) = ?base" using fields new by (simp only: fst_conv)
    qed
    let ?ps = "sp_pages q @ [(p, sh_id s)]"
    let ?q = "q\<lparr>sp_pages := ?ps, sp_pages_peak := max (sp_pages_peak q) (length ?ps),
      sp_largest_alloc := max (sp_largest_alloc q) n\<rparr>"
    have run: "alloc_page ops n m q h st = (Ok (x, ?q, h'), st')"
      using m(1) p0 r(1) x id by (simp add: alloc_page_def Let_def)
    have "pool_ok ?q h'" using ok pages num by (simp add: pool_ok_def)
    moreover have "one_more n x (pool_live h (sp_pages q)) (pool_live h' (sp_pages ?q))"
      using one_more_context [of n x "[]" "live h' p" "pool_live h (sp_pages q)" "[]"] r(4) x pages(2) by simp
    moreover have "pg_mapped p = (m = Eager)" using fields new by simp
    ultimately show ?thesis using True fit run fr own
      by (simp only: if_True) (intro exI [of _ x] exI [of _ ?q] exI [of _ h'] exI [of _ p], simp)
  qed
qed

section \<open>Pages and the storage behind them\<close>

text \<open>Every page has an id of its own that the storage handed out, and a mapped one an allocation of
  the page size the storage still holds.\<close>

definition backed ::
  "('st \<Rightarrow> storage_id set) \<Rightarrow> ('st \<Rightarrow> storage_id \<rightharpoonup> nat) \<Rightarrow> nat \<Rightarrow> (memory_page \<times> storage_id) list \<Rightarrow> 'st \<Rightarrow> bool" where
  "backed ids held n ps st \<longleftrightarrow> distinct (map snd ps) \<and> snd ` set ps \<subseteq> ids st
    \<and> (\<forall>x \<in> set ps. pg_mapped (fst x) \<longrightarrow> held st (snd x) = Some n)"

lemma backed_cong:
  assumes "map frozen ps' = map frozen ps"
  shows "backed ids held n ps' st = backed ids held n ps st"
proof -
  let ?f = "\<lambda>x. (snd x, pg_mapped (fst x))"
  have eq: "map ?f ps' = map ?f ps"
    using arg_cong [OF assms, of "map (\<lambda>(b, i, m, k). (i, m))"] by (simp add: comp_def frozen_def)
  have ids: "map snd ps' = map snd ps" using arg_cong [OF eq, of "map fst"] by (simp add: comp_def)
  have "?f ` set ps' = ?f ` set ps" using arg_cong [OF eq, of set] by simp
  then have "(\<forall>x \<in> set ps'. P (?f x)) = (\<forall>x \<in> set ps. P (?f x))" for P by (metis (no_types, lifting) image_iff)
  from this [of "\<lambda>(i, m). m \<longrightarrow> held st i = Some n"] ids show ?thesis
    using list.set_map [of snd ps] list.set_map [of snd ps'] by (simp add: backed_def)
qed

lemma page_empty_live: "page_is_empty h p \<longleftrightarrow> live h p = []"
  by (auto simp: page_is_empty_def live_def list_all_iff filter_empty_conv)

lemma update_page_pages:
  assumes ok: "pages_ok q (xs @ (p, i) # ys) h" and u: "page_update_page n p h = (p', h')"
  shows "pages_ok q (xs @ (p', i) # ys) h' \<and> lives h' (xs @ (p', i) # ys) = lives h (xs @ (p, i) # ys)
    \<and> pg_base p' = (sp_base q)\<lparr>loc_page := n\<rparr> \<and> pg_mapped p' = pg_mapped p \<and> pg_guards p' = pg_guards p"
proof -
  from pages_member [OF ok] have at: "page_at q (p, i) h" "page_ok p h" by simp_all
  from update_page_shown [OF at(2) u] have
    p': "page_ok p' h'" "\<forall>i. strong_count h' i = strong_count h i" "p' = p\<lparr>pg_base := (pg_base p)\<lparr>loc_page := n\<rparr>\<rparr>"
    by blast+
  obtain m where m: "pg_base p = (sp_base q)\<lparr>loc_page := m\<rparr>" using at(1) by (auto simp: page_at_def)
  have base: "pg_base p' = (sp_base q)\<lparr>loc_page := n\<rparr>" using m p'(3) by simp
  have hok: "heap_ok h" using ok by (simp add: pages_ok_def)
  have "page_at q (p', i) h'"
    using at(1) p'(1) base unfolding p'(3) by (auto simp: page_at_def page_size_def)
  moreover have "frames (handles_of p) h h'" using update_page_frame [OF u hok] by (simp add: handles_of_def)
  moreover have "own_or_fresh (handles_of p) h (pg_slices (fst (p', i)))"
    by (simp add: own_or_fresh_def handles_of_def p'(3))
  ultimately have "pages_ok q (xs @ (p', i) # ys) h' \<and> lives h' (xs @ ys) = lives h (xs @ ys)"
    by (rule pages_replace [OF ok]) (use pages_others [OF ok] in simp)
  moreover have "live h' p' = live h p"
    using p'(2) by (simp add: live_def slice_is_free_def is_free_def p'(3))
  ultimately show ?thesis using base p'(3) by simp
qed

text \<open>A page that goes out of scope takes its handles with it and nothing else.\<close>

lemma drop_page_pages:
  assumes ok: "pages_ok q (xs @ (p, i) # ys) h" and h': "h' = fold (\<lambda>s. drop_handle (sl_handle s)) (pg_slices p) h"
  shows "pages_ok q (xs @ ys) h' \<and> lives h' (xs @ ys) = lives h (xs @ ys)"
proof -
  have "frames (handles_of p) h h' \<and> heap_ok h'"
    unfolding h' by (rule fold_frame)
      (use ok in \<open>simp_all add: frames_ops handles_of_def heap_ok_ops pages_ok_def\<close>)
  then show ?thesis using pages_frame [OF pages_ok_drop [OF ok], of "handles_of p" h'] pages_others [OF ok] by simp
qed

lemma shed_slices_of: "shed p g = (p', g') \<Longrightarrow> map sl_handle (pg_slices p') = map sl_handle (pg_slices p) \<and> pg_mapped p' = pg_mapped p"
  by (auto simp: shed_def shed_slices_same split: prod.splits)

lemma fold_drop_map: "fold (\<lambda>s. drop_handle (sl_handle s)) ss h = fold drop_handle (map sl_handle ss) h"
  by (induction ss arbitrary: h) simp_all

lemma coalesce_pages:
  assumes ok: "pages_ok q (xs @ (p, i) # ys) h" and c: "coalesce p h g = (p', h', g')"
  shows "pages_ok q (xs @ (p', i) # ys) h' \<and> lives h' (xs @ (p', i) # ys) = lives h (xs @ (p, i) # ys)
    \<and> frozen (p', i) = frozen (p, i)"
proof -
  from coalesce_evolved [OF _ c] pages_member [OF ok] have e: "evolved p h p' h'" "live h' p' = live h p" by simp_all
  from pages_evolve [OF ok e(1)] evolved_frozen [OF e(1), of i] e(2) show ?thesis by simp
qed

lemma release_loop_drop:
  assumes "coalesce p h g = (p1, h1, g1)" "live h1 p1 = []" "\<not> is_guarded p1"
  shows "\<exists>g2. release_loop ops ((p, i) # ps) tmp h g st
    = release_loop ops ps tmp (fold (\<lambda>s. drop_handle (sl_handle s)) (pg_slices p1) h1) g2
        (if pg_mapped p1 then so_dealloc ops i st else st)"
proof -
  obtain p2 g2 where s: "shed p1 g1 = (p2, g2)" by (cases "shed p1 g1")
  from shed_slices_of [OF s] have "fold (\<lambda>s. drop_handle (sl_handle s)) (pg_slices p2) h1
      = fold (\<lambda>s. drop_handle (sl_handle s)) (pg_slices p1) h1" "pg_mapped p2 = pg_mapped p1"
    by (simp_all only: fold_drop_map)
  with assms s show ?thesis by (intro exI [of _ g2]) (simp add: page_empty_live)
qed

lemma release_loop_keep:
  assumes "coalesce p h g = (p1, h1, g1)" "live h1 p1 \<noteq> [] \<or> is_guarded p1"
    "page_update_page (of_nat (length tmp)) p1 h1 = (p2, h2)"
  shows "release_loop ops ((p, i) # ps) tmp h g st = release_loop ops ps (tmp @ [(p2, i)]) h2 g1 st"
  using assms by (auto simp: page_empty_live)

lemma backed_middle:
  assumes "backed ids held n (xs @ x # ys) st" "snd y = snd x" "pg_mapped (fst y) = pg_mapped (fst x)"
  shows "backed ids held n (xs @ y # ys) st"
  using assms by (auto simp: backed_def)

text \<open>The pages that stay.\<close>

definition occupied :: "heap \<Rightarrow> (memory_page \<times> storage_id) list \<Rightarrow> bool" where
  "occupied h ps \<longleftrightarrow> (\<forall>x \<in> set ps. live h (fst x) \<noteq> [] \<or> is_guarded (fst x))"

lemma occupied_frame: "occupied h ps \<Longrightarrow> lives h' ps = lives h ps \<Longrightarrow> occupied h' ps"
  by (auto simp: occupied_def lives_def)

lemma lives_parts:
  assumes "lives h' (xs @ x # ys) = lives h (xs @ y # ys)"
  shows "lives h' xs = lives h xs" "live h' (fst x) = live h (fst y)" "lives h' ys = lives h ys"
  using assms by simp_all

lemma lives_parts_drop:
  assumes "lives h' (xs @ ys) = lives h (xs @ ys)"
  shows "lives h' xs = lives h xs" "lives h' ys = lives h ys"
  using assms by simp_all

lemma release_loop_ids:
  "release_loop ops ps tmp h g st = (ps', h', g', st') \<Longrightarrow>
    snd ` set tmp \<subseteq> snd ` set ps' \<and> snd ` set ps' \<subseteq> snd ` set tmp \<union> snd ` set ps"
proof (induction ps arbitrary: tmp h g st)
  case (Cons x ps)
  obtain p i where x: "x = (p, i)" by (cases x)
  obtain p1 h1 g1 where c: "coalesce p h g = (p1, h1, g1)" by (cases "coalesce p h g")
  show ?case
  proof (cases "live h1 p1 = [] \<and> \<not> is_guarded p1")
    case True
    with release_loop_drop [OF c, of ops i ps tmp st] Cons.prems x obtain h2 g2 st2 where
      "release_loop ops ps tmp h2 g2 st2 = (ps', h', g', st')" by auto
    from Cons.IH [OF this] show ?thesis by auto
  next
    case False
    obtain p2 h2 where u: "page_update_page (of_nat (length tmp)) p1 h1 = (p2, h2)"
      by (cases "page_update_page (of_nat (length tmp)) p1 h1")
    with release_loop_keep [OF c _ u, of ops i ps st] Cons.prems x False
    have "release_loop ops ps (tmp @ [(p2, i)]) h2 g1 st = (ps', h', g', st')" by auto
    from Cons.IH [OF this] x show ?thesis by auto
  qed
qed simp

definition released :: "(memory_page \<times> storage_id) list \<Rightarrow> (memory_page \<times> storage_id) list \<Rightarrow> storage_id set" where
  "released ps ps' = snd ` {x \<in> set ps. pg_mapped (fst x)} - snd ` set ps'"

lemma released_Cons:
  "released ((p, i) # ps) ps' = released ps ps' \<union> (if pg_mapped p \<and> i \<notin> snd ` set ps' then {i} else {})"
proof -
  have "snd ` {x \<in> set ((p, i) # ps). pg_mapped (fst x)}
      = (if pg_mapped p then {i} else {}) \<union> snd ` {x \<in> set ps. pg_mapped (fst x)}" by force
  then show ?thesis by (auto simp: released_def)
qed

context compute_storage
begin

lemma backed_dealloc:
  assumes "sane st" "backed ids held n (xs @ x # ys) st"
  shows "backed ids held n (xs @ ys) (if pg_mapped (fst x) then so_dealloc ops (snd x) st else st)"
proof -
  have "snd x \<notin> snd ` set (xs @ ys)" using assms(2) by (auto simp: backed_def)
  then have "snd y \<noteq> snd x" if "y \<in> set (xs @ ys)" for y using that by (metis imageI)
  with assms show ?thesis
    by (auto simp: backed_def dealloc_held dealloc_ids)
qed

lemma release_loop_shown:
  assumes "pages_ok q (tmp @ ps) h" "numbered q tmp" "occupied h tmp" "sane st" "backed ids held n (tmp @ ps) st"
    "release_loop ops ps tmp h g st = (ps', h', g', st')"
  shows "pages_ok q ps' h' \<and> numbered q ps' \<and> occupied h' ps' \<and> sane st' \<and> backed ids held n ps' st'
    \<and> pool_live h' ps' = pool_live h (tmp @ ps) \<and> held st' = (held st) |` (- released ps ps')"
  using assms
proof (induction ps arbitrary: tmp h g st)
  case Nil
  then show ?case by (simp add: released_def)
next
  case (Cons x ps)
  obtain p i where x: "x = (p, i)" by (cases x)
  obtain p1 h1 g1 where c: "coalesce p h g = (p1, h1, g1)" by (cases "coalesce p h g")
  from coalesce_pages [OF Cons.prems(1) [unfolded x] c] have
    ok1: "pages_ok q (tmp @ (p1, i) # ps) h1" and lv1: "lives h1 (tmp @ (p1, i) # ps) = lives h (tmp @ (p, i) # ps)"
    and fz1: "frozen (p1, i) = frozen (p, i)" by blast+
  note parts1 = lives_parts [OF lv1]
  have map1: "pg_mapped p1 = pg_mapped p" using fz1 by (simp add: frozen_def)
  have fresh: "i \<notin> snd ` set (tmp @ ps)" using Cons.prems(5) x by (auto simp: backed_def)
  show ?case
  proof (cases "live h1 p1 = [] \<and> \<not> is_guarded p1")
    case True
    let ?h = "fold (\<lambda>s. drop_handle (sl_handle s)) (pg_slices p1) h1"
    let ?st = "if pg_mapped p1 then so_dealloc ops i st else st"
    from release_loop_drop [OF c, of ops i ps tmp st] True obtain g2 where
      loop: "release_loop ops (x # ps) tmp h g st = release_loop ops ps tmp ?h g2 ?st" using x by blast
    then have run: "release_loop ops ps tmp ?h g2 ?st = (ps', h', g', st')" using Cons.prems(6) by simp
    from drop_page_pages [OF ok1 refl] have ok2: "pages_ok q (tmp @ ps) ?h"
      and lv2: "lives ?h (tmp @ ps) = lives h1 (tmp @ ps)" by blast+
    note parts2 = lives_parts_drop [OF lv2]
    have occ: "occupied ?h tmp" by (rule occupied_frame [OF Cons.prems(3)]) (simp add: parts1 parts2)
    have sane: "sane ?st" using Cons.prems(4) dealloc_sane by simp
    have bck: "backed ids held n (tmp @ ps) ?st"
      using backed_dealloc [OF Cons.prems(4) Cons.prems(5)] unfolding x fst_conv snd_conv map1 .
    note ih = Cons.IH [OF ok2 Cons.prems(2) occ sane bck run]
    have "pool_live ?h (tmp @ ps) = pool_live h (tmp @ x # ps)"
      using lives_pool [OF parts1(1)] lives_pool [OF parts2(1)] lives_pool [OF parts1(3)] lives_pool [OF parts2(2)]
        parts1(2) True x by simp
    moreover have "i \<notin> snd ` set ps'" using release_loop_ids [OF run] fresh by auto
    then have "released (x # ps) ps' = released ps ps' \<union> (if pg_mapped p then {i} else {})"
      using x by (simp add: released_Cons)
    then have "(held ?st) |` (- released ps ps') = (held st) |` (- released (x # ps) ps')"
      using map1 by (auto simp: dealloc_held [OF Cons.prems(4)] restrict_map_def fun_eq_iff)
    ultimately show ?thesis using ih by simp
  next
    case False
    obtain p2 h2 where u: "page_update_page (of_nat (length tmp)) p1 h1 = (p2, h2)"
      by (cases "page_update_page (of_nat (length tmp)) p1 h1")
    from release_loop_keep [OF c _ u, of ops i ps st] Cons.prems(6) x False
    have run: "release_loop ops ps (tmp @ [(p2, i)]) h2 g1 st = (ps', h', g', st')" by auto
    from update_page_pages [OF ok1 u] have ok2: "pages_ok q (tmp @ (p2, i) # ps) h2"
      and lv2: "lives h2 (tmp @ (p2, i) # ps) = lives h1 (tmp @ (p1, i) # ps)"
      and base: "pg_base p2 = (sp_base q)\<lparr>loc_page := of_nat (length tmp)\<rparr>"
      and same: "pg_mapped p2 = pg_mapped p1" "pg_guards p2 = pg_guards p1" by blast+
    note parts2 = lives_parts [OF lv2]
    have ok3: "pages_ok q ((tmp @ [(p2, i)]) @ ps) h2" using ok2 by simp
    have num: "numbered q (tmp @ [(p2, i)])" by (rule numbered_snoc [OF Cons.prems(2)]) (simp add: base)
    have "occupied h2 tmp" by (rule occupied_frame [OF Cons.prems(3)]) (simp add: parts1 parts2)
    then have occ: "occupied h2 (tmp @ [(p2, i)])"
      using False parts2(2) same(2) by (auto simp: occupied_def is_guarded_def)
    have bck: "backed ids held n ((tmp @ [(p2, i)]) @ ps) st"
      using backed_middle [OF Cons.prems(5), of "(p2, i)"] x map1 same(1) by simp
    note ih = Cons.IH [OF ok3 num occ Cons.prems(4) bck run]
    have "pool_live h2 ((tmp @ [(p2, i)]) @ ps) = pool_live h (tmp @ x # ps)"
      using lives_pool [OF parts1(1)] lives_pool [OF parts2(1)] lives_pool [OF parts1(3)] lives_pool [OF parts2(3)]
        parts1(2) parts2(2) x by simp
    moreover have "i \<in> snd ` set ps'" using release_loop_ids [OF run] by auto
    then have "released (x # ps) ps' = released ps ps'" using x by (auto simp: released_Cons)
    ultimately show ?thesis using ih by simp
  qed
qed

end

section \<open>Binding, guarding and materialising a page\<close>

lemma split_at: "k < length ps \<Longrightarrow> ps = take k ps @ ps ! k # drop (Suc k) ps"
  by (rule id_take_nth_drop)

lemma update_at: "k < length ps \<Longrightarrow> ps[k := x] = take k ps @ x # drop (Suc k) ps"
  by (rule upd_conv_take_nth_drop)

text \<open>A page changed in a way the handles and the heap do not see.\<close>

lemma pool_ok_set_page:
  assumes ok: "pool_ok q h" and k: "k < length (sp_pages q)" and at: "page_at q (p', i') h"
    and same: "map sl_handle (pg_slices p') = map sl_handle (pg_slices (fst (sp_pages q ! k)))"
      "pg_base p' = pg_base (fst (sp_pages q ! k))"
  shows "pool_ok (q\<lparr>sp_pages := (sp_pages q)[k := (p', i')]\<rparr>) h"
proof -
  let ?ps = "sp_pages q"
  have ps: "pages_ok q (take k ?ps @ ?ps ! k # drop (Suc k) ?ps) h"
    using ok k by (simp add: pool_ok_def flip: split_at)
  have "own_or_fresh (handles_of (fst (?ps ! k))) h (pg_slices (fst (p', i')))"
    using arg_cong [OF same(1), of set] by (auto simp: own_or_fresh_def handles_of_def)
  from pages_replace [OF ps at frames_refl this pages_others [OF ps]]
  have "pages_ok q (?ps[k := (p', i')]) h" by (simp add: update_at k)
  moreover have "map (\<lambda>x. pg_base (fst x)) (?ps[k := (p', i')]) = map (\<lambda>x. pg_base (fst x)) ?ps"
    using same(2) k by (simp add: map_update list_update_same_conv)
  ultimately show ?thesis using ok numbered_cong [of "?ps[k := (p', i')]" ?ps q] by (simp add: pool_ok_def)
qed

lemma pool_page:
  assumes "pool_ok q h" "k < length (sp_pages q)"
  shows "page_at q (sp_pages q ! k) h" "page_ok (fst (sp_pages q ! k)) h"
    "pg_base (fst (sp_pages q ! k)) = (sp_base q)\<lparr>loc_page := of_nat k\<rparr>"
  using assms by (auto simp: pool_ok_def pages_ok_def page_at_def numbered_def)

lemma guards_ok:
  "page_ok (page_guard p) h = page_ok p h" "page_ok (guard_drop p) h = page_ok p h"
  "page_size (page_guard p) = page_size p" "page_size (guard_drop p) = page_size p"
  "pg_alignment (page_guard p) = pg_alignment p" "pg_alignment (guard_drop p) = pg_alignment p"
  "pg_storage (page_guard p) = pg_storage p" "pg_storage (guard_drop p) = pg_storage p"
  "pg_base (page_guard p) = pg_base p" "pg_base (guard_drop p) = pg_base p"
  by (simp_all add: page_ok_def page_layout_def page_guard_def guard_drop_def page_size_def)

lemma guard_pool_ok:
  assumes "pool_ok q h" "k < length (sp_pages q)"
    "p' = page_guard (fst (sp_pages q ! k)) \<or> p' = guard_drop (fst (sp_pages q ! k))"
  shows "pool_ok (q\<lparr>sp_pages := (sp_pages q)[k := (p', snd (sp_pages q ! k))]\<rparr>) h"
proof (rule pool_ok_set_page [OF assms(1,2)])
  show "page_at q (p', snd (sp_pages q ! k)) h"
    using pool_page(1) [OF assms(1,2)] assms(3)
    by (elim disjE) (simp_all only: page_at_def guards_ok fst_conv snd_conv)
qed (use assms(3) in \<open>auto simp: page_guard_def guard_drop_def\<close>)

lemma rebind_pool_ok:
  assumes "pool_ok q h" "k < length (sp_pages q)"
  shows "pool_ok (q\<lparr>sp_pages := (sp_pages q)[k := (rebind_storage i (fst (sp_pages q ! k)), i)]\<rparr>) h"
proof (rule pool_ok_set_page [OF assms])
  show "page_at q (rebind_storage i (fst (sp_pages q ! k)), i) h"
    using pool_page(1) [OF assms] rebind_ok [OF pool_page(2) [OF assms], of i]
    by (simp add: page_at_def rebind_storage_def page_size_def)
qed (simp_all add: rebind_storage_def comp_def)

lemma pool_bind_shown:
  fixes c :: nat
  assumes ok: "pool_ok q h" and k: "k < length (sp_pages q)" "k < 2 ^ 16"
    and j: "j < length (pg_slices (fst (sp_pages q ! k)))" "length (pg_slices (fst (sp_pages q ! k))) \<le> 2 ^ 32"
    and new: "new \<in> dom (descs h)" "new \<notin> all_handles (sp_pages q)"
  defines "i \<equiv> sl_handle (pg_slices (fst (sp_pages q ! k)) ! j)"
  shows "\<exists>q' h' g'. sliced_bind i new c q h g = Ok (q', h', g') \<and> pool_ok q' h'
    \<and> map frozen (sp_pages q') = map frozen (sp_pages q)
    \<and> (sp_page_size q', sp_alignment q', sp_base q') = (sp_page_size q, sp_alignment q, sp_base q)"
proof -
  let ?ps = "sp_pages q"
  obtain p a where pa: "?ps ! k = (p, a)" by (cases "?ps ! k")
  note page = pool_page [OF ok k(1), unfolded pa fst_conv]
  have loc: "location h i = (pg_base p)\<lparr>loc_slice := of_nat j\<rparr>"
    using page(2) j(1) unfolding i_def pa fst_conv page_ok_def slots_ok_def by blast
  have "unat (of_nat k :: 16 word) = k" using k(2) by (simp add: unat_of_nat take_bit_nat_eq_self)
  then have index: "page_index h i = k" by (simp add: page_index_def loc page(3))
  have new': "new \<notin> sl_handle ` set (pg_slices p)"
    using new(2) k(1) pa nth_mem [OF k(1)] by (fastforce simp: all_handles_def handles_of_def)
  let ?s = "(pg_slices p ! j)\<lparr>sl_cursor := c, sl_tainted := [], sl_handle := new\<rparr>"
  let ?p = "p\<lparr>pg_slices := (pg_slices p)[j := ?s]\<rparr>"
  from page_bind_shown [OF page(2) j [unfolded pa fst_conv] new(1) new', of c g] obtain h' g' where
    b: "page_bind i new c p h g = Ok (?p, h', g')" "page_ok ?p h'"
    unfolding i_def pa fst_conv by blast
  let ?q = "q\<lparr>sp_pages := ?ps[k := (?p, a)]\<rparr>"
  have run: "sliced_bind i new c q h g = Ok (?q, h', g')"
    using b(1) k(1) pa index by (simp add: sliced_bind_def Let_def get_opt_def)
  have ps: "pages_ok q (take k ?ps @ (p, a) # drop (Suc k) ?ps) h"
    using ok k(1) pa split_at [OF k(1)] by (simp add: pool_ok_def)
  have own: "i \<in> handles_of p" using j(1) by (simp add: i_def pa handles_of_def)
  have "page_at q (?p, a) h'" using page(1) b(2) by (simp add: page_at_def page_size_def)
  moreover have "frames (insert new (handles_of p)) h h'"
    by (rule frames_weaken [OF page_bind_frame [OF b(1)]]) (use own in \<open>auto simp: handles_of_def\<close>)
  moreover have "own_or_fresh (insert new (handles_of p)) h (pg_slices (fst (?p, a)))"
    by (auto simp: own_or_fresh_def handles_of_def dest!: set_update_subset_insert [THEN subsetD])
  moreover have "all_handles (take k ?ps @ drop (Suc k) ?ps) \<inter> insert new (handles_of p) = {}"
    using pages_others [OF ps] new(2) by (auto simp: all_handles_def dest: in_set_takeD in_set_dropD)
  ultimately have "pages_ok q (?ps[k := (?p, a)]) h'"
    using pages_replace [OF ps] by (simp add: update_at k(1))
  moreover have fz: "map frozen (?ps[k := (?p, a)]) = map frozen ?ps"
    using k(1) pa by (simp add: map_update list_update_same_conv frozen_def)
  ultimately have "pool_ok ?q h'" using ok numbered_cong [OF frozen_bases [OF fz]] by (simp add: pool_ok_def)
  with run fz show ?thesis by (intro exI [of _ ?q] exI [of _ h'] exI [of _ g']) simp
qed

section \<open>Runs of a pool\<close>

text \<open>Every sequence of pool operations, of operations on handles by their owners and of use of the
  storage by others.\<close>

inductive pool_run ::
  "'st storage_ops \<Rightarrow> ('st \<Rightarrow> bool) \<Rightarrow> sliced_pool \<Rightarrow> heap \<Rightarrow> error_graph \<Rightarrow> 'st \<Rightarrow> bool" for ops sane where
  new: "heap_ok h \<Longrightarrow> sane st \<Longrightarrow> 0 < ly_alignment layout \<Longrightarrow> pool_run ops sane (sliced_new layout) h g st"
| narrow: "pool_run ops sane q h g st \<Longrightarrow> pool_run ops sane (up_to_max_slice q) h g st"
| reserve: "pool_run ops sane q h g st \<Longrightarrow> sliced_try_reserve n q h g = Ok (r, q', h', g') \<Longrightarrow>
    pool_run ops sane q' h' g' st"
| alloc: "pool_run ops sane q h g st \<Longrightarrow> alloc_page ops n m q h st = (Ok (x, q', h'), st') \<Longrightarrow>
    pool_run ops sane q' h' g st'"
| alloc_err: "pool_run ops sane q h g st \<Longrightarrow> alloc_page ops n m q h st = (Err e, st') \<Longrightarrow> pool_run ops sane q h g st'"
| backing: "pool_run ops sane q h g st \<Longrightarrow> map_page ops k q st = (Ok q', st') \<Longrightarrow> pool_run ops sane q' h g st'"
| backing_err: "pool_run ops sane q h g st \<Longrightarrow> map_page ops k q st = (Err e, st') \<Longrightarrow> pool_run ops sane q h g st'"
| cleanup: "pool_run ops sane q h g st \<Longrightarrow> sliced_cleanup ops nr c q h g st = (q', h', g', st') \<Longrightarrow>
    pool_run ops sane q' h' g' st'"
| bind: "pool_run ops sane q h g st \<Longrightarrow> k < length (sp_pages q) \<Longrightarrow> length (sp_pages q) \<le> 2 ^ 16 \<Longrightarrow>
    s \<in> set (pg_slices (fst (sp_pages q ! k))) \<Longrightarrow> length (pg_slices (fst (sp_pages q ! k))) \<le> 2 ^ 32 \<Longrightarrow>
    i \<in> dom (descs h) \<Longrightarrow> i \<notin> all_handles (sp_pages q) \<Longrightarrow>
    sliced_bind (sl_handle s) i c q h g = Ok (q', h', g') \<Longrightarrow> pool_run ops sane q' h' g' st"
| guard: "pool_run ops sane q h g st \<Longrightarrow> sliced_guard l q = Some q' \<Longrightarrow> pool_run ops sane q' h g st"
| unguard: "pool_run ops sane q h g st \<Longrightarrow> k < length (sp_pages q) \<Longrightarrow>
    pool_run ops sane (q\<lparr>sp_pages := (sp_pages q)[k := (guard_drop (fst (sp_pages q ! k)), snd (sp_pages q ! k))]\<rparr>) h g st"
| other_alloc: "pool_run ops sane q h g st \<Longrightarrow> so_alloc ops n st = (r, st') \<Longrightarrow> r \<noteq> Panic \<Longrightarrow> pool_run ops sane q h g st'"
| other_dealloc: "pool_run ops sane q h g st \<Longrightarrow> i \<notin> snd ` set (sp_pages q) \<Longrightarrow>
    pool_run ops sane q h g (so_dealloc ops i st)"
| fails: "pool_run ops sane q h g st \<Longrightarrow> pool_run ops sane q h g' st"
| user_new: "pool_run ops sane q h g st \<Longrightarrow> pool_run ops sane q (snd (handle_new h)) g st"
| user_clone: "pool_run ops sane q h g st \<Longrightarrow> pool_run ops sane q (clone_handle i h) g st"
| user_binding: "pool_run ops sane q h g st \<Longrightarrow> pool_run ops sane q (binding i h) g st"
| user_clone_binding: "pool_run ops sane q h g st \<Longrightarrow> pool_run ops sane q (clone_binding i h) g st"
| user_drop: "pool_run ops sane q h g st \<Longrightarrow> \<not> is_free h i \<Longrightarrow> pool_run ops sane q (drop_handle i h) g st"
| user_drop_binding: "pool_run ops sane q h g st \<Longrightarrow> \<not> is_free h i \<Longrightarrow> is_bound h i \<Longrightarrow>
    pool_run ops sane q (drop_binding i h) g st"

lemma pool_ok_heap:
  assumes "pool_ok q h" "heap_ok h'" "\<And>i. i \<in> dom (descs h) \<Longrightarrow> i \<in> dom (descs h') \<and> location h' i = location h i"
  shows "pool_ok q h'"
  using assms(1,2) page_ok_heap [OF _ assms(2,3)] by (auto simp: pool_ok_def pages_ok_def page_at_def)

lemma user_steps:
  assumes "pool_ok q h"
  shows "pool_ok q (snd (handle_new h))" "pool_ok q (clone_handle i h)" "pool_ok q (binding i h)"
    "pool_ok q (clone_binding i h)" "\<not> is_free h i \<Longrightarrow> pool_ok q (drop_handle i h)"
    "\<not> is_free h i \<Longrightarrow> is_bound h i \<Longrightarrow> pool_ok q (drop_binding i h)"
proof -
  have hok: "heap_ok h" using assms by (simp add: pool_ok_def pages_ok_def)
  show "pool_ok q (snd (handle_new h))"
    by (rule pool_ok_heap [OF assms]) (use hok heap_ok_fresh [OF hok] in \<open>auto simp: heap_simps heap_ok_ops\<close>)
  show "pool_ok q (clone_handle i h)" "pool_ok q (binding i h)" "pool_ok q (clone_binding i h)"
    "\<not> is_free h i \<Longrightarrow> pool_ok q (drop_handle i h)" "\<not> is_free h i \<Longrightarrow> is_bound h i \<Longrightarrow> pool_ok q (drop_binding i h)"
    by (rule pool_ok_heap [OF assms];
        use hok in \<open>simp add: heap_simps heap_ok_ops is_free_def not_le del: domIff\<close>)+
qed

definition served ::
  "('st \<Rightarrow> storage_id set) \<Rightarrow> ('st \<Rightarrow> storage_id \<rightharpoonup> nat) \<Rightarrow> ('st \<Rightarrow> bool) \<Rightarrow> sliced_pool \<Rightarrow> heap \<Rightarrow> 'st \<Rightarrow> bool" where
  "served ids held sane q h st \<longleftrightarrow>
    pool_ok q h \<and> sane st \<and> backed ids held (sp_page_size q) (sp_pages q) st"

context compute_storage
begin

lemma backed_grows:
  assumes "backed ids held n ps st" "ids st \<subseteq> ids st'" "\<And>i. i \<in> ids st \<Longrightarrow> held st' i = held st i"
  shows "backed ids held n ps st'"
  using assms by (fastforce simp: backed_def)

lemma backed_swap:
  assumes "backed ids held n (xs @ y # ys) st" "snd x \<notin> snd ` set (xs @ ys)" "snd x \<in> ids st" "held st (snd x) = Some n"
  shows "backed ids held n (xs @ x # ys) st"
  using assms by (auto simp: backed_def)

lemma backed_alloc:
  assumes "sane st" "backed ids held n ps st" "so_alloc ops m st = (r, st')" "r \<noteq> Panic"
  shows "backed ids held n ps st' \<and> sane st'"
proof (cases r)
  case (Ok s)
  with assms alloc_fresh [of st m s st'] show ?thesis
    by (auto intro!: backed_grows [OF assms(2)] alloc_sane [OF assms(1,3,4)])
next
  case (Err e)
  with assms alloc_err [of st m e st'] show ?thesis
    by (auto intro!: backed_grows [OF assms(2)] alloc_sane [OF assms(1,3,4)])
qed (use assms in simp)

lemma backed_snoc:
  assumes "sane st" "backed ids held n ps st" "mapped_handle ops m n st = (Ok s, st')" "pg_mapped p = (m = Eager)"
  shows "backed ids held n (ps @ [(p, sh_id s)]) st' \<and> sane st' \<and> sh_offset s = 0 \<and> sh_size s = n"
proof -
  note fresh = mapped_handle_fresh [OF assms(1,3)]
  have ids: "ids st' = insert (sh_id s) (ids st)"
    using assms(1,3) alloc_fresh mint_fresh [OF assms(1)]
    by (auto simp: mapped_handle_def split: page_mapping.splits prod.splits)
  have "backed ids held n ps st'" by (rule backed_grows [OF assms(2)]) (use fresh ids in auto)
  with fresh ids assms(2,4) show ?thesis by (auto simp: backed_def)
qed

lemma alloc_served:
  assumes sv: "served ids held sane q h st" and a: "alloc_page ops n m q h st = (r, st')" "r \<noteq> Panic"
  shows "sane st' \<and> (case r of Ok (x, q', h') \<Rightarrow> served ids held sane q' h' st' | _ \<Rightarrow> served ids held sane q h st')"
proof -
  have ok: "pool_ok q h" and sane: "sane st" and b: "backed ids held (sp_page_size q) (sp_pages q) st"
    using sv by (simp_all add: served_def)
  obtain r1 st1 where m: "mapped_handle ops m (sp_page_size q) st = (r1, st1)"
    by (cases "mapped_handle ops m (sp_page_size q) st")
  show ?thesis
  proof (cases r1)
    case (Ok s)
    note fresh = mapped_handle_fresh [OF sane m [unfolded Ok]]
    have m1: "mapped_handle ops m (sp_page_size q) st = (Ok s, st1)" using m Ok by simp
    have st1: "sh_offset s = 0" "sh_size s = sp_page_size q" using fresh by simp_all
    from alloc_page_cases [OF ok m1 st1, of n] a obtain x q' h' p where
      q': "r = outcome.Ok (x, q', h')" "st' = st1" "pool_ok q' h'" "sp_pages q' = sp_pages q @ [(p, sh_id s)]"
      "pg_mapped p = (m = Eager)" "sp_page_size q' = sp_page_size q"
      by (auto split: if_splits)
    from backed_snoc [OF sane b m1 q'(5)] q' show ?thesis by (simp add: served_def)
  next
    case (Err e)
    with m have "so_alloc ops (sp_page_size q) st = (r1, st1)"
      by (auto simp: mapped_handle_def split: page_mapping.splits prod.splits)
    with backed_alloc [OF sane b this] m Err a ok show ?thesis
      by (auto simp: alloc_page_def Let_def served_def)
  next
    case Panic
    with m a show ?thesis by (auto simp: alloc_page_def Let_def)
  qed
qed

lemma map_page_served:
  assumes sv: "served ids held sane q h st" and a: "map_page ops k q st = (r, st')" "r \<noteq> Panic"
  shows "(case r of Ok q' \<Rightarrow> served ids held sane q' h st' \<and> k < length (sp_pages q') \<and> pg_mapped (fst (sp_pages q' ! k))
      | _ \<Rightarrow> served ids held sane q h st')"
proof -
  have ok: "pool_ok q h" and sane: "sane st" and b: "backed ids held (sp_page_size q) (sp_pages q) st"
    using sv by (simp_all add: served_def)
  from a have k: "k < length (sp_pages q)" by (auto simp: map_page_def split: option.splits)
  obtain p i where pi: "sp_pages q ! k = (p, i)" by (cases "sp_pages q ! k")
  have size: "page_size p = sp_page_size q" using pool_page(1) [OF ok k] pi by (simp add: page_at_def)
  show ?thesis
  proof (cases "pg_mapped p")
    case True
    with a k pi sv show ?thesis by (auto simp: map_page_def get_opt_def)
  next
    case False
    obtain r1 st1 where al: "so_alloc ops (page_size p) st = (r1, st1)" by (cases "so_alloc ops (page_size p) st")
    have np: "r1 \<noteq> Panic" "st' = st1" using a k pi False al
      by (auto simp: map_page_def get_opt_def split: outcome.splits)
    note grown = backed_alloc [OF sane b al np(1)]
    show ?thesis
    proof (cases r1)
      case (Ok s)
      have al1: "so_alloc ops (page_size p) st = (outcome.Ok s, st1)" using al Ok by simp
      note fresh = alloc_fresh [OF sane al1]
      let ?x = "(rebind_storage (sh_id s) p, sh_id s)"
      have r: "r = outcome.Ok (q\<lparr>sp_pages := (sp_pages q)[k := ?x]\<rparr>)"
        using a k pi False al1 by (simp add: map_page_def get_opt_def)
      have "backed ids held (sp_page_size q) (take k (sp_pages q) @ ?x # drop (Suc k) (sp_pages q)) st1"
      proof (rule backed_swap [of _ _ "sp_pages q ! k"])
        show "backed ids held (sp_page_size q) (take k (sp_pages q) @ sp_pages q ! k # drop (Suc k) (sp_pages q)) st1"
          using grown k by (simp flip: split_at)
        show "snd ?x \<notin> snd ` set (take k (sp_pages q) @ drop (Suc k) (sp_pages q))"
        proof -
          have "set (take k (sp_pages q) @ drop (Suc k) (sp_pages q)) \<subseteq> set (sp_pages q)"
            by (auto dest: in_set_takeD in_set_dropD)
          then have "snd ` set (take k (sp_pages q) @ drop (Suc k) (sp_pages q)) \<subseteq> ids st"
            using b unfolding backed_def by blast
          then show ?thesis using fresh by auto
        qed
      qed (use fresh size in simp_all)
      then have "backed ids held (sp_page_size q) ((sp_pages q)[k := ?x]) st1" using k by (simp add: update_at)
      then show ?thesis
        using r k grown rebind_pool_ok [OF ok k, of "sh_id s"] pi np(2)
        by (simp add: served_def) (simp add: rebind_storage_def)
    next
      case (Err e)
      with a k pi False al grown ok np show ?thesis
        by (auto simp: map_page_def get_opt_def served_def)
    qed (use np in simp)
  qed
qed

lemma release_served:
  assumes sv: "served ids held sane q h st" and r: "release_empty ops q h g st = (q', h', g', st')"
  shows "served ids held sane q' h' st' \<and> occupied h' (sp_pages q')
    \<and> pool_live h' (sp_pages q') = pool_live h (sp_pages q)
    \<and> held st' = (held st) |` (- released (sp_pages q) (sp_pages q'))"
proof -
  obtain ps where ps: "release_loop ops (sp_pages q) [] h g st = (ps, h', g', st')" and q': "q' = q\<lparr>sp_pages := ps\<rparr>"
    using r by (auto simp: release_empty_def split: prod.splits)
  have pre: "pages_ok q ([] @ sp_pages q) h" "numbered q []" "occupied h []" "sane st"
    "backed ids held (sp_page_size q) ([] @ sp_pages q) st"
    using sv by (simp_all add: served_def pool_ok_def numbered_def occupied_def)
  from release_loop_shown [OF pre ps] sv show ?thesis by (simp add: q' served_def pool_ok_def)
qed

lemma pool_run_served:
  "pool_run ops sane q h g st \<Longrightarrow> served ids held sane q h st"
proof (induction rule: pool_run.induct)
  case (new h st layout g)
  then show ?case
    by (simp add: served_def pool_ok_def pages_ok_def numbered_def backed_def sliced_new_def)
next
  case (narrow q h g st)
  then show ?case by (simp add: served_def pool_ok_def up_to_max_slice_def)
next
  case (reserve q h g st n r q' h' g')
  then have "pool_ok q h" by (simp add: served_def)
  from try_reserve_shown [OF this, of n g] reserve.hyps(2) have
    "pool_ok q' h'" "map frozen (sp_pages q') = map frozen (sp_pages q)" "sp_page_size q' = sp_page_size q" by auto
  with reserve.IH backed_cong [OF this(2), of ids held "sp_page_size q" st] show ?case by (simp add: served_def)
next
  case (alloc q h g st n m x q' h' st')
  from alloc_served [OF alloc.IH alloc.hyps(2)] show ?case by simp
next
  case (alloc_err q h g st n m e st')
  from alloc_served [OF alloc_err.IH alloc_err.hyps(2)] show ?case by simp
next
  case (backing q h g st k q' st')
  from map_page_served [OF backing.IH backing.hyps(2)] show ?case by simp
next
  case (backing_err q h g st k e st')
  from map_page_served [OF backing_err.IH backing_err.hyps(2)] show ?case by simp
next
  case (cleanup q h g st nr c q' h' g' st')
  then show ?case using release_served [OF cleanup.IH] by (auto simp: sliced_cleanup_def split: if_splits)
next
  case (bind q h g st k s i c q' h' g')
  from bind.hyps(4) obtain j where j: "j < length (pg_slices (fst (sp_pages q ! k)))"
    "s = pg_slices (fst (sp_pages q ! k)) ! j" by (auto simp: in_set_conv_nth)
  have "pool_ok q h" "k < 2 ^ 16" using bind.IH bind.hyps(2,3) by (simp_all add: served_def)
  from pool_bind_shown [OF this(1) bind.hyps(2) this(2) j(1) bind.hyps(5-7), of c g] bind.hyps(8) j(2) have
    "pool_ok q' h'" "map frozen (sp_pages q') = map frozen (sp_pages q)" "sp_page_size q' = sp_page_size q" by auto
  with bind.IH backed_cong [OF this(2), of ids held "sp_page_size q" st] show ?case by (simp add: served_def)
next
  case (guard q h g st l q')
  let ?k = "unat (loc_page l)"
  from guard.hyps(2) have k: "?k < length (sp_pages q)" "q' = q\<lparr>sp_pages := (sp_pages q)[?k :=
      (page_guard (fst (sp_pages q ! ?k)), snd (sp_pages q ! ?k))]\<rparr>"
    by (auto simp: sliced_guard_def split: option.splits prod.splits)
  have "pool_ok q' h" using guard_pool_ok [OF _ k(1)] guard.IH unfolding k(2) served_def by blast
  moreover have "backed ids held (sp_page_size q) (take ?k (sp_pages q) @
      (page_guard (fst (sp_pages q ! ?k)), snd (sp_pages q ! ?k)) # drop (Suc ?k) (sp_pages q)) st"
    by (rule backed_middle [of _ _ _ _ "sp_pages q ! ?k"])
      (use guard.IH k(1) in \<open>simp_all add: served_def page_guard_def flip: split_at\<close>)
  ultimately show ?case using guard.IH k by (simp add: served_def update_at)
next
  case (unguard q h g st k)
  have "backed ids held (sp_page_size q) (take k (sp_pages q) @
      (guard_drop (fst (sp_pages q ! k)), snd (sp_pages q ! k)) # drop (Suc k) (sp_pages q)) st"
    by (rule backed_middle [of _ _ _ _ "sp_pages q ! k"])
      (use unguard.IH unguard.hyps(2) in \<open>simp_all add: served_def guard_drop_def flip: split_at\<close>)
  with unguard.IH unguard.hyps(2) guard_pool_ok [OF _ unguard.hyps(2)] show ?case
    by (simp add: served_def update_at)
next
  case (other_alloc q h g st n r st')
  then show ?case using backed_alloc [of st "sp_page_size q" "sp_pages q" n r st'] by (simp add: served_def)
next
  case (other_dealloc q h g st i)
  then show ?case by (auto simp: served_def dealloc_sane backed_def dealloc_ids dealloc_held)
qed (simp_all add: served_def user_steps)

end

section \<open>What a pool promises\<close>

lemma pool_find:
  assumes "pool_ok q h" "length (sp_pages q) \<le> 2 ^ 16" "k < length (sp_pages q)"
    "length (pg_slices (fst (sp_pages q ! k))) \<le> 2 ^ 32" "s \<in> set (pg_slices (fst (sp_pages q ! k)))"
  shows "page_index h (sl_handle s) = k \<and> page_find (sl_handle s) (fst (sp_pages q ! k)) h = Ok s
    \<and> sliced_find (sl_handle s) q h = Ok s"
proof -
  obtain p a where pa: "sp_pages q ! k = (p, a)" by (cases "sp_pages q ! k")
  note page = pool_page [OF assms(1,3), unfolded pa fst_conv]
  from assms(5) pa obtain j where j: "j < length (pg_slices p)" "s = pg_slices p ! j" by (auto simp: in_set_conv_nth)
  have slots: "slots_ok (pg_base p) (pg_slices p) h" using page(2) by (simp add: page_ok_def)
  then have loc: "location h (sl_handle s) = (pg_base p)\<lparr>loc_slice := of_nat j\<rparr>" using j by (simp add: slots_ok_def)
  have "k < 2 ^ 16" using assms(2,3) by linarith
  then have "unat (of_nat k :: 16 word) = k" by (simp add: unat_of_nat take_bit_nat_eq_self)
  then have pi: "page_index h (sl_handle s) = k" by (simp add: page_index_def loc page(3))
  have "slice_index h (sl_handle s) = j" using slot_index [OF slots j(1)] assms(4) pa j(2) by simp
  then have pf: "page_find (sl_handle s) p h = Ok s" using j by (simp add: page_find_def Let_def)
  with pi assms(3) pa show ?thesis by (simp add: sliced_find_def Let_def get_opt_def)
qed

text \<open>C23: A sliced pool never hands out overlapping memory: over any storage that keeps the
  \<open>ComputeStorage\<close> contract, in every run of reservations, page allocations (granted or refused),
  lazy pages getting their backing, cleanups that renumber pages, binds and guards, with owners
  cloning and dropping their handles and others using the storage, the pages have distinct
  buffers, the live slices of a page are disjoint, aligned and inside it, a mapped page is backed
  by an allocation of its size that the storage still holds, and every handle finds its slice.\<close>

theorem sliced_pool_safe:
  assumes "compute_storage ops ids held sane" "pool_run ops sane q h g st"
  shows "distinct (map snd (sp_pages q)) \<and>
    (\<forall>k < length (sp_pages q). case sp_pages q ! k of (p, i) \<Rightarrow>
      sorted_wrt before (live h p)
      \<and> (\<forall>s \<in> set (live h p). sh_offset (sl_storage s) + effective_size s \<le> sp_page_size q
          \<and> sp_alignment q dvd sh_offset (sl_storage s) \<and> sh_id (sl_storage s) = i)
      \<and> (pg_mapped p \<longrightarrow> held st i = Some (sp_page_size q))
      \<and> (length (sp_pages q) \<le> 2 ^ 16 \<longrightarrow> length (pg_slices p) \<le> 2 ^ 32 \<longrightarrow>
          (\<forall>s \<in> set (pg_slices p). sliced_find (sl_handle s) q h = Ok s)))"
proof -
  from compute_storage.pool_run_served [OF assms] have
    ok: "pool_ok q h" and b: "backed ids held (sp_page_size q) (sp_pages q) st" by (simp_all add: served_def)
  have "sorted_wrt before (live h p)
      \<and> (\<forall>s \<in> set (live h p). sh_offset (sl_storage s) + effective_size s \<le> sp_page_size q
          \<and> sp_alignment q dvd sh_offset (sl_storage s) \<and> sh_id (sl_storage s) = i)
      \<and> (pg_mapped p \<longrightarrow> held st i = Some (sp_page_size q))
      \<and> (length (sp_pages q) \<le> 2 ^ 16 \<longrightarrow> length (pg_slices p) \<le> 2 ^ 32 \<longrightarrow>
          (\<forall>s \<in> set (pg_slices p). sliced_find (sl_handle s) q h = Ok s))"
    if k: "k < length (sp_pages q)" and pi: "sp_pages q ! k = (p, i)" for k p i
  proof -
    note page = pool_page(1) [OF ok k, unfolded pi page_at_def fst_conv snd_conv]
    have "(p, i) \<in> set (sp_pages q)" using nth_mem [OF k] pi by simp
    then have "pg_mapped p \<longrightarrow> held st i = Some (sp_page_size q)" using b by (auto simp: backed_def)
    moreover note page_ok_live [of p h] page
    moreover have "sliced_find (sl_handle s) q h = Ok s"
      if "length (sp_pages q) \<le> 2 ^ 16" "length (pg_slices p) \<le> 2 ^ 32" "s \<in> set (pg_slices p)" for s
      using pool_find [OF ok that(1) k] that pi by simp
    ultimately show ?thesis by auto
  qed
  with b show ?thesis by (auto simp: backed_def split: prod.splits)
qed

lemma accept_fits:
  assumes "sliced_accept q n" "sp_max_slice_size q \<le> sp_page_size q" "0 < sp_alignment q"
    "sp_alignment q dvd sp_page_size q"
  shows "n + calculate_padding n (sp_alignment q) \<le> sp_page_size q"
proof -
  have "n \<le> sp_page_size q"
    using assms(1,2) by (auto simp: sliced_accept_def checked_sub_def split: option.splits if_splits)
  with assms(3,4) show ?thesis by (simp add: padding_next_multiple next_multiple_of_least)
qed

text \<open>Reserving an accepted size never panics: on a pool whose page size is a multiple of the
  alignment, \<open>reserve\<close> of a size the pool accepts gives one more live slice of that size, or fails
  with the very error the storage answered for a fresh page and leaves the live slices alone.\<close>

theorem reserve_accepted:
  assumes "compute_storage ops ids held sane" "served ids held sane q h st"
    and "sliced_accept q n" "sp_max_slice_size q \<le> sp_page_size q" "sp_alignment q dvd sp_page_size q"
    and "fst (so_alloc ops (sp_page_size q) st) \<noteq> Panic"
    and "sliced_reserve ops n m q h g st = (r, q', h', g', st')"
  shows "served ids held sane q' h' st' \<and>
    (case r of
       Ok x \<Rightarrow> one_more n x (pool_live h (sp_pages q)) (pool_live h' (sp_pages q'))
     | Err e \<Rightarrow> m = Eager \<and> fst (so_alloc ops (sp_page_size q) st) = Err e
         \<and> pool_live h' (sp_pages q') = pool_live h (sp_pages q)
     | Panic \<Rightarrow> False)"
proof -
  have ok: "pool_ok q h" using assms(2) by (simp add: served_def)
  from try_reserve_shown [OF ok, of n g] obtain r1 q1 h1 g1 where
    t: "sliced_try_reserve n q h g = Ok (r1, q1, h1, g1)" "pool_ok q1 h1"
    "map frozen (sp_pages q1) = map frozen (sp_pages q)"
    "sp_page_size q1 = sp_page_size q" "sp_alignment q1 = sp_alignment q"
    "r1 = None \<longrightarrow> pool_live h1 (sp_pages q1) = pool_live h (sp_pages q)"
    "\<forall>i. r1 = Some i \<longrightarrow> one_more n i (pool_live h (sp_pages q)) (pool_live h1 (sp_pages q1))"
    by auto
  have sv1: "served ids held sane q1 h1 st"
    using assms(2) t(2,4) backed_cong [OF t(3), of ids held "sp_page_size q" st] by (simp add: served_def)
  show ?thesis
  proof (cases r1)
    case (Some x)
    with t assms(7) sv1 show ?thesis by (auto simp: sliced_reserve_def)
  next
    case None
    obtain r2 st2 where a: "alloc_page ops n m q1 h1 st = (r2, st2)" by (cases "alloc_page ops n m q1 h1 st")
    obtain rm stm where mh: "mapped_handle ops m (sp_page_size q) st = (rm, stm)"
      by (cases "mapped_handle ops m (sp_page_size q) st")
    have fit: "n + calculate_padding n (sp_alignment q1) \<le> sp_page_size q1"
      using accept_fits [OF assms(3,4) _ assms(5)] ok t(4,5) by (simp add: pool_ok_def)
    have sane: "sane st" using assms(2) by (simp add: served_def)
    show ?thesis
    proof (cases rm)
      case (Ok s)
      have m1: "mapped_handle ops m (sp_page_size q1) st = (outcome.Ok s, stm)" using mh Ok t(4) by simp
      from compute_storage.mapped_handle_fresh [OF assms(1) sane m1]
      have s: "sh_offset s = 0" "sh_size s = sp_page_size q1" by simp_all
      from alloc_page_cases [OF t(2) m1 s, of n] fit a obtain x q2 h2 where
        c: "r2 = outcome.Ok (x, q2, h2)" "one_more n x (pool_live h1 (sp_pages q1)) (pool_live h2 (sp_pages q2))"
        by auto
      have "served ids held sane q2 h2 st2"
        using compute_storage.alloc_served [OF assms(1) sv1 a] c by simp
      with c t None a assms(7) show ?thesis by (auto simp: sliced_reserve_def)
    next
      case (Err e)
      have m: "m = Eager" "so_alloc ops (sp_page_size q) st = (outcome.Err e, stm)"
        using mh Err by (auto simp: mapped_handle_def split: page_mapping.splits prod.splits)
      have r2: "r2 = outcome.Err e" using a mh Err t(4) by (simp add: alloc_page_def Let_def)
      have "served ids held sane q1 h1 st2"
        using compute_storage.alloc_served [OF assms(1) sv1 a] r2 by simp
      with r2 t None a m assms(7) show ?thesis by (auto simp: sliced_reserve_def)
    next
      case Panic
      with mh assms(6) show ?thesis by (auto simp: mapped_handle_def split: page_mapping.splits prod.splits)
    qed
  qed
qed

text \<open>An explicit cleanup returns exactly the unused pages: every live slice stays as it was and in
  order, every page that stays has a live slice or a guard, the storage gets back the buffers of
  the mapped pages that left and of no other, and the pool stays well formed with its pages
  renumbered.\<close>

theorem cleanup_returns_unused_pages:
  assumes "compute_storage ops ids held sane" "served ids held sane q h st"
    "sliced_cleanup ops nr Explicit q h g st = (q', h', g', st')"
  shows "served ids held sane q' h' st' \<and> occupied h' (sp_pages q')
    \<and> pool_live h' (sp_pages q') = pool_live h (sp_pages q)
    \<and> held st' = (held st) |` (- released (sp_pages q) (sp_pages q'))"
  using compute_storage.release_served [OF assms(1,2)] assms(3) by (simp add: sliced_cleanup_def)

section \<open>A small pool over the host storage\<close>

definition tiny_layout :: sliced_layout where
  "tiny_layout = \<lparr>ly_page_size = 256, ly_max_slice_size = 128, ly_alignment = 32, ly_pool = 1\<rparr>"

text \<open>A reservation of 100 bytes, served by the first page of the pool.\<close>

definition tiny_reserved :: "handle io \<times> sliced_pool \<times> heap \<times> error_graph \<times> bytes_storage" where
  "tiny_reserved =
    sliced_reserve bytes_ops 100 Eager (sliced_new tiny_layout) heap_empty graph_default bytes_storage_default"

lemma tiny_served: "served bs_ids bs_held bs_sane (sliced_new tiny_layout) heap_empty bytes_storage_default"
  by (simp add: served_def pool_ok_def pages_ok_def numbered_def backed_def sliced_new_def tiny_layout_def
      heap_ok_def heap_empty_def bs_sane_def bytes_storage_default_def)

lemmas tiny_defs = tiny_reserved_def sliced_reserve_def sliced_try_reserve_def sliced_new_def tiny_layout_def
  alloc_page_def mapped_handle_def bytes_ops_def bs_alloc_def bs_mint_def next_grant_def bs_insert_def
  layout_fits_def bs_alignment_def bytes_storage_default_def Let_def

theorem reserve_accepted_witness:
  "fst tiny_reserved = Ok 0
   \<and> map (\<lambda>s. (sl_handle s, sh_size (sl_storage s))) (pool_live (fst (snd (snd tiny_reserved))) (sp_pages (fst (snd tiny_reserved))))
     = [(0, 100)]"
proof -
  obtain r q' h' g' st' where t: "tiny_reserved = (r, q', h', g', st')" by (cases tiny_reserved)
  have "r = Ok 0" using t by (simp add: tiny_defs small_defs)
  have a: "sliced_accept (sliced_new tiny_layout) 100"
    and b: "sp_max_slice_size (sliced_new tiny_layout) \<le> sp_page_size (sliced_new tiny_layout)"
    and c: "sp_alignment (sliced_new tiny_layout) dvd sp_page_size (sliced_new tiny_layout)"
    and d: "fst (so_alloc bytes_ops (sp_page_size (sliced_new tiny_layout)) bytes_storage_default) \<noteq> Panic"
    by (simp_all add: sliced_accept_def tiny_defs)
  from reserve_accepted [OF host.compute_storage_axioms tiny_served a b c d t [unfolded tiny_reserved_def]] \<open>r = Ok 0\<close>
  have "one_more 100 0 [] (pool_live h' (sp_pages q'))" by (simp add: sliced_new_def)
  then have "map (\<lambda>s. (sl_handle s, sh_size (sl_storage s))) (pool_live h' (sp_pages q')) = [(0, 100)]"
    by (auto simp: one_more_def)
  then show ?thesis unfolding t using \<open>r = Ok 0\<close> by simp
qed

lemma tiny_run:
  "pool_run bytes_ops bs_sane (fst (snd tiny_reserved)) (fst (snd (snd tiny_reserved)))
     graph_default (snd (snd (snd (snd tiny_reserved))))"
proof -
  have new: "pool_run bytes_ops bs_sane (sliced_new tiny_layout) heap_empty graph_default bytes_storage_default"
    by (rule pool_run.new)
      (simp_all add: heap_ok_def heap_empty_def bs_sane_def bytes_storage_default_def tiny_layout_def)
  have "alloc_page bytes_ops 100 Eager (sliced_new tiny_layout) heap_empty bytes_storage_default
      = (Ok (0, fst (snd tiny_reserved), fst (snd (snd tiny_reserved))), snd (snd (snd (snd tiny_reserved))))"
    by (simp add: tiny_defs small_defs)
  from pool_run.alloc [OF new this] show ?thesis .
qed

theorem sliced_pool_safe_witness:
  "case sp_pages (fst (snd tiny_reserved)) ! 0 of (p, i) \<Rightarrow>
     length (pg_slices p) = 2 \<and> bs_held (snd (snd (snd (snd tiny_reserved)))) i = Some 256
     \<and> sliced_find 0 (fst (snd tiny_reserved)) (fst (snd (snd tiny_reserved))) = Ok (pg_slices p ! 0)"
proof -
  let ?q = "fst (snd tiny_reserved)"
  let ?h = "fst (snd (snd tiny_reserved))"
  obtain p i where pi: "sp_pages ?q ! 0 = (p, i)" by (cases "sp_pages ?q ! 0")
  have facts: "length (sp_pages ?q) = 1" "sp_page_size ?q = 256" by (simp_all add: tiny_defs small_defs)
  have page: "length (pg_slices p) = 2" "pg_mapped p" "sl_handle (pg_slices p ! 0) = 0"
    using pi by (simp_all add: tiny_defs small_defs) auto
  from sliced_pool_safe [OF host.compute_storage_axioms tiny_run] facts pi
  have "pg_mapped p \<longrightarrow> bs_held (snd (snd (snd (snd tiny_reserved)))) i = Some 256"
    "length (pg_slices p) \<le> 2 ^ 32 \<longrightarrow> (\<forall>s \<in> set (pg_slices p). sliced_find (sl_handle s) ?q ?h = Ok s)"
    by auto
  moreover have "pg_slices p ! 0 \<in> set (pg_slices p)" by (rule nth_mem) (simp add: page)
  moreover have "length (pg_slices p) \<le> 2 ^ 32" by (simp add: page(1))
  ultimately have "bs_held (snd (snd (snd (snd tiny_reserved)))) i = Some 256"
    "sliced_find (sl_handle (pg_slices p ! 0)) ?q ?h = Ok (pg_slices p ! 0)"
    using page(2) by blast+
  then show ?thesis unfolding pi using page by simp
qed

text \<open>The owner drops the reservation and the pool is cleaned up.\<close>

theorem cleanup_returns_unused_pages_witness:
  "case sliced_cleanup bytes_ops 0 Explicit (fst (snd tiny_reserved)) (drop_handle 0 (fst (snd (snd tiny_reserved))))
       graph_default (snd (snd (snd (snd tiny_reserved)))) of
     (q', h', g', st') \<Rightarrow> occupied h' (sp_pages q') \<and> pool_live h' (sp_pages q') = []"
proof -
  let ?q = "fst (snd tiny_reserved)"
  let ?h = "drop_handle 0 (fst (snd (snd tiny_reserved)))"
  let ?st = "snd (snd (snd (snd tiny_reserved)))"
  have "\<not> is_free (fst (snd (snd tiny_reserved))) 0" by (simp add: tiny_defs small_defs)
  from pool_run.user_drop [OF tiny_run this] have "served bs_ids bs_held bs_sane ?q ?h ?st"
    by (rule host.pool_run_served)
  moreover obtain q' h' g' st' where c: "sliced_cleanup bytes_ops 0 Explicit ?q ?h graph_default ?st = (q', h', g', st')"
    by (cases "sliced_cleanup bytes_ops 0 Explicit ?q ?h graph_default ?st")
  ultimately have r: "occupied h' (sp_pages q')" "pool_live h' (sp_pages q') = pool_live ?h (sp_pages ?q)"
    using cleanup_returns_unused_pages [OF host.compute_storage_axioms] by blast+
  have free: "pool_live ?h (sp_pages ?q) = []" by (simp add: tiny_defs small_defs live_def drop_handle_def)
  with r c show ?thesis by simp
qed

section \<open>The pool keeps the contract\<close>

definition sliced_small :: "sliced_pool \<Rightarrow> bool" where
  "sliced_small q \<longleftrightarrow> length (sp_pages q) \<le> 2 ^ 16 \<and> list_all (\<lambda>x. length (pg_slices (fst x)) \<le> 2 ^ 32) (sp_pages q)"

lemma live_member: "s \<in> set (pool_live h ps) \<Longrightarrow> \<exists>k < length ps. s \<in> set (pg_slices (fst (ps ! k)))"
proof -
  assume "s \<in> set (pool_live h ps)"
  then obtain x where x: "x \<in> set ps" "s \<in> set (pg_slices (fst x))" by (auto simp: pool_live_def lives_def live_def)
  then obtain k where "k < length ps" "x = ps ! k" by (auto simp: in_set_conv_nth)
  with x show ?thesis by blast
qed

interpretation sliced: memory_pool "\<lambda>q h st. pool_ok q h" sliced_small "\<lambda>h q. pool_live h (sp_pages q)"
  sliced_try_reserve sliced_find
proof
  fix q h n g assume "pool_ok q h"
  from try_reserve_shown [OF this, of n g]
  show "\<exists>r q' h' g'. sliced_try_reserve n q h g = Ok (r, q', h', g') \<and> pool_ok q' h'
      \<and> (r = None \<longrightarrow> pool_live h' (sp_pages q') = pool_live h (sp_pages q))
      \<and> (\<forall>i. r = Some i \<longrightarrow> one_more n i (pool_live h (sp_pages q)) (pool_live h' (sp_pages q')))" by blast
next
  fix q h s assume ok: "pool_ok q h" and small: "sliced_small q" and s: "s \<in> set (pool_live h (sp_pages q))"
  from live_member [OF s] obtain k where k: "k < length (sp_pages q)" "s \<in> set (pg_slices (fst (sp_pages q ! k)))" by blast
  with small have "length (sp_pages q) \<le> 2 ^ 16" "length (pg_slices (fst (sp_pages q ! k))) \<le> 2 ^ 32"
    by (auto simp: sliced_small_def list_all_length)
  from pool_find [OF ok this(1) k(1) this(2) k(2)] show "sliced_find (sl_handle s) q h = Ok s" by blast
qed

end
