(* ===== verification/Pool_Frame.thy ===== *)
theory Pool_Frame
  imports Sliced_Pool
begin

text \<open>
  What an operation of one sliced pool leaves alone: the handles and the buffers of every other
  pool that shares the descriptor heap and the storage with it. A pool that is \<open>apart\<close> from the one
  that runs keeps its invariant and its live slices, and stays apart.
\<close>

definition pool_handles :: "sliced_pool \<Rightarrow> handle set" where
  "pool_handles q = all_handles (sp_pages q)"

definition pool_ids :: "sliced_pool \<Rightarrow> storage_id set" where
  "pool_ids q = snd ` set (sp_pages q)"

text \<open>Only the named handles and buffers change.\<close>

definition confined ::
  "('st \<Rightarrow> storage_id set) \<Rightarrow> ('st \<Rightarrow> storage_id \<rightharpoonup> nat) \<Rightarrow> handle set \<Rightarrow> storage_id set
    \<Rightarrow> heap \<Rightarrow> 'st \<Rightarrow> heap \<Rightarrow> 'st \<Rightarrow> bool" where
  "confined ids held hs is h st h' st' \<longleftrightarrow>
    heap_ok h' \<and> frames hs h h' \<and> ids st \<subseteq> ids st' \<and> (\<forall>i \<in> ids st. i \<notin> is \<longrightarrow> held st' i = held st i)"

text \<open>What a component owns afterwards is what it owned or fresh.\<close>

definition fresh_from :: "('st \<Rightarrow> storage_id set) \<Rightarrow> heap \<Rightarrow> 'st \<Rightarrow> handle set \<Rightarrow> storage_id set \<Rightarrow> handle set \<Rightarrow> storage_id set \<Rightarrow> bool" where
  "fresh_from ids h st hs is hs' is' \<longleftrightarrow> hs' \<subseteq> hs \<union> {j. next_id h \<le> j} \<and> is' \<subseteq> is \<union> - ids st"

definition apart :: "sliced_pool \<Rightarrow> sliced_pool \<Rightarrow> bool" where
  "apart q q' \<longleftrightarrow> pool_handles q \<inter> pool_handles q' = {} \<and> pool_ids q \<inter> pool_ids q' = {}"

lemma apart_sym: "apart q q' \<Longrightarrow> apart q' q"
  by (auto simp: apart_def)

lemma confined_refl: "heap_ok h \<Longrightarrow> confined ids held hs is h st h st"
  by (simp add: confined_def)

lemma fresh_from_refl: "fresh_from ids h st hs is hs is"
  by (auto simp: fresh_from_def)

lemma confined_trans:
  assumes "confined ids held hs is h st h1 st1" "confined ids held hs1 is1 h1 st1 h2 st2"
    "fresh_from ids h st hs is hs1 is1"
  shows "confined ids held hs is h st h2 st2"
proof -
  have "frames (hs \<union> {j. next_id h \<le> j}) h1 h2"
    using assms(2,3) by (auto simp: confined_def fresh_from_def intro: frames_weaken)
  then have "frames hs h h2" using assms(1) frames_later by (auto simp: confined_def)
  moreover have "held st2 i = held st i" if "i \<in> ids st" "i \<notin> is" for i
  proof -
    have "i \<notin> is1" using that assms(3) by (auto simp: fresh_from_def)
    then show ?thesis using assms(1,2) that by (auto simp: confined_def)
  qed
  ultimately show ?thesis using assms(1,2) by (auto simp: confined_def)
qed

lemma fresh_from_trans:
  assumes "confined ids held hs is h st h1 st1" "fresh_from ids h st hs is hs1 is1"
    "fresh_from ids h1 st1 hs1 is1 hs2 is2"
  shows "fresh_from ids h st hs is hs2 is2"
proof -
  have "next_id h \<le> next_id h1" "ids st \<subseteq> ids st1" using assms(1) by (auto simp: confined_def frames_def)
  then show ?thesis using assms(2,3) unfolding fresh_from_def by fastforce
qed

lemma confined_weaken:
  "confined ids held hs is h st h' st' \<Longrightarrow> hs \<subseteq> hs' \<Longrightarrow> is \<subseteq> is' \<Longrightarrow> confined ids held hs' is' h st h' st'"
  by (auto simp: confined_def intro: frames_weaken)

lemma served_handles_old: "served ids held sane q h st \<Longrightarrow> i \<in> pool_handles q \<Longrightarrow> i < next_id h"
  using pages_old [of q "sp_pages q" h i] by (simp add: served_def pool_ok_def pool_handles_def)

lemma served_ids: "served ids held sane q h st \<Longrightarrow> pool_ids q \<subseteq> ids st"
  by (simp add: served_def backed_def pool_ids_def)

lemma served_heap_ok: "served ids held sane q h st \<Longrightarrow> heap_ok h"
  by (simp add: served_def pool_ok_def pages_ok_def)

text \<open>The frame rule: another component runs, and the pool is as it was.\<close>

lemma served_frame:
  assumes sv: "served ids held sane q h st" and c: "confined ids held hs is h st h' st'" and sane: "sane st'"
    and dis: "pool_handles q \<inter> hs = {}" "pool_ids q \<inter> is = {}"
  shows "served ids held sane q h' st' \<and> lives h' (sp_pages q) = lives h (sp_pages q)"
proof -
  have fr: "frames hs h h'" "heap_ok h'" using c by (auto simp: confined_def)
  have ok: "pool_ok q h" and b: "backed ids held (sp_page_size q) (sp_pages q) st" using sv by (auto simp: served_def)
  then have pg: "pages_ok q (sp_pages q) h" by (simp add: pool_ok_def)
  from pages_frame [OF pg fr] dis(1)
  have p: "pages_ok q (sp_pages q) h' \<and> lives h' (sp_pages q) = lives h (sp_pages q)" by (simp add: pool_handles_def)
  have "held st' (snd x) = Some (sp_page_size q)" if "x \<in> set (sp_pages q)" "pg_mapped (fst x)" for x
  proof -
    have "snd x \<in> ids st" "snd x \<notin> is" "held st (snd x) = Some (sp_page_size q)"
      using b that dis(2) by (auto simp: backed_def pool_ids_def)
    then show ?thesis using c by (auto simp: confined_def)
  qed
  then have "backed ids held (sp_page_size q) (sp_pages q) st'"
    using b c by (auto simp: backed_def confined_def)
  then show ?thesis using p ok sane by (simp add: served_def pool_ok_def)
qed

lemma apart_fresh:
  assumes sv: "served ids held sane q h st" and f: "fresh_from ids h st hs is (pool_handles q') (pool_ids q')"
    and dis: "pool_handles q \<inter> hs = {}" "pool_ids q \<inter> is = {}"
  shows "apart q q'"
proof -
  have "j < next_id h" if "j \<in> pool_handles q" for j using served_handles_old [OF sv that] .
  moreover have "pool_ids q \<subseteq> ids st" by (rule served_ids [OF sv])
  ultimately show ?thesis using f dis unfolding apart_def fresh_from_def by fastforce
qed

section \<open>Reserving and renumbering stay inside the pool\<close>

lemma evolved_handles: "evolved p h p' h' \<Longrightarrow> handles_of p' \<subseteq> handles_of p \<union> {j. next_id h \<le> j}"
  by (auto simp: evolved_def own_or_fresh_def handles_of_def)

lemma evolved_frames: "evolved p h p' h' \<Longrightarrow> frames (handles_of p) h h'"
  by (simp add: evolved_def)

lemma pages_tail: "pages_ok q (x # ps) h \<Longrightarrow> pages_ok q ps h"
  using pages_ok_drop [of q "[]" x ps h] by simp

lemma reserve_pages_frame:
  assumes "pages_ok q ps h" "reserve_pages n ps h g = Ok (r, ps', h', g')"
  shows "frames (all_handles ps) h h' \<and> all_handles ps' \<subseteq> all_handles ps \<union> {j. next_id h \<le> j}"
  using assms
proof (induction ps arbitrary: h g r ps' h' g')
  case (Cons x ps)
  obtain p i where x: "x = (p, i)" by (cases x)
  show ?case
  proof (cases "is_guarded p")
    case True
    with Cons.prems x obtain qs where "reserve_pages n ps h g = Ok (r, qs, h', g')" "ps' = x # qs" by auto
    with Cons.IH [OF pages_tail [OF Cons.prems(1)] this(1)] show ?thesis by (auto intro: frames_weaken)
  next
    case False
    have at: "pages_ok q ([] @ (p, i) # ps) h" using Cons.prems(1) x by simp
    from attempt_shown [of p h g n] pages_member [OF at] obtain p1 h1 g1 r1 p2 h2 where
      a: "coalesce p h g = (p1, h1, g1)" "page_try_reserve n p1 h1 = Ok (r1, p2, h2)" "evolved p h p2 h2"
      by auto
    note ev = evolved_frames [OF a(3)] evolved_handles [OF a(3)]
    show ?thesis
    proof (cases r1)
      case (Some j)
      with Cons.prems(2) a False x have "ps' = (p2, i) # ps" "h' = h2" by auto
      with ev x show ?thesis by (auto intro: frames_weaken)
    next
      case None
      with Cons.prems(2) a False x obtain qs where
        q: "reserve_pages n ps h2 g1 = Ok (r, qs, h', g')" "ps' = (p2, i) # qs" by auto
      have "pages_ok q ps h2" using pages_evolve [OF at a(3)] pages_tail [of q "(p2, i)" ps h2] by simp
      from Cons.IH [OF this q(1)] have ih: "frames (all_handles ps) h2 h'"
        "all_handles qs \<subseteq> all_handles ps \<union> {j. next_id h2 \<le> j}" by auto
      have le: "next_id h \<le> next_id h2" using ev(1) by (simp add: frames_def)
      have "frames (all_handles (x # ps)) h h'"
        by (rule frames_trans [of _ _ h2]) (use ev(1) ih(1) x in \<open>auto intro: frames_weaken\<close>)
      then show ?thesis using ih(2) ev(2) le q(2) x by fastforce
    qed
  qed
qed simp

lemma handles_of_update: "page_update_page n p h = (p', h') \<Longrightarrow> handles_of p' = handles_of p"
  by (auto simp: page_update_page_def handles_of_def)

lemma release_loop_frame:
  assumes "pages_ok q (tmp @ ps) h" "release_loop ops ps tmp h g st = (ps', h', g', st')"
  shows "frames (all_handles (tmp @ ps)) h h' \<and> all_handles ps' \<subseteq> all_handles (tmp @ ps) \<union> {j. next_id h \<le> j}"
  using assms
proof (induction ps arbitrary: tmp h g st)
  case (Cons x ps)
  obtain p i where x: "x = (p, i)" by (cases x)
  obtain p1 h1 g1 where c: "coalesce p h g = (p1, h1, g1)" by (cases "coalesce p h g")
  have ok: "pages_ok q (tmp @ (p, i) # ps) h" using Cons.prems(1) x by simp
  have ev: "evolved p h p1 h1" using coalesce_evolved [OF _ c] pages_member [OF ok] by simp
  from coalesce_pages [OF ok c] have ok1: "pages_ok q (tmp @ (p1, i) # ps) h1" by blast
  have le: "next_id h \<le> next_id h1" using evolved_frames [OF ev] by (simp add: frames_def)
  let ?A = "all_handles (tmp @ x # ps)"
  have fr1: "frames ?A h h1" using evolved_frames [OF ev] x by (auto intro: frames_weaken)
  have sub1: "handles_of p1 \<subseteq> ?A \<union> {j. next_id h \<le> j}" using evolved_handles [OF ev] x by auto
  have hok: "heap_ok h1" using ok1 by (simp add: pages_ok_def)
  show ?case
  proof (cases "live h1 p1 = [] \<and> \<not> is_guarded p1")
    case True
    let ?h = "fold (\<lambda>s. drop_handle (sl_handle s)) (pg_slices p1) h1"
    from release_loop_drop [OF c, of ops i ps tmp st] True Cons.prems(2) x obtain g2 st2 where
      run: "release_loop ops ps tmp ?h g2 st2 = (ps', h', g', st')" by metis
    have ok2: "pages_ok q (tmp @ ps) ?h" using drop_page_pages [OF ok1 refl] by blast
    have "frames (handles_of p1) h1 ?h"
      using fold_frame [of "pg_slices p1" "handles_of p1" "\<lambda>s. drop_handle (sl_handle s)" h1, OF _ _ hok]
      by (auto simp: handles_of_def frames_ops heap_ok_ops)
    then have "frames ?A h ?h" using fr1 sub1 by (auto intro: frames_later frames_weaken)
    moreover from Cons.IH [OF ok2 run] have ih: "frames (all_handles (tmp @ ps)) ?h h'"
      "all_handles ps' \<subseteq> all_handles (tmp @ ps) \<union> {j. next_id ?h \<le> j}" by auto
    ultimately have "frames ?A h h'" by (auto intro: frames_trans frames_weaken)
    moreover have "next_id h \<le> next_id ?h" using \<open>frames ?A h ?h\<close> by (simp add: frames_def)
    ultimately show ?thesis using ih(2) by fastforce
  next
    case False
    obtain p2 h2 where u: "page_update_page (of_nat (length tmp)) p1 h1 = (p2, h2)"
      by (cases "page_update_page (of_nat (length tmp)) p1 h1")
    from release_loop_keep [OF c _ u, of ops i ps st] Cons.prems(2) x False
    have run: "release_loop ops ps (tmp @ [(p2, i)]) h2 g1 st = (ps', h', g', st')" by auto
    have ok2: "pages_ok q ((tmp @ [(p2, i)]) @ ps) h2" using update_page_pages [OF ok1 u] by simp
    have "frames (handles_of p1) h1 h2" using update_page_frame [OF u hok] by (simp add: handles_of_def)
    then have fr2: "frames ?A h h2" using fr1 sub1 by (auto intro: frames_later frames_weaken)
    from Cons.IH [OF ok2 run] have ih: "frames (all_handles ((tmp @ [(p2, i)]) @ ps)) h2 h'"
      "all_handles ps' \<subseteq> all_handles ((tmp @ [(p2, i)]) @ ps) \<union> {j. next_id h2 \<le> j}" by auto
    have sub: "all_handles ((tmp @ [(p2, i)]) @ ps) \<subseteq> ?A \<union> {j. next_id h \<le> j}"
      using sub1 handles_of_update [OF u] by auto
    have "frames (?A \<union> {j. next_id h \<le> j}) h2 h'" by (rule frames_weaken [OF ih(1) sub])
    with fr2 have "frames ?A h h'" by (rule frames_later)
    moreover have "next_id h \<le> next_id h2" using fr2 by (simp add: frames_def)
    ultimately show ?thesis using ih(2) sub by fastforce
  qed
qed (auto simp: frames_def)

section \<open>The operations of a pool as steps\<close>

definition pool_layout :: "sliced_pool \<Rightarrow> nat \<times> nat \<times> memory_location" where
  "pool_layout q = (sp_page_size q, sp_alignment q, sp_base q)"

text \<open>A step of one pool: it serves its slices afterwards, carved the same way, and touched nothing of
  anyone else.\<close>

definition pool_step ::
  "('st \<Rightarrow> storage_id set) \<Rightarrow> ('st \<Rightarrow> storage_id \<rightharpoonup> nat) \<Rightarrow> ('st \<Rightarrow> bool)
    \<Rightarrow> sliced_pool \<Rightarrow> heap \<Rightarrow> 'st \<Rightarrow> sliced_pool \<Rightarrow> heap \<Rightarrow> 'st \<Rightarrow> bool" where
  "pool_step ids held sane q h st q' h' st' \<longleftrightarrow>
    served ids held sane q' h' st' \<and> pool_layout q' = pool_layout q
    \<and> confined ids held (pool_handles q) (pool_ids q) h st h' st'
    \<and> fresh_from ids h st (pool_handles q) (pool_ids q) (pool_handles q') (pool_ids q')"

lemma pool_stepD:
  assumes "pool_step ids held sane q h st q' h' st'"
  shows "served ids held sane q' h' st'" "pool_layout q' = pool_layout q" "sane st'"
    "confined ids held (pool_handles q) (pool_ids q) h st h' st'"
    "fresh_from ids h st (pool_handles q) (pool_ids q) (pool_handles q') (pool_ids q')"
  using assms by (simp_all add: pool_step_def served_def)

lemma pool_step_refl: "served ids held sane q h st \<Longrightarrow> pool_step ids held sane q h st q h st"
  using served_heap_ok [of ids held sane q h st] by (simp add: pool_step_def confined_refl fresh_from_refl)

lemma pool_step_trans:
  assumes "pool_step ids held sane q h st q1 h1 st1" "pool_step ids held sane q1 h1 st1 q2 h2 st2"
  shows "pool_step ids held sane q h st q2 h2 st2"
  unfolding pool_step_def
proof (intro conjI)
  note a = pool_stepD [OF assms(1)] and b = pool_stepD [OF assms(2)]
  show "served ids held sane q2 h2 st2" by (rule b(1))
  show "pool_layout q2 = pool_layout q" using a(2) b(2) by simp
  show "confined ids held (pool_handles q) (pool_ids q) h st h2 st2" by (rule confined_trans [OF a(4) b(4) a(5)])
  show "fresh_from ids h st (pool_handles q) (pool_ids q) (pool_handles q2) (pool_ids q2)"
    by (rule fresh_from_trans [OF a(4) a(5) b(5)])
qed

text \<open>Another pool across a step.\<close>

lemma step_frame:
  assumes "served ids held sane q0 h st" "pool_step ids held sane q h st q' h' st'" "apart q0 q"
  shows "served ids held sane q0 h' st'" "apart q0 q'" "lives h' (sp_pages q0) = lives h (sp_pages q0)"
proof -
  note s = pool_stepD [OF assms(2)]
  have dis: "pool_handles q0 \<inter> pool_handles q = {}" "pool_ids q0 \<inter> pool_ids q = {}"
    using assms(3) by (simp_all add: apart_def)
  from served_frame [OF assms(1) s(4,3) dis]
  show "served ids held sane q0 h' st'" "lives h' (sp_pages q0) = lives h (sp_pages q0)" by simp_all
  show "apart q0 q'" by (rule apart_fresh [OF assms(1) s(5) dis])
qed

lemma frozen_ids: "map frozen ps' = map frozen ps \<Longrightarrow> snd ` set ps' = snd ` set ps"
proof -
  assume "map frozen ps' = map frozen ps"
  then have "map (fst \<circ> snd) (map frozen ps') = map (fst \<circ> snd) (map frozen ps)" by simp
  then have "map snd ps' = map snd ps" by (simp add: frozen_def comp_def)
  then show ?thesis by (metis list.set_map)
qed

context compute_storage
begin

lemma try_reserve_step:
  assumes sv: "served ids held sane q h st"
  shows "\<exists>r q' h' g'. sliced_try_reserve n q h g = Ok (r, q', h', g') \<and> pool_step ids held sane q h st q' h' st
    \<and> (r = None \<longrightarrow> pool_live h' (sp_pages q') = pool_live h (sp_pages q))
    \<and> (\<forall>i. r = Some i \<longrightarrow> one_more n i (pool_live h (sp_pages q)) (pool_live h' (sp_pages q')))"
proof -
  have ok: "pool_ok q h" using sv by (simp add: served_def)
  from try_reserve_shown [OF ok, of n g] obtain r q' h' g' where
    t: "sliced_try_reserve n q h g = Ok (r, q', h', g')" "pool_ok q' h'"
    "map frozen (sp_pages q') = map frozen (sp_pages q)" "pool_layout q' = pool_layout q"
    "r = None \<longrightarrow> pool_live h' (sp_pages q') = pool_live h (sp_pages q)"
    "\<forall>i. r = Some i \<longrightarrow> one_more n i (pool_live h (sp_pages q)) (pool_live h' (sp_pages q'))"
    unfolding pool_layout_def by blast
  from t(1) obtain g1 where "reserve_pages n (sp_pages q) h g = Ok (r, sp_pages q', h', g1)"
    unfolding sliced_try_reserve_def by (auto simp: Let_def split: prod.splits if_splits)
  with reserve_pages_frame [of q "sp_pages q" h n g] ok
  have fr: "frames (pool_handles q) h h'" "pool_handles q' \<subseteq> pool_handles q \<union> {j. next_id h \<le> j}"
    by (auto simp: pool_ok_def pool_handles_def)
  have sv': "served ids held sane q' h' st"
    using sv t(2,4) backed_cong [OF t(3), of ids held "sp_page_size q" st]
    by (simp add: served_def pool_layout_def)
  have "pool_ids q' = pool_ids q" unfolding pool_ids_def by (rule frozen_ids [OF t(3)])
  then have "pool_step ids held sane q h st q' h' st"
    using sv' t(4) fr served_heap_ok [OF sv'] by (auto simp: pool_step_def confined_def fresh_from_def)
  with t show ?thesis by blast
qed

lemma mapped_handle_extends:
  assumes "sane st" "mapped_handle ops m n st = (r, st')" "r \<noteq> Panic"
  shows "sane st' \<and> ids st \<subseteq> ids st' \<and> (\<forall>i \<in> ids st. held st' i = held st i)"
proof (cases m)
  case Eager
  then have a: "so_alloc ops n st = (r, st')" using assms(2) by (simp add: mapped_handle_def)
  show ?thesis
  proof (cases r)
    case (Ok s)
    with a alloc_fresh [OF assms(1), of n s st'] alloc_sane [OF assms(1) a assms(3)] show ?thesis by auto
  next
    case (Err e)
    with a alloc_err [OF assms(1), of n e st'] alloc_sane [OF assms(1) a assms(3)] show ?thesis by auto
  qed (use assms(3) in simp)
next
  case Lazy
  with assms(2) obtain i where "so_mint ops st = (i, st')" by (auto simp: mapped_handle_def split: prod.splits)
  with mint_fresh [OF assms(1)] mint_sane [OF assms(1)] show ?thesis by auto
qed

lemma mapped_handle_Err: "mapped_handle ops m n st = (Err e, st') \<Longrightarrow> m = Eager \<and> so_alloc ops n st = (Err e, st')"
  by (auto simp: mapped_handle_def split: page_mapping.splits prod.splits)

lemma mapped_handle_Panic: "mapped_handle ops m n st = (Panic, st') \<Longrightarrow> m = Eager \<and> fst (so_alloc ops n st) = Panic"
  by (auto simp: mapped_handle_def split: page_mapping.splits prod.splits)

text \<open>A page that fits the request is allocated, or the device refused it and nothing changed.\<close>

lemma alloc_step:
  assumes sv: "served ids held sane q h st" and a: "alloc_page ops n m q h st = (r, st')"
    and fit: "n + calculate_padding n (sp_alignment q) \<le> sp_page_size q"
  shows "case r of
      Ok (x, q', h') \<Rightarrow> pool_step ids held sane q h st q' h' st'
        \<and> one_more n x (pool_live h (sp_pages q)) (pool_live h' (sp_pages q'))
        \<and> length (sp_pages q') = Suc (length (sp_pages q))
    | Err e \<Rightarrow> pool_step ids held sane q h st q h st' \<and> m = Eager \<and> fst (so_alloc ops (sp_page_size q) st) = Err e
    | Panic \<Rightarrow> fst (so_alloc ops (sp_page_size q) st) = Panic"
proof -
  have ok: "pool_ok q h" and sane: "sane st" using sv by (simp_all add: served_def)
  obtain rm stm where m: "mapped_handle ops m (sp_page_size q) st = (rm, stm)"
    by (cases "mapped_handle ops m (sp_page_size q) st")
  show ?thesis
  proof (cases rm)
    case (Ok s)
    note m1 = m [unfolded Ok]
    from mapped_handle_fresh [OF sane m1]
    have s: "sh_offset s = 0" "sh_size s = sp_page_size q" "sh_id s \<notin> ids st" by simp_all
    from alloc_page_cases [OF ok m1 s(1,2), of n] fit a obtain x q' h' p where
      c: "r = outcome.Ok (x, q', h')" "st' = stm" "sp_pages q' = sp_pages q @ [(p, sh_id s)]"
      "one_more n x (pool_live h (sp_pages q)) (pool_live h' (sp_pages q'))"
      "pool_layout q' = pool_layout q" "frames {} h h'" "own_or_fresh {} h (pg_slices p)"
      by (auto simp: pool_layout_def)
    have sv': "served ids held sane q' h' st'" using alloc_served [OF sv a] c(1) by simp
    have "confined ids held (pool_handles q) (pool_ids q) h st h' st'"
      using mapped_handle_extends [OF sane m1] c(2,6) served_heap_ok [OF sv']
      by (auto simp: confined_def intro: frames_weaken)
    moreover have "fresh_from ids h st (pool_handles q) (pool_ids q) (pool_handles q') (pool_ids q')"
      using c(3,7) s(3) by (auto simp: fresh_from_def pool_handles_def pool_ids_def handles_of_def own_or_fresh_def)
    ultimately show ?thesis using sv' c by (simp add: pool_step_def)
  next
    case (Err e)
    note m1 = m [unfolded Err]
    have r: "r = outcome.Err e" "st' = stm" using a m1 by (simp_all add: alloc_page_def Let_def)
    have "served ids held sane q h st'" using alloc_served [OF sv a] r by simp
    moreover have "confined ids held (pool_handles q) (pool_ids q) h st h st'"
      using mapped_handle_extends [OF sane m1] r served_heap_ok [OF sv] by (auto simp: confined_def)
    ultimately show ?thesis using r mapped_handle_Err [OF m1] by (simp add: pool_step_def fresh_from_refl)
  next
    case Panic
    then have "r = outcome.Panic" using a m by (simp add: alloc_page_def Let_def)
    with m Panic mapped_handle_Panic show ?thesis by fastforce
  qed
qed

lemma release_loop_storage:
  "sane st \<Longrightarrow> release_loop ops ps tmp h g st = (ps', h', g', st') \<Longrightarrow> ids st' = ids st"
proof (induction ps arbitrary: tmp h g st)
  case (Cons x ps)
  obtain p i where x: "x = (p, i)" by (cases x)
  obtain p1 h1 g1 where c: "coalesce p h g = (p1, h1, g1)" by (cases "coalesce p h g")
  show ?case
  proof (cases "live h1 p1 = [] \<and> \<not> is_guarded p1")
    case True
    let ?st = "if pg_mapped p1 then so_dealloc ops i st else st"
    from release_loop_drop [OF c, of ops i ps tmp st] True Cons.prems(2) x obtain h2 g2 where
      "release_loop ops ps tmp h2 g2 ?st = (ps', h', g', st')" by metis
    moreover have "sane ?st" "ids ?st = ids st" using Cons.prems(1) dealloc_sane dealloc_ids by simp_all
    ultimately show ?thesis using Cons.IH by metis
  next
    case False
    obtain p2 h2 where u: "page_update_page (of_nat (length tmp)) p1 h1 = (p2, h2)"
      by (cases "page_update_page (of_nat (length tmp)) p1 h1")
    from release_loop_keep [OF c _ u, of ops i ps st] Cons.prems(2) x False
    have "release_loop ops ps (tmp @ [(p2, i)]) h2 g1 st = (ps', h', g', st')" by auto
    with Cons.IH Cons.prems(1) show ?thesis by metis
  qed
qed simp

lemma release_step:
  assumes sv: "served ids held sane q h st" and r: "release_empty ops q h g st = (q', h', g', st')"
  shows "pool_step ids held sane q h st q' h' st' \<and> occupied h' (sp_pages q')
    \<and> pool_live h' (sp_pages q') = pool_live h (sp_pages q)"
proof -
  note rs = release_served [OF sv r]
  have sane: "sane st" and ok: "pages_ok q ([] @ sp_pages q) h" using sv by (simp_all add: served_def pool_ok_def)
  from r obtain ps where run: "release_loop ops (sp_pages q) [] h g st = (ps, h', g', st')" "q' = q\<lparr>sp_pages := ps\<rparr>"
    unfolding release_empty_def by (auto split: prod.splits)
  from release_loop_frame [OF ok run(1)] have fr: "frames (pool_handles q) h h'"
    "pool_handles q' \<subseteq> pool_handles q \<union> {j. next_id h \<le> j}" using run(2) by (simp_all add: pool_handles_def)
  have ids: "ids st' = ids st" by (rule release_loop_storage [OF sane run(1)])
  have sub: "pool_ids q' \<subseteq> pool_ids q" using release_loop_ids [OF run(1)] run(2) by (simp add: pool_ids_def)
  have "held st' i = held st i" if "i \<notin> pool_ids q" for i
    using rs that by (auto simp: released_def pool_ids_def restrict_map_def image_def)
  then have "confined ids held (pool_handles q) (pool_ids q) h st h' st'"
    using fr(1) ids served_heap_ok [of ids held sane q' h' st'] rs by (simp add: confined_def)
  moreover have "pool_layout q' = pool_layout q" using run(2) by (simp add: pool_layout_def)
  moreover have "fresh_from ids h st (pool_handles q) (pool_ids q) (pool_handles q') (pool_ids q')"
    using fr(2) sub by (auto simp: fresh_from_def)
  ultimately show ?thesis using rs by (simp add: pool_step_def)
qed

lemma reserve_step:
  assumes sv: "served ids held sane q h st" and fit: "n + calculate_padding n (sp_alignment q) \<le> sp_page_size q"
    and r: "sliced_reserve ops n m q h g st = (r, q', h', g', st')"
  shows "case r of
      Ok x \<Rightarrow> pool_step ids held sane q h st q' h' st' \<and> one_more n x (pool_live h (sp_pages q)) (pool_live h' (sp_pages q'))
    | Err e \<Rightarrow> pool_step ids held sane q h st q' h' st' \<and> m = Eager \<and> fst (so_alloc ops (sp_page_size q) st) = Err e
        \<and> pool_live h' (sp_pages q') = pool_live h (sp_pages q)
    | Panic \<Rightarrow> fst (so_alloc ops (sp_page_size q) st) = Panic"
proof -
  from try_reserve_step [OF sv, of n g] obtain r1 q1 h1 g1 where
    t: "sliced_try_reserve n q h g = Ok (r1, q1, h1, g1)" "pool_step ids held sane q h st q1 h1 st"
    "r1 = None \<longrightarrow> pool_live h1 (sp_pages q1) = pool_live h (sp_pages q)"
    "\<forall>i. r1 = Some i \<longrightarrow> one_more n i (pool_live h (sp_pages q)) (pool_live h1 (sp_pages q1))"
    by blast
  show ?thesis
  proof (cases r1)
    case (Some x)
    with t r show ?thesis by (auto simp: sliced_reserve_def)
  next
    case None
    note lay = pool_stepD(2) [OF t(2), unfolded pool_layout_def]
    obtain r2 st2 where a: "alloc_page ops n m q1 h1 st = (r2, st2)" by (cases "alloc_page ops n m q1 h1 st")
    note al = alloc_step [OF pool_stepD(1) [OF t(2)] a]
    have fit1: "n + calculate_padding n (sp_alignment q1) \<le> sp_page_size q1" using fit lay by simp
    show ?thesis
    proof (cases r2)
      case (Ok b)
      obtain x q2 h2 where b: "b = (x, q2, h2)" by (cases b)
      have s: "pool_step ids held sane q1 h1 st q2 h2 st2" "one_more n x (pool_live h1 (sp_pages q1)) (pool_live h2 (sp_pages q2))"
        using al [OF fit1] Ok b by simp_all
      have "r = outcome.Ok x" "q' = q2" "h' = h2" "st' = st2" using r t None a Ok b by (auto simp: sliced_reserve_def)
      then show ?thesis using pool_step_trans [OF t(2) s(1)] s(2) t(3) None by simp
    next
      case (Err e)
      have s: "pool_step ids held sane q1 h1 st q1 h1 st2" "m = Eager" "fst (so_alloc ops (sp_page_size q1) st) = outcome.Err e"
        using al [OF fit1] Err by simp_all
      have "r = outcome.Err e" "q' = q1" "h' = h1" "st' = st2" using r t None a Err by (auto simp: sliced_reserve_def)
      then show ?thesis using pool_step_trans [OF t(2) s(1)] s(2,3) t(3) None lay by simp
    next
      case Panic
      then have "r = outcome.Panic" using r t None a by (auto simp: sliced_reserve_def)
      with Panic al [OF fit1] lay show ?thesis by simp
    qed
  qed
qed

end

end
