(* ===== verification/Relocation.thy ===== *)
theory Relocation
  imports Sliced_Pool "HOL-Library.Multiset"
begin

text \<open>
  Moving live allocations off outdated pages (\<open>memory_management/relocation\<close>): which pages a
  relocation empties and in what order (\<open>analysis.rs\<close>), the copies it makes and the errors that
  abandon it (\<open>base.rs\<close>, \<open>copy_queue.rs\<close>), when one is wanted (\<open>trigger.rs\<close>), and the order in which a
  server runs it across its streams (\<open>streams.rs\<close>).

  A handle the sources move into a value is owned by that value: dropping the value drops the
  handle, written out in the operations that do.
\<close>

section \<open>When a relocation runs\<close>

datatype target_room = Held | MayAllocate

record arena_shape =
  as_current_pages :: nat
  as_outdated_pools :: nat
  as_outdated_pages :: nat
  as_outdated_guarded :: nat

record arena_state =
  as_page_size :: nat
  as_has_outdated :: bool
  as_full :: bool
  as_shape :: arena_shape

record relocation_trigger =
  rt_capacity :: "nat option"
  rt_stalled :: "arena_shape option"

datatype relocation_need =
    NothingNeeded
  | ArenaFullNeed
  | UnderPressure nat nat

datatype relocation_reason =
    ExplicitReason
  | PressureReason
  | ArenaFullReason
  | CaptureReason

datatype memory_pressure = Low | High

definition trigger_new :: "nat option \<Rightarrow> relocation_trigger" where
  "trigger_new capacity = \<lparr>rt_capacity = capacity, rt_stalled = None\<rparr>"

definition trigger_need :: "relocation_trigger \<Rightarrow> arena_state \<Rightarrow> relocation_need" where
  "trigger_need t arena =
    (if \<not> as_has_outdated arena \<or> rt_stalled t = Some (as_shape arena) then NothingNeeded
     else if as_full arena then ArenaFullNeed
     else
       (case rt_capacity t of
          Some capacity \<Rightarrow> UnderPressure capacity (as_page_size arena)
        | None \<Rightarrow> NothingNeeded))"

definition trigger_moved :: "relocation_trigger \<Rightarrow> relocation_trigger" where
  "trigger_moved t = t\<lparr>rt_stalled := None\<rparr>"

definition trigger_stalled :: "arena_state \<Rightarrow> relocation_trigger \<Rightarrow> relocation_trigger" where
  "trigger_stalled arena t = t\<lparr>rt_stalled := Some (as_shape arena)\<rparr>"

text \<open>\<open>saturating_sub\<close> is the subtraction of the naturals.\<close>

definition pressure_new :: "nat \<Rightarrow> nat \<Rightarrow> nat \<Rightarrow> memory_pressure" where
  "pressure_new allocated capacity next_page =
    (if allocated + next_page > capacity - next_page then High else Low)"

definition need_reason :: "nat \<Rightarrow> relocation_need \<Rightarrow> relocation_reason option" where
  "need_reason allocated need =
    (case need of
       NothingNeeded \<Rightarrow> None
     | ArenaFullNeed \<Rightarrow> Some ArenaFullReason
     | UnderPressure capacity next_page \<Rightarrow>
         (case pressure_new allocated capacity next_page of
            High \<Rightarrow> Some PressureReason
          | Low \<Rightarrow> None))"

definition reason_room :: "relocation_reason \<Rightarrow> target_room" where
  "reason_room reason =
    (case reason of
       ExplicitReason \<Rightarrow> Held
     | PressureReason \<Rightarrow> Held
     | ArenaFullReason \<Rightarrow> MayAllocate
     | CaptureReason \<Rightarrow> MayAllocate)"

section \<open>The pages a relocation empties\<close>

record live_allocation =
  la_handle :: handle
  la_size :: nat

type_synonym movable_page = "live_allocation list"

text \<open>\<open>MovablePage::new\<close>: the handles of the live slices are cloned. Cloning the handle of one slice
  changes no other slice's count, so the live slices are those of the heap before.\<close>

definition movable_new :: "memory_page \<Rightarrow> heap \<Rightarrow> movable_page option \<times> heap" where
  "movable_new page h =
    (if list_ex (\<lambda>s. is_bound h (sl_handle s)) (live h page) then (None, h)
     else
       let found = map (\<lambda>s. \<lparr>la_handle = sl_handle s, la_size = sh_size (sl_storage s)\<rparr>) (live h page);
           h = fold (\<lambda>s. clone_handle (sl_handle s)) (live h page) h
       in (if found = [] then None else Some found, h))"

definition live_bytes :: "movable_page \<Rightarrow> nat" where
  "live_bytes page = sum_list (map la_size page)"

text \<open>\<open>OutdatedPages::new\<close>: the unguarded pages in order.\<close>

fun outdated_pages :: "memory_page list \<Rightarrow> heap \<Rightarrow> movable_page list \<times> heap" where
  "outdated_pages [] h = ([], h)"
| "outdated_pages (page # pages) h =
    (if is_guarded page then outdated_pages pages h
     else
       (case movable_new page h of
          (m, h) \<Rightarrow>
            (case outdated_pages pages h of
               (ms, h) \<Rightarrow> ((case m of None \<Rightarrow> ms | Some page \<Rightarrow> page # ms), h))))"

text \<open>\<open>sort_by_key\<close> is stable, as \<open>sort_key\<close> is.\<close>

definition plan_pages :: "movable_page list \<Rightarrow> movable_page list" where
  "plan_pages pages = sort_key live_bytes pages"

section \<open>Copying\<close>

record storage_copy =
  sc_source :: storage_handle
  sc_target :: storage_handle

record relocation_move =
  mv_allocation :: handle
  mv_target :: handle
  mv_copy :: "storage_copy option"

text \<open>The two ways \<open>ServerError\<close> arises here: the fault a wait revealed, and an \<open>IoError\<close> converted.\<close>

datatype copy_fault =
    DeviceFault string
  | CopyRefused io_error

record ('c, 'st) copy_queue =
  cq_wait_device :: "'c \<Rightarrow> (copy_fault, unit) outcome \<times> 'c"
  cq_copy :: "storage_copy \<Rightarrow> 'st \<Rightarrow> 'c \<Rightarrow> unit io \<times> 'st \<times> 'c"
  cq_wait_copies :: "'c \<Rightarrow> (copy_fault, unit) outcome \<times> 'c"

text \<open>\<open>try_for_each\<close> over the copies, up to the first refused.\<close>

fun copy_each :: "('c, 'st) copy_queue \<Rightarrow> relocation_move list \<Rightarrow> 'st \<Rightarrow> 'c \<Rightarrow> unit io \<times> 'st \<times> 'c" where
  "copy_each queue [] st c = (Ok (), st, c)"
| "copy_each queue (m # ms) st c =
    (case mv_copy m of
       None \<Rightarrow> copy_each queue ms st c
     | Some x \<Rightarrow>
         (case cq_copy queue x st c of
            (Ok _, st, c) \<Rightarrow> copy_each queue ms st c
          | (Err e, st, c) \<Rightarrow> (Err e, st, c)
          | (Panic, st, c) \<Rightarrow> (Panic, st, c)))"

text \<open>\<open>Relocation::copy\<close>. The landed relocation holds the same moves; on an error the caller drops them.\<close>

definition relocation_copy ::
  "('c, 'st) copy_queue \<Rightarrow> relocation_move list \<Rightarrow> 'st \<Rightarrow> 'c \<Rightarrow> (copy_fault, relocation_move list) outcome \<times> 'st \<times> 'c" where
  "relocation_copy queue moves st c =
    (case cq_wait_device queue c of
       (Ok _, c) \<Rightarrow>
         (case copy_each queue moves st c of
            (Panic, st, c) \<Rightarrow> (Panic, st, c)
          | (enqueued, st, c) \<Rightarrow>
              (case cq_wait_copies queue c of
                 (Panic, c) \<Rightarrow> (Panic, st, c)
               | (landed, c) \<Rightarrow>
                   ((case enqueued of
                       Err e \<Rightarrow> Err (CopyRefused e)
                     | _ \<Rightarrow> (case landed of Err e \<Rightarrow> Err e | _ \<Rightarrow> Ok moves)), st, c)))
     | (Err e, c) \<Rightarrow> (Err e, st, c)
     | (Panic, c) \<Rightarrow> (Panic, st, c))"

text \<open>Dropping a move drops the two handles it holds.\<close>

definition drop_move :: "relocation_move \<Rightarrow> heap \<Rightarrow> heap" where
  "drop_move m h = drop_handle (mv_target m) (drop_handle (mv_allocation m) h)"

definition drop_moves :: "relocation_move list \<Rightarrow> heap \<Rightarrow> heap" where
  "drop_moves ms = fold drop_move ms"

text \<open>\<open>HostCopies\<close>: \<open>copy_from_slice\<close> panics when the two resources differ in length.\<close>

definition host_copy :: "storage_copy \<Rightarrow> bytes_storage \<Rightarrow> unit \<Rightarrow> unit io \<times> bytes_storage \<times> unit" where
  "host_copy x st c =
    (case bs_get (sc_source x) st of
       Ok source \<Rightarrow>
         (case bs_get (sc_target x) st of
            Ok target \<Rightarrow>
              if sh_size target = sh_size source then (Ok (), bs_write target (bs_read source st) st, c)
              else (Panic, st, c)
          | Err e \<Rightarrow> (Err e, st, c)
          | Panic \<Rightarrow> (Panic, st, c))
     | Err e \<Rightarrow> (Err e, st, c)
     | Panic \<Rightarrow> (Panic, st, c))"

definition host_copies :: "(unit, bytes_storage) copy_queue" where
  "host_copies =
    \<lparr>cq_wait_device = (\<lambda>c. (Ok (), c)), cq_copy = host_copy, cq_wait_copies = (\<lambda>c. (Ok (), c))\<rparr>"

section \<open>A relocation across the streams of a server\<close>

text \<open>What a runtime supplies (trait \<open>RelocatingStreams\<close>); every method takes the streams mutably.\<close>

record 's relocating_streams =
  rs_recording :: "'s \<Rightarrow> bool \<times> 's"
  rs_has_outdated :: "'s \<Rightarrow> bool \<times> 's"
  rs_relocation_need :: "'s \<Rightarrow> relocation_need \<times> 's"
  rs_bytes_allocated :: "'s \<Rightarrow> nat \<times> 's"
  rs_finish :: "'s \<Rightarrow> 's"
  rs_relocate_memory :: "relocation_reason \<Rightarrow> 's \<Rightarrow> 's"
  rs_device_has_outdated :: "'s \<Rightarrow> bool \<times> 's"
  rs_relocate_device_memory :: "relocation_reason \<Rightarrow> 's \<Rightarrow> 's"
  rs_cleanup_memory :: "'s \<Rightarrow> 's"

datatype graph_state_error = StreamRecording

definition refuse_while_recording ::
  "'s relocating_streams \<Rightarrow> 's \<Rightarrow> (graph_state_error, unit) outcome \<times> 's" where
  "refuse_while_recording rs s =
    (case rs_recording rs s of (recording, s) \<Rightarrow> (if recording then Err StreamRecording else Ok (), s))"

definition streams_relocate :: "'s relocating_streams \<Rightarrow> relocation_reason \<Rightarrow> 's \<Rightarrow> 's" where
  "streams_relocate rs reason s =
    (case rs_recording rs s of (recording, s) \<Rightarrow>
       if recording then s
       else
         (case rs_has_outdated rs s of (outdated, s) \<Rightarrow>
            if \<not> outdated then s else rs_relocate_memory rs reason (rs_finish rs s)))"

definition streams_reclaim ::
  "'s relocating_streams \<Rightarrow> 's \<Rightarrow> (graph_state_error, unit) outcome \<times> 's" where
  "streams_reclaim rs s =
    (case refuse_while_recording rs s of
       (Ok _, s) \<Rightarrow> (Ok (), rs_cleanup_memory rs (streams_relocate rs ExplicitReason s))
     | (r, s) \<Rightarrow> (r, s))"

text \<open>\<open>reason\<close> asks for the bytes only when the answer depends on them.\<close>

definition relocate_when_wanted :: "'s relocating_streams \<Rightarrow> 's \<Rightarrow> 's" where
  "relocate_when_wanted rs s =
    (case rs_relocation_need rs s of (need, s) \<Rightarrow>
       if need = NothingNeeded then s
       else
         (case rs_recording rs s of (recording, s) \<Rightarrow>
            if recording then s
            else
              (case (case need of
                       UnderPressure _ _ \<Rightarrow>
                         (case rs_bytes_allocated rs s of (allocated, s) \<Rightarrow> (need_reason allocated need, s))
                     | _ \<Rightarrow> (need_reason 0 need, s)) of
                 (None, s) \<Rightarrow> s
               | (Some reason, s) \<Rightarrow> rs_relocate_memory rs reason (rs_finish rs s))))"

definition relocate_device :: "'s relocating_streams \<Rightarrow> relocation_reason \<Rightarrow> 's \<Rightarrow> 's" where
  "relocate_device rs reason s =
    (case rs_recording rs s of (recording, s) \<Rightarrow>
       if recording then s
       else
         (case rs_device_has_outdated rs s of (outdated, s) \<Rightarrow>
            if \<not> outdated then s else rs_relocate_device_memory rs reason (rs_finish rs s)))"

section \<open>What the trigger decides\<close>

text \<open>The trigger asks for a relocation exactly when there is something to gain: a pool is
  outdated, the last relocation did not stall on these very pools, and either every page size is
  taken or the device reports a capacity that two more pages of the current size would exceed; the
  targets may take new pages only where memory is not what is short.\<close>

theorem trigger_decides:
  "need_reason allocated (trigger_need t arena) =
    (if as_has_outdated arena \<and> rt_stalled t \<noteq> Some (as_shape arena) then
       if as_full arena then Some ArenaFullReason
       else if (\<exists>capacity. rt_capacity t = Some capacity \<and> capacity < allocated + 2 * as_page_size arena)
         then Some PressureReason
       else None
     else None)"
  by (auto simp: need_reason_def trigger_need_def pressure_new_def split: option.splits)

lemma stalled_until_changed:
  assumes "as_shape arena' = as_shape arena"
  shows "trigger_need (trigger_stalled arena t) arena' = NothingNeeded"
  using assms by (simp add: trigger_need_def trigger_stalled_def)

lemma plan_pages_cheapest:
  "sorted (map live_bytes (plan_pages ms)) \<and> mset (plan_pages ms) = mset ms"
  by (simp add: plan_pages_def)

section \<open>The order of a relocation on a server\<close>

text \<open>The calls a server's streams receive, with the answers they give.\<close>

datatype stream_call =
    AskedRecording bool
  | AskedOutdated bool
  | AskedNeed relocation_need
  | AskedBytes nat
  | AskedDeviceOutdated bool
  | Finished
  | MovedStream relocation_reason
  | MovedDevice relocation_reason
  | CleanedUp

text \<open>Streams that answer as a function of every call so far, and log the calls.\<close>

record stream_answers =
  sa_recording :: "stream_call list \<Rightarrow> bool"
  sa_outdated :: "stream_call list \<Rightarrow> bool"
  sa_need :: "stream_call list \<Rightarrow> relocation_need"
  sa_bytes :: "stream_call list \<Rightarrow> nat"
  sa_device_outdated :: "stream_call list \<Rightarrow> bool"

definition asked :: "(stream_call list \<Rightarrow> 'a) \<Rightarrow> ('a \<Rightarrow> stream_call) \<Rightarrow> stream_call list \<Rightarrow> 'a \<times> stream_call list" where
  "asked answer call log = (answer log, log @ [call (answer log)])"

definition traced :: "stream_answers \<Rightarrow> stream_call list relocating_streams" where
  "traced a =
    \<lparr>rs_recording = asked (sa_recording a) AskedRecording,
     rs_has_outdated = asked (sa_outdated a) AskedOutdated,
     rs_relocation_need = asked (sa_need a) AskedNeed,
     rs_bytes_allocated = asked (sa_bytes a) AskedBytes,
     rs_finish = (\<lambda>log. log @ [Finished]),
     rs_relocate_memory = (\<lambda>reason log. log @ [MovedStream reason]),
     rs_device_has_outdated = asked (sa_device_outdated a) AskedDeviceOutdated,
     rs_relocate_device_memory = (\<lambda>reason log. log @ [MovedDevice reason]),
     rs_cleanup_memory = (\<lambda>log. log @ [CleanedUp])\<rparr>"

text \<open>What is known of the streams after a call: whether the last answer denied a recording, and
  whether their work was finished since.\<close>

datatype stream_phase = Unknown | NotRecording | Idle

fun phase_after :: "stream_phase \<Rightarrow> stream_call \<Rightarrow> stream_phase" where
  "phase_after ph (AskedRecording b) = (if b then Unknown else NotRecording)"
| "phase_after ph Finished = (if ph = NotRecording then Idle else Unknown)"
| "phase_after ph (MovedStream r) = Unknown"
| "phase_after ph (MovedDevice r) = Unknown"
| "phase_after ph CleanedUp = Unknown"
| "phase_after ph call = ph"

fun orderly :: "stream_phase \<Rightarrow> stream_call list \<Rightarrow> bool" where
  "orderly ph [] \<longleftrightarrow> True"
| "orderly ph (call # log) \<longleftrightarrow>
    (case call of MovedStream r \<Rightarrow> ph = Idle | MovedDevice r \<Rightarrow> ph = Idle | _ \<Rightarrow> True)
    \<and> orderly (phase_after ph call) log"

lemma orderly_append:
  "orderly ph (xs @ ys) \<longleftrightarrow> orderly ph xs \<and> orderly (fold (\<lambda>call ph. phase_after ph call) xs ph) ys"
  by (induction xs arbitrary: ph) auto

inductive server_run :: "stream_answers \<Rightarrow> stream_call list \<Rightarrow> bool" for a where
  start: "server_run a []"
| wanted: "server_run a log \<Longrightarrow> server_run a (relocate_when_wanted (traced a) log)"
| relocate: "server_run a log \<Longrightarrow> server_run a (streams_relocate (traced a) reason log)"
| reclaim: "server_run a log \<Longrightarrow> server_run a (snd (streams_reclaim (traced a) log))"
| device: "server_run a log \<Longrightarrow> server_run a (relocate_device (traced a) reason log)"

lemmas stream_defs = traced_def asked_def relocate_when_wanted_def streams_relocate_def streams_reclaim_def
  refuse_while_recording_def relocate_device_def

text \<open>C24: Nothing moves under a recording or under running work: whatever the streams answer, in every
  sequence of relocations a server asks for, an explicit reclaim included, memory moves only when
  the streams' work was finished after the last time they were asked for a recording, and they
  answered that none records.\<close>

theorem moves_are_orderly:
  assumes "server_run a log"
  shows "orderly Unknown log"
  using assms
proof induction
  case (wanted log)
  then show ?case
    by (simp add: stream_defs orderly_append split: relocation_need.split option.split)
next
  case (relocate log reason)
  then show ?case by (simp add: stream_defs orderly_append)
next
  case (reclaim log)
  then show ?case by (simp add: stream_defs orderly_append)
next
  case (device log reason)
  then show ?case by (simp add: stream_defs orderly_append)
qed simp

text \<open>Streams that want a relocation under pressure: it is logged after the work is finished.\<close>

theorem moves_are_orderly_witness:
  "let a = \<lparr>sa_recording = (\<lambda>_. False), sa_outdated = (\<lambda>_. True), sa_need = (\<lambda>_. UnderPressure 100 40),
      sa_bytes = (\<lambda>_. 30), sa_device_outdated = (\<lambda>_. True)\<rparr>;
     log = relocate_when_wanted (traced a) []
   in orderly Unknown log \<and> log = [AskedNeed (UnderPressure 100 40), AskedRecording False, AskedBytes 30, Finished, MovedStream PressureReason]"
proof -
  let ?a = "\<lparr>sa_recording = (\<lambda>_. False), sa_outdated = (\<lambda>_. True), sa_need = (\<lambda>_. UnderPressure 100 40),
      sa_bytes = (\<lambda>_. 30), sa_device_outdated = (\<lambda>_. True)\<rparr> :: stream_answers"
  have "orderly Unknown (relocate_when_wanted (traced ?a) [])"
    by (rule moves_are_orderly [of ?a, OF server_run.wanted [OF server_run.start]])
  then show ?thesis
    by (simp add: stream_defs need_reason_def pressure_new_def)
qed

end
