(* ===== verification/Arena.thy ===== *)
theory Arena
  imports Pool_Frame Relocation
begin

text \<open>
  The arena of sliced pools, one per page size a workload grew through (\<open>dynamic/arena.rs\<close>): the
  sizing of its pages, the current pool and the outdated ones it drains, and the relocation that
  moves what the outdated pools hold onto the current one.

  The logger and the name of the arena are left out. Slots are addressed from \<open>ar_first_index\<close> on, in
  the eight bits of a location.
\<close>

definition arena_slots :: nat where
  "arena_slots = 64"

definition page_slack :: nat where
  "page_slack = 1024 * 1024"

definition page_granule :: nat where
  "page_granule = 1024 * 1024"

record page_sizing =
  ps_min_page_size :: nat
  ps_max_page_size :: nat
  ps_alignment :: nat

datatype fit = Fits | Grow nat | TooLarge

text \<open>What the sources read of \<open>MemoryDeviceProperties\<close>.\<close>

record memory_properties =
  mp_max_page_size :: nat
  mp_alignment :: nat
  mp_max_memory :: "nat option"

definition sizing_new :: "nat \<Rightarrow> memory_properties \<Rightarrow> page_sizing" where
  "sizing_new min_page_size properties =
    (let alignment = mp_alignment properties;
         max_page_size = max (mp_max_page_size properties div alignment * alignment) alignment
     in \<lparr>ps_min_page_size = min (next_multiple_of (max min_page_size alignment) alignment) max_page_size,
         ps_max_page_size = max_page_size, ps_alignment = alignment\<rparr>)"

text \<open>\<open>clamp\<close>, whose panic on crossed bounds the construction of the sizing rules out.\<close>

definition clamp :: "nat \<Rightarrow> nat \<Rightarrow> nat \<Rightarrow> nat" where
  "clamp lo hi n = (if n < lo then lo else if hi < n then hi else n)"

definition sizing_fit :: "page_sizing \<Rightarrow> nat \<Rightarrow> nat \<Rightarrow> fit" where
  "sizing_fit sz n current_page =
    (let needed = n + calculate_padding n (ps_alignment sz) in
     if needed \<le> current_page then Fits
     else if ps_max_page_size sz < needed then TooLarge
     else Grow (clamp (ps_min_page_size sz) (ps_max_page_size sz)
       (next_multiple_of (next_multiple_of (n + page_slack) page_granule) (ps_alignment sz))))"

definition sizing_pool :: "page_sizing \<Rightarrow> nat \<Rightarrow> 8 word \<Rightarrow> sliced_pool" where
  "sizing_pool sz n index =
    sliced_new \<lparr>ly_page_size = n, ly_max_slice_size = n, ly_alignment = ps_alignment sz, ly_pool = index\<rparr>"

record arena =
  ar_slots :: "sliced_pool option list"
  ar_first_index :: "8 word"
  ar_current :: nat
  ar_outdated :: "nat list"
  ar_sizing :: page_sizing

definition arena_new :: "page_sizing \<Rightarrow> 8 word \<Rightarrow> arena" where
  "arena_new sz first_index =
    \<lparr>ar_slots = Some (sizing_pool sz (ps_min_page_size sz) first_index) # replicate (arena_slots - 1) None,
     ar_first_index = first_index, ar_current = 0, ar_outdated = [], ar_sizing = sz\<rparr>"

text \<open>\<open>u8::checked_sub\<close>.\<close>

definition slot_of :: "8 word \<Rightarrow> arena \<Rightarrow> nat option" where
  "slot_of index a = checked_sub (unat index) (unat (ar_first_index a))"

definition arena_pool :: "8 word \<Rightarrow> arena \<Rightarrow> sliced_pool option" where
  "arena_pool index a =
    (case slot_of index a of
       None \<Rightarrow> None
     | Some slot \<Rightarrow> (case get_opt (ar_slots a) slot of None \<Rightarrow> None | Some p \<Rightarrow> p))"

definition set_slot :: "nat \<Rightarrow> sliced_pool \<Rightarrow> arena \<Rightarrow> arena" where
  "set_slot slot q a = a\<lparr>ar_slots := (ar_slots a)[slot := Some q]\<rparr>"

definition arena_has_outdated :: "arena \<Rightarrow> bool" where
  "arena_has_outdated a \<longleftrightarrow> ar_outdated a \<noteq> []"

text \<open>\<open>current\<close>: \<open>expect\<close> panics on an empty slot, and so does an index out of range.\<close>

definition current_pool :: "arena \<Rightarrow> sliced_pool io" where
  "current_pool a =
    (case get_opt (ar_slots a) (ar_current a) of Some (Some q) \<Rightarrow> Ok q | _ \<Rightarrow> Panic)"

definition outdated_of :: "arena \<Rightarrow> sliced_pool list" where
  "outdated_of a = List.map_filter (\<lambda>slot. ar_slots a ! slot) (ar_outdated a)"

definition arena_state_of :: "arena \<Rightarrow> arena_state io" where
  "arena_state_of a =
    try_then (current_pool a) (\<lambda>q.
      Ok \<lparr>as_page_size = sp_page_size q, as_has_outdated = arena_has_outdated a,
          as_full = (length (ar_outdated a) + 1 = arena_slots),
          as_shape =
            \<lparr>as_current_pages = length (sp_pages q), as_outdated_pools = length (ar_outdated a),
             as_outdated_pages = sum_list (map (\<lambda>q. length (sp_pages q)) (outdated_of a)),
             as_outdated_guarded =
               length (filter is_guarded (concat (map (\<lambda>q. map fst (sp_pages q)) (outdated_of a))))\<rparr>\<rparr>)"

section \<open>Reserving\<close>

definition arena_grow ::
  "'st storage_ops \<Rightarrow> nat \<Rightarrow> nat \<Rightarrow> page_mapping \<Rightarrow> arena \<Rightarrow> heap \<Rightarrow> 'st \<Rightarrow> (handle \<times> arena \<times> heap) io \<times> 'st" where
  "arena_grow ops n new_size mapping a h st =
    (case position (\<lambda>slot. slot = None) (ar_slots a) of
       None \<Rightarrow> (Err (PageSizesExhausted n), st)
     | Some slot \<Rightarrow>
         (case alloc_page ops n mapping
             (sizing_pool (ar_sizing a) new_size (ar_first_index a + of_nat slot)) h st of
            (r, st) \<Rightarrow>
              (try_then r (\<lambda>(x, q, h).
                 Ok (x, (set_slot slot q a)\<lparr>ar_outdated := ar_outdated a @ [ar_current a], ar_current := slot\<rparr>, h)), st)))"

definition arena_reserve ::
  "'st storage_ops \<Rightarrow> nat \<Rightarrow> page_mapping \<Rightarrow> arena \<Rightarrow> heap \<Rightarrow> error_graph \<Rightarrow> 'st
    \<Rightarrow> handle io \<times> arena \<times> heap \<times> error_graph \<times> 'st" where
  "arena_reserve ops n mapping a h g st =
    (case current_pool a of
       Ok q \<Rightarrow>
         (case sizing_fit (ar_sizing a) n (sp_page_size q) of
            Fits \<Rightarrow>
              (case sliced_reserve ops n mapping q h g st of
                 (r, q, h, g, st) \<Rightarrow> (r, set_slot (ar_current a) q a, h, g, st))
          | Grow new_size \<Rightarrow>
              (case arena_grow ops n new_size mapping a h st of
                 (Ok (x, a, h), st) \<Rightarrow> (Ok x, a, h, g, st)
               | (Err e, st) \<Rightarrow> (Err e, a, h, g, st)
               | (Panic, st) \<Rightarrow> (Panic, a, h, g, st))
          | TooLarge \<Rightarrow> (Err (BufferTooBig n), a, h, g, st))
     | _ \<Rightarrow> (Panic, a, h, g, st))"

definition arena_try_reserve ::
  "nat \<Rightarrow> arena \<Rightarrow> heap \<Rightarrow> error_graph \<Rightarrow> (handle option \<times> arena \<times> heap \<times> error_graph) io" where
  "arena_try_reserve n a h g =
    try_then (current_pool a) (\<lambda>q.
      case sizing_fit (ar_sizing a) n (sp_page_size q) of
        Fits \<Rightarrow>
          try_then (sliced_try_reserve n q h g) (\<lambda>(r, q, h, g). Ok (r, set_slot (ar_current a) q a, h, g))
      | _ \<Rightarrow> Ok (None, a, h, g))"

section \<open>Draining\<close>

text \<open>The \<open>retain\<close> over the outdated slots: the slots kept, and the pools.\<close>

fun drain_slots ::
  "'st storage_ops \<Rightarrow> nat list \<Rightarrow> sliced_pool option list \<Rightarrow> heap \<Rightarrow> error_graph \<Rightarrow> 'st
    \<Rightarrow> (nat list \<times> sliced_pool option list \<times> heap \<times> error_graph \<times> 'st) io" where
  "drain_slots ops [] slots h g st = Ok ([], slots, h, g, st)"
| "drain_slots ops (slot # rest) slots h g st =
    (case get_opt slots slot of
       None \<Rightarrow> Panic
     | Some None \<Rightarrow> drain_slots ops rest slots h g st
     | Some (Some q) \<Rightarrow>
         (case release_empty ops q h g st of
            (q, h, g, st) \<Rightarrow>
              if sp_pages q = [] then drain_slots ops rest (slots[slot := None]) h g st
              else
                try_then (drain_slots ops rest (slots[slot := Some q]) h g st)
                  (\<lambda>(kept, slots, h, g, st). Ok (slot # kept, slots, h, g, st))))"

definition arena_drain ::
  "'st storage_ops \<Rightarrow> arena \<Rightarrow> heap \<Rightarrow> error_graph \<Rightarrow> 'st \<Rightarrow> (arena \<times> heap \<times> error_graph \<times> 'st) io" where
  "arena_drain ops a h g st =
    try_then (drain_slots ops (ar_outdated a) (ar_slots a) h g st) (\<lambda>(kept, slots, h, g, st).
      Ok (a\<lparr>ar_outdated := kept, ar_slots := slots\<rparr>, h, g, st))"

definition arena_cleanup ::
  "'st storage_ops \<Rightarrow> nat \<Rightarrow> cleanup_kind \<Rightarrow> arena \<Rightarrow> heap \<Rightarrow> error_graph \<Rightarrow> 'st
    \<Rightarrow> (arena \<times> heap \<times> error_graph \<times> 'st) io" where
  "arena_cleanup ops alloc_nr cleanup a h g st =
    try_then (current_pool a) (\<lambda>q.
      case sliced_cleanup ops alloc_nr cleanup q h g st of
        (q, h, g, st) \<Rightarrow> arena_drain ops (set_slot (ar_current a) q a) h g st)"

definition arena_report :: "heap \<Rightarrow> arena \<Rightarrow> pool_report list io" where
  "arena_report h a =
    try_then (current_pool a) (\<lambda>q.
      Ok ((sliced_report h q)\<lparr>rp_kind := Adaptive (sp_page_size q)
             (sum_list (map (\<lambda>q. length (sp_pages q)) (outdated_of a)))\<rparr>
          # map (sliced_report h) (outdated_of a)))"

section \<open>Planning and committing a relocation\<close>

text \<open>\<open>plan_move\<close> consumes the allocation: on \<open>None\<close> its handle is dropped, and the target's with it once
  one is reserved.\<close>

definition plan_target ::
  "'st storage_ops \<Rightarrow> nat \<Rightarrow> target_room \<Rightarrow> sliced_pool \<Rightarrow> heap \<Rightarrow> error_graph \<Rightarrow> 'st
    \<Rightarrow> (handle option \<times> sliced_pool \<times> heap \<times> error_graph \<times> 'st) io" where
  "plan_target ops n room q h g st =
    try_then (sliced_try_reserve n q h g) (\<lambda>(r, q, h, g).
      case (r, room) of
        (Some x, _) \<Rightarrow> Ok (Some x, q, h, g, st)
      | (None, Held) \<Rightarrow> Ok (None, q, h, g, st)
      | (None, MayAllocate) \<Rightarrow>
          (case alloc_page ops n Eager q h st of
             (Ok (x, q, h), st) \<Rightarrow> Ok (Some x, q, h, g, st)
           | (Err e, st) \<Rightarrow> Ok (None, q, h, g, st)
           | (Panic, st) \<Rightarrow> Panic))"

definition plan_move ::
  "'st storage_ops \<Rightarrow> target_room \<Rightarrow> live_allocation \<Rightarrow> arena \<Rightarrow> heap \<Rightarrow> error_graph \<Rightarrow> 'st
    \<Rightarrow> (relocation_move option \<times> arena \<times> heap \<times> error_graph \<times> 'st) io" where
  "plan_move ops room allocation a h g st =
    (let i = la_handle allocation; source = location h i in
     case arena_pool (loc_pool source) a of
       None \<Rightarrow> Ok (None, a, drop_handle i h, g, st)
     | Some source_pool \<Rightarrow>
         try_then (storage_at source source_pool) (\<lambda>source_storage.
         try_then (current_pool a) (\<lambda>q.
         try_then (plan_target ops (la_size allocation) room q h g st) (\<lambda>(r, q, h, g, st).
           let a = set_slot (ar_current a) q a in
           case r of
             None \<Rightarrow> Ok (None, a, drop_handle i h, g, st)
           | Some x \<Rightarrow>
               (case source_storage of
                  None \<Rightarrow> Ok (Some \<lparr>mv_allocation = i, mv_target = x, mv_copy = None\<rparr>, a, h, g, st)
                | Some s \<Rightarrow>
                    (case mapped_storage_at ops (location h x) q st of
                       (Ok (t, q), st) \<Rightarrow>
                         Ok (Some \<lparr>mv_allocation = i, mv_target = x, mv_copy = Some \<lparr>sc_source = s, sc_target = t\<rparr>\<rparr>,
                           set_slot (ar_current a) q a, h, g, st)
                     | (Err e, st) \<Rightarrow> Ok (None, a, drop_handle x (drop_handle i h), g, st)
                     | (Panic, st) \<Rightarrow> Panic))))))"

text \<open>The allocations of one page: \<open>truncate\<close> drops the moves made for it, and the loop the rest.\<close>

fun plan_page ::
  "'st storage_ops \<Rightarrow> target_room \<Rightarrow> movable_page \<Rightarrow> relocation_move list \<Rightarrow> arena \<Rightarrow> heap \<Rightarrow> error_graph \<Rightarrow> 'st
    \<Rightarrow> (relocation_move list \<times> arena \<times> heap \<times> error_graph \<times> 'st) io" where
  "plan_page ops room [] moves a h g st = Ok (moves, a, h, g, st)"
| "plan_page ops room (allocation # rest) moves a h g st =
    try_then (plan_move ops room allocation a h g st) (\<lambda>(r, a, h, g, st).
      case r of
        Some m \<Rightarrow> plan_page ops room rest (moves @ [m]) a h g st
      | None \<Rightarrow> Ok ([], a, fold (\<lambda>x. drop_handle (la_handle x)) rest (drop_moves moves h), g, st))"

fun plan_loop ::
  "'st storage_ops \<Rightarrow> target_room \<Rightarrow> movable_page list \<Rightarrow> relocation_move list \<Rightarrow> arena \<Rightarrow> heap \<Rightarrow> error_graph \<Rightarrow> 'st
    \<Rightarrow> (relocation_move list \<times> arena \<times> heap \<times> error_graph \<times> 'st) io" where
  "plan_loop ops room [] moves a h g st = Ok (moves, a, h, g, st)"
| "plan_loop ops room (page # pages) moves a h g st =
    try_then (plan_page ops room page [] a h g st) (\<lambda>(new, a, h, g, st).
      plan_loop ops room pages (moves @ new) a h g st)"

definition arena_plan ::
  "'st storage_ops \<Rightarrow> target_room \<Rightarrow> arena \<Rightarrow> heap \<Rightarrow> error_graph \<Rightarrow> 'st
    \<Rightarrow> (relocation_move list \<times> arena \<times> heap \<times> error_graph \<times> 'st) io" where
  "arena_plan ops room a h g st =
    (case outdated_pages (concat (map (\<lambda>q. map fst (sp_pages q)) (outdated_of a))) h of
       (pages, h) \<Rightarrow> plan_loop ops room (plan_pages pages) [] a h g st)"

text \<open>\<open>pair_mut\<close>: nothing when the two indices are equal, out of range or name an empty slot.\<close>

definition pair_mut :: "8 word \<Rightarrow> 8 word \<Rightarrow> arena \<Rightarrow> (nat \<times> sliced_pool \<times> nat \<times> sliced_pool) option" where
  "pair_mut source target a =
    (case (slot_of source a, slot_of target a) of
       (Some i, Some j) \<Rightarrow>
         if i = j then None
         else
           (case (get_opt (ar_slots a) i, get_opt (ar_slots a) j) of
              (Some (Some p), Some (Some q)) \<Rightarrow> Some (i, p, j, q)
            | _ \<Rightarrow> None)
     | _ \<Rightarrow> None)"

text \<open>Writing through the reference \<open>slice_at\<close> gives.\<close>

definition set_slice_at :: "memory_location \<Rightarrow> slice \<Rightarrow> sliced_pool \<Rightarrow> sliced_pool" where
  "set_slice_at l s q =
    (let k = unat (loc_page l); (page, i) = sp_pages q ! k in
     q\<lparr>sp_pages := (sp_pages q)[k := (page\<lparr>pg_slices := (pg_slices page)[unat (loc_slice l) := s]\<rparr>, i)]\<rparr>)"

definition commit_move ::
  "relocation_move \<Rightarrow> arena \<times> heap \<times> error_graph \<Rightarrow> (arena \<times> heap \<times> error_graph) io" where
  "commit_move m = (\<lambda>(a, h, g).
    (let source = location h (mv_allocation m);
         destination = location h (mv_target m);
         h = drop_handle (mv_allocation m) (drop_handle (mv_target m) h) in
     case pair_mut (loc_pool source) (loc_pool destination) a of
       None \<Rightarrow> Ok (a, h, g)
     | Some (i, p, j, q) \<Rightarrow>
         try_then (slice_at source p) (\<lambda>s.
         try_then (slice_at destination q) (\<lambda>t.
           case hand_over s t h g of
             ((s, t), h, g) \<Rightarrow>
               Ok (set_slot j (set_slice_at destination t q) (set_slot i (set_slice_at source s p) a), h, g)))))"

definition arena_commit ::
  "'st storage_ops \<Rightarrow> relocation_move list \<Rightarrow> arena \<Rightarrow> heap \<Rightarrow> error_graph \<Rightarrow> 'st
    \<Rightarrow> (arena \<times> heap \<times> error_graph \<times> 'st) io" where
  "arena_commit ops moves a h g st =
    try_then (fold_try commit_move moves (a, h, g)) (\<lambda>(a, h, g). arena_drain ops a h g st)"

section \<open>The sizes of pages\<close>

definition sizing_ok :: "page_sizing \<Rightarrow> bool" where
  "sizing_ok sz \<longleftrightarrow> 0 < ps_alignment sz \<and> ps_alignment sz dvd ps_min_page_size sz
    \<and> ps_alignment sz dvd ps_max_page_size sz \<and> ps_alignment sz \<le> ps_min_page_size sz
    \<and> ps_min_page_size sz \<le> ps_max_page_size sz"

lemma sizing_new_ok:
  assumes "0 < mp_alignment p"
  shows "sizing_ok (sizing_new n p)"
proof -
  let ?al = "mp_alignment p"
  let ?max = "max (mp_max_page_size p div ?al * ?al) ?al"
  let ?min = "min (next_multiple_of (max n ?al) ?al) ?max"
  have "?al dvd ?max" by (simp add: max_def)
  moreover have "?al dvd next_multiple_of (max n ?al) ?al" by (rule dvd_next_multiple_of [OF assms])
  then have "?al dvd ?min" using \<open>?al dvd ?max\<close> by (simp only: min_def split: if_splits) simp
  moreover have "?al \<le> next_multiple_of (max n ?al) ?al"
    using next_multiple_of_ge [of "max n ?al" ?al] by simp
  ultimately show ?thesis using assms by (simp add: sizing_ok_def sizing_new_def Let_def)
qed

lemma clamp_bounds: "lo \<le> hi \<Longrightarrow> lo \<le> clamp lo hi n \<and> clamp lo hi n \<le> hi"
  by (simp add: clamp_def)

lemma clamp_dvd: "d dvd lo \<Longrightarrow> d dvd hi \<Longrightarrow> d dvd n \<Longrightarrow> d dvd clamp lo hi n"
  by (simp add: clamp_def)

lemma clamp_ge: "m \<le> n \<Longrightarrow> m \<le> hi \<Longrightarrow> m \<le> clamp lo hi n"
  by (auto simp: clamp_def)

text \<open>What \<open>fit\<close> decides, with the alignment of every page size it gives.\<close>

lemma fit_shown:
  assumes "sizing_ok sz"
  shows "case sizing_fit sz n page of
      Fits \<Rightarrow> n + calculate_padding n (ps_alignment sz) \<le> page
    | Grow new \<Rightarrow> page < n + calculate_padding n (ps_alignment sz)
        \<and> n + calculate_padding n (ps_alignment sz) \<le> new \<and> ps_alignment sz dvd new
        \<and> ps_min_page_size sz \<le> new \<and> new \<le> ps_max_page_size sz
    | TooLarge \<Rightarrow> page < n + calculate_padding n (ps_alignment sz)
        \<and> ps_max_page_size sz < n + calculate_padding n (ps_alignment sz)"
proof -
  let ?al = "ps_alignment sz"
  let ?big = "next_multiple_of (next_multiple_of (n + page_slack) page_granule) ?al"
  have al: "0 < ?al" using assms by (simp add: sizing_ok_def)
  have dvd: "?al dvd ?big" by (rule dvd_next_multiple_of [OF al])
  have "n \<le> ?big"
    using next_multiple_of_ge [of "n + page_slack" page_granule]
      next_multiple_of_ge [of "next_multiple_of (n + page_slack) page_granule" ?al] by linarith
  then have "next_multiple_of n ?al \<le> ?big" by (rule next_multiple_of_least [OF al dvd])
  then show ?thesis
    using assms clamp_bounds [of "ps_min_page_size sz" "ps_max_page_size sz" ?big]
      clamp_dvd [of ?al "ps_min_page_size sz" "ps_max_page_size sz" ?big]
      clamp_ge [of "next_multiple_of n ?al" ?big "ps_max_page_size sz" "ps_min_page_size sz"] dvd
    by (simp add: sizing_fit_def Let_def padding_next_multiple [OF al] sizing_ok_def)
qed

section \<open>Pools side by side\<close>

text \<open>How the pool of slot \<open>k\<close> is carved.\<close>

definition carved_for :: "page_sizing \<Rightarrow> 8 word \<Rightarrow> nat \<Rightarrow> sliced_pool \<Rightarrow> bool" where
  "carved_for sz first k q \<longleftrightarrow> sp_alignment q = ps_alignment sz \<and> ps_alignment sz dvd sp_page_size q
    \<and> sp_page_size q \<le> ps_max_page_size sz \<and> sp_base q = location_new (first + of_nat k) 0 0"

definition slots_served ::
  "('st \<Rightarrow> storage_id set) \<Rightarrow> ('st \<Rightarrow> storage_id \<rightharpoonup> nat) \<Rightarrow> ('st \<Rightarrow> bool)
    \<Rightarrow> sliced_pool option list \<Rightarrow> heap \<Rightarrow> 'st \<Rightarrow> bool" where
  "slots_served ids held sane slots h st \<longleftrightarrow> heap_ok h \<and> sane st
    \<and> (\<forall>k < length slots. \<forall>q. slots ! k = Some q \<longrightarrow> served ids held sane q h st)
    \<and> (\<forall>j < length slots. \<forall>k < length slots. \<forall>p q. j \<noteq> k \<longrightarrow> slots ! j = Some p \<longrightarrow> slots ! k = Some q \<longrightarrow> apart p q)"

lemma slots_servedD:
  assumes "slots_served ids held sane slots h st"
  shows "heap_ok h" "sane st" "k < length slots \<Longrightarrow> slots ! k = Some q \<Longrightarrow> served ids held sane q h st"
    "j < length slots \<Longrightarrow> k < length slots \<Longrightarrow> j \<noteq> k \<Longrightarrow> slots ! j = Some p \<Longrightarrow> slots ! k = Some q \<Longrightarrow> apart p q"
  using assms unfolding slots_served_def by blast+

text \<open>One pool steps, or a new one takes an empty slot, and the others are as they were.\<close>

lemma slots_put:
  assumes sv: "slots_served ids held sane slots h st" and k: "k < length slots"
    and others: "\<And>j p. j < length slots \<Longrightarrow> j \<noteq> k \<Longrightarrow> slots ! j = Some p \<Longrightarrow> apart p q"
    and step: "pool_step ids held sane q h st q' h' st'"
  shows "slots_served ids held sane (slots[k := Some q']) h' st'"
    and "\<And>j p. j < length slots \<Longrightarrow> j \<noteq> k \<Longrightarrow> slots ! j = Some p \<Longrightarrow> lives h' (sp_pages p) = lives h (sp_pages p)"
proof -
  note fr = step_frame [OF slots_servedD(3) [OF sv] step]
  show lv: "lives h' (sp_pages p) = lives h (sp_pages p)"
    if "j < length slots" "j \<noteq> k" "slots ! j = Some p" for j p
    using fr(3) [OF that(1,3) others [OF that]] .
  have ap: "apart p q'" "served ids held sane p h' st'" if "j < length slots" "j \<noteq> k" "slots ! j = Some p" for j p
    using fr(1,2) [OF that(1,3) others [OF that]] by blast+
  have at: "served ids held sane r h' st'" if "j < length slots" "slots[k := Some q'] ! j = Some r" for j r
    using that ap(2) [of j r] pool_stepD(1) [OF step] k by (cases "j = k") auto
  have ap2: "apart p r" if "i < length slots" "j < length slots" "i \<noteq> j"
    "slots[k := Some q'] ! i = Some p" "slots[k := Some q'] ! j = Some r" for i j p r
  proof -
    consider "i = k" | "j = k" | "i \<noteq> k" "j \<noteq> k" by blast
    then show ?thesis
    proof cases
      case 1
      then have "p = q'" "slots ! j = Some r" "j \<noteq> k" using that k by auto
      with ap(1) [of j r] that(2) show ?thesis by (simp add: apart_sym)
    next
      case 2
      then have "r = q'" "slots ! i = Some p" "i \<noteq> k" using that k by auto
      with ap(1) [of i p] that(1) show ?thesis by simp
    next
      case 3
      then show ?thesis using that slots_servedD(4) [OF sv, of i j p r] by simp
    qed
  qed
  have "heap_ok h'" "sane st'" using pool_stepD(3,4) [OF step] by (simp_all add: confined_def)
  then show "slots_served ids held sane (slots[k := Some q']) h' st'"
    unfolding slots_served_def using at ap2 by simp
qed

lemma slots_step:
  assumes "slots_served ids held sane slots h st" "k < length slots" "slots ! k = Some q"
    "pool_step ids held sane q h st q' h' st'"
  shows "slots_served ids held sane (slots[k := Some q']) h' st'"
    and "\<And>j p. j < length slots \<Longrightarrow> j \<noteq> k \<Longrightarrow> slots ! j = Some p \<Longrightarrow> lives h' (sp_pages p) = lives h (sp_pages p)"
  using slots_put [OF assms(1,2) _ assms(4)] slots_servedD(4) [OF assms(1) _ assms(2) _ _ assms(3)] by blast+

lemma slots_clear:
  assumes "slots_served ids held sane slots h st"
  shows "slots_served ids held sane (slots[k := None]) h st"
proof -
  have sub: "slots ! j = Some p" if "j < length slots" "slots[k := None] ! j = Some p" for j p
    using that by (cases "j = k") auto
  show ?thesis
    using assms sub unfolding slots_served_def by (simp only: length_list_update) blast
qed

text \<open>The storage behind a pool nobody put anywhere yet.\<close>

lemma empty_pool_apart: "sp_pages q = [] \<Longrightarrow> apart p q"
  by (simp add: apart_def pool_handles_def pool_ids_def)

lemma empty_pool_served:
  "sp_pages q = [] \<Longrightarrow> 0 < sp_alignment q \<Longrightarrow> heap_ok h \<Longrightarrow> sane st \<Longrightarrow> served ids held sane q h st"
  by (simp add: served_def pool_ok_def pages_ok_def numbered_def backed_def)

lemma sizing_pool_fields [simp]:
  "sp_pages (sizing_pool sz n k) = []" "sp_page_size (sizing_pool sz n k) = n"
  "sp_alignment (sizing_pool sz n k) = ps_alignment sz" "sp_base (sizing_pool sz n k) = location_new k 0 0"
  by (simp_all add: sizing_pool_def sliced_new_def)

section \<open>The invariant of the arena\<close>

definition arena_ok ::
  "('st \<Rightarrow> storage_id set) \<Rightarrow> ('st \<Rightarrow> storage_id \<rightharpoonup> nat) \<Rightarrow> ('st \<Rightarrow> bool) \<Rightarrow> arena \<Rightarrow> heap \<Rightarrow> 'st \<Rightarrow> bool" where
  "arena_ok ids held sane a h st \<longleftrightarrow>
    sizing_ok (ar_sizing a) \<and> length (ar_slots a) = arena_slots \<and> unat (ar_first_index a) + arena_slots \<le> 256
    \<and> distinct (ar_current a # ar_outdated a) \<and> set (ar_current a # ar_outdated a) \<subseteq> {..<arena_slots}
    \<and> (\<forall>k < arena_slots. ar_slots a ! k \<noteq> None \<longleftrightarrow> k \<in> set (ar_current a # ar_outdated a))
    \<and> (\<forall>k < arena_slots. \<forall>q. ar_slots a ! k = Some q \<longrightarrow> carved_for (ar_sizing a) (ar_first_index a) k q)
    \<and> (\<forall>k \<in> set (ar_outdated a). sp_page_size (the (ar_slots a ! k)) < sp_page_size (the (ar_slots a ! ar_current a)))
    \<and> slots_served ids held sane (ar_slots a) h st"

lemma arena_okD:
  assumes "arena_ok ids held sane a h st"
  shows "sizing_ok (ar_sizing a)" "length (ar_slots a) = arena_slots" "ar_current a < arena_slots"
    "\<exists>q. ar_slots a ! ar_current a = Some q" "slots_served ids held sane (ar_slots a) h st"
    "k \<in> set (ar_outdated a) \<Longrightarrow> k < arena_slots" "k \<in> set (ar_outdated a) \<Longrightarrow> k \<noteq> ar_current a"
    "k \<in> set (ar_outdated a) \<Longrightarrow> \<exists>q. ar_slots a ! k = Some q"
    "k < arena_slots \<Longrightarrow> ar_slots a ! k = Some q \<Longrightarrow> carved_for (ar_sizing a) (ar_first_index a) k q"
  using assms unfolding arena_ok_def by auto

lemma arena_current:
  assumes "arena_ok ids held sane a h st"
  obtains q where "current_pool a = Ok q" "ar_slots a ! ar_current a = Some q" "served ids held sane q h st"
    "carved_for (ar_sizing a) (ar_first_index a) (ar_current a) q"
proof -
  from arena_okD(4) [OF assms] obtain q where q: "ar_slots a ! ar_current a = Some q" ..
  moreover have "current_pool a = Ok q"
    using q arena_okD(2,3) [OF assms] by (simp add: current_pool_def get_opt_def)
  moreover have "served ids held sane q h st"
    using slots_servedD(3) [OF arena_okD(5) [OF assms]] arena_okD(2,3) [OF assms] q by simp
  ultimately show ?thesis using that arena_okD(3,9) [OF assms] by blast
qed

text \<open>A step of one of the pools.\<close>

lemma layout_carved: "pool_layout q' = pool_layout q \<Longrightarrow> carved_for sz f k q' = carved_for sz f k q"
  by (simp add: pool_layout_def carved_for_def)

lemma arena_step:
  assumes ok: "arena_ok ids held sane a h st" and k: "k < arena_slots" "ar_slots a ! k = Some q"
    and step: "pool_step ids held sane q h st q' h' st'"
  shows "arena_ok ids held sane (set_slot k q' a) h' st'"
    and "\<And>j p. j < arena_slots \<Longrightarrow> j \<noteq> k \<Longrightarrow> ar_slots a ! j = Some p \<Longrightarrow> lives h' (sp_pages p) = lives h (sp_pages p)"
proof -
  have len: "length (ar_slots a) = arena_slots" by (rule arena_okD(2) [OF ok])
  note s = slots_step [OF arena_okD(5) [OF ok] _ k(2) step, unfolded len, OF k(1)]
  show "lives h' (sp_pages p) = lives h (sp_pages p)" if "j < arena_slots" "j \<noteq> k" "ar_slots a ! j = Some p" for j p
    by (rule s(2) [OF that])
  have page: "sp_page_size q' = sp_page_size q" using pool_stepD(2) [OF step] by (simp add: pool_layout_def)
  have sizes: "sp_page_size (the ((ar_slots a)[k := Some q'] ! j)) = sp_page_size (the (ar_slots a ! j))"
    if "j < arena_slots" for j
    using that page k len by (cases "j = k") auto
  have some: "((ar_slots a)[k := Some q'] ! j \<noteq> None) = (ar_slots a ! j \<noteq> None)" if "j < arena_slots" for j
    using that k len by (cases "j = k") auto
  have cv: "carved_for (ar_sizing a) (ar_first_index a) j r"
    if "j < arena_slots" "(ar_slots a)[k := Some q'] ! j = Some r" for j r
    using that k len arena_okD(9) [OF ok, of j] layout_carved [OF pool_stepD(2) [OF step]]
    by (cases "j = k") auto
  have out: "sp_page_size (the ((ar_slots a)[k := Some q'] ! j)) < sp_page_size (the ((ar_slots a)[k := Some q'] ! ar_current a))"
    if "j \<in> set (ar_outdated a)" for j
  proof -
    have "j < arena_slots" "ar_current a < arena_slots" using arena_okD(3,6) [OF ok] that by auto
    then show ?thesis using sizes ok that unfolding arena_ok_def by simp
  qed
  show "arena_ok ids held sane (set_slot k q' a) h' st'"
    using ok s(1) some cv out unfolding arena_ok_def set_slot_def
    by (simp del: not_None_eq)
qed

text \<open>The live slices of the arena, each with the slot it is in.\<close>

definition arena_live :: "heap \<Rightarrow> arena \<Rightarrow> (nat \<times> slice) set" where
  "arena_live h a = {(k, s) |k s q. k < length (ar_slots a) \<and> ar_slots a ! k = Some q \<and> s \<in> set (pool_live h (sp_pages q))}"

lemma arena_live_put:
  assumes "length (ar_slots a) = arena_slots" "k < arena_slots"
    and same: "\<And>j p. j < arena_slots \<Longrightarrow> j \<noteq> k \<Longrightarrow> ar_slots a ! j = Some p \<Longrightarrow> lives h' (sp_pages p) = lives h (sp_pages p)"
  shows "arena_live h' (set_slot k q' a)
    = {x \<in> arena_live h a. fst x \<noteq> k} \<union> Pair k ` set (pool_live h' (sp_pages q'))"
proof -
  have "set (pool_live h' (sp_pages p)) = set (pool_live h (sp_pages p))"
    if "j < arena_slots" "j \<noteq> k" "ar_slots a ! j = Some p" for j p
    using lives_pool [OF same [OF that]] by simp
  then show ?thesis
    using assms(1,2) by (auto simp: arena_live_def set_slot_def nth_list_update split: if_splits)
qed

lemma arena_live_slot:
  assumes "k < length (ar_slots a)" "ar_slots a ! k = Some q"
  shows "{x \<in> arena_live h a. fst x = k} = Pair k ` set (pool_live h (sp_pages q))"
  using assms by (auto simp: arena_live_def)

text \<open>A step that keeps the live slices of its pool keeps those of the arena, and one that adds a slice
  adds it there.\<close>

lemma arena_step_live:
  assumes ok: "arena_ok ids held sane a h st" and k: "k < arena_slots" "ar_slots a ! k = Some q"
    and step: "pool_step ids held sane q h st q' h' st'"
  shows "pool_live h' (sp_pages q') = pool_live h (sp_pages q) \<Longrightarrow> arena_live h' (set_slot k q' a) = arena_live h a"
    and "one_more n i (pool_live h (sp_pages q)) (pool_live h' (sp_pages q')) \<Longrightarrow>
      \<exists>s. sl_handle s = i \<and> sh_size (sl_storage s) = n \<and> arena_live h' (set_slot k q' a) = insert (k, s) (arena_live h a)"
proof -
  have len: "length (ar_slots a) = arena_slots" by (rule arena_okD(2) [OF ok])
  have put: "arena_live h' (set_slot k q' a)
      = {x \<in> arena_live h a. fst x \<noteq> k} \<union> Pair k ` set (pool_live h' (sp_pages q'))"
    by (rule arena_live_put [OF len k(1) arena_step(2) [OF ok k step]])
  have split: "arena_live h a = {x \<in> arena_live h a. fst x \<noteq> k} \<union> {x \<in> arena_live h a. fst x = k}" by blast
  have own: "{x \<in> arena_live h a. fst x = k} = Pair k ` set (pool_live h (sp_pages q))"
    using arena_live_slot k len by simp
  show "arena_live h' (set_slot k q' a) = arena_live h a"
    if "pool_live h' (sp_pages q') = pool_live h (sp_pages q)"
    using put that own split by simp
  show "\<exists>s. sl_handle s = i \<and> sh_size (sl_storage s) = n \<and> arena_live h' (set_slot k q' a) = insert (k, s) (arena_live h a)"
    if "one_more n i (pool_live h (sp_pages q)) (pool_live h' (sp_pages q'))"
  proof -
    from that obtain xs s ys where o: "pool_live h (sp_pages q) = xs @ ys" "pool_live h' (sp_pages q') = xs @ s # ys"
      "sl_handle s = i" "sh_size (sl_storage s) = n" by (auto simp: one_more_def)
    then have "Pair k ` set (pool_live h' (sp_pages q')) = insert (k, s) (Pair k ` set (pool_live h (sp_pages q)))" by auto
    then have "arena_live h' (set_slot k q' a) = insert (k, s) (arena_live h a)" using put own split by auto
    with o show ?thesis by blast
  qed
qed

lemma arena_new_ok:
  assumes "sizing_ok sz" "unat first + arena_slots \<le> 256" "heap_ok h" "sane st"
  shows "arena_ok ids held sane (arena_new sz first) h st"
proof -
  have sv: "served ids held sane (sizing_pool sz (ps_min_page_size sz) first) h st"
    using assms by (simp add: empty_pool_served sizing_ok_def)
  define slots where "slots = Some (sizing_pool sz (ps_min_page_size sz) first) # replicate (arena_slots - 1) None"
  have len: "length slots = arena_slots" "0 < arena_slots" by (simp_all add: slots_def arena_slots_def)
  have nth: "slots ! k = (if k = 0 then Some (sizing_pool sz (ps_min_page_size sz) first) else None)" if "k < arena_slots" for k
    using that by (cases k) (auto simp: slots_def arena_slots_def)
  have new: "arena_new sz first = \<lparr>ar_slots = slots, ar_first_index = first, ar_current = 0, ar_outdated = [], ar_sizing = sz\<rparr>"
    by (simp add: arena_new_def slots_def)
  have "slots_served ids held sane slots h st"
    unfolding slots_served_def using assms sv len by (auto simp: nth split: if_splits)
  then show ?thesis
    unfolding arena_ok_def new using assms len by (auto simp: nth carved_for_def sizing_ok_def split: if_splits)
qed

section \<open>Reserving from the arena\<close>

text \<open>Something else runs beside every pool.\<close>

lemma slots_frame:
  assumes sv: "slots_served ids held sane slots h st" and c: "confined ids held hs is h st h' st'" and sane: "sane st'"
    and dis: "\<And>k q. k < length slots \<Longrightarrow> slots ! k = Some q \<Longrightarrow> pool_handles q \<inter> hs = {} \<and> pool_ids q \<inter> is = {}"
  shows "slots_served ids held sane slots h' st'"
    and "\<And>k q. k < length slots \<Longrightarrow> slots ! k = Some q \<Longrightarrow> lives h' (sp_pages q) = lives h (sp_pages q)"
proof -
  have fr: "served ids held sane q h' st' \<and> lives h' (sp_pages q) = lives h (sp_pages q)"
    if "k < length slots" "slots ! k = Some q" for k q
    using served_frame [OF slots_servedD(3) [OF sv that] c sane] dis [OF that] by blast
  then show "lives h' (sp_pages q) = lives h (sp_pages q)" if "k < length slots" "slots ! k = Some q" for k q
    using that by blast
  have "heap_ok h'" using c by (simp add: confined_def)
  then show "slots_served ids held sane slots h' st'"
    using sv fr sane unfolding slots_served_def by blast
qed

lemma arena_slots_eq:
  "arena_ok ids held sane a h st \<Longrightarrow> slots_served ids held sane (ar_slots a) h' st' \<Longrightarrow> arena_ok ids held sane a h' st'"
  by (simp add: arena_ok_def)

lemma arena_storage:
  assumes "arena_ok ids held sane a h st" "confined ids held {} {} h st h st'" "sane st'"
  shows "arena_ok ids held sane a h st'"
  by (rule arena_slots_eq [OF assms(1) slots_frame(1) [OF arena_okD(5) [OF assms(1)] assms(2,3)]]) simp

context compute_storage
begin

lemma grow_shown:
  assumes ok: "arena_ok ids held sane a h st" and cur: "ar_slots a ! ar_current a = Some q0"
    and new: "sp_page_size q0 < new" "n + calculate_padding n (ps_alignment (ar_sizing a)) \<le> new"
      "ps_alignment (ar_sizing a) dvd new" "new \<le> ps_max_page_size (ar_sizing a)"
    and g: "arena_grow ops n new m a h st = (r, st')"
  shows "case r of
      Ok (x, a', h') \<Rightarrow> arena_ok ids held sane a' h' st'
        \<and> (\<exists>s. sl_handle s = x \<and> sh_size (sl_storage s) = n \<and> arena_live h' a' = insert (ar_current a', s) (arena_live h a))
        \<and> ar_outdated a' = ar_outdated a @ [ar_current a]
        \<and> sp_page_size (the (ar_slots a' ! ar_current a')) = new
    | Err e \<Rightarrow> arena_ok ids held sane a h st' \<and>
        (e = PageSizesExhausted n \<and> (\<forall>k < arena_slots. ar_slots a ! k \<noteq> None)
         \<or> m = Eager \<and> fst (so_alloc ops new st) = Err e)
    | Panic \<Rightarrow> fst (so_alloc ops new st) = Panic"
proof (cases "position (\<lambda>slot. slot = None) (ar_slots a)")
  case None
  with g ok position_None [of "\<lambda>slot. slot = None" "ar_slots a"] arena_okD(2) [OF ok]
  show ?thesis by (auto simp: arena_grow_def all_set_conv_all_nth)
next
  case (Some k)
  note len = arena_okD(2) [OF ok]
  from position_Some [OF Some] have k: "k < arena_slots" "ar_slots a ! k = None" using len by simp_all
  have kc: "k \<noteq> ar_current a" using k(2) cur by auto
  let ?q = "sizing_pool (ar_sizing a) new (ar_first_index a + of_nat k)"
  have sane: "sane st" "heap_ok h" using slots_servedD [OF arena_okD(5) [OF ok]] by simp_all
  have sv: "served ids held sane ?q h st"
    using arena_okD(1) [OF ok] sane by (simp add: empty_pool_served sizing_ok_def)
  obtain r1 st1 where al: "alloc_page ops n m ?q h st = (r1, st1)" by (cases "alloc_page ops n m ?q h st")
  note as = alloc_step [OF sv al, simplified, OF new(2)]
  show ?thesis
  proof (cases r1)
    case (Ok b)
    obtain x q h' where b: "b = (x, q, h')" by (cases b)
    let ?a = "(set_slot k q a)\<lparr>ar_outdated := ar_outdated a @ [ar_current a], ar_current := k\<rparr>"
    have r: "r = outcome.Ok (x, ?a, h')" "st' = st1" using g Some al Ok b by (simp_all add: arena_grow_def)
    have step: "pool_step ids held sane ?q h st q h' st'" and om: "one_more n x [] (pool_live h' (sp_pages q))"
      using as Ok b r by simp_all
    have put: "slots_served ids held sane ((ar_slots a)[k := Some q]) h' st'"
      "\<And>j p. j < arena_slots \<Longrightarrow> j \<noteq> k \<Longrightarrow> ar_slots a ! j = Some p \<Longrightarrow> lives h' (sp_pages p) = lives h (sp_pages p)"
      using slots_put [OF arena_okD(5) [OF ok] _ _ step, unfolded len, OF k(1)] empty_pool_apart [of ?q] by auto
    have lay: "sp_page_size q = new" "sp_alignment q = ps_alignment (ar_sizing a)"
      "sp_base q = location_new (ar_first_index a + of_nat k) 0 0"
      using pool_stepD(2) [OF step] by (simp_all add: pool_layout_def)
    have live: "arena_live h' (set_slot k q a) = {x \<in> arena_live h a. fst x \<noteq> k} \<union> Pair k ` set (pool_live h' (sp_pages q))"
      by (rule arena_live_put [OF len k(1) put(2)])
    have "{x \<in> arena_live h a. fst x \<noteq> k} = arena_live h a" using k(2) by (auto simp: arena_live_def)
    moreover from om obtain s where "pool_live h' (sp_pages q) = [s]" "sl_handle s = x" "sh_size (sl_storage s) = n"
      by (auto simp: one_more_def)
    moreover have "arena_live h' ?a = arena_live h' (set_slot k q a)" by (simp add: arena_live_def)
    ultimately have view: "\<exists>s. sl_handle s = x \<and> sh_size (sl_storage s) = n \<and> arena_live h' ?a = insert (k, s) (arena_live h a)"
      using live by auto
    have cv: "carved_for (ar_sizing a) (ar_first_index a) j p"
      if "j < arena_slots" "(ar_slots a)[k := Some q] ! j = Some p" for j p
      using that lay new(3,4) arena_okD(9) [OF ok, of j p] len by (cases "j = k") (auto simp: carved_for_def)
    have sizes: "sp_page_size (the ((ar_slots a)[k := Some q] ! j)) < new" if "j \<in> set (ar_outdated a @ [ar_current a])" for j
    proof -
      have "j \<noteq> k" using that k arena_okD(8) [OF ok, of j] kc by auto
      moreover have "sp_page_size (the (ar_slots a ! j)) \<le> sp_page_size q0"
        using that ok cur unfolding arena_ok_def by force
      ultimately show ?thesis using new(1) by simp
    qed
    have slot: "(ar_slots a)[k := Some q] ! k = Some q" using k(1) len by simp
    have some: "((ar_slots a)[k := Some q] ! j \<noteq> None) = (j \<in> set (k # ar_outdated a @ [ar_current a]))" if "j < arena_slots" for j
      using that k len ok unfolding arena_ok_def by (cases "j = k") (auto simp del: not_None_eq)
    have dist: "distinct (k # ar_outdated a @ [ar_current a])"
      using ok k kc arena_okD(8) [OF ok, of k] unfolding arena_ok_def by auto
    have sub: "set (k # ar_outdated a @ [ar_current a]) \<subseteq> {..<arena_slots}" using ok k(1) unfolding arena_ok_def by auto
    have "arena_ok ids held sane ?a h' st'"
      using ok put(1) cv sizes some dist sub slot lay(1) unfolding arena_ok_def set_slot_def
      by (simp del: not_None_eq)
    then show ?thesis using r view slot lay(1) by (simp add: set_slot_def)
  next
    case (Err e)
    have r: "r = outcome.Err e" "st' = st1" using g Some al Err by (simp_all add: arena_grow_def)
    from as Err have "pool_step ids held sane ?q h st ?q h st1" "m = Eager" "fst (so_alloc ops new st) = outcome.Err e"
      by simp_all
    then have "arena_ok ids held sane a h st'"
      using arena_storage [OF ok] pool_stepD(3,4) [of ids held sane ?q h st ?q h st1] r
      by (simp add: pool_handles_def pool_ids_def)
    with r \<open>m = Eager\<close> \<open>fst (so_alloc ops new st) = outcome.Err e\<close> show ?thesis by simp
  next
    case Panic
    then have "r = outcome.Panic" using g Some al by (simp add: arena_grow_def)
    with Panic as show ?thesis by simp
  qed
qed

lemma arena_reserve_shown:
  assumes ok: "arena_ok ids held sane a h st"
    and r: "arena_reserve ops n m a h g st = (r, a', h', g', st')"
  shows "case r of
      Ok x \<Rightarrow> arena_ok ids held sane a' h' st'
        \<and> (\<exists>s. sl_handle s = x \<and> sh_size (sl_storage s) = n \<and> arena_live h' a' = insert (ar_current a', s) (arena_live h a))
        \<and> n + calculate_padding n (ps_alignment (ar_sizing a)) \<le> sp_page_size (the (ar_slots a' ! ar_current a'))
        \<and> sp_page_size (the (ar_slots a ! ar_current a)) \<le> sp_page_size (the (ar_slots a' ! ar_current a'))
    | Err e \<Rightarrow> arena_ok ids held sane a' h' st' \<and> arena_live h' a' = arena_live h a \<and> ar_outdated a' = ar_outdated a
        \<and> sp_page_size (the (ar_slots a' ! ar_current a')) = sp_page_size (the (ar_slots a ! ar_current a))
        \<and> (e = BufferTooBig n \<and> ps_max_page_size (ar_sizing a) < n + calculate_padding n (ps_alignment (ar_sizing a))
           \<or> e = PageSizesExhausted n \<and> (\<forall>k < arena_slots. ar_slots a ! k \<noteq> None)
           \<or> m = Eager \<and> (\<exists>k. fst (so_alloc ops k st) = Err e))
    | Panic \<Rightarrow> (\<exists>k \<le> ps_max_page_size (ar_sizing a). fst (so_alloc ops k st) = Panic)"
proof -
  obtain q where q: "current_pool a = Ok q" "ar_slots a ! ar_current a = Some q" "served ids held sane q h st"
    "carved_for (ar_sizing a) (ar_first_index a) (ar_current a) q" by (rule arena_current [OF ok])
  have al: "sp_alignment q = ps_alignment (ar_sizing a)" "sp_page_size q \<le> ps_max_page_size (ar_sizing a)"
    using q(4) by (simp_all add: carved_for_def)
  note len = arena_okD(2,3) [OF ok]
  note fit = fit_shown [OF arena_okD(1) [OF ok], of n "sp_page_size q"]
  show ?thesis
  proof (cases "sizing_fit (ar_sizing a) n (sp_page_size q)")
    case Fits
    obtain q1 where s: "sliced_reserve ops n m q h g st = (r, q1, h', g', st')" "a' = set_slot (ar_current a) q1 a"
      using r q(1) Fits by (auto simp: arena_reserve_def split: prod.splits)
    have "n + calculate_padding n (sp_alignment q) \<le> sp_page_size q" using fit Fits al by simp
    note rs = reserve_step [OF q(3) this s(1)]
    have slot: "ar_slots a' ! ar_current a' = Some q1" "ar_current a' = ar_current a" "ar_outdated a' = ar_outdated a"
      using s(2) len by (simp_all add: set_slot_def)
    have after: "arena_ok ids held sane a' h' st'" "sp_page_size q1 = sp_page_size q"
      if "pool_step ids held sane q h st q1 h' st'"
      using arena_step(1) [OF ok len(2) q(2) that] s(2) pool_stepD(2) [OF that] by (simp_all add: pool_layout_def)
    show ?thesis
    proof (cases r)
      case (Ok x)
      then have step: "pool_step ids held sane q h st q1 h' st'" using rs by simp
      from Ok rs arena_step_live(2) [OF ok len(2) q(2) step, of n x] s(2) slot after [OF step] fit Fits q(2)
      show ?thesis by auto
    next
      case (Err e)
      then have step: "pool_step ids held sane q h st q1 h' st'" using rs by simp
      from Err rs arena_step_live(1) [OF ok len(2) q(2) step] s(2) slot after [OF step] q(2) show ?thesis by auto
    next
      case Panic
      with rs al(2) show ?thesis by auto
    qed
  next
    case (Grow new)
    obtain r1 st1 where gr: "arena_grow ops n new m a h st = (r1, st1)" by (cases "arena_grow ops n new m a h st")
    have new: "sp_page_size q < new" "n + calculate_padding n (ps_alignment (ar_sizing a)) \<le> new"
      "ps_alignment (ar_sizing a) dvd new" "new \<le> ps_max_page_size (ar_sizing a)"
      using fit Grow by simp_all
    note gs = grow_shown [OF ok q(2) new gr]
    show ?thesis
    proof (cases r1)
      case (Ok b)
      obtain x a1 h1 where b: "b = (x, a1, h1)" by (cases b)
      have e: "r = outcome.Ok x" "a' = a1" "h' = h1" "st' = st1" using r q(1) Grow gr Ok b by (auto simp: arena_reserve_def)
      have k: "arena_ok ids held sane a1 h1 st1" "sp_page_size (the (ar_slots a1 ! ar_current a1)) = new"
        "\<exists>s. sl_handle s = x \<and> sh_size (sl_storage s) = n \<and> arena_live h1 a1 = insert (ar_current a1, s) (arena_live h a)"
        using gs Ok b by simp_all
      then show ?thesis using e q(2) \<open>sp_page_size q < new\<close> fit Grow by simp
    next
      case (Err e)
      have "r = outcome.Err e" "a' = a" "h' = h" "st' = st1" using r q(1) Grow gr Err by (auto simp: arena_reserve_def)
      with gs Err show ?thesis by auto
    next
      case Panic
      then have "r = outcome.Panic" using r q(1) Grow gr by (auto simp: arena_reserve_def)
      with Panic gs new(4) show ?thesis by auto
    qed
  next
    case TooLarge
    then have "r = Err (BufferTooBig n)" "a' = a" "h' = h" "st' = st" using r q(1) by (auto simp: arena_reserve_def)
    with fit TooLarge ok show ?thesis by simp
  qed
qed

lemma arena_try_reserve_shown:
  assumes ok: "arena_ok ids held sane a h st"
  shows "\<exists>r a' h' g'. arena_try_reserve n a h g = Ok (r, a', h', g') \<and> arena_ok ids held sane a' h' st
    \<and> (case r of
         Some x \<Rightarrow> \<exists>s. sl_handle s = x \<and> sh_size (sl_storage s) = n \<and> arena_live h' a' = insert (ar_current a', s) (arena_live h a)
       | None \<Rightarrow> arena_live h' a' = arena_live h a)"
proof -
  obtain q where q: "current_pool a = Ok q" "ar_slots a ! ar_current a = Some q" "served ids held sane q h st"
    by (rule arena_current [OF ok])
  note len = arena_okD(2,3) [OF ok]
  show ?thesis
  proof (cases "sizing_fit (ar_sizing a) n (sp_page_size q)")
    case Fits
    from try_reserve_step [OF q(3), of n g] obtain r q1 h' g' where
      t: "sliced_try_reserve n q h g = Ok (r, q1, h', g')" "pool_step ids held sane q h st q1 h' st"
      "r = None \<longrightarrow> pool_live h' (sp_pages q1) = pool_live h (sp_pages q)"
      "\<forall>i. r = Some i \<longrightarrow> one_more n i (pool_live h (sp_pages q)) (pool_live h' (sp_pages q1))"
      by blast
    note lv = arena_step_live [OF ok len(2) q(2) t(2)]
    have "arena_try_reserve n a h g = Ok (r, set_slot (ar_current a) q1 a, h', g')"
      using q(1) Fits t(1) by (simp add: arena_try_reserve_def)
    moreover have "arena_ok ids held sane (set_slot (ar_current a) q1 a) h' st" by (rule arena_step(1) [OF ok len(2) q(2) t(2)])
    moreover have "case r of
         Some x \<Rightarrow> \<exists>s. sl_handle s = x \<and> sh_size (sl_storage s) = n
           \<and> arena_live h' (set_slot (ar_current a) q1 a) = insert (ar_current (set_slot (ar_current a) q1 a), s) (arena_live h a)
       | None \<Rightarrow> arena_live h' (set_slot (ar_current a) q1 a) = arena_live h a"
    proof (cases r)
      case (Some x)
      then show ?thesis using t(4) lv(2) [of n x] by (simp add: set_slot_def)
    qed (use t(3) lv(1) in simp)
    ultimately show ?thesis by blast
  qed (use ok q(1) in \<open>simp_all add: arena_try_reserve_def\<close>)
qed

end

section \<open>Draining the outdated pools\<close>

definition slots_live :: "heap \<Rightarrow> sliced_pool option list \<Rightarrow> (nat \<times> slice) set" where
  "slots_live h slots = {(k, s) |k s q. k < length slots \<and> slots ! k = Some q \<and> s \<in> set (pool_live h (sp_pages q))}"

lemma arena_live_slots: "arena_live h a = slots_live h (ar_slots a)"
  by (simp add: arena_live_def slots_live_def)

lemma slots_live_put:
  assumes "k < length slots" "slots ! k = Some q" "pool_live h' (sp_pages q') = pool_live h (sp_pages q)"
    and "\<And>j p. j < length slots \<Longrightarrow> j \<noteq> k \<Longrightarrow> slots ! j = Some p \<Longrightarrow> lives h' (sp_pages p) = lives h (sp_pages p)"
  shows "slots_live h' (slots[k := Some q']) = slots_live h slots"
proof -
  have "pool_live h' (sp_pages p) = pool_live h (sp_pages p)" if "j < length slots" "j \<noteq> k" "slots ! j = Some p" for j p
    by (rule lives_pool [OF assms(4) [OF that]])
  then show ?thesis
    using assms(1-3) by (fastforce simp: slots_live_def nth_list_update split: if_splits)
qed

lemma slots_live_clear:
  assumes "slots ! k = Some q" "pool_live h (sp_pages q) = []"
  shows "slots_live h (slots[k := None]) = slots_live h slots"
proof -
  have "slots[k := None] ! j = (if j = k then None else slots ! j)" if "j < length slots" for j
    using that by (cases "j = k") auto
  then show ?thesis using assms by (fastforce simp: slots_live_def split: if_splits)
qed

context compute_storage
begin

lemma drain_slots_shown:
  assumes "slots_served ids held sane slots h st" "distinct ks" "set ks \<subseteq> {..<length slots}"
    "\<forall>k \<in> set ks. slots ! k \<noteq> None"
  shows "\<exists>kept slots' h' g' st'. drain_slots ops ks slots h g st = Ok (kept, slots', h', g', st')
    \<and> slots_served ids held sane slots' h' st' \<and> length slots' = length slots
    \<and> kept = filter (\<lambda>k. slots' ! k \<noteq> None) ks
    \<and> slots_live h' slots' = slots_live h slots
    \<and> (\<forall>k < length slots. k \<notin> set ks \<longrightarrow> slots' ! k = slots ! k
        \<and> (\<forall>q. slots ! k = Some q \<longrightarrow> lives h' (sp_pages q) = lives h (sp_pages q)))
    \<and> (\<forall>k \<in> set ks. \<forall>q'. slots' ! k = Some q' \<longrightarrow> sp_pages q' \<noteq> [] \<and> occupied h' (sp_pages q')
        \<and> pool_layout q' = pool_layout (the (slots ! k)))"
  using assms
proof (induction ks arbitrary: slots h g st)
  case Nil
  then show ?case by simp
next
  case (Cons k ks)
  obtain q where q: "slots ! k = Some q" using Cons.prems(4) by auto
  have k: "k < length slots" "k \<notin> set ks" using Cons.prems by auto
  have sv: "served ids held sane q h st" by (rule slots_servedD(3) [OF Cons.prems(1) k(1) q])
  obtain q1 h1 g1 st1 where rel: "release_empty ops q h g st = (q1, h1, g1, st1)" by (cases "release_empty ops q h g st")
  from release_step [OF sv rel] have step: "pool_step ids held sane q h st q1 h1 st1"
    and occ: "occupied h1 (sp_pages q1)" and pl: "pool_live h1 (sp_pages q1) = pool_live h (sp_pages q)" by blast+
  note put = slots_step [OF Cons.prems(1) k(1) q step]
  have view: "slots_live h1 (slots[k := Some q1]) = slots_live h slots" by (rule slots_live_put [OF k(1) q pl put(2)])
  have at1: "slots[k := Some q1] ! j = slots ! j" "slots[k := None] ! j = slots ! j" if "j \<noteq> k" for j using that by simp_all
  show ?case
  proof (cases "sp_pages q1 = []")
    case True
    let ?s = "slots[k := None]"
    have sv1: "slots_served ids held sane ?s h1 st1" using slots_clear [OF put(1), of k] by simp
    have pre: "set ks \<subseteq> {..<length ?s}" "\<forall>j \<in> set ks. ?s ! j \<noteq> None"
      using Cons.prems(3,4) k(2) by (auto simp: nth_list_update)
    from Cons.IH [OF sv1 _ pre, of g1] Cons.prems(2) obtain kept slots' h' g' st' where
      ih: "drain_slots ops ks ?s h1 g1 st1 = Ok (kept, slots', h', g', st')" "slots_served ids held sane slots' h' st'"
      "length slots' = length slots" "kept = filter (\<lambda>k. slots' ! k \<noteq> None) ks" "slots_live h' slots' = slots_live h1 ?s"
      "\<forall>j < length slots. j \<notin> set ks \<longrightarrow> slots' ! j = ?s ! j \<and> (\<forall>q. ?s ! j = Some q \<longrightarrow> lives h' (sp_pages q) = lives h1 (sp_pages q))"
      "\<forall>j \<in> set ks. \<forall>q'. slots' ! j = Some q' \<longrightarrow> sp_pages q' \<noteq> [] \<and> occupied h' (sp_pages q')
        \<and> pool_layout q' = pool_layout (the (?s ! j))"
      by auto
    have run: "drain_slots ops (k # ks) slots h g st = Ok (kept, slots', h', g', st')"
      using ih(1) rel q k(1) True by (simp add: get_opt_def)
    have gone: "slots' ! k = None" using ih(6) k by simp
    have "slots_live h1 ?s = slots_live h1 (slots[k := Some q1])"
      using slots_live_clear [of "slots[k := Some q1]" k q1 h1] True k(1) by simp
    then have lv: "slots_live h' slots' = slots_live h slots" using ih(5) view by simp
    have rest: "slots' ! j = slots ! j \<and> (\<forall>q. slots ! j = Some q \<longrightarrow> lives h' (sp_pages q) = lives h (sp_pages q))"
      if "j < length slots" "j \<notin> set (k # ks)" for j
      using ih(6) that at1(2) [of j] put(2) [of j] by auto
    have kk: "sp_pages q' \<noteq> [] \<and> occupied h' (sp_pages q') \<and> pool_layout q' = pool_layout (the (slots ! j))"
      if "j \<in> set (k # ks)" "slots' ! j = Some q'" for j q'
    proof -
      have "j \<noteq> k" using that gone by auto
      then show ?thesis using ih(7) that at1(2) [of j] by auto
    qed
    show ?thesis
      by (intro exI [of _ kept] exI [of _ slots'] exI [of _ h'] exI [of _ g'] exI [of _ st'])
        (use run ih(2,3,4) gone lv rest kk in simp)
  next
    case False
    let ?s = "slots[k := Some q1]"
    have pre: "set ks \<subseteq> {..<length ?s}" "\<forall>j \<in> set ks. ?s ! j \<noteq> None"
      using Cons.prems(3,4) k(2) by (auto simp: nth_list_update)
    from Cons.IH [OF put(1) _ pre, of g1] Cons.prems(2) obtain kept slots' h' g' st' where
      ih: "drain_slots ops ks ?s h1 g1 st1 = Ok (kept, slots', h', g', st')" "slots_served ids held sane slots' h' st'"
      "length slots' = length slots" "kept = filter (\<lambda>k. slots' ! k \<noteq> None) ks" "slots_live h' slots' = slots_live h1 ?s"
      "\<forall>j < length slots. j \<notin> set ks \<longrightarrow> slots' ! j = ?s ! j \<and> (\<forall>q. ?s ! j = Some q \<longrightarrow> lives h' (sp_pages q) = lives h1 (sp_pages q))"
      "\<forall>j \<in> set ks. \<forall>q'. slots' ! j = Some q' \<longrightarrow> sp_pages q' \<noteq> [] \<and> occupied h' (sp_pages q')
        \<and> pool_layout q' = pool_layout (the (?s ! j))"
      by auto
    have run: "drain_slots ops (k # ks) slots h g st = Ok (k # kept, slots', h', g', st')"
      using ih(1) rel q k(1) False by (simp add: get_opt_def)
    have stays: "slots' ! k = Some q1" "lives h' (sp_pages q1) = lives h1 (sp_pages q1)" using ih(6) k by simp_all
    have lv: "slots_live h' slots' = slots_live h slots" using ih(5) view by simp
    have rest: "slots' ! j = slots ! j \<and> (\<forall>q. slots ! j = Some q \<longrightarrow> lives h' (sp_pages q) = lives h (sp_pages q))"
      if "j < length slots" "j \<notin> set (k # ks)" for j
      using ih(6) that at1(1) [of j] put(2) [of j] by auto
    have kk: "sp_pages q' \<noteq> [] \<and> occupied h' (sp_pages q') \<and> pool_layout q' = pool_layout (the (slots ! j))"
      if "j \<in> set (k # ks)" "slots' ! j = Some q'" for j q'
    proof (cases "j = k")
      case True
      then show ?thesis
        using that stays False occupied_frame [OF occ stays(2)] pool_stepD(2) [OF step] q by simp
    next
      case False
      then show ?thesis using ih(7) that at1(1) [of j] by auto
    qed
    show ?thesis
      by (intro exI [of _ "k # kept"] exI [of _ slots'] exI [of _ h'] exI [of _ g'] exI [of _ st'])
        (use run ih(2,3,4) stays lv rest kk in simp)
  qed
qed

lemma arena_drain_shown:
  assumes ok: "arena_ok ids held sane a h st"
  shows "\<exists>a' h' g' st'. arena_drain ops a h g st = Ok (a', h', g', st') \<and> arena_ok ids held sane a' h' st'
    \<and> arena_live h' a' = arena_live h a \<and> ar_current a' = ar_current a
    \<and> ar_slots a' ! ar_current a = ar_slots a ! ar_current a
    \<and> set (ar_outdated a') \<subseteq> set (ar_outdated a)
    \<and> (\<forall>k \<in> set (ar_outdated a'). \<exists>q. ar_slots a' ! k = Some q \<and> sp_pages q \<noteq> [] \<and> occupied h' (sp_pages q))
    \<and> (\<forall>k \<in> set (ar_outdated a) - set (ar_outdated a'). ar_slots a' ! k = None)"
proof -
  note len = arena_okD(2) [OF ok]
  have pre: "distinct (ar_outdated a)" "set (ar_outdated a) \<subseteq> {..<length (ar_slots a)}" "\<forall>k \<in> set (ar_outdated a). ar_slots a ! k \<noteq> None"
    using ok len unfolding arena_ok_def by auto
  from drain_slots_shown [OF arena_okD(5) [OF ok] pre, of g] obtain kept slots' h' g' st' where
    d: "drain_slots ops (ar_outdated a) (ar_slots a) h g st = Ok (kept, slots', h', g', st')"
      "slots_served ids held sane slots' h' st'" "length slots' = length (ar_slots a)"
    and kept: "kept = filter (\<lambda>k. slots' ! k \<noteq> None) (ar_outdated a)"
    and view: "slots_live h' slots' = slots_live h (ar_slots a)"
    and rest: "\<forall>k < length (ar_slots a). k \<notin> set (ar_outdated a) \<longrightarrow> slots' ! k = ar_slots a ! k"
    and stay: "\<forall>k \<in> set (ar_outdated a). \<forall>q'. slots' ! k = Some q' \<longrightarrow> sp_pages q' \<noteq> [] \<and> occupied h' (sp_pages q')
        \<and> pool_layout q' = pool_layout (the (ar_slots a ! k))"
    by blast
  let ?a = "a\<lparr>ar_outdated := kept, ar_slots := slots'\<rparr>"
  have run: "arena_drain ops a h g st = Ok (?a, h', g', st')" using d(1) by (simp add: arena_drain_def)
  have cur: "slots' ! ar_current a = ar_slots a ! ar_current a"
    using rest ok len unfolding arena_ok_def by auto
  have some: "(slots' ! k \<noteq> None) = (k \<in> set (ar_current a # kept))" if "k < arena_slots" for k
  proof (cases "k \<in> set (ar_outdated a)")
    case True
    moreover have "k \<noteq> ar_current a" using True arena_okD(7) [OF ok] by blast
    ultimately show ?thesis using kept by auto
  next
    case False
    then have "slots' ! k = ar_slots a ! k" "(ar_slots a ! k \<noteq> None) = (k = ar_current a)"
      using rest that len ok unfolding arena_ok_def by auto
    then show ?thesis using False kept by auto
  qed
  have cv: "carved_for (ar_sizing a) (ar_first_index a) k q" if "k < arena_slots" "slots' ! k = Some q" for k q
  proof (cases "k \<in> set (ar_outdated a)")
    case True
    then have "pool_layout q = pool_layout (the (ar_slots a ! k))" using stay that by blast
    moreover obtain q0 where "ar_slots a ! k = Some q0" using arena_okD(8) [OF ok True] ..
    ultimately show ?thesis using layout_carved [of q q0] arena_okD(9) [OF ok that(1)] by simp
  next
    case False
    then show ?thesis using rest that len arena_okD(9) [OF ok that(1)] by simp
  qed
  have sizes: "sp_page_size (the (slots' ! k)) < sp_page_size (the (slots' ! ar_current a))" if "k \<in> set kept" for k
  proof -
    from that kept have "slots' ! k \<noteq> None" "k \<in> set (ar_outdated a)" by simp_all
    then obtain q where q: "slots' ! k = Some q" "k \<in> set (ar_outdated a)" by blast
    then have "sp_page_size q = sp_page_size (the (ar_slots a ! k))" using stay by (simp add: pool_layout_def)
    then show ?thesis using q cur ok unfolding arena_ok_def by simp
  qed
  have "arena_ok ids held sane ?a h' st'"
    using ok d(2,3) some cv sizes kept unfolding arena_ok_def by (auto simp del: not_None_eq)
  moreover have "arena_live h' ?a = arena_live h a" using view by (simp add: arena_live_slots)
  moreover have "\<forall>k \<in> set kept. \<exists>q. slots' ! k = Some q \<and> sp_pages q \<noteq> [] \<and> occupied h' (sp_pages q)"
    using stay kept by auto
  ultimately show ?thesis using run cur kept by auto
qed

lemma arena_cleanup_shown:
  assumes ok: "arena_ok ids held sane a h st"
  shows "\<exists>a' h' g' st'. arena_cleanup ops nr c a h g st = Ok (a', h', g', st') \<and> arena_ok ids held sane a' h' st'
    \<and> arena_live h' a' = arena_live h a \<and> ar_current a' = ar_current a
    \<and> sp_page_size (the (ar_slots a' ! ar_current a')) = sp_page_size (the (ar_slots a ! ar_current a))
    \<and> set (ar_outdated a') \<subseteq> set (ar_outdated a)
    \<and> (\<forall>k \<in> set (ar_outdated a'). \<exists>q. ar_slots a' ! k = Some q \<and> sp_pages q \<noteq> [] \<and> occupied h' (sp_pages q))
    \<and> (\<forall>k \<in> set (ar_outdated a) - set (ar_outdated a'). ar_slots a' ! k = None)"
proof -
  obtain q where q: "current_pool a = Ok q" "ar_slots a ! ar_current a = Some q" "served ids held sane q h st"
    by (rule arena_current [OF ok])
  note len = arena_okD(2,3) [OF ok]
  obtain q1 h1 g1 st1 where cl: "sliced_cleanup ops nr c q h g st = (q1, h1, g1, st1)"
    by (cases "sliced_cleanup ops nr c q h g st")
  have step: "pool_step ids held sane q h st q1 h1 st1" "pool_live h1 (sp_pages q1) = pool_live h (sp_pages q)"
    using cl release_step [OF q(3), of g q1 h1 g1 st1] pool_step_refl [OF q(3)]
    by (auto simp: sliced_cleanup_def split: if_splits)
  let ?a = "set_slot (ar_current a) q1 a"
  have ok1: "arena_ok ids held sane ?a h1 st1" by (rule arena_step(1) [OF ok len(2) q(2) step(1)])
  have live1: "arena_live h1 ?a = arena_live h a" by (rule arena_step_live(1) [OF ok len(2) q(2) step])
  have page: "sp_page_size q1 = sp_page_size q" using pool_stepD(2) [OF step(1)] by (simp add: pool_layout_def)
  have slot: "ar_slots ?a ! ar_current a = Some q1" "ar_current ?a = ar_current a" "ar_outdated ?a = ar_outdated a"
    using len by (simp_all add: set_slot_def)
  have run: "arena_cleanup ops nr c a h g st = arena_drain ops ?a h1 g1 st1" using q(1) cl by (simp add: arena_cleanup_def)
  from arena_drain_shown [OF ok1, of g1] obtain a' h' g' st' where
    d: "arena_drain ops ?a h1 g1 st1 = Ok (a', h', g', st')" "arena_ok ids held sane a' h' st'"
    "arena_live h' a' = arena_live h1 ?a" "ar_current a' = ar_current a"
    "ar_slots a' ! ar_current a = Some q1" "set (ar_outdated a') \<subseteq> set (ar_outdated a)"
    "\<forall>k \<in> set (ar_outdated a'). \<exists>q. ar_slots a' ! k = Some q \<and> sp_pages q \<noteq> [] \<and> occupied h' (sp_pages q)"
    "\<forall>k \<in> set (ar_outdated a) - set (ar_outdated a'). ar_slots a' ! k = None"
    unfolding slot by blast
  show ?thesis
    by (intro exI [of _ a'] exI [of _ h'] exI [of _ g'] exI [of _ st'])
      (use run d live1 q(2) page in simp)
qed

end

section \<open>What the arena promises\<close>

text \<open>Reserving from the arena panics only where the storage does and grows it only when it must: the reservation is one
  more live slice of the asked size on the current pool, whose pages hold it and are never smaller
  than before, or it fails and leaves every live slice, the page size and the outdated pools as they
  were, because no page the device allocates holds it, because every slot is taken, or with the
  error the device answered.\<close>

theorem arena_reserves:
  assumes "compute_storage ops ids held sane" "arena_ok ids held sane a h st"
    and "arena_reserve ops n m a h g st = (r, a', h', g', st')"
  shows "case r of
      Ok x \<Rightarrow> arena_ok ids held sane a' h' st'
        \<and> (\<exists>s. sl_handle s = x \<and> sh_size (sl_storage s) = n \<and> arena_live h' a' = insert (ar_current a', s) (arena_live h a))
        \<and> n + calculate_padding n (ps_alignment (ar_sizing a)) \<le> sp_page_size (the (ar_slots a' ! ar_current a'))
        \<and> sp_page_size (the (ar_slots a ! ar_current a)) \<le> sp_page_size (the (ar_slots a' ! ar_current a'))
    | Err e \<Rightarrow> arena_ok ids held sane a' h' st' \<and> arena_live h' a' = arena_live h a \<and> ar_outdated a' = ar_outdated a
        \<and> sp_page_size (the (ar_slots a' ! ar_current a')) = sp_page_size (the (ar_slots a ! ar_current a))
        \<and> (e = BufferTooBig n \<and> ps_max_page_size (ar_sizing a) < n + calculate_padding n (ps_alignment (ar_sizing a))
           \<or> e = PageSizesExhausted n \<and> (\<forall>k < arena_slots. ar_slots a ! k \<noteq> None)
           \<or> m = Eager \<and> (\<exists>k. fst (so_alloc ops k st) = Err e))
    | Panic \<Rightarrow> (\<exists>k \<le> ps_max_page_size (ar_sizing a). fst (so_alloc ops k st) = Panic)"
  by (rule compute_storage.arena_reserve_shown [OF assms])

text \<open>A cleanup of the arena keeps every live slice where it is, gives back the pages of the outdated
  pools nothing needs, and drops exactly the outdated pools left without a page: every outdated pool
  that stays holds only pages with a live slice or a guard, and at least one.\<close>

theorem arena_cleanup_drains:
  assumes "compute_storage ops ids held sane" "arena_ok ids held sane a h st"
  shows "\<exists>a' h' g' st'. arena_cleanup ops nr c a h g st = Ok (a', h', g', st') \<and> arena_ok ids held sane a' h' st'
    \<and> arena_live h' a' = arena_live h a \<and> ar_current a' = ar_current a
    \<and> sp_page_size (the (ar_slots a' ! ar_current a')) = sp_page_size (the (ar_slots a ! ar_current a))
    \<and> set (ar_outdated a') \<subseteq> set (ar_outdated a)
    \<and> (\<forall>k \<in> set (ar_outdated a'). \<exists>q. ar_slots a' ! k = Some q \<and> sp_pages q \<noteq> [] \<and> occupied h' (sp_pages q))
    \<and> (\<forall>k \<in> set (ar_outdated a) - set (ar_outdated a'). ar_slots a' ! k = None)"
  by (rule compute_storage.arena_cleanup_shown [OF assms])

section \<open>A small arena over the host storage\<close>

definition small_sizing :: page_sizing where
  "small_sizing = \<lparr>ps_min_page_size = 256, ps_max_page_size = 1024, ps_alignment = 32\<rparr>"

definition small_arena :: arena where
  "small_arena = arena_new small_sizing 2"

text \<open>A reservation of 300 bytes outgrows the pages of 256 and takes the largest page there is.\<close>

definition small_grown :: "handle io \<times> arena \<times> heap \<times> error_graph \<times> bytes_storage" where
  "small_grown = arena_reserve bytes_ops 300 Eager small_arena heap_empty graph_default bytes_storage_default"

lemma small_arena_ok: "arena_ok bs_ids bs_held bs_sane small_arena heap_empty bytes_storage_default"
  unfolding small_arena_def
proof (rule arena_new_ok)
  show "sizing_ok small_sizing" by (simp add: sizing_ok_def small_sizing_def)
  show "heap_ok heap_empty" "bs_sane bytes_storage_default"
    using tiny_served by (auto simp: served_def pool_ok_def pages_ok_def)
qed (simp add: arena_slots_def)

lemma small_arena_live: "arena_live h small_arena = {}"
  by (auto simp: arena_live_def small_arena_def arena_new_def arena_slots_def nth_Cons split: nat.splits)

lemma small_grown_ok: "fst small_grown = Ok 0"
  by (simp add: small_grown_def arena_reserve_def current_pool_def small_arena_def arena_new_def small_sizing_def
      sizing_fit_def calculate_padding_def clamp_def page_slack_def page_granule_def next_multiple_of_def arena_grow_def
      get_opt_def arena_slots_def sizing_pool_def sliced_new_def tiny_defs small_defs position_replicate)

theorem arena_reserves_witness:
  "fst small_grown = Ok 0 \<and> sp_page_size (the (ar_slots (fst (snd small_grown)) ! ar_current (fst (snd small_grown)))) \<ge> 300
    \<and> (\<lambda>x. (sl_handle (snd x), sh_size (sl_storage (snd x)))) ` arena_live (fst (snd (snd small_grown))) (fst (snd small_grown)) = {(0, 300)}"
proof -
  obtain r a' h' g' st' where g: "small_grown = (r, a', h', g', st')" by (cases small_grown)
  have "r = Ok 0" using small_grown_ok unfolding g by simp
  with arena_reserves [OF host.compute_storage_axioms small_arena_ok g [unfolded small_grown_def]]
  show ?thesis unfolding g by (auto simp: small_arena_live)
qed

theorem arena_cleanup_drains_witness:
  "\<exists>a' h' g' st'. arena_cleanup bytes_ops 0 Explicit small_arena heap_empty graph_default bytes_storage_default
      = Ok (a', h', g', st') \<and> arena_live h' a' = {} \<and> ar_outdated a' = []"
proof -
  have "ar_outdated small_arena = []" by (simp add: small_arena_def arena_new_def)
  with arena_cleanup_drains [OF host.compute_storage_axioms small_arena_ok, of 0 Explicit graph_default] small_arena_live
  show ?thesis by auto
qed

end
