(* ===== verification/Owned_Slices.thy ===== *)
theory Owned_Slices
  imports Pool_Interface
begin

text \<open>
  Slices that own their whole buffer, the common ground of the direct, persistent and exclusive
  pools: vectors of optional slices, where each handle sits (\<open>placed\<close>), and what the storage
  holds for them (\<open>owned\<close>).
\<close>

section \<open>Vectors of optional slices\<close>

text \<open>\<open>iter().flatten()\<close>.\<close>

fun somes :: "'a option list \<Rightarrow> 'a list" where
  "somes [] = []"
| "somes (None # xs) = somes xs"
| "somes (Some x # xs) = x # somes xs"

lemma somes_append [simp]: "somes (xs @ ys) = somes xs @ somes ys"
  by (induction xs rule: somes.induct) simp_all

lemma set_somes: "s \<in> set (somes cs) \<longleftrightarrow> Some s \<in> set cs"
  by (induction cs rule: somes.induct) auto

lemma somes_map_Some [simp]: "somes (map Some xs) = xs"
  by (induction xs) simp_all

lemma somes_update:
  "k < length cs \<Longrightarrow> somes (cs[k := x]) = somes (take k cs) @ (case x of None \<Rightarrow> [] | Some y \<Rightarrow> [y]) @ somes (drop (Suc k) cs)"
  by (simp add: upd_conv_take_nth_drop split: option.splits)

lemma somes_split:
  "k < length cs \<Longrightarrow> somes cs = somes (take k cs) @ (case cs ! k of None \<Rightarrow> [] | Some y \<Rightarrow> [y]) @ somes (drop (Suc k) cs)"
  using somes_update [of k cs "cs ! k"] by simp

lemma nth_somes: "k < length cs \<Longrightarrow> cs ! k = Some s \<Longrightarrow> s \<in> set (somes cs)"
  by (metis nth_mem set_somes)

lemma somes_nth: "s \<in> set (somes cs) \<Longrightarrow> \<exists>k < length cs. cs ! k = Some s"
  by (metis in_set_conv_nth set_somes)

section \<open>Where the handles are\<close>

text \<open>\<open>at k\<close> is the location the pool gives its entry \<open>k\<close>.\<close>

definition placed :: "(nat \<Rightarrow> memory_location) \<Rightarrow> slice option list \<Rightarrow> heap \<Rightarrow> bool" where
  "placed at cs h \<longleftrightarrow> heap_ok h \<and> distinct (map sl_handle (somes cs))
    \<and> (\<forall>k s. k < length cs \<longrightarrow> cs ! k = Some s \<longrightarrow> sl_handle s \<in> dom (descs h) \<and> location h (sl_handle s) = at k)"

lemma placed_heap: "placed at cs h \<Longrightarrow> heap_ok h"
  by (simp add: placed_def)

lemma placed_at:
  "placed at cs h \<Longrightarrow> k < length cs \<Longrightarrow> cs ! k = Some s \<Longrightarrow> sl_handle s \<in> dom (descs h) \<and> location h (sl_handle s) = at k"
  by (simp add: placed_def)

lemma placed_dom: "placed at cs h \<Longrightarrow> sl_handle ` set (somes cs) \<subseteq> dom (descs h)"
proof
  fix i assume p: "placed at cs h" and "i \<in> sl_handle ` set (somes cs)"
  then obtain s where s: "i = sl_handle s" "Some s \<in> set cs" by (auto simp: set_somes)
  then obtain k where "k < length cs" "cs ! k = Some s" by (auto simp: in_set_conv_nth)
  with placed_at [OF p] s(1) show "i \<in> dom (descs h)" by blast
qed

lemma placed_frame:
  assumes "placed at cs h" "heap_ok h'"
    "\<And>i. i \<in> sl_handle ` set (somes cs) \<Longrightarrow> i \<in> dom (descs h) \<Longrightarrow> i \<in> dom (descs h') \<and> location h' i = location h i"
  shows "placed at cs h'"
  unfolding placed_def
proof (intro conjI allI impI)
  fix k s assume k: "k < length cs" "cs ! k = Some s"
  have "sl_handle s \<in> sl_handle ` set (somes cs)" using nth_somes [OF k] by blast
  with assms(3) [OF this] placed_at [OF assms(1) k]
  show "sl_handle s \<in> dom (descs h')" "location h' (sl_handle s) = at k" by auto
qed (use assms in \<open>simp_all add: placed_def\<close>)

lemma placed_distinct:
  assumes "placed at cs h" "k < length cs" "cs ! k = Some s"
  shows "sl_handle s \<notin> sl_handle ` set (somes (cs[k := None]))"
  using assms somes_split [OF assms(2)] by (auto simp: placed_def somes_update)

text \<open>An entry replaced by one with a handle no other entry has.\<close>

lemma placed_put:
  assumes "placed at (cs[k := None]) h" "k < length cs" "sl_handle s \<notin> sl_handle ` set (somes (cs[k := None]))"
    "sl_handle s \<in> dom (descs h)" "location h (sl_handle s) = at k"
  shows "placed at (cs[k := Some s]) h"
  unfolding placed_def
proof (intro conjI allI impI)
  show "distinct (map sl_handle (somes (cs[k := Some s])))"
    using assms(1-3) by (auto simp: placed_def somes_update)
  fix j t assume j: "j < length (cs[k := Some s])" "cs[k := Some s] ! j = Some t"
  show "sl_handle t \<in> dom (descs h)" "location h (sl_handle t) = at j"
  proof -
    have "sl_handle t \<in> dom (descs h) \<and> location h (sl_handle t) = at j"
    proof (cases "j = k")
      case True
      with j assms(2,4,5) show ?thesis by simp
    next
      case False
      with j placed_at [OF assms(1), of j t] show ?thesis by simp
    qed
    then show "sl_handle t \<in> dom (descs h)" "location h (sl_handle t) = at j" by blast+
  qed
qed (use assms(1) in \<open>simp add: placed_def\<close>)

lemma placed_remove:
  assumes "placed at cs h" "k < length cs"
  shows "placed at (cs[k := None]) h"
proof -
  have "distinct (map sl_handle (somes (cs[k := None])))"
    using assms somes_split [OF assms(2)]
    by (auto simp: placed_def somes_update split: option.splits)
  with assms show ?thesis by (simp add: placed_def nth_list_update)
qed

text \<open>The entry goes and its handle with it.\<close>

lemma placed_release:
  assumes "placed at cs h" "k < length cs" "cs ! k = Some s"
  shows "placed at (cs[k := None]) (drop_handle (sl_handle s) h)"
proof (rule placed_frame [OF placed_remove [OF assms(1,2)]])
  show "heap_ok (drop_handle (sl_handle s) h)" using placed_heap [OF assms(1)] by (rule heap_ok_ops)
  fix i assume i: "i \<in> sl_handle ` set (somes (cs[k := None]))" "i \<in> dom (descs h)"
  then have "i \<noteq> sl_handle s" using placed_distinct [OF assms] by blast
  with i(2)
  show "i \<in> dom (descs (drop_handle (sl_handle s) h)) \<and> location (drop_handle (sl_handle s) h) i = location h i"
    by (simp add: heap_simps del: domIff)
qed

text \<open>A slice changed without its handle.\<close>

lemma placed_same:
  assumes "placed at cs h" "k < length cs" "cs ! k = Some s" "sl_handle s' = sl_handle s"
  shows "placed at (cs[k := Some s']) h"
  by (rule placed_put [OF placed_remove [OF assms(1,2)] assms(2)])
    (use placed_distinct [OF assms(1-3)] placed_at [OF assms(1-3)] assms(4) in auto)

lemma placed_clone: "placed at cs h \<Longrightarrow> placed at cs (clone_handle i h)"
  using placed_frame [of at cs h "clone_handle i h"] placed_heap [of at cs h] by (simp add: heap_simps heap_ok_ops)

text \<open>\<open>bind\<close>: the entry takes the handle of the caller, located where the reserved one was.\<close>

lemma placed_bind:
  assumes "placed at cs h" "k < length cs" "cs ! k = Some s" "sl_handle s' = new"
    "new \<in> dom (descs h)" "new \<notin> sl_handle ` set (somes cs)"
  shows "placed at (cs[k := Some s']) (drop_handle (sl_handle s) (drop_handle (sl_handle s)
      (update_location new (location h (sl_handle s)) h)))"
    (is "placed at _ ?h")
proof -
  let ?i = "sl_handle s"
  have ne: "new \<noteq> ?i" using assms(6) nth_somes [OF assms(2,3)] by auto
  have sub: "set (somes (cs[k := None])) \<subseteq> set (somes cs)"
    using somes_split [OF assms(2)] by (auto simp: somes_update assms(2))
  have hok: "heap_ok ?h" by (intro heap_ok_ops placed_heap [OF assms(1)])
  have "placed at (cs[k := None]) ?h"
  proof (rule placed_frame [OF placed_remove [OF assms(1,2)] hok])
    fix i assume i: "i \<in> sl_handle ` set (somes (cs[k := None]))" "i \<in> dom (descs h)"
    then have "i \<noteq> ?i" "i \<noteq> new" using placed_distinct [OF assms(1-3)] sub assms(6) by blast+
    with i(2) show "i \<in> dom (descs ?h) \<and> location ?h i = location h i"
      by (simp add: heap_simps del: domIff)
  qed
  then show ?thesis
    by (rule placed_put [OF _ assms(2)])
      (use sub assms(4-6) ne placed_at [OF assms(1-3)] in \<open>auto simp: heap_simps\<close>)
qed

text \<open>A fresh slice in an empty entry, with the handle its owner gets.\<close>

lemma placed_fresh:
  assumes "placed at cs h" "k < length cs" "cs ! k = None" "sl_handle s = next_id h"
  shows "placed at (cs[k := Some s]) (clone_handle (next_id h) (update_location (next_id h) (at k) (snd (handle_new h))))"
    (is "placed at _ ?h")
proof -
  have same: "cs[k := None] = cs" using assms(2,3) by (metis list_update_id)
  note hok = placed_heap [OF assms(1)]
  have old: "i < next_id h" if "i \<in> sl_handle ` set (somes cs)" for i
    using that placed_dom [OF assms(1)] heap_ok_fresh [OF hok] by blast
  have "heap_ok ?h" by (intro heap_ok_ops hok)
  then have "placed at (cs[k := None]) ?h"
    unfolding same
  proof (rule placed_frame [OF assms(1)])
    fix i assume i: "i \<in> sl_handle ` set (somes cs)" "i \<in> dom (descs h)"
    then have "i \<noteq> next_id h" using old by blast
    with i(2) show "i \<in> dom (descs ?h) \<and> location ?h i = location h i" by (simp add: heap_simps del: domIff)
  qed
  then show ?thesis
  proof (rule placed_put [OF _ assms(2)])
    show "sl_handle s \<notin> sl_handle ` set (somes (cs[k := None]))" unfolding same assms(4) using old by blast
  qed (use assms(4) in \<open>simp_all add: heap_simps\<close>)
qed

text \<open>What owners do with handles leaves every entry where it is.\<close>

lemma placed_users:
  assumes "placed at cs h"
  shows "placed at cs (snd (handle_new h))" "placed at cs (clone_handle i h)" "placed at cs (binding i h)"
    "placed at cs (clone_binding i h)" "\<not> is_free h i \<Longrightarrow> placed at cs (drop_handle i h)"
    "\<not> is_free h i \<Longrightarrow> is_bound h i \<Longrightarrow> placed at cs (drop_binding i h)"
proof -
  note hok = placed_heap [OF assms]
  show "placed at cs (snd (handle_new h))"
  proof (rule placed_frame [OF assms])
    fix i assume i: "i \<in> dom (descs h)"
    then have "i \<noteq> next_id h" using heap_ok_fresh [OF hok] by blast
    with i show "i \<in> dom (descs (snd (handle_new h))) \<and> location (snd (handle_new h)) i = location h i"
      by (simp add: heap_simps del: domIff)
  qed (rule heap_ok_ops(8) [OF hok])
  show "placed at cs (clone_handle i h)" "placed at cs (binding i h)" "placed at cs (clone_binding i h)"
    "\<not> is_free h i \<Longrightarrow> placed at cs (drop_handle i h)"
    "\<not> is_free h i \<Longrightarrow> is_bound h i \<Longrightarrow> placed at cs (drop_binding i h)"
    by (rule placed_frame [OF assms];
        use hok in \<open>simp add: heap_simps heap_ok_ops is_free_def not_le del: domIff\<close>)+
qed

section \<open>What is in use\<close>

definition in_use :: "heap \<Rightarrow> slice list \<Rightarrow> slice list" where
  "in_use h ss = filter (\<lambda>s. \<not> slice_is_free h s) ss"

lemma in_use_append [simp]: "in_use h (xs @ ys) = in_use h xs @ in_use h ys"
  by (simp add: in_use_def)

lemma in_use_Cons: "in_use h (s # ss) = (if slice_is_free h s then in_use h ss else s # in_use h ss)"
  by (simp add: in_use_def)

lemma in_use_free_cong: "(\<And>s. s \<in> set ss \<Longrightarrow> slice_is_free h' s = slice_is_free h s) \<Longrightarrow> in_use h' ss = in_use h ss"
  by (auto simp: in_use_def intro!: filter_cong)

lemma in_use_cong: "(\<And>s. s \<in> set ss \<Longrightarrow> strong_count h' (sl_handle s) = strong_count h (sl_handle s)) \<Longrightarrow> in_use h' ss = in_use h ss"
  by (auto simp: in_use_def slice_is_free_def is_free_def intro!: filter_cong)

text \<open>A free slice handed out: one more in use.\<close>

lemma hand_out:
  assumes "placed at cs h" "k < length cs" "cs ! k = Some s" "slice_is_free h s"
    "sl_handle s' = sl_handle s" "sh_size (sl_storage s') = n"
  shows "one_more n (sl_handle s) (in_use h (somes cs)) (in_use (clone_handle (sl_handle s) h) (somes (cs[k := Some s'])))"
proof -
  let ?h = "clone_handle (sl_handle s) h"
  let ?xs = "somes (take k cs)" and ?ys = "somes (drop (Suc k) cs)"
  have split: "somes cs = ?xs @ s # ?ys" using somes_split [OF assms(2)] assms(3) by simp
  have dist: "sl_handle t \<noteq> sl_handle s" if "t \<in> set ?xs \<union> set ?ys" for t
  proof -
    have "sl_handle s \<notin> sl_handle ` (set ?xs \<union> set ?ys)" using assms(1) unfolding placed_def split by auto
    with that show ?thesis by (metis imageI)
  qed
  have rest: "in_use ?h ?xs = in_use h ?xs" "in_use ?h ?ys = in_use h ?ys"
    by (rule in_use_cong; use dist in \<open>simp add: heap_simps\<close>)+
  have "0 < strong_count h (sl_handle s)"
    using placed_at [OF assms(1-3)] heap_ok_strong [OF placed_heap [OF assms(1)]] by blast
  then have taken: "\<not> slice_is_free ?h s'"
    using placed_at [OF assms(1-3)] by (simp add: slice_is_free_def is_free_def assms(5) heap_simps)
  have "somes (cs[k := Some s']) = ?xs @ s' # ?ys" by (simp add: somes_update assms(2))
  then have "in_use ?h (somes (cs[k := Some s'])) = in_use h ?xs @ s' # in_use h ?ys"
    using rest taken by (simp add: in_use_def)
  moreover have "in_use h (somes cs) = in_use h ?xs @ in_use h ?ys"
    using assms(4) unfolding split by (simp add: in_use_def)
  ultimately show ?thesis unfolding one_more_def using assms(5,6) by blast
qed

text \<open>A fresh slice handed out.\<close>

lemma fresh_out:
  assumes "placed at cs h" "k < length cs" "cs ! k = None" "sl_handle s = next_id h" "sh_size (sl_storage s) = n"
  shows "one_more n (next_id h) (in_use h (somes cs))
    (in_use (clone_handle (next_id h) (update_location (next_id h) (at k) (snd (handle_new h)))) (somes (cs[k := Some s])))"
proof -
  let ?h = "clone_handle (next_id h) (update_location (next_id h) (at k) (snd (handle_new h)))"
  let ?xs = "somes (take k cs)" and ?ys = "somes (drop (Suc k) cs)"
  have split: "somes cs = ?xs @ ?ys" using somes_split [OF assms(2)] assms(3) by simp
  have "sl_handle t < next_id h" if "t \<in> set ?xs \<union> set ?ys" for t
    using that placed_dom [OF assms(1)] heap_ok_fresh [OF placed_heap [OF assms(1)]] unfolding split by auto
  then have rest: "in_use ?h ?xs = in_use h ?xs" "in_use ?h ?ys = in_use h ?ys"
    by (intro in_use_cong; fastforce simp: heap_simps)+
  have "\<not> slice_is_free ?h s" by (simp add: slice_is_free_def is_free_def assms(4) heap_simps)
  moreover have "somes (cs[k := Some s]) = ?xs @ s # ?ys" by (simp add: somes_update assms(2))
  ultimately have "in_use ?h (somes (cs[k := Some s])) = in_use h ?xs @ s # in_use h ?ys"
    using rest by (simp add: in_use_def)
  moreover have "in_use h (somes cs) = in_use h ?xs @ in_use h ?ys" unfolding split by simp
  ultimately show ?thesis unfolding one_more_def using assms(4,5) by blast
qed

lemma placed_snoc: "placed at cs h \<Longrightarrow> placed at (cs @ [None]) h"
  by (auto simp: placed_def nth_append split: if_splits)

section \<open>What the storage holds\<close>

text \<open>Buffers as id, whether it is mapped, and size.\<close>

definition owned ::
  "('st \<Rightarrow> storage_id set) \<Rightarrow> ('st \<Rightarrow> storage_id \<rightharpoonup> nat) \<Rightarrow> (storage_id \<times> bool \<times> nat) list \<Rightarrow> 'st \<Rightarrow> bool" where
  "owned ids held bs st \<longleftrightarrow> distinct (map fst bs) \<and> fst ` set bs \<subseteq> ids st
    \<and> (\<forall>(i, m, n) \<in> set bs. m \<longrightarrow> held st i = Some n)"

definition buffer :: "slice \<Rightarrow> storage_id \<times> bool \<times> nat" where
  "buffer s = (sh_id (sl_storage s), sl_mapped s, effective_size s)"

context compute_storage
begin

lemma owned_grows:
  assumes "owned ids held bs st" "ids st \<subseteq> ids st'" "\<And>i. i \<in> ids st \<Longrightarrow> held st' i = held st i"
  shows "owned ids held bs st'"
  using assms by (force simp: owned_def)

lemma owned_alloc:
  assumes "sane st" "owned ids held bs st" "so_alloc ops m st = (r, st')" "r \<noteq> Panic"
  shows "owned ids held bs st' \<and> sane st'"
proof (cases r)
  case (Ok s)
  with assms alloc_fresh [of st m s st'] show ?thesis
    by (auto intro!: owned_grows [OF assms(2)] alloc_sane [OF assms(1,3,4)])
next
  case (Err e)
  with assms alloc_err [of st m e st'] show ?thesis
    by (auto intro!: owned_grows [OF assms(2)] alloc_sane [OF assms(1,3,4)])
qed (use assms in simp)

lemma owned_drop: "owned ids held (xs @ b # ys) st \<Longrightarrow> owned ids held (xs @ ys) st"
  by (auto simp: owned_def)

lemma owned_release:
  assumes "sane st" "owned ids held (xs @ (i, m, n) # ys) st"
  shows "owned ids held (xs @ ys) (if m then so_dealloc ops i st else st)"
proof -
  have "i \<notin> fst ` set (xs @ ys)" using assms(2) by (auto simp: owned_def)
  then have "fst b \<noteq> i" if "b \<in> set (xs @ ys)" for b using that by (metis imageI)
  with owned_drop [OF assms(2)] show ?thesis
    using assms(1) by (force simp: owned_def dealloc_held dealloc_ids)
qed

lemma owned_insert:
  assumes "owned ids held (xs @ ys) st" "i \<notin> fst ` set (xs @ ys)" "i \<in> ids st" "m \<longrightarrow> held st i = Some n"
  shows "owned ids held (xs @ (i, m, n) # ys) st"
  using assms by (auto simp: owned_def)

lemma mapped_handle_grows:
  assumes "sane st" "mapped_handle ops m n st = (r, st')" "r \<noteq> Panic" "owned ids held bs st"
  shows "owned ids held bs st' \<and> sane st'
    \<and> (\<forall>s. r = Ok s \<longrightarrow> sh_offset s = 0 \<and> sh_size s = n \<and> sh_id s \<notin> fst ` set bs \<and> sh_id s \<in> ids st'
        \<and> (m = Eager \<longrightarrow> held st' (sh_id s) = Some n))"
proof (cases m)
  case Eager
  with assms have a: "so_alloc ops n st = (r, st')" by (simp add: mapped_handle_def)
  note grown = owned_alloc [OF assms(1,4) a assms(3)]
  have "sh_offset s = 0 \<and> sh_size s = n \<and> sh_id s \<notin> fst ` set bs \<and> sh_id s \<in> ids st' \<and> held st' (sh_id s) = Some n"
    if "r = Ok s" for s
    using alloc_fresh [OF assms(1) a [unfolded that]] assms(4) by (auto simp: owned_def)
  with grown show ?thesis by blast
next
  case Lazy
  obtain i st1 where mi: "so_mint ops st = (i, st1)" by (cases "so_mint ops st")
  with Lazy assms(2) have r: "r = Ok \<lparr>sh_id = i, sh_offset = 0, sh_size = n\<rparr>" "st' = st1" by (auto simp: mapped_handle_def)
  note fresh = mint_fresh [OF assms(1) mi]
  have "owned ids held bs st'" unfolding r(2) by (rule owned_grows [OF assms(4)]) (use fresh in auto)
  moreover have "sane st'" using mint_sane [OF assms(1)] mi r(2) by simp
  moreover have "i \<notin> fst ` set bs" using fresh assms(4) by (auto simp: owned_def)
  ultimately show ?thesis using r fresh Lazy by auto
qed

end

end
