(* ===== verification/Direct_Pool.thy ===== *)
theory Direct_Pool
  imports Owned_Slices
begin

text \<open>
  The pool that does no carving (\<open>memory_pool/direct_pool.rs\<close>): one buffer per reservation, reused
  by exact padded size. Released entries stay as tombstones so that the other entries keep their
  index; \<open>vacant\<close> is the stack of tombstone positions, its top at the end.
\<close>

section \<open>The pool\<close>

record direct_pool =
  dp_slices :: "slice option list"
  dp_vacant :: "nat list"
  dp_alignment :: nat
  dp_base :: memory_location
  dp_reclaim_at :: "nat option"
  dp_pages_peak :: nat
  dp_largest_alloc :: nat

definition direct_new :: "nat \<Rightarrow> 8 word \<Rightarrow> nat option \<Rightarrow> direct_pool" where
  "direct_new alignment pool_pos reclaim_at =
    \<lparr>dp_slices = [], dp_vacant = [], dp_alignment = alignment, dp_base = location_new pool_pos 0 0,
     dp_reclaim_at = reclaim_at, dp_pages_peak = 0, dp_largest_alloc = 0\<rparr>"

definition direct_live :: "direct_pool \<Rightarrow> slice list" where
  "direct_live q = somes (dp_slices q)"

definition direct_reserved :: "direct_pool \<Rightarrow> nat" where
  "direct_reserved q = sum_list (map effective_size (direct_live q))"

definition direct_usage :: "heap \<Rightarrow> direct_pool \<Rightarrow> memory_usage" where
  "direct_usage h q =
    (let used = filter (\<lambda>s. \<not> slice_is_free h s) (direct_live q) in
     \<lparr>number_allocs = length used,
      bytes_in_use = sum_list (map (\<lambda>s. sh_size (sl_storage s)) used),
      bytes_padding = sum_list (map sl_padding used),
      bytes_reserved = sum_list (map effective_size (direct_live q))\<rparr>)"

definition direct_report :: "heap \<Rightarrow> direct_pool \<Rightarrow> pool_report" where
  "direct_report h q =
    \<lparr>rp_kind = Direct, rp_usage = direct_usage h q, rp_pages = length (direct_live q),
     rp_pages_peak = dp_pages_peak q,
     rp_pages_unmapped = length (filter (\<lambda>s. \<not> sl_mapped s) (direct_live q)),
     rp_largest_alloc = dp_largest_alloc q\<rparr>"

text \<open>What the release loops keep: the tombstones, the bytes still reserved, whether anything went
  back, and the state around the pool.\<close>

record 'st releasing =
  re_vacant :: "nat list"
  re_reserved :: nat
  re_released :: bool
  re_heap :: heap
  re_graph :: error_graph
  re_storage :: 'st

text \<open>One free entry goes back: the storage gets its buffer when it is mapped, its claims are
  released and its handle is dropped.\<close>

definition release_entry :: "'st storage_ops \<Rightarrow> nat \<Rightarrow> slice \<Rightarrow> 'st releasing \<Rightarrow> 'st releasing" where
  "release_entry ops index s r =
    r\<lparr>re_storage := (if sl_mapped s then so_dealloc ops (sh_id (sl_storage s)) (re_storage r) else re_storage r),
      re_graph := snd (clear (sl_tainted s) (re_graph r)),
      re_reserved := re_reserved r - effective_size s,
      re_heap := drop_handle (sl_handle s) (re_heap r),
      re_vacant := re_vacant r @ [index],
      re_released := True\<rparr>"

text \<open>The loop over the entries, left as soon as \<open>enough\<close> of the reserved bytes is gone.\<close>

fun release_entries ::
  "'st storage_ops \<Rightarrow> (nat \<Rightarrow> bool) \<Rightarrow> nat \<Rightarrow> slice option list \<Rightarrow> 'st releasing \<Rightarrow> slice option list \<times> 'st releasing" where
  "release_entries ops enough index [] r = ([], r)"
| "release_entries ops enough index (entry # entries) r =
    (if enough (re_reserved r) then (entry # entries, r)
     else
       (case entry of
          None \<Rightarrow> (case release_entries ops enough (Suc index) entries r of (es, r) \<Rightarrow> (None # es, r))
        | Some s \<Rightarrow>
            if \<not> slice_is_free (re_heap r) s then
              (case release_entries ops enough (Suc index) entries r of (es, r) \<Rightarrow> (Some s # es, r))
            else
              (case release_entries ops enough (Suc index) entries (release_entry ops index s r) of
                 (es, r) \<Rightarrow> (None # es, r))))"

definition direct_release_free ::
  "'st storage_ops \<Rightarrow> nat \<Rightarrow> direct_pool \<Rightarrow> heap \<Rightarrow> error_graph \<Rightarrow> 'st
    \<Rightarrow> bool \<times> direct_pool \<times> heap \<times> error_graph \<times> 'st" where
  "direct_release_free ops headroom q h g st =
    (case dp_reclaim_at q of
       None \<Rightarrow> (False, q, h, g, st)
     | Some ceiling \<Rightarrow>
         if direct_reserved q + headroom \<le> ceiling then (False, q, h, g, st)
         else
           (case release_entries ops (\<lambda>reserved. reserved + headroom \<le> ceiling) 0 (dp_slices q)
               \<lparr>re_vacant = dp_vacant q, re_reserved = direct_reserved q, re_released = False,
                re_heap = h, re_graph = g, re_storage = st\<rparr> of
              (es, r) \<Rightarrow> (re_released r, q\<lparr>dp_slices := es, dp_vacant := re_vacant r\<rparr>,
                re_heap r, re_graph r, re_storage r)))"

definition direct_reclaim ::
  "'st storage_ops \<Rightarrow> direct_pool \<Rightarrow> heap \<Rightarrow> error_graph \<Rightarrow> 'st
    \<Rightarrow> bool \<times> direct_pool \<times> heap \<times> error_graph \<times> 'st" where
  "direct_reclaim ops = direct_release_free ops 0"

definition direct_accept :: "direct_pool \<Rightarrow> nat \<Rightarrow> bool" where
  "direct_accept q n = True"

definition direct_find :: "handle \<Rightarrow> direct_pool \<Rightarrow> heap \<Rightarrow> slice io" where
  "direct_find i q h =
    (let index = slice_index h i in
     case Option.bind (get_opt (dp_slices q) index) id of
       None \<Rightarrow> Err (NotFound (SliceMissing index))
     | Some s \<Rightarrow> Ok s)"

text \<open>\<open>try_reserve\<close>: the first free slice whose padded size is the padded request.\<close>

definition exact_fit :: "heap \<Rightarrow> nat \<Rightarrow> slice option \<Rightarrow> bool" where
  "exact_fit h effective entry \<longleftrightarrow>
    (case entry of None \<Rightarrow> False | Some s \<Rightarrow> slice_is_free h s \<and> effective_size s = effective)"

definition direct_try_reserve ::
  "nat \<Rightarrow> direct_pool \<Rightarrow> heap \<Rightarrow> error_graph \<Rightarrow> (handle option \<times> direct_pool \<times> heap \<times> error_graph) io" where
  "direct_try_reserve n q h g =
    (let padding = calculate_padding n (dp_alignment q);
         effective = n + padding in
     case position (exact_fit h effective) (dp_slices q) of
       None \<Rightarrow> Ok (None, q, h, g)
     | Some index \<Rightarrow>
         (case dp_slices q ! index of
            None \<Rightarrow> Panic
          | Some s \<Rightarrow>
              let s' = s\<lparr>sl_padding := padding, sl_storage := (sl_storage s)\<lparr>sh_offset := 0, sh_size := n\<rparr>\<rparr> in
              Ok (Some (sl_handle s),
                q\<lparr>dp_slices := (dp_slices q)[index := Some s'], dp_largest_alloc := max (dp_largest_alloc q) n\<rparr>,
                clone_handle (sl_handle s) h, g)))"

definition direct_alloc ::
  "'st storage_ops \<Rightarrow> nat \<Rightarrow> page_mapping \<Rightarrow> direct_pool \<Rightarrow> heap \<Rightarrow> 'st \<Rightarrow> (handle \<times> direct_pool \<times> heap) io \<times> 'st" where
  "direct_alloc ops n mapping q h st =
    (let padding = calculate_padding n (dp_alignment q);
         effective = n + padding in
     case mapped_handle ops mapping effective st of
       (Ok handle, st) \<Rightarrow>
         let (s, h) = slice_new handle padding h;
             s = s\<lparr>sl_mapped := (mapping = Eager), sl_storage := (sl_storage s)\<lparr>sh_offset := 0, sh_size := n\<rparr>\<rparr>;
             (index, vacant, slices) =
               (if dp_vacant q = [] then (length (dp_slices q), [], dp_slices q @ [None])
                else (last (dp_vacant q), butlast (dp_vacant q), dp_slices q));
             h = update_location (sl_handle s) ((dp_base q)\<lparr>loc_slice := of_nat index\<rparr>) h;
             h = clone_handle (sl_handle s) h in
         (if index < length slices then
            let slices = slices[index := Some s] in
            Ok (sl_handle s, q\<lparr>dp_slices := slices, dp_vacant := vacant,
                  dp_pages_peak := max (dp_pages_peak q) (length (somes slices)),
                  dp_largest_alloc := max (dp_largest_alloc q) n\<rparr>, h)
          else Panic, st)
     | (Err e, st) \<Rightarrow> (Err e, st)
     | (Panic, st) \<Rightarrow> (Panic, st))"

definition direct_materialize ::
  "'st storage_ops \<Rightarrow> handle \<Rightarrow> direct_pool \<Rightarrow> heap \<Rightarrow> 'st \<Rightarrow> direct_pool io \<times> 'st" where
  "direct_materialize ops i q h st =
    (let index = slice_index h i in
     case Option.bind (get_opt (dp_slices q) index) id of
       None \<Rightarrow> (Ok q, st)
     | Some s \<Rightarrow>
         if sl_mapped s \<or> sl_handle s \<noteq> i then (Ok q, st)
         else
           (case slice_materialize ops s st of
              (r, st) \<Rightarrow> (try_then r (\<lambda>s. Ok (q\<lparr>dp_slices := (dp_slices q)[index := Some s]\<rparr>)), st)))"

text \<open>A guard on an allocation is one more binding of it.\<close>

definition direct_guard :: "memory_location \<Rightarrow> direct_pool \<Rightarrow> heap \<Rightarrow> (handle \<times> heap) option" where
  "direct_guard l q h =
    (case Option.bind (get_opt (dp_slices q) (unat (loc_slice l))) id of
       None \<Rightarrow> None
     | Some s \<Rightarrow> Some (sl_handle s, binding (sl_handle s) (clone_handle (sl_handle s) h)))"

definition direct_cleanup ::
  "'st storage_ops \<Rightarrow> nat \<Rightarrow> cleanup_kind \<Rightarrow> direct_pool \<Rightarrow> heap \<Rightarrow> error_graph \<Rightarrow> 'st
    \<Rightarrow> direct_pool \<times> heap \<times> error_graph \<times> 'st" where
  "direct_cleanup ops alloc_nr cleanup q h g st =
    (if cleanup = Periodic then (q, h, g, st)
     else
       (case release_entries ops (\<lambda>_. False) 0 (dp_slices q)
           \<lparr>re_vacant = dp_vacant q, re_reserved = direct_reserved q, re_released = False,
            re_heap = h, re_graph = g, re_storage = st\<rparr> of
          (es, r) \<Rightarrow> (q\<lparr>dp_slices := es, dp_vacant := re_vacant r\<rparr>, re_heap r, re_graph r, re_storage r)))"

definition direct_bind ::
  "handle \<Rightarrow> handle \<Rightarrow> nat \<Rightarrow> direct_pool \<Rightarrow> heap \<Rightarrow> error_graph \<Rightarrow> (direct_pool \<times> heap \<times> error_graph) io" where
  "direct_bind reserved assigned c q h g =
    (let index = slice_index h reserved in
     case Option.bind (get_opt (dp_slices q) index) id of
       None \<Rightarrow> Err (NotFound (SliceMissing index))
     | Some s \<Rightarrow>
         let h = update_location assigned (location h reserved) h;
             (s, h, g) = slice_bind assigned s h g
         in Ok (q\<lparr>dp_slices := (dp_slices q)[index := Some s]\<rparr>, drop_handle reserved h, g))"

section \<open>The invariant\<close>

text \<open>The vector of entries with its tombstones.\<close>

definition cells_ok :: "nat \<Rightarrow> memory_location \<Rightarrow> slice option list \<Rightarrow> nat list \<Rightarrow> heap \<Rightarrow> bool" where
  "cells_ok al base cs vacant h \<longleftrightarrow>
    placed (\<lambda>k. base\<lparr>loc_slice := of_nat k\<rparr>) cs h
    \<and> distinct vacant \<and> set vacant = {k. k < length cs \<and> cs ! k = None}
    \<and> (\<forall>s \<in> set (somes cs). sh_offset (sl_storage s) = 0 \<and> al dvd effective_size s)"

definition direct_ok :: "direct_pool \<Rightarrow> heap \<Rightarrow> bool" where
  "direct_ok q h \<longleftrightarrow> 0 < dp_alignment q \<and> cells_ok (dp_alignment q) (dp_base q) (dp_slices q) (dp_vacant q) h"

definition direct_served ::
  "('st \<Rightarrow> storage_id set) \<Rightarrow> ('st \<Rightarrow> storage_id \<rightharpoonup> nat) \<Rightarrow> ('st \<Rightarrow> bool) \<Rightarrow> direct_pool \<Rightarrow> heap \<Rightarrow> 'st \<Rightarrow> bool" where
  "direct_served ids held sane q h st \<longleftrightarrow>
    direct_ok q h \<and> sane st \<and> owned ids held (map buffer (direct_live q)) st"

lemma cells_placed: "cells_ok al base cs vacant h \<Longrightarrow> placed (\<lambda>k. base\<lparr>loc_slice := of_nat k\<rparr>) cs h"
  by (simp add: cells_ok_def)

lemma cells_heap:
  "cells_ok al base cs vacant h \<Longrightarrow> placed (\<lambda>k. base\<lparr>loc_slice := of_nat k\<rparr>) cs h' \<Longrightarrow> cells_ok al base cs vacant h'"
  by (simp add: cells_ok_def)

text \<open>An occupied entry changed in place.\<close>

lemma cells_change:
  assumes "cells_ok al base cs vacant h" "k < length cs" "cs ! k = Some s"
    "placed (\<lambda>k. base\<lparr>loc_slice := of_nat k\<rparr>) (cs[k := Some s']) h'"
    "sh_offset (sl_storage s') = 0" "al dvd effective_size s'"
  shows "cells_ok al base (cs[k := Some s']) vacant h'"
proof -
  have "{j. j < length (cs[k := Some s']) \<and> cs[k := Some s'] ! j = None} = {j. j < length cs \<and> cs ! j = None}"
    using assms(2,3) by (auto simp: nth_list_update)
  moreover have "\<forall>t \<in> set (somes (cs[k := Some s'])). sh_offset (sl_storage t) = 0 \<and> al dvd effective_size t"
    using assms(1,5,6) somes_split [OF assms(2)] by (auto simp: cells_ok_def somes_update assms(2))
  ultimately show ?thesis using assms(1,4) by (simp add: cells_ok_def)
qed

lemma cells_release:
  assumes "cells_ok al base cs vacant h" "k < length cs" "cs ! k = Some s"
  shows "cells_ok al base (cs[k := None]) (vacant @ [k]) (drop_handle (sl_handle s) h)"
proof -
  have "{j. j < length (cs[k := None]) \<and> cs[k := None] ! j = None} = insert k {j. j < length cs \<and> cs ! j = None}"
    using assms(2) by (auto simp: nth_list_update)
  moreover have "k \<notin> set vacant" using assms(1,3) by (auto simp: cells_ok_def)
  moreover have "set (somes (cs[k := None])) \<subseteq> set (somes cs)"
    using somes_split [OF assms(2)] by (auto simp: somes_update assms(2))
  ultimately show ?thesis
    using assms(1) placed_release [OF cells_placed [OF assms(1)] assms(2,3)] by (auto simp: cells_ok_def)
qed

section \<open>Releasing\<close>

definition reserved_bytes :: "slice option list \<Rightarrow> nat" where
  "reserved_bytes cs = sum_list (map effective_size (somes cs))"

lemma reserved_bytes_simps [simp]:
  "reserved_bytes (xs @ ys) = reserved_bytes xs + reserved_bytes ys" "reserved_bytes [] = 0"
  "reserved_bytes (Some s # xs) = effective_size s + reserved_bytes xs" "reserved_bytes (None # xs) = reserved_bytes xs"
  by (simp_all add: reserved_bytes_def)

lemma drop_others:
  assumes "placed at (pre @ Some s # es) h" "t \<in> set (somes pre) \<union> set (somes es)"
  shows "slice_is_free (drop_handle (sl_handle s) h) t = slice_is_free h t"
proof -
  have "sl_handle s \<notin> sl_handle ` (set (somes pre) \<union> set (somes es))" using assms(1) by (auto simp: placed_def)
  then have "sl_handle t \<noteq> sl_handle s" using assms(2) by (metis imageI)
  then show ?thesis by (simp add: slice_is_free_def is_free_def heap_simps)
qed

text \<open>The state of the loop after the entries \<open>pre\<close>.\<close>

definition releasing_ok ::
  "('st \<Rightarrow> storage_id set) \<Rightarrow> ('st \<Rightarrow> storage_id \<rightharpoonup> nat) \<Rightarrow> ('st \<Rightarrow> bool) \<Rightarrow> nat \<Rightarrow> memory_location \<Rightarrow> slice option list \<Rightarrow> 'st releasing \<Rightarrow> bool" where
  "releasing_ok ids held sane al base cs r \<longleftrightarrow> cells_ok al base cs (re_vacant r) (re_heap r) \<and> re_reserved r = reserved_bytes cs
    \<and> sane (re_storage r) \<and> owned ids held (map buffer (somes cs)) (re_storage r)"

context compute_storage
begin

lemma release_entry_ok:
  assumes "releasing_ok ids held sane al base (pre @ Some s # es) r"
  shows "releasing_ok ids held sane al base (pre @ None # es) (release_entry ops (length pre) s r)"
proof -
  let ?cs = "pre @ Some s # es"
  have cells: "cells_ok al base ?cs (re_vacant r) (re_heap r)" and sane: "sane (re_storage r)"
    and own: "owned ids held (map buffer (somes pre) @ buffer s # map buffer (somes es)) (re_storage r)"
    using assms by (simp_all add: releasing_ok_def)
  from cells_release [OF cells, of "length pre" s]
  have "cells_ok al base (pre @ None # es) (re_vacant r @ [length pre]) (drop_handle (sl_handle s) (re_heap r))"
    by simp
  moreover note owned_release [OF sane own [unfolded buffer_def [of s]]]
  moreover have "sane (if sl_mapped s then so_dealloc ops (sh_id (sl_storage s)) (re_storage r) else re_storage r)"
    using sane dealloc_sane by simp
  ultimately show ?thesis using assms by (simp add: releasing_ok_def release_entry_def)
qed

lemma release_entries_shown:
  assumes "releasing_ok ids held sane al base (pre @ es) r"
    "release_entries ops enough (length pre) es r = (es', r')"
  shows "releasing_ok ids held sane al base (pre @ es') r' \<and> length es' = length es
    \<and> (\<forall>s \<in> set (somes pre). slice_is_free (re_heap r') s = slice_is_free (re_heap r) s)
    \<and> in_use (re_heap r') (somes es') = in_use (re_heap r) (somes es)
    \<and> (enough (re_reserved r') \<or> in_use (re_heap r) (somes es) = somes es')"
  using assms
proof (induction es arbitrary: pre r es')
  case Nil
  then show ?case by (simp add: in_use_def)
next
  case (Cons e es)
  show ?case
  proof (cases "enough (re_reserved r)")
    case True
    with Cons.prems show ?thesis by auto
  next
    case False
    show ?thesis
    proof (cases e)
      case None
      have pre: "releasing_ok ids held sane al base ((pre @ [None]) @ es) r" using Cons.prems(1) None by simp
      from Cons.prems(2) False None obtain es1 where
        es1: "release_entries ops enough (length (pre @ [None])) es r = (es1, r')" "es' = None # es1"
        by (auto split: prod.splits)
      from Cons.IH [OF pre es1(1)] es1(2) None show ?thesis by simp
    next
      case (Some s)
      show ?thesis
      proof (cases "slice_is_free (re_heap r) s")
        case False
        have pre: "releasing_ok ids held sane al base ((pre @ [Some s]) @ es) r" using Cons.prems(1) Some by simp
        from Cons.prems(2) \<open>\<not> enough (re_reserved r)\<close> Some False obtain es1 where
          es1: "release_entries ops enough (length (pre @ [Some s])) es r = (es1, r')" "es' = Some s # es1"
          by (auto split: prod.splits)
        from Cons.IH [OF pre es1(1)] es1(2) Some False show ?thesis by (simp add: in_use_Cons)
      next
        case True
        let ?r = "release_entry ops (length pre) s r"
        have pre: "releasing_ok ids held sane al base ((pre @ [None]) @ es) ?r"
          using release_entry_ok Cons.prems(1) Some by simp
        from Cons.prems(2) \<open>\<not> enough (re_reserved r)\<close> Some True obtain es1 where
          es1: "release_entries ops enough (length (pre @ [None])) es ?r = (es1, r')" "es' = None # es1"
          by (auto split: prod.splits)
        have p: "placed (\<lambda>k. base\<lparr>loc_slice := of_nat k\<rparr>) (pre @ Some s # es) (re_heap r)"
          using Cons.prems(1) Some by (simp add: releasing_ok_def cells_ok_def)
        have h: "re_heap ?r = drop_handle (sl_handle s) (re_heap r)" by (simp add: release_entry_def)
        have rest: "in_use (re_heap ?r) (somes es) = in_use (re_heap r) (somes es)"
          unfolding h by (rule in_use_free_cong) (use drop_others [OF p] in simp)
        from Cons.IH [OF pre es1(1)] es1(2) Some True drop_others [OF p] show ?thesis
          unfolding rest by (simp add: in_use_Cons h)
      qed
    qed
  qed
qed

end

section \<open>Reserving and allocating\<close>

lemma try_reserve_direct:
  assumes ok: "direct_ok q h"
  shows "\<exists>r q' h'. direct_try_reserve n q h g = Ok (r, q', h', g) \<and> direct_ok q' h'
    \<and> map buffer (direct_live q') = map buffer (direct_live q)
    \<and> (r = None \<longrightarrow> in_use h' (direct_live q') = in_use h (direct_live q))
    \<and> (\<forall>i. r = Some i \<longrightarrow> one_more n i (in_use h (direct_live q)) (in_use h' (direct_live q')))"
proof (cases "position (exact_fit h (n + calculate_padding n (dp_alignment q))) (dp_slices q)")
  case None
  with ok show ?thesis by (simp add: direct_try_reserve_def Let_def)
next
  case (Some k)
  let ?pad = "calculate_padding n (dp_alignment q)"
  from position_Some [OF Some] obtain s where s: "k < length (dp_slices q)" "dp_slices q ! k = Some s"
    "slice_is_free h s" "effective_size s = n + ?pad"
    by (auto simp: exact_fit_def split: option.splits)
  let ?s = "s\<lparr>sl_padding := ?pad, sl_storage := (sl_storage s)\<lparr>sh_offset := 0, sh_size := n\<rparr>\<rparr>"
  let ?h = "clone_handle (sl_handle s) h"
  let ?q = "q\<lparr>dp_slices := (dp_slices q)[k := Some ?s], dp_largest_alloc := max (dp_largest_alloc q) n\<rparr>"
  have al: "0 < dp_alignment q" and cells: "cells_ok (dp_alignment q) (dp_base q) (dp_slices q) (dp_vacant q) h"
    using ok by (simp_all add: direct_ok_def)
  note p = cells_placed [OF cells]
  have eff: "effective_size ?s = effective_size s" using s(4) by (simp add: effective_size_def)
  have run: "direct_try_reserve n q h g = Ok (Some (sl_handle s), ?q, ?h, g)"
    using Some s by (simp add: direct_try_reserve_def Let_def)
  have "cells_ok (dp_alignment q) (dp_base q) ((dp_slices q)[k := Some ?s]) (dp_vacant q) ?h"
    by (rule cells_change [OF cells s(1,2) placed_clone [OF placed_same [OF p s(1,2)]]])
      (use padding_dvd [OF al] s(4) eff in simp_all)
  then have "direct_ok ?q ?h" using al by (simp add: direct_ok_def)
  moreover have "map buffer (direct_live ?q) = map buffer (direct_live q)"
    using s(1,2) somes_split [OF s(1)] eff by (simp add: direct_live_def somes_update buffer_def)
  moreover have "one_more n (sl_handle s) (in_use h (direct_live q)) (in_use ?h (direct_live ?q))"
    using hand_out [OF p s(1-3), of ?s n] by (simp add: direct_live_def)
  ultimately show ?thesis using run by (intro exI [of _ "Some (sl_handle s)"] exI [of _ ?q] exI [of _ ?h]) simp
qed

text \<open>The entry a fresh slice goes to: the last tombstone, or a new one.\<close>

lemma vacant_entry:
  assumes "cells_ok al base cs vacant h"
  defines "cs' \<equiv> if vacant = [] then cs @ [None] else cs"
  defines "k \<equiv> if vacant = [] then length cs else last vacant"
  shows "k < length cs' \<and> cs' ! k = None \<and> placed (\<lambda>k. base\<lparr>loc_slice := of_nat k\<rparr>) cs' h \<and> somes cs' = somes cs
    \<and> distinct (butlast vacant)
    \<and> {j. j < length (cs'[k := Some s]) \<and> cs'[k := Some s] ! j = None} = set (butlast vacant)"
proof (cases "vacant = []")
  case True
  then have "{k. k < length cs \<and> cs ! k = None} = {}" using assms(1) by (simp add: cells_ok_def)
  then show ?thesis
    using True placed_snoc [OF cells_placed [OF assms(1)]]
    by (auto simp: cs'_def k_def nth_append nth_list_update less_Suc_eq)
next
  case False
  then have last: "vacant = butlast vacant @ [last vacant]" by simp
  have tombs: "set vacant = {k. k < length cs \<and> cs ! k = None}" "distinct vacant" using assms(1) by (simp_all add: cells_ok_def)
  have "last vacant \<in> set vacant" using False by simp
  then have l: "last vacant < length cs" "cs ! last vacant = None" using tombs by auto
  have "set (butlast vacant) = set vacant - {last vacant}" "distinct (butlast vacant)"
  proof -
    have d: "distinct (butlast vacant @ [last vacant])" using tombs(2) last by simp
    have "set vacant = insert (last vacant) (set (butlast vacant))" using arg_cong [OF last, of set] by simp
    with d show "set (butlast vacant) = set vacant - {last vacant}" by simp
    from d show "distinct (butlast vacant)" by simp
  qed
  then show ?thesis
    using False l cells_placed [OF assms(1)] tombs(1) by (auto simp: cs'_def k_def nth_list_update)
qed

lemma alloc_direct:
  assumes ok: "direct_ok q h" and m: "mapped_handle ops m (n + calculate_padding n (dp_alignment q)) st = (Ok b, st')"
    "sh_offset b = 0"
  shows "\<exists>q' h' xs s ys. direct_alloc ops n m q h st = (Ok (next_id h, q', h'), st') \<and> direct_ok q' h'
    \<and> direct_live q = xs @ ys \<and> direct_live q' = xs @ s # ys
    \<and> buffer s = (sh_id b, m = Eager, n + calculate_padding n (dp_alignment q))
    \<and> one_more n (next_id h) (in_use h (direct_live q)) (in_use h' (direct_live q'))"
proof -
  let ?pad = "calculate_padding n (dp_alignment q)"
  let ?cs = "if dp_vacant q = [] then dp_slices q @ [None] else dp_slices q"
  let ?k = "if dp_vacant q = [] then length (dp_slices q) else last (dp_vacant q)"
  let ?s = "\<lparr>sl_storage = b\<lparr>sh_offset := 0, sh_size := n\<rparr>, sl_handle = next_id h, sl_padding = ?pad, sl_cursor = 0,
    sl_mapped = (m = Eager), sl_tainted = []\<rparr>"
  let ?at = "\<lambda>k. (dp_base q)\<lparr>loc_slice := of_nat k\<rparr>"
  let ?h = "clone_handle (next_id h) (update_location (next_id h) (?at ?k) (snd (handle_new h)))"
  have al: "0 < dp_alignment q" and cells: "cells_ok (dp_alignment q) (dp_base q) (dp_slices q) (dp_vacant q) h"
    using ok by (simp_all add: direct_ok_def)
  from vacant_entry [OF cells, of ?s] have
    v: "?k < length ?cs" "?cs ! ?k = None" "placed ?at ?cs h" "somes ?cs = somes (dp_slices q)"
    "distinct (butlast (dp_vacant q))"
    "{j. j < length (?cs[?k := Some ?s]) \<and> ?cs[?k := Some ?s] ! j = None} = set (butlast (dp_vacant q))"
    by blast+
  let ?q = "q\<lparr>dp_slices := ?cs[?k := Some ?s], dp_vacant := butlast (dp_vacant q),
    dp_pages_peak := max (dp_pages_peak q) (length (somes (?cs[?k := Some ?s]))),
    dp_largest_alloc := max (dp_largest_alloc q) n\<rparr>"
  have run: "direct_alloc ops n m q h st = (Ok (next_id h, ?q, ?h), st')"
    using m(1) v(1) by (cases "dp_vacant q = []") (simp_all add: direct_alloc_def Let_def slice_new_def handle_new_def)
  let ?xs = "somes (take ?k ?cs)" and ?ys = "somes (drop (Suc ?k) ?cs)"
  have old: "direct_live q = ?xs @ ?ys" using somes_split [OF v(1)] v(2,4) unfolding direct_live_def by simp
  have new: "direct_live ?q = ?xs @ ?s # ?ys" using somes_update [OF v(1), of "Some ?s"] unfolding direct_live_def by simp
  have eff: "effective_size ?s = n + ?pad" by (simp add: effective_size_def)
  have "placed ?at (?cs[?k := Some ?s]) ?h" by (rule placed_fresh [OF v(3,1,2)]) simp
  moreover have "\<forall>t \<in> set (direct_live ?q). sh_offset (sl_storage t) = 0 \<and> dp_alignment q dvd effective_size t"
  proof -
    have "\<forall>t \<in> set (direct_live q). sh_offset (sl_storage t) = 0 \<and> dp_alignment q dvd effective_size t"
      using cells by (simp add: cells_ok_def direct_live_def)
    then have "\<forall>t \<in> set ?xs \<union> set ?ys. sh_offset (sl_storage t) = 0 \<and> dp_alignment q dvd effective_size t"
      unfolding old set_append .
    moreover have "sh_offset (sl_storage ?s) = 0 \<and> dp_alignment q dvd effective_size ?s"
      unfolding eff using padding_dvd [OF al, of n] by simp
    ultimately show ?thesis unfolding new by (auto simp only: set_append list.set Un_iff insert_iff)
  qed
  ultimately have "direct_ok ?q ?h"
    using al v(5,6) by (simp add: direct_ok_def cells_ok_def direct_live_def del: length_list_update)
  moreover have "one_more n (next_id h) (in_use h (direct_live q)) (in_use ?h (direct_live ?q))"
    using fresh_out [OF v(3,1,2), of ?s n] v(4) by (simp add: direct_live_def)
  moreover have "buffer ?s = (sh_id b, m = Eager, n + ?pad)" using eff by (simp add: buffer_def)
  ultimately show ?thesis using run old new by blast
qed

lemma bind_direct:
  fixes c :: nat
  assumes ok: "direct_ok q h" and k: "k < length (dp_slices q)" "dp_slices q ! k = Some s" "length (dp_slices q) \<le> 2 ^ 32"
    and new: "new \<in> dom (descs h)" "new \<notin> sl_handle ` set (direct_live q)"
  shows "\<exists>q' h' g'. direct_bind (sl_handle s) new c q h g = Ok (q', h', g') \<and> direct_ok q' h'
    \<and> map buffer (direct_live q') = map buffer (direct_live q)"
proof -
  have al: "0 < dp_alignment q" and cells: "cells_ok (dp_alignment q) (dp_base q) (dp_slices q) (dp_vacant q) h"
    using ok by (simp_all add: direct_ok_def)
  note p = cells_placed [OF cells]
  have "k < 2 ^ 32" using k by linarith
  then have index: "slice_index h (sl_handle s) = k"
    using placed_at [OF p k(1,2)] by (simp add: slice_index_def unat_of_nat take_bit_nat_eq_self)
  let ?s = "s\<lparr>sl_tainted := [], sl_handle := new\<rparr>"
  let ?q = "q\<lparr>dp_slices := (dp_slices q)[k := Some ?s]\<rparr>"
  let ?h = "drop_handle (sl_handle s) (drop_handle (sl_handle s) (update_location new (location h (sl_handle s)) h))"
  have run: "\<exists>g'. direct_bind (sl_handle s) new c q h g = Ok (?q, ?h, g')"
    using k by (simp add: direct_bind_def index Let_def get_opt_def slice_bind_def clear_def split: prod.splits)
  have "placed (\<lambda>k. (dp_base q)\<lparr>loc_slice := of_nat k\<rparr>) ((dp_slices q)[k := Some ?s]) ?h"
    by (rule placed_bind [OF p k(1,2)]) (use new in \<open>simp_all add: direct_live_def\<close>)
  then have "cells_ok (dp_alignment q) (dp_base q) ((dp_slices q)[k := Some ?s]) (dp_vacant q) ?h"
    by (rule cells_change [OF cells k(1,2)])
      (use cells nth_somes [OF k(1,2)] in \<open>auto simp: cells_ok_def effective_size_def\<close>)
  then have "direct_ok ?q ?h" using al by (simp add: direct_ok_def)
  moreover have "map buffer (direct_live ?q) = map buffer (direct_live q)"
    using k(1,2) somes_split [OF k(1)] by (simp add: direct_live_def somes_update buffer_def effective_size_def)
  ultimately show ?thesis using run by blast
qed

section \<open>Runs of a pool\<close>

inductive direct_run ::
  "'st storage_ops \<Rightarrow> ('st \<Rightarrow> bool) \<Rightarrow> direct_pool \<Rightarrow> heap \<Rightarrow> error_graph \<Rightarrow> 'st \<Rightarrow> bool" for ops sane where
  new: "heap_ok h \<Longrightarrow> sane st \<Longrightarrow> 0 < al \<Longrightarrow> direct_run ops sane (direct_new al pos ceiling) h g st"
| reserve: "direct_run ops sane q h g st \<Longrightarrow> direct_try_reserve n q h g = Ok (r, q', h', g') \<Longrightarrow>
    direct_run ops sane q' h' g' st"
| alloc: "direct_run ops sane q h g st \<Longrightarrow> direct_alloc ops n m q h st = (Ok (x, q', h'), st') \<Longrightarrow>
    direct_run ops sane q' h' g st'"
| alloc_err: "direct_run ops sane q h g st \<Longrightarrow> direct_alloc ops n m q h st = (Err e, st') \<Longrightarrow> direct_run ops sane q h g st'"
| reclaim: "direct_run ops sane q h g st \<Longrightarrow> direct_release_free ops headroom q h g st = (b, q', h', g', st') \<Longrightarrow>
    direct_run ops sane q' h' g' st'"
| cleanup: "direct_run ops sane q h g st \<Longrightarrow> direct_cleanup ops nr c q h g st = (q', h', g', st') \<Longrightarrow>
    direct_run ops sane q' h' g' st'"
| backing: "direct_run ops sane q h g st \<Longrightarrow> direct_materialize ops i q h st = (Ok q', st') \<Longrightarrow> direct_run ops sane q' h g st'"
| backing_err: "direct_run ops sane q h g st \<Longrightarrow> direct_materialize ops i q h st = (Err e, st') \<Longrightarrow> direct_run ops sane q h g st'"
| bind: "direct_run ops sane q h g st \<Longrightarrow> s \<in> set (direct_live q) \<Longrightarrow> length (dp_slices q) \<le> 2 ^ 32 \<Longrightarrow>
    i \<in> dom (descs h) \<Longrightarrow> i \<notin> sl_handle ` set (direct_live q) \<Longrightarrow>
    direct_bind (sl_handle s) i c q h g = Ok (q', h', g') \<Longrightarrow> direct_run ops sane q' h' g' st"
| other_alloc: "direct_run ops sane q h g st \<Longrightarrow> so_alloc ops n st = (r, st') \<Longrightarrow> r \<noteq> Panic \<Longrightarrow> direct_run ops sane q h g st'"
| fails: "direct_run ops sane q h g st \<Longrightarrow> direct_run ops sane q h g' st"
| user_new: "direct_run ops sane q h g st \<Longrightarrow> direct_run ops sane q (snd (handle_new h)) g st"
| user_clone: "direct_run ops sane q h g st \<Longrightarrow> direct_run ops sane q (clone_handle i h) g st"
| user_binding: "direct_run ops sane q h g st \<Longrightarrow> direct_run ops sane q (binding i h) g st"
| user_clone_binding: "direct_run ops sane q h g st \<Longrightarrow> direct_run ops sane q (clone_binding i h) g st"
| user_drop: "direct_run ops sane q h g st \<Longrightarrow> \<not> is_free h i \<Longrightarrow> direct_run ops sane q (drop_handle i h) g st"
| user_drop_binding: "direct_run ops sane q h g st \<Longrightarrow> \<not> is_free h i \<Longrightarrow> is_bound h i \<Longrightarrow>
    direct_run ops sane q (drop_binding i h) g st"

lemma direct_users:
  assumes "direct_ok q h"
  shows "direct_ok q (snd (handle_new h))" "direct_ok q (clone_handle i h)" "direct_ok q (binding i h)"
    "direct_ok q (clone_binding i h)" "\<not> is_free h i \<Longrightarrow> direct_ok q (drop_handle i h)"
    "\<not> is_free h i \<Longrightarrow> is_bound h i \<Longrightarrow> direct_ok q (drop_binding i h)"
  using assms by (auto simp: direct_ok_def cells_ok_def intro: placed_users)

context compute_storage
begin

lemma alloc_direct_served:
  assumes sv: "direct_served ids held sane q h st" and a: "direct_alloc ops n m q h st = (r, st')" "r \<noteq> Panic"
  shows "case r of
      Ok (x, q', h') \<Rightarrow> direct_served ids held sane q' h' st'
        \<and> one_more n x (in_use h (direct_live q)) (in_use h' (direct_live q'))
    | _ \<Rightarrow> direct_served ids held sane q h st'"
proof -
  let ?n = "n + calculate_padding n (dp_alignment q)"
  have ok: "direct_ok q h" and sane: "sane st" and own: "owned ids held (map buffer (direct_live q)) st"
    using sv by (simp_all add: direct_served_def)
  obtain r1 st1 where m: "mapped_handle ops m ?n st = (r1, st1)" by (cases "mapped_handle ops m ?n st")
  have np: "r1 \<noteq> Panic" using a m by (auto simp: direct_alloc_def Let_def)
  note grown = mapped_handle_grows [OF sane m np own]
  show ?thesis
  proof (cases r1)
    case (Ok b)
    from m Ok have m1: "mapped_handle ops m ?n st = (outcome.Ok b, st1)" by simp
    from grown Ok have b: "sh_offset b = 0" "sh_id b \<notin> fst ` set (map buffer (direct_live q))" "sh_id b \<in> ids st1"
      "m = Eager \<longrightarrow> held st1 (sh_id b) = Some ?n" by auto
    from alloc_direct [OF ok m1 b(1)] a obtain q' h' xs s ys where
      q': "r = outcome.Ok (next_id h, q', h')" "st' = st1" "direct_ok q' h'" "direct_live q = xs @ ys"
      "direct_live q' = xs @ s # ys" "buffer s = (sh_id b, m = Eager, ?n)"
      "one_more n (next_id h) (in_use h (direct_live q)) (in_use h' (direct_live q'))"
      by auto
    have "owned ids held (map buffer xs @ (sh_id b, m = Eager, ?n) # map buffer ys) st1"
      by (rule owned_insert) (use grown b q'(4) in simp_all)
    then have "owned ids held (map buffer (direct_live q')) st1" using q'(5,6) by simp
    with q' grown show ?thesis by (simp add: direct_served_def)
  next
    case (Err e)
    with a m grown ok show ?thesis by (auto simp: direct_alloc_def Let_def direct_served_def)
  qed (use np in simp)
qed

lemma materialize_served:
  assumes sv: "direct_served ids held sane q h st" and a: "direct_materialize ops i q h st = (r, st')" "r \<noteq> Panic"
  shows "case r of Ok q' \<Rightarrow> direct_served ids held sane q' h st' | _ \<Rightarrow> direct_served ids held sane q h st'"
proof -
  have ok: "direct_ok q h" and sane: "sane st" and own: "owned ids held (map buffer (direct_live q)) st"
    using sv by (simp_all add: direct_served_def)
  let ?k = "slice_index h i"
  consider (same) "r = Ok q" "st' = st"
    | (backed) s r1 where "?k < length (dp_slices q)" "dp_slices q ! ?k = Some s" "\<not> sl_mapped s"
        "so_alloc ops (effective_size s) st = (r1, st')"
        "r = (case r1 of Ok b \<Rightarrow> Ok (q\<lparr>dp_slices := (dp_slices q)[?k :=
           Some (s\<lparr>sl_storage := (sl_storage s)\<lparr>sh_id := sh_id b\<rparr>, sl_mapped := True\<rparr>)]\<rparr>)
         | Err e \<Rightarrow> Err (StorageMappingFailed (effective_size s) e) | Panic \<Rightarrow> Panic)"
    using a(1) by (auto simp: direct_materialize_def Let_def slice_materialize_def get_opt_def
        split: option.splits if_splits prod.splits outcome.splits)
  then show ?thesis
  proof cases
    case same
    with sv show ?thesis by simp
  next
    case backed
    have np: "r1 \<noteq> Panic" using backed(5) a(2) by auto
    note grown = owned_alloc [OF sane own backed(4) np]
    show ?thesis
    proof (cases r1)
      case (Ok b)
      let ?s = "s\<lparr>sl_storage := (sl_storage s)\<lparr>sh_id := sh_id b\<rparr>, sl_mapped := True\<rparr>"
      let ?q = "q\<lparr>dp_slices := (dp_slices q)[?k := Some ?s]\<rparr>"
      have fresh: "sh_id b \<notin> ids st" "ids st' = insert (sh_id b) (ids st)" "held st' = (held st)(sh_id b \<mapsto> effective_size s)"
        using alloc_fresh [OF sane backed(4) [unfolded Ok]] by auto
      let ?xs = "somes (take ?k (dp_slices q))" and ?ys = "somes (drop (Suc ?k) (dp_slices q))"
      have old: "direct_live q = ?xs @ s # ?ys" using somes_split [OF backed(1)] backed(2) by (simp add: direct_live_def)
      have new: "direct_live ?q = ?xs @ ?s # ?ys" using somes_update [OF backed(1)] by (simp add: direct_live_def)
      have "owned ids held (map buffer ?xs @ (sh_id b, True, effective_size s) # map buffer ?ys) st'"
      proof (rule owned_insert)
        show "owned ids held (map buffer ?xs @ map buffer ?ys) st'" 
          using grown old owned_drop [of "map buffer ?xs" "buffer s" "map buffer ?ys" st'] by simp
        have "fst ` set (map buffer ?xs @ map buffer ?ys) \<subseteq> ids st" using own old by (auto simp: owned_def)
        then show "sh_id b \<notin> fst ` set (map buffer ?xs @ map buffer ?ys)" using fresh(1) by blast
      qed (use fresh in simp_all)
      then have "owned ids held (map buffer (direct_live ?q)) st'"
        unfolding new by (simp add: buffer_def effective_size_def)
      moreover have "direct_ok ?q h"
      proof -
        have cells: "cells_ok (dp_alignment q) (dp_base q) (dp_slices q) (dp_vacant q) h" using ok by (simp add: direct_ok_def)
        have "cells_ok (dp_alignment q) (dp_base q) ((dp_slices q)[?k := Some ?s]) (dp_vacant q) h"
          by (rule cells_change [OF cells backed(1,2) placed_same [OF cells_placed [OF cells] backed(1,2)]])
            (use cells nth_somes [OF backed(1,2)] in \<open>auto simp: cells_ok_def effective_size_def\<close>)
        with ok show ?thesis by (simp add: direct_ok_def)
      qed
      ultimately show ?thesis using backed(5) Ok grown by (simp add: direct_served_def)
    next
      case (Err e)
      with backed(5) grown ok show ?thesis by (simp add: direct_served_def)
    qed (use np in simp)
  qed
qed

lemma releasing_start:
  "direct_served ids held sane q h st \<Longrightarrow>
    releasing_ok ids held sane (dp_alignment q) (dp_base q) ([] @ dp_slices q)
      \<lparr>re_vacant = dp_vacant q, re_reserved = direct_reserved q, re_released = False,
       re_heap = h, re_graph = g, re_storage = st\<rparr>"
  by (simp add: releasing_ok_def direct_served_def direct_ok_def direct_reserved_def reserved_bytes_def direct_live_def)

lemma released_served:
  assumes "direct_served ids held sane q h st"
    "release_entries ops enough 0 (dp_slices q) \<lparr>re_vacant = dp_vacant q, re_reserved = direct_reserved q,
       re_released = False, re_heap = h, re_graph = g, re_storage = st\<rparr> = (es, r)"
  defines "q' \<equiv> q\<lparr>dp_slices := es, dp_vacant := re_vacant r\<rparr>"
  shows "direct_served ids held sane q' (re_heap r) (re_storage r)
    \<and> in_use (re_heap r) (direct_live q') = in_use h (direct_live q)
    \<and> (enough (direct_reserved q') \<or> direct_live q' = in_use h (direct_live q))"
proof -
  from release_entries_shown [OF releasing_start [OF assms(1), of g], of enough es r] assms(2)
  have "releasing_ok ids held sane (dp_alignment q) (dp_base q) es r"
    "in_use (re_heap r) (somes es) = in_use h (somes (dp_slices q))"
    "enough (re_reserved r) \<or> in_use h (somes (dp_slices q)) = somes es" by simp_all
  then show ?thesis
    using assms(1)
    by (auto simp: q'_def direct_served_def direct_ok_def releasing_ok_def direct_live_def direct_reserved_def reserved_bytes_def)
qed

lemma release_free_served:
  assumes "direct_served ids held sane q h st" "direct_release_free ops headroom q h g st = (b, q', h', g', st')"
  shows "direct_served ids held sane q' h' st' \<and> in_use h' (direct_live q') = in_use h (direct_live q)
    \<and> (\<forall>ceiling. dp_reclaim_at q = Some ceiling \<longrightarrow>
        direct_reserved q' + headroom \<le> ceiling \<or> direct_live q' = in_use h (direct_live q))"
proof -
  show ?thesis
  proof (cases "dp_reclaim_at q")
    case None
    with assms show ?thesis by (simp add: direct_release_free_def)
  next
    case (Some ceiling)
    let ?r0 = "\<lparr>re_vacant = dp_vacant q, re_reserved = direct_reserved q, re_released = False,
      re_heap = h, re_graph = g, re_storage = st\<rparr>"
    let ?enough = "\<lambda>reserved. reserved + headroom \<le> ceiling"
    show ?thesis
    proof (cases "?enough (direct_reserved q)")
      case True
      with assms Some show ?thesis by (simp add: direct_release_free_def)
    next
      case False
      obtain es r where e: "release_entries ops ?enough 0 (dp_slices q) ?r0 = (es, r)"
        by (cases "release_entries ops ?enough 0 (dp_slices q) ?r0")
      with assms(2) Some False have out: "q' = q\<lparr>dp_slices := es, dp_vacant := re_vacant r\<rparr>" "h' = re_heap r" "st' = re_storage r"
        by (simp_all add: direct_release_free_def)
      show ?thesis unfolding out using released_served [OF assms(1) e] Some by simp
    qed
  qed
qed

lemma direct_run_served: "direct_run ops sane q h g st \<Longrightarrow> direct_served ids held sane q h st"
proof (induction rule: direct_run.induct)
  case (new h st al pos ceiling g)
  then show ?case by (simp add: direct_served_def direct_ok_def cells_ok_def placed_def direct_new_def direct_live_def owned_def)
next
  case (reserve q h g st n r q' h' g')
  then have "direct_ok q h" by (simp add: direct_served_def)
  from try_reserve_direct [OF this, of n g] reserve.hyps(2) reserve.IH show ?case by (auto simp: direct_served_def)
next
  case (alloc q h g st n m x q' h' st')
  from alloc_direct_served [OF alloc.IH alloc.hyps(2)] show ?case by simp
next
  case (alloc_err q h g st n m e st')
  from alloc_direct_served [OF alloc_err.IH alloc_err.hyps(2)] show ?case by simp
next
  case (reclaim q h g st headroom b q' h' g' st')
  then show ?case using release_free_served by blast
next
  case (cleanup q h g st nr c q' h' g' st')
  then show ?case using released_served [OF cleanup.IH] by (auto simp: direct_cleanup_def split: if_splits prod.splits)
next
  case (backing q h g st i q' st')
  from materialize_served [OF backing.IH backing.hyps(2)] show ?case by simp
next
  case (backing_err q h g st i e st')
  from materialize_served [OF backing_err.IH backing_err.hyps(2)] show ?case by simp
next
  case (bind q h g st s i c q' h' g')
  from somes_nth [OF bind.hyps(2) [unfolded direct_live_def]] obtain k where
    k: "k < length (dp_slices q)" "dp_slices q ! k = Some s" by blast
  have "direct_ok q h" using bind.IH by (simp add: direct_served_def)
  from bind_direct [OF this k bind.hyps(3-5), of c g] bind.hyps(6) bind.IH show ?case by (auto simp: direct_served_def)
next
  case (other_alloc q h g st n r st')
  then show ?case using owned_alloc [of st "map buffer (direct_live q)" n r st'] by (simp add: direct_served_def)
qed (simp_all add: direct_served_def direct_users)

end

section \<open>What the pool promises\<close>

lemma direct_found:
  assumes ok: "direct_ok q h" and len: "length (dp_slices q) \<le> 2 ^ 32" and s: "s \<in> set (direct_live q)"
  shows "direct_find (sl_handle s) q h = Ok s"
proof -
  from somes_nth [OF s [unfolded direct_live_def]] obtain k where
    k: "k < length (dp_slices q)" "dp_slices q ! k = Some s" by blast
  have "location h (sl_handle s) = (dp_base q)\<lparr>loc_slice := of_nat k\<rparr>"
    using ok placed_at [OF cells_placed k] by (auto simp: direct_ok_def)
  moreover have "k < 2 ^ 32" using k len by linarith
  ultimately have "slice_index h (sl_handle s) = k"
    by (simp add: slice_index_def unat_of_nat take_bit_nat_eq_self)
  with k show ?thesis by (simp add: direct_find_def Let_def get_opt_def)
qed

interpretation direct: memory_pool "\<lambda>q h st. direct_ok q h" "\<lambda>q. length (dp_slices q) \<le> 2 ^ 32"
  "\<lambda>h q. in_use h (direct_live q)" direct_try_reserve direct_find
proof
  fix q h n g assume "direct_ok q h"
  from try_reserve_direct [OF this, of n g]
  show "\<exists>r q' h' g'. direct_try_reserve n q h g = Ok (r, q', h', g') \<and> direct_ok q' h'
      \<and> (r = None \<longrightarrow> in_use h' (direct_live q') = in_use h (direct_live q))
      \<and> (\<forall>i. r = Some i \<longrightarrow> one_more n i (in_use h (direct_live q)) (in_use h' (direct_live q')))" by blast
qed (auto simp: direct_found in_use_def)


text \<open>Reclaiming stops at the ceiling: after a reclaim of a pool with a ceiling the reserved bytes
  with the headroom are at most the ceiling, or not one free slice is left; slices in use stay as
  they are, and the storage contract holds as before.\<close>

theorem reclaim_meets_ceiling:
  assumes "compute_storage ops ids held sane" "direct_run ops sane q h g st" "dp_reclaim_at q = Some ceiling"
    "direct_release_free ops headroom q h g st = (b, q', h', g', st')"
  shows "direct_served ids held sane q' h' st' \<and> in_use h' (direct_live q') = in_use h (direct_live q)
    \<and> (direct_reserved q' + headroom \<le> ceiling \<or> direct_live q' = in_use h (direct_live q))"
  using compute_storage.release_free_served [OF assms(1) compute_storage.direct_run_served [OF assms(1,2)] assms(4)]
    assms(3) by blast

section \<open>A small pool over the host storage\<close>

definition naive_alloc :: "(handle \<times> direct_pool \<times> heap) io \<times> bytes_storage" where
  "naive_alloc = direct_alloc bytes_ops 100 Eager (direct_new 32 1 (Some 64)) heap_empty bytes_storage_default"

definition naive_pool :: direct_pool where
  "naive_pool = (case fst naive_alloc of Ok (x, q, h) \<Rightarrow> q | _ \<Rightarrow> direct_new 32 1 (Some 64))"

definition naive_heap :: heap where
  "naive_heap = (case fst naive_alloc of Ok (x, q, h) \<Rightarrow> h | _ \<Rightarrow> heap_empty)"

lemmas naive_defs = naive_alloc_def naive_pool_def naive_heap_def direct_alloc_def direct_new_def mapped_handle_def bytes_ops_def
  bs_alloc_def bs_mint_def next_grant_def bs_insert_def layout_fits_def bs_alignment_def bytes_storage_default_def
  Let_def slice_new_def handle_new_def heap_empty_def calculate_padding_def

lemma naive_run: "direct_run bytes_ops bs_sane naive_pool naive_heap graph_default (snd naive_alloc)"
proof -
  have new: "direct_run bytes_ops bs_sane (direct_new 32 1 (Some 64)) heap_empty graph_default bytes_storage_default"
    by (rule direct_run.new) (simp_all add: heap_ok_def heap_empty_def bs_sane_def bytes_storage_default_def)
  have "direct_alloc bytes_ops 100 Eager (direct_new 32 1 (Some 64)) heap_empty bytes_storage_default
      = (Ok (0, naive_pool, naive_heap), snd naive_alloc)"
    by (simp add: naive_defs)
  from direct_run.alloc [OF new this] show ?thesis .
qed


theorem reclaim_meets_ceiling_witness:
  "case direct_release_free bytes_ops 0 naive_pool (drop_handle 0 naive_heap) graph_default (snd naive_alloc) of
     (b, q', h', g', st') \<Rightarrow> direct_reserved q' \<le> 64 \<or> direct_live q' = []"
proof -
  have "\<not> is_free naive_heap 0"
    by (simp add: naive_defs is_free_def strong_count_def clone_handle_def update_location_def modify_def)
  from direct_run.user_drop [OF naive_run this]
  have run: "direct_run bytes_ops bs_sane naive_pool (drop_handle 0 naive_heap) graph_default (snd naive_alloc)" .
  have ceiling: "dp_reclaim_at naive_pool = Some 64" by (simp add: naive_defs)
  have free: "in_use (drop_handle 0 naive_heap) (direct_live naive_pool) = []"
    by (simp add: naive_defs direct_live_def in_use_def slice_is_free_def is_free_def strong_count_def drop_handle_def
        clone_handle_def update_location_def modify_def)
  obtain b q' h' g' st' where r: "direct_release_free bytes_ops 0 naive_pool (drop_handle 0 naive_heap) graph_default
      (snd naive_alloc) = (b, q', h', g', st')"
    by (cases "direct_release_free bytes_ops 0 naive_pool (drop_handle 0 naive_heap) graph_default (snd naive_alloc)")
  from reclaim_meets_ceiling [OF host.compute_storage_axioms run ceiling r] free r show ?thesis by simp
qed

end
