(* ===== verification/Persistent_Pool.thy ===== *)
theory Persistent_Pool
  imports Owned_Slices
begin

text \<open>
  The pool of exact-fit slices that persist (\<open>memory_pool/persistent_pool.rs\<close>). Each slice owns its
  buffer; \<open>sizes\<close> maps a padded size to the positions of the slices allocated for it.

  Two facts about the code stand side by side. While every allocation is eager, each slice's
  utilization stays inside its buffer. But \<open>try_reserve\<close> sets the size of a reused slice and leaves
  its padding, so the padded size the slice reports drifts away from its buffer, and a lazy slice
  that is materialised while it has drifted gets a buffer smaller than what its position in
  \<open>sizes\<close> promises: a later reservation then reaches past the end of it.
\<close>

section \<open>The pool\<close>

record persistent_pool =
  pp_slices :: "slice list"
  pp_sizes :: "nat \<rightharpoonup> nat list"
  pp_alignment :: nat
  pp_max_alloc_size :: nat
  pp_base :: memory_location
  pp_pages_peak :: nat
  pp_largest_alloc :: nat

definition persistent_new :: "nat \<Rightarrow> nat \<Rightarrow> 8 word \<Rightarrow> persistent_pool" where
  "persistent_new max_alloc_size alignment pool_pos =
    \<lparr>pp_slices = [], pp_sizes = Map.empty, pp_alignment = alignment, pp_max_alloc_size = max_alloc_size,
     pp_base = location_new pool_pos 0 0, pp_pages_peak = 0, pp_largest_alloc = 0\<rparr>"

definition persistent_usage :: "heap \<Rightarrow> persistent_pool \<Rightarrow> memory_usage" where
  "persistent_usage h q =
    (let used = filter (\<lambda>s. \<not> slice_is_free h s) (pp_slices q) in
     \<lparr>number_allocs = length used,
      bytes_in_use = sum_list (map (\<lambda>s. sh_size (sl_storage s)) used),
      bytes_padding = sum_list (map sl_padding used),
      bytes_reserved = sum_list (map effective_size (pp_slices q))\<rparr>)"

definition persistent_report :: "heap \<Rightarrow> persistent_pool \<Rightarrow> pool_report" where
  "persistent_report h q =
    \<lparr>rp_kind = Persistent, rp_usage = persistent_usage h q, rp_pages = length (pp_slices q),
     rp_pages_peak = pp_pages_peak q,
     rp_pages_unmapped = length (filter (\<lambda>s. \<not> sl_mapped s) (pp_slices q)),
     rp_largest_alloc = pp_largest_alloc q\<rparr>"

definition has_size :: "nat \<Rightarrow> persistent_pool \<Rightarrow> bool" where
  "has_size n q \<longleftrightarrow> pp_sizes q (n + calculate_padding n (pp_alignment q)) \<noteq> None"

definition persistent_accept :: "persistent_pool \<Rightarrow> nat \<Rightarrow> bool" where
  "persistent_accept q n \<longleftrightarrow> n \<le> pp_max_alloc_size q"

definition persistent_find :: "handle \<Rightarrow> persistent_pool \<Rightarrow> heap \<Rightarrow> slice io" where
  "persistent_find i q h =
    (let index = slice_index h i in
     case get_opt (pp_slices q) index of
       None \<Rightarrow> Err (NotFound (SliceMissing index))
     | Some s \<Rightarrow> Ok s)"

text \<open>The loop over the positions of one size.\<close>

fun first_free :: "heap \<Rightarrow> slice list \<Rightarrow> nat list \<Rightarrow> nat option io" where
  "first_free h slices [] = Ok None"
| "first_free h slices (pos # positions) =
    (if pos < length slices then
       if slice_is_free h (slices ! pos) then Ok (Some pos) else first_free h slices positions
     else Panic)"

definition persistent_try_reserve ::
  "nat \<Rightarrow> persistent_pool \<Rightarrow> heap \<Rightarrow> error_graph \<Rightarrow> (handle option \<times> persistent_pool \<times> heap \<times> error_graph) io" where
  "persistent_try_reserve n q h g =
    (let padding = calculate_padding n (pp_alignment q);
         effective = n + padding in
     case pp_sizes q effective of
       None \<Rightarrow> Ok (None, q, h, g)
     | Some positions \<Rightarrow>
         try_then (first_free h (pp_slices q) positions) (\<lambda>found.
           case found of
             None \<Rightarrow> Ok (None, q, h, g)
           | Some pos \<Rightarrow>
               let s = pp_slices q ! pos;
                   s' = s\<lparr>sl_storage := (sl_storage s)\<lparr>sh_size := n, sh_offset := 0\<rparr>\<rparr> in
               Ok (Some (sl_handle s),
                 q\<lparr>pp_slices := (pp_slices q)[pos := s'], pp_largest_alloc := max (pp_largest_alloc q) n\<rparr>,
                 clone_handle (sl_handle s) h, g)))"

definition push_size :: "nat \<Rightarrow> nat \<Rightarrow> (nat \<rightharpoonup> nat list) \<Rightarrow> nat \<rightharpoonup> nat list" where
  "push_size effective pos sizes =
    (case sizes effective of
       Some vals \<Rightarrow> sizes(effective \<mapsto> vals @ [pos])
     | None \<Rightarrow> sizes(effective \<mapsto> [pos]))"

definition persistent_alloc ::
  "'st storage_ops \<Rightarrow> nat \<Rightarrow> page_mapping \<Rightarrow> persistent_pool \<Rightarrow> heap \<Rightarrow> 'st
    \<Rightarrow> (handle \<times> persistent_pool \<times> heap) io \<times> 'st" where
  "persistent_alloc ops n mapping q h st =
    (let padding = calculate_padding n (pp_alignment q);
         effective = n + padding in
     case mapped_handle ops mapping effective st of
       (Ok handle, st) \<Rightarrow>
         let (s, h) = slice_new handle padding h;
             s = s\<lparr>sl_mapped := (mapping = Eager), sl_storage := (sl_storage s)\<lparr>sh_offset := 0, sh_size := n\<rparr>\<rparr>;
             pos = length (pp_slices q);
             h = update_location (sl_handle s) ((pp_base q)\<lparr>loc_slice := of_nat pos\<rparr>) h;
             sizes = push_size effective pos (pp_sizes q);
             h = clone_handle (sl_handle s) h;
             slices = pp_slices q @ [s] in
         (Ok (sl_handle s, q\<lparr>pp_slices := slices, pp_sizes := sizes,
             pp_pages_peak := max (pp_pages_peak q) (length slices),
             pp_largest_alloc := max (pp_largest_alloc q) n\<rparr>, h), st)
     | (Err e, st) \<Rightarrow> (Err e, st)
     | (Panic, st) \<Rightarrow> (Panic, st))"

definition persistent_guard :: "memory_location \<Rightarrow> persistent_pool \<Rightarrow> heap \<Rightarrow> (handle \<times> heap) option" where
  "persistent_guard l q h =
    (case get_opt (pp_slices q) (unat (loc_slice l)) of
       None \<Rightarrow> None
     | Some s \<Rightarrow> Some (sl_handle s, binding (sl_handle s) (clone_handle (sl_handle s) h)))"

text \<open>\<open>cleanup\<close>: the slices kept so far and the sizes rebuilt for them.\<close>

fun persistent_loop ::
  "'st storage_ops \<Rightarrow> slice list \<Rightarrow> slice list \<Rightarrow> (nat \<rightharpoonup> nat list) \<Rightarrow> heap \<Rightarrow> error_graph \<Rightarrow> 'st
    \<Rightarrow> slice list \<times> (nat \<rightharpoonup> nat list) \<times> heap \<times> error_graph \<times> 'st" where
  "persistent_loop ops [] slices sizes h g st = (slices, sizes, h, g, st)"
| "persistent_loop ops (s # ss) slices sizes h g st =
    (if slice_is_free h s then
       let g = snd (clear (sl_tainted s) g);
           st = (if sl_mapped s then so_dealloc ops (sh_id (sl_storage s)) st else st);
           h = drop_handle (sl_handle s) h
       in persistent_loop ops ss slices sizes h g st
     else
       let pos = length slices;
           h = update_slice (sl_handle s) (of_nat pos) h
       in persistent_loop ops ss (slices @ [s]) (push_size (effective_size s) pos sizes) h g st)"

definition persistent_cleanup ::
  "'st storage_ops \<Rightarrow> nat \<Rightarrow> cleanup_kind \<Rightarrow> persistent_pool \<Rightarrow> heap \<Rightarrow> error_graph \<Rightarrow> 'st
    \<Rightarrow> persistent_pool \<times> heap \<times> error_graph \<times> 'st" where
  "persistent_cleanup ops alloc_nr cleanup q h g st =
    (if cleanup = Explicit then
       (case persistent_loop ops (pp_slices q) [] Map.empty h g st of
          (slices, sizes, h, g, st) \<Rightarrow> (q\<lparr>pp_sizes := sizes, pp_slices := slices\<rparr>, h, g, so_flush ops st))
     else (q, h, g, st))"

definition persistent_bind ::
  "handle \<Rightarrow> handle \<Rightarrow> nat \<Rightarrow> persistent_pool \<Rightarrow> heap \<Rightarrow> error_graph \<Rightarrow> (persistent_pool \<times> heap \<times> error_graph) io" where
  "persistent_bind old new c q h g =
    (let index = slice_index h old in
     case get_opt (pp_slices q) index of
       None \<Rightarrow> Panic
     | Some s \<Rightarrow>
         let h = update_location new (location h old) h;
             (s, h, g) = slice_bind new (s\<lparr>sl_cursor := c\<rparr>) h g
         in Ok (q\<lparr>pp_slices := (pp_slices q)[index := s]\<rparr>, drop_handle old h, g))"

definition persistent_materialize ::
  "'st storage_ops \<Rightarrow> handle \<Rightarrow> persistent_pool \<Rightarrow> heap \<Rightarrow> 'st \<Rightarrow> persistent_pool io \<times> 'st" where
  "persistent_materialize ops i q h st =
    (let index = slice_index h i in
     case get_opt (pp_slices q) index of
       None \<Rightarrow> (Ok q, st)
     | Some s \<Rightarrow>
         if sl_mapped s \<or> sl_handle s \<noteq> i then (Ok q, st)
         else
           (case slice_materialize ops s st of
              (r, st) \<Rightarrow> (try_then r (\<lambda>s. Ok (q\<lparr>pp_slices := (pp_slices q)[index := s]\<rparr>)), st)))"

section \<open>Runs\<close>

text \<open>\<open>dry\<close>: whether allocations may be lazy, as they are under a dry run.\<close>

inductive persistent_run ::
  "'st storage_ops \<Rightarrow> ('st \<Rightarrow> bool) \<Rightarrow> bool \<Rightarrow> persistent_pool \<Rightarrow> heap \<Rightarrow> error_graph \<Rightarrow> 'st \<Rightarrow> bool" for ops sane dry where
  new: "heap_ok h \<Longrightarrow> sane st \<Longrightarrow> 0 < al \<Longrightarrow> persistent_run ops sane dry (persistent_new mx al pos) h g st"
| reserve: "persistent_run ops sane dry q h g st \<Longrightarrow> persistent_try_reserve n q h g = Ok (r, q', h', g') \<Longrightarrow>
    persistent_run ops sane dry q' h' g' st"
| alloc: "persistent_run ops sane dry q h g st \<Longrightarrow> m = Eager \<or> dry \<Longrightarrow>
    persistent_alloc ops n m q h st = (Ok (x, q', h'), st') \<Longrightarrow> persistent_run ops sane dry q' h' g st'"
| alloc_err: "persistent_run ops sane dry q h g st \<Longrightarrow> persistent_alloc ops n m q h st = (Err e, st') \<Longrightarrow>
    persistent_run ops sane dry q h g st'"
| cleanup: "persistent_run ops sane dry q h g st \<Longrightarrow> persistent_cleanup ops nr c q h g st = (q', h', g', st') \<Longrightarrow>
    persistent_run ops sane dry q' h' g' st'"
| backing: "persistent_run ops sane dry q h g st \<Longrightarrow> persistent_materialize ops i q h st = (Ok q', st') \<Longrightarrow>
    persistent_run ops sane dry q' h g st'"
| bind: "persistent_run ops sane dry q h g st \<Longrightarrow> s \<in> set (pp_slices q) \<Longrightarrow> length (pp_slices q) \<le> 2 ^ 32 \<Longrightarrow>
    i \<in> dom (descs h) \<Longrightarrow> i \<notin> sl_handle ` set (pp_slices q) \<Longrightarrow>
    persistent_bind (sl_handle s) i c q h g = Ok (q', h', g') \<Longrightarrow> persistent_run ops sane dry q' h' g' st"
| user_new: "persistent_run ops sane dry q h g st \<Longrightarrow> persistent_run ops sane dry q (snd (handle_new h)) g st"
| user_clone: "persistent_run ops sane dry q h g st \<Longrightarrow> persistent_run ops sane dry q (clone_handle i h) g st"
| user_drop: "persistent_run ops sane dry q h g st \<Longrightarrow> \<not> is_free h i \<Longrightarrow> persistent_run ops sane dry q (drop_handle i h) g st"

section \<open>The invariant of eager runs\<close>

text \<open>The buffer a slice needs for its present utilization.\<close>

definition need :: "nat \<Rightarrow> slice \<Rightarrow> nat" where
  "need al s = sh_size (sl_storage s) + calculate_padding (sh_size (sl_storage s)) al"

definition need_buffer :: "nat \<Rightarrow> slice \<Rightarrow> storage_id \<times> bool \<times> nat" where
  "need_buffer al s = (sh_id (sl_storage s), sl_mapped s, need al s)"

definition sizes_ok :: "nat \<Rightarrow> slice list \<Rightarrow> (nat \<rightharpoonup> nat list) \<Rightarrow> bool" where
  "sizes_ok al ss sizes \<longleftrightarrow> (\<forall>key ps pos. sizes key = Some ps \<longrightarrow> pos \<in> set ps \<longrightarrow>
    pos < length ss \<and> (al dvd key \<longrightarrow> need al (ss ! pos) = key))"

definition slice_sane :: "nat \<Rightarrow> slice \<Rightarrow> bool" where
  "slice_sane al s \<longleftrightarrow> sl_mapped s \<and> sh_offset (sl_storage s) = 0 \<and> sl_padding s < al"

definition persistent_ok :: "persistent_pool \<Rightarrow> heap \<Rightarrow> bool" where
  "persistent_ok q h \<longleftrightarrow> 0 < pp_alignment q \<and> slots_ok (pp_base q) (pp_slices q) h
    \<and> list_all (slice_sane (pp_alignment q)) (pp_slices q) \<and> sizes_ok (pp_alignment q) (pp_slices q) (pp_sizes q)"

definition persistent_served ::
  "('st \<Rightarrow> storage_id set) \<Rightarrow> ('st \<Rightarrow> storage_id \<rightharpoonup> nat) \<Rightarrow> ('st \<Rightarrow> bool) \<Rightarrow> persistent_pool \<Rightarrow> heap \<Rightarrow> 'st \<Rightarrow> bool" where
  "persistent_served ids held sane q h st \<longleftrightarrow> persistent_ok q h \<and> sane st
    \<and> owned ids held (map (need_buffer (pp_alignment q)) (pp_slices q)) st"

lemma slots_placed: "slots_ok base ss h \<longleftrightarrow> placed (\<lambda>k. base\<lparr>loc_slice := of_nat k\<rparr>) (map Some ss) h"
  by (auto simp: slots_ok_def placed_def)

text \<open>A padded size that is a multiple of the alignment is the one the alignment gives.\<close>

lemma padding_unique:
  assumes "0 < al" "pad < al" "al dvd n + pad"
  shows "pad = calculate_padding n al"
proof -
  have "n + calculate_padding n al \<le> n + pad"
    using assms by (simp add: padding_next_multiple next_multiple_of_least)
  moreover have "n + pad < n + calculate_padding n al + al" using assms(2) by linarith
  moreover have "al dvd (n + pad) - (n + calculate_padding n al)"
    using assms padding_dvd [OF assms(1), of n] dvd_diff_nat by blast
  ultimately show ?thesis
    using dvd_imp_le [of al "(n + pad) - (n + calculate_padding n al)"] by fastforce
qed

lemma sizes_push:
  assumes "sizes_ok al ss sizes" "al dvd key \<longrightarrow> need al s = key"
  shows "sizes_ok al (ss @ [s]) (push_size key (length ss) sizes)"
  unfolding sizes_ok_def
proof (intro allI impI)
  fix key' ps pos assume k: "push_size key (length ss) sizes key' = Some ps" "pos \<in> set ps"
  show "pos < length (ss @ [s]) \<and> (al dvd key' \<longrightarrow> need al ((ss @ [s]) ! pos) = key')"
  proof (cases "key' = key \<and> pos = length ss")
    case True
    with assms(2) show ?thesis by simp
  next
    case False
    with k obtain ps' where "sizes key' = Some ps'" "pos \<in> set ps'"
      by (auto simp: push_size_def split: option.splits if_splits)
    with assms(1) have "pos < length ss \<and> (al dvd key' \<longrightarrow> need al (ss ! pos) = key')" by (simp add: sizes_ok_def)
    then show ?thesis by (simp add: nth_append)
  qed
qed

lemma sizes_update:
  assumes "sizes_ok al ss sizes" "pos < length ss" "need al s = need al (ss ! pos)"
  shows "sizes_ok al (ss[pos := s]) sizes"
  using assms by (auto simp: sizes_ok_def nth_list_update)

section \<open>Reserving\<close>

lemma first_free_total:
  "(\<forall>pos \<in> set ps. pos < length ss) \<Longrightarrow> \<exists>r. first_free h ss ps = Ok r
    \<and> (\<forall>pos. r = Some pos \<longrightarrow> pos \<in> set ps \<and> slice_is_free h (ss ! pos))"
  by (induction ps) auto

lemma try_reserve_persistent:
  assumes ok: "persistent_ok q h"
  shows "\<exists>r q' h'. persistent_try_reserve n q h g = Ok (r, q', h', g) \<and> persistent_ok q' h'
    \<and> map (need_buffer (pp_alignment q')) (pp_slices q') = map (need_buffer (pp_alignment q)) (pp_slices q)
    \<and> (r = None \<longrightarrow> in_use h' (pp_slices q') = in_use h (pp_slices q))
    \<and> (\<forall>i. r = Some i \<longrightarrow> one_more n i (in_use h (pp_slices q)) (in_use h' (pp_slices q')))"
proof -
  let ?al = "pp_alignment q"
  let ?eff = "n + calculate_padding n ?al"
  have al: "0 < ?al" and slots: "slots_ok (pp_base q) (pp_slices q) h"
    and sizes: "sizes_ok ?al (pp_slices q) (pp_sizes q)" and sn: "list_all (slice_sane ?al) (pp_slices q)"
    using ok by (simp_all add: persistent_ok_def)
  show ?thesis
  proof (cases "pp_sizes q ?eff")
    case None
    with ok show ?thesis by (simp add: persistent_try_reserve_def Let_def)
  next
    case (Some ps)
    with sizes have "\<forall>pos \<in> set ps. pos < length (pp_slices q)" by (simp add: sizes_ok_def)
    from first_free_total [OF this, of h] obtain r where
      r: "first_free h (pp_slices q) ps = Ok r"
      "\<forall>pos. r = Some pos \<longrightarrow> pos \<in> set ps \<and> slice_is_free h (pp_slices q ! pos)" by blast
    show ?thesis
    proof (cases r)
      case None
      with ok Some r show ?thesis by (simp add: persistent_try_reserve_def Let_def)
    next
      case (Some pos)
      with r(2) have pos: "pos \<in> set ps" "slice_is_free h (pp_slices q ! pos)" by auto
      from sizes \<open>pp_sizes q ?eff = Some ps\<close> pos(1) padding_dvd [OF al, of n]
      have k: "pos < length (pp_slices q)" "need ?al (pp_slices q ! pos) = ?eff" unfolding sizes_ok_def by blast+
      let ?s = "pp_slices q ! pos"
      let ?s' = "?s\<lparr>sl_storage := (sl_storage ?s)\<lparr>sh_size := n, sh_offset := 0\<rparr>\<rparr>"
      let ?h = "clone_handle (sl_handle ?s) h"
      let ?q = "q\<lparr>pp_slices := (pp_slices q)[pos := ?s'], pp_largest_alloc := max (pp_largest_alloc q) n\<rparr>"
      have run: "persistent_try_reserve n q h g = Ok (Some (sl_handle ?s), ?q, ?h, g)"
        using Some r(1) \<open>pp_sizes q ?eff = Some ps\<close> by (simp add: persistent_try_reserve_def Let_def)
      have need: "need ?al ?s' = need ?al ?s" using k(2) by (simp add: need_def)
      let ?at = "\<lambda>k. (pp_base q)\<lparr>loc_slice := of_nat k\<rparr>"
      have p: "placed ?at (map Some (pp_slices q)) h" using slots by (simp add: slots_placed)
      have upd: "map Some ((pp_slices q)[pos := ?s']) = (map Some (pp_slices q))[pos := Some ?s']" by (simp add: map_update)
      have cell: "pos < length (map Some (pp_slices q))" "map Some (pp_slices q) ! pos = Some ?s" using k(1) by simp_all
      have "slots_ok (pp_base q) ((pp_slices q)[pos := ?s']) ?h"
        unfolding slots_placed upd by (rule placed_clone [OF placed_same [OF p cell]]) simp
      moreover have "list_all (slice_sane ?al) ((pp_slices q)[pos := ?s'])"
        using sn k(1) by (auto simp: list_all_length nth_list_update slice_sane_def)
      ultimately have "persistent_ok ?q ?h"
        using al sizes_update [OF sizes k(1) need] by (simp add: persistent_ok_def)
      moreover have "map (need_buffer ?al) ((pp_slices q)[pos := ?s']) = map (need_buffer ?al) (pp_slices q)"
        using k(1) need by (simp add: map_update list_update_same_conv need_buffer_def)
      moreover have "one_more n (sl_handle ?s) (in_use h (pp_slices q)) (in_use ?h (pp_slices ?q))"
        using hand_out [OF p cell pos(2), of ?s' n] by (simp flip: upd)
      ultimately show ?thesis using run
        by (intro exI [of _ "Some (sl_handle ?s)"] exI [of _ ?q] exI [of _ ?h]) simp
    qed
  qed
qed

section \<open>Cleaning up\<close>

lemma drop_waiting:
  assumes "slots_ok base kept h" "waiting base (s # ss) kept h"
  defines "h' \<equiv> drop_handle (sl_handle s) h"
  shows "slots_ok base kept h' \<and> waiting base ss kept h'
    \<and> (\<forall>t \<in> set ss. slice_is_free h' t = slice_is_free h t)"
proof -
  from assms(2) have s: "sl_handle s \<notin> sl_handle ` set kept" "sl_handle s \<notin> sl_handle ` set ss"
    by (auto simp: waiting_def)
  have frame: "i \<in> dom (descs h') \<and> location h' i = location h i" if "i \<noteq> sl_handle s" "i \<in> dom (descs h)" for i
    using that by (simp add: h'_def heap_simps del: domIff)
  have hok: "heap_ok h'" unfolding h'_def by (intro heap_ok_ops slots_ok_heap [OF assms(1)])
  have "slots_ok base kept h'" by (rule slots_ok_frame [OF assms(1) hok]) (use frame s(1) in metis)
  moreover have "waiting base ss kept h"  using assms(2) by (auto simp: waiting_def)
  then have "waiting base ss kept h'"
  proof (rule waiting_frame)
    show "sl_handle ` set ss \<inter> sl_handle ` set kept = {}" using waiting_disjoint [OF assms(2)] by auto
  qed (use frame s(2) in metis)
  moreover have "slice_is_free h' t = slice_is_free h t" if "t \<in> set ss" for t
  proof -
    have "sl_handle t \<noteq> sl_handle s" using s(2) that by (metis imageI)
    then show ?thesis by (simp add: h'_def slice_is_free_def is_free_def heap_simps)
  qed
  ultimately show ?thesis by blast
qed

context compute_storage
begin

lemma persistent_loop_shown:
  assumes "slots_ok base kept h" "waiting base ss kept h" "0 < al" "list_all (slice_sane al) (kept @ ss)"
    "sizes_ok al kept sizes" "sane st" "owned ids held (map (need_buffer al) (kept @ ss)) st"
    "persistent_loop ops ss kept sizes h g st = (kept', sizes', h', g', st')"
  shows "slots_ok base kept' h' \<and> sizes_ok al kept' sizes' \<and> sane st' \<and> owned ids held (map (need_buffer al) kept') st'
    \<and> kept' = kept @ in_use h ss"
  using assms
proof (induction ss arbitrary: kept sizes h g st)
  case Nil
  then show ?case by (simp add: in_use_def)
next
  case (Cons s ss)
  show ?case
  proof (cases "slice_is_free h s")
    case True
    let ?h = "drop_handle (sl_handle s) h"
    let ?st = "if sl_mapped s then so_dealloc ops (sh_id (sl_storage s)) st else st"
    note d = drop_waiting [OF Cons.prems(1,2)]
    have "owned ids held (map (need_buffer al) (kept @ ss)) ?st"
      using owned_release [OF Cons.prems(6), of "map (need_buffer al) kept" "sh_id (sl_storage s)" "sl_mapped s" "need al s"
          "map (need_buffer al) ss"] Cons.prems(7) by (simp add: need_buffer_def [of al s])
    moreover have "sane ?st" using Cons.prems(6) dealloc_sane by simp
    moreover have "persistent_loop ops ss kept sizes ?h (snd (clear (sl_tainted s) g)) ?st = (kept', sizes', h', g', st')"
      using Cons.prems(8) True by (simp add: Let_def)
    moreover have "in_use h (s # ss) = in_use ?h ss"
      using in_use_free_cong [of ss ?h h] d True by (simp add: in_use_Cons)
    ultimately show ?thesis
      using d Cons.prems(3-5) by (simp only:) (rule Cons.IH [of _ _ sizes ?st]; simp)
  next
    case False
    let ?h = "update_slice (sl_handle s) (of_nat (length kept)) h"
    note p = place_slice [OF Cons.prems(1,2)]
    have "al dvd effective_size s \<longrightarrow> need al s = effective_size s"
      using padding_unique [OF Cons.prems(3), of "sl_padding s" "sh_size (sl_storage s)"] Cons.prems(4)
      by (simp add: need_def effective_size_def slice_sane_def)
    from sizes_push [OF Cons.prems(5) this]
    have "sizes_ok al (kept @ [s]) (push_size (effective_size s) (length kept) sizes)" .
    moreover have "persistent_loop ops ss (kept @ [s]) (push_size (effective_size s) (length kept) sizes) ?h g st
        = (kept', sizes', h', g', st')"
      using Cons.prems(8) False by (simp add: Let_def)
    moreover have "kept @ in_use h (s # ss) = (kept @ [s]) @ in_use ?h ss"
      using in_use_cong [of ss ?h h] p False by (simp add: in_use_Cons)
    ultimately show ?thesis
      using p Cons.prems(3,4,6,7)
      by (simp only:) (rule Cons.IH [of "kept @ [s]" _ "push_size (effective_size s) (length kept) sizes" st]; simp)
  qed
qed

lemma persistent_cleanup_served:
  assumes sv: "persistent_served ids held sane q h st"
    and c: "persistent_cleanup ops nr c q h g st = (q', h', g', st')"
  shows "persistent_served ids held sane q' h' st'"
proof (cases "c = Explicit")
  case False
  with assms show ?thesis by (auto simp: persistent_cleanup_def)
next
  case True
  obtain ss sizes st1 where l: "persistent_loop ops (pp_slices q) [] Map.empty h g st = (ss, sizes, h', g', st1)"
    "q' = q\<lparr>pp_sizes := sizes, pp_slices := ss\<rparr>" "st' = so_flush ops st1"
    using c True by (auto simp: persistent_cleanup_def split: prod.splits)
  have ok: "persistent_ok q h" "sane st" using sv by (simp_all add: persistent_served_def)
  have pre: "slots_ok (pp_base q) [] h" "waiting (pp_base q) (pp_slices q) [] h" "0 < pp_alignment q"
    "list_all (slice_sane (pp_alignment q)) ([] @ pp_slices q)" "sizes_ok (pp_alignment q) [] Map.empty"
    "owned ids held (map (need_buffer (pp_alignment q)) ([] @ pp_slices q)) st"
    using sv slots_ok_waiting by (auto simp: persistent_served_def persistent_ok_def slots_ok_def sizes_ok_def)
  from persistent_loop_shown [OF pre(1-5) ok(2) pre(6) l(1)]
  have r: "slots_ok (pp_base q) ss h'" "sizes_ok (pp_alignment q) ss sizes" "sane st1"
    "owned ids held (map (need_buffer (pp_alignment q)) ss) st1" "ss = in_use h (pp_slices q)"
    unfolding append_Nil by blast+
  have "list_all (slice_sane (pp_alignment q)) ss"
    using ok(1) by (auto simp: r(5) in_use_def persistent_ok_def list_all_iff)
  moreover have "owned ids held (map (need_buffer (pp_alignment q)) ss) st'"
    using r(4) flush_keeps [OF r(3)] by (simp add: l(3) owned_def)
  ultimately show ?thesis
    using r ok flush_keeps [OF r(3)] by (simp add: persistent_served_def persistent_ok_def l(2,3))
qed

lemma persistent_alloc_served:
  assumes sv: "persistent_served ids held sane q h st" and a: "persistent_alloc ops n m q h st = (r, st')" "r \<noteq> Panic"
  shows "case r of
      Ok (x, q', h') \<Rightarrow> m = Eager \<longrightarrow> persistent_served ids held sane q' h' st'
        \<and> one_more n x (in_use h (pp_slices q)) (in_use h' (pp_slices q'))
    | _ \<Rightarrow> persistent_served ids held sane q h st'"
proof -
  let ?al = "pp_alignment q"
  let ?eff = "n + calculate_padding n ?al"
  have ok: "persistent_ok q h" and sane: "sane st" and own: "owned ids held (map (need_buffer ?al) (pp_slices q)) st"
    using sv by (simp_all add: persistent_served_def)
  have al: "0 < ?al" and slots: "slots_ok (pp_base q) (pp_slices q) h"
    and sizes: "sizes_ok ?al (pp_slices q) (pp_sizes q)" and sn: "list_all (slice_sane ?al) (pp_slices q)"
    using ok by (simp_all add: persistent_ok_def)
  obtain r1 st1 where m: "mapped_handle ops m ?eff st = (r1, st1)" by (cases "mapped_handle ops m ?eff st")
  have np: "r1 \<noteq> Panic" using a m by (auto simp: persistent_alloc_def Let_def)
  note grown = mapped_handle_grows [OF sane m np own]
  show ?thesis
  proof (cases r1)
    case (Err e)
    with a m grown ok show ?thesis by (auto simp: persistent_alloc_def Let_def persistent_served_def)
  next
    case (Ok b)
    let ?s = "\<lparr>sl_storage = b\<lparr>sh_offset := 0, sh_size := n\<rparr>, sl_handle = next_id h,
      sl_padding = calculate_padding n ?al, sl_cursor = 0, sl_mapped = (m = Eager), sl_tainted = []\<rparr>"
    let ?k = "length (pp_slices q)"
    let ?at = "\<lambda>k. (pp_base q)\<lparr>loc_slice := of_nat k\<rparr>"
    let ?h = "clone_handle (next_id h) (update_location (next_id h) (?at ?k) (snd (handle_new h)))"
    let ?q = "q\<lparr>pp_slices := pp_slices q @ [?s], pp_sizes := push_size ?eff ?k (pp_sizes q),
      pp_pages_peak := max (pp_pages_peak q) (length (pp_slices q @ [?s])), pp_largest_alloc := max (pp_largest_alloc q) n\<rparr>"
    have r: "r = outcome.Ok (next_id h, ?q, ?h)" "st' = st1"
      using a m Ok by (auto simp: persistent_alloc_def Let_def slice_new_def handle_new_def)
    let ?cs = "map Some (pp_slices q) @ [None]"
    have p: "placed ?at ?cs h" using slots placed_snoc by (simp add: slots_placed)
    have cell: "?k < length ?cs" "?cs ! ?k = None" by (simp_all add: nth_append)
    have upd: "?cs[?k := Some ?s] = map Some (pp_slices q @ [?s])" by (simp add: list_update_append)
    have one: "one_more n (next_id h) (in_use h (pp_slices q)) (in_use ?h (pp_slices ?q))"
      using fresh_out [OF p cell, of ?s n] unfolding upd by simp
    have "persistent_served ids held sane ?q ?h st1" if e: "m = Eager"
    proof -
      have "slots_ok (pp_base q) (pp_slices q @ [?s]) ?h"
        unfolding slots_placed upd [symmetric] by (rule placed_fresh [OF p cell]) simp
      moreover have "sizes_ok ?al (pp_slices q @ [?s]) (push_size ?eff ?k (pp_sizes q))"
        by (rule sizes_push [OF sizes]) (simp add: need_def)
      moreover have "calculate_padding n ?al < ?al" using al by (simp add: calculate_padding_def Let_def)
      then have "list_all (slice_sane ?al) (pp_slices q @ [?s])" using sn e by (simp add: slice_sane_def)
      ultimately have "persistent_ok ?q ?h" using al by (simp add: persistent_ok_def)
      moreover have "owned ids held (map (need_buffer ?al) (pp_slices q @ [?s])) st1"
        using owned_insert [of "map (need_buffer ?al) (pp_slices q)" "[]" st1 "sh_id b" "m = Eager" ?eff] grown Ok e
        by (simp add: need_buffer_def [of _ "\<lparr>sl_storage = _, sl_handle = _, sl_padding = _, sl_cursor = _, sl_mapped = _, sl_tainted = _\<rparr>"] need_def)
      ultimately show ?thesis using grown by (simp add: persistent_served_def)
    qed
    with one show ?thesis unfolding r by (simp only: outcome.case prod.case) blast
  qed (use np in simp)
qed

end

lemma persistent_bind_ok:
  fixes c :: nat
  assumes ok: "persistent_ok q h" and k: "k < length (pp_slices q)" "length (pp_slices q) \<le> 2 ^ 32"
    and new: "new \<in> dom (descs h)" "new \<notin> sl_handle ` set (pp_slices q)"
  shows "\<exists>q' h' g'. persistent_bind (sl_handle (pp_slices q ! k)) new c q h g = Ok (q', h', g') \<and> persistent_ok q' h'
    \<and> pp_alignment q' = pp_alignment q
    \<and> map (need_buffer (pp_alignment q)) (pp_slices q') = map (need_buffer (pp_alignment q)) (pp_slices q)"
proof -
  let ?s = "pp_slices q ! k"
  let ?s' = "?s\<lparr>sl_cursor := c, sl_tainted := [], sl_handle := new\<rparr>"
  let ?q = "q\<lparr>pp_slices := (pp_slices q)[k := ?s']\<rparr>"
  let ?h = "drop_handle (sl_handle ?s) (drop_handle (sl_handle ?s) (update_location new (location h (sl_handle ?s)) h))"
  let ?at = "\<lambda>k. (pp_base q)\<lparr>loc_slice := of_nat k\<rparr>"
  have slots: "slots_ok (pp_base q) (pp_slices q) h" using ok by (simp add: persistent_ok_def)
  note index = slot_index [OF slots k]
  have run: "\<exists>g'. persistent_bind (sl_handle ?s) new c q h g = Ok (?q, ?h, g')"
    using k(1) by (simp add: persistent_bind_def index Let_def get_opt_def slice_bind_def clear_def split: prod.splits)
  have p: "placed ?at (map Some (pp_slices q)) h" using slots by (simp add: slots_placed)
  have "placed ?at ((map Some (pp_slices q))[k := Some ?s']) ?h"
    using placed_bind [OF p, of k ?s ?s' new] k(1) new by simp
  then have "slots_ok (pp_base q) ((pp_slices q)[k := ?s']) ?h" by (simp add: slots_placed map_update)
  moreover have "list_all (slice_sane (pp_alignment q)) ((pp_slices q)[k := ?s'])"
    using ok k(1) by (auto simp: persistent_ok_def list_all_length nth_list_update slice_sane_def)
  moreover have "need (pp_alignment q) ?s' = need (pp_alignment q) ?s" by (simp add: need_def)
  then have "sizes_ok (pp_alignment q) ((pp_slices q)[k := ?s']) (pp_sizes q)"
    using ok sizes_update [OF _ k(1)] by (simp add: persistent_ok_def)
  ultimately have "persistent_ok ?q ?h" using ok by (simp add: persistent_ok_def)
  moreover have "map (need_buffer (pp_alignment q)) (pp_slices ?q) = map (need_buffer (pp_alignment q)) (pp_slices q)"
    using k(1) by (simp add: map_update list_update_same_conv need_buffer_def need_def)
  ultimately show ?thesis using run by auto
qed

lemma persistent_users:
  assumes "persistent_ok q h"
  shows "persistent_ok q (snd (handle_new h))" "persistent_ok q (clone_handle i h)"
    "\<not> is_free h i \<Longrightarrow> persistent_ok q (drop_handle i h)"
  using assms by (auto simp: persistent_ok_def slots_placed intro: placed_users)

context compute_storage
begin

lemma persistent_run_served: "persistent_run ops sane False q h g st \<Longrightarrow> persistent_served ids held sane q h st"
proof (induction rule: persistent_run.induct)
  case (new h st al mx pos g)
  then show ?case
    by (simp add: persistent_served_def persistent_ok_def persistent_new_def slots_ok_def sizes_ok_def owned_def)
next
  case (reserve q h g st n r q' h' g')
  then have "persistent_ok q h" by (simp add: persistent_served_def)
  from try_reserve_persistent [OF this, of n g] reserve.hyps(2) reserve.IH show ?case
    by (auto simp: persistent_served_def)
next
  case (alloc q h g st m n x q' h' st')
  from persistent_alloc_served [OF alloc.IH alloc.hyps(3)] alloc.hyps(2) show ?case by simp
next
  case (alloc_err q h g st n m e st')
  from persistent_alloc_served [OF alloc_err.IH alloc_err.hyps(2)] show ?case by simp
next
  case (cleanup q h g st nr c q' h' g' st')
  then show ?case using persistent_cleanup_served by blast
next
  case (backing q h g st i q' st')
  have "list_all (slice_sane (pp_alignment q)) (pp_slices q)" using backing.IH by (simp add: persistent_served_def persistent_ok_def)
  then have "q' = q \<and> st' = st"
    using backing.hyps(2) by (auto simp: persistent_materialize_def Let_def list_all_length slice_sane_def split: option.splits)
  with backing.IH show ?case by simp
next
  case (bind q h g st s i c q' h' g')
  from bind.hyps(2) obtain k where k: "k < length (pp_slices q)" "s = pp_slices q ! k" by (auto simp: in_set_conv_nth)
  have "persistent_ok q h" using bind.IH by (simp add: persistent_served_def)
  from persistent_bind_ok [OF this k(1) bind.hyps(3-5), of c g] bind.hyps(6) bind.IH k(2) show ?case
    by (auto simp: persistent_served_def)
qed (simp_all add: persistent_served_def persistent_users)

end

section \<open>What the pool promises, and what it does not\<close>

lemma persistent_found:
  assumes "persistent_ok q h" "length (pp_slices q) \<le> 2 ^ 32" "s \<in> set (pp_slices q)"
  shows "persistent_find (sl_handle s) q h = Ok s"
proof -
  from assms(3) obtain k where k: "k < length (pp_slices q)" "s = pp_slices q ! k" by (auto simp: in_set_conv_nth)
  have "slice_index h (sl_handle s) = k"
    unfolding k(2) using assms(1) slot_index [OF _ k(1) assms(2)] unfolding persistent_ok_def by blast
  with k show ?thesis by (simp add: persistent_find_def Let_def get_opt_def)
qed

interpretation persistent: memory_pool "\<lambda>q h st. persistent_ok q h" "\<lambda>q. length (pp_slices q) \<le> 2 ^ 32"
  "\<lambda>h q. in_use h (pp_slices q)" persistent_try_reserve persistent_find
proof
  fix q h n g assume "persistent_ok q h"
  from try_reserve_persistent [OF this, of n g]
  show "\<exists>r q' h' g'. persistent_try_reserve n q h g = Ok (r, q', h', g') \<and> persistent_ok q' h'
      \<and> (r = None \<longrightarrow> in_use h' (pp_slices q') = in_use h (pp_slices q))
      \<and> (\<forall>i. r = Some i \<longrightarrow> one_more n i (in_use h (pp_slices q)) (in_use h' (pp_slices q')))" by blast
qed (auto simp: persistent_found in_use_def)

text \<open>C28: While every allocation is eager the persistent pool stays inside its buffers: over any
  storage that keeps the \<open>ComputeStorage\<close> contract, in every run without lazy allocations each
  slice has a buffer of its own of exactly its size rounded up to the alignment, at offset zero,
  however often it was reused and whatever cleanups rebuilt, and every handle finds its slice.\<close>

theorem persistent_eager_in_bounds:
  assumes "compute_storage ops ids held sane" "persistent_run ops sane False q h g st"
  shows "distinct (map (\<lambda>s. sh_id (sl_storage s)) (pp_slices q))
    \<and> (\<forall>s \<in> set (pp_slices q). sh_offset (sl_storage s) = 0
        \<and> held st (sh_id (sl_storage s)) = Some (next_multiple_of (sh_size (sl_storage s)) (pp_alignment q))
        \<and> (length (pp_slices q) \<le> 2 ^ 32 \<longrightarrow> persistent_find (sl_handle s) q h = Ok s))"
proof -
  from compute_storage.persistent_run_served [OF assms] have ok: "persistent_ok q h"
    and own: "owned ids held (map (need_buffer (pp_alignment q)) (pp_slices q)) st" by (simp_all add: persistent_served_def)
  have ids: "map fst (map (need_buffer (pp_alignment q)) (pp_slices q)) = map (\<lambda>s. sh_id (sl_storage s)) (pp_slices q)"
    by (simp add: need_buffer_def)
  have "sh_offset (sl_storage s) = 0
        \<and> held st (sh_id (sl_storage s)) = Some (next_multiple_of (sh_size (sl_storage s)) (pp_alignment q))"
    if "s \<in> set (pp_slices q)" for s
    using that ok own
    by (auto simp: persistent_ok_def list_all_iff slice_sane_def owned_def need_buffer_def need_def
        simp flip: padding_next_multiple)
  moreover have "distinct (map (\<lambda>s. sh_id (sl_storage s)) (pp_slices q))" using own unfolding ids [symmetric] by (simp add: owned_def)
  ultimately show ?thesis using persistent_found [OF ok] by blast
qed


definition eager_alloc :: "(handle \<times> persistent_pool \<times> heap) io \<times> bytes_storage" where
  "eager_alloc = persistent_alloc bytes_ops 5 Eager (persistent_new 1024 4 0) heap_empty bytes_storage_default"

theorem persistent_eager_in_bounds_witness:
  "\<exists>x q h. fst eager_alloc = Ok (x, q, h) \<and> map (\<lambda>s. sh_size (sl_storage s)) (pp_slices q) = [5]
    \<and> bs_held (snd eager_alloc) 0 = Some 8"
proof -
  have r0: "persistent_run bytes_ops bs_sane False (persistent_new 1024 4 0) heap_empty graph_default bytes_storage_default"
    by (rule persistent_run.new) (simp_all add: heap_ok_def heap_empty_def bs_sane_def bytes_storage_default_def)
  obtain x q h where a: "persistent_alloc bytes_ops 5 Eager (persistent_new 1024 4 0) heap_empty bytes_storage_default
      = (Ok (x, q, h), snd eager_alloc)" "map (\<lambda>s. (sh_id (sl_storage s), sh_size (sl_storage s))) (pp_slices q) = [(0, 5)]"
      "pp_alignment q = 4"
    by (simp add: eager_alloc_def persistent_alloc_def persistent_new_def mapped_handle_def bytes_ops_def bs_alloc_def bs_mint_def
        next_grant_def bs_insert_def layout_fits_def bs_alignment_def bytes_storage_default_def Let_def slice_new_def
        handle_new_def calculate_padding_def)
  have "persistent_run bytes_ops bs_sane False q h graph_default (snd eager_alloc)"
    by (rule persistent_run.alloc [OF r0 _ a(1)]) simp
  from persistent_eager_in_bounds [OF host.compute_storage_axioms this] a(2,3)
  have "bs_held (snd eager_alloc) 0 = Some 8" by (auto simp: next_multiple_of_def)
  moreover have "fst eager_alloc = Ok (x, q, h)" unfolding eager_alloc_def using a(1) by (metis fst_conv)
  moreover have "map (\<lambda>s. sh_size (sl_storage s)) (pp_slices q) = [5]" using a(2) by auto
  ultimately show ?thesis by (intro exI [of _ x] exI [of _ q] exI [of _ h]) simp
qed

end
