(* ===== verification/Exclusive_Pool.thy ===== *)
theory Exclusive_Pool
  imports Owned_Slices
begin

text \<open>
  The pool with one slice per page (\<open>memory_pool/exclusive_pool.rs\<close>) and the buckets of such pools
  (\<open>dynamic/exclusive.rs\<close>).

  The size of a fresh page follows a running average the code keeps as an \<open>f64\<close>. The model takes
  the arithmetic on it as a parameter (\<open>average\<close>): how the average starts, how a request moves it
  and how it is cast to bytes. Every theorem holds whatever these functions are, since the code
  takes the maximum with the request and rounds up to the alignment.
\<close>

section \<open>The pool\<close>

record 'f average =
  av_start :: "nat \<Rightarrow> 'f"
  av_decay :: "nat \<Rightarrow> 'f \<Rightarrow> 'f"
  av_bytes :: "'f \<Rightarrow> nat"

record exclusive_page =
  ep_slice :: slice
  ep_alloc_size :: nat
  ep_free_count :: nat

record 'f exclusive_pool =
  xp_pages :: "exclusive_page list"
  xp_alignment :: nat
  xp_dealloc_period :: nat
  xp_last_dealloc_check :: nat
  xp_max_alloc_size :: nat
  xp_cur_avg_size :: 'f
  xp_base :: memory_location
  xp_pages_peak :: nat
  xp_largest_alloc :: nat

record exclusive_layout =
  el_max_alloc_size :: nat
  el_alignment :: nat
  el_dealloc_period :: nat
  el_pool :: "8 word"

definition alloc_after_free :: nat where
  "alloc_after_free = 5"

definition exclusive_new :: "'f average \<Rightarrow> exclusive_layout \<Rightarrow> 'f exclusive_pool io" where
  "exclusive_new av layout =
    (if el_alignment layout = 0 then Panic
     else if el_max_alloc_size layout mod el_alignment layout \<noteq> 0 then Panic
     else Ok \<lparr>xp_pages = [], xp_alignment = el_alignment layout, xp_dealloc_period = el_dealloc_period layout,
            xp_last_dealloc_check = 0, xp_max_alloc_size = el_max_alloc_size layout,
            xp_cur_avg_size = av_start av (el_max_alloc_size layout),
            xp_base = location_new (el_pool layout) 0 0, xp_pages_peak = 0, xp_largest_alloc = 0\<rparr>)"

definition exclusive_usage :: "heap \<Rightarrow> 'f exclusive_pool \<Rightarrow> memory_usage" where
  "exclusive_usage h q =
    (let used = filter (\<lambda>p. \<not> slice_is_free h (ep_slice p)) (xp_pages q) in
     \<lparr>number_allocs = length used,
      bytes_in_use = sum_list (map (\<lambda>p. sh_size (sl_storage (ep_slice p))) used),
      bytes_padding = sum_list (map (\<lambda>p. sl_padding (ep_slice p)) used),
      bytes_reserved = sum_list (map ep_alloc_size (xp_pages q))\<rparr>)"

definition exclusive_report :: "heap \<Rightarrow> 'f exclusive_pool \<Rightarrow> pool_report" where
  "exclusive_report h q =
    \<lparr>rp_kind = Exclusive (xp_max_alloc_size q), rp_usage = exclusive_usage h q, rp_pages = length (xp_pages q),
     rp_pages_peak = xp_pages_peak q, rp_pages_unmapped = 0, rp_largest_alloc = xp_largest_alloc q\<rparr>"

text \<open>\<open>Iterator::min_by_key\<close>: the first of the least.\<close>

fun min_by_key :: "('a \<Rightarrow> nat) \<Rightarrow> 'a list \<Rightarrow> 'a option" where
  "min_by_key f [] = None"
| "min_by_key f (x # xs) =
    (case min_by_key f xs of None \<Rightarrow> Some x | Some y \<Rightarrow> if f y < f x then Some y else Some x)"

text \<open>\<open>get_free_page\<close>, as the index of the page.\<close>

definition get_free_page :: "nat \<Rightarrow> exclusive_page list \<Rightarrow> heap \<Rightarrow> nat option" where
  "get_free_page n pages h =
    min_by_key (\<lambda>k. ep_free_count (pages ! k))
      (filter (\<lambda>k. n \<le> ep_alloc_size (pages ! k) \<and> slice_is_free h (ep_slice (pages ! k))) [0..<length pages])"

definition exclusive_accept :: "'f exclusive_pool \<Rightarrow> nat \<Rightarrow> bool" where
  "exclusive_accept q n \<longleftrightarrow> n \<le> xp_max_alloc_size q"

definition use_slice :: "nat \<Rightarrow> nat \<Rightarrow> slice \<Rightarrow> slice" where
  "use_slice n padding s = s\<lparr>sl_storage := (sl_storage s)\<lparr>sh_offset := 0, sh_size := n\<rparr>, sl_padding := padding\<rparr>"

definition exclusive_try_reserve ::
  "'f average \<Rightarrow> nat \<Rightarrow> 'f exclusive_pool \<Rightarrow> heap \<Rightarrow> error_graph
    \<Rightarrow> (handle option \<times> 'f exclusive_pool \<times> heap \<times> error_graph) io" where
  "exclusive_try_reserve av n q h g =
    (let q = q\<lparr>xp_cur_avg_size := av_decay av n (xp_cur_avg_size q)\<rparr>;
         padding = calculate_padding n (xp_alignment q) in
     case get_free_page n (xp_pages q) h of
       None \<Rightarrow> Ok (None, q, h, g)
     | Some k \<Rightarrow>
         let p = xp_pages q ! k;
             p' = p\<lparr>ep_slice := use_slice n padding (ep_slice p), ep_free_count := ep_free_count p - 1\<rparr>;
             handle = sl_handle (ep_slice p)
         in Ok (Some handle,
             q\<lparr>xp_pages := (xp_pages q)[k := p'], xp_largest_alloc := max (xp_largest_alloc q) n\<rparr>,
             clone_handle handle h, g))"

definition exclusive_alloc_page ::
  "'f average \<Rightarrow> 'st storage_ops \<Rightarrow> nat \<Rightarrow> 'f exclusive_pool \<Rightarrow> heap \<Rightarrow> 'st \<Rightarrow> (nat \<times> 'f exclusive_pool \<times> heap) io \<times> 'st" where
  "exclusive_alloc_page av ops n q h st =
    (let alloc_size = next_multiple_of (max (av_bytes av (xp_cur_avg_size q)) n) (xp_alignment q) in
     case so_alloc ops alloc_size st of
       (Ok b, st) \<Rightarrow>
         let padding = calculate_padding n (xp_alignment q);
             (s, h) = slice_new b padding h;
             p = \<lparr>ep_slice = use_slice n padding s, ep_alloc_size = alloc_size, ep_free_count = alloc_after_free - 1\<rparr>;
             pages = xp_pages q @ [p]
         in (Ok (length pages - 1, q\<lparr>xp_pages := pages, xp_pages_peak := max (xp_pages_peak q) (length pages)\<rparr>, h), st)
     | (Err e, st) \<Rightarrow> (Err e, st)
     | (Panic, st) \<Rightarrow> (Panic, st))"

definition exclusive_alloc ::
  "'f average \<Rightarrow> 'st storage_ops \<Rightarrow> nat \<Rightarrow> 'f exclusive_pool \<Rightarrow> heap \<Rightarrow> 'st \<Rightarrow> (handle \<times> 'f exclusive_pool \<times> heap) io \<times> 'st" where
  "exclusive_alloc av ops n q h st =
    (if xp_max_alloc_size q < n then (Err (BufferTooBig n), st)
     else
       (case exclusive_alloc_page av ops n q h st of
          (r, st) \<Rightarrow>
            (try_then r (\<lambda>(idx, q, h).
               let handle = sl_handle (ep_slice (xp_pages q ! idx));
                   h = clone_handle handle h;
                   h = update_location handle ((xp_base q)\<lparr>loc_page := of_nat idx\<rparr>) h
               in Ok (handle, q\<lparr>xp_largest_alloc := max (xp_largest_alloc q) n\<rparr>, h)), st)))"

definition exclusive_guard :: "memory_location \<Rightarrow> 'f exclusive_pool \<Rightarrow> heap \<Rightarrow> (handle \<times> heap) option" where
  "exclusive_guard l q h =
    (case get_opt (xp_pages q) (unat (loc_page l)) of
       None \<Rightarrow> None
     | Some p \<Rightarrow>
         Some (sl_handle (ep_slice p), binding (sl_handle (ep_slice p)) (clone_handle (sl_handle (ep_slice p)) h)))"

text \<open>\<open>cleanup\<close>: the loop over the drained pages, with the pages kept so far.\<close>

fun exclusive_loop ::
  "'st storage_ops \<Rightarrow> cleanup_kind \<Rightarrow> exclusive_page list \<Rightarrow> exclusive_page list \<Rightarrow> heap \<Rightarrow> error_graph \<Rightarrow> 'st
    \<Rightarrow> exclusive_page list \<times> heap \<times> error_graph \<times> 'st" where
  "exclusive_loop ops c [] tmp h g st = (tmp, h, g, st)"
| "exclusive_loop ops c (p # ps) tmp h g st =
    (let free = slice_is_free h (ep_slice p);
         p = (if free then p\<lparr>ep_free_count := ep_free_count p + 1\<rparr> else p) in
     if free \<and> (alloc_after_free \<le> ep_free_count p \<or> c = Explicit) then
       let g = snd (clear (sl_tainted (ep_slice p)) g);
           st = so_dealloc ops (sh_id (sl_storage (ep_slice p))) st;
           h = drop_handle (sl_handle (ep_slice p)) h
       in exclusive_loop ops c ps tmp h g st
     else
       let h = update_page (sl_handle (ep_slice p)) (of_nat (length tmp)) h
       in exclusive_loop ops c ps (tmp @ [p]) h g st)"

text \<open>The subtraction of the allocation numbers is evaluated for a periodic cleanup only.\<close>

definition exclusive_cleanup ::
  "'st storage_ops \<Rightarrow> nat \<Rightarrow> cleanup_kind \<Rightarrow> 'f exclusive_pool \<Rightarrow> heap \<Rightarrow> error_graph \<Rightarrow> 'st
    \<Rightarrow> ('f exclusive_pool \<times> heap \<times> error_graph \<times> 'st) io" where
  "exclusive_cleanup ops alloc_nr c q h g st =
    (let check_period = xp_dealloc_period q div alloc_after_free in
     if c \<noteq> Explicit \<and> alloc_nr < xp_last_dealloc_check q then Panic
     else if c = Explicit \<or> check_period \<le> alloc_nr - xp_last_dealloc_check q then
       (case exclusive_loop ops c (xp_pages q) [] h g st of
          (pages, h, g, st) \<Rightarrow> Ok (q\<lparr>xp_last_dealloc_check := alloc_nr, xp_pages := pages\<rparr>, h, g, st))
     else Ok (q, h, g, st))"

definition exclusive_bind ::
  "handle \<Rightarrow> handle \<Rightarrow> nat \<Rightarrow> 'f exclusive_pool \<Rightarrow> heap \<Rightarrow> error_graph \<Rightarrow> ('f exclusive_pool \<times> heap \<times> error_graph) io" where
  "exclusive_bind old new c q h g =
    (let index = page_index h old in
     case get_opt (xp_pages q) index of
       None \<Rightarrow> Panic
     | Some p \<Rightarrow>
         let h = update_location new (location h old) h;
             (s, h, g) = slice_bind new (ep_slice p) h g
         in Ok (q\<lparr>xp_pages := (xp_pages q)[index := p\<lparr>ep_slice := s\<lparr>sl_cursor := c\<rparr>\<rparr>]\<rparr>, drop_handle old h, g))"

definition exclusive_find :: "handle \<Rightarrow> 'f exclusive_pool \<Rightarrow> heap \<Rightarrow> slice io" where
  "exclusive_find i q h =
    (let index = page_index h i in
     case get_opt (xp_pages q) index of
       None \<Rightarrow> Err (NotFound (PageMissing index))
     | Some p \<Rightarrow> Ok (ep_slice p))"

section \<open>Buckets\<close>

text \<open>\<open>ExclusivePools\<close>: pools of growing maximum size.\<close>

type_synonym 'f buckets = "'f exclusive_pool list"

text \<open>The first pool that accepts the size and has a page free.\<close>

fun buckets_try_reserve ::
  "'f average \<Rightarrow> nat \<Rightarrow> 'f buckets \<Rightarrow> heap \<Rightarrow> error_graph \<Rightarrow> (handle option \<times> 'f buckets \<times> heap \<times> error_graph) io" where
  "buckets_try_reserve av n [] h g = Ok (None, [], h, g)"
| "buckets_try_reserve av n (q # qs) h g =
    (if \<not> exclusive_accept q n then
       try_then (buckets_try_reserve av n qs h g) (\<lambda>(r, qs, h, g). Ok (r, q # qs, h, g))
     else
       try_then (exclusive_try_reserve av n q h g) (\<lambda>(r, q, h, g).
         case r of
           Some x \<Rightarrow> Ok (Some x, q # qs, h, g)
         | None \<Rightarrow> try_then (buckets_try_reserve av n qs h g) (\<lambda>(r, qs, h, g). Ok (r, q # qs, h, g))))"

definition buckets_reserve ::
  "'f average \<Rightarrow> 'st storage_ops \<Rightarrow> nat \<Rightarrow> 'f buckets \<Rightarrow> heap \<Rightarrow> error_graph \<Rightarrow> 'st
    \<Rightarrow> handle io \<times> 'f buckets \<times> heap \<times> error_graph \<times> 'st" where
  "buckets_reserve av ops n qs h g st =
    (case buckets_try_reserve av n qs h g of
       Ok (Some x, qs, h, g) \<Rightarrow> (Ok x, qs, h, g, st)
     | Ok (None, qs, h, g) \<Rightarrow>
         (case position (\<lambda>q. exclusive_accept q n) qs of
            None \<Rightarrow> (Err (BufferTooBig n), qs, h, g, st)
          | Some k \<Rightarrow>
              (case exclusive_alloc av ops n (qs ! k) h st of
                 (Ok (x, q, h), st) \<Rightarrow> (Ok x, qs[k := q], h, g, st)
               | (Err e, st) \<Rightarrow> (Err e, qs, h, g, st)
               | (Panic, st) \<Rightarrow> (Panic, qs, h, g, st)))
     | Err e \<Rightarrow> (Err e, qs, h, g, st)
     | Panic \<Rightarrow> (Panic, qs, h, g, st))"

fun buckets_cleanup ::
  "'st storage_ops \<Rightarrow> nat \<Rightarrow> cleanup_kind \<Rightarrow> 'f buckets \<Rightarrow> heap \<Rightarrow> error_graph \<Rightarrow> 'st
    \<Rightarrow> ('f buckets \<times> heap \<times> error_graph \<times> 'st) io" where
  "buckets_cleanup ops alloc_nr c [] h g st = Ok ([], h, g, st)"
| "buckets_cleanup ops alloc_nr c (q # qs) h g st =
    try_then (exclusive_cleanup ops alloc_nr c q h g st) (\<lambda>(q, h, g, st).
      try_then (buckets_cleanup ops alloc_nr c qs h g st) (\<lambda>(qs, h, g, st). Ok (q # qs, h, g, st)))"

definition buckets_report :: "heap \<Rightarrow> 'f buckets \<Rightarrow> pool_report list" where
  "buckets_report h = map (exclusive_report h)"

definition buckets_pool :: "8 word \<Rightarrow> 'f buckets \<Rightarrow> 'f exclusive_pool option" where
  "buckets_pool index qs = get_opt qs (unat index)"

section \<open>The invariant\<close>

definition epage_ok :: "nat \<Rightarrow> exclusive_page \<Rightarrow> bool" where
  "epage_ok al p \<longleftrightarrow> al dvd ep_alloc_size p \<and> sh_offset (sl_storage (ep_slice p)) = 0
    \<and> sl_padding (ep_slice p) = calculate_padding (sh_size (sl_storage (ep_slice p))) al
    \<and> effective_size (ep_slice p) \<le> ep_alloc_size p \<and> ep_free_count p < alloc_after_free"

abbreviation eslices :: "exclusive_page list \<Rightarrow> slice list" where
  "eslices ps \<equiv> map ep_slice ps"

definition exclusive_ok :: "'f exclusive_pool \<Rightarrow> heap \<Rightarrow> bool" where
  "exclusive_ok q h \<longleftrightarrow> 0 < xp_alignment q \<and> list_all (epage_ok (xp_alignment q)) (xp_pages q)
    \<and> placed (\<lambda>k. (xp_base q)\<lparr>loc_page := of_nat k\<rparr>) (map Some (eslices (xp_pages q))) h"

definition ebuffer :: "exclusive_page \<Rightarrow> storage_id \<times> bool \<times> nat" where
  "ebuffer p = (sh_id (sl_storage (ep_slice p)), True, ep_alloc_size p)"

definition exclusive_served ::
  "('st \<Rightarrow> storage_id set) \<Rightarrow> ('st \<Rightarrow> storage_id \<rightharpoonup> nat) \<Rightarrow> ('st \<Rightarrow> bool) \<Rightarrow> 'f exclusive_pool \<Rightarrow> heap \<Rightarrow> 'st \<Rightarrow> bool" where
  "exclusive_served ids held sane q h st \<longleftrightarrow> exclusive_ok q h \<and> sane st \<and> owned ids held (map ebuffer (xp_pages q)) st"

lemma min_by_key_None: "min_by_key f xs = None \<longleftrightarrow> xs = []"
  by (cases xs) (auto split: option.splits)

lemma min_by_key_least: "min_by_key f xs = Some x \<Longrightarrow> x \<in> set xs \<and> (\<forall>y \<in> set xs. f x \<le> f y)"
proof (induction xs arbitrary: x)
  case (Cons z zs)
  show ?case
  proof (cases "min_by_key f zs")
    case None
    with Cons.prems show ?thesis by (simp add: min_by_key_None)
  next
    case (Some y)
    with Cons.IH [OF Some] Cons.prems show ?thesis by (auto split: if_splits intro: order_trans)
  qed
qed simp

lemma get_free_page_Some:
  assumes "get_free_page n pages h = Some k"
  shows "k < length pages \<and> n \<le> ep_alloc_size (pages ! k) \<and> slice_is_free h (ep_slice (pages ! k))
    \<and> (\<forall>j < length pages. n \<le> ep_alloc_size (pages ! j) \<longrightarrow> slice_is_free h (ep_slice (pages ! j)) \<longrightarrow>
        ep_free_count (pages ! k) \<le> ep_free_count (pages ! j))"
  using min_by_key_least [OF assms [unfolded get_free_page_def]] by auto

lemma get_free_page_None:
  "get_free_page n pages h = None \<longleftrightarrow> (\<forall>p \<in> set pages. n \<le> ep_alloc_size p \<longrightarrow> \<not> slice_is_free h (ep_slice p))"
  by (auto simp: get_free_page_def min_by_key_None filter_empty_conv all_set_conv_all_nth)

lemma use_slice_simps [simp]:
  "sl_handle (use_slice n pad s) = sl_handle s" "sh_size (sl_storage (use_slice n pad s)) = n"
  "sh_offset (sl_storage (use_slice n pad s)) = 0" "sl_padding (use_slice n pad s) = pad"
  "sh_id (sl_storage (use_slice n pad s)) = sh_id (sl_storage s)" "effective_size (use_slice n pad s) = n + pad"
  by (simp_all add: use_slice_def effective_size_def)

lemma try_reserve_exclusive:
  assumes ok: "exclusive_ok q h"
  shows "\<exists>r q' h'. exclusive_try_reserve av n q h g = Ok (r, q', h', g) \<and> exclusive_ok q' h'
    \<and> map ebuffer (xp_pages q') = map ebuffer (xp_pages q)
    \<and> (r = None \<longleftrightarrow> get_free_page n (xp_pages q) h = None)
    \<and> (r = None \<longrightarrow> in_use h' (eslices (xp_pages q')) = in_use h (eslices (xp_pages q)))
    \<and> (\<forall>i. r = Some i \<longrightarrow> one_more n i (in_use h (eslices (xp_pages q))) (in_use h' (eslices (xp_pages q'))))"
proof (cases "get_free_page n (xp_pages q) h")
  case None
  with ok show ?thesis by (simp add: exclusive_try_reserve_def Let_def exclusive_ok_def)
next
  case (Some k)
  let ?al = "xp_alignment q"
  let ?p = "xp_pages q ! k"
  let ?p' = "?p\<lparr>ep_slice := use_slice n (calculate_padding n ?al) (ep_slice ?p), ep_free_count := ep_free_count ?p - 1\<rparr>"
  let ?i = "sl_handle (ep_slice ?p)"
  let ?h = "clone_handle ?i h"
  let ?q = "q\<lparr>xp_cur_avg_size := av_decay av n (xp_cur_avg_size q), xp_pages := (xp_pages q)[k := ?p'],
    xp_largest_alloc := max (xp_largest_alloc q) n\<rparr>"
  from get_free_page_Some [OF Some] have k: "k < length (xp_pages q)" "n \<le> ep_alloc_size ?p" "slice_is_free h (ep_slice ?p)"
    by simp_all
  have al: "0 < ?al" and pages: "list_all (epage_ok ?al) (xp_pages q)"
    and p: "placed (\<lambda>k. (xp_base q)\<lparr>loc_page := of_nat k\<rparr>) (map Some (eslices (xp_pages q))) h"
    using ok by (simp_all add: exclusive_ok_def)
  have run: "exclusive_try_reserve av n q h g = Ok (Some ?i, ?q, ?h, g)"
    using Some by (simp add: exclusive_try_reserve_def Let_def)
  have cell: "k < length (map Some (eslices (xp_pages q)))" "map Some (eslices (xp_pages q)) ! k = Some (ep_slice ?p)"
    using k(1) by simp_all
  have upd: "map Some (eslices ((xp_pages q)[k := ?p'])) = (map Some (eslices (xp_pages q)))[k := Some (ep_slice ?p')]"
    by (simp add: map_update)
  have "epage_ok ?al ?p" using pages k(1) by (simp add: list_all_length)
  then have "epage_ok ?al ?p'" using padded_fits [OF al _ k(2)] by (auto simp: epage_ok_def)
  then have "list_all (epage_ok ?al) ((xp_pages q)[k := ?p'])"
    using pages k(1) by (simp add: list_all_length nth_list_update)
  moreover have "placed (\<lambda>k. (xp_base q)\<lparr>loc_page := of_nat k\<rparr>) (map Some (eslices ((xp_pages q)[k := ?p']))) ?h"
    unfolding upd by (rule placed_clone [OF placed_same [OF p cell]]) simp
  ultimately have "exclusive_ok ?q ?h" using al by (simp add: exclusive_ok_def)
  moreover have "map ebuffer (xp_pages ?q) = map ebuffer (xp_pages q)"
    using k(1) by (simp add: map_update list_update_same_conv ebuffer_def)
  moreover have "one_more n ?i (in_use h (eslices (xp_pages q))) (in_use ?h (eslices (xp_pages ?q)))"
    using hand_out [OF p cell k(3), of "ep_slice ?p'" n, unfolded upd [symmetric] somes_map_Some] by simp
  ultimately show ?thesis using run Some by (intro exI [of _ "Some ?i"] exI [of _ ?q] exI [of _ ?h]) simp
qed

section \<open>Cleaning up\<close>

text \<open>Pages still to be looked at: located somewhere in the pool, with handles of their own.\<close>

definition pending :: "memory_location \<Rightarrow> slice list \<Rightarrow> slice list \<Rightarrow> heap \<Rightarrow> bool" where
  "pending base ss kept h \<longleftrightarrow> distinct (map sl_handle (kept @ ss))
    \<and> (\<forall>s \<in> set ss. sl_handle s \<in> dom (descs h) \<and> (\<exists>m. location h (sl_handle s) = base\<lparr>loc_page := m\<rparr>))"

lemma pending_frame:
  assumes "pending base ss kept h"
    "\<And>s. s \<in> set ss \<Longrightarrow> sl_handle s \<in> dom (descs h') \<and> location h' (sl_handle s) = location h (sl_handle s)"
  shows "pending base ss kept h'"
  using assms by (simp add: pending_def)

lemma pending_head:
  assumes "pending base (s # ss) kept h"
  shows "sl_handle s \<notin> sl_handle ` set kept" "sl_handle s \<notin> sl_handle ` set ss" "sl_handle s \<in> dom (descs h)"
    "\<exists>m. location h (sl_handle s) = base\<lparr>loc_page := m\<rparr>" "pending base ss kept h"
  using assms by (auto simp: pending_def)

lemma place_page:
  assumes p: "placed (\<lambda>k. base\<lparr>loc_page := of_nat k\<rparr>) (map Some kept) h" and w: "pending base (s # ss) kept h"
    and s': "sl_handle s' = sl_handle s"
  defines "h' \<equiv> update_page (sl_handle s) (of_nat (length kept)) h"
  shows "placed (\<lambda>k. base\<lparr>loc_page := of_nat k\<rparr>) (map Some (kept @ [s'])) h' \<and> pending base ss (kept @ [s']) h'"
proof -
  note hd = pending_head [OF w]
  have hok: "heap_ok h'" unfolding h'_def by (intro heap_ok_ops placed_heap [OF p])
  have frame: "i \<in> dom (descs h') \<and> location h' i = location h i" if "i \<in> dom (descs h)" "i \<noteq> sl_handle s" for i
    using that by (simp add: h'_def heap_simps del: domIff)
  have "placed (\<lambda>k. base\<lparr>loc_page := of_nat k\<rparr>) (map Some kept @ [None]) h'"
    by (rule placed_snoc [OF placed_frame [OF p hok, unfolded somes_map_Some]]) (use frame hd(1) in metis)
  then have "placed (\<lambda>k. base\<lparr>loc_page := of_nat k\<rparr>) ((map Some kept @ [None])[length kept := Some s']) h'"
    using hd(1,3,4) by (intro placed_put) (auto simp: s' h'_def heap_simps list_update_append)
  moreover have "pending base ss kept h'"
  proof (rule pending_frame [OF hd(5)])
    fix t assume "t \<in> set ss"
    with hd(2,5) have "sl_handle t \<noteq> sl_handle s" "sl_handle t \<in> dom (descs h)"
      unfolding pending_def by (metis imageI, blast)
    then show "sl_handle t \<in> dom (descs h') \<and> location h' (sl_handle t) = location h (sl_handle t)" using frame by blast
  qed
  then have "pending base ss (kept @ [s']) h'" using hd(1,2) by (auto simp: pending_def s')
  ultimately show ?thesis by (simp add: list_update_append)
qed

lemma drop_page:
  assumes p: "placed at (map Some kept) h" and w: "pending base (s # ss) kept h"
  defines "h' \<equiv> drop_handle (sl_handle s) h"
  shows "placed at (map Some kept) h' \<and> pending base ss kept h' \<and> (\<forall>t \<in> set (kept @ ss). slice_is_free h' t = slice_is_free h t)"
proof -
  note hd = pending_head [OF w]
  have hok: "heap_ok h'" unfolding h'_def by (intro heap_ok_ops placed_heap [OF p])
  have frame: "i \<in> dom (descs h') \<and> location h' i = location h i \<and> strong_count h' i = strong_count h i"
    if "i \<in> dom (descs h)" "i \<noteq> sl_handle s" for i
    using that by (simp add: h'_def heap_simps del: domIff)
  have ne: "sl_handle t \<noteq> sl_handle s" if "t \<in> set (kept @ ss)" for t
    using that hd(1,2) by (metis (no_types) UnE imageI set_append)
  have "placed at (map Some kept) h'"
    by (rule placed_frame [OF p hok, unfolded somes_map_Some]) (use frame hd(1) in metis)
  moreover have "pending base ss kept h'"
    by (rule pending_frame [OF hd(5)]) (use frame ne hd(5) in \<open>auto simp: pending_def simp del: domIff\<close>)
  moreover have "slice_is_free h' t = slice_is_free h t" if "t \<in> set (kept @ ss)" for t
    using ne [OF that] by (simp add: h'_def slice_is_free_def is_free_def heap_simps)
  ultimately show ?thesis by blast
qed

text \<open>What a pass leaves: the pages in use as they are, a free page with its count one up, unless
  that makes it ready to go.\<close>

fun survivors :: "cleanup_kind \<Rightarrow> (slice \<Rightarrow> bool) \<Rightarrow> exclusive_page list \<Rightarrow> exclusive_page list" where
  "survivors c free [] = []"
| "survivors c free (p # ps) =
    (if \<not> free (ep_slice p) then p # survivors c free ps
     else if alloc_after_free \<le> Suc (ep_free_count p) \<or> c = Explicit then survivors c free ps
     else p\<lparr>ep_free_count := Suc (ep_free_count p)\<rparr> # survivors c free ps)"

lemma survivors_cong:
  "(\<And>p. p \<in> set ps \<Longrightarrow> f (ep_slice p) = f' (ep_slice p)) \<Longrightarrow> survivors c f ps = survivors c f' ps"
  by (induction ps) auto

lemma survivors_ok: "list_all (epage_ok al) ps \<Longrightarrow> list_all (epage_ok al) (survivors c f ps)"
  by (induction ps) (auto simp: epage_ok_def)

lemma survivors_slices: "set (eslices (survivors c f ps)) \<subseteq> set (eslices ps)"
  by (induction ps) auto

lemma survivors_used: "filter (\<lambda>s. \<not> f s) (eslices (survivors c f ps)) = filter (\<lambda>s. \<not> f s) (eslices ps)"
  by (induction ps) auto

lemma survivors_counts:
  "p \<in> set (survivors c f ps) \<Longrightarrow> f (ep_slice p) \<Longrightarrow>
    \<exists>p0 \<in> set ps. f (ep_slice p0) \<and> ep_free_count p = Suc (ep_free_count p0)"
  by (induction ps) (auto split: if_splits)

context compute_storage
begin

lemma exclusive_loop_shown:
  assumes "placed (\<lambda>k. base\<lparr>loc_page := of_nat k\<rparr>) (map Some (eslices tmp)) h" "pending base (eslices ps) (eslices tmp) h"
    "sane st" "owned ids held (map ebuffer (tmp @ ps)) st" "exclusive_loop ops c ps tmp h g st = (ps', h', g', st')"
  shows "ps' = tmp @ survivors c (slice_is_free h) ps
    \<and> placed (\<lambda>k. base\<lparr>loc_page := of_nat k\<rparr>) (map Some (eslices ps')) h'
    \<and> sane st' \<and> owned ids held (map ebuffer ps') st'
    \<and> (\<forall>s \<in> set (eslices ps'). slice_is_free h' s = slice_is_free h s)"
  using assms
proof (induction ps arbitrary: tmp h g st)
  case Nil
  then show ?case by simp
next
  case (Cons p ps)
  let ?s = "ep_slice p"
  have w: "pending base (?s # eslices ps) (eslices tmp) h" using Cons.prems(2) by simp
  have own: "owned ids held (map ebuffer tmp @ (sh_id (sl_storage ?s), True, ep_alloc_size p) # map ebuffer ps) st"
    using Cons.prems(4) by (simp add: ebuffer_def [of p])
  show ?case
  proof (cases "slice_is_free h ?s \<and> (alloc_after_free \<le> Suc (ep_free_count p) \<or> c = Explicit)")
    case True
    let ?h = "drop_handle (sl_handle ?s) h"
    let ?st = "so_dealloc ops (sh_id (sl_storage ?s)) st"
    note d = drop_page [OF Cons.prems(1) w]
    have run: "exclusive_loop ops c ps tmp ?h (snd (clear (sl_tainted ?s) g)) ?st = (ps', h', g', st')"
      using Cons.prems(5) True by (auto simp: Let_def)
    have own': "owned ids held (map ebuffer (tmp @ ps)) ?st" using owned_release [OF Cons.prems(3) own] by simp
    have ih: "ps' = tmp @ survivors c (slice_is_free ?h) ps
      \<and> placed (\<lambda>k. base\<lparr>loc_page := of_nat k\<rparr>) (map Some (eslices ps')) h'
      \<and> sane st' \<and> owned ids held (map ebuffer ps') st'
      \<and> (\<forall>s \<in> set (eslices ps'). slice_is_free h' s = slice_is_free ?h s)"
      by (rule Cons.IH [OF _ _ _ own' run]) (use d dealloc_sane [OF Cons.prems(3)] in simp_all)
    have "survivors c (slice_is_free ?h) ps = survivors c (slice_is_free h) ps"
      by (rule survivors_cong) (use d in simp)
    then have eq: "survivors c (slice_is_free ?h) ps = survivors c (slice_is_free h) (p # ps)" using True by auto
    have "slice_is_free ?h s = slice_is_free h s" if "s \<in> set (eslices ps')" for s
    proof -
      have "set (eslices ps') \<subseteq> set (eslices tmp @ eslices ps)"
        using ih survivors_slices [of c "slice_is_free ?h" ps] by auto
      with that d show ?thesis by blast
    qed
    with ih show ?thesis unfolding eq by blast
  next
    case False
    let ?p = "if slice_is_free h ?s then p\<lparr>ep_free_count := ep_free_count p + 1\<rparr> else p"
    let ?h = "update_page (sl_handle ?s) (of_nat (length tmp)) h"
    have sp: "ep_slice ?p = ?s" "ebuffer ?p = ebuffer p" by (simp_all add: ebuffer_def)
    have run: "exclusive_loop ops c ps (tmp @ [?p]) ?h g st = (ps', h', g', st')"
      using Cons.prems(5) False by (auto simp: Let_def)
    have same: "slice_is_free ?h s = slice_is_free h s" for s by (simp add: slice_is_free_def is_free_def heap_simps)
    note pl = place_page [OF Cons.prems(1) w refl, unfolded length_map]
    have ih: "ps' = (tmp @ [?p]) @ survivors c (slice_is_free ?h) ps
      \<and> placed (\<lambda>k. base\<lparr>loc_page := of_nat k\<rparr>) (map Some (eslices ps')) h'
      \<and> sane st' \<and> owned ids held (map ebuffer ps') st'
      \<and> (\<forall>s \<in> set (eslices ps'). slice_is_free h' s = slice_is_free ?h s)"
      by (rule Cons.IH [OF _ _ Cons.prems(3) _ run]) (use pl Cons.prems(4) sp in simp_all)
    have "slice_is_free ?h = slice_is_free h" by (rule ext) (rule same)
    then have "[?p] @ survivors c (slice_is_free ?h) ps = survivors c (slice_is_free h) (p # ps)"
      using False by simp
    then have "ps' = tmp @ survivors c (slice_is_free h) (p # ps)" using ih by (metis append.assoc)
    with ih same show ?thesis by blast
  qed
qed

lemma exclusive_cleanup_shown:
  assumes sv: "exclusive_served ids held sane q h st"
    and c: "exclusive_cleanup ops nr c q h g st = Ok (q', h', g', st')"
  shows "exclusive_served ids held sane q' h' st'
    \<and> in_use h' (eslices (xp_pages q')) = in_use h (eslices (xp_pages q))
    \<and> (c = Explicit \<or> xp_dealloc_period q div alloc_after_free \<le> nr - xp_last_dealloc_check q \<longrightarrow>
        xp_pages q' = survivors c (slice_is_free h) (xp_pages q) \<and> xp_last_dealloc_check q' = nr
        \<and> (\<forall>s \<in> set (eslices (xp_pages q')). slice_is_free h' s = slice_is_free h s))
    \<and> xp_dealloc_period q' = xp_dealloc_period q"
proof (cases "c = Explicit \<or> xp_dealloc_period q div alloc_after_free \<le> nr - xp_last_dealloc_check q")
  case False
  with assms show ?thesis by (auto simp: exclusive_cleanup_def Let_def split: if_splits)
next
  case True
  obtain ps where l: "exclusive_loop ops c (xp_pages q) [] h g st = (ps, h', g', st')"
    and q': "q' = q\<lparr>xp_last_dealloc_check := nr, xp_pages := ps\<rparr>"
    using c True by (auto simp: exclusive_cleanup_def Let_def split: if_splits prod.splits)
  have ok: "exclusive_ok q h" "sane st" "owned ids held (map ebuffer ([] @ xp_pages q)) st"
    using sv by (simp_all add: exclusive_served_def)
  let ?at = "\<lambda>k. (xp_base q)\<lparr>loc_page := of_nat k\<rparr>"
  have p: "placed ?at (map Some (eslices (xp_pages q))) h" using ok(1) by (simp add: exclusive_ok_def)
  have none: "placed ?at (map Some (eslices [])) h" using placed_heap [OF p] by (simp add: placed_def)
  have wait: "pending (xp_base q) (eslices (xp_pages q)) (eslices []) h"
    unfolding pending_def
  proof (intro conjI ballI)
    have "distinct (map sl_handle (eslices (xp_pages q)))" using p unfolding placed_def somes_map_Some by blast
    then show "distinct (map sl_handle (eslices [] @ eslices (xp_pages q)))" by simp
    fix s assume "s \<in> set (eslices (xp_pages q))"
    then obtain k where "k < length (map Some (eslices (xp_pages q)))" "map Some (eslices (xp_pages q)) ! k = Some s"
      by (auto simp: in_set_conv_nth)
    from placed_at [OF p this] show "sl_handle s \<in> dom (descs h)" "\<exists>m. location h (sl_handle s) = (xp_base q)\<lparr>loc_page := m\<rparr>"
      by blast+
  qed
  from exclusive_loop_shown [OF none wait ok(2,3) l] have
    r: "ps = survivors c (slice_is_free h) (xp_pages q)" "placed ?at (map Some (eslices ps)) h'" "sane st'"
    "owned ids held (map ebuffer ps) st'" "\<forall>s \<in> set (eslices ps). slice_is_free h' s = slice_is_free h s"
    unfolding append_Nil by blast+
  have "list_all (epage_ok (xp_alignment q)) ps"
    using ok(1) unfolding r(1) exclusive_ok_def by (blast intro: survivors_ok)
  then have "exclusive_served ids held sane q' h' st'"
    using r(2-4) ok(1) by (simp add: q' exclusive_served_def exclusive_ok_def)
  moreover have "in_use h' (eslices ps) = in_use h (eslices ps)"
    by (rule in_use_free_cong) (use r(5) in blast)
  then have "in_use h' (eslices ps) = in_use h (eslices (xp_pages q))"
    unfolding r(1) in_use_def by (simp only: survivors_used)
  moreover have "xp_pages q' = ps" "xp_last_dealloc_check q' = nr" "xp_dealloc_period q' = xp_dealloc_period q" by (simp_all add: q')
  ultimately show ?thesis using r(1,5) by auto
qed

end

section \<open>Allocating and binding\<close>

lemma alloc_exclusive:
  assumes ok: "exclusive_ok q h" and n: "n \<le> xp_max_alloc_size q"
    and b: "so_alloc ops (next_multiple_of (max (av_bytes av (xp_cur_avg_size q)) n) (xp_alignment q)) st = (Ok b, st')"
  shows "\<exists>q' h' p. exclusive_alloc av ops n q h st = (Ok (next_id h, q', h'), st') \<and> exclusive_ok q' h'
    \<and> xp_pages q' = xp_pages q @ [p]
    \<and> ebuffer p = (sh_id b, True, next_multiple_of (max (av_bytes av (xp_cur_avg_size q)) n) (xp_alignment q))
    \<and> one_more n (next_id h) (in_use h (eslices (xp_pages q))) (in_use h' (eslices (xp_pages q')))"
proof -
  let ?al = "xp_alignment q"
  let ?size = "next_multiple_of (max (av_bytes av (xp_cur_avg_size q)) n) ?al"
  let ?s = "use_slice n (calculate_padding n ?al) \<lparr>sl_storage = b, sl_handle = next_id h, sl_padding = calculate_padding n ?al,
    sl_cursor = 0, sl_mapped = True, sl_tainted = []\<rparr>"
  let ?p = "\<lparr>ep_slice = ?s, ep_alloc_size = ?size, ep_free_count = alloc_after_free - 1\<rparr>"
  let ?k = "length (xp_pages q)"
  let ?at = "\<lambda>k. (xp_base q)\<lparr>loc_page := of_nat k\<rparr>"
  let ?h1 = "clone_handle (next_id h) (update_location (next_id h) (?at ?k) (snd (handle_new h)))"
  let ?h = "update_location (next_id h) (?at ?k) (clone_handle (next_id h) (snd (handle_new h)))"
  let ?q = "q\<lparr>xp_pages := xp_pages q @ [?p], xp_pages_peak := max (xp_pages_peak q) (length (xp_pages q @ [?p])),
    xp_largest_alloc := max (xp_largest_alloc q) n\<rparr>"
  have al: "0 < ?al" and pages: "list_all (epage_ok ?al) (xp_pages q)"
    and p: "placed ?at (map Some (eslices (xp_pages q))) h" using ok by (simp_all add: exclusive_ok_def)
  have run: "exclusive_alloc av ops n q h st = (Ok (next_id h, ?q, ?h), st')"
    using n b by (simp add: exclusive_alloc_def exclusive_alloc_page_def Let_def slice_new_def handle_new_def nth_append)
  have comm: "?h = ?h1"
    by (simp add: handle_new_def update_location_def clone_handle_def modify_def)
  have fits: "n + calculate_padding n ?al \<le> ?size"
    by (rule padded_fits [OF al dvd_next_multiple_of [OF al]])
      (rule order_trans [OF _ next_multiple_of_ge], simp)
  have "epage_ok ?al ?p"
    using fits dvd_next_multiple_of [OF al] by (simp add: epage_ok_def alloc_after_free_def)
  then have "list_all (epage_ok ?al) (xp_pages q @ [?p])" using pages by simp
  moreover have cell: "?k < length (map Some (eslices (xp_pages q)) @ [None])"
      "(map Some (eslices (xp_pages q)) @ [None]) ! ?k = None" by (simp_all add: nth_append)
  have upd: "(map Some (eslices (xp_pages q)) @ [None])[?k := Some ?s] = map Some (eslices (xp_pages q @ [?p]))"
    by (simp add: list_update_append)
  have "placed ?at (map Some (eslices (xp_pages q @ [?p]))) ?h"
    unfolding comm upd [symmetric] by (rule placed_fresh [OF placed_snoc [OF p] cell]) simp
  ultimately have "exclusive_ok ?q ?h" using al by (simp add: exclusive_ok_def)
  moreover have "one_more n (next_id h) (in_use h (eslices (xp_pages q))) (in_use ?h (eslices (xp_pages q @ [?p])))"
    using fresh_out [OF placed_snoc [OF p] cell, of ?s n, unfolded upd] unfolding comm by (simp only: somes_append somes_map_Some) simp
  moreover have "ebuffer ?p = (sh_id b, True, ?size)" by (simp add: ebuffer_def)
  ultimately show ?thesis using run by (intro exI [of _ ?q] exI [of _ ?h] exI [of _ ?p]) simp
qed

lemma bind_exclusive:
  fixes c :: nat
  assumes ok: "exclusive_ok q h" and k: "k < length (xp_pages q)" "length (xp_pages q) \<le> 2 ^ 16"
    and new: "new \<in> dom (descs h)" "new \<notin> sl_handle ` set (eslices (xp_pages q))"
  shows "\<exists>q' h' g'. exclusive_bind (sl_handle (ep_slice (xp_pages q ! k))) new c q h g = Ok (q', h', g') \<and> exclusive_ok q' h'
    \<and> map ebuffer (xp_pages q') = map ebuffer (xp_pages q)"
proof -
  let ?p = "xp_pages q ! k"
  let ?i = "sl_handle (ep_slice ?p)"
  let ?at = "\<lambda>k. (xp_base q)\<lparr>loc_page := of_nat k\<rparr>"
  let ?s' = "(ep_slice ?p)\<lparr>sl_tainted := [], sl_handle := new, sl_cursor := c\<rparr>"
  let ?q = "q\<lparr>xp_pages := (xp_pages q)[k := ?p\<lparr>ep_slice := ?s'\<rparr>]\<rparr>"
  let ?h = "drop_handle ?i (drop_handle ?i (update_location new (location h ?i) h))"
  have p: "placed ?at (map Some (eslices (xp_pages q))) h" using ok by (simp add: exclusive_ok_def)
  have cell: "k < length (map Some (eslices (xp_pages q)))" "map Some (eslices (xp_pages q)) ! k = Some (ep_slice ?p)"
    using k(1) by simp_all
  have "k < 2 ^ 16" using k by linarith
  then have index: "page_index h ?i = k"
    using placed_at [OF p cell] by (simp add: page_index_def unat_of_nat take_bit_nat_eq_self)
  have run: "\<exists>g'. exclusive_bind ?i new c q h g = Ok (?q, ?h, g')"
    using k(1) by (simp add: exclusive_bind_def index Let_def get_opt_def slice_bind_def clear_def split: prod.splits)
  have "placed ?at ((map Some (eslices (xp_pages q)))[k := Some ?s']) ?h"
    using placed_bind [OF p cell, of ?s' new, unfolded somes_map_Some] new by simp
  then have "placed ?at (map Some (eslices (xp_pages ?q))) ?h" by (simp add: map_update)
  moreover have "list_all (epage_ok (xp_alignment q)) (xp_pages ?q)"
    using ok k(1) by (auto simp: exclusive_ok_def list_all_length nth_list_update epage_ok_def effective_size_def)
  ultimately have "exclusive_ok ?q ?h" using ok by (simp add: exclusive_ok_def)
  moreover have "map ebuffer (xp_pages ?q) = map ebuffer (xp_pages q)"
    using k(1) by (simp add: map_update list_update_same_conv ebuffer_def)
  ultimately show ?thesis using run by blast
qed

section \<open>Runs\<close>

inductive exclusive_run ::
  "'f average \<Rightarrow> 'st storage_ops \<Rightarrow> ('st \<Rightarrow> bool) \<Rightarrow> 'f exclusive_pool \<Rightarrow> heap \<Rightarrow> error_graph \<Rightarrow> 'st \<Rightarrow> bool"
  for av ops sane where
  new: "heap_ok h \<Longrightarrow> sane st \<Longrightarrow> exclusive_new av layout = Ok q \<Longrightarrow> exclusive_run av ops sane q h g st"
| reserve: "exclusive_run av ops sane q h g st \<Longrightarrow> exclusive_try_reserve av n q h g = Ok (r, q', h', g') \<Longrightarrow>
    exclusive_run av ops sane q' h' g' st"
| alloc: "exclusive_run av ops sane q h g st \<Longrightarrow> exclusive_alloc av ops n q h st = (Ok (x, q', h'), st') \<Longrightarrow>
    exclusive_run av ops sane q' h' g st'"
| alloc_err: "exclusive_run av ops sane q h g st \<Longrightarrow> exclusive_alloc av ops n q h st = (Err e, st') \<Longrightarrow>
    exclusive_run av ops sane q h g st'"
| cleanup: "exclusive_run av ops sane q h g st \<Longrightarrow> exclusive_cleanup ops nr c q h g st = Ok (q', h', g', st') \<Longrightarrow>
    exclusive_run av ops sane q' h' g' st'"
| bind: "exclusive_run av ops sane q h g st \<Longrightarrow> k < length (xp_pages q) \<Longrightarrow> length (xp_pages q) \<le> 2 ^ 16 \<Longrightarrow>
    i \<in> dom (descs h) \<Longrightarrow> i \<notin> sl_handle ` set (eslices (xp_pages q)) \<Longrightarrow>
    exclusive_bind (sl_handle (ep_slice (xp_pages q ! k))) i c q h g = Ok (q', h', g') \<Longrightarrow>
    exclusive_run av ops sane q' h' g' st"
| other_alloc: "exclusive_run av ops sane q h g st \<Longrightarrow> so_alloc ops n st = (r, st') \<Longrightarrow> r \<noteq> Panic \<Longrightarrow>
    exclusive_run av ops sane q h g st'"
| user_new: "exclusive_run av ops sane q h g st \<Longrightarrow> exclusive_run av ops sane q (snd (handle_new h)) g st"
| user_clone: "exclusive_run av ops sane q h g st \<Longrightarrow> exclusive_run av ops sane q (clone_handle i h) g st"
| user_binding: "exclusive_run av ops sane q h g st \<Longrightarrow> exclusive_run av ops sane q (binding i h) g st"
| user_drop: "exclusive_run av ops sane q h g st \<Longrightarrow> \<not> is_free h i \<Longrightarrow> exclusive_run av ops sane q (drop_handle i h) g st"
| user_drop_binding: "exclusive_run av ops sane q h g st \<Longrightarrow> \<not> is_free h i \<Longrightarrow> is_bound h i \<Longrightarrow>
    exclusive_run av ops sane q (drop_binding i h) g st"

lemma exclusive_users:
  assumes "exclusive_ok q h"
  shows "exclusive_ok q (snd (handle_new h))" "exclusive_ok q (clone_handle i h)" "exclusive_ok q (binding i h)"
    "\<not> is_free h i \<Longrightarrow> exclusive_ok q (drop_handle i h)" "\<not> is_free h i \<Longrightarrow> is_bound h i \<Longrightarrow> exclusive_ok q (drop_binding i h)"
  using assms by (auto simp: exclusive_ok_def intro: placed_users)

context compute_storage
begin

lemma alloc_exclusive_served:
  assumes sv: "exclusive_served ids held sane q h st" and a: "exclusive_alloc av ops n q h st = (r, st')" "r \<noteq> Panic"
  shows "case r of Ok (x, q', h') \<Rightarrow> exclusive_served ids held sane q' h' st'
        \<and> one_more n x (in_use h (eslices (xp_pages q))) (in_use h' (eslices (xp_pages q')))
    | _ \<Rightarrow> exclusive_served ids held sane q h st'"
proof (cases "n \<le> xp_max_alloc_size q")
  case False
  with a sv show ?thesis by (auto simp: exclusive_alloc_def)
next
  case True
  let ?size = "next_multiple_of (max (av_bytes av (xp_cur_avg_size q)) n) (xp_alignment q)"
  have ok: "exclusive_ok q h" and sane: "sane st" and own: "owned ids held (map ebuffer (xp_pages q)) st"
    using sv by (simp_all add: exclusive_served_def)
  obtain r1 st1 where b: "so_alloc ops ?size st = (r1, st1)" by (cases "so_alloc ops ?size st")
  have np: "r1 \<noteq> Panic" using a b True by (auto simp: exclusive_alloc_def exclusive_alloc_page_def Let_def)
  note grown = owned_alloc [OF sane own b np]
  show ?thesis
  proof (cases r1)
    case (Ok s)
    have b1: "so_alloc ops ?size st = (outcome.Ok s, st1)" using b Ok by simp
    note fresh = alloc_fresh [OF sane b1]
    from alloc_exclusive [OF ok True b1] a obtain q' h' p where
      q': "r = outcome.Ok (next_id h, q', h')" "st' = st1" "exclusive_ok q' h'" "xp_pages q' = xp_pages q @ [p]"
      "ebuffer p = (sh_id s, True, ?size)" "one_more n (next_id h) (in_use h (eslices (xp_pages q))) (in_use h' (eslices (xp_pages q')))"
      by auto
    have "sh_id s \<notin> fst ` set (map ebuffer (xp_pages q))" using own fresh by (auto simp: owned_def)
    with owned_insert [of "map ebuffer (xp_pages q)" "[]" st1 "sh_id s" True ?size] grown fresh q'(4,5)
    have "owned ids held (map ebuffer (xp_pages q')) st1" by simp
    with q' grown show ?thesis by (simp add: exclusive_served_def)
  next
    case (Err e)
    with a b True grown ok show ?thesis
      by (auto simp: exclusive_alloc_def exclusive_alloc_page_def Let_def exclusive_served_def)
  qed (use np in simp)
qed

lemma exclusive_run_served: "exclusive_run av ops sane q h g st \<Longrightarrow> exclusive_served ids held sane q h st"
proof (induction rule: exclusive_run.induct)
  case (new h st layout q g)
  then show ?case
    by (auto simp: exclusive_served_def exclusive_ok_def exclusive_new_def placed_def owned_def split: if_splits)
next
  case (reserve q h g st n r q' h' g')
  then have "exclusive_ok q h" by (simp add: exclusive_served_def)
  from try_reserve_exclusive [OF this, of av n g] reserve.hyps(2) reserve.IH show ?case by (auto simp: exclusive_served_def)
next
  case (alloc q h g st n x q' h' st')
  from alloc_exclusive_served [OF alloc.IH alloc.hyps(2)] show ?case by simp
next
  case (alloc_err q h g st n e st')
  from alloc_exclusive_served [OF alloc_err.IH alloc_err.hyps(2)] show ?case by simp
next
  case (cleanup q h g st nr c q' h' g' st')
  then show ?case using exclusive_cleanup_shown by blast
next
  case (bind q h g st k i c q' h' g')
  then have "exclusive_ok q h" by (simp add: exclusive_served_def)
  from bind_exclusive [OF this bind.hyps(2-5), of c g] bind.hyps(6) bind.IH show ?case by (auto simp: exclusive_served_def)
next
  case (other_alloc q h g st n r st')
  then show ?case using owned_alloc [of st "map ebuffer (xp_pages q)" n r st'] by (simp add: exclusive_served_def)
qed (simp_all add: exclusive_served_def exclusive_users)

end

section \<open>What the pool promises\<close>

lemma exclusive_found:
  assumes ok: "exclusive_ok q h" and len: "length (xp_pages q) \<le> 2 ^ 16" and s: "s \<in> set (eslices (xp_pages q))"
  shows "exclusive_find (sl_handle s) q h = Ok s"
proof -
  from s obtain k where k: "k < length (xp_pages q)" "s = ep_slice (xp_pages q ! k)" by (auto simp: in_set_conv_nth)
  have p: "placed (\<lambda>k. (xp_base q)\<lparr>loc_page := of_nat k\<rparr>) (map Some (eslices (xp_pages q))) h"
    using ok by (simp add: exclusive_ok_def)
  have "location h (sl_handle s) = (xp_base q)\<lparr>loc_page := of_nat k\<rparr>" using placed_at [OF p, of k s] k by simp
  moreover have "k < 2 ^ 16" using k(1) len by linarith
  ultimately have "page_index h (sl_handle s) = k" by (simp add: page_index_def unat_of_nat take_bit_nat_eq_self)
  with k show ?thesis by (simp add: exclusive_find_def Let_def get_opt_def)
qed

interpretation exclusive: memory_pool "\<lambda>q h st. exclusive_ok q h" "\<lambda>q. length (xp_pages q) \<le> 2 ^ 16"
  "\<lambda>h q. in_use h (eslices (xp_pages q))" "exclusive_try_reserve av" exclusive_find
  for av :: "'f average"
proof
  fix q :: "'f exclusive_pool" and h n g assume "exclusive_ok q h"
  from try_reserve_exclusive [OF this, of av n g]
  show "\<exists>r q' h' g'. exclusive_try_reserve av n q h g = Ok (r, q', h', g') \<and> exclusive_ok q' h'
      \<and> (r = None \<longrightarrow> in_use h' (eslices (xp_pages q')) = in_use h (eslices (xp_pages q)))
      \<and> (\<forall>i. r = Some i \<longrightarrow> one_more n i (in_use h (eslices (xp_pages q))) (in_use h' (eslices (xp_pages q'))))" by blast
qed (auto simp: exclusive_found in_use_def)

text \<open>C25: An exclusive pool gives every allocation a page of its own that holds it: over any storage
  that keeps the \<open>ComputeStorage\<close> contract and whatever the running average does, in every run of
  reservations, allocations, cleanups and binds the pages have distinct buffers, each exactly as
  large as the page says and a multiple of the alignment, the slice with its padding fits the
  page, no page survives being seen free five times, and every handle finds its slice.\<close>

theorem exclusive_pool_safe:
  assumes "compute_storage ops ids held sane" "exclusive_run av ops sane q h g st"
  shows "distinct (map (\<lambda>p. sh_id (sl_storage (ep_slice p))) (xp_pages q))
    \<and> (\<forall>p \<in> set (xp_pages q). held st (sh_id (sl_storage (ep_slice p))) = Some (ep_alloc_size p)
        \<and> xp_alignment q dvd ep_alloc_size p \<and> sh_offset (sl_storage (ep_slice p)) = 0
        \<and> effective_size (ep_slice p) \<le> ep_alloc_size p \<and> ep_free_count p < alloc_after_free
        \<and> (length (xp_pages q) \<le> 2 ^ 16 \<longrightarrow> exclusive_find (sl_handle (ep_slice p)) q h = Ok (ep_slice p)))"
proof -
  from compute_storage.exclusive_run_served [OF assms] have ok: "exclusive_ok q h"
    and own: "owned ids held (map ebuffer (xp_pages q)) st" by (simp_all add: exclusive_served_def)
  have ids: "map fst (map ebuffer (xp_pages q)) = map (\<lambda>p. sh_id (sl_storage (ep_slice p))) (xp_pages q)"
    by (simp add: ebuffer_def)
  have "held st (sh_id (sl_storage (ep_slice p))) = Some (ep_alloc_size p)
        \<and> xp_alignment q dvd ep_alloc_size p \<and> sh_offset (sl_storage (ep_slice p)) = 0
        \<and> effective_size (ep_slice p) \<le> ep_alloc_size p \<and> ep_free_count p < alloc_after_free" if "p \<in> set (xp_pages q)" for p
    using that ok own by (auto simp: exclusive_ok_def list_all_iff epage_ok_def owned_def ebuffer_def)
  moreover have "distinct (map (\<lambda>p. sh_id (sl_storage (ep_slice p))) (xp_pages q))"
    using own unfolding ids [symmetric] by (simp add: owned_def)
  moreover have "exclusive_find (sl_handle (ep_slice p)) q h = Ok (ep_slice p)"
    if "length (xp_pages q) \<le> 2 ^ 16" "p \<in> set (xp_pages q)" for p
    by (rule exclusive_found [OF ok that(1)]) (use that(2) in simp)
  ultimately show ?thesis by blast
qed

text \<open>Periodic cleanups at the given allocation numbers, with nothing in between.\<close>

fun cleanups ::
  "'st storage_ops \<Rightarrow> nat list \<Rightarrow> 'f exclusive_pool \<Rightarrow> heap \<Rightarrow> error_graph \<Rightarrow> 'st
    \<Rightarrow> ('f exclusive_pool \<times> heap \<times> error_graph \<times> 'st) io" where
  "cleanups ops [] q h g st = Ok (q, h, g, st)"
| "cleanups ops (nr # nrs) q h g st =
    try_then (exclusive_cleanup ops nr Periodic q h g st) (\<lambda>(q, h, g, st). cleanups ops nrs q h g st)"

text \<open>Each at least the check period after the one before.\<close>

fun spaced :: "nat \<Rightarrow> nat \<Rightarrow> nat list \<Rightarrow> bool" where
  "spaced period prev [] = True"
| "spaced period prev (nr # nrs) \<longleftrightarrow> prev + period \<le> nr \<and> spaced period nr nrs"

definition idle_since :: "nat \<Rightarrow> heap \<Rightarrow> 'f exclusive_pool \<Rightarrow> bool" where
  "idle_since n h q \<longleftrightarrow> (\<forall>p \<in> set (xp_pages q). slice_is_free h (ep_slice p) \<longrightarrow> n \<le> ep_free_count p)"

context compute_storage
begin

lemma cleanups_shown:
  assumes "exclusive_served ids held sane q h st" "idle_since n h q"
    "spaced (xp_dealloc_period q div alloc_after_free) (xp_last_dealloc_check q) nrs"
  shows "\<exists>q' h' g' st'. cleanups ops nrs q h g st = Ok (q', h', g', st') \<and> exclusive_served ids held sane q' h' st'
    \<and> idle_since (n + length nrs) h' q' \<and> in_use h' (eslices (xp_pages q')) = in_use h (eslices (xp_pages q))"
  using assms
proof (induction nrs arbitrary: q h g st n)
  case Nil
  then show ?case by simp
next
  case (Cons nr nrs)
  let ?period = "xp_dealloc_period q div alloc_after_free"
  have due: "?period \<le> nr - xp_last_dealloc_check q" "\<not> nr < xp_last_dealloc_check q" using Cons.prems(3) by auto
  obtain q1 h1 g1 st1 where c: "exclusive_cleanup ops nr Periodic q h g st = Ok (q1, h1, g1, st1)"
    using due by (cases "exclusive_loop ops Periodic (xp_pages q) [] h g st") (simp add: exclusive_cleanup_def)
  from exclusive_cleanup_shown [OF Cons.prems(1) c] due have
    s: "exclusive_served ids held sane q1 h1 st1" "in_use h1 (eslices (xp_pages q1)) = in_use h (eslices (xp_pages q))"
    "xp_pages q1 = survivors Periodic (slice_is_free h) (xp_pages q)" "xp_last_dealloc_check q1 = nr"
    "\<forall>s \<in> set (eslices (xp_pages q1)). slice_is_free h1 s = slice_is_free h s" "xp_dealloc_period q1 = xp_dealloc_period q"
    by auto
  have "idle_since (Suc n) h1 q1"
    unfolding idle_since_def
  proof (intro ballI impI)
    fix p assume p: "p \<in> set (xp_pages q1)" "slice_is_free h1 (ep_slice p)"
    then have "slice_is_free h (ep_slice p)" using s(5) by auto
    from survivors_counts [OF p(1) [unfolded s(3)] this] Cons.prems(2) show "Suc n \<le> ep_free_count p"
      by (auto simp: idle_since_def)
  qed
  moreover have "spaced (xp_dealloc_period q1 div alloc_after_free) (xp_last_dealloc_check q1) nrs"
    using Cons.prems(3) s(4,6) by simp
  ultimately obtain q' h' g' st' where
    "cleanups ops nrs q1 h1 g1 st1 = Ok (q', h', g', st')" "exclusive_served ids held sane q' h' st'"
    "idle_since (Suc n + length nrs) h' q'" "in_use h' (eslices (xp_pages q')) = in_use h1 (eslices (xp_pages q1))"
    using Cons.IH [OF s(1), of "Suc n" g1] by blast
  with c s(2) show ?case by simp
qed

end


text \<open>The exclusive pool reuses the page that was least often seen free, not the smallest one
  that fits: when a reservation succeeds, the page given out fits and is free, and no free page
  that fits has a lower count; a smaller page that fits may be passed over.\<close>

theorem reserve_prefers_recently_used:
  assumes "exclusive_ok q h"
  shows "case exclusive_try_reserve av n q h g of
      Ok (Some i, q', h', g') \<Rightarrow>
        (\<exists>p \<in> set (xp_pages q). sl_handle (ep_slice p) = i \<and> n \<le> ep_alloc_size p \<and> slice_is_free h (ep_slice p)
          \<and> (\<forall>p' \<in> set (xp_pages q). n \<le> ep_alloc_size p' \<and> slice_is_free h (ep_slice p') \<longrightarrow>
              ep_free_count p \<le> ep_free_count p'))
    | Ok (None, q', h', g') \<Rightarrow> \<forall>p \<in> set (xp_pages q). n \<le> ep_alloc_size p \<longrightarrow> \<not> slice_is_free h (ep_slice p)
    | _ \<Rightarrow> False"
proof (cases "get_free_page n (xp_pages q) h")
  case None
  then show ?thesis using get_free_page_None [of n "xp_pages q" h] by (simp add: exclusive_try_reserve_def Let_def)
next
  case (Some k)
  from get_free_page_Some [OF Some] have "xp_pages q ! k \<in> set (xp_pages q)" "n \<le> ep_alloc_size (xp_pages q ! k)"
    "slice_is_free h (ep_slice (xp_pages q ! k))"
    "\<forall>p' \<in> set (xp_pages q). n \<le> ep_alloc_size p' \<and> slice_is_free h (ep_slice p') \<longrightarrow>
      ep_free_count (xp_pages q ! k) \<le> ep_free_count p'"
    by (simp_all add: all_set_conv_all_nth)
  with Some show ?thesis by (auto simp: exclusive_try_reserve_def Let_def)
qed

section \<open>A small pool over the host storage\<close>

definition flat_average :: "nat average" where
  "flat_average = \<lparr>av_start = \<lambda>n. n div 2, av_decay = \<lambda>n a. a, av_bytes = \<lambda>a. a\<rparr>"

definition lone_layout :: exclusive_layout where
  "lone_layout = \<lparr>el_max_alloc_size = 128, el_alignment = 32, el_dealloc_period = 50, el_pool = 1\<rparr>"

definition lone_new :: "nat exclusive_pool" where
  "lone_new = (case exclusive_new flat_average lone_layout of Ok q \<Rightarrow> q | _ \<Rightarrow> undefined)"

definition lone_alloc :: "(handle \<times> nat exclusive_pool \<times> heap) io \<times> bytes_storage" where
  "lone_alloc = exclusive_alloc flat_average bytes_ops 40 lone_new heap_empty bytes_storage_default"

definition lone_pool :: "nat exclusive_pool" where
  "lone_pool = (case fst lone_alloc of Ok (x, q, h) \<Rightarrow> q | _ \<Rightarrow> lone_new)"

definition lone_heap :: heap where
  "lone_heap = (case fst lone_alloc of Ok (x, q, h) \<Rightarrow> h | _ \<Rightarrow> heap_empty)"

lemma lone_new_eq: "exclusive_new flat_average lone_layout = Ok lone_new"
  by (simp add: lone_new_def exclusive_new_def lone_layout_def)

lemmas lone_defs = lone_alloc_def lone_pool_def lone_heap_def lone_new_def exclusive_new_def lone_layout_def flat_average_def
  exclusive_alloc_def exclusive_alloc_page_def bytes_ops_def bs_alloc_def bs_mint_def next_grant_def bs_insert_def
  layout_fits_def bs_alignment_def bytes_storage_default_def Let_def slice_new_def handle_new_def heap_empty_def
  calculate_padding_def next_multiple_of_def alloc_after_free_def

lemma lone_run: "exclusive_run flat_average bytes_ops bs_sane lone_pool lone_heap graph_default (snd lone_alloc)"
proof -
  have new: "exclusive_run flat_average bytes_ops bs_sane lone_new heap_empty graph_default bytes_storage_default"
    by (rule exclusive_run.new [OF _ _ lone_new_eq])
      (simp_all add: heap_ok_def heap_empty_def bs_sane_def bytes_storage_default_def)
  have "exclusive_alloc flat_average bytes_ops 40 lone_new heap_empty bytes_storage_default
      = (Ok (0, lone_pool, lone_heap), snd lone_alloc)"
    by (simp add: lone_defs use_slice_def)
  from exclusive_run.alloc [OF new this] show ?thesis .
qed

lemma lone_pages: "map (\<lambda>p. (sh_id (sl_storage (ep_slice p)), ep_alloc_size p, effective_size (ep_slice p))) (xp_pages lone_pool)
    = [(0, 64, 64)]"
  by (simp add: lone_defs)

theorem exclusive_pool_safe_witness:
  "map (\<lambda>p. (ep_alloc_size p, effective_size (ep_slice p))) (xp_pages lone_pool) = [(64, 64)]
    \<and> bs_held (snd lone_alloc) 0 = Some 64"
proof -
  obtain p where p: "xp_pages lone_pool = [p]" "sh_id (sl_storage (ep_slice p)) = 0" "ep_alloc_size p = 64"
    "effective_size (ep_slice p) = 64" using lone_pages by auto
  with exclusive_pool_safe [OF host.compute_storage_axioms lone_run] show ?thesis by simp
qed


text \<open>The 64-byte page, its buffer dropped, is given to a request for 40 bytes.\<close>

theorem reserve_prefers_recently_used_witness:
  "case exclusive_try_reserve flat_average 40 lone_pool (drop_handle 0 lone_heap) graph_default of
     Ok (Some i, q', h', g') \<Rightarrow> i = 0 | _ \<Rightarrow> False"
proof -
  have "exclusive_ok lone_pool (drop_handle 0 lone_heap)"
  proof -
    have "\<not> is_free lone_heap 0"
      by (simp add: lone_defs is_free_def strong_count_def clone_handle_def update_location_def modify_def)
    from host.exclusive_run_served [OF exclusive_run.user_drop [OF lone_run this]] show ?thesis
      by (simp add: exclusive_served_def)
  qed
  from reserve_prefers_recently_used [OF this, where av = flat_average and n = 40 and g = graph_default] show ?thesis
    by (auto simp: lone_defs slice_is_free_def is_free_def strong_count_def drop_handle_def
        clone_handle_def update_location_def modify_def split: outcome.splits option.splits)
qed

end
