(* ===== verification/Dynamic_Memory.thy ===== *)
theory Dynamic_Memory
  imports Arena Direct_Pool Persistent_Pool Exclusive_Pool
begin

text \<open>
  The dynamic pools of a stream (\<open>dynamic/adaptive.rs\<close>, \<open>dynamic/base.rs\<close> and the construction of the
  buckets in \<open>dynamic/exclusive.rs\<close>), and the pools behind \<open>dyn MemoryPool\<close>, which is how a location is
  resolved to whichever pool it names.

  The two floating-point formulas of the buckets, their spacing and the period their pages wait, are
  parameters (\<open>bucket_floats\<close>). A reference \<open>&mut Slice\<close> is the slice with the function that writes it
  back.
\<close>

section \<open>Pools behind \<open>dyn MemoryPool\<close>\<close>

datatype 'f dyn_pool =
    DynPersistent persistent_pool
  | DynDirect direct_pool
  | DynExclusive "'f exclusive_pool"
  | DynSliced sliced_pool

fun dyn_find :: "handle \<Rightarrow> 'f dyn_pool \<Rightarrow> heap \<Rightarrow> slice io" where
  "dyn_find i (DynPersistent q) h = persistent_find i q h"
| "dyn_find i (DynDirect q) h = direct_find i q h"
| "dyn_find i (DynExclusive q) h = exclusive_find i q h"
| "dyn_find i (DynSliced q) h = sliced_find i q h"

definition persistent_find_mut :: "handle \<Rightarrow> persistent_pool \<Rightarrow> heap \<Rightarrow> (slice \<times> (slice \<Rightarrow> persistent_pool)) io" where
  "persistent_find_mut i q h =
    (let slice_index = slice_index h i in
     case get_opt (pp_slices q) slice_index of
       None \<Rightarrow> Err (NotFound (SliceMissing slice_index))
     | Some s \<Rightarrow> Ok (s, \<lambda>s. q\<lparr>pp_slices := (pp_slices q)[slice_index := s]\<rparr>))"

definition direct_find_mut :: "handle \<Rightarrow> direct_pool \<Rightarrow> heap \<Rightarrow> (slice \<times> (slice \<Rightarrow> direct_pool)) io" where
  "direct_find_mut i q h =
    (let index = slice_index h i in
     case Option.bind (get_opt (dp_slices q) index) id of
       None \<Rightarrow> Err (NotFound (SliceMissing index))
     | Some s \<Rightarrow> Ok (s, \<lambda>s. q\<lparr>dp_slices := (dp_slices q)[index := Some s]\<rparr>))"

definition exclusive_find_mut ::
  "handle \<Rightarrow> 'f exclusive_pool \<Rightarrow> heap \<Rightarrow> (slice \<times> (slice \<Rightarrow> 'f exclusive_pool)) io" where
  "exclusive_find_mut i q h =
    (let page_index = page_index h i in
     case get_opt (xp_pages q) page_index of
       None \<Rightarrow> Err (NotFound (PageMissing page_index))
     | Some p \<Rightarrow> Ok (ep_slice p, \<lambda>s. q\<lparr>xp_pages := (xp_pages q)[page_index := p\<lparr>ep_slice := s\<rparr>]\<rparr>))"

definition page_find_mut :: "handle \<Rightarrow> memory_page \<Rightarrow> heap \<Rightarrow> (slice \<times> (slice \<Rightarrow> memory_page)) io" where
  "page_find_mut i page h =
    (let slice_index = slice_index h i in
     case get_opt (pg_slices page) slice_index of
       None \<Rightarrow> Err (NotFound (SliceMissing slice_index))
     | Some s \<Rightarrow> Ok (s, \<lambda>s. page\<lparr>pg_slices := (pg_slices page)[slice_index := s]\<rparr>))"

definition sliced_find_mut :: "handle \<Rightarrow> sliced_pool \<Rightarrow> heap \<Rightarrow> (slice \<times> (slice \<Rightarrow> sliced_pool)) io" where
  "sliced_find_mut i q h =
    (let page_index = page_index h i in
     case get_opt (sp_pages q) page_index of
       None \<Rightarrow> Err (NotFound (PageMissing page_index))
     | Some (page, k) \<Rightarrow>
         try_then (page_find_mut i page h) (\<lambda>(s, put).
           Ok (s, \<lambda>s. q\<lparr>sp_pages := (sp_pages q)[page_index := (put s, k)]\<rparr>)))"

fun dyn_find_mut :: "handle \<Rightarrow> 'f dyn_pool \<Rightarrow> heap \<Rightarrow> (slice \<times> (slice \<Rightarrow> 'f dyn_pool)) io" where
  "dyn_find_mut i (DynPersistent q) h = try_then (persistent_find_mut i q h) (\<lambda>(s, put). Ok (s, DynPersistent \<circ> put))"
| "dyn_find_mut i (DynDirect q) h = try_then (direct_find_mut i q h) (\<lambda>(s, put). Ok (s, DynDirect \<circ> put))"
| "dyn_find_mut i (DynExclusive q) h = try_then (exclusive_find_mut i q h) (\<lambda>(s, put). Ok (s, DynExclusive \<circ> put))"
| "dyn_find_mut i (DynSliced q) h = try_then (sliced_find_mut i q h) (\<lambda>(s, put). Ok (s, DynSliced \<circ> put))"

fun dyn_bind ::
  "handle \<Rightarrow> handle \<Rightarrow> nat \<Rightarrow> 'f dyn_pool \<Rightarrow> heap \<Rightarrow> error_graph \<Rightarrow> ('f dyn_pool \<times> heap \<times> error_graph) io" where
  "dyn_bind reserved assigned c (DynPersistent q) h g =
    try_then (persistent_bind reserved assigned c q h g) (\<lambda>(q, h, g). Ok (DynPersistent q, h, g))"
| "dyn_bind reserved assigned c (DynDirect q) h g =
    try_then (direct_bind reserved assigned c q h g) (\<lambda>(q, h, g). Ok (DynDirect q, h, g))"
| "dyn_bind reserved assigned c (DynExclusive q) h g =
    try_then (exclusive_bind reserved assigned c q h g) (\<lambda>(q, h, g). Ok (DynExclusive q, h, g))"
| "dyn_bind reserved assigned c (DynSliced q) h g =
    try_then (sliced_bind reserved assigned c q h g) (\<lambda>(q, h, g). Ok (DynSliced q, h, g))"

text \<open>\<open>PageGuard\<close>: a token of the page at a place, or a binding of the allocation.\<close>

datatype guard_token =
    PageHold memory_location
  | AllocationHold handle

fun dyn_guard :: "memory_location \<Rightarrow> 'f dyn_pool \<Rightarrow> heap \<Rightarrow> (guard_token \<times> 'f dyn_pool \<times> heap) option" where
  "dyn_guard l (DynPersistent q) h = map_option (\<lambda>(i, h). (AllocationHold i, DynPersistent q, h)) (persistent_guard l q h)"
| "dyn_guard l (DynDirect q) h = map_option (\<lambda>(i, h). (AllocationHold i, DynDirect q, h)) (direct_guard l q h)"
| "dyn_guard l (DynExclusive q) h = map_option (\<lambda>(i, h). (AllocationHold i, DynExclusive q, h)) (exclusive_guard l q h)"
| "dyn_guard l (DynSliced q) h = map_option (\<lambda>q. (PageHold l, DynSliced q, h)) (sliced_guard l q)"

section \<open>Buckets\<close>

definition max_buckets :: nat where
  "max_buckets = 24"

text \<open>\<open>bf_size\<close>: the cast of \<open>exp (ln MIN_BUCKET_SIZE + (ln max - ln MIN_BUCKET_SIZE) * position)\<close> for a
  largest size and an index; \<open>bf_period\<close>: the rounded dealloc period of a bucket of that size.\<close>

record bucket_floats =
  bf_size :: "nat \<Rightarrow> nat \<Rightarrow> nat"
  bf_period :: "nat \<Rightarrow> nat"

definition bucket_sizes :: "bucket_floats \<Rightarrow> nat \<Rightarrow> nat \<Rightarrow> nat list" where
  "bucket_sizes bf max_size alignment =
    remdups_adj (map (\<lambda>index. next_multiple_of (bf_size bf max_size index) alignment) [0..<max_buckets])"

fun buckets_from :: "'f average \<Rightarrow> bucket_floats \<Rightarrow> nat \<Rightarrow> nat \<Rightarrow> nat list \<Rightarrow> 'f buckets io" where
  "buckets_from av bf alignment index [] = Ok []"
| "buckets_from av bf alignment index (n # sizes) =
    try_then (exclusive_new av
        \<lparr>el_max_alloc_size = n, el_alignment = alignment, el_dealloc_period = bf_period bf n, el_pool = of_nat index\<rparr>)
      (\<lambda>q. try_then (buckets_from av bf alignment (Suc index) sizes) (\<lambda>qs. Ok (q # qs)))"

definition buckets_new :: "'f average \<Rightarrow> bucket_floats \<Rightarrow> memory_properties \<Rightarrow> 'f buckets io" where
  "buckets_new av bf properties =
    buckets_from av bf (mp_alignment properties) 0 (bucket_sizes bf (mp_max_page_size properties) (mp_alignment properties))"

section \<open>Adaptive memory\<close>

definition tiny_pool :: "8 word" where
  "tiny_pool = 0"

definition small_pool :: "8 word" where
  "small_pool = 1"

definition arena_pools :: "8 word" where
  "arena_pools = 2"

definition small_page :: nat where
  "small_page = 8 * 1024 * 1024"

definition small_slice :: nat where
  "small_slice = 64 * 1024"

definition min_page :: nat where
  "min_page = 2 * 1024 * 1024"

record 'f adaptive_memory =
  ad_tiny :: "'f exclusive_pool"
  ad_small :: sliced_pool
  ad_arena :: arena
  ad_trigger :: relocation_trigger

definition adaptive_new :: "'f average \<Rightarrow> memory_properties \<Rightarrow> 'f adaptive_memory io" where
  "adaptive_new av properties =
    (let alignment = mp_alignment properties;
         sizing = sizing_new (min min_page (mp_max_page_size properties)) properties in
     try_then (exclusive_new av
         \<lparr>el_max_alloc_size = 0, el_alignment = alignment, el_dealloc_period = 2 ^ 64 - 1, el_pool = tiny_pool\<rparr>)
       (\<lambda>tiny. Ok
         \<lparr>ad_tiny = tiny,
          ad_small = up_to_max_slice (sliced_new
            \<lparr>ly_page_size = next_multiple_of small_page alignment,
             ly_max_slice_size = next_multiple_of small_slice alignment,
             ly_alignment = alignment, ly_pool = small_pool\<rparr>),
          ad_arena = arena_new sizing arena_pools,
          ad_trigger = trigger_new (mp_max_memory properties)\<rparr>))"

definition adaptive_pool :: "8 word \<Rightarrow> 'f adaptive_memory \<Rightarrow> 'f dyn_pool option" where
  "adaptive_pool index m =
    (if index = tiny_pool then Some (DynExclusive (ad_tiny m))
     else if index = small_pool then Some (DynSliced (ad_small m))
     else map_option DynSliced (arena_pool index (ad_arena m)))"

text \<open>\<open>pool_mut\<close>: writing a pool back where it was found.\<close>

definition arena_put :: "8 word \<Rightarrow> sliced_pool \<Rightarrow> arena \<Rightarrow> arena" where
  "arena_put index q a = (case slot_of index a of None \<Rightarrow> a | Some slot \<Rightarrow> set_slot slot q a)"

fun adaptive_put :: "8 word \<Rightarrow> 'f dyn_pool \<Rightarrow> 'f adaptive_memory \<Rightarrow> 'f adaptive_memory" where
  "adaptive_put index (DynExclusive q) m = (if index = tiny_pool then m\<lparr>ad_tiny := q\<rparr> else m)"
| "adaptive_put index (DynSliced q) m =
    (if index = tiny_pool then m
     else if index = small_pool then m\<lparr>ad_small := q\<rparr>
     else m\<lparr>ad_arena := arena_put index q (ad_arena m)\<rparr>)"
| "adaptive_put index q m = m"

definition adaptive_materialize ::
  "'st storage_ops \<Rightarrow> handle \<Rightarrow> 'f adaptive_memory \<Rightarrow> heap \<Rightarrow> 'st \<Rightarrow> 'f adaptive_memory io \<times> 'st" where
  "adaptive_materialize ops i m h st =
    (let index = loc_pool (location h i) in
     if index = tiny_pool then (Ok m, st)
     else if index = small_pool then
       (case sliced_materialize ops i (ad_small m) h st of (r, st) \<Rightarrow> (try_then r (\<lambda>q. Ok (m\<lparr>ad_small := q\<rparr>)), st))
     else
       (case arena_pool index (ad_arena m) of
          None \<Rightarrow> (Ok m, st)
        | Some q \<Rightarrow>
            (case sliced_materialize ops i q h st of
               (r, st) \<Rightarrow> (try_then r (\<lambda>q. Ok (m\<lparr>ad_arena := arena_put index q (ad_arena m)\<rparr>)), st))))"

text \<open>\<open>MemoryPool::reserve\<close>, the default method, on an exclusive pool.\<close>

definition exclusive_reserve ::
  "'f average \<Rightarrow> 'st storage_ops \<Rightarrow> nat \<Rightarrow> 'f exclusive_pool \<Rightarrow> heap \<Rightarrow> error_graph \<Rightarrow> 'st
    \<Rightarrow> handle io \<times> 'f exclusive_pool \<times> heap \<times> error_graph \<times> 'st" where
  "exclusive_reserve av ops n q h g st =
    (case exclusive_try_reserve av n q h g of
       Ok (Some x, q, h, g) \<Rightarrow> (Ok x, q, h, g, st)
     | Ok (None, q, h, g) \<Rightarrow>
         (case exclusive_alloc av ops n q h st of
            (Ok (x, q, h), st) \<Rightarrow> (Ok x, q, h, g, st)
          | (Err e, st) \<Rightarrow> (Err e, q, h, g, st)
          | (Panic, st) \<Rightarrow> (Panic, q, h, g, st))
     | Err e \<Rightarrow> (Err e, q, h, g, st)
     | Panic \<Rightarrow> (Panic, q, h, g, st))"

definition adaptive_reserve ::
  "'f average \<Rightarrow> 'st storage_ops \<Rightarrow> nat \<Rightarrow> page_mapping \<Rightarrow> 'f adaptive_memory \<Rightarrow> heap \<Rightarrow> error_graph \<Rightarrow> 'st
    \<Rightarrow> handle io \<times> 'f adaptive_memory \<times> heap \<times> error_graph \<times> 'st" where
  "adaptive_reserve av ops n mapping m h g st =
    (if exclusive_accept (ad_tiny m) n then
       (case exclusive_reserve av ops n (ad_tiny m) h g st of (r, q, h, g, st) \<Rightarrow> (r, m\<lparr>ad_tiny := q\<rparr>, h, g, st))
     else if sliced_accept (ad_small m) n then
       (case sliced_reserve ops n mapping (ad_small m) h g st of (r, q, h, g, st) \<Rightarrow> (r, m\<lparr>ad_small := q\<rparr>, h, g, st))
     else
       (case arena_reserve ops n mapping (ad_arena m) h g st of (r, a, h, g, st) \<Rightarrow> (r, m\<lparr>ad_arena := a\<rparr>, h, g, st)))"

definition adaptive_try_reserve ::
  "'f average \<Rightarrow> nat \<Rightarrow> 'f adaptive_memory \<Rightarrow> heap \<Rightarrow> error_graph
    \<Rightarrow> (handle option \<times> 'f adaptive_memory \<times> heap \<times> error_graph) io" where
  "adaptive_try_reserve av n m h g =
    (if exclusive_accept (ad_tiny m) n then
       try_then (exclusive_try_reserve av n (ad_tiny m) h g) (\<lambda>(r, q, h, g). Ok (r, m\<lparr>ad_tiny := q\<rparr>, h, g))
     else if sliced_accept (ad_small m) n then
       try_then (sliced_try_reserve n (ad_small m) h g) (\<lambda>(r, q, h, g). Ok (r, m\<lparr>ad_small := q\<rparr>, h, g))
     else
       try_then (arena_try_reserve n (ad_arena m) h g) (\<lambda>(r, a, h, g). Ok (r, m\<lparr>ad_arena := a\<rparr>, h, g)))"

definition adaptive_has_outdated :: "'f adaptive_memory \<Rightarrow> bool" where
  "adaptive_has_outdated m = arena_has_outdated (ad_arena m)"

definition adaptive_relocation_need :: "'f adaptive_memory \<Rightarrow> relocation_need io" where
  "adaptive_relocation_need m =
    (if \<not> adaptive_has_outdated m then Ok NothingNeeded
     else try_then (arena_state_of (ad_arena m)) (\<lambda>s. Ok (trigger_need (ad_trigger m) s)))"

text \<open>The moves of an abandoned relocation are dropped by \<open>copy\<close>; a plan without moves holds none.\<close>

definition adaptive_relocate ::
  "'st storage_ops \<Rightarrow> ('c, 'st) copy_queue \<Rightarrow> relocation_reason \<Rightarrow> 'f adaptive_memory \<Rightarrow> heap \<Rightarrow> error_graph \<Rightarrow> 'st \<Rightarrow> 'c
    \<Rightarrow> ('f adaptive_memory \<times> heap \<times> error_graph \<times> 'st \<times> 'c) io" where
  "adaptive_relocate ops copier reason m h g st c =
    try_then (arena_plan ops (reason_room reason) (ad_arena m) h g st) (\<lambda>(moves, a, h, g, st).
      if moves = [] then
        try_then (arena_state_of a) (\<lambda>s.
          Ok (m\<lparr>ad_arena := a, ad_trigger := trigger_stalled s (ad_trigger m)\<rparr>, h, g, st, c))
      else
        (case relocation_copy copier moves st c of
           (Ok landed, st, c) \<Rightarrow>
             try_then (arena_commit ops landed a h g st) (\<lambda>(a, h, g, st).
               Ok (m\<lparr>ad_arena := a, ad_trigger := trigger_moved (ad_trigger m)\<rparr>, h, g, so_flush ops st, c))
         | (Err e, st, c) \<Rightarrow>
             try_then (arena_state_of a) (\<lambda>s.
               Ok (m\<lparr>ad_arena := a, ad_trigger := trigger_stalled s (ad_trigger m)\<rparr>, drop_moves moves h, g, st, c))
         | (Panic, st, c) \<Rightarrow> Panic))"

definition adaptive_cleanup ::
  "'st storage_ops \<Rightarrow> nat \<Rightarrow> cleanup_kind \<Rightarrow> 'f adaptive_memory \<Rightarrow> heap \<Rightarrow> error_graph \<Rightarrow> 'st
    \<Rightarrow> ('f adaptive_memory \<times> heap \<times> error_graph \<times> 'st) io" where
  "adaptive_cleanup ops alloc_nr cleanup m h g st =
    try_then (exclusive_cleanup ops alloc_nr cleanup (ad_tiny m) h g st) (\<lambda>(tiny, h, g, st).
      case sliced_cleanup ops alloc_nr cleanup (ad_small m) h g st of
        (small, h, g, st) \<Rightarrow>
          try_then (arena_cleanup ops alloc_nr cleanup (ad_arena m) h g st) (\<lambda>(a, h, g, st).
            Ok (m\<lparr>ad_tiny := tiny, ad_small := small, ad_arena := a\<rparr>, h, g, st)))"

definition adaptive_report :: "heap \<Rightarrow> 'f adaptive_memory \<Rightarrow> pool_report list io" where
  "adaptive_report h m =
    try_then (arena_report h (ad_arena m)) (\<lambda>rs.
      Ok ([exclusive_report h (ad_tiny m), sliced_report h (ad_small m)] @ rs))"

section \<open>Dynamic memory\<close>

datatype memory_configuration = ExclusivePages | AdaptivePages

datatype 'f dynamic_memory =
    ExclusiveMemory "'f buckets"
  | AdaptiveMemory "'f adaptive_memory"

definition dynamic_new ::
  "'f average \<Rightarrow> bucket_floats \<Rightarrow> memory_properties \<Rightarrow> memory_configuration \<Rightarrow> 'f dynamic_memory io" where
  "dynamic_new av bf properties config =
    (case config of
       ExclusivePages \<Rightarrow> try_then (buckets_new av bf properties) (\<lambda>qs. Ok (ExclusiveMemory qs))
     | AdaptivePages \<Rightarrow> try_then (adaptive_new av properties) (\<lambda>m. Ok (AdaptiveMemory m)))"

fun dynamic_pool :: "8 word \<Rightarrow> 'f dynamic_memory \<Rightarrow> 'f dyn_pool option" where
  "dynamic_pool index (ExclusiveMemory qs) = map_option DynExclusive (buckets_pool index qs)"
| "dynamic_pool index (AdaptiveMemory m) = adaptive_pool index m"

fun dynamic_put :: "8 word \<Rightarrow> 'f dyn_pool \<Rightarrow> 'f dynamic_memory \<Rightarrow> 'f dynamic_memory" where
  "dynamic_put index q (ExclusiveMemory qs) =
    ExclusiveMemory (case q of DynExclusive q \<Rightarrow> qs[unat index := q] | _ \<Rightarrow> qs)"
| "dynamic_put index q (AdaptiveMemory m) = AdaptiveMemory (adaptive_put index q m)"

fun dynamic_materialize ::
  "'st storage_ops \<Rightarrow> handle \<Rightarrow> 'f dynamic_memory \<Rightarrow> heap \<Rightarrow> 'st \<Rightarrow> 'f dynamic_memory io \<times> 'st" where
  "dynamic_materialize ops i (ExclusiveMemory qs) h st = (Ok (ExclusiveMemory qs), st)"
| "dynamic_materialize ops i (AdaptiveMemory m) h st =
    (case adaptive_materialize ops i m h st of (r, st) \<Rightarrow> (try_then r (\<lambda>m. Ok (AdaptiveMemory m)), st))"

fun dynamic_reserve ::
  "'f average \<Rightarrow> 'st storage_ops \<Rightarrow> nat \<Rightarrow> page_mapping \<Rightarrow> 'f dynamic_memory \<Rightarrow> heap \<Rightarrow> error_graph \<Rightarrow> 'st
    \<Rightarrow> handle io \<times> 'f dynamic_memory \<times> heap \<times> error_graph \<times> 'st" where
  "dynamic_reserve av ops n mapping (ExclusiveMemory qs) h g st =
    (case buckets_reserve av ops n qs h g st of (r, qs, h, g, st) \<Rightarrow> (r, ExclusiveMemory qs, h, g, st))"
| "dynamic_reserve av ops n mapping (AdaptiveMemory m) h g st =
    (case adaptive_reserve av ops n mapping m h g st of (r, m, h, g, st) \<Rightarrow> (r, AdaptiveMemory m, h, g, st))"

fun dynamic_try_reserve ::
  "'f average \<Rightarrow> nat \<Rightarrow> 'f dynamic_memory \<Rightarrow> heap \<Rightarrow> error_graph
    \<Rightarrow> (handle option \<times> 'f dynamic_memory \<times> heap \<times> error_graph) io" where
  "dynamic_try_reserve av n (ExclusiveMemory qs) h g =
    try_then (buckets_try_reserve av n qs h g) (\<lambda>(r, qs, h, g). Ok (r, ExclusiveMemory qs, h, g))"
| "dynamic_try_reserve av n (AdaptiveMemory m) h g =
    try_then (adaptive_try_reserve av n m h g) (\<lambda>(r, m, h, g). Ok (r, AdaptiveMemory m, h, g))"

fun dynamic_has_outdated :: "'f dynamic_memory \<Rightarrow> bool" where
  "dynamic_has_outdated (ExclusiveMemory qs) = False"
| "dynamic_has_outdated (AdaptiveMemory m) = adaptive_has_outdated m"

fun dynamic_relocation_need :: "'f dynamic_memory \<Rightarrow> relocation_need io" where
  "dynamic_relocation_need (ExclusiveMemory qs) = Ok NothingNeeded"
| "dynamic_relocation_need (AdaptiveMemory m) = adaptive_relocation_need m"

fun dynamic_relocate ::
  "'st storage_ops \<Rightarrow> ('c, 'st) copy_queue \<Rightarrow> relocation_reason \<Rightarrow> 'f dynamic_memory \<Rightarrow> heap \<Rightarrow> error_graph \<Rightarrow> 'st \<Rightarrow> 'c
    \<Rightarrow> ('f dynamic_memory \<times> heap \<times> error_graph \<times> 'st \<times> 'c) io" where
  "dynamic_relocate ops copier reason (ExclusiveMemory qs) h g st c = Ok (ExclusiveMemory qs, h, g, st, c)"
| "dynamic_relocate ops copier reason (AdaptiveMemory m) h g st c =
    try_then (adaptive_relocate ops copier reason m h g st c) (\<lambda>(m, h, g, st, c). Ok (AdaptiveMemory m, h, g, st, c))"

fun dynamic_cleanup ::
  "'st storage_ops \<Rightarrow> nat \<Rightarrow> cleanup_kind \<Rightarrow> 'f dynamic_memory \<Rightarrow> heap \<Rightarrow> error_graph \<Rightarrow> 'st
    \<Rightarrow> ('f dynamic_memory \<times> heap \<times> error_graph \<times> 'st) io" where
  "dynamic_cleanup ops alloc_nr cleanup (ExclusiveMemory qs) h g st =
    try_then (buckets_cleanup ops alloc_nr cleanup qs h g st) (\<lambda>(qs, h, g, st). Ok (ExclusiveMemory qs, h, g, st))"
| "dynamic_cleanup ops alloc_nr cleanup (AdaptiveMemory m) h g st =
    try_then (adaptive_cleanup ops alloc_nr cleanup m h g st) (\<lambda>(m, h, g, st). Ok (AdaptiveMemory m, h, g, st))"

fun dynamic_report :: "heap \<Rightarrow> 'f dynamic_memory \<Rightarrow> pool_report list io" where
  "dynamic_report h (ExclusiveMemory qs) = Ok (buckets_report h qs)"
| "dynamic_report h (AdaptiveMemory m) = adaptive_report h m"

end
