(* ===== verification/Pool_Group.thy ===== *)
theory Pool_Group
  imports Dynamic_Memory
begin

text \<open>
  Pools of every kind side by side over one descriptor heap and one storage. A pool has a footprint,
  the handles of its slices and the ids of its buffers; pools of a group have disjoint ones. An
  operation of some of the pools that stays inside their footprint, but for what is fresh, is a step
  of the whole group: the others keep their invariant and their live slices.
\<close>

section \<open>One pool\<close>

fun dyn_handles :: "'f dyn_pool \<Rightarrow> handle set" where
  "dyn_handles (DynPersistent q) = sl_handle ` set (pp_slices q)"
| "dyn_handles (DynDirect q) = sl_handle ` set (direct_live q)"
| "dyn_handles (DynExclusive q) = sl_handle ` set (eslices (xp_pages q))"
| "dyn_handles (DynSliced q) = pool_handles q"

abbreviation slice_id :: "slice \<Rightarrow> storage_id" where
  "slice_id s \<equiv> sh_id (sl_storage s)"

fun dyn_ids :: "'f dyn_pool \<Rightarrow> storage_id set" where
  "dyn_ids (DynPersistent q) = slice_id ` set (pp_slices q)"
| "dyn_ids (DynDirect q) = slice_id ` set (direct_live q)"
| "dyn_ids (DynExclusive q) = slice_id ` set (eslices (xp_pages q))"
| "dyn_ids (DynSliced q) = pool_ids q"

fun dyn_live :: "heap \<Rightarrow> 'f dyn_pool \<Rightarrow> slice list" where
  "dyn_live h (DynPersistent q) = in_use h (pp_slices q)"
| "dyn_live h (DynDirect q) = in_use h (direct_live q)"
| "dyn_live h (DynExclusive q) = in_use h (eslices (xp_pages q))"
| "dyn_live h (DynSliced q) = pool_live h (sp_pages q)"

fun dyn_served ::
  "('st \<Rightarrow> storage_id set) \<Rightarrow> ('st \<Rightarrow> storage_id \<rightharpoonup> nat) \<Rightarrow> ('st \<Rightarrow> bool) \<Rightarrow> 'f dyn_pool \<Rightarrow> heap \<Rightarrow> 'st \<Rightarrow> bool" where
  "dyn_served ids held sane (DynPersistent q) h st = persistent_served ids held sane q h st"
| "dyn_served ids held sane (DynDirect q) h st = direct_served ids held sane q h st"
| "dyn_served ids held sane (DynExclusive q) h st = exclusive_served ids held sane q h st"
| "dyn_served ids held sane (DynSliced q) h st = served ids held sane q h st"

text \<open>The entries of the three pools whose slices own their buffer, where their handles are.\<close>

lemma persistent_placed:
  "persistent_served ids held sane q h st \<Longrightarrow> placed (\<lambda>k. (pp_base q)\<lparr>loc_slice := of_nat k\<rparr>) (map Some (pp_slices q)) h"
  by (simp add: persistent_served_def persistent_ok_def slots_placed)

lemma direct_placed:
  "direct_served ids held sane q h st \<Longrightarrow> placed (\<lambda>k. (dp_base q)\<lparr>loc_slice := of_nat k\<rparr>) (dp_slices q) h"
  by (simp add: direct_served_def direct_ok_def cells_ok_def)

lemma exclusive_placed:
  "exclusive_served ids held sane q h st \<Longrightarrow>
    placed (\<lambda>k. (xp_base q)\<lparr>loc_page := of_nat k\<rparr>) (map Some (eslices (xp_pages q))) h"
  by (simp add: exclusive_served_def exclusive_ok_def)

lemmas entries_placed = persistent_placed direct_placed exclusive_placed

lemma placed_confined:
  assumes p: "placed at cs h" and c: "confined ids held hs is h st h' st'" and dis: "sl_handle ` set (somes cs) \<inter> hs = {}"
  shows "placed at cs h' \<and> in_use h' (somes cs) = in_use h (somes cs)"
proof -
  have same: "descs h' i = descs h i" if "i \<in> sl_handle ` set (somes cs)" for i
  proof -
    have "i < next_id h" using that placed_dom [OF p] heap_ok_fresh [OF placed_heap [OF p]] by blast
    then show ?thesis using c that dis by (auto simp: confined_def frames_def)
  qed
  have "placed at cs h'"
    by (rule placed_frame [OF p]) (use c same in \<open>auto simp: confined_def location_def\<close>)
  moreover have "in_use h' (somes cs) = in_use h (somes cs)"
    by (rule in_use_cong) (simp add: same strong_count_def)
  ultimately show ?thesis ..
qed

lemma owned_confined:
  assumes o: "owned ids held bs st" and c: "confined ids held hs is h st h' st'" and dis: "fst ` set bs \<inter> is = {}"
  shows "owned ids held bs st'"
proof -
  have "held st' i = Some n" if "(i, True, n) \<in> set bs" for i n
  proof -
    have "i \<in> ids st" "i \<notin> is" "held st i = Some n" using that o dis by (force simp: owned_def)+
    then show ?thesis using c by (auto simp: confined_def)
  qed
  then show ?thesis using o c unfolding owned_def confined_def by fastforce
qed

lemma buffer_ids [simp]:
  "fst ` set (map buffer ss) = slice_id ` set ss"
  "fst ` set (map (need_buffer al) ss) = slice_id ` set ss"
  "fst ` set (map ebuffer ps) = slice_id ` set (eslices ps)"
  by (force simp: buffer_def need_buffer_def ebuffer_def)+

lemma buffer_id [simp]:
  "fst (buffer s) = slice_id s" "fst (need_buffer al s) = slice_id s" "fst (ebuffer p) = slice_id (ep_slice p)"
  by (simp_all add: buffer_def need_buffer_def ebuffer_def)

lemma somes_map_comp [simp]: "somes (map (Some \<circ> f) xs) = map f xs"
  by (induction xs) simp_all

text \<open>The frame rule for a pool of any kind.\<close>

lemma dyn_frame:
  assumes sv: "dyn_served ids held sane q h st" and c: "confined ids held hs is h st h' st'" and sane: "sane st'"
    and dis: "dyn_handles q \<inter> hs = {}" "dyn_ids q \<inter> is = {}"
  shows "dyn_served ids held sane q h' st' \<and> dyn_live h' q = dyn_live h q"
proof (cases q)
  case (DynPersistent p)
  then have s: "persistent_served ids held sane p h st" using sv by simp
  have "owned ids held (map (need_buffer (pp_alignment p)) (pp_slices p)) st'"
    by (rule owned_confined [OF _ c]) (use s dis DynPersistent in \<open>simp_all add: persistent_served_def image_image\<close>)
  with placed_confined [OF persistent_placed [OF s] c] s sane dis DynPersistent
  show ?thesis by (simp add: persistent_served_def persistent_ok_def slots_placed)
next
  case (DynDirect p)
  then have s: "direct_served ids held sane p h st" using sv by simp
  have "owned ids held (map buffer (direct_live p)) st'"
    by (rule owned_confined [OF _ c]) (use s dis DynDirect in \<open>simp_all add: direct_served_def image_image\<close>)
  with placed_confined [OF direct_placed [OF s] c] s sane dis DynDirect
  show ?thesis by (simp add: direct_served_def direct_ok_def cells_ok_def direct_live_def)
next
  case (DynExclusive p)
  then have s: "exclusive_served ids held sane p h st" using sv by simp
  have "owned ids held (map ebuffer (xp_pages p)) st'"
    by (rule owned_confined [OF _ c]) (use s dis DynExclusive in \<open>simp_all add: exclusive_served_def image_image\<close>)
  with placed_confined [OF exclusive_placed [OF s] c] s sane dis DynExclusive
  show ?thesis by (simp add: exclusive_served_def exclusive_ok_def)
next
  case (DynSliced p)
  with served_frame [of ids held sane p h st, OF _ c sane] sv dis show ?thesis by (auto simp: pool_live_def)
qed

lemma dyn_known:
  assumes "dyn_served ids held sane q h st"
  shows "dyn_handles q \<subseteq> {..<next_id h}" "dyn_ids q \<subseteq> ids st" "heap_ok h" "sane st"
proof -
  have old: "sl_handle ` set (somes cs) \<subseteq> {..<next_id h}" if "placed at cs h" for at cs
    using placed_dom [OF that] heap_ok_fresh [OF placed_heap [OF that]] by blast
  have "dyn_handles q \<subseteq> {..<next_id h} \<and> dyn_ids q \<subseteq> ids st \<and> heap_ok h \<and> sane st"
  proof (cases q)
    case (DynPersistent p)
    then have s: "persistent_served ids held sane p h st" using assms by simp
    then have "fst ` set (map (need_buffer (pp_alignment p)) (pp_slices p)) \<subseteq> ids st"
      unfolding persistent_served_def owned_def by blast
    with old [OF persistent_placed [OF s]] placed_heap [OF persistent_placed [OF s]] s DynPersistent
    show ?thesis unfolding buffer_ids by (simp add: persistent_served_def)
  next
    case (DynDirect p)
    then have s: "direct_served ids held sane p h st" using assms by simp
    then have "fst ` set (map buffer (direct_live p)) \<subseteq> ids st" unfolding direct_served_def owned_def by blast
    with old [OF direct_placed [OF s]] placed_heap [OF direct_placed [OF s]] s DynDirect
    show ?thesis unfolding buffer_ids by (simp add: direct_served_def direct_live_def)
  next
    case (DynExclusive p)
    then have s: "exclusive_served ids held sane p h st" using assms by simp
    then have "fst ` set (map ebuffer (xp_pages p)) \<subseteq> ids st" unfolding exclusive_served_def owned_def by blast
    with old [OF exclusive_placed [OF s]] placed_heap [OF exclusive_placed [OF s]] s DynExclusive
    show ?thesis unfolding buffer_ids by (simp add: exclusive_served_def)
  next
    case (DynSliced p)
    with assms served_handles_old [of ids held sane p h st] served_ids [of ids held sane p h st]
      served_heap_ok [of ids held sane p h st]
    show ?thesis by (auto simp: served_def)
  qed
  then show "dyn_handles q \<subseteq> {..<next_id h}" "dyn_ids q \<subseteq> ids st" "heap_ok h" "sane st" by blast+
qed

section \<open>Groups\<close>

definition group_handles :: "'f dyn_pool list \<Rightarrow> handle set" where
  "group_handles ps = (\<Union>q \<in> set ps. dyn_handles q)"

definition group_ids :: "'f dyn_pool list \<Rightarrow> storage_id set" where
  "group_ids ps = (\<Union>q \<in> set ps. dyn_ids q)"

definition group_live :: "heap \<Rightarrow> 'f dyn_pool list \<Rightarrow> slice list" where
  "group_live h ps = concat (map (dyn_live h) ps)"

definition dyn_apart :: "'f dyn_pool \<Rightarrow> 'f dyn_pool \<Rightarrow> bool" where
  "dyn_apart p q \<longleftrightarrow> dyn_handles p \<inter> dyn_handles q = {} \<and> dyn_ids p \<inter> dyn_ids q = {}"

definition group_served ::
  "('st \<Rightarrow> storage_id set) \<Rightarrow> ('st \<Rightarrow> storage_id \<rightharpoonup> nat) \<Rightarrow> ('st \<Rightarrow> bool) \<Rightarrow> 'f dyn_pool list \<Rightarrow> heap \<Rightarrow> 'st \<Rightarrow> bool" where
  "group_served ids held sane ps h st \<longleftrightarrow> heap_ok h \<and> sane st
    \<and> (\<forall>q \<in> set ps. dyn_served ids held sane q h st) \<and> sorted_wrt dyn_apart ps"

definition group_step ::
  "('st \<Rightarrow> storage_id set) \<Rightarrow> ('st \<Rightarrow> storage_id \<rightharpoonup> nat) \<Rightarrow> ('st \<Rightarrow> bool)
    \<Rightarrow> 'f dyn_pool list \<Rightarrow> heap \<Rightarrow> 'st \<Rightarrow> 'f dyn_pool list \<Rightarrow> heap \<Rightarrow> 'st \<Rightarrow> bool" where
  "group_step ids held sane ps h st ps' h' st' \<longleftrightarrow> group_served ids held sane ps' h' st'
    \<and> confined ids held (group_handles ps) (group_ids ps) h st h' st'
    \<and> fresh_from ids h st (group_handles ps) (group_ids ps) (group_handles ps') (group_ids ps')"

lemma group_simps [simp]:
  "group_handles [] = {}" "group_handles (q # ps) = dyn_handles q \<union> group_handles ps"
  "group_handles (ps @ qs) = group_handles ps \<union> group_handles qs"
  "group_ids [] = {}" "group_ids (q # ps) = dyn_ids q \<union> group_ids ps"
  "group_ids (ps @ qs) = group_ids ps \<union> group_ids qs"
  "group_live h [] = []" "group_live h (q # ps) = dyn_live h q @ group_live h ps"
  "group_live h (ps @ qs) = group_live h ps @ group_live h qs"
  by (auto simp: group_handles_def group_ids_def group_live_def)

lemma dyn_apart_sym: "dyn_apart p q = dyn_apart q p"
  by (auto simp: dyn_apart_def)

lemma apart_group:
  "(\<forall>q \<in> set ps. dyn_apart p q) \<longleftrightarrow> dyn_handles p \<inter> group_handles ps = {} \<and> dyn_ids p \<inter> group_ids ps = {}"
  by (auto simp: dyn_apart_def group_handles_def group_ids_def)

lemma group_stepD:
  assumes "group_step ids held sane ps h st ps' h' st'"
  shows "group_served ids held sane ps' h' st'" "confined ids held (group_handles ps) (group_ids ps) h st h' st'"
    "fresh_from ids h st (group_handles ps) (group_ids ps) (group_handles ps') (group_ids ps')" "sane st'" "heap_ok h'"
  using assms by (simp_all add: group_step_def group_served_def)

lemma group_step_refl: "group_served ids held sane ps h st \<Longrightarrow> group_step ids held sane ps h st ps h st"
  by (simp add: group_step_def confined_refl fresh_from_refl group_served_def)

lemma group_step_trans:
  assumes "group_step ids held sane ps h st ps1 h1 st1" "group_step ids held sane ps1 h1 st1 ps2 h2 st2"
  shows "group_step ids held sane ps h st ps2 h2 st2"
  unfolding group_step_def
  using group_stepD [OF assms(1)] group_stepD [OF assms(2)] confined_trans fresh_from_trans by meson

lemma group_append:
  "group_served ids held sane (ps @ qs) h st \<longleftrightarrow> group_served ids held sane ps h st \<and> group_served ids held sane qs h st
    \<and> group_handles ps \<inter> group_handles qs = {} \<and> group_ids ps \<inter> group_ids qs = {}"
proof -
  have "(\<forall>p \<in> set ps. \<forall>q \<in> set qs. dyn_apart p q)
    \<longleftrightarrow> group_handles ps \<inter> group_handles qs = {} \<and> group_ids ps \<inter> group_ids qs = {}"
    unfolding apart_group by (auto simp: group_handles_def [of ps] group_ids_def [of ps])
  then show ?thesis by (auto simp: group_served_def sorted_wrt_append)
qed

lemma group_known:
  assumes "group_served ids held sane ps h st"
  shows "group_handles ps \<subseteq> {..<next_id h}" "group_ids ps \<subseteq> ids st"
proof -
  have "dyn_handles q \<subseteq> {..<next_id h} \<and> dyn_ids q \<subseteq> ids st" if "q \<in> set ps" for q
    using assms that dyn_known(1,2) [of ids held sane q h st] by (simp add: group_served_def)
  then show "group_handles ps \<subseteq> {..<next_id h}" "group_ids ps \<subseteq> ids st"
    unfolding group_handles_def group_ids_def by blast+
qed

lemma group_frame:
  assumes sv: "group_served ids held sane ps h st" and c: "confined ids held hs is h st h' st'" and sane: "sane st'"
    and dis: "group_handles ps \<inter> hs = {}" "group_ids ps \<inter> is = {}"
  shows "group_served ids held sane ps h' st' \<and> group_live h' ps = group_live h ps"
proof -
  have one: "dyn_served ids held sane q h' st' \<and> dyn_live h' q = dyn_live h q" if "q \<in> set ps" for q
    by (rule dyn_frame [of ids held sane q h st hs "is" h' st', OF _ c sane])
      (use sv dis that in \<open>auto simp: group_served_def group_handles_def group_ids_def\<close>)
  have "group_live h' ps = group_live h ps" unfolding group_live_def using one by (simp cong: map_cong)
  then show ?thesis using one sv sane c by (simp add: group_served_def confined_def)
qed

text \<open>What some of the pools do is what the group does.\<close>

lemma group_lift:
  assumes sv: "group_served ids held sane (xs @ ps @ ys) h st" and step: "group_step ids held sane ps h st ps' h' st'"
  shows "group_step ids held sane (xs @ ps @ ys) h st (xs @ ps' @ ys) h' st'"
    and "group_live h' xs = group_live h xs" "group_live h' ys = group_live h ys"
proof -
  note s = group_stepD [OF step]
  have parts: "group_served ids held sane xs h st" "group_served ids held sane ys h st"
    "group_handles xs \<inter> group_handles ps = {}" "group_ids xs \<inter> group_ids ps = {}"
    "group_handles ys \<inter> group_handles ps = {}" "group_ids ys \<inter> group_ids ps = {}"
    "group_handles xs \<inter> group_handles ys = {}" "group_ids xs \<inter> group_ids ys = {}"
    using sv unfolding group_append by auto
  have xs: "group_served ids held sane xs h' st' \<and> group_live h' xs = group_live h xs"
    by (rule group_frame [OF parts(1) s(2,4) parts(3,4)])
  have ys: "group_served ids held sane ys h' st' \<and> group_live h' ys = group_live h ys"
    by (rule group_frame [OF parts(2) s(2,4) parts(5,6)])
  show "group_live h' xs = group_live h xs" "group_live h' ys = group_live h ys" using xs ys by simp_all
  have old: "group_handles zs \<inter> group_handles ps' = {} \<and> group_ids zs \<inter> group_ids ps' = {}"
    if "group_served ids held sane zs h st" "group_handles zs \<inter> group_handles ps = {}" "group_ids zs \<inter> group_ids ps = {}" for zs
  proof -
    have "group_handles zs \<subseteq> {..<next_id h}" "group_ids zs \<subseteq> ids st" using group_known [OF that(1)] by simp_all
    then show ?thesis using s(3) that(2,3) unfolding fresh_from_def by fastforce
  qed
  have "group_served ids held sane (xs @ ps' @ ys) h' st'"
    using xs ys s(1) old [OF parts(1,3,4)] old [OF parts(2,5,6)] parts(7,8) unfolding group_append by auto
  moreover have "confined ids held (group_handles (xs @ ps @ ys)) (group_ids (xs @ ps @ ys)) h st h' st'"
    by (rule confined_weaken [OF s(2)]) auto
  ultimately show "group_step ids held sane (xs @ ps @ ys) h st (xs @ ps' @ ys) h' st'"
    using s(3) unfolding group_step_def by (auto simp: fresh_from_def)
qed

text \<open>One pool of the group, and a new pool among them.\<close>

lemma group_single: "group_served ids held sane [q] h st \<longleftrightarrow> dyn_served ids held sane q h st"
  using dyn_known(3,4) by (auto simp: group_served_def)

lemma group_member: "group_served ids held sane (xs @ q # ys) h st \<Longrightarrow> dyn_served ids held sane q h st"
  by (simp add: group_served_def)

definition dyn_step ::
  "('st \<Rightarrow> storage_id set) \<Rightarrow> ('st \<Rightarrow> storage_id \<rightharpoonup> nat) \<Rightarrow> ('st \<Rightarrow> bool)
    \<Rightarrow> 'f dyn_pool \<Rightarrow> heap \<Rightarrow> 'st \<Rightarrow> 'f dyn_pool \<Rightarrow> heap \<Rightarrow> 'st \<Rightarrow> bool" where
  "dyn_step ids held sane q h st q' h' st' \<longleftrightarrow> group_step ids held sane [q] h st [q'] h' st'"

lemma dyn_stepI:
  assumes "dyn_served ids held sane q' h' st'" "confined ids held (dyn_handles q) (dyn_ids q) h st h' st'"
    "fresh_from ids h st (dyn_handles q) (dyn_ids q) (dyn_handles q') (dyn_ids q')"
  shows "dyn_step ids held sane q h st q' h' st'"
  using assms by (simp add: dyn_step_def group_step_def group_single)

lemma dyn_step_sliced: "pool_step ids held sane q h st q' h' st' \<Longrightarrow> dyn_step ids held sane (DynSliced q) h st (DynSliced q') h' st'"
  by (rule dyn_stepI) (simp_all add: pool_step_def)

lemma dyn_step_served: "dyn_step ids held sane q h st q' h' st' \<Longrightarrow> dyn_served ids held sane q' h' st'"
  by (simp add: dyn_step_def group_step_def group_single)

lemma group_put:
  assumes "group_served ids held sane (xs @ q # ys) h st" "dyn_step ids held sane q h st q' h' st'"
  shows "group_step ids held sane (xs @ q # ys) h st (xs @ q' # ys) h' st'"
    and "group_live h' xs = group_live h xs" "group_live h' ys = group_live h ys"
  using group_lift [of ids held sane xs "[q]" ys h st "[q']" h' st'] assms by (simp_all add: dyn_step_def)

lemma group_put_live:
  assumes "group_served ids held sane (xs @ q # ys) h st" "dyn_step ids held sane q h st q' h' st'"
  shows "dyn_live h' q' = dyn_live h q \<Longrightarrow> group_live h' (xs @ q' # ys) = group_live h (xs @ q # ys)"
    and "one_more n i (dyn_live h q) (dyn_live h' q') \<Longrightarrow>
      one_more n i (group_live h (xs @ q # ys)) (group_live h' (xs @ q' # ys))"
  using group_put(2,3) [OF assms] one_more_context [of n i "dyn_live h q" "dyn_live h' q'" "group_live h xs" "group_live h ys"]
  by simp_all

lemma group_insert:
  assumes sv: "group_served ids held sane (xs @ ys) h st" and q: "dyn_handles q = {}" "dyn_ids q = {}"
    and step: "dyn_step ids held sane q h st q' h' st'"
  shows "group_step ids held sane (xs @ ys) h st (xs @ q' # ys) h' st'"
    and "group_live h' xs = group_live h xs" "group_live h' ys = group_live h ys"
proof -
  have step0: "group_step ids held sane [] h st [q'] h' st'" using step q by (simp add: dyn_step_def group_step_def)
  from group_lift [of ids held sane xs "[]" ys, OF _ step0] sv
  show "group_step ids held sane (xs @ ys) h st (xs @ q' # ys) h' st'"
    "group_live h' xs = group_live h xs" "group_live h' ys = group_live h ys" by simp_all
qed

lemma group_remove:
  assumes "group_served ids held sane (xs @ q # ys) h st"
  shows "group_step ids held sane (xs @ q # ys) h st (xs @ ys) h st"
proof -
  have "group_served ids held sane (xs @ ys) h st"
    using assms by (auto simp: group_served_def sorted_wrt_append)
  then show ?thesis using assms by (auto simp: group_step_def fresh_from_def group_served_def intro: confined_refl)
qed

lemma group_lift_live:
  assumes "group_served ids held sane (xs @ ps @ ys) h st" "group_step ids held sane ps h st ps' h' st'"
  shows "group_live h' ps' = group_live h ps \<Longrightarrow> group_live h' (xs @ ps' @ ys) = group_live h (xs @ ps @ ys)"
    and "one_more n i (group_live h ps) (group_live h' ps') \<Longrightarrow>
      one_more n i (group_live h (xs @ ps @ ys)) (group_live h' (xs @ ps' @ ys))"
  using group_lift(2,3) [OF assms] one_more_context [of n i "group_live h ps" "group_live h' ps'" "group_live h xs" "group_live h ys"]
  by simp_all

lemma dyn_step_trans:
  "dyn_step ids held sane q h st q1 h1 st1 \<Longrightarrow> dyn_step ids held sane q1 h1 st1 q2 h2 st2 \<Longrightarrow> dyn_step ids held sane q h st q2 h2 st2"
  unfolding dyn_step_def by (rule group_step_trans)

end
