(* ===== verification/Pool_Steps.thy ===== *)
theory Pool_Steps
  imports Pool_Group
begin

text \<open>
  The operations of the exclusive, direct and persistent pools as steps of a group: each touches the
  handles and the buffers of its own slices and what is fresh, and keeps where its pool is addressed.
\<close>

text \<open>The only panic an allocation of a pool passes on.\<close>

definition storage_panics :: "'st storage_ops \<Rightarrow> 'st \<Rightarrow> bool" where
  "storage_panics ops st \<longleftrightarrow> (\<exists>k. fst (so_alloc ops k st) = Panic)"

section \<open>Exclusive pools\<close>

definition exclusive_shape :: "'f exclusive_pool \<Rightarrow> memory_location \<times> nat \<times> nat \<times> nat" where
  "exclusive_shape q = (xp_base q, xp_max_alloc_size q, xp_alignment q, xp_dealloc_period q)"

lemma same_handles_ids:
  "map (\<lambda>p. sl_handle (ep_slice p)) ps' = map (\<lambda>p. sl_handle (ep_slice p)) ps \<Longrightarrow>
    sl_handle ` set (eslices ps') = sl_handle ` set (eslices ps)"
  "map ebuffer ps' = map ebuffer ps \<Longrightarrow> slice_id ` set (eslices ps') = slice_id ` set (eslices ps)"
proof -
  assume "map (\<lambda>p. sl_handle (ep_slice p)) ps' = map (\<lambda>p. sl_handle (ep_slice p)) ps"
  then have "set (map (\<lambda>p. sl_handle (ep_slice p)) ps') = set (map (\<lambda>p. sl_handle (ep_slice p)) ps)" by simp
  then show "sl_handle ` set (eslices ps') = sl_handle ` set (eslices ps)" by (simp add: image_image)
next
  assume "map ebuffer ps' = map ebuffer ps"
  then have "fst ` set (map ebuffer ps') = fst ` set (map ebuffer ps)" by simp
  then show "slice_id ` set (eslices ps') = slice_id ` set (eslices ps)" unfolding buffer_ids .
qed

lemma exclusive_try_heap:
  assumes "exclusive_try_reserve av n q h g = Ok (r, q', h', g')"
  shows "frames (sl_handle ` set (eslices (xp_pages q))) h h'"
    "sl_handle ` set (eslices (xp_pages q')) = sl_handle ` set (eslices (xp_pages q))"
    "exclusive_shape q' = exclusive_shape q" "xp_last_dealloc_check q' = xp_last_dealloc_check q"
proof -
  have "frames (sl_handle ` set (eslices (xp_pages q))) h h'
    \<and> map (\<lambda>p. sl_handle (ep_slice p)) (xp_pages q') = map (\<lambda>p. sl_handle (ep_slice p)) (xp_pages q)
    \<and> exclusive_shape q' = exclusive_shape q \<and> xp_last_dealloc_check q' = xp_last_dealloc_check q"
  proof (cases "get_free_page n (xp_pages q) h")
    case None
    with assms show ?thesis by (auto simp: exclusive_try_reserve_def Let_def exclusive_shape_def)
  next
    case (Some k)
    from get_free_page_Some [OF Some] have k: "k < length (xp_pages q)" by simp
    then have own: "sl_handle (ep_slice (xp_pages q ! k)) \<in> sl_handle ` set (eslices (xp_pages q))" by simp
    have "map (\<lambda>p. sl_handle (ep_slice p)) ((xp_pages q)[k := p]) = map (\<lambda>p. sl_handle (ep_slice p)) (xp_pages q)"
      if "sl_handle (ep_slice p) = sl_handle (ep_slice (xp_pages q ! k))" for p
      using that k by (simp add: map_update list_update_same_conv)
    with assms Some frames_ops(4) [OF disjI1 [OF own]] show ?thesis
      by (auto simp: exclusive_try_reserve_def Let_def exclusive_shape_def)
  qed
  then show "frames (sl_handle ` set (eslices (xp_pages q))) h h'"
    "sl_handle ` set (eslices (xp_pages q')) = sl_handle ` set (eslices (xp_pages q))"
    "exclusive_shape q' = exclusive_shape q" "xp_last_dealloc_check q' = xp_last_dealloc_check q"
    using same_handles_ids(1) by blast+
qed

lemma exclusive_alloc_heap:
  assumes "exclusive_alloc av ops n q h st = (Ok (x, q', h'), st')"
  shows "frames {} h h'" "sl_handle ` set (eslices (xp_pages q')) \<subseteq> sl_handle ` set (eslices (xp_pages q)) \<union> {next_id h}"
    "exclusive_shape q' = exclusive_shape q" "xp_last_dealloc_check q' = xp_last_dealloc_check q"
proof -
  have new: "frames {} h (update_location (next_id h) l (clone_handle (next_id h) (snd (handle_new h))))" for l
    by (rule frames_later [OF frames_later [OF frames_handle_new]]; rule frames_ops; simp)
  show "frames {} h h'" "sl_handle ` set (eslices (xp_pages q')) \<subseteq> sl_handle ` set (eslices (xp_pages q)) \<union> {next_id h}"
    "exclusive_shape q' = exclusive_shape q" "xp_last_dealloc_check q' = xp_last_dealloc_check q"
    using assms new
    by (auto simp: exclusive_alloc_def exclusive_alloc_page_def Let_def slice_new_def handle_new_def exclusive_shape_def
        split: if_splits prod.splits outcome.splits)
qed

lemma exclusive_loop_heap:
  "exclusive_loop ops c ps tmp h g st = (ps', h', g', st') \<Longrightarrow>
    frames (sl_handle ` set (eslices ps)) h h' \<and> set (eslices ps') \<subseteq> set (eslices (tmp @ ps))"
proof (induction ps arbitrary: tmp h g st)
  case (Cons p ps)
  let ?hs = "sl_handle ` set (eslices (p # ps))"
  define p1 where "p1 = (if slice_is_free h (ep_slice p) then p\<lparr>ep_free_count := ep_free_count p + 1\<rparr> else p)"
  have sl: "ep_slice p1 = ep_slice p" by (simp add: p1_def)
  obtain h1 g1 st1 tmp1 where run: "exclusive_loop ops c ps tmp1 h1 g1 st1 = (ps', h', g', st')"
    and h1: "h1 = drop_handle (sl_handle (ep_slice p)) h \<or> h1 = update_page (sl_handle (ep_slice p)) (of_nat (length tmp)) h"
    and tmp1: "tmp1 = tmp \<or> tmp1 = tmp @ [p1]"
    using Cons.prems sl by (auto simp: Let_def p1_def [symmetric] split: if_splits)
  from h1 have "frames ?hs h h1" using frames_ops(3,5) [of "sl_handle (ep_slice p)" ?hs h] by auto
  moreover from Cons.IH [OF run] have "frames ?hs h1 h'" by (auto intro: frames_weaken)
  ultimately have "frames ?hs h h'" by (rule frames_trans)
  moreover have "set (eslices tmp1) \<subseteq> insert (ep_slice p) (set (eslices tmp))" using tmp1 sl by auto
  then have "set (eslices ps') \<subseteq> set (eslices (tmp @ p # ps))" using Cons.IH [OF run] by auto blast
  ultimately show ?case by simp
qed simp

context compute_storage
begin

lemma confined_same: "heap_ok h' \<Longrightarrow> frames hs h h' \<Longrightarrow> confined ids held hs is h st h' st"
  by (simp add: confined_def)

lemma confined_alloc:
  assumes "sane st" "so_alloc ops n st = (r, st')" "r \<noteq> Panic" "heap_ok h'" "frames hs h h'"
  shows "confined ids held hs is h st h' st'"
  using alloc_fresh [OF assms(1), of n _ st'] alloc_err [OF assms(1), of n _ st'] held_ids [OF assms(1)] assms
  by (cases r) (auto simp: confined_def)

lemma exclusive_try_step:
  assumes sv: "exclusive_served ids held sane q h st"
  shows "\<exists>r q' h'. exclusive_try_reserve av n q h g = Ok (r, q', h', g)
    \<and> dyn_step ids held sane (DynExclusive q) h st (DynExclusive q') h' st
    \<and> exclusive_shape q' = exclusive_shape q \<and> xp_last_dealloc_check q' = xp_last_dealloc_check q
    \<and> map ebuffer (xp_pages q') = map ebuffer (xp_pages q)
    \<and> (r = None \<longrightarrow> dyn_live h' (DynExclusive q') = dyn_live h (DynExclusive q))
    \<and> (\<forall>i. r = Some i \<longrightarrow> one_more n i (dyn_live h (DynExclusive q)) (dyn_live h' (DynExclusive q')))"
proof -
  have ok: "exclusive_ok q h" using sv by (simp add: exclusive_served_def)
  from try_reserve_exclusive [OF ok, of av n g] obtain r q' h' where
    t: "exclusive_try_reserve av n q h g = Ok (r, q', h', g)" "exclusive_ok q' h'"
    "map ebuffer (xp_pages q') = map ebuffer (xp_pages q)"
    "r = None \<longrightarrow> in_use h' (eslices (xp_pages q')) = in_use h (eslices (xp_pages q))"
    "\<forall>i. r = Some i \<longrightarrow> one_more n i (in_use h (eslices (xp_pages q))) (in_use h' (eslices (xp_pages q')))" by blast
  have sv': "exclusive_served ids held sane q' h' st" using sv t(2,3) by (simp add: exclusive_served_def)
  have "dyn_step ids held sane (DynExclusive q) h st (DynExclusive q') h' st"
    by (rule dyn_stepI)
      (use sv' exclusive_try_heap(1,2) [OF t(1)] placed_heap [OF exclusive_placed [OF sv']] same_handles_ids(2) [OF t(3)]
        in \<open>simp_all add: confined_same fresh_from_refl image_image\<close>)
  with t exclusive_try_heap(3,4) [OF t(1)] show ?thesis by auto
qed

lemma exclusive_alloc_step:
  assumes sv: "exclusive_served ids held sane q h st" and a: "exclusive_alloc av ops n q h st = (r, st')"
  shows "case r of
      Ok (x, q', h') \<Rightarrow> dyn_step ids held sane (DynExclusive q) h st (DynExclusive q') h' st'
        \<and> exclusive_shape q' = exclusive_shape q \<and> xp_last_dealloc_check q' = xp_last_dealloc_check q
        \<and> one_more n x (dyn_live h (DynExclusive q)) (dyn_live h' (DynExclusive q'))
    | Err e \<Rightarrow> dyn_step ids held sane (DynExclusive q) h st (DynExclusive q) h st'
    | Panic \<Rightarrow> storage_panics ops st"
proof -
  have sane: "sane st" and hok: "heap_ok h" using sv placed_heap [OF exclusive_placed [OF sv]] by (simp_all add: exclusive_served_def)
  let ?k = "next_multiple_of (max (av_bytes av (xp_cur_avg_size q)) n) (xp_alignment q)"
  note s = alloc_exclusive_served [OF sv a]
  show ?thesis
  proof (cases r)
    case (Ok b)
    obtain x q' h' where b: "b = (x, q', h')" by (cases b)
    have a1: "exclusive_alloc av ops n q h st = (outcome.Ok (x, q', h'), st')" using a Ok b by simp
    have le: "n \<le> xp_max_alloc_size q" using a1 by (auto simp: exclusive_alloc_def split: if_splits)
    obtain r1 st1 where al: "so_alloc ops ?k st = (r1, st1)" by (cases "so_alloc ops ?k st")
    have r1: "\<exists>c. r1 = outcome.Ok c" "st1 = st'" using a1 al le
      by (auto simp: exclusive_alloc_def exclusive_alloc_page_def Let_def split: outcome.splits prod.splits)
    then obtain c where c: "so_alloc ops ?k st = (outcome.Ok c, st')" using al by auto
    have sv': "exclusive_served ids held sane q' h' st'" using s Ok b by simp
    from alloc_exclusive [OF _ le c, of h] sv a1 obtain p where
      p: "xp_pages q' = xp_pages q @ [p]" "ebuffer p = (sh_id c, True, ?k)" by (auto simp: exclusive_served_def)
    note hp = exclusive_alloc_heap [OF a1]
    have "dyn_step ids held sane (DynExclusive q) h st (DynExclusive q') h' st'"
    proof (rule dyn_stepI)
      show "confined ids held (dyn_handles (DynExclusive q)) (dyn_ids (DynExclusive q)) h st h' st'"
        by (rule confined_alloc [OF sane c]) (use placed_heap [OF exclusive_placed [OF sv']] hp(1) in \<open>auto intro: frames_weaken\<close>)
      have "slice_id (ep_slice p) = sh_id c" using p(2) by (simp add: ebuffer_def)
      moreover have "sh_id c \<notin> ids st" using alloc_fresh [OF sane c] by simp
      ultimately show "fresh_from ids h st (dyn_handles (DynExclusive q)) (dyn_ids (DynExclusive q))
          (dyn_handles (DynExclusive q')) (dyn_ids (DynExclusive q'))"
        using hp(2) p(1) by (auto simp: fresh_from_def)
    qed (use sv' in simp)
    with s Ok b hp(3,4) show ?thesis by simp
  next
    case (Err e)
    have sv': "exclusive_served ids held sane q h st'" using s Err by simp
    have "confined ids held (dyn_handles (DynExclusive q)) (dyn_ids (DynExclusive q)) h st h st'"
    proof (cases "xp_max_alloc_size q < n")
      case True
      with a have "st' = st" by (simp add: exclusive_alloc_def)
      then show ?thesis using confined_refl [OF hok] by simp
    next
      case False
      obtain r1 st1 where al: "so_alloc ops ?k st = (r1, st1)" by (cases "so_alloc ops ?k st")
      have "r1 = outcome.Err e" "st1 = st'" using a False Err al
        by (auto simp: exclusive_alloc_def exclusive_alloc_page_def Let_def split: outcome.splits prod.splits)
      with al show ?thesis by (intro confined_alloc [OF sane _ _ hok frames_refl]) auto
    qed
    with sv' Err show ?thesis by (auto intro!: dyn_stepI simp: fresh_from_refl)
  next
    case Panic
    obtain r1 st1 where al: "so_alloc ops ?k st = (r1, st1)" by (cases "so_alloc ops ?k st")
    have "r1 = outcome.Panic" using a Panic al
      by (auto simp: exclusive_alloc_def exclusive_alloc_page_def Let_def split: if_splits outcome.splits prod.splits)
    then show ?thesis using Panic al by (auto simp: storage_panics_def intro: exI [of _ ?k])
  qed
qed

text \<open>Buffers given back.\<close>

lemma dealloc_others:
  assumes "sane st"
  shows "ids (if b then so_dealloc ops i st else st) = ids st" "sane (if b then so_dealloc ops i st else st)"
    "j \<noteq> i \<Longrightarrow> held (if b then so_dealloc ops i st else st) j = held st j"
  using assms dealloc_ids dealloc_sane dealloc_held by simp_all

lemma exclusive_loop_storage:
  "sane st \<Longrightarrow> exclusive_loop ops c ps tmp h g st = (ps', h', g', st') \<Longrightarrow>
    ids st' = ids st \<and> (\<forall>j. j \<notin> slice_id ` set (eslices ps) \<longrightarrow> held st' j = held st j)"
proof (induction ps arbitrary: tmp h g st)
  case (Cons p ps)
  obtain b tmp1 h1 g1 where
    run: "exclusive_loop ops c ps tmp1 h1 g1 (if b then so_dealloc ops (slice_id (ep_slice p)) st else st) = (ps', h', g', st')"
  proof (cases "slice_is_free h (ep_slice p) \<and> (alloc_after_free \<le> Suc (ep_free_count p) \<or> c = Explicit)")
    case True
    with Cons.prems(2) show ?thesis by (intro that [of tmp _ _ True]) (auto simp: Let_def)
  next
    case False
    with Cons.prems(2) show ?thesis by (intro that [of _ _ _ False]) (auto simp: Let_def split: if_splits)
  qed
  from Cons.IH [OF dealloc_others(2) [OF Cons.prems(1)] run] dealloc_others(1,3) [OF Cons.prems(1)]
  show ?case by simp
qed simp

lemma exclusive_cleanup_step:
  assumes sv: "exclusive_served ids held sane q h st" and nr: "xp_last_dealloc_check q \<le> nr"
  shows "\<exists>q' h' g' st'. exclusive_cleanup ops nr c q h g st = Ok (q', h', g', st')
    \<and> dyn_step ids held sane (DynExclusive q) h st (DynExclusive q') h' st'
    \<and> exclusive_shape q' = exclusive_shape q \<and> xp_last_dealloc_check q' \<le> nr
    \<and> dyn_live h' (DynExclusive q') = dyn_live h (DynExclusive q)"
proof (cases "c = Explicit \<or> xp_dealloc_period q div alloc_after_free \<le> nr - xp_last_dealloc_check q")
  case False
  with nr have "exclusive_cleanup ops nr c q h g st = Ok (q, h, g, st)" by (auto simp: exclusive_cleanup_def Let_def)
  moreover have "dyn_step ids held sane (DynExclusive q) h st (DynExclusive q) h st"
    unfolding dyn_step_def by (rule group_step_refl) (use sv in \<open>simp add: group_single\<close>)
  ultimately show ?thesis using nr by blast
next
  case True
  obtain ps h' g' st' where loop: "exclusive_loop ops c (xp_pages q) [] h g st = (ps, h', g', st')"
    by (cases "exclusive_loop ops c (xp_pages q) [] h g st")
  let ?q = "q\<lparr>xp_last_dealloc_check := nr, xp_pages := ps\<rparr>"
  have run: "exclusive_cleanup ops nr c q h g st = Ok (?q, h', g', st')"
    using True nr loop by (auto simp: exclusive_cleanup_def Let_def)
  have sane: "sane st" using sv by (simp add: exclusive_served_def)
  from exclusive_cleanup_shown [OF sv run]
  have sv': "exclusive_served ids held sane ?q h' st'" and live: "in_use h' (eslices ps) = in_use h (eslices (xp_pages q))"
    by simp_all
  note hp = exclusive_loop_heap [OF loop] and st = exclusive_loop_storage [OF sane loop]
  have "dyn_step ids held sane (DynExclusive q) h st (DynExclusive ?q) h' st'"
  proof (rule dyn_stepI)
    show "confined ids held (dyn_handles (DynExclusive q)) (dyn_ids (DynExclusive q)) h st h' st'"
      using hp st placed_heap [OF exclusive_placed [OF sv']] by (simp add: confined_def)
    show "fresh_from ids h st (dyn_handles (DynExclusive q)) (dyn_ids (DynExclusive q))
        (dyn_handles (DynExclusive ?q)) (dyn_ids (DynExclusive ?q))"
      using hp by (auto simp: fresh_from_def)
  qed (use sv' in simp)
  with run live show ?thesis by (auto simp: exclusive_shape_def)
qed

end

section \<open>Direct pools\<close>

definition direct_shape :: "direct_pool \<Rightarrow> memory_location \<times> nat" where
  "direct_shape q = (dp_base q, dp_alignment q)"

lemma direct_try_heap:
  assumes "direct_try_reserve n q h g = Ok (r, q', h', g')"
  shows "frames (sl_handle ` set (direct_live q)) h h'" "sl_handle ` set (direct_live q') = sl_handle ` set (direct_live q)"
    "direct_shape q' = direct_shape q"
proof -
  have "frames (sl_handle ` set (direct_live q)) h h' \<and> map sl_handle (direct_live q') = map sl_handle (direct_live q)
    \<and> direct_shape q' = direct_shape q"
  proof (cases "position (exact_fit h (n + calculate_padding n (dp_alignment q))) (dp_slices q)")
    case None
    with assms show ?thesis by (auto simp: direct_try_reserve_def Let_def direct_shape_def)
  next
    case (Some k)
    with assms obtain s where s: "dp_slices q ! k = Some s"
      by (auto simp: direct_try_reserve_def Let_def split: option.splits)
    define s' where "s' = s\<lparr>sl_padding := calculate_padding n (dp_alignment q),
      sl_storage := (sl_storage s)\<lparr>sh_offset := 0, sh_size := n\<rparr>\<rparr>"
    have q': "dp_slices q' = (dp_slices q)[k := Some s']" "h' = clone_handle (sl_handle s) h" "direct_shape q' = direct_shape q"
      using assms Some s by (auto simp: direct_try_reserve_def Let_def direct_shape_def s'_def)
    have k: "k < length (dp_slices q)" using position_Some [OF Some] by simp
    have "s \<in> set (direct_live q)" unfolding direct_live_def by (rule nth_somes [OF k s])
    then have "frames (sl_handle ` set (direct_live q)) h h'" using q'(2) by (auto intro: frames_ops)
    moreover have "map sl_handle (direct_live q') = map sl_handle (direct_live q)"
      using s k q'(1) somes_split [OF k] by (simp add: direct_live_def somes_update s'_def)
    ultimately show ?thesis using q'(3) by simp
  qed
  then show "frames (sl_handle ` set (direct_live q)) h h'" "direct_shape q' = direct_shape q"
    "sl_handle ` set (direct_live q') = sl_handle ` set (direct_live q)"
    by (metis list.set_map)+
qed

lemma new_frames:
  "frames {} h (clone_handle (next_id h) (update_location (next_id h) l (snd (handle_new h))))"
  by (rule frames_later [OF frames_later [OF frames_handle_new]]; rule frames_ops; simp)

lemma direct_alloc_heap:
  assumes "direct_alloc ops n m q h st = (Ok (x, q', h'), st')"
  shows "frames {} h h'" "direct_shape q' = direct_shape q"
    "sl_handle ` set (direct_live q') \<subseteq> sl_handle ` set (direct_live q) \<union> {next_id h}"
proof -
  have "frames {} h h' \<and> direct_shape q' = direct_shape q
    \<and> (\<forall>s. Some s \<in> set (dp_slices q') \<longrightarrow> sl_handle s = next_id h \<or> Some s \<in> set (dp_slices q))"
    using assms new_frames [of h]
    by (auto simp: direct_alloc_def Let_def slice_new_def handle_new_def direct_shape_def
        split: if_splits prod.splits outcome.splits dest!: set_update_subset_insert [THEN subsetD])
  then show "frames {} h h'" "direct_shape q' = direct_shape q"
    "sl_handle ` set (direct_live q') \<subseteq> sl_handle ` set (direct_live q) \<union> {next_id h}"
    by (auto simp: direct_live_def set_somes)
qed

context compute_storage
begin

lemma confined_mapped:
  assumes "sane st" "mapped_handle ops m n st = (r, st')" "r \<noteq> Panic" "heap_ok h'" "frames hs h h'"
  shows "confined ids held hs is h st h' st'"
proof (cases m)
  case Eager
  with assms show ?thesis by (intro confined_alloc [OF assms(1)]) (auto simp: mapped_handle_def)
next
  case Lazy
  with assms(2) obtain i where "so_mint ops st = (i, st')" by (auto simp: mapped_handle_def split: prod.splits)
  with mint_fresh [OF assms(1)] assms(4,5) show ?thesis by (auto simp: confined_def)
qed

lemma direct_try_step:
  assumes sv: "direct_served ids held sane q h st"
  shows "\<exists>r q' h'. direct_try_reserve n q h g = Ok (r, q', h', g)
    \<and> dyn_step ids held sane (DynDirect q :: 'f dyn_pool) h st (DynDirect q') h' st
    \<and> direct_shape q' = direct_shape q \<and> map buffer (direct_live q') = map buffer (direct_live q)
    \<and> (r = None \<longrightarrow> in_use h' (direct_live q') = in_use h (direct_live q))
    \<and> (\<forall>i. r = Some i \<longrightarrow> one_more n i (in_use h (direct_live q)) (in_use h' (direct_live q')))"
proof -
  have ok: "direct_ok q h" using sv by (simp add: direct_served_def)
  from try_reserve_direct [OF ok, of n g] obtain r q' h' where
    t: "direct_try_reserve n q h g = Ok (r, q', h', g)" "direct_ok q' h'" "map buffer (direct_live q') = map buffer (direct_live q)"
    "r = None \<longrightarrow> in_use h' (direct_live q') = in_use h (direct_live q)"
    "\<forall>i. r = Some i \<longrightarrow> one_more n i (in_use h (direct_live q)) (in_use h' (direct_live q'))" by blast
  have sv': "direct_served ids held sane q' h' st" using sv t(2,3) by (simp add: direct_served_def)
  have "slice_id ` set (direct_live q') = slice_id ` set (direct_live q)"
    using arg_cong [OF t(3), of "\<lambda>bs. fst ` set bs"] unfolding buffer_ids .
  then have "dyn_step ids held sane (DynDirect q :: 'f dyn_pool) h st (DynDirect q') h' st"
    by (intro dyn_stepI)
      (use sv' direct_try_heap(1,2) [OF t(1)] placed_heap [OF direct_placed [OF sv']]
        in \<open>simp_all add: confined_same fresh_from_refl\<close>)
  with t direct_try_heap(3) [OF t(1)] show ?thesis by auto
qed

lemma direct_alloc_step:
  assumes sv: "direct_served ids held sane q h st" and a: "direct_alloc ops n m q h st = (r, st')"
  shows "case r of
      Ok (x, q', h') \<Rightarrow> dyn_step ids held sane (DynDirect q :: 'f dyn_pool) h st (DynDirect q') h' st'
        \<and> direct_shape q' = direct_shape q \<and> one_more n x (in_use h (direct_live q)) (in_use h' (direct_live q'))
    | Err e \<Rightarrow> dyn_step ids held sane (DynDirect q :: 'f dyn_pool) h st (DynDirect q) h st'
    | Panic \<Rightarrow> storage_panics ops st"
proof -
  have sane: "sane st" and ok: "direct_ok q h" using sv by (simp_all add: direct_served_def)
  have hok: "heap_ok h" by (rule placed_heap [OF direct_placed [OF sv]])
  let ?k = "n + calculate_padding n (dp_alignment q)"
  obtain rm stm where m: "mapped_handle ops m ?k st = (rm, stm)" by (cases "mapped_handle ops m ?k st")
  show ?thesis
  proof (cases rm)
    case (Ok b)
    from mapped_handle_fresh [OF sane m [unfolded Ok]] have b: "sh_offset b = 0" "sh_id b \<notin> ids st" by simp_all
    from alloc_direct [OF ok m [unfolded Ok] b(1)] obtain q' h' xs s ys where
      al: "direct_alloc ops n m q h st = (outcome.Ok (next_id h, q', h'), stm)" "direct_live q = xs @ ys"
      "direct_live q' = xs @ s # ys" "buffer s = (sh_id b, m = Eager, ?k)"
      "one_more n (next_id h) (in_use h (direct_live q)) (in_use h' (direct_live q'))" by blast
    have sv': "direct_served ids held sane q' h' st'" using alloc_direct_served [OF sv al(1)] al(1) a by simp
    note hp = direct_alloc_heap [OF al(1)]
    have "dyn_step ids held sane (DynDirect q :: 'f dyn_pool) h st (DynDirect q') h' st'"
    proof (rule dyn_stepI)
      show "confined ids held (dyn_handles (DynDirect q :: 'f dyn_pool)) (dyn_ids (DynDirect q :: 'f dyn_pool)) h st h' st'"
        using confined_mapped [OF sane m _ placed_heap [OF direct_placed [OF sv']]] hp(1) al(1) a Ok
        by (auto intro: frames_weaken)
      have "slice_id s = sh_id b" using al(4) by (simp add: buffer_def)
      then show "fresh_from ids h st (dyn_handles (DynDirect q :: 'f dyn_pool)) (dyn_ids (DynDirect q :: 'f dyn_pool))
          (dyn_handles (DynDirect q' :: 'f dyn_pool)) (dyn_ids (DynDirect q' :: 'f dyn_pool))"
        using hp(3) al(2,3) b(2) by (auto simp: fresh_from_def)
    qed (use sv' in simp)
    moreover have "r = outcome.Ok (next_id h, q', h')" using a al(1) by simp
    ultimately show ?thesis using al(5) hp(2) by simp
  next
    case (Err e)
    then have r: "r = outcome.Err e" "st' = stm" using a m by (simp_all add: direct_alloc_def Let_def)
    have sv': "direct_served ids held sane q h st'" using alloc_direct_served [OF sv a] r by simp
    have "confined ids held (dyn_handles (DynDirect q :: 'f dyn_pool)) (dyn_ids (DynDirect q :: 'f dyn_pool)) h st h st'"
      using confined_mapped [OF sane m _ hok frames_refl] r Err by simp
    with sv' r show ?thesis by (auto intro!: dyn_stepI simp: fresh_from_refl)
  next
    case Panic
    then have "r = outcome.Panic" using a m by (simp add: direct_alloc_def Let_def)
    then show ?thesis using mapped_handle_Panic [OF m [unfolded Panic]] by (auto simp: storage_panics_def)
  qed
qed

lemma release_entries_footprint:
  "sane (re_storage r) \<Longrightarrow> release_entries ops enough k es r = (es', r') \<Longrightarrow>
    frames (sl_handle ` set (somes es)) (re_heap r) (re_heap r') \<and> set (somes es') \<subseteq> set (somes es)
    \<and> ids (re_storage r') = ids (re_storage r)
    \<and> (\<forall>j. j \<notin> slice_id ` set (somes es) \<longrightarrow> held (re_storage r') j = held (re_storage r) j)"
proof (induction es arbitrary: k r es')
  case (Cons e es)
  show ?case
  proof (cases "enough (re_reserved r)")
    case False
    show ?thesis
    proof (cases e)
      case None
      with Cons.prems(2) False obtain es1 where "release_entries ops enough (Suc k) es r = (es1, r')" "es' = None # es1"
        by (auto split: prod.splits)
      with Cons.IH [OF Cons.prems(1), of "Suc k" es1] None show ?thesis by auto
    next
      case (Some s)
      show ?thesis
      proof (cases "slice_is_free (re_heap r) s")
        case True
        let ?r = "release_entry ops k s r"
        have rs: "re_storage ?r = (if sl_mapped s then so_dealloc ops (slice_id s) (re_storage r) else re_storage r)"
          "re_heap ?r = drop_handle (sl_handle s) (re_heap r)" by (simp_all add: release_entry_def)
        note d = dealloc_others [OF Cons.prems(1), where b = "sl_mapped s" and i = "slice_id s"]
        obtain es1 where run: "release_entries ops enough (Suc k) es ?r = (es1, r')" "es' = None # es1"
          using Cons.prems(2) False Some True by (auto split: prod.splits)
        from Cons.IH [OF _ run(1)] d(2) rs(1)
        have ih: "frames (sl_handle ` set (somes es)) (re_heap ?r) (re_heap r')" "set (somes es1) \<subseteq> set (somes es)"
          "ids (re_storage r') = ids (re_storage ?r)"
          "\<forall>j. j \<notin> slice_id ` set (somes es) \<longrightarrow> held (re_storage r') j = held (re_storage ?r) j" by auto
        have "frames (sl_handle ` set (somes (e # es))) (re_heap r) (re_heap ?r)"
          using Some rs(2) frames_ops(3) [of "sl_handle s"] by simp
        moreover have "frames (sl_handle ` set (somes (e # es))) (re_heap ?r) (re_heap r')"
          using ih(1) Some by (auto intro: frames_weaken)
        ultimately have "frames (sl_handle ` set (somes (e # es))) (re_heap r) (re_heap r')" by (rule frames_trans)
        then show ?thesis using ih d(1,3) rs(1) run(2) Some by auto
      next
        case False
        with Cons.prems(2) \<open>\<not> enough (re_reserved r)\<close> Some obtain es1 where
          "release_entries ops enough (Suc k) es r = (es1, r')" "es' = Some s # es1" by (auto split: prod.splits)
        with Cons.IH [OF Cons.prems(1), of "Suc k" es1] Some show ?thesis by (auto intro: frames_weaken)
      qed
    qed
  qed (use Cons.prems in auto)
qed simp

lemma direct_reclaim_step:
  assumes sv: "direct_served ids held sane q h st" and r: "direct_reclaim ops q h g st = (b, q', h', g', st')"
  shows "dyn_step ids held sane (DynDirect q :: 'f dyn_pool) h st (DynDirect q') h' st' \<and> direct_shape q' = direct_shape q
    \<and> in_use h' (direct_live q') = in_use h (direct_live q)"
proof -
  have sane: "sane st" using sv by (simp add: direct_served_def)
  note rel = release_free_served [OF sv r [unfolded direct_reclaim_def]]
  have hok: "heap_ok h'" by (rule placed_heap [OF direct_placed [OF conjunct1 [OF rel]]])
  have "frames (sl_handle ` set (direct_live q)) h h' \<and> set (direct_live q') \<subseteq> set (direct_live q)
    \<and> ids st' = ids st \<and> (\<forall>j. j \<notin> slice_id ` set (direct_live q) \<longrightarrow> held st' j = held st j)
    \<and> direct_shape q' = direct_shape q"
    using r release_entries_footprint [of "\<lparr>re_vacant = dp_vacant q, re_reserved = direct_reserved q, re_released = False,
        re_heap = h, re_graph = g, re_storage = st\<rparr>" _ 0 "dp_slices q"] sane
    by (fastforce simp: direct_reclaim_def direct_release_free_def direct_live_def direct_shape_def
        split: option.splits if_splits prod.splits)
  moreover from this have "sl_handle ` set (direct_live q') \<subseteq> sl_handle ` set (direct_live q)"
    "slice_id ` set (direct_live q') \<subseteq> slice_id ` set (direct_live q)" by (blast intro: image_mono)+
  ultimately show ?thesis using rel hok by (intro conjI dyn_stepI) (auto simp: confined_def fresh_from_def)
qed

end

section \<open>Persistent pools\<close>

definition persistent_shape :: "persistent_pool \<Rightarrow> memory_location \<times> nat" where
  "persistent_shape q = (pp_base q, pp_alignment q)"

lemma first_free_index: "first_free h ss ps = Ok (Some k) \<Longrightarrow> k < length ss"
  by (induction ps) (auto split: if_splits)

lemma persistent_try_heap:
  assumes "persistent_try_reserve n q h g = Ok (r, q', h', g')"
  shows "frames (sl_handle ` set (pp_slices q)) h h'" "sl_handle ` set (pp_slices q') = sl_handle ` set (pp_slices q)"
    "persistent_shape q' = persistent_shape q"
proof -
  have "frames (sl_handle ` set (pp_slices q)) h h' \<and> map sl_handle (pp_slices q') = map sl_handle (pp_slices q)
    \<and> persistent_shape q' = persistent_shape q"
  proof (cases r)
    case None
    with assms show ?thesis
      by (auto simp: persistent_try_reserve_def Let_def persistent_shape_def split: option.splits)
  next
    case (Some x)
    with assms obtain k s where k: "first_free h (pp_slices q) (the (pp_sizes q (n + calculate_padding n (pp_alignment q)))) = Ok (Some k)"
      and q': "pp_slices q' = (pp_slices q)[k := s]" "sl_handle s = sl_handle (pp_slices q ! k)"
        "h' = clone_handle (sl_handle (pp_slices q ! k)) h" "persistent_shape q' = persistent_shape q"
      by (auto simp: persistent_try_reserve_def Let_def persistent_shape_def split: option.splits)
    from first_free_index [OF k] have k: "k < length (pp_slices q)" .
    then have "sl_handle (pp_slices q ! k) \<in> sl_handle ` set (pp_slices q)" by simp
    then have "frames (sl_handle ` set (pp_slices q)) h h'" using q'(3) by (auto intro: frames_ops)
    moreover have "map sl_handle (pp_slices q') = map sl_handle (pp_slices q)"
      using q'(1,2) k by (simp add: map_update list_update_same_conv)
    ultimately show ?thesis using q'(4) by simp
  qed
  then show "frames (sl_handle ` set (pp_slices q)) h h'" "persistent_shape q' = persistent_shape q"
    "sl_handle ` set (pp_slices q') = sl_handle ` set (pp_slices q)"
    by (metis list.set_map)+
qed

lemma persistent_alloc_heap:
  assumes "persistent_alloc ops n m q h st = (Ok (x, q', h'), st')"
  shows "frames {} h h'" "persistent_shape q' = persistent_shape q"
    "sl_handle ` set (pp_slices q') \<subseteq> sl_handle ` set (pp_slices q) \<union> {next_id h}"
  using assms new_frames [of h]
  by (auto simp: persistent_alloc_def Let_def slice_new_def handle_new_def persistent_shape_def
      split: prod.splits outcome.splits)

lemma persistent_loop_heap:
  "persistent_loop ops ss kept sizes h g st = (kept', sizes', h', g', st') \<Longrightarrow>
    frames (sl_handle ` set ss) h h' \<and> set kept' \<subseteq> set (kept @ ss)
    \<and> (\<forall>i. \<not> is_free h i \<longrightarrow> strong_count h' i = strong_count h i)"
proof (induction ss arbitrary: kept sizes h g st)
  case (Cons s ss)
  let ?hs = "sl_handle ` set (s # ss)"
  obtain h1 kept1 sizes1 g1 st1 where run: "persistent_loop ops ss kept1 sizes1 h1 g1 st1 = (kept', sizes', h', g', st')"
    and h1: "frames ?hs h h1" "\<forall>i. \<not> is_free h i \<longrightarrow> strong_count h1 i = strong_count h i" "set kept1 \<subseteq> insert s (set kept)"
  proof (cases "slice_is_free h s")
    case True
    have "strong_count (drop_handle (sl_handle s) h) i = strong_count h i" if "\<not> is_free h i" for i
      using that True by (cases "i = sl_handle s") (simp_all add: slice_is_free_def heap_simps)
    then show ?thesis
      by (intro that [of kept sizes "drop_handle (sl_handle s) h"])
        (use Cons.prems True frames_ops(3) [of "sl_handle s" ?hs h] in \<open>auto simp: Let_def\<close>)
  next
    case False
    then show ?thesis
      by (intro that [of "kept @ [s]" _ "update_slice (sl_handle s) (of_nat (length kept)) h"])
        (use Cons.prems frames_ops(1) [of "sl_handle s" ?hs h] in \<open>auto simp: Let_def heap_simps\<close>)
  qed
  note ih = Cons.IH [OF run]
  have "frames ?hs h1 h'" using ih by (auto intro: frames_weaken)
  with h1(1) have "frames ?hs h h'" by (rule frames_trans)
  moreover have "strong_count h' i = strong_count h i" if "\<not> is_free h i" for i
    using ih h1(2) that by (simp add: is_free_def)
  ultimately show ?case using ih h1(3) by auto
qed simp

context compute_storage
begin

lemma persistent_try_step:
  assumes sv: "persistent_served ids held sane q h st"
  shows "\<exists>r q' h'. persistent_try_reserve n q h g = Ok (r, q', h', g)
    \<and> dyn_step ids held sane (DynPersistent q :: 'f dyn_pool) h st (DynPersistent q') h' st
    \<and> persistent_shape q' = persistent_shape q \<and> length (pp_slices q') = length (pp_slices q)
    \<and> (r = None \<longrightarrow> in_use h' (pp_slices q') = in_use h (pp_slices q))
    \<and> (\<forall>i. r = Some i \<longrightarrow> one_more n i (in_use h (pp_slices q)) (in_use h' (pp_slices q')))"
proof -
  have ok: "persistent_ok q h" using sv by (simp add: persistent_served_def)
  from try_reserve_persistent [OF ok, of n g] obtain r q' h' where
    t: "persistent_try_reserve n q h g = Ok (r, q', h', g)" "persistent_ok q' h'"
    "map (need_buffer (pp_alignment q')) (pp_slices q') = map (need_buffer (pp_alignment q)) (pp_slices q)"
    "r = None \<longrightarrow> in_use h' (pp_slices q') = in_use h (pp_slices q)"
    "\<forall>i. r = Some i \<longrightarrow> one_more n i (in_use h (pp_slices q)) (in_use h' (pp_slices q'))" by blast
  have sv': "persistent_served ids held sane q' h' st" using sv t(2,3) by (simp add: persistent_served_def)
  have "slice_id ` set (pp_slices q') = slice_id ` set (pp_slices q)"
    using arg_cong [OF t(3), of "\<lambda>bs. fst ` set bs"] unfolding buffer_ids .
  then have "dyn_step ids held sane (DynPersistent q :: 'f dyn_pool) h st (DynPersistent q') h' st"
    by (intro dyn_stepI)
      (use sv' persistent_try_heap(1,2) [OF t(1)] placed_heap [OF persistent_placed [OF sv']]
        in \<open>simp_all add: confined_same fresh_from_refl\<close>)
  moreover have "length (pp_slices q') = length (pp_slices q)" using t(3) by (metis length_map)
  ultimately show ?thesis using t persistent_try_heap(3) [OF t(1)] by auto
qed

lemma persistent_alloc_step:
  assumes sv: "persistent_served ids held sane q h st" and a: "persistent_alloc ops n Eager q h st = (r, st')"
  shows "case r of
      Ok (x, q', h') \<Rightarrow> dyn_step ids held sane (DynPersistent q :: 'f dyn_pool) h st (DynPersistent q') h' st'
        \<and> persistent_shape q' = persistent_shape q \<and> one_more n x (in_use h (pp_slices q)) (in_use h' (pp_slices q'))
    | Err e \<Rightarrow> dyn_step ids held sane (DynPersistent q :: 'f dyn_pool) h st (DynPersistent q) h st'
    | Panic \<Rightarrow> storage_panics ops st"
proof -
  have sane: "sane st" and hok: "heap_ok h" using sv placed_heap [OF persistent_placed [OF sv]] by (simp_all add: persistent_served_def)
  let ?k = "n + calculate_padding n (pp_alignment q)"
  obtain rm stm where m: "mapped_handle ops Eager ?k st = (rm, stm)" by (cases "mapped_handle ops Eager ?k st")
  show ?thesis
  proof (cases rm)
    case (Ok b)
    from mapped_handle_fresh [OF sane m [unfolded Ok]] have b: "sh_id b \<notin> ids st" by simp
    from a m Ok obtain x q' h' where r: "r = outcome.Ok (x, q', h')" "st' = stm"
      and sl: "slice_id ` set (pp_slices q') \<subseteq> insert (sh_id b) (slice_id ` set (pp_slices q))"
      by (auto simp: persistent_alloc_def Let_def slice_new_def handle_new_def)
    note s = persistent_alloc_served [OF sv a [unfolded r(1)]]
    have sv': "persistent_served ids held sane q' h' st'" using s by simp
    note hp = persistent_alloc_heap [OF a [unfolded r(1)]]
    have "dyn_step ids held sane (DynPersistent q :: 'f dyn_pool) h st (DynPersistent q') h' st'"
    proof (rule dyn_stepI)
      show "confined ids held (dyn_handles (DynPersistent q :: 'f dyn_pool)) (dyn_ids (DynPersistent q :: 'f dyn_pool)) h st h' st'"
        using confined_mapped [OF sane m _ placed_heap [OF persistent_placed [OF sv']]] hp(1) r(2) Ok
        by (auto intro: frames_weaken)
      show "fresh_from ids h st (dyn_handles (DynPersistent q :: 'f dyn_pool)) (dyn_ids (DynPersistent q :: 'f dyn_pool))
          (dyn_handles (DynPersistent q' :: 'f dyn_pool)) (dyn_ids (DynPersistent q' :: 'f dyn_pool))"
        using hp(3) sl b by (auto simp: fresh_from_def)
    qed (use sv' in simp)
    then show ?thesis using s r hp(2) by simp
  next
    case (Err e)
    then have r: "r = outcome.Err e" "st' = stm" using a m by (simp_all add: persistent_alloc_def Let_def)
    have sv': "persistent_served ids held sane q h st'" using persistent_alloc_served [OF sv a] r by simp
    have "confined ids held (dyn_handles (DynPersistent q :: 'f dyn_pool)) (dyn_ids (DynPersistent q :: 'f dyn_pool)) h st h st'"
      using confined_mapped [OF sane m _ hok frames_refl] r Err by simp
    with sv' r show ?thesis by (auto intro!: dyn_stepI simp: fresh_from_refl)
  next
    case Panic
    then have "r = outcome.Panic" using a m by (simp add: persistent_alloc_def Let_def)
    then show ?thesis using mapped_handle_Panic [OF m [unfolded Panic]] by (auto simp: storage_panics_def)
  qed
qed

lemma persistent_loop_storage:
  "sane st \<Longrightarrow> persistent_loop ops ss kept sizes h g st = (kept', sizes', h', g', st') \<Longrightarrow>
    sane st' \<and> ids st' = ids st \<and> (\<forall>j. j \<notin> slice_id ` set ss \<longrightarrow> held st' j = held st j)"
proof (induction ss arbitrary: kept sizes h g st)
  case (Cons s ss)
  show ?case
  proof (cases "slice_is_free h s")
    case True
    note d = dealloc_others [OF Cons.prems(1), where b = "sl_mapped s" and i = "slice_id s"]
    have "persistent_loop ops ss kept sizes (drop_handle (sl_handle s) h) (snd (clear (sl_tainted s) g))
        (if sl_mapped s then so_dealloc ops (slice_id s) st else st) = (kept', sizes', h', g', st')"
      using Cons.prems(2) True by (simp add: Let_def)
    from Cons.IH [OF d(2) this] d(1,3) show ?thesis by simp
  next
    case False
    with Cons.IH [OF Cons.prems(1)] Cons.prems(2) show ?thesis by (auto simp: Let_def)
  qed
qed simp

lemma persistent_cleanup_step:
  assumes sv: "persistent_served ids held sane q h st" and r: "persistent_cleanup ops nr c q h g st = (q', h', g', st')"
  shows "dyn_step ids held sane (DynPersistent q :: 'f dyn_pool) h st (DynPersistent q') h' st'
    \<and> persistent_shape q' = persistent_shape q \<and> in_use h' (pp_slices q') = in_use h (pp_slices q)"
proof (cases "c = Explicit")
  case False
  then have "q' = q" "h' = h" "st' = st" using r by (simp_all add: persistent_cleanup_def)
  moreover have "dyn_step ids held sane (DynPersistent q :: 'f dyn_pool) h st (DynPersistent q) h st"
    unfolding dyn_step_def by (rule group_step_refl) (use sv in \<open>simp add: group_single\<close>)
  ultimately show ?thesis by simp
next
  case True
  obtain ss sizes st1 where l: "persistent_loop ops (pp_slices q) [] Map.empty h g st = (ss, sizes, h', g', st1)"
    "q' = q\<lparr>pp_sizes := sizes, pp_slices := ss\<rparr>" "st' = so_flush ops st1"
    using r True by (auto simp: persistent_cleanup_def split: prod.splits)
  have sane: "sane st" using sv by (simp add: persistent_served_def)
  have sv': "persistent_served ids held sane q' h' st'" by (rule persistent_cleanup_served [OF sv r])
  note hp = persistent_loop_heap [OF l(1)] and stg = persistent_loop_storage [OF sane l(1)]
  have fl: "ids st' = ids st" "\<forall>j. j \<notin> slice_id ` set (pp_slices q) \<longrightarrow> held st' j = held st j"
    using stg flush_keeps [of st1] l(3) by simp_all
  have sub: "sl_handle ` set ss \<subseteq> sl_handle ` set (pp_slices q)" "slice_id ` set ss \<subseteq> slice_id ` set (pp_slices q)"
    using hp by (auto intro: image_mono)
  have pre: "slots_ok (pp_base q) [] h" "waiting (pp_base q) (pp_slices q) [] h" "0 < pp_alignment q"
    "list_all (slice_sane (pp_alignment q)) ([] @ pp_slices q)" "sizes_ok (pp_alignment q) [] Map.empty"
    "owned ids held (map (need_buffer (pp_alignment q)) ([] @ pp_slices q)) st"
    using sv slots_ok_waiting by (auto simp: persistent_served_def persistent_ok_def slots_ok_def sizes_ok_def)
  from persistent_loop_shown [OF pre(1-5) sane pre(6) l(1)] have ss: "ss = in_use h (pp_slices q)" by simp
  have "in_use h' ss = in_use h ss"
    by (rule in_use_cong) (use hp ss in \<open>auto simp: in_use_def slice_is_free_def\<close>)
  then have live: "in_use h' (pp_slices q') = in_use h (pp_slices q)" using l(2) ss by (simp add: in_use_def)
  have "dyn_step ids held sane (DynPersistent q :: 'f dyn_pool) h st (DynPersistent q') h' st'"
    by (rule dyn_stepI)
      (use sv' hp fl sub l(2) placed_heap [OF persistent_placed [OF sv']] in \<open>auto simp: confined_def fresh_from_def\<close>)
  then show ?thesis using live l(2) by (simp add: persistent_shape_def)
qed

end

end
