(* ===== verification/Arena_Group.thy ===== *)
theory Arena_Group
  imports Pool_Steps
begin

text \<open>
  The operations of the arena as steps of the group of its pools, with the order the live slices are
  in.
\<close>

definition arena_group :: "arena \<Rightarrow> 'f dyn_pool list" where
  "arena_group a = map DynSliced (somes (ar_slots a))"

lemma slots_split:
  assumes "k < length slots" "slots ! k = Some q"
  shows "map DynSliced (somes slots)
      = map DynSliced (somes (take k slots)) @ DynSliced q # map DynSliced (somes (drop (Suc k) slots))"
    and "map DynSliced (somes (slots[k := Some q']))
      = map DynSliced (somes (take k slots)) @ DynSliced q' # map DynSliced (somes (drop (Suc k) slots))"
    and "map DynSliced (somes (slots[k := None]))
      = map DynSliced (somes (take k slots)) @ map DynSliced (somes (drop (Suc k) slots))"
  using somes_split [OF assms(1)] assms by (simp_all add: somes_update)

lemma slots_split_None:
  assumes "k < length slots" "slots ! k = None"
  shows "map DynSliced (somes slots) = map DynSliced (somes (take k slots)) @ map DynSliced (somes (drop (Suc k) slots))"
    and "map DynSliced (somes (slots[k := Some q]))
      = map DynSliced (somes (take k slots)) @ DynSliced q # map DynSliced (somes (drop (Suc k) slots))"
  using somes_split [OF assms(1)] assms by (simp_all add: somes_update)

text \<open>One pool of the slots steps.\<close>

lemma slots_group_step:
  assumes "group_served ids held sane (map DynSliced (somes slots) :: 'f dyn_pool list) h st"
    "k < length slots" "slots ! k = Some q" "pool_step ids held sane q h st q' h' st'"
  shows "group_step ids held sane (map DynSliced (somes slots) :: 'f dyn_pool list) h st
      (map DynSliced (somes (slots[k := Some q']))) h' st'"
    and "pool_live h' (sp_pages q') = pool_live h (sp_pages q) \<Longrightarrow>
      group_live h' (map DynSliced (somes (slots[k := Some q'])) :: 'f dyn_pool list)
        = group_live h (map DynSliced (somes slots) :: 'f dyn_pool list)"
    and "one_more n i (pool_live h (sp_pages q)) (pool_live h' (sp_pages q')) \<Longrightarrow>
      one_more n i (group_live h (map DynSliced (somes slots) :: 'f dyn_pool list))
        (group_live h' (map DynSliced (somes (slots[k := Some q'])) :: 'f dyn_pool list))"
  using group_put(1) [OF assms(1) [unfolded slots_split(1) [OF assms(2,3)]] dyn_step_sliced [OF assms(4)]]
    group_put_live(1) [OF assms(1) [unfolded slots_split(1) [OF assms(2,3)]] dyn_step_sliced [OF assms(4)]]
    group_put_live(2) [OF assms(1) [unfolded slots_split(1) [OF assms(2,3)]] dyn_step_sliced [OF assms(4)], of n i]
  unfolding slots_split(1,2) [OF assms(2,3)] by simp_all

lemma group_storage:
  assumes "group_served ids held sane ps h st" "confined ids held {} {} h st h st'" "sane st'"
  shows "group_step ids held sane ps h st ps h st'"
proof -
  have "group_served ids held sane ps h st'" using group_frame [OF assms] by simp
  then show ?thesis using assms(2) by (auto simp: group_step_def fresh_from_refl intro: confined_weaken)
qed

context compute_storage
begin

lemma arena_reserve_group:
  assumes ok: "arena_ok ids held sane a h st" and gs: "group_served ids held sane (arena_group a :: 'f dyn_pool list) h st"
    and r: "arena_reserve ops n m a h g st = (r, a', h', g', st')"
  shows "ar_first_index a' = ar_first_index a \<and>
    (case r of
       Ok x \<Rightarrow> group_step ids held sane (arena_group a :: 'f dyn_pool list) h st (arena_group a') h' st'
         \<and> one_more n x (group_live h (arena_group a :: 'f dyn_pool list)) (group_live h' (arena_group a' :: 'f dyn_pool list))
     | Err e \<Rightarrow> group_step ids held sane (arena_group a :: 'f dyn_pool list) h st (arena_group a') h' st'
         \<and> group_live h' (arena_group a' :: 'f dyn_pool list) = group_live h (arena_group a :: 'f dyn_pool list)
     | Panic \<Rightarrow> storage_panics ops st)"
proof -
  obtain q where q: "current_pool a = Ok q" "ar_slots a ! ar_current a = Some q" "served ids held sane q h st"
    "carved_for (ar_sizing a) (ar_first_index a) (ar_current a) q" by (rule arena_current [OF ok])
  have al: "sp_alignment q = ps_alignment (ar_sizing a)" "sp_page_size q \<le> ps_max_page_size (ar_sizing a)"
    using q(4) by (simp_all add: carved_for_def)
  have cur: "ar_current a < length (ar_slots a)" using arena_okD(2,3) [OF ok] by simp
  note gs' = gs [unfolded arena_group_def]
  note fit = fit_shown [OF arena_okD(1) [OF ok], of n "sp_page_size q"]
  show ?thesis
  proof (cases "sizing_fit (ar_sizing a) n (sp_page_size q)")
    case Fits
    obtain q1 where s: "sliced_reserve ops n m q h g st = (r, q1, h', g', st')" "a' = set_slot (ar_current a) q1 a"
      using r q(1) Fits by (auto simp: arena_reserve_def split: prod.splits)
    have "n + calculate_padding n (sp_alignment q) \<le> sp_page_size q" using fit Fits al by simp
    note rs = reserve_step [OF q(3) this s(1)]
    note st = slots_group_step [OF gs' cur q(2), of q1 h' st']
    have "arena_group a' = (map DynSliced (somes ((ar_slots a)[ar_current a := Some q1])) :: 'f dyn_pool list)"
      "ar_first_index a' = ar_first_index a"
      using s(2) by (simp_all add: arena_group_def set_slot_def)
    then show ?thesis using st rs unfolding arena_group_def [of a] by (cases r) (auto simp: storage_panics_def)
  next
    case (Grow new)
    obtain r1 st1 where gr: "arena_grow ops n new m a h st = (r1, st1)" by (cases "arena_grow ops n new m a h st")
    have new: "n + calculate_padding n (ps_alignment (ar_sizing a)) \<le> new" "new \<le> ps_max_page_size (ar_sizing a)"
      using fit Grow by simp_all
    have r1: "(case r1 of Ok (x, a1, h1) \<Rightarrow> (r, a', h', st') = (Ok x, a1, h1, st1)
        | Err e \<Rightarrow> (r, a', h', st') = (Err e, a, h, st1) | Panic \<Rightarrow> (r, a', h', st') = (Panic, a, h, st1))"
      using r q(1) Grow gr by (auto simp: arena_reserve_def split: outcome.splits)
    show ?thesis
    proof (cases "position (\<lambda>slot. slot = None) (ar_slots a)")
      case None
      with gr r1 have "r = Err (PageSizesExhausted n)" "a' = a" "h' = h" "st' = st" by (auto simp: arena_grow_def)
      then show ?thesis using group_step_refl [OF gs] by simp
    next
      case (Some k)
      from position_Some [OF Some] have k: "k < length (ar_slots a)" "ar_slots a ! k = None" by simp_all
      let ?q = "sizing_pool (ar_sizing a) new (ar_first_index a + of_nat k)"
      have sane: "sane st" "heap_ok h" using slots_servedD [OF arena_okD(5) [OF ok]] by simp_all
      have sv: "served ids held sane ?q h st"
        using arena_okD(1) [OF ok] sane by (simp add: empty_pool_served sizing_ok_def)
      obtain r2 st2 where al: "alloc_page ops n m ?q h st = (r2, st2)" by (cases "alloc_page ops n m ?q h st")
      note as = alloc_step [OF sv al, simplified, OF new(1)]
      show ?thesis
      proof (cases r2)
        case (Ok b)
        obtain x q2 h2 where b: "b = (x, q2, h2)" by (cases b)
        have e: "r = outcome.Ok x" "h' = h2" "st' = st2"
          "a' = (set_slot k q2 a)\<lparr>ar_outdated := ar_outdated a @ [ar_current a], ar_current := k\<rparr>"
          using gr Some al Ok b r1 by (auto simp: arena_grow_def)
        have step: "pool_step ids held sane ?q h st q2 h' st'" and om: "one_more n x [] (pool_live h' (sp_pages q2))"
          using as Ok b e by simp_all
        have empty: "dyn_handles (DynSliced ?q :: 'f dyn_pool) = {}" "dyn_ids (DynSliced ?q :: 'f dyn_pool) = {}"
          by (simp_all add: pool_handles_def pool_ids_def)
        note ins = group_insert [OF gs' [unfolded slots_split_None(1) [OF k]] empty dyn_step_sliced [OF step]]
        have grp: "arena_group a' = (map DynSliced (somes ((ar_slots a)[k := Some q2])) :: 'f dyn_pool list)"
          "ar_first_index a' = ar_first_index a"
          using e(4) by (simp_all add: arena_group_def set_slot_def)
        have "one_more n x (group_live h (arena_group a :: 'f dyn_pool list)) (group_live h' (arena_group a' :: 'f dyn_pool list))"
          using ins(2,3) one_more_context [OF om] unfolding grp(1) arena_group_def [of a] slots_split_None [OF k] by simp
        then show ?thesis
          using ins(1) e(1) grp(2) unfolding grp(1) arena_group_def [of a] slots_split_None [OF k] by simp
      next
        case (Err e)
        have e: "r = outcome.Err e" "a' = a" "h' = h" "st' = st2" using gr Some al Err r1 by (auto simp: arena_grow_def)
        from as Err have "pool_step ids held sane ?q h st ?q h st2" by simp
        then have "confined ids held {} {} h st h st'" "sane st'"
          using pool_stepD(3,4) [of ids held sane ?q h st ?q h st2] e by (simp_all add: pool_handles_def pool_ids_def)
        from group_storage [OF gs this] e show ?thesis by simp
      next
        case Panic
        then have "r = outcome.Panic" "a' = a" using gr Some al r1 by (auto simp: arena_grow_def)
        with Panic as show ?thesis by (auto simp: storage_panics_def)
      qed
    qed
  next
    case TooLarge
    then have "r = Err (BufferTooBig n)" "a' = a" "h' = h" "st' = st" using r q(1) by (auto simp: arena_reserve_def)
    then show ?thesis using group_step_refl [OF gs] by simp
  qed
qed

lemma arena_try_reserve_group:
  assumes ok: "arena_ok ids held sane a h st" and gs: "group_served ids held sane (arena_group a :: 'f dyn_pool list) h st"
    and r: "arena_try_reserve n a h g = Ok (r, a', h', g')"
  shows "group_step ids held sane (arena_group a :: 'f dyn_pool list) h st (arena_group a') h' st
    \<and> ar_first_index a' = ar_first_index a
    \<and> (case r of
         Some x \<Rightarrow> one_more n x (group_live h (arena_group a :: 'f dyn_pool list)) (group_live h' (arena_group a' :: 'f dyn_pool list))
       | None \<Rightarrow> group_live h' (arena_group a' :: 'f dyn_pool list) = group_live h (arena_group a :: 'f dyn_pool list))"
proof -
  obtain q where q: "current_pool a = Ok q" "ar_slots a ! ar_current a = Some q" "served ids held sane q h st"
    by (rule arena_current [OF ok])
  have cur: "ar_current a < length (ar_slots a)" using arena_okD(2,3) [OF ok] by simp
  show ?thesis
  proof (cases "sizing_fit (ar_sizing a) n (sp_page_size q)")
    case Fits
    from try_reserve_step [OF q(3), of n g] r q(1) Fits obtain q1 where
      t: "pool_step ids held sane q h st q1 h' st" "a' = set_slot (ar_current a) q1 a"
      "r = None \<longrightarrow> pool_live h' (sp_pages q1) = pool_live h (sp_pages q)"
      "\<forall>i. r = Some i \<longrightarrow> one_more n i (pool_live h (sp_pages q)) (pool_live h' (sp_pages q1))"
      by (auto simp: arena_try_reserve_def)
    note st = slots_group_step [OF gs [unfolded arena_group_def] cur q(2) t(1)]
    have "arena_group a' = (map DynSliced (somes ((ar_slots a)[ar_current a := Some q1])) :: 'f dyn_pool list)"
      "ar_first_index a' = ar_first_index a"
      using t(2) by (simp_all add: arena_group_def set_slot_def)
    then show ?thesis using st t(3,4) unfolding arena_group_def [of a] by (cases r) simp_all
  qed (use r q(1) group_step_refl [OF gs] in \<open>auto simp: arena_try_reserve_def\<close>)
qed

lemma drain_slots_group:
  assumes "group_served ids held sane (map DynSliced (somes slots) :: 'f dyn_pool list) h st"
    "\<forall>k \<in> set ks. k < length slots" "drain_slots ops ks slots h g st = Ok (kept, slots', h', g', st')"
  shows "group_step ids held sane (map DynSliced (somes slots) :: 'f dyn_pool list) h st (map DynSliced (somes slots')) h' st'
    \<and> group_live h' (map DynSliced (somes slots') :: 'f dyn_pool list) = group_live h (map DynSliced (somes slots) :: 'f dyn_pool list)"
  using assms
proof (induction ks arbitrary: slots h g st kept)
  case Nil
  then show ?case using group_step_refl by auto
next
  case (Cons k ks)
  have k: "k < length slots" using Cons.prems(2) by simp
  show ?case
  proof (cases "slots ! k")
    case None
    with Cons.IH [OF Cons.prems(1)] Cons.prems(2,3) k show ?thesis by (simp add: get_opt_def)
  next
    case (Some q)
    have sv: "served ids held sane q h st"
      using Cons.prems(1) nth_somes [OF k Some] by (force simp: group_served_def)
    obtain q1 h1 g1 st1 where rel: "release_empty ops q h g st = (q1, h1, g1, st1)" by (cases "release_empty ops q h g st")
    note rs = release_step [OF sv rel]
    note st = slots_group_step [OF Cons.prems(1) k Some conjunct1 [OF rs]]
    let ?G = "\<lambda>slots. map DynSliced (somes slots) :: 'f dyn_pool list"
    have lv: "group_live h1 (?G (slots[k := Some q1])) = group_live h (?G slots)" using st(2) rs by blast
    show ?thesis
    proof (cases "sp_pages q1 = []")
      case False
      with Cons.prems(3) rel Some k obtain kept1 where
        run: "drain_slots ops ks (slots[k := Some q1]) h1 g1 st1 = Ok (kept1, slots', h', g', st')"
        by (auto simp: get_opt_def)
      have "group_step ids held sane (?G (slots[k := Some q1])) h1 st1 (?G slots') h' st'
        \<and> group_live h' (?G slots') = group_live h1 (?G (slots[k := Some q1]))"
        by (rule Cons.IH [OF group_stepD(1) [OF st(1)] _ run]) (use Cons.prems(2) in simp)
      then show ?thesis using group_step_trans [OF st(1)] lv by simp
    next
      case True
      with Cons.prems(3) rel Some k have
        run: "drain_slots ops ks (slots[k := None]) h1 g1 st1 = Ok (kept, slots', h', g', st')"
        by (auto simp: get_opt_def)
      note mid = group_stepD(1) [OF st(1)]
      have gone: "group_step ids held sane (?G (slots[k := Some q1])) h1 st1 (?G (slots[k := None])) h1 st1"
        using group_remove [OF mid [unfolded slots_split(2) [OF k Some]]]
        unfolding slots_split(2,3) [OF k Some] .
      have lv1: "group_live h1 (?G (slots[k := None])) = group_live h1 (?G (slots[k := Some q1]))"
        using True unfolding slots_split(2,3) [OF k Some] by simp
      have "group_step ids held sane (?G (slots[k := None])) h1 st1 (?G slots') h' st'
        \<and> group_live h' (?G slots') = group_live h1 (?G (slots[k := None]))"
        by (rule Cons.IH [OF group_stepD(1) [OF gone] _ run]) (use Cons.prems(2) in simp)
      then show ?thesis using group_step_trans [OF group_step_trans [OF st(1) gone]] lv lv1 by simp
    qed
  qed
qed

lemma arena_drain_group:
  assumes ok: "arena_ok ids held sane a h st" and gs: "group_served ids held sane (arena_group a :: 'f dyn_pool list) h st"
    and d: "arena_drain ops a h g st = Ok (a', h', g', st')"
  shows "group_step ids held sane (arena_group a :: 'f dyn_pool list) h st (arena_group a') h' st'
    \<and> group_live h' (arena_group a' :: 'f dyn_pool list) = group_live h (arena_group a :: 'f dyn_pool list)
    \<and> ar_first_index a' = ar_first_index a"
proof -
  from d obtain kept slots' where
    r: "drain_slots ops (ar_outdated a) (ar_slots a) h g st = Ok (kept, slots', h', g', st')"
    "a' = a\<lparr>ar_outdated := kept, ar_slots := slots'\<rparr>" by (auto simp: arena_drain_def)
  have "\<forall>k \<in> set (ar_outdated a). k < length (ar_slots a)" using arena_okD(2,6) [OF ok] by simp
  from drain_slots_group [OF gs [unfolded arena_group_def] this r(1)] r(2) show ?thesis
    by (simp add: arena_group_def)
qed

lemma arena_cleanup_group:
  assumes ok: "arena_ok ids held sane a h st" and gs: "group_served ids held sane (arena_group a :: 'f dyn_pool list) h st"
    and d: "arena_cleanup ops nr c a h g st = Ok (a', h', g', st')"
  shows "group_step ids held sane (arena_group a :: 'f dyn_pool list) h st (arena_group a') h' st'
    \<and> group_live h' (arena_group a' :: 'f dyn_pool list) = group_live h (arena_group a :: 'f dyn_pool list)
    \<and> ar_first_index a' = ar_first_index a"
proof -
  obtain q where q: "current_pool a = Ok q" "ar_slots a ! ar_current a = Some q" "served ids held sane q h st"
    by (rule arena_current [OF ok])
  have cur: "ar_current a < length (ar_slots a)" "ar_current a < arena_slots" using arena_okD(2,3) [OF ok] by simp_all
  obtain q1 h1 g1 st1 where cl: "sliced_cleanup ops nr c q h g st = (q1, h1, g1, st1)"
    by (cases "sliced_cleanup ops nr c q h g st")
  have step: "pool_step ids held sane q h st q1 h1 st1" "pool_live h1 (sp_pages q1) = pool_live h (sp_pages q)"
    using cl release_step [OF q(3), of g q1 h1 g1 st1] pool_step_refl [OF q(3)]
    by (auto simp: sliced_cleanup_def split: if_splits)
  let ?a = "set_slot (ar_current a) q1 a"
  have grp: "arena_group ?a = (map DynSliced (somes ((ar_slots a)[ar_current a := Some q1])) :: 'f dyn_pool list)"
    by (simp add: arena_group_def set_slot_def)
  note st = slots_group_step [OF gs [unfolded arena_group_def] cur(1) q(2) step(1)]
  have one: "group_step ids held sane (arena_group a :: 'f dyn_pool list) h st (arena_group ?a) h1 st1"
    "group_live h1 (arena_group ?a :: 'f dyn_pool list) = group_live h (arena_group a :: 'f dyn_pool list)"
    using st(1,2) step(2) unfolding grp arena_group_def [of a] by simp_all
  have ok1: "arena_ok ids held sane ?a h1 st1" by (rule arena_step(1) [OF ok cur(2) q(2) step(1)])
  have "arena_drain ops ?a h1 g1 st1 = Ok (a', h', g', st')" using d q(1) cl by (simp add: arena_cleanup_def)
  from arena_drain_group [OF ok1 group_stepD(1) [OF one(1)] this] one group_step_trans [OF one(1)]
  show ?thesis by (simp add: set_slot_def)
qed

end

end
