(* ===== verification/Dynamic_Safety.thy ===== *)
theory Dynamic_Safety
  imports Arena_Group
begin

text \<open>
  The dynamic pools of a stream as a group: the invariant of the buckets and of the adaptive memory,
  each pool addressed where a location leads, and what reserving and cleaning up do to the group.
\<close>

section \<open>The arena by its group\<close>

lemma apart_dyn: "dyn_apart (DynSliced p) (DynSliced q) = apart p q"
  by (simp add: dyn_apart_def apart_def)

lemma slots_served_tail: "slots_served ids held sane (x # slots) h st \<Longrightarrow> slots_served ids held sane slots h st"
  unfolding slots_served_def by (metis Suc_less_eq length_Cons nth_Cons_Suc old.nat.inject)

lemma slots_served_group:
  "slots_served ids held sane slots h st \<longleftrightarrow> group_served ids held sane (map DynSliced (somes slots) :: 'f dyn_pool list) h st"
proof
  assume "slots_served ids held sane slots h st"
  then show "group_served ids held sane (map DynSliced (somes slots) :: 'f dyn_pool list) h st"
  proof (induction slots)
    case Nil
    then show ?case by (simp add: slots_served_def group_served_def)
  next
    case (Cons x slots)
    note ih = Cons.IH [OF slots_served_tail [OF Cons.prems]]
    show ?case
    proof (cases x)
      case (Some q)
      have sv: "served ids held sane q h st" using slots_servedD(3) [OF Cons.prems, of 0 q] Some by simp
      have "apart q p" if "p \<in> set (somes slots)" for p
      proof -
        from somes_nth [OF that] obtain k where "k < length slots" "slots ! k = Some p" by blast
        with slots_servedD(4) [OF Cons.prems, of 0 "Suc k" q p] Some show ?thesis by simp
      qed
      then show ?thesis using ih sv Some by (auto simp: group_served_def apart_dyn)
    qed (use ih in simp)
  qed
next
  assume g: "group_served ids held sane (map DynSliced (somes slots) :: 'f dyn_pool list) h st"
  have sv: "served ids held sane q h st" if "k < length slots" "slots ! k = Some q" for k q
    using g nth_somes [OF that] by (force simp: group_served_def)
  have before: "apart p q" if "j < k" "k < length slots" "slots ! j = Some p" "slots ! k = Some q" for j k p q
  proof -
    have "p \<in> set (somes (take k slots))" using that nth_somes [of j "take k slots" p] by simp
    moreover have "sorted_wrt dyn_apart (map DynSliced (somes slots) :: 'f dyn_pool list)" using g by (simp add: group_served_def)
    ultimately have "dyn_apart (DynSliced p :: 'f dyn_pool) (DynSliced q)"
      unfolding slots_split(1) [OF that(2,4)] by (simp add: sorted_wrt_append)
    then show ?thesis by (simp add: apart_dyn)
  qed
  show "slots_served ids held sane slots h st"
    unfolding slots_served_def
  proof (intro conjI allI impI)
    fix j k p q assume jk: "j < length slots" "k < length slots" "j \<noteq> k" "slots ! j = Some p" "slots ! k = Some q"
    then show "apart p q" using before [of j k p q] before [of k j q p] apart_sym by (cases "j < k") auto
  qed (use g sv in \<open>auto simp: group_served_def\<close>)
qed

text \<open>What \<open>arena_ok\<close> says beside its pools.\<close>

definition arena_shape_ok :: "arena \<Rightarrow> bool" where
  "arena_shape_ok a \<longleftrightarrow>
    sizing_ok (ar_sizing a) \<and> length (ar_slots a) = arena_slots \<and> unat (ar_first_index a) + arena_slots \<le> 256
    \<and> distinct (ar_current a # ar_outdated a) \<and> set (ar_current a # ar_outdated a) \<subseteq> {..<arena_slots}
    \<and> (\<forall>k < arena_slots. ar_slots a ! k \<noteq> None \<longleftrightarrow> k \<in> set (ar_current a # ar_outdated a))
    \<and> (\<forall>k < arena_slots. \<forall>q. ar_slots a ! k = Some q \<longrightarrow> carved_for (ar_sizing a) (ar_first_index a) k q)
    \<and> (\<forall>k \<in> set (ar_outdated a). sp_page_size (the (ar_slots a ! k)) < sp_page_size (the (ar_slots a ! ar_current a)))"

lemma arena_ok_group:
  "arena_ok ids held sane a h st \<longleftrightarrow> arena_shape_ok a \<and> group_served ids held sane (arena_group a :: 'f dyn_pool list) h st"
  unfolding arena_ok_def arena_shape_ok_def arena_group_def slots_served_group [where 'f = 'f] by blast

section \<open>The invariant\<close>

fun dynamic_pools :: "'f dynamic_memory \<Rightarrow> 'f dyn_pool list" where
  "dynamic_pools (ExclusiveMemory qs) = map DynExclusive qs"
| "dynamic_pools (AdaptiveMemory m) = DynExclusive (ad_tiny m) # DynSliced (ad_small m) # arena_group (ad_arena m)"

definition bucket_at :: "nat \<Rightarrow> nat \<Rightarrow> 'f exclusive_pool \<Rightarrow> bool" where
  "bucket_at nr k q \<longleftrightarrow> xp_base q = location_new (of_nat k) 0 0 \<and> xp_last_dealloc_check q \<le> nr"

definition small_ok :: "sliced_pool \<Rightarrow> bool" where
  "small_ok q \<longleftrightarrow> sp_base q = location_new small_pool 0 0 \<and> \<not> sp_near_page_size q
    \<and> sp_max_slice_size q \<le> sp_page_size q \<and> sp_alignment q dvd sp_page_size q"

fun dynamic_ok :: "nat \<Rightarrow> 'f dynamic_memory \<Rightarrow> bool" where
  "dynamic_ok nr (ExclusiveMemory qs) \<longleftrightarrow> length qs \<le> 254 \<and> (\<forall>k < length qs. bucket_at nr k (qs ! k))"
| "dynamic_ok nr (AdaptiveMemory m) \<longleftrightarrow> bucket_at nr 0 (ad_tiny m) \<and> small_ok (ad_small m)
    \<and> arena_shape_ok (ad_arena m) \<and> ar_first_index (ad_arena m) = arena_pools"

lemma dynamic_ok_later: "dynamic_ok nr d \<Longrightarrow> nr \<le> nr' \<Longrightarrow> dynamic_ok nr' d"
  by (cases d) (force simp: bucket_at_def)+

section \<open>Buckets\<close>

lemma bucket_at_same:
  "exclusive_shape q' = exclusive_shape q \<Longrightarrow> xp_last_dealloc_check q' = xp_last_dealloc_check q \<Longrightarrow>
    bucket_at nr k q' = bucket_at nr k q"
  by (simp add: bucket_at_def exclusive_shape_def)

lemma dynamic_ok_buckets:
  assumes "dynamic_ok nr (ExclusiveMemory qs)"
    "list_all2 (\<lambda>q q'. exclusive_shape q' = exclusive_shape q \<and> xp_last_dealloc_check q' \<le> nr) qs qs'"
  shows "dynamic_ok nr (ExclusiveMemory qs')"
  using assms by (auto simp: list_all2_conv_all_nth bucket_at_def exclusive_shape_def)

context compute_storage
begin

lemma buckets_try_group:
  assumes "group_served ids held sane (map DynExclusive qs) h st"
  shows "\<exists>r qs' h'. buckets_try_reserve av n qs h g = Ok (r, qs', h', g)
    \<and> group_step ids held sane (map DynExclusive qs) h st (map DynExclusive qs') h' st
    \<and> list_all2 (\<lambda>q q'. exclusive_shape q' = exclusive_shape q \<and> xp_last_dealloc_check q' = xp_last_dealloc_check q) qs qs'
    \<and> (case r of
         Some x \<Rightarrow> one_more n x (group_live h (map DynExclusive qs)) (group_live h' (map DynExclusive qs'))
       | None \<Rightarrow> group_live h' (map DynExclusive qs') = group_live h (map DynExclusive qs))"
  using assms
proof (induction qs arbitrary: h)
  case Nil
  then show ?case using group_step_refl by auto
next
  case (Cons q qs)
  let ?G = "map DynExclusive :: 'b exclusive_pool list \<Rightarrow> 'b dyn_pool list"
  have sv: "exclusive_served ids held sane q h st" using Cons.prems by (simp add: group_served_def)
  have rest: "\<exists>r qs' h'. buckets_try_reserve av n qs h1 g = Ok (r, qs', h', g)
      \<and> group_step ids held sane (?G (q # qs)) h st (?G (q1 # qs')) h' st
      \<and> list_all2 (\<lambda>q q'. exclusive_shape q' = exclusive_shape q \<and> xp_last_dealloc_check q' = xp_last_dealloc_check q) qs qs'
      \<and> (case r of
           Some x \<Rightarrow> one_more n x (group_live h (?G (q # qs))) (group_live h' (?G (q1 # qs')))
         | None \<Rightarrow> group_live h' (?G (q1 # qs')) = group_live h (?G (q # qs)))"
    if step: "dyn_step ids held sane (DynExclusive q) h st (DynExclusive q1) h1 st"
      and live: "dyn_live h1 (DynExclusive q1) = dyn_live h (DynExclusive q)" for q1 h1
  proof -
    note put = group_put [of ids held sane "[]" "DynExclusive q" "?G qs" h st, OF _ step]
    have mid: "group_step ids held sane (?G (q # qs)) h st (?G (q1 # qs)) h1 st"
      "group_live h1 (?G qs) = group_live h (?G qs)" using put Cons.prems by simp_all
    have "group_served ids held sane (?G qs) h1 st"
      using group_stepD(1) [OF mid(1)] by (auto simp: group_served_def)
    from Cons.IH [OF this] obtain r qs' h' where
      ih: "buckets_try_reserve av n qs h1 g = Ok (r, qs', h', g)"
      "group_step ids held sane (?G qs) h1 st (?G qs') h' st"
      "list_all2 (\<lambda>q q'. exclusive_shape q' = exclusive_shape q \<and> xp_last_dealloc_check q' = xp_last_dealloc_check q) qs qs'"
      "case r of
         Some x \<Rightarrow> one_more n x (group_live h1 (?G qs)) (group_live h' (?G qs'))
       | None \<Rightarrow> group_live h' (?G qs') = group_live h1 (?G qs)"
      by blast
    note lift = group_lift [of ids held sane "[DynExclusive q1]" "?G qs" "[]" h1 st, OF _ ih(2)]
    have all: "group_step ids held sane (?G (q1 # qs)) h1 st (?G (q1 # qs')) h' st"
      "dyn_live h' (DynExclusive q1) = dyn_live h1 (DynExclusive q1)"
      using lift group_stepD(1) [OF mid(1)] by simp_all
    have "case r of
           Some x \<Rightarrow> one_more n x (group_live h (?G (q # qs))) (group_live h' (?G (q1 # qs')))
         | None \<Rightarrow> group_live h' (?G (q1 # qs')) = group_live h (?G (q # qs))"
      using ih(4) all(2) live mid(2) one_more_context [of n _ _ _ "dyn_live h (DynExclusive q)" "[]"]
      by (cases r) simp_all
    then show ?thesis using ih(1,3) group_step_trans [OF mid(1) all(1)] by blast
  qed
  show ?case
  proof (cases "exclusive_accept q n")
    case False
    have "dyn_step ids held sane (DynExclusive q) h st (DynExclusive q) h st"
      unfolding dyn_step_def by (rule group_step_refl) (use sv in \<open>simp add: group_single\<close>)
    from rest [OF this refl] False show ?thesis by auto
  next
    case True
    from exclusive_try_step [OF sv, of av n g] obtain r1 q1 h1 where
      t: "exclusive_try_reserve av n q h g = Ok (r1, q1, h1, g)"
      "dyn_step ids held sane (DynExclusive q) h st (DynExclusive q1) h1 st"
      "exclusive_shape q1 = exclusive_shape q" "xp_last_dealloc_check q1 = xp_last_dealloc_check q"
      "r1 = None \<longrightarrow> dyn_live h1 (DynExclusive q1) = dyn_live h (DynExclusive q)"
      "\<forall>i. r1 = Some i \<longrightarrow> one_more n i (dyn_live h (DynExclusive q)) (dyn_live h1 (DynExclusive q1))"
      by blast
    show ?thesis
    proof (cases r1)
      case None
      with rest [OF t(2)] t True show ?thesis by auto
    next
      case (Some x)
      note put = group_put(1) [of ids held sane "[]" "DynExclusive q" "?G qs" h st, OF _ t(2)]
        group_put_live(2) [of ids held sane "[]" "DynExclusive q" "?G qs" h st, OF _ t(2), of n x]
      have "list_all2 (\<lambda>q q'. exclusive_shape q' = exclusive_shape q \<and> xp_last_dealloc_check q' = xp_last_dealloc_check q) qs qs"
        by (simp add: list_all2_same)
      with put Cons.prems t True Some show ?thesis by auto
    qed
  qed
qed

lemma buckets_reserve_group:
  assumes gs: "group_served ids held sane (map DynExclusive qs) h st" and ok: "dynamic_ok nr (ExclusiveMemory qs)"
    and r: "buckets_reserve av ops n qs h g st = (r, qs', h', g', st')"
  shows "case r of
      Ok x \<Rightarrow> group_step ids held sane (map DynExclusive qs) h st (map DynExclusive qs') h' st'
        \<and> dynamic_ok nr (ExclusiveMemory qs')
        \<and> one_more n x (group_live h (map DynExclusive qs)) (group_live h' (map DynExclusive qs'))
    | Err e \<Rightarrow> group_step ids held sane (map DynExclusive qs) h st (map DynExclusive qs') h' st'
        \<and> dynamic_ok nr (ExclusiveMemory qs')
        \<and> group_live h' (map DynExclusive qs') = group_live h (map DynExclusive qs)
    | Panic \<Rightarrow> storage_panics ops st"
proof -
  from buckets_try_group [OF gs, of av n g] obtain r1 qs1 h1 where
    t: "buckets_try_reserve av n qs h g = Ok (r1, qs1, h1, g)"
    "group_step ids held sane (map DynExclusive qs) h st (map DynExclusive qs1) h1 st"
    "list_all2 (\<lambda>q q'. exclusive_shape q' = exclusive_shape q \<and> xp_last_dealloc_check q' = xp_last_dealloc_check q) qs qs1"
    "case r1 of
       Some x \<Rightarrow> one_more n x (group_live h (map DynExclusive qs)) (group_live h1 (map DynExclusive qs1))
     | None \<Rightarrow> group_live h1 (map DynExclusive qs1) = group_live h (map DynExclusive qs)"
    by blast
  have ok1: "dynamic_ok nr (ExclusiveMemory qs1)"
    using ok t(3) by (auto simp: list_all2_conv_all_nth bucket_at_def exclusive_shape_def)
  show ?thesis
  proof (cases r1)
    case (Some x)
    with t r ok1 show ?thesis by (auto simp: buckets_reserve_def)
  next
    case None
    show ?thesis
    proof (cases "position (\<lambda>q. exclusive_accept q n) qs1")
      case None
      with t r ok1 \<open>r1 = None\<close> show ?thesis by (auto simp: buckets_reserve_def)
    next
      case (Some k)
      from position_Some [OF Some] have k: "k < length qs1" by simp
      define xs q ys where "xs = map DynExclusive (take k qs1)" and "q = qs1 ! k" and "ys = map DynExclusive (drop (Suc k) qs1)"
      have split: "map DynExclusive qs1 = xs @ DynExclusive q # ys"
        using k by (simp add: xs_def q_def ys_def flip: list.map map_append id_take_nth_drop)
      have put: "map DynExclusive (qs1[k := q']) = xs @ DynExclusive q' # ys" for q'
        using k by (simp add: xs_def ys_def upd_conv_take_nth_drop)
      note gs1 = group_stepD(1) [OF t(2), unfolded split]
      have sv: "exclusive_served ids held sane q h1 st" using group_member [OF gs1] by simp
      obtain r2 st2 where al: "exclusive_alloc av ops n q h1 st = (r2, st2)" by (cases "exclusive_alloc av ops n q h1 st")
      note as = exclusive_alloc_step [OF sv al]
      have live1: "group_live h1 (map DynExclusive qs1) = group_live h (map DynExclusive qs)" using t(4) \<open>r1 = None\<close> by simp
      show ?thesis
      proof (cases r2)
        case (Ok b)
        obtain x q2 h2 where b: "b = (x, q2, h2)" by (cases b)
        have e: "r = outcome.Ok x" "qs' = qs1[k := q2]" "h' = h2" "st' = st2"
          using r t(1) \<open>r1 = None\<close> Some al Ok b by (auto simp: buckets_reserve_def q_def)
        have a: "dyn_step ids held sane (DynExclusive q) h1 st (DynExclusive q2) h' st'"
          "exclusive_shape q2 = exclusive_shape q" "xp_last_dealloc_check q2 = xp_last_dealloc_check q"
          "one_more n x (dyn_live h1 (DynExclusive q)) (dyn_live h' (DynExclusive q2))" using as Ok b e by simp_all
        have "group_step ids held sane (map DynExclusive qs1) h1 st (map DynExclusive qs') h' st'"
          "one_more n x (group_live h1 (map DynExclusive qs1)) (group_live h' (map DynExclusive qs'))"
          using group_put(1) [OF gs1 a(1)] group_put_live(2) [OF gs1 a(1,4)] unfolding split e(2) put by simp_all
        moreover have "dynamic_ok nr (ExclusiveMemory qs')"
          using ok1 bucket_at_same [OF a(2,3)] k unfolding e(2) by (auto simp: nth_list_update q_def)
        ultimately show ?thesis using e(1) group_step_trans [OF t(2)] live1 by simp
      next
        case (Err e)
        have e: "r = outcome.Err e" "qs' = qs1" "h' = h1" "st' = st2"
          using r t(1) \<open>r1 = None\<close> Some al Err by (auto simp: buckets_reserve_def q_def)
        have "dyn_step ids held sane (DynExclusive q) h1 st (DynExclusive q) h1 st2" using as Err by simp
        from group_put(1) [OF gs1 this] have "group_step ids held sane (map DynExclusive qs1) h1 st (map DynExclusive qs1) h1 st2"
          unfolding split .
        then show ?thesis using e group_step_trans [OF t(2)] live1 ok1 by simp
      next
        case Panic
        then have "r = outcome.Panic" using r t(1) \<open>r1 = None\<close> Some al by (auto simp: buckets_reserve_def q_def)
        with as Panic show ?thesis by simp
      qed
    qed
  qed
qed

lemma buckets_cleanup_group:
  assumes "group_served ids held sane (map DynExclusive qs) h st" "\<forall>q \<in> set qs. xp_last_dealloc_check q \<le> nr"
  shows "\<exists>qs' h' g' st'. buckets_cleanup ops nr c qs h g st = Ok (qs', h', g', st')
    \<and> group_step ids held sane (map DynExclusive qs) h st (map DynExclusive qs') h' st'
    \<and> list_all2 (\<lambda>q q'. exclusive_shape q' = exclusive_shape q \<and> xp_last_dealloc_check q' \<le> nr) qs qs'
    \<and> group_live h' (map DynExclusive qs') = group_live h (map DynExclusive qs)"
  using assms
proof (induction qs arbitrary: h g st)
  case Nil
  then show ?case using group_step_refl by auto
next
  case (Cons q qs)
  let ?G = "map DynExclusive :: 'b exclusive_pool list \<Rightarrow> 'b dyn_pool list"
  have sv: "exclusive_served ids held sane q h st" using Cons.prems by (simp add: group_served_def)
  from exclusive_cleanup_step [OF sv, of nr c g] Cons.prems(2) obtain q1 h1 g1 st1 where
    c: "exclusive_cleanup ops nr c q h g st = Ok (q1, h1, g1, st1)"
    "dyn_step ids held sane (DynExclusive q) h st (DynExclusive q1) h1 st1"
    "exclusive_shape q1 = exclusive_shape q" "xp_last_dealloc_check q1 \<le> nr"
    "dyn_live h1 (DynExclusive q1) = dyn_live h (DynExclusive q)" by auto
  note put = group_put [of ids held sane "[]" "DynExclusive q" "?G qs" h st, OF _ c(2)]
  have mid: "group_step ids held sane (?G (q # qs)) h st (?G (q1 # qs)) h1 st1"
    "group_live h1 (?G qs) = group_live h (?G qs)" using put Cons.prems(1) by simp_all
  have "group_served ids held sane (?G qs) h1 st1"
    using group_stepD(1) [OF mid(1)] by (auto simp: group_served_def)
  from Cons.IH [OF this, of g1] Cons.prems(2) obtain qs' h' g' st' where
    ih: "buckets_cleanup ops nr c qs h1 g1 st1 = Ok (qs', h', g', st')"
    "group_step ids held sane (?G qs) h1 st1 (?G qs') h' st'"
    "list_all2 (\<lambda>q q'. exclusive_shape q' = exclusive_shape q \<and> xp_last_dealloc_check q' \<le> nr) qs qs'"
    "group_live h' (?G qs') = group_live h1 (?G qs)" by auto
  note lift = group_lift [of ids held sane "[DynExclusive q1]" "?G qs" "[]" h1 st1, OF _ ih(2)]
  have all: "group_step ids held sane (?G (q1 # qs)) h1 st1 (?G (q1 # qs')) h' st'"
    "dyn_live h' (DynExclusive q1) = dyn_live h1 (DynExclusive q1)"
    using lift group_stepD(1) [OF mid(1)] by simp_all
  have "buckets_cleanup ops nr c (q # qs) h g st = Ok (q1 # qs', h', g', st')" using c(1) ih(1) by simp
  moreover have "group_live h' (?G (q1 # qs')) = group_live h (?G (q # qs))" using ih(4) all(2) mid(2) c(5) by simp
  ultimately show ?case using group_step_trans [OF mid(1) all(1)] ih(3) c(3,4) by fastforce
qed

end

section \<open>Adaptive memory\<close>

definition sliced_shape :: "sliced_pool \<Rightarrow> memory_location \<times> nat \<times> nat \<times> nat \<times> bool" where
  "sliced_shape q = (sp_base q, sp_page_size q, sp_alignment q, sp_max_slice_size q, sp_near_page_size q)"

lemma sliced_try_shape: "sliced_try_reserve n q h g = Ok (r, q', h', g') \<Longrightarrow> sliced_shape q' = sliced_shape q"
  by (auto simp: sliced_try_reserve_def sliced_shape_def Let_def split: if_splits)

lemma alloc_page_shape: "alloc_page ops n m q h st = (Ok (x, q', h'), st') \<Longrightarrow> sliced_shape q' = sliced_shape q"
proof -
  assume a: "alloc_page ops n m q h st = (Ok (x, q', h'), st')"
  let ?base = "(sp_base q)\<lparr>loc_page := of_nat (length (sp_pages q))\<rparr>"
  obtain rm stm where m: "mapped_handle ops m (sp_page_size q) st = (rm, stm)" by (cases "mapped_handle ops m (sp_page_size q) st")
  show ?thesis
  proof (cases rm)
    case (Ok s)
    obtain p h1 where "page_new s (sp_alignment q) ?base m h = (p, h1)" by (cases "page_new s (sp_alignment q) ?base m h")
    then have "try_then (page_try_reserve n p h1) (\<lambda>(r, page, h).
        case r of None \<Rightarrow> Panic
        | Some x \<Rightarrow> let pages = sp_pages q @ [(page, sh_id (pg_storage page))] in
            Ok (x, q\<lparr>sp_pages := pages, sp_pages_peak := max (sp_pages_peak q) (length pages),
                     sp_largest_alloc := max (sp_largest_alloc q) n\<rparr>, h)) = Ok (x, q', h')"
      using a m Ok by (simp add: alloc_page_def Let_def)
    then obtain y where "q' = q\<lparr>sp_pages := fst y, sp_pages_peak := fst (snd y), sp_largest_alloc := snd (snd y)\<rparr>"
      by (auto simp: Let_def split: option.splits)
    then show ?thesis by (simp add: sliced_shape_def)
  qed (use a m in \<open>simp_all add: alloc_page_def Let_def\<close>)
qed

lemma sliced_reserve_shape: "sliced_reserve ops n m q h g st = (r, q', h', g', st') \<Longrightarrow> sliced_shape q' = sliced_shape q"
proof -
  assume r: "sliced_reserve ops n m q h g st = (r, q', h', g', st')"
  show ?thesis
  proof (cases "sliced_try_reserve n q h g")
    case (Ok b)
    obtain r1 q1 h1 g1 where b: "b = (r1, q1, h1, g1)" by (cases b)
    have sh: "sliced_shape q1 = sliced_shape q" using sliced_try_shape Ok b by blast
    obtain r2 st2 where a: "alloc_page ops n m q1 h1 st = (r2, st2)" by (cases "alloc_page ops n m q1 h1 st")
    show ?thesis
    proof (cases "\<exists>x q2 h2. r1 = None \<and> r2 = outcome.Ok (x, q2, h2)")
      case True
      then obtain x q2 h2 where x: "r1 = None" "r2 = outcome.Ok (x, q2, h2)" by blast
      then have "q' = q2" using r Ok b a by (simp add: sliced_reserve_def)
      then show ?thesis using alloc_page_shape [OF a [unfolded x(2)]] sh by simp
    next
      case False
      then have "q' = q1" using r Ok b a
        by (cases r1; cases r2) (auto simp: sliced_reserve_def)
      then show ?thesis using sh by simp
    qed
  qed (use r in \<open>simp_all add: sliced_reserve_def\<close>)
qed

lemma sliced_cleanup_shape: "sliced_cleanup ops nr c q h g st = (q', h', g', st') \<Longrightarrow> sliced_shape q' = sliced_shape q"
  by (auto simp: sliced_cleanup_def release_empty_def sliced_shape_def split: prod.splits if_splits)

lemma small_ok_shape: "sliced_shape q' = sliced_shape q \<Longrightarrow> small_ok q' = small_ok q"
  by (simp add: sliced_shape_def small_ok_def)

lemma small_fits:
  assumes "small_ok q" "pool_ok q h" "sliced_accept q n"
  shows "n + calculate_padding n (sp_alignment q) \<le> sp_page_size q"
  using assms padded_fits [of "sp_alignment q" "sp_page_size q" n] by (simp add: small_ok_def pool_ok_def sliced_accept_def)

text \<open>Three parts: the tiny pool, the small pool, the arena.\<close>

lemma adaptive_parts:
  "dynamic_pools (AdaptiveMemory m) = [] @ DynExclusive (ad_tiny m) # DynSliced (ad_small m) # arena_group (ad_arena m)"
  "dynamic_pools (AdaptiveMemory m) = [DynExclusive (ad_tiny m)] @ DynSliced (ad_small m) # arena_group (ad_arena m)"
  "dynamic_pools (AdaptiveMemory m) = [DynExclusive (ad_tiny m), DynSliced (ad_small m)] @ arena_group (ad_arena m) @ []"
  by simp_all

lemma arena_of_group:
  fixes m :: "'f adaptive_memory"
  assumes "group_served ids held sane (dynamic_pools (AdaptiveMemory m)) h st" "dynamic_ok nr (AdaptiveMemory m)"
  shows "arena_ok ids held sane (ad_arena m) h st" "group_served ids held sane (arena_group (ad_arena m) :: 'f dyn_pool list) h st"
proof -
  show g: "group_served ids held sane (arena_group (ad_arena m) :: 'f dyn_pool list) h st"
    using assms(1) by (auto simp: group_served_def)
  show "arena_ok ids held sane (ad_arena m) h st" using assms(2) g by (simp add: arena_ok_group [where 'f = 'f])
qed

context compute_storage
begin

lemma exclusive_reserve_step:
  assumes sv: "exclusive_served ids held sane q h st" and r: "exclusive_reserve av ops n q h g st = (r, q', h', g', st')"
  shows "exclusive_shape q' = exclusive_shape q \<and> xp_last_dealloc_check q' = xp_last_dealloc_check q \<and>
    (case r of
       Ok x \<Rightarrow> dyn_step ids held sane (DynExclusive q) h st (DynExclusive q') h' st'
         \<and> one_more n x (dyn_live h (DynExclusive q)) (dyn_live h' (DynExclusive q'))
     | Err e \<Rightarrow> dyn_step ids held sane (DynExclusive q) h st (DynExclusive q') h' st'
         \<and> dyn_live h' (DynExclusive q') = dyn_live h (DynExclusive q)
     | Panic \<Rightarrow> storage_panics ops st)"
proof -
  from exclusive_try_step [OF sv, of av n g] obtain r1 q1 h1 where
    t: "exclusive_try_reserve av n q h g = Ok (r1, q1, h1, g)"
    "dyn_step ids held sane (DynExclusive q) h st (DynExclusive q1) h1 st"
    "exclusive_shape q1 = exclusive_shape q" "xp_last_dealloc_check q1 = xp_last_dealloc_check q"
    "r1 = None \<longrightarrow> dyn_live h1 (DynExclusive q1) = dyn_live h (DynExclusive q)"
    "\<forall>i. r1 = Some i \<longrightarrow> one_more n i (dyn_live h (DynExclusive q)) (dyn_live h1 (DynExclusive q1))"
    by blast
  show ?thesis
  proof (cases r1)
    case (Some x)
    with t r show ?thesis by (auto simp: exclusive_reserve_def)
  next
    case None
    have sv1: "exclusive_served ids held sane q1 h1 st" using dyn_step_served [OF t(2)] by simp
    obtain r2 st2 where al: "exclusive_alloc av ops n q1 h1 st = (r2, st2)" by (cases "exclusive_alloc av ops n q1 h1 st")
    note as = exclusive_alloc_step [OF sv1 al] and tr = dyn_step_trans [OF t(2)]
    show ?thesis
    proof (cases r2)
      case (Ok b)
      obtain x q2 h2 where b: "b = (x, q2, h2)" by (cases b)
      have "r = outcome.Ok x" "q' = q2" "h' = h2" "st' = st2" using r t(1) None al Ok b by (auto simp: exclusive_reserve_def)
      with as Ok b t None tr show ?thesis by simp
    next
      case (Err e)
      have "r = outcome.Err e" "q' = q1" "h' = h1" "st' = st2" using r t(1) None al Err by (auto simp: exclusive_reserve_def)
      with as Err t None tr show ?thesis by simp
    next
      case Panic
      have "r = outcome.Panic" "q' = q1" using r t(1) None al Panic by (auto simp: exclusive_reserve_def)
      with as Panic t show ?thesis by simp
    qed
  qed
qed

lemma adaptive_reserve_group:
  fixes m m' :: "'f adaptive_memory"
  assumes gs: "group_served ids held sane (dynamic_pools (AdaptiveMemory m)) h st" and ok: "dynamic_ok nr (AdaptiveMemory m)"
    and r: "adaptive_reserve av ops n mapping m h g st = (r, m', h', g', st')"
  shows "case r of
      Ok x \<Rightarrow> group_step ids held sane (dynamic_pools (AdaptiveMemory m)) h st (dynamic_pools (AdaptiveMemory m')) h' st'
        \<and> dynamic_ok nr (AdaptiveMemory m')
        \<and> one_more n x (group_live h (dynamic_pools (AdaptiveMemory m))) (group_live h' (dynamic_pools (AdaptiveMemory m')))
    | Err e \<Rightarrow> group_step ids held sane (dynamic_pools (AdaptiveMemory m)) h st (dynamic_pools (AdaptiveMemory m')) h' st'
        \<and> dynamic_ok nr (AdaptiveMemory m')
        \<and> group_live h' (dynamic_pools (AdaptiveMemory m')) = group_live h (dynamic_pools (AdaptiveMemory m))
    | Panic \<Rightarrow> storage_panics ops st"
proof -
  consider (tiny) "exclusive_accept (ad_tiny m) n"
    | (small) "\<not> exclusive_accept (ad_tiny m) n" "sliced_accept (ad_small m) n"
    | (large) "\<not> exclusive_accept (ad_tiny m) n" "\<not> sliced_accept (ad_small m) n" by blast
  then show ?thesis
  proof cases
    case tiny
    then obtain q where q: "exclusive_reserve av ops n (ad_tiny m) h g st = (r, q, h', g', st')" "m' = m\<lparr>ad_tiny := q\<rparr>"
      using r by (auto simp: adaptive_reserve_def split: prod.splits)
    note g1 = gs [unfolded adaptive_parts(1)]
    have sv: "exclusive_served ids held sane (ad_tiny m) h st" using group_member [OF g1] by simp
    note s = exclusive_reserve_step [OF sv q(1)]
    have "dynamic_ok nr (AdaptiveMemory m')" using ok s bucket_at_same q(2) by auto
    then show ?thesis
      using s group_put(1) [OF g1, of "DynExclusive q" h' st'] group_put_live(1) [OF g1, of "DynExclusive q" h' st']
        group_put_live(2) [OF g1, of "DynExclusive q" h' st' n] q(2)
      by (cases r) auto
  next
    case small
    then obtain q where q: "sliced_reserve ops n mapping (ad_small m) h g st = (r, q, h', g', st')" "m' = m\<lparr>ad_small := q\<rparr>"
      using r by (auto simp: adaptive_reserve_def split: prod.splits)
    note g1 = gs [unfolded adaptive_parts(2)]
    have sv: "served ids held sane (ad_small m) h st" using group_member [OF g1] by simp
    then have fits: "n + calculate_padding n (sp_alignment (ad_small m)) \<le> sp_page_size (ad_small m)"
      using small_fits small(2) ok by (auto simp: served_def)
    note s = reserve_step [OF sv fits q(1)]
    have "dynamic_ok nr (AdaptiveMemory m')" using ok small_ok_shape [OF sliced_reserve_shape [OF q(1)]] q(2) by simp
    then show ?thesis
      using s group_put(1) [OF g1 dyn_step_sliced, of q h' st'] group_put_live(1) [OF g1 dyn_step_sliced, of q h' st']
        group_put_live(2) [OF g1 dyn_step_sliced, of q h' st' n] q(2)
      by (cases r) (auto simp: storage_panics_def)
  next
    case large
    then obtain a where a: "arena_reserve ops n mapping (ad_arena m) h g st = (r, a, h', g', st')" "m' = m\<lparr>ad_arena := a\<rparr>"
      using r by (auto simp: adaptive_reserve_def split: prod.splits)
    note g1 = gs [unfolded adaptive_parts(3)]
    note ar = arena_of_group [OF gs ok]
    note s = arena_reserve_group [OF ar a(1)] and sh = arena_reserve_shown [OF ar(1) a(1)]
    show ?thesis
    proof (cases r)
      case (Ok x)
      then have step: "group_step ids held sane (arena_group (ad_arena m) :: 'f dyn_pool list) h st (arena_group a) h' st'"
        and om: "one_more n x (group_live h (arena_group (ad_arena m) :: 'f dyn_pool list)) (group_live h' (arena_group a :: 'f dyn_pool list))"
        and fi: "ar_first_index a = ar_first_index (ad_arena m)" using s by simp_all
      have shape: "arena_shape_ok a" using sh Ok by (simp add: arena_ok_group [where 'f = 'f])
      show ?thesis
        using group_lift(1) [OF g1 step] group_lift_live(2) [OF g1 step om] shape fi Ok a(2) ok by simp
    next
      case (Err e)
      then have step: "group_step ids held sane (arena_group (ad_arena m) :: 'f dyn_pool list) h st (arena_group a) h' st'"
        and lv: "group_live h' (arena_group a :: 'f dyn_pool list) = group_live h (arena_group (ad_arena m) :: 'f dyn_pool list)"
        and fi: "ar_first_index a = ar_first_index (ad_arena m)" using s by simp_all
      have shape: "arena_shape_ok a" using sh Err by (simp add: arena_ok_group [where 'f = 'f])
      show ?thesis using group_lift(1) [OF g1 step] group_lift_live(1) [OF g1 step lv] shape fi Err a(2) ok by simp
    next
      case Panic
      then show ?thesis using s by simp
    qed
  qed
qed

lemma adaptive_try_group:
  fixes m :: "'f adaptive_memory"
  assumes gs: "group_served ids held sane (dynamic_pools (AdaptiveMemory m)) h st" and ok: "dynamic_ok nr (AdaptiveMemory m)"
  shows "\<exists>r m' h' g'. adaptive_try_reserve av n m h g = Ok (r, m', h', g')
    \<and> group_step ids held sane (dynamic_pools (AdaptiveMemory m)) h st (dynamic_pools (AdaptiveMemory m')) h' st
    \<and> dynamic_ok nr (AdaptiveMemory m')
    \<and> (case r of
         Some x \<Rightarrow> one_more n x (group_live h (dynamic_pools (AdaptiveMemory m))) (group_live h' (dynamic_pools (AdaptiveMemory m')))
       | None \<Rightarrow> group_live h' (dynamic_pools (AdaptiveMemory m')) = group_live h (dynamic_pools (AdaptiveMemory m)))"
proof -
  consider (tiny) "exclusive_accept (ad_tiny m) n"
    | (small) "\<not> exclusive_accept (ad_tiny m) n" "sliced_accept (ad_small m) n"
    | (large) "\<not> exclusive_accept (ad_tiny m) n" "\<not> sliced_accept (ad_small m) n" by blast
  then show ?thesis
  proof cases
    case tiny
    note g1 = gs [unfolded adaptive_parts(1)]
    have sv: "exclusive_served ids held sane (ad_tiny m) h st" using group_member [OF g1] by simp
    from exclusive_try_step [OF sv, of av n g] obtain r q h' where
      t: "exclusive_try_reserve av n (ad_tiny m) h g = Ok (r, q, h', g)"
      "dyn_step ids held sane (DynExclusive (ad_tiny m)) h st (DynExclusive q) h' st"
      "exclusive_shape q = exclusive_shape (ad_tiny m)" "xp_last_dealloc_check q = xp_last_dealloc_check (ad_tiny m)"
      "r = None \<longrightarrow> dyn_live h' (DynExclusive q) = dyn_live h (DynExclusive (ad_tiny m))"
      "\<forall>i. r = Some i \<longrightarrow> one_more n i (dyn_live h (DynExclusive (ad_tiny m))) (dyn_live h' (DynExclusive q))"
      by blast
    let ?m = "m\<lparr>ad_tiny := q\<rparr>"
    have "adaptive_try_reserve av n m h g = Ok (r, ?m, h', g)" using tiny t(1) by (simp add: adaptive_try_reserve_def)
    moreover have "dynamic_ok nr (AdaptiveMemory ?m)" using ok bucket_at_same [OF t(3,4)] by simp
    moreover have "case r of
         Some x \<Rightarrow> one_more n x (group_live h (dynamic_pools (AdaptiveMemory m))) (group_live h' (dynamic_pools (AdaptiveMemory ?m)))
       | None \<Rightarrow> group_live h' (dynamic_pools (AdaptiveMemory ?m)) = group_live h (dynamic_pools (AdaptiveMemory m))"
      using group_put_live(1) [OF g1 t(2)] group_put_live(2) [OF g1 t(2), of n] t(5,6) by (cases r) simp_all
    moreover have "group_step ids held sane (dynamic_pools (AdaptiveMemory m)) h st (dynamic_pools (AdaptiveMemory ?m)) h' st"
      using group_put(1) [OF g1 t(2)] by simp
    ultimately show ?thesis by blast
  next
    case small
    note g1 = gs [unfolded adaptive_parts(2)]
    have sv: "served ids held sane (ad_small m) h st" using group_member [OF g1] by simp
    from try_reserve_step [OF sv, of n g] obtain r q h' g' where
      t: "sliced_try_reserve n (ad_small m) h g = Ok (r, q, h', g')" "pool_step ids held sane (ad_small m) h st q h' st"
      "r = None \<longrightarrow> pool_live h' (sp_pages q) = pool_live h (sp_pages (ad_small m))"
      "\<forall>i. r = Some i \<longrightarrow> one_more n i (pool_live h (sp_pages (ad_small m))) (pool_live h' (sp_pages q))"
      by blast
    note st = dyn_step_sliced [OF t(2)]
    let ?m = "m\<lparr>ad_small := q\<rparr>"
    have "adaptive_try_reserve av n m h g = Ok (r, ?m, h', g')" using small t(1) by (simp add: adaptive_try_reserve_def)
    moreover have "dynamic_ok nr (AdaptiveMemory ?m)" using ok small_ok_shape [OF sliced_try_shape [OF t(1)]] by simp
    moreover have "case r of
         Some x \<Rightarrow> one_more n x (group_live h (dynamic_pools (AdaptiveMemory m))) (group_live h' (dynamic_pools (AdaptiveMemory ?m)))
       | None \<Rightarrow> group_live h' (dynamic_pools (AdaptiveMemory ?m)) = group_live h (dynamic_pools (AdaptiveMemory m))"
      using group_put_live(1) [OF g1 st] group_put_live(2) [OF g1 st, of n] t(3,4) by (cases r) simp_all
    moreover have "group_step ids held sane (dynamic_pools (AdaptiveMemory m)) h st (dynamic_pools (AdaptiveMemory ?m)) h' st"
      using group_put(1) [OF g1 st] by simp
    ultimately show ?thesis by blast
  next
    case large
    note g1 = gs [unfolded adaptive_parts(3)] and ar = arena_of_group [OF gs ok]
    from arena_try_reserve_shown [OF ar(1), of n g] obtain r a h' g' where
      t: "arena_try_reserve n (ad_arena m) h g = Ok (r, a, h', g')" "arena_ok ids held sane a h' st" by blast
    note s = arena_try_reserve_group [OF ar t(1)]
    let ?m = "m\<lparr>ad_arena := a\<rparr>"
    have step: "group_step ids held sane (arena_group (ad_arena m) :: 'f dyn_pool list) h st (arena_group a) h' st" using s by simp
    have "adaptive_try_reserve av n m h g = Ok (r, ?m, h', g')" using large t(1) by (simp add: adaptive_try_reserve_def)
    moreover have "dynamic_ok nr (AdaptiveMemory ?m)" using ok s t(2) by (simp add: arena_ok_group [where 'f = 'f])
    moreover have "case r of
         Some x \<Rightarrow> one_more n x (group_live h (dynamic_pools (AdaptiveMemory m))) (group_live h' (dynamic_pools (AdaptiveMemory ?m)))
       | None \<Rightarrow> group_live h' (dynamic_pools (AdaptiveMemory ?m)) = group_live h (dynamic_pools (AdaptiveMemory m))"
      using s group_lift_live(1) [OF g1 step] group_lift_live(2) [OF g1 step, of n] by (cases r) simp_all
    moreover have "group_step ids held sane (dynamic_pools (AdaptiveMemory m)) h st (dynamic_pools (AdaptiveMemory ?m)) h' st"
      using group_lift(1) [OF g1 step] by simp
    ultimately show ?thesis by blast
  qed
qed

lemma adaptive_cleanup_group:
  fixes m :: "'f adaptive_memory"
  assumes gs: "group_served ids held sane (dynamic_pools (AdaptiveMemory m)) h st" and ok: "dynamic_ok nr (AdaptiveMemory m)"
  shows "\<exists>m' h' g' st'. adaptive_cleanup ops nr c m h g st = Ok (m', h', g', st')
    \<and> group_step ids held sane (dynamic_pools (AdaptiveMemory m)) h st (dynamic_pools (AdaptiveMemory m')) h' st'
    \<and> dynamic_ok nr (AdaptiveMemory m')
    \<and> group_live h' (dynamic_pools (AdaptiveMemory m')) = group_live h (dynamic_pools (AdaptiveMemory m))"
proof -
  note g0 = gs [unfolded adaptive_parts(1)]
  have sv: "exclusive_served ids held sane (ad_tiny m) h st" using group_member [OF g0] by simp
  have "xp_last_dealloc_check (ad_tiny m) \<le> nr" using ok by (simp add: bucket_at_def)
  from exclusive_cleanup_step [OF sv this, of c g] obtain tiny h1 g1 st1 where
    t: "exclusive_cleanup ops nr c (ad_tiny m) h g st = Ok (tiny, h1, g1, st1)"
    "dyn_step ids held sane (DynExclusive (ad_tiny m)) h st (DynExclusive tiny) h1 st1"
    "exclusive_shape tiny = exclusive_shape (ad_tiny m)" "xp_last_dealloc_check tiny \<le> nr"
    "dyn_live h1 (DynExclusive tiny) = dyn_live h (DynExclusive (ad_tiny m))" by blast
  let ?m1 = "m\<lparr>ad_tiny := tiny\<rparr>"
  have s1: "group_step ids held sane (dynamic_pools (AdaptiveMemory m)) h st (dynamic_pools (AdaptiveMemory ?m1)) h1 st1"
    "group_live h1 (dynamic_pools (AdaptiveMemory ?m1)) = group_live h (dynamic_pools (AdaptiveMemory m))"
    using group_put(1) [OF g0 t(2)] group_put_live(1) [OF g0 t(2,5)] by simp_all
  have ok1: "dynamic_ok nr (AdaptiveMemory ?m1)" using ok t(3,4) by (simp add: bucket_at_def exclusive_shape_def)
  note g2 = group_stepD(1) [OF s1(1), unfolded adaptive_parts(2)]
  have sv2: "served ids held sane (ad_small m) h1 st1" using group_member [OF g2] by simp
  obtain small h2 g2' st2 where u: "sliced_cleanup ops nr c (ad_small m) h1 g1 st1 = (small, h2, g2', st2)"
    by (cases "sliced_cleanup ops nr c (ad_small m) h1 g1 st1")
  have step: "pool_step ids held sane (ad_small m) h1 st1 small h2 st2"
    "pool_live h2 (sp_pages small) = pool_live h1 (sp_pages (ad_small m))"
    using u release_step [OF sv2, of g1 small h2 g2' st2] pool_step_refl [OF sv2]
    by (auto simp: sliced_cleanup_def split: if_splits)
  let ?m2 = "?m1\<lparr>ad_small := small\<rparr>"
  have st: "dyn_step ids held sane (DynSliced (ad_small ?m1) :: 'f dyn_pool) h1 st1 (DynSliced small) h2 st2"
    "dyn_live h2 (DynSliced small :: 'f dyn_pool) = dyn_live h1 (DynSliced (ad_small ?m1) :: 'f dyn_pool)"
    using dyn_step_sliced [OF step(1)] step(2) by simp_all
  have s2: "group_step ids held sane (dynamic_pools (AdaptiveMemory ?m1)) h1 st1 (dynamic_pools (AdaptiveMemory ?m2)) h2 st2"
    "group_live h2 (dynamic_pools (AdaptiveMemory ?m2)) = group_live h1 (dynamic_pools (AdaptiveMemory ?m1))"
    using group_put(1) [OF g2 st(1)] group_put_live(1) [OF g2 st] by simp_all
  have ok2: "dynamic_ok nr (AdaptiveMemory ?m2)" using ok1 small_ok_shape [OF sliced_cleanup_shape [OF u]] by simp
  note g3 = group_stepD(1) [OF s2(1)]
  note ar = arena_of_group [OF g3 ok2] and g3' = g3 [unfolded adaptive_parts(3)]
  from arena_cleanup_shown [OF ar(1), of nr c g2'] obtain a h' g' st' where
    v: "arena_cleanup ops nr c (ad_arena ?m2) h2 g2' st2 = Ok (a, h', g', st')" "arena_ok ids held sane a h' st'" by blast
  note s = arena_cleanup_group [OF ar v(1)]
  let ?m3 = "?m2\<lparr>ad_arena := a\<rparr>"
  have s3: "group_step ids held sane (dynamic_pools (AdaptiveMemory ?m2)) h2 st2 (dynamic_pools (AdaptiveMemory ?m3)) h' st'"
    "group_live h' (dynamic_pools (AdaptiveMemory ?m3)) = group_live h2 (dynamic_pools (AdaptiveMemory ?m2))"
    using group_lift(1) [OF g3' conjunct1 [OF s]] group_lift_live(1) [OF g3' conjunct1 [OF s]] s by simp_all
  have "adaptive_cleanup ops nr c m h g st = Ok (?m3, h', g', st')"
    using t(1) u v(1) by (simp add: adaptive_cleanup_def)
  moreover have "dynamic_ok nr (AdaptiveMemory ?m3)" using ok2 s v(2) by (simp add: arena_ok_group [where 'f = 'f])
  moreover have "group_live h' (dynamic_pools (AdaptiveMemory ?m3)) = group_live h (dynamic_pools (AdaptiveMemory m))"
    using s1(2) s2(2) s3(2) by simp
  ultimately show ?thesis using group_step_trans [OF group_step_trans [OF s1(1) s2(1)] s3(1)] by blast
qed

lemma dynamic_reserve_group:
  assumes "group_served ids held sane (dynamic_pools d) h st" "dynamic_ok nr d"
    and r: "dynamic_reserve av ops n mapping d h g st = (r, d', h', g', st')"
  shows "case r of
      Ok x \<Rightarrow> group_step ids held sane (dynamic_pools d) h st (dynamic_pools d') h' st' \<and> dynamic_ok nr d'
        \<and> one_more n x (group_live h (dynamic_pools d)) (group_live h' (dynamic_pools d'))
    | Err e \<Rightarrow> group_step ids held sane (dynamic_pools d) h st (dynamic_pools d') h' st' \<and> dynamic_ok nr d'
        \<and> group_live h' (dynamic_pools d') = group_live h (dynamic_pools d)
    | Panic \<Rightarrow> storage_panics ops st"
proof (cases d)
  case (ExclusiveMemory qs)
  then obtain qs' where "buckets_reserve av ops n qs h g st = (r, qs', h', g', st')" "d' = ExclusiveMemory qs'"
    using r by (auto split: prod.splits)
  with buckets_reserve_group [of qs h st nr av n g r qs' h' g' st'] assms(1,2) ExclusiveMemory show ?thesis by (cases r) simp_all
next
  case (AdaptiveMemory m)
  then obtain m' where "adaptive_reserve av ops n mapping m h g st = (r, m', h', g', st')" "d' = AdaptiveMemory m'"
    using r by (auto split: prod.splits)
  with adaptive_reserve_group [of m h st nr av n mapping g r m' h' g' st'] assms(1,2) AdaptiveMemory show ?thesis by (cases r) simp_all
qed

lemma dynamic_try_group:
  assumes "group_served ids held sane (dynamic_pools d) h st" "dynamic_ok nr d"
  shows "\<exists>r d' h' g'. dynamic_try_reserve av n d h g = Ok (r, d', h', g')
    \<and> group_step ids held sane (dynamic_pools d) h st (dynamic_pools d') h' st \<and> dynamic_ok nr d'
    \<and> (case r of
         Some x \<Rightarrow> one_more n x (group_live h (dynamic_pools d)) (group_live h' (dynamic_pools d'))
       | None \<Rightarrow> group_live h' (dynamic_pools d') = group_live h (dynamic_pools d))"
proof (cases d)
  case (ExclusiveMemory qs)
  from buckets_try_group [of qs h st av n g] assms(1) ExclusiveMemory obtain r qs' h' where
    t: "buckets_try_reserve av n qs h g = Ok (r, qs', h', g)"
    "group_step ids held sane (map DynExclusive qs) h st (map DynExclusive qs') h' st"
    "list_all2 (\<lambda>q q'. exclusive_shape q' = exclusive_shape q \<and> xp_last_dealloc_check q' = xp_last_dealloc_check q) qs qs'"
    "case r of
       Some x \<Rightarrow> one_more n x (group_live h (map DynExclusive qs)) (group_live h' (map DynExclusive qs'))
     | None \<Rightarrow> group_live h' (map DynExclusive qs') = group_live h (map DynExclusive qs)"
    by auto
  have "dynamic_ok nr (ExclusiveMemory qs')"
    using assms(2) t(3) ExclusiveMemory by (auto simp: list_all2_conv_all_nth bucket_at_def exclusive_shape_def)
  with t ExclusiveMemory show ?thesis
    by (intro exI [of _ r] exI [of _ "ExclusiveMemory qs'"] exI [of _ h'] exI [of _ g]) (cases r; simp)
next
  case (AdaptiveMemory m)
  with adaptive_try_group [of m h st nr av n g] assms show ?thesis by auto
qed

lemma dynamic_cleanup_group:
  assumes "group_served ids held sane (dynamic_pools d) h st" "dynamic_ok nr d"
  shows "\<exists>d' h' g' st'. dynamic_cleanup ops nr c d h g st = Ok (d', h', g', st')
    \<and> group_step ids held sane (dynamic_pools d) h st (dynamic_pools d') h' st' \<and> dynamic_ok nr d'
    \<and> group_live h' (dynamic_pools d') = group_live h (dynamic_pools d)"
proof (cases d)
  case (ExclusiveMemory qs)
  have "\<forall>q \<in> set qs. xp_last_dealloc_check q \<le> nr"
    using assms(2) ExclusiveMemory by (auto simp: in_set_conv_nth bucket_at_def)
  with buckets_cleanup_group [of qs h st nr c g] assms(1) ExclusiveMemory obtain qs' h' g' st' where
    t: "buckets_cleanup ops nr c qs h g st = Ok (qs', h', g', st')"
    "group_step ids held sane (map DynExclusive qs) h st (map DynExclusive qs') h' st'"
    "list_all2 (\<lambda>q q'. exclusive_shape q' = exclusive_shape q \<and> xp_last_dealloc_check q' \<le> nr) qs qs'"
    "group_live h' (map DynExclusive qs') = group_live h (map DynExclusive qs)"
    by auto
  with dynamic_ok_buckets [OF _ t(3)] assms(2) ExclusiveMemory show ?thesis by auto
next
  case (AdaptiveMemory m)
  with adaptive_cleanup_group [of m h st nr c g] assms show ?thesis by auto
qed

end

end
