(* ===== verification/Memory_Management.thy ===== *)
theory Memory_Management
  imports Dynamic_Memory
begin

text \<open>
  The memory of one stream (\<open>memory_manage.rs\<close>): the persistent pool, the dedicated allocations and the
  dynamic pools over one storage, the windows that decide which of them a reservation is routed to,
  and the lookups every buffer goes through.

  The descriptor heap and the failure graph are threaded through; the storage is a field. The
  persistent-memory configuration, the dry-run flag of the thread and the floating-point parameters
  of the exclusive pools are arguments. Logging and the name are left out.
\<close>

section \<open>The state\<close>

definition persistent_pool_pos :: "8 word" where
  "persistent_pool_pos = 255"

definition dedicated_pool_pos :: "8 word" where
  "dedicated_pool_pos = 254"

datatype pool_position = AtPersistent | AtDedicated | AtDynamic "8 word"

definition position_new :: "8 word \<Rightarrow> pool_position" where
  "position_new pool =
    (if pool = persistent_pool_pos then AtPersistent
     else if pool = dedicated_pool_pos then AtDedicated
     else AtDynamic pool)"

datatype page_update = Allow | AddOnly | Forbidden

datatype allocation_mode = AutoMode | PersistentMode | DedicatedMode

datatype persistent_config = PersistentEnabled | PersistentSizeMatch | PersistentDisabled | PersistentEnforced

datatype allocation_option = FromConfig | Provided allocation_mode

record ('f, 'st) memory =
  mm_persistent :: persistent_pool
  mm_dedicated :: direct_pool
  mm_pools :: "'f dynamic_memory"
  mm_storage :: 'st
  mm_alloc_reserve_count :: nat
  mm_mode :: allocation_mode
  mm_base_mode :: allocation_mode
  mm_windows :: "allocation_mode list"
  mm_config :: persistent_config

definition configured_mode :: "persistent_config \<Rightarrow> allocation_option \<Rightarrow> allocation_mode" where
  "configured_mode config option =
    (case option of
       Provided mode \<Rightarrow> mode
     | FromConfig \<Rightarrow>
         (case config of
            PersistentEnabled \<Rightarrow> AutoMode
          | PersistentSizeMatch \<Rightarrow> AutoMode
          | PersistentDisabled \<Rightarrow> AutoMode
          | PersistentEnforced \<Rightarrow> PersistentMode))"

definition from_configuration ::
  "'f average \<Rightarrow> bucket_floats \<Rightarrow> 'st \<Rightarrow> memory_properties \<Rightarrow> memory_configuration \<Rightarrow> persistent_config \<Rightarrow> allocation_option
    \<Rightarrow> ('f, 'st) memory io" where
  "from_configuration av bf storage properties layout config option =
    try_then (dynamic_new av bf properties layout) (\<lambda>pools.
      let mode = configured_mode config option in
      Ok \<lparr>mm_persistent = persistent_new (mp_max_page_size properties) (mp_alignment properties) persistent_pool_pos,
          mm_dedicated = direct_new (mp_alignment properties) dedicated_pool_pos (Some 0),
          mm_pools = pools, mm_storage = storage, mm_alloc_reserve_count = 0,
          mm_mode = mode, mm_base_mode = mode, mm_windows = [], mm_config = config\<rparr>)"

section \<open>Allocation windows\<close>

text \<open>\<open>mode\<close>: the innermost window is the last of the vector; \<open>pop\<close> on none does nothing.\<close>

definition window_for :: "allocation_mode \<Rightarrow> ('f, 'st) memory \<Rightarrow> allocation_mode" where
  "window_for mode m =
    (case mode of
       PersistentMode \<Rightarrow>
         (case mm_config m of
            PersistentEnabled \<Rightarrow> mode
          | PersistentSizeMatch \<Rightarrow> mode
          | PersistentDisabled \<Rightarrow> mm_base_mode m
          | PersistentEnforced \<Rightarrow> mm_base_mode m)
     | _ \<Rightarrow> mode)"

definition memory_mode :: "allocation_mode \<Rightarrow> ('f, 'st) memory \<Rightarrow> ('f, 'st) memory" where
  "memory_mode mode m =
    (let windows = (case mode of AutoMode \<Rightarrow> butlast (mm_windows m) | _ \<Rightarrow> mm_windows m @ [window_for mode m])
     in m\<lparr>mm_windows := windows, mm_mode := (if windows = [] then mm_base_mode m else last windows)\<rparr>)"

section \<open>Lookups\<close>

definition allocated :: "handle \<Rightarrow> heap \<Rightarrow> memory_location io" where
  "allocated i h = (if \<not> is_allocated h i then Err (NotFound NeverInitialized) else Ok (location h i))"

definition owned_by :: "slice \<Rightarrow> handle \<Rightarrow> unit io" where
  "owned_by s i = (if sl_handle s \<noteq> i then Err (NotFound DifferentAllocation) else Ok ())"

definition memory_pool_at :: "memory_location \<Rightarrow> ('f, 'st) memory \<Rightarrow> 'f dyn_pool io" where
  "memory_pool_at l m =
    (case position_new (loc_pool l) of
       AtPersistent \<Rightarrow> Ok (DynPersistent (mm_persistent m))
     | AtDedicated \<Rightarrow> Ok (DynDirect (mm_dedicated m))
     | AtDynamic index \<Rightarrow>
         (case dynamic_pool index (mm_pools m) of
            Some q \<Rightarrow> Ok q
          | None \<Rightarrow> Err (NotFound (PoolMissing (unat index)))))"

text \<open>\<open>pool_mut\<close>: writing a pool back where \<open>memory_pool_at\<close> found it.\<close>

definition memory_put :: "memory_location \<Rightarrow> 'f dyn_pool \<Rightarrow> ('f, 'st) memory \<Rightarrow> ('f, 'st) memory" where
  "memory_put l q m =
    (case position_new (loc_pool l) of
       AtPersistent \<Rightarrow> (case q of DynPersistent p \<Rightarrow> m\<lparr>mm_persistent := p\<rparr> | _ \<Rightarrow> m)
     | AtDedicated \<Rightarrow> (case q of DynDirect p \<Rightarrow> m\<lparr>mm_dedicated := p\<rparr> | _ \<Rightarrow> m)
     | AtDynamic index \<Rightarrow> m\<lparr>mm_pools := dynamic_put index q (mm_pools m)\<rparr>)"

definition memory_find :: "handle \<Rightarrow> ('f, 'st) memory \<Rightarrow> heap \<Rightarrow> slice io" where
  "memory_find i m h =
    try_then (allocated i h) (\<lambda>l.
    try_then (memory_pool_at l m) (\<lambda>q.
    try_then (dyn_find i q h) (\<lambda>s.
    try_then (owned_by s i) (\<lambda>_. Ok s))))"

definition memory_find_mut :: "handle \<Rightarrow> ('f, 'st) memory \<Rightarrow> heap \<Rightarrow> (slice \<times> (slice \<Rightarrow> ('f, 'st) memory)) io" where
  "memory_find_mut i m h =
    try_then (allocated i h) (\<lambda>l.
    try_then (memory_pool_at l m) (\<lambda>q.
    try_then (dyn_find_mut i q h) (\<lambda>(s, put).
    try_then (owned_by s i) (\<lambda>_. Ok (s, \<lambda>s. memory_put l (put s) m)))))"

definition get_cursor :: "handle \<Rightarrow> ('f, 'st) memory \<Rightarrow> heap \<Rightarrow> nat io" where
  "get_cursor i m h = try_then (memory_find i m h) (\<lambda>s. Ok (sl_cursor s))"

definition memory_materialize ::
  "'st storage_ops \<Rightarrow> handle \<Rightarrow> ('f, 'st) memory \<Rightarrow> heap \<Rightarrow> unit io \<times> ('f, 'st) memory" where
  "memory_materialize ops i m h =
    (if loc_init (location h i) = 0 then (Ok (), m)
     else
       (case position_new (loc_pool (location h i)) of
          AtPersistent \<Rightarrow>
            (case persistent_materialize ops i (mm_persistent m) h (mm_storage m) of
               (Ok q, st) \<Rightarrow> (Ok (), m\<lparr>mm_persistent := q, mm_storage := st\<rparr>)
             | (Err e, st) \<Rightarrow> (Err e, m\<lparr>mm_storage := st\<rparr>)
             | (Panic, st) \<Rightarrow> (Panic, m\<lparr>mm_storage := st\<rparr>))
        | AtDedicated \<Rightarrow>
            (case direct_materialize ops i (mm_dedicated m) h (mm_storage m) of
               (Ok q, st) \<Rightarrow> (Ok (), m\<lparr>mm_dedicated := q, mm_storage := st\<rparr>)
             | (Err e, st) \<Rightarrow> (Err e, m\<lparr>mm_storage := st\<rparr>)
             | (Panic, st) \<Rightarrow> (Panic, m\<lparr>mm_storage := st\<rparr>))
        | AtDynamic _ \<Rightarrow>
            (case dynamic_materialize ops i (mm_pools m) h (mm_storage m) of
               (Ok q, st) \<Rightarrow> (Ok (), m\<lparr>mm_pools := q, mm_storage := st\<rparr>)
             | (Err e, st) \<Rightarrow> (Err e, m\<lparr>mm_storage := st\<rparr>)
             | (Panic, st) \<Rightarrow> (Panic, m\<lparr>mm_storage := st\<rparr>))))"

definition get_storage ::
  "'st storage_ops \<Rightarrow> handle \<Rightarrow> ('f, 'st) memory \<Rightarrow> heap \<Rightarrow> storage_handle io \<times> ('f, 'st) memory" where
  "get_storage ops i m h =
    (case memory_materialize ops i m h of
       (r, m) \<Rightarrow> (try_then r (\<lambda>_. try_then (memory_find i m h) (\<lambda>s. Ok (sl_storage s))), m))"

text \<open>\<open>get_resource\<close>: \<open>get\<close> is the storage's lookup of a handle.\<close>

definition get_resource ::
  "'st storage_ops \<Rightarrow> (storage_handle \<Rightarrow> 'st \<Rightarrow> 'r io) \<Rightarrow> handle \<Rightarrow> nat option \<Rightarrow> nat option \<Rightarrow> ('f, 'st) memory \<Rightarrow> heap
    \<Rightarrow> 'r io \<times> ('f, 'st) memory" where
  "get_resource ops get i skip_first skip_last m h =
    (case get_storage ops i m h of
       (r, m) \<Rightarrow>
         (try_then r (\<lambda>s.
          try_then (case skip_first of Some n \<Rightarrow> offset_start s n | None \<Rightarrow> Ok s) (\<lambda>s.
          try_then (case skip_last of Some n \<Rightarrow> offset_end s n | None \<Rightarrow> Ok s) (\<lambda>s.
            get s (mm_storage m)))), m))"

text \<open>\<open>managed_resource\<close>: the resource with the binding that keeps it in place.\<close>

definition managed_resource ::
  "'st storage_ops \<Rightarrow> (storage_handle \<Rightarrow> 'st \<Rightarrow> 'r io) \<Rightarrow> handle \<Rightarrow> nat option \<Rightarrow> nat option \<Rightarrow> ('f, 'st) memory \<Rightarrow> heap
    \<Rightarrow> (handle \<times> 'r) io \<times> ('f, 'st) memory" where
  "managed_resource ops get i skip_first skip_last m h =
    (case get_resource ops get i skip_first skip_last m h of
       (r, m) \<Rightarrow> (try_then r (\<lambda>x. Ok (i, x)), m))"

definition memory_guard ::
  "memory_location \<Rightarrow> ('f, 'st) memory \<Rightarrow> heap \<Rightarrow> (guard_token \<times> ('f, 'st) memory \<times> heap) option" where
  "memory_guard l m h =
    (case memory_pool_at l m of
       Ok q \<Rightarrow> map_option (\<lambda>(guard, q, h). (guard, memory_put l q m, h)) (dyn_guard l q h)
     | _ \<Rightarrow> None)"

section \<open>Cleaning up\<close>

definition memory_cleanup ::
  "'st storage_ops \<Rightarrow> cleanup_kind \<Rightarrow> ('f, 'st) memory \<Rightarrow> heap \<Rightarrow> error_graph
    \<Rightarrow> (('f, 'st) memory \<times> heap \<times> error_graph) io" where
  "memory_cleanup ops cleanup m h g =
    (case persistent_cleanup ops (mm_alloc_reserve_count m) cleanup (mm_persistent m) h g (mm_storage m) of
       (persistent, h, g, st) \<Rightarrow>
         (case direct_reclaim ops (mm_dedicated m) h g st of
            (freed, dedicated, h, g, st) \<Rightarrow>
              let st = (if freed then so_flush ops st else st) in
              try_then (dynamic_cleanup ops (mm_alloc_reserve_count m) cleanup (mm_pools m) h g st)
                (\<lambda>(pools, h, g, st).
                  let st = (if cleanup = Explicit then so_flush ops st else st) in
                  Ok (m\<lparr>mm_persistent := persistent, mm_dedicated := dedicated, mm_pools := pools, mm_storage := st\<rparr>, h, g))))"

section \<open>Reserving\<close>

text \<open>\<open>reserve_adding\<close>: \<open>mapping\<close> is \<open>PageMapping::current\<close>. A panic of \<open>try_reserve\<close> is one of the call.\<close>

definition reserve_adding ::
  "'f average \<Rightarrow> 'st storage_ops \<Rightarrow> bool \<Rightarrow> nat \<Rightarrow> ('f, 'st) memory \<Rightarrow> heap \<Rightarrow> error_graph
    \<Rightarrow> handle io \<times> ('f, 'st) memory \<times> heap \<times> error_graph" where
  "reserve_adding av ops dry_run n m h g =
    (let m = m\<lparr>mm_alloc_reserve_count := mm_alloc_reserve_count m + 1\<rparr>;
         mapping = mapping_current dry_run in
     if mm_mode m = DedicatedMode then
       (case direct_alloc ops n mapping (mm_dedicated m) h (mm_storage m) of
          (Ok (x, q, h), st) \<Rightarrow> (Ok x, m\<lparr>mm_dedicated := q, mm_storage := st\<rparr>, h, g)
        | (Err e, st) \<Rightarrow> (Err e, m\<lparr>mm_storage := st\<rparr>, h, g)
        | (Panic, st) \<Rightarrow> (Panic, m\<lparr>mm_storage := st\<rparr>, h, g))
     else
       let persistent_mode = (mm_mode m = PersistentMode);
           size_match = (mm_config m = PersistentSizeMatch) in
       (case (if persistent_mode \<or> size_match then persistent_try_reserve n (mm_persistent m) h g
              else Ok (None, mm_persistent m, h, g)) of
          Ok (Some x, q, h, g) \<Rightarrow> (Ok x, m\<lparr>mm_persistent := q\<rparr>, h, g)
        | Ok (None, q, h, g) \<Rightarrow>
            let m = m\<lparr>mm_persistent := q\<rparr> in
            if persistent_mode \<or> size_match \<and> has_size n (mm_persistent m) then
              (case persistent_alloc ops n mapping (mm_persistent m) h (mm_storage m) of
                 (Ok (x, q, h), st) \<Rightarrow> (Ok x, m\<lparr>mm_persistent := q, mm_storage := st\<rparr>, h, g)
               | (Err e, st) \<Rightarrow> (Err e, m\<lparr>mm_storage := st\<rparr>, h, g)
               | (Panic, st) \<Rightarrow> (Panic, m\<lparr>mm_storage := st\<rparr>, h, g))
            else
              (case dynamic_reserve av ops n mapping (mm_pools m) h g (mm_storage m) of
                 (r, q, h, g, st) \<Rightarrow> (r, m\<lparr>mm_pools := q, mm_storage := st\<rparr>, h, g))
        | Err e \<Rightarrow> (Err e, m, h, g)
        | Panic \<Rightarrow> (Panic, m, h, g)))"

definition reserve_held ::
  "'f average \<Rightarrow> nat \<Rightarrow> ('f, 'st) memory \<Rightarrow> heap \<Rightarrow> error_graph
    \<Rightarrow> (handle option \<times> ('f, 'st) memory \<times> heap \<times> error_graph) io" where
  "reserve_held av n m h g =
    (case mm_mode m of
       DedicatedMode \<Rightarrow>
         try_then (direct_try_reserve n (mm_dedicated m) h g) (\<lambda>(r, q, h, g). Ok (r, m\<lparr>mm_dedicated := q\<rparr>, h, g))
     | PersistentMode \<Rightarrow>
         try_then (persistent_try_reserve n (mm_persistent m) h g) (\<lambda>(r, q, h, g). Ok (r, m\<lparr>mm_persistent := q\<rparr>, h, g))
     | AutoMode \<Rightarrow>
         try_then (if mm_config m = PersistentSizeMatch then persistent_try_reserve n (mm_persistent m) h g
             else Ok (None, mm_persistent m, h, g)) (\<lambda>(r, q, h, g).
           let m = m\<lparr>mm_persistent := q\<rparr> in
           case r of
             Some x \<Rightarrow> Ok (Some x, m, h, g)
           | None \<Rightarrow>
               try_then (dynamic_try_reserve av n (mm_pools m) h g) (\<lambda>(r, q, h, g). Ok (r, m\<lparr>mm_pools := q\<rparr>, h, g))))"

definition memory_reserve ::
  "'f average \<Rightarrow> 'st storage_ops \<Rightarrow> bool \<Rightarrow> nat \<Rightarrow> page_update \<Rightarrow> ('f, 'st) memory \<Rightarrow> heap \<Rightarrow> error_graph
    \<Rightarrow> handle io \<times> ('f, 'st) memory \<times> heap \<times> error_graph" where
  "memory_reserve av ops dry_run n update m h g =
    (case update of
       Allow \<Rightarrow>
         (case memory_cleanup ops Periodic m h g of
            Ok (m, h, g) \<Rightarrow> reserve_adding av ops dry_run n m h g
          | Err e \<Rightarrow> (Err e, m, h, g)
          | Panic \<Rightarrow> (Panic, m, h, g))
     | AddOnly \<Rightarrow> reserve_adding av ops dry_run n m h g
     | Forbidden \<Rightarrow>
         (case reserve_held av n m h g of
            Ok (r, m, h, g) \<Rightarrow> (case r of Some x \<Rightarrow> Ok x | None \<Rightarrow> Err (PageUpdateForbidden n), m, h, g)
          | Err e \<Rightarrow> (Err e, m, h, g)
          | Panic \<Rightarrow> (Panic, m, h, g)))"

definition memory_bind ::
  "handle \<Rightarrow> handle \<Rightarrow> nat \<Rightarrow> ('f, 'st) memory \<Rightarrow> heap \<Rightarrow> error_graph \<Rightarrow> (('f, 'st) memory \<times> heap \<times> error_graph) io" where
  "memory_bind reserved assigned c m h g =
    try_then (allocated reserved h) (\<lambda>l.
    try_then (memory_pool_at l m) (\<lambda>q.
    try_then (dyn_bind reserved assigned c q h g) (\<lambda>(q, h, g). Ok (memory_put l q m, h, g))))"

section \<open>Failures, relocation and reports\<close>

definition memory_failure :: "handle \<Rightarrow> range \<Rightarrow> ('f, 'st) memory \<Rightarrow> heap \<Rightarrow> failure_id option" where
  "memory_failure i r m h = (case memory_find i m h of Ok s \<Rightarrow> failure_of (sl_tainted s) r | _ \<Rightarrow> None)"

definition memory_taint ::
  "handle \<Rightarrow> range \<Rightarrow> failure_id \<Rightarrow> ('f, 'st) memory \<Rightarrow> heap \<Rightarrow> error_graph \<Rightarrow> ('f, 'st) memory \<times> error_graph" where
  "memory_taint i r failure m h g =
    (case memory_find_mut i m h of
       Ok (s, put) \<Rightarrow> (case taint r failure (sl_tainted s) g of (t, g) \<Rightarrow> (put (s\<lparr>sl_tainted := t\<rparr>), g))
     | _ \<Rightarrow> (m, g))"

definition memory_written ::
  "handle \<Rightarrow> range \<Rightarrow> ('f, 'st) memory \<Rightarrow> heap \<Rightarrow> error_graph \<Rightarrow> ('f, 'st) memory \<times> error_graph" where
  "memory_written i r m h g =
    (case memory_find_mut i m h of
       Ok (s, put) \<Rightarrow> (case written r (sl_tainted s) g of (t, g) \<Rightarrow> (put (s\<lparr>sl_tainted := t\<rparr>), g))
     | _ \<Rightarrow> (m, g))"

definition memory_bytes_allocated :: "'st storage_ops \<Rightarrow> ('f, 'st) memory \<Rightarrow> nat" where
  "memory_bytes_allocated ops m = so_bytes_allocated ops (mm_storage m)"

definition memory_relocation_need :: "('f, 'st) memory \<Rightarrow> relocation_need io" where
  "memory_relocation_need m = dynamic_relocation_need (mm_pools m)"

definition memory_has_outdated :: "('f, 'st) memory \<Rightarrow> bool" where
  "memory_has_outdated m = dynamic_has_outdated (mm_pools m)"

definition memory_relocate ::
  "'st storage_ops \<Rightarrow> ('c, 'st) copy_queue \<Rightarrow> relocation_reason \<Rightarrow> ('f, 'st) memory \<Rightarrow> heap \<Rightarrow> error_graph \<Rightarrow> 'c
    \<Rightarrow> (('f, 'st) memory \<times> heap \<times> error_graph \<times> 'c) io" where
  "memory_relocate ops copier reason m h g c =
    try_then (dynamic_relocate ops copier reason (mm_pools m) h g (mm_storage m) c) (\<lambda>(q, h, g, st, c).
      Ok (m\<lparr>mm_pools := q, mm_storage := st\<rparr>, h, g, c))"

record pools_report =
  pr_dynamic :: "pool_report list"
  pr_persistent :: pool_report
  pr_dedicated :: pool_report

definition memory_report :: "heap \<Rightarrow> ('f, 'st) memory \<Rightarrow> pools_report io" where
  "memory_report h m =
    try_then (dynamic_report h (mm_pools m)) (\<lambda>rs.
      Ok \<lparr>pr_dynamic = rs, pr_persistent = persistent_report h (mm_persistent m),
          pr_dedicated = direct_report h (mm_dedicated m)\<rparr>)"

definition pools_usage :: "pools_report \<Rightarrow> memory_usage" where
  "pools_usage r = fold (\<lambda>pool usage. combine usage (rp_usage pool))
    (pr_dynamic r @ [pr_persistent r, pr_dedicated r]) usage_default"

end
