(* ===== verification/Memory_Safety.thy ===== *)
theory Memory_Safety
  imports Dynamic_Safety Memory_Management
begin

text \<open>
  The whole memory of a stream: the invariant that every pool serves its slices beside the others and
  is addressed where a location leads, and what reserving and cleaning up do to it.
\<close>

section \<open>The whole memory\<close>

definition memory_pools :: "('f, 'st) memory \<Rightarrow> 'f dyn_pool list" where
  "memory_pools m = DynPersistent (mm_persistent m) # DynDirect (mm_dedicated m) # dynamic_pools (mm_pools m)"

definition memory_ok ::
  "('st \<Rightarrow> storage_id set) \<Rightarrow> ('st \<Rightarrow> storage_id \<rightharpoonup> nat) \<Rightarrow> ('st \<Rightarrow> bool) \<Rightarrow> ('f, 'st) memory \<Rightarrow> heap \<Rightarrow> bool" where
  "memory_ok ids held sane m h \<longleftrightarrow> group_served ids held sane (memory_pools m) h (mm_storage m)
    \<and> pp_base (mm_persistent m) = location_new persistent_pool_pos 0 0
    \<and> dp_base (mm_dedicated m) = location_new dedicated_pool_pos 0 0
    \<and> dynamic_ok (mm_alloc_reserve_count m) (mm_pools m)"

definition memory_live :: "heap \<Rightarrow> ('f, 'st) memory \<Rightarrow> slice list" where
  "memory_live h m = group_live h (memory_pools m)"

lemma memory_parts:
  "memory_pools m = [] @ DynPersistent (mm_persistent m) # DynDirect (mm_dedicated m) # dynamic_pools (mm_pools m)"
  "memory_pools m = [DynPersistent (mm_persistent m)] @ DynDirect (mm_dedicated m) # dynamic_pools (mm_pools m)"
  "memory_pools m = [DynPersistent (mm_persistent m), DynDirect (mm_dedicated m)] @ dynamic_pools (mm_pools m) @ []"
  by (simp_all add: memory_pools_def)

text \<open>One step of the memory, with everything an operation may change.\<close>

definition memory_step ::
  "('st \<Rightarrow> storage_id set) \<Rightarrow> ('st \<Rightarrow> storage_id \<rightharpoonup> nat) \<Rightarrow> ('st \<Rightarrow> bool)
    \<Rightarrow> ('f, 'st) memory \<Rightarrow> heap \<Rightarrow> ('f, 'st) memory \<Rightarrow> heap \<Rightarrow> bool" where
  "memory_step ids held sane m h m' h' \<longleftrightarrow> memory_ok ids held sane m' h'
    \<and> group_step ids held sane (memory_pools m) h (mm_storage m) (memory_pools m') h' (mm_storage m')"

lemma memory_step_refl: "memory_ok ids held sane m h \<Longrightarrow> memory_step ids held sane m h m h"
  by (simp add: memory_step_def memory_ok_def group_step_refl)

lemma memory_step_trans:
  "memory_step ids held sane m h m1 h1 \<Longrightarrow> memory_step ids held sane m1 h1 m2 h2 \<Longrightarrow> memory_step ids held sane m h m2 h2"
  unfolding memory_step_def by (blast intro: group_step_trans)

lemma memory_step_ok: "memory_step ids held sane m h m' h' \<Longrightarrow> memory_ok ids held sane m' h'"
  by (simp add: memory_step_def)

lemma memory_step_persistent:
  fixes m :: "('f, 'st) memory"
  assumes ok: "memory_ok ids held sane m h"
    and step: "dyn_step ids held sane (DynPersistent (mm_persistent m) :: 'f dyn_pool) h (mm_storage m) (DynPersistent q) h' st'"
    and sh: "persistent_shape q = persistent_shape (mm_persistent m)"
  shows "memory_step ids held sane m h (m\<lparr>mm_persistent := q, mm_storage := st'\<rparr>) h'"
    and "in_use h' (pp_slices q) = in_use h (pp_slices (mm_persistent m)) \<Longrightarrow>
      memory_live h' (m\<lparr>mm_persistent := q, mm_storage := st'\<rparr>) = memory_live h m"
    and "one_more n x (in_use h (pp_slices (mm_persistent m))) (in_use h' (pp_slices q)) \<Longrightarrow>
      one_more n x (memory_live h m) (memory_live h' (m\<lparr>mm_persistent := q, mm_storage := st'\<rparr>))"
proof -
  have gs: "group_served ids held sane (memory_pools m) h (mm_storage m)" using ok by (simp add: memory_ok_def)
  note g = gs [unfolded memory_parts(1)]
  show "memory_step ids held sane m h (m\<lparr>mm_persistent := q, mm_storage := st'\<rparr>) h'"
    using group_put(1) [OF g step] group_stepD(1) [OF group_put(1) [OF g step]] ok sh
    by (simp add: memory_step_def memory_ok_def memory_pools_def persistent_shape_def)
  show "in_use h' (pp_slices q) = in_use h (pp_slices (mm_persistent m)) \<Longrightarrow>
      memory_live h' (m\<lparr>mm_persistent := q, mm_storage := st'\<rparr>) = memory_live h m"
    using group_put_live(1) [OF g step] by (simp add: memory_live_def memory_pools_def)
  show "one_more n x (in_use h (pp_slices (mm_persistent m))) (in_use h' (pp_slices q)) \<Longrightarrow>
      one_more n x (memory_live h m) (memory_live h' (m\<lparr>mm_persistent := q, mm_storage := st'\<rparr>))"
    using group_put_live(2) [OF g step, of n x] by (simp add: memory_live_def memory_pools_def)
qed

lemma memory_step_dedicated:
  fixes m :: "('f, 'st) memory"
  assumes ok: "memory_ok ids held sane m h"
    and step: "dyn_step ids held sane (DynDirect (mm_dedicated m) :: 'f dyn_pool) h (mm_storage m) (DynDirect q) h' st'"
    and sh: "direct_shape q = direct_shape (mm_dedicated m)"
  shows "memory_step ids held sane m h (m\<lparr>mm_dedicated := q, mm_storage := st'\<rparr>) h'"
    and "in_use h' (direct_live q) = in_use h (direct_live (mm_dedicated m)) \<Longrightarrow>
      memory_live h' (m\<lparr>mm_dedicated := q, mm_storage := st'\<rparr>) = memory_live h m"
    and "one_more n x (in_use h (direct_live (mm_dedicated m))) (in_use h' (direct_live q)) \<Longrightarrow>
      one_more n x (memory_live h m) (memory_live h' (m\<lparr>mm_dedicated := q, mm_storage := st'\<rparr>))"
proof -
  have gs: "group_served ids held sane (memory_pools m) h (mm_storage m)" using ok by (simp add: memory_ok_def)
  note g = gs [unfolded memory_parts(2)]
  show "memory_step ids held sane m h (m\<lparr>mm_dedicated := q, mm_storage := st'\<rparr>) h'"
    using group_put(1) [OF g step] group_stepD(1) [OF group_put(1) [OF g step]] ok sh
    by (simp add: memory_step_def memory_ok_def memory_pools_def direct_shape_def)
  show "in_use h' (direct_live q) = in_use h (direct_live (mm_dedicated m)) \<Longrightarrow>
      memory_live h' (m\<lparr>mm_dedicated := q, mm_storage := st'\<rparr>) = memory_live h m"
    using group_put_live(1) [OF g step] by (simp add: memory_live_def memory_pools_def)
  show "one_more n x (in_use h (direct_live (mm_dedicated m))) (in_use h' (direct_live q)) \<Longrightarrow>
      one_more n x (memory_live h m) (memory_live h' (m\<lparr>mm_dedicated := q, mm_storage := st'\<rparr>))"
    using group_put_live(2) [OF g step, of n x] by (simp add: memory_live_def memory_pools_def)
qed

lemma memory_step_dynamic:
  assumes ok: "memory_ok ids held sane m h"
    and step: "group_step ids held sane (dynamic_pools (mm_pools m)) h (mm_storage m) (dynamic_pools d) h' st'"
    and sh: "dynamic_ok (mm_alloc_reserve_count m) d"
  shows "memory_step ids held sane m h (m\<lparr>mm_pools := d, mm_storage := st'\<rparr>) h'"
    and "group_live h' (dynamic_pools d) = group_live h (dynamic_pools (mm_pools m)) \<Longrightarrow>
      memory_live h' (m\<lparr>mm_pools := d, mm_storage := st'\<rparr>) = memory_live h m"
    and "one_more n x (group_live h (dynamic_pools (mm_pools m))) (group_live h' (dynamic_pools d)) \<Longrightarrow>
      one_more n x (memory_live h m) (memory_live h' (m\<lparr>mm_pools := d, mm_storage := st'\<rparr>))"
proof -
  have gs: "group_served ids held sane (memory_pools m) h (mm_storage m)" using ok by (simp add: memory_ok_def)
  note g = gs [unfolded memory_parts(3)]
  show "memory_step ids held sane m h (m\<lparr>mm_pools := d, mm_storage := st'\<rparr>) h'"
    using group_lift(1) [OF g step] group_stepD(1) [OF group_lift(1) [OF g step]] ok sh
    by (simp add: memory_step_def memory_ok_def memory_pools_def)
  show "group_live h' (dynamic_pools d) = group_live h (dynamic_pools (mm_pools m)) \<Longrightarrow>
      memory_live h' (m\<lparr>mm_pools := d, mm_storage := st'\<rparr>) = memory_live h m"
    using group_lift_live(1) [OF g step] by (simp add: memory_live_def memory_pools_def)
  show "one_more n x (group_live h (dynamic_pools (mm_pools m))) (group_live h' (dynamic_pools d)) \<Longrightarrow>
      one_more n x (memory_live h m) (memory_live h' (m\<lparr>mm_pools := d, mm_storage := st'\<rparr>))"
    using group_lift_live(2) [OF g step, of n x] by (simp add: memory_live_def memory_pools_def)
qed

text \<open>Only the storage changes.\<close>

lemma memory_step_storage:
  assumes "memory_ok ids held sane m h" "confined ids held {} {} h (mm_storage m) h st'" "sane st'"
  shows "memory_step ids held sane m h (m\<lparr>mm_storage := st'\<rparr>) h" "memory_live h (m\<lparr>mm_storage := st'\<rparr>) = memory_live h m"
  using assms group_storage [of ids held sane "memory_pools m" h "mm_storage m" st'] group_stepD(1)
  by (auto simp: memory_step_def memory_ok_def memory_pools_def memory_live_def)

lemma memory_counts:
  assumes "memory_ok ids held sane m h"
  shows "memory_ok ids held sane (m\<lparr>mm_alloc_reserve_count := mm_alloc_reserve_count m + 1\<rparr>) h"
    "memory_live h (m\<lparr>mm_alloc_reserve_count := k\<rparr>) = memory_live h m"
    "memory_pools (m\<lparr>mm_alloc_reserve_count := k\<rparr>) = memory_pools m"
  using assms dynamic_ok_later [of "mm_alloc_reserve_count m" "mm_pools m" "mm_alloc_reserve_count m + 1"]
  by (simp_all add: memory_ok_def memory_pools_def memory_live_def)

lemma memory_okD:
  assumes "memory_ok ids held sane m h"
  shows "persistent_served ids held sane (mm_persistent m) h (mm_storage m)"
    "direct_served ids held sane (mm_dedicated m) h (mm_storage m)"
    "group_served ids held sane (dynamic_pools (mm_pools m)) h (mm_storage m)"
    "dynamic_ok (mm_alloc_reserve_count m) (mm_pools m)" "heap_ok h" "sane (mm_storage m)"
  using assms by (auto simp: memory_ok_def memory_pools_def group_served_def)

text \<open>What a reservation promises.\<close>

definition reserves ::
  "'st storage_ops \<Rightarrow> ('st \<Rightarrow> storage_id set) \<Rightarrow> ('st \<Rightarrow> storage_id \<rightharpoonup> nat) \<Rightarrow> ('st \<Rightarrow> bool)
    \<Rightarrow> nat \<Rightarrow> ('f, 'st) memory \<Rightarrow> heap \<Rightarrow> handle io \<Rightarrow> ('f, 'st) memory \<Rightarrow> heap \<Rightarrow> bool" where
  "reserves ops ids held sane n m h r m' h' \<longleftrightarrow>
    (case r of
       Ok x \<Rightarrow> memory_step ids held sane m h m' h' \<and> one_more n x (memory_live h m) (memory_live h' m')
     | Err e \<Rightarrow> memory_step ids held sane m h m' h' \<and> memory_live h' m' = memory_live h m
     | Panic \<Rightarrow> (\<exists>st. sane st \<and> storage_panics ops st))"

lemma reserves_after:
  assumes "memory_step ids held sane m h m1 h1" "memory_live h1 m1 = memory_live h m"
    "reserves ops ids held sane n m1 h1 r m' h'"
  shows "reserves ops ids held sane n m h r m' h'"
  using assms memory_step_trans [OF assms(1)] by (cases r) (auto simp: reserves_def)

context compute_storage
begin

lemma dedicated_reserves:
  fixes m :: "('f, 'st) memory"
  assumes ok: "memory_ok ids held sane m h"
    and r: "(case direct_alloc ops n mapping (mm_dedicated m) h (mm_storage m) of
        (Ok (x, q, h), st) \<Rightarrow> (Ok x, m\<lparr>mm_dedicated := q, mm_storage := st\<rparr>, h, g)
      | (Err e, st) \<Rightarrow> (Err e, m\<lparr>mm_storage := st\<rparr>, h, g)
      | (Panic, st) \<Rightarrow> (Panic, m\<lparr>mm_storage := st\<rparr>, h, g)) = (r, m', h', g')"
  shows "reserves ops ids held sane n m h r m' h'"
proof -
  note d = memory_okD [OF ok]
  obtain ra st where al: "direct_alloc ops n mapping (mm_dedicated m) h (mm_storage m) = (ra, st)"
    by (cases "direct_alloc ops n mapping (mm_dedicated m) h (mm_storage m)")
  note as = direct_alloc_step [OF d(2) al, where 'f = 'f]
  show ?thesis
  proof (cases ra)
    case (Ok b)
    obtain x q h1 where b: "b = (x, q, h1)" by (cases b)
    have e: "r = outcome.Ok x" "m' = m\<lparr>mm_dedicated := q, mm_storage := st\<rparr>" "h' = h1" using r al Ok b by simp_all
    have a: "dyn_step ids held sane (DynDirect (mm_dedicated m) :: 'f dyn_pool) h (mm_storage m) (DynDirect q) h1 st"
      "direct_shape q = direct_shape (mm_dedicated m)"
      "one_more n x (in_use h (direct_live (mm_dedicated m))) (in_use h1 (direct_live q))" using as Ok b by simp_all
    from memory_step_dedicated(1,3) [OF ok a(1,2)] a(3) e show ?thesis by (simp add: reserves_def)
  next
    case (Err e)
    have e: "r = outcome.Err e" "m' = m\<lparr>mm_storage := st\<rparr>" "h' = h" using r al Err by simp_all
    have "dyn_step ids held sane (DynDirect (mm_dedicated m) :: 'f dyn_pool) h (mm_storage m) (DynDirect (mm_dedicated m)) h st"
      using as Err by simp
    from memory_step_dedicated(1,2) [OF ok this] e show ?thesis by (simp add: reserves_def)
  next
    case Panic
    with as d(6) r al show ?thesis by (auto simp: reserves_def)
  qed
qed

lemma persistent_reserves:
  fixes m :: "('f, 'st) memory"
  assumes ok: "memory_ok ids held sane m h"
    and r: "(case persistent_alloc ops n Eager (mm_persistent m) h (mm_storage m) of
        (Ok (x, q, h), st) \<Rightarrow> (Ok x, m\<lparr>mm_persistent := q, mm_storage := st\<rparr>, h, g)
      | (Err e, st) \<Rightarrow> (Err e, m\<lparr>mm_storage := st\<rparr>, h, g)
      | (Panic, st) \<Rightarrow> (Panic, m\<lparr>mm_storage := st\<rparr>, h, g)) = (r, m', h', g')"
  shows "reserves ops ids held sane n m h r m' h'"
proof -
  note d = memory_okD [OF ok]
  obtain ra st where al: "persistent_alloc ops n Eager (mm_persistent m) h (mm_storage m) = (ra, st)"
    by (cases "persistent_alloc ops n Eager (mm_persistent m) h (mm_storage m)")
  note as = persistent_alloc_step [OF d(1) al, where 'f = 'f]
  show ?thesis
  proof (cases ra)
    case (Ok b)
    obtain x q h1 where b: "b = (x, q, h1)" by (cases b)
    have e: "r = outcome.Ok x" "m' = m\<lparr>mm_persistent := q, mm_storage := st\<rparr>" "h' = h1" using r al Ok b by simp_all
    have a: "dyn_step ids held sane (DynPersistent (mm_persistent m) :: 'f dyn_pool) h (mm_storage m) (DynPersistent q) h1 st"
      "persistent_shape q = persistent_shape (mm_persistent m)"
      "one_more n x (in_use h (pp_slices (mm_persistent m))) (in_use h1 (pp_slices q))" using as Ok b by simp_all
    from memory_step_persistent(1,3) [OF ok a(1,2)] a(3) e show ?thesis by (simp add: reserves_def)
  next
    case (Err e)
    have e: "r = outcome.Err e" "m' = m\<lparr>mm_storage := st\<rparr>" "h' = h" using r al Err by simp_all
    have "dyn_step ids held sane (DynPersistent (mm_persistent m) :: 'f dyn_pool) h (mm_storage m) (DynPersistent (mm_persistent m)) h st"
      using as Err by simp
    from memory_step_persistent(1,2) [OF ok this] e show ?thesis by (simp add: reserves_def)
  next
    case Panic
    with as d(6) r al show ?thesis by (auto simp: reserves_def)
  qed
qed

lemma pools_reserve:
  assumes ok: "memory_ok ids held sane m h"
    and r: "(case dynamic_reserve av ops n mapping (mm_pools m) h g (mm_storage m) of
        (r, q, h, g, st) \<Rightarrow> (r, m\<lparr>mm_pools := q, mm_storage := st\<rparr>, h, g)) = (r, m', h', g')"
  shows "reserves ops ids held sane n m h r m' h'"
proof -
  note d = memory_okD [OF ok]
  obtain q st where dr: "dynamic_reserve av ops n mapping (mm_pools m) h g (mm_storage m) = (r, q, h', g', st)"
    and m': "m' = m\<lparr>mm_pools := q, mm_storage := st\<rparr>" using r by (auto split: prod.splits)
  note s = dynamic_reserve_group [OF d(3,4) dr]
  show ?thesis
  proof (cases r)
    case (Ok x)
    then show ?thesis using s memory_step_dynamic(1,3) [OF ok, of q h' st] m' by (simp add: reserves_def)
  next
    case (Err e)
    then show ?thesis using s memory_step_dynamic(1,2) [OF ok, of q h' st] m' by (simp add: reserves_def)
  next
    case Panic
    then show ?thesis using s d(6) by (auto simp: reserves_def)
  qed
qed

lemma reserve_adding_reserves:
  fixes m :: "('f, 'st) memory"
  assumes ok0: "memory_ok ids held sane m h" and r: "reserve_adding av ops False n m h g = (r, m', h', g')"
  shows "reserves ops ids held sane n m h r m' h'"
proof -
  define m1 where "m1 = m\<lparr>mm_alloc_reserve_count := mm_alloc_reserve_count m + 1\<rparr>"
  note cnt = memory_counts [OF ok0]
  have ok: "memory_ok ids held sane m1 h" using cnt(1) by (simp add: m1_def)
  have to: "reserves ops ids held sane n m h r m' h' = reserves ops ids held sane n m1 h r m' h'"
    using cnt(2,3) by (cases r) (simp_all add: reserves_def memory_step_def m1_def)
  note r1 = r [unfolded reserve_adding_def Let_def mapping_current_def, folded m1_def]
  have mode: "mm_mode m1 = mm_mode m" "mm_config m1 = mm_config m" by (simp_all add: m1_def)
  show ?thesis
  proof (cases "mm_mode m = DedicatedMode")
    case True
    show ?thesis
      unfolding to by (rule dedicated_reserves [OF ok, where n = n and mapping = Eager and g = g and g' = g'])
        (use r1 True mode in simp)
  next
    case False
    define persistent where "persistent \<longleftrightarrow> mm_mode m = PersistentMode \<or> mm_config m = PersistentSizeMatch"
    define continue :: "('f, 'st) memory \<Rightarrow> heap \<Rightarrow> error_graph \<Rightarrow> handle io \<times> ('f, 'st) memory \<times> heap \<times> error_graph" where
      "continue m2 h g = (if mm_mode m = PersistentMode \<or> mm_config m = PersistentSizeMatch \<and> has_size n (mm_persistent m2) then
          (case persistent_alloc ops n Eager (mm_persistent m2) h (mm_storage m2) of
             (Ok (x, q, h), st) \<Rightarrow> (Ok x, m2\<lparr>mm_persistent := q, mm_storage := st\<rparr>, h, g)
           | (Err e, st) \<Rightarrow> (Err e, m2\<lparr>mm_storage := st\<rparr>, h, g)
           | (Panic, st) \<Rightarrow> (Panic, m2\<lparr>mm_storage := st\<rparr>, h, g))
        else (case dynamic_reserve av ops n Eager (mm_pools m2) h g (mm_storage m2) of
             (r, q, h, g, st) \<Rightarrow> (r, m2\<lparr>mm_pools := q, mm_storage := st\<rparr>, h, g)))" for m2 h g
    have go: "reserves ops ids held sane n m2 h2 r m' h'"
      if "memory_ok ids held sane m2 h2" "continue m2 h2 g2 = (r, m', h', g')" for m2 h2 g2
      using that persistent_reserves [OF that(1), where n = n and g = g2] pools_reserve [OF that(1), where av = av and n = n and mapping = Eager and g = g2]
      by (simp add: continue_def split: if_splits)
    note d = memory_okD [OF ok]
    show ?thesis
    proof (cases persistent)
      case True
      from persistent_try_step [OF d(1), of n g, where 'f = 'f] obtain rt q h1 where
        t: "persistent_try_reserve n (mm_persistent m1) h g = Ok (rt, q, h1, g)"
        "dyn_step ids held sane (DynPersistent (mm_persistent m1) :: 'f dyn_pool) h (mm_storage m1) (DynPersistent q) h1 (mm_storage m1)"
        "persistent_shape q = persistent_shape (mm_persistent m1)"
        "rt = None \<longrightarrow> in_use h1 (pp_slices q) = in_use h (pp_slices (mm_persistent m1))"
        "\<forall>i. rt = Some i \<longrightarrow> one_more n i (in_use h (pp_slices (mm_persistent m1))) (in_use h1 (pp_slices q))" by blast
      let ?m2 = "m1\<lparr>mm_persistent := q, mm_storage := mm_storage m1\<rparr>"
      note ms = memory_step_persistent [OF ok t(2,3)]
      have same: "m1\<lparr>mm_persistent := q\<rparr> = ?m2" by simp
      show ?thesis
      proof (cases rt)
        case (Some x)
        have "r = outcome.Ok x" "m' = ?m2" "h' = h1"
          using r1 False t(1) Some True mode by (auto simp: persistent_def)
        then show ?thesis unfolding to using ms(1) ms(3) [of n x] t(5) Some by (simp add: reserves_def)
      next
        case None
        have "continue ?m2 h1 g = (r, m', h', g')"
          using r1 False t(1) None True mode by (auto simp: persistent_def continue_def)
        note next_step = go [OF memory_step_ok [OF ms(1)] this]
        have "memory_live h1 ?m2 = memory_live h m1" using ms(2) t(4) None by simp
        from reserves_after [OF ms(1) this next_step] show ?thesis unfolding to .
      qed
    next
      case False
      with \<open>mm_mode m \<noteq> DedicatedMode\<close> r1 mode have "continue m1 h g = (r, m', h', g')"
        by (simp add: persistent_def continue_def)
      from go [OF ok this] show ?thesis unfolding to .
    qed
  qed
qed

text \<open>In the room held, whatever happens the storage is not asked.\<close>

lemma reserve_held_shown:
  fixes m :: "('f, 'st) memory"
  assumes ok: "memory_ok ids held sane m h"
  shows "\<exists>r m' h' g'. reserve_held av n m h g = Ok (r, m', h', g') \<and> memory_step ids held sane m h m' h'
    \<and> mm_storage m' = mm_storage m
    \<and> (case r of
         Some x \<Rightarrow> one_more n x (memory_live h m) (memory_live h' m')
       | None \<Rightarrow> memory_live h' m' = memory_live h m)"
proof -
  note d = memory_okD [OF ok]
  have persistent: "\<exists>r q h'. persistent_try_reserve n (mm_persistent m) h g = Ok (r, q, h', g)
    \<and> memory_step ids held sane m h (m\<lparr>mm_persistent := q\<rparr>) h'
    \<and> (case r of
         Some x \<Rightarrow> one_more n x (memory_live h m) (memory_live h' (m\<lparr>mm_persistent := q\<rparr>))
       | None \<Rightarrow> memory_live h' (m\<lparr>mm_persistent := q\<rparr>) = memory_live h m)"
  proof -
    from persistent_try_step [OF d(1), of n g, where 'f = 'f] obtain r q h1 where
      t: "persistent_try_reserve n (mm_persistent m) h g = Ok (r, q, h1, g)"
      "dyn_step ids held sane (DynPersistent (mm_persistent m) :: 'f dyn_pool) h (mm_storage m) (DynPersistent q) h1 (mm_storage m)"
      "persistent_shape q = persistent_shape (mm_persistent m)"
      "r = None \<longrightarrow> in_use h1 (pp_slices q) = in_use h (pp_slices (mm_persistent m))"
      "\<forall>i. r = Some i \<longrightarrow> one_more n i (in_use h (pp_slices (mm_persistent m))) (in_use h1 (pp_slices q))" by blast
    have same: "m\<lparr>mm_persistent := q, mm_storage := mm_storage m\<rparr> = m\<lparr>mm_persistent := q\<rparr>" by simp
    note ms = memory_step_persistent(1,2) [OF ok t(2,3), unfolded same] memory_step_persistent(3) [OF ok t(2,3), of n, unfolded same]
    show ?thesis
      by (rule exI [of _ r], rule exI [of _ q], rule exI [of _ h1]) (use t(1,4,5) ms in \<open>cases r; simp\<close>)
  qed
  have dynamic: "\<exists>r q h' g'. dynamic_try_reserve av n (mm_pools m1) h1 g = Ok (r, q, h', g')
    \<and> memory_step ids held sane m1 h1 (m1\<lparr>mm_pools := q\<rparr>) h'
    \<and> (case r of
         Some x \<Rightarrow> one_more n x (memory_live h1 m1) (memory_live h' (m1\<lparr>mm_pools := q\<rparr>))
       | None \<Rightarrow> memory_live h' (m1\<lparr>mm_pools := q\<rparr>) = memory_live h1 m1)"
    if ok1: "memory_ok ids held sane m1 h1" for m1 :: "('f, 'st) memory" and h1
  proof -
    note d1 = memory_okD [OF ok1]
    from dynamic_try_group [OF d1(3,4), of av n g] obtain r q h' g' where
      t: "dynamic_try_reserve av n (mm_pools m1) h1 g = Ok (r, q, h', g')"
      "group_step ids held sane (dynamic_pools (mm_pools m1)) h1 (mm_storage m1) (dynamic_pools q) h' (mm_storage m1)"
      "dynamic_ok (mm_alloc_reserve_count m1) q"
      "case r of
         Some x \<Rightarrow> one_more n x (group_live h1 (dynamic_pools (mm_pools m1))) (group_live h' (dynamic_pools q))
       | None \<Rightarrow> group_live h' (dynamic_pools q) = group_live h1 (dynamic_pools (mm_pools m1))" by blast
    have same: "m1\<lparr>mm_pools := q, mm_storage := mm_storage m1\<rparr> = m1\<lparr>mm_pools := q\<rparr>" by simp
    note ms = memory_step_dynamic(1,2) [OF ok1 t(2,3), unfolded same] memory_step_dynamic(3) [OF ok1 t(2,3), of n, unfolded same]
    show ?thesis
      by (rule exI [of _ r], rule exI [of _ q], rule exI [of _ h'], rule exI [of _ g'])
        (use t(1,4) ms in \<open>cases r; simp\<close>)
  qed
  show ?thesis
  proof (cases "mm_mode m")
    case DedicatedMode
    from direct_try_step [OF d(2), of n g, where 'f = 'f] obtain r q h1 where
      t: "direct_try_reserve n (mm_dedicated m) h g = Ok (r, q, h1, g)"
      "dyn_step ids held sane (DynDirect (mm_dedicated m) :: 'f dyn_pool) h (mm_storage m) (DynDirect q) h1 (mm_storage m)"
      "direct_shape q = direct_shape (mm_dedicated m)"
      "r = None \<longrightarrow> in_use h1 (direct_live q) = in_use h (direct_live (mm_dedicated m))"
      "\<forall>i. r = Some i \<longrightarrow> one_more n i (in_use h (direct_live (mm_dedicated m))) (in_use h1 (direct_live q))" by blast
    have same: "m\<lparr>mm_dedicated := q, mm_storage := mm_storage m\<rparr> = m\<lparr>mm_dedicated := q\<rparr>" by simp
    note ms = memory_step_dedicated(1,2) [OF ok t(2,3), unfolded same] memory_step_dedicated(3) [OF ok t(2,3), of n, unfolded same]
    show ?thesis
      by (rule exI [of _ r], rule exI [of _ "m\<lparr>mm_dedicated := q\<rparr>"], rule exI [of _ h1], rule exI [of _ g])
        (use t(1,4,5) ms DedicatedMode in \<open>cases r; simp add: reserve_held_def\<close>)
  next
    case PersistentMode
    with persistent show ?thesis by (fastforce simp: reserve_held_def)
  next
    case AutoMode
    show ?thesis
    proof (cases "mm_config m = PersistentSizeMatch")
      case False
      with AutoMode dynamic [OF ok] show ?thesis by (fastforce simp: reserve_held_def)
    next
      case True
      from persistent obtain r q h1 where p: "persistent_try_reserve n (mm_persistent m) h g = Ok (r, q, h1, g)"
        "memory_step ids held sane m h (m\<lparr>mm_persistent := q\<rparr>) h1"
        "case r of
           Some x \<Rightarrow> one_more n x (memory_live h m) (memory_live h1 (m\<lparr>mm_persistent := q\<rparr>))
         | None \<Rightarrow> memory_live h1 (m\<lparr>mm_persistent := q\<rparr>) = memory_live h m" by blast
      show ?thesis
      proof (cases r)
        case (Some x)
        with p AutoMode True show ?thesis by (fastforce simp: reserve_held_def Let_def)
      next
        case None
        from dynamic [OF memory_step_ok [OF p(2)]] obtain r2 q2 h2 g2 where
          t: "dynamic_try_reserve av n (mm_pools m) h1 g = Ok (r2, q2, h2, g2)"
          "memory_step ids held sane (m\<lparr>mm_persistent := q\<rparr>) h1 (m\<lparr>mm_persistent := q, mm_pools := q2\<rparr>) h2"
          "case r2 of
             Some x \<Rightarrow> one_more n x (memory_live h1 (m\<lparr>mm_persistent := q\<rparr>)) (memory_live h2 (m\<lparr>mm_persistent := q, mm_pools := q2\<rparr>))
           | None \<Rightarrow> memory_live h2 (m\<lparr>mm_persistent := q, mm_pools := q2\<rparr>) = memory_live h1 (m\<lparr>mm_persistent := q\<rparr>)"
          by auto
        have "reserve_held av n m h g = Ok (r2, m\<lparr>mm_persistent := q, mm_pools := q2\<rparr>, h2, g2)"
          using p(1) t(1) None AutoMode True by (simp add: reserve_held_def Let_def)
        moreover have "case r2 of
            Some x \<Rightarrow> one_more n x (memory_live h m) (memory_live h2 (m\<lparr>mm_persistent := q, mm_pools := q2\<rparr>))
          | None \<Rightarrow> memory_live h2 (m\<lparr>mm_persistent := q, mm_pools := q2\<rparr>) = memory_live h m"
          using t(3) p(3) None by (cases r2) simp_all
        ultimately show ?thesis using memory_step_trans [OF p(2) t(2)] by auto
      qed
    qed
  qed
qed

lemma memory_cleanup_shown:
  fixes m :: "('f, 'st) memory"
  assumes ok: "memory_ok ids held sane m h"
  shows "\<exists>m' h' g'. memory_cleanup ops c m h g = Ok (m', h', g') \<and> memory_step ids held sane m h m' h'
    \<and> memory_live h' m' = memory_live h m \<and> mm_mode m' = mm_mode m \<and> mm_config m' = mm_config m
    \<and> mm_alloc_reserve_count m' = mm_alloc_reserve_count m"
proof -
  have flushed: "memory_step ids held sane m1 h1 (m1\<lparr>mm_storage := if b then so_flush ops st else st\<rparr>) h1
      \<and> memory_live h1 (m1\<lparr>mm_storage := if b then so_flush ops st else st\<rparr>) = memory_live h1 m1"
    if "memory_ok ids held sane m1 h1" "mm_storage m1 = st" for m1 :: "('f, 'st) memory" and h1 b st
  proof -
    have "confined ids held {} {} h1 st h1 (if b then so_flush ops st else st)" "sane (if b then so_flush ops st else st)"
      using flush_keeps [OF memory_okD(6) [OF that(1)]] memory_okD(5,6) [OF that(1)] that(2) by (auto simp: confined_def)
    then show ?thesis using memory_step_storage [OF that(1)] that(2) by simp
  qed
  obtain p h1 g1 st1 where pc: "persistent_cleanup ops (mm_alloc_reserve_count m) c (mm_persistent m) h g (mm_storage m) = (p, h1, g1, st1)"
    by (cases "persistent_cleanup ops (mm_alloc_reserve_count m) c (mm_persistent m) h g (mm_storage m)")
  from persistent_cleanup_step [OF memory_okD(1) [OF ok] pc, where 'f = 'f]
  have p: "dyn_step ids held sane (DynPersistent (mm_persistent m) :: 'f dyn_pool) h (mm_storage m) (DynPersistent p) h1 st1"
    "persistent_shape p = persistent_shape (mm_persistent m)" "in_use h1 (pp_slices p) = in_use h (pp_slices (mm_persistent m))" by simp_all
  let ?m1 = "m\<lparr>mm_persistent := p, mm_storage := st1\<rparr>"
  note s1 = memory_step_persistent(1,2) [OF ok p(1,2)]
  note ok1 = memory_step_ok [OF s1(1)]
  obtain b q h2 g2 st2 where dc: "direct_reclaim ops (mm_dedicated m) h1 g1 st1 = (b, q, h2, g2, st2)"
    by (cases "direct_reclaim ops (mm_dedicated m) h1 g1 st1")
  have "direct_served ids held sane (mm_dedicated m) h1 st1" using memory_okD(2) [OF ok1] by simp
  from direct_reclaim_step [OF this dc, where 'f = 'f]
  have q: "dyn_step ids held sane (DynDirect (mm_dedicated ?m1) :: 'f dyn_pool) h1 (mm_storage ?m1) (DynDirect q) h2 st2"
    "direct_shape q = direct_shape (mm_dedicated ?m1)" "in_use h2 (direct_live q) = in_use h1 (direct_live (mm_dedicated ?m1))" by simp_all
  let ?m2 = "?m1\<lparr>mm_dedicated := q, mm_storage := st2\<rparr>"
  note s2 = memory_step_dedicated(1,2) [OF ok1 q(1,2)]
  let ?st3 = "if b then so_flush ops st2 else st2"
  let ?m3 = "?m2\<lparr>mm_storage := ?st3\<rparr>"
  have s3: "memory_step ids held sane ?m2 h2 ?m3 h2" "memory_live h2 ?m3 = memory_live h2 ?m2"
    using flushed [OF memory_step_ok [OF s2(1)], of st2 b] by simp_all
  note ok3 = memory_step_ok [OF s3(1)]
  have d: "group_served ids held sane (dynamic_pools (mm_pools m)) h2 ?st3" "dynamic_ok (mm_alloc_reserve_count m) (mm_pools m)"
    using memory_okD(3,4) [OF ok3] by simp_all
  from dynamic_cleanup_group [OF d, of c g2] obtain e h4 g4 st4 where
    dd: "dynamic_cleanup ops (mm_alloc_reserve_count m) c (mm_pools m) h2 g2 ?st3 = Ok (e, h4, g4, st4)"
    "group_step ids held sane (dynamic_pools (mm_pools ?m3)) h2 (mm_storage ?m3) (dynamic_pools e) h4 st4"
    "dynamic_ok (mm_alloc_reserve_count ?m3) e" "group_live h4 (dynamic_pools e) = group_live h2 (dynamic_pools (mm_pools ?m3))"
    by auto
  let ?m4 = "?m3\<lparr>mm_pools := e, mm_storage := st4\<rparr>"
  note s4 = memory_step_dynamic(1,2) [OF ok3 dd(2,3)]
  let ?m5 = "?m4\<lparr>mm_storage := if c = Explicit then so_flush ops st4 else st4\<rparr>"
  have s5: "memory_step ids held sane ?m4 h4 ?m5 h4" "memory_live h4 ?m5 = memory_live h4 ?m4"
    using flushed [OF memory_step_ok [OF s4(1)], of st4 "c = Explicit"] by simp_all
  have "memory_cleanup ops c m h g = Ok (?m5, h4, g4)"
    using pc dc dd(1) by (simp add: memory_cleanup_def Let_def)
  moreover have "memory_step ids held sane m h ?m5 h4"
    by (rule memory_step_trans [OF memory_step_trans [OF memory_step_trans [OF memory_step_trans [OF s1(1) s2(1)] s3(1)] s4(1)] s5(1)])
  moreover have "memory_live h4 ?m5 = memory_live h m"
    using s1(2) [OF p(3)] s2(2) [OF q(3)] s3(2) s4(2) [OF dd(4)] s5(2) by simp
  ultimately show ?thesis by auto
qed

end

end
