(* ===== verification/Memory_Lookup.thy ===== *)
theory Memory_Lookup
  imports Memory_Safety
begin

text \<open>
  Where the allocations of a stream are: every slice is found where its location says, no two live
  allocations share a byte, and each lies inside the buffer behind it.
\<close>

section \<open>Where allocations are found\<close>

fun dyn_base :: "'f dyn_pool \<Rightarrow> memory_location" where
  "dyn_base (DynPersistent q) = pp_base q"
| "dyn_base (DynDirect q) = dp_base q"
| "dyn_base (DynExclusive q) = xp_base q"
| "dyn_base (DynSliced q) = sp_base q"

fun dyn_slices :: "'f dyn_pool \<Rightarrow> slice list" where
  "dyn_slices (DynPersistent q) = pp_slices q"
| "dyn_slices (DynDirect q) = direct_live q"
| "dyn_slices (DynExclusive q) = eslices (xp_pages q)"
| "dyn_slices (DynSliced q) = concat (map (\<lambda>x. pg_slices (fst x)) (sp_pages q))"

lemma dyn_handles_slices: "dyn_handles q = sl_handle ` set (dyn_slices q)"
  by (cases q) (auto simp: pool_handles_def all_handles_def handles_of_def)

lemma dyn_live_slices: "set (dyn_live h q) \<subseteq> set (dyn_slices q)"
  by (cases q) (auto simp: in_use_def pool_live_def lives_def live_def)

text \<open>The indices of the pool fit the location word.\<close>

fun dyn_small :: "'f dyn_pool \<Rightarrow> bool" where
  "dyn_small (DynPersistent q) \<longleftrightarrow> length (pp_slices q) \<le> 2 ^ 32"
| "dyn_small (DynDirect q) \<longleftrightarrow> length (dp_slices q) \<le> 2 ^ 32"
| "dyn_small (DynExclusive q) \<longleftrightarrow> length (xp_pages q) \<le> 2 ^ 16"
| "dyn_small (DynSliced q) \<longleftrightarrow> sliced_small q"

definition memory_small :: "('f, 'st) memory \<Rightarrow> bool" where
  "memory_small m \<longleftrightarrow> list_all dyn_small (memory_pools m)"

lemma placed_location:
  assumes "placed at cs h" "s \<in> set (somes cs)"
  shows "\<exists>k. location h (sl_handle s) = at k"
  using somes_nth [OF assms(2)] placed_at [OF assms(1)] by blast

lemma sliced_slice:
  assumes "s \<in> set (dyn_slices (DynSliced q))"
  shows "\<exists>k < length (sp_pages q). s \<in> set (pg_slices (fst (sp_pages q ! k)))"
proof -
  from assms obtain x where "x \<in> set (sp_pages q)" "s \<in> set (pg_slices (fst x))" by auto
  then show ?thesis by (metis in_set_conv_nth)
qed

lemma dyn_location:
  assumes sv: "dyn_served ids held sane q h st" and s: "s \<in> set (dyn_slices q)"
  shows "loc_pool (location h (sl_handle s)) = loc_pool (dyn_base q) \<and> loc_init (location h (sl_handle s)) = loc_init (dyn_base q)"
proof (cases q)
  case (DynPersistent p)
  with sv s placed_location [OF persistent_placed, of ids held sane p h st s] show ?thesis by auto
next
  case (DynDirect p)
  with sv s placed_location [OF direct_placed, of ids held sane p h st s] show ?thesis by (auto simp: direct_live_def)
next
  case (DynExclusive p)
  with sv s placed_location [OF exclusive_placed, of ids held sane p h st s] show ?thesis by auto
next
  case (DynSliced p)
  with sv have ok: "pool_ok p h" by (simp add: served_def)
  from sliced_slice s DynSliced obtain k where k: "k < length (sp_pages p)" "s \<in> set (pg_slices (fst (sp_pages p ! k)))" by blast
  note page = pool_page [OF ok k(1)]
  have "slots_ok (pg_base (fst (sp_pages p ! k))) (pg_slices (fst (sp_pages p ! k))) h" using page(2) by (simp add: page_ok_def)
  from placed_location [OF this [unfolded slots_placed], of s] k(2) page(3) DynSliced show ?thesis by auto
qed

lemma dyn_found:
  assumes "dyn_served ids held sane q h st" "dyn_small q" "s \<in> set (dyn_slices q)"
  shows "dyn_find (sl_handle s) q h = Ok s"
proof (cases q)
  case (DynPersistent p)
  with assms persistent_found [of p h s] show ?thesis by (auto simp: persistent_served_def)
next
  case (DynDirect p)
  with assms direct_found [of p h s] show ?thesis by (auto simp: direct_served_def)
next
  case (DynExclusive p)
  with assms exclusive_found [of p h s] show ?thesis by (auto simp: exclusive_served_def)
next
  case (DynSliced p)
  from sliced_slice assms(3) DynSliced obtain k where k: "k < length (sp_pages p)" "s \<in> set (pg_slices (fst (sp_pages p ! k)))" by blast
  from pool_find [OF _ _ k(1) _ k(2), of h] assms(1,2) DynSliced k(1) show ?thesis
    by (auto simp: served_def sliced_small_def list_all_length)
qed

lemma index_8: "k < 256 \<Longrightarrow> unat (of_nat k :: 8 word) = k"
  by (simp add: unat_of_nat take_bit_nat_eq_self)

lemma arena_index:
  assumes "k < arena_slots"
  shows "unat (arena_pools + of_nat k :: 8 word) = k + 2"
proof -
  have "unat (of_nat (k + 2) :: 8 word) = k + 2" by (rule index_8) (use assms in \<open>simp add: arena_slots_def\<close>)
  then show ?thesis by (simp add: arena_pools_def add.commute)
qed

lemma position_dynamic: "unat index < 254 \<Longrightarrow> position_new index = AtDynamic index"
  by (auto simp: position_new_def persistent_pool_pos_def dedicated_pool_pos_def)

lemma dynamic_routes:
  assumes ok: "dynamic_ok nr d" and q: "q \<in> set (dynamic_pools d)"
  shows "loc_init (dyn_base q) = 1 \<and> unat (loc_pool (dyn_base q)) < 254 \<and> dynamic_pool (loc_pool (dyn_base q)) d = Some q"
proof (cases d)
  case (ExclusiveMemory qs)
  with q obtain k where k: "k < length qs" "q = DynExclusive (qs ! k)" by (auto simp: in_set_conv_nth)
  with ok ExclusiveMemory have b: "xp_base (qs ! k) = location_new (of_nat k) 0 0" "k < 254" by (auto simp: bucket_at_def)
  with k ExclusiveMemory index_8 [of k] show ?thesis by (simp add: location_new_def buckets_pool_def get_opt_def)
next
  case (AdaptiveMemory m)
  with q consider "q = DynExclusive (ad_tiny m)" | "q = DynSliced (ad_small m)" | p where "q = DynSliced p" "p \<in> set (somes (ar_slots (ad_arena m)))"
    by (auto simp: arena_group_def)
  then show ?thesis
  proof cases
    case 1
    with ok AdaptiveMemory show ?thesis by (simp add: bucket_at_def location_new_def adaptive_pool_def tiny_pool_def)
  next
    case 2
    with ok AdaptiveMemory show ?thesis by (simp add: small_ok_def location_new_def adaptive_pool_def tiny_pool_def small_pool_def)
  next
    case 3
    let ?a = "ad_arena m"
    have sh: "arena_shape_ok ?a" "ar_first_index ?a = arena_pools" using ok AdaptiveMemory by simp_all
    from somes_nth [OF 3(2)] sh(1) obtain k where k: "k < arena_slots" "ar_slots ?a ! k = Some p" by (auto simp: arena_shape_ok_def)
    then have base: "sp_base p = location_new (arena_pools + of_nat k) 0 0"
      using sh by (auto simp: arena_shape_ok_def carved_for_def)
    note ix = arena_index [OF k(1)]
    have ne: "arena_pools + of_nat k \<noteq> tiny_pool" "arena_pools + of_nat k \<noteq> small_pool"
      using ix by (auto simp: tiny_pool_def small_pool_def)
    have "slot_of (arena_pools + of_nat k) ?a = Some k"
      using ix sh(2) by (simp add: slot_of_def checked_sub_def arena_pools_def)
    then have "arena_pool (arena_pools + of_nat k) ?a = Some p"
      using k sh(1) by (simp add: arena_pool_def get_opt_def arena_shape_ok_def)
    then show ?thesis
      using 3(1) base ne ix k(1) AdaptiveMemory by (simp add: location_new_def adaptive_pool_def arena_slots_def)
  qed
qed

lemma memory_routes:
  assumes ok: "memory_ok ids held sane m h" and q: "q \<in> set (memory_pools m)" and l: "loc_pool l = loc_pool (dyn_base q)"
  shows "memory_pool_at l m = Ok q \<and> loc_init (dyn_base q) = 1"
proof -
  consider "q = DynPersistent (mm_persistent m)" | "q = DynDirect (mm_dedicated m)" | "q \<in> set (dynamic_pools (mm_pools m))"
    using q by (auto simp: memory_pools_def)
  then show ?thesis
  proof cases
    case 3
    from dynamic_routes [OF memory_okD(4) [OF ok] 3] l position_dynamic [of "loc_pool l"]
    show ?thesis by (simp add: memory_pool_at_def)
  qed (use ok l in \<open>simp_all add: memory_ok_def memory_pool_at_def location_new_def position_new_def
      persistent_pool_pos_def dedicated_pool_pos_def\<close>)
qed

definition memory_slices :: "('f, 'st) memory \<Rightarrow> slice list" where
  "memory_slices m = concat (map dyn_slices (memory_pools m))"

lemma memory_live_slices: "set (memory_live h m) \<subseteq> set (memory_slices m)"
  using dyn_live_slices by (fastforce simp: memory_live_def group_live_def memory_slices_def)

lemma memory_slice_pool:
  assumes "memory_ok ids held sane m h" "s \<in> set (memory_slices m)"
  obtains q where "q \<in> set (memory_pools m)" "s \<in> set (dyn_slices q)" "dyn_served ids held sane q h (mm_storage m)"
    "memory_pool_at (location h (sl_handle s)) m = Ok q" "loc_pool (location h (sl_handle s)) = loc_pool (dyn_base q)"
    "is_allocated h (sl_handle s)"
proof -
  from assms(2) obtain q where q: "q \<in> set (memory_pools m)" "s \<in> set (dyn_slices q)" by (auto simp: memory_slices_def)
  have sv: "dyn_served ids held sane q h (mm_storage m)" using assms(1) q(1) by (simp add: memory_ok_def group_served_def)
  note loc = dyn_location [OF sv q(2)]
  note route = memory_routes [OF assms(1) q(1) conjunct1 [OF loc]]
  have "is_allocated h (sl_handle s)" using loc route by (simp add: is_allocated_def)
  with q sv loc route show ?thesis using that by blast
qed

lemma memory_found:
  assumes ok: "memory_ok ids held sane m h" and small: "memory_small m" and s: "s \<in> set (memory_slices m)"
  shows "memory_find (sl_handle s) m h = Ok s"
proof -
  from memory_slice_pool [OF ok s] obtain q where q: "q \<in> set (memory_pools m)" "s \<in> set (dyn_slices q)"
    "dyn_served ids held sane q h (mm_storage m)" "memory_pool_at (location h (sl_handle s)) m = Ok q" "is_allocated h (sl_handle s)"
    by metis
  have "dyn_find (sl_handle s) q h = Ok s"
    by (rule dyn_found [OF q(3) _ q(2)]) (use small q(1) in \<open>simp add: memory_small_def list_all_iff\<close>)
  with q show ?thesis by (simp add: memory_find_def allocated_def owned_by_def)
qed

section \<open>No two allocations share a byte\<close>

definition bytes_apart :: "slice \<Rightarrow> slice \<Rightarrow> bool" where
  "bytes_apart s t \<longleftrightarrow> sl_handle s \<noteq> sl_handle t \<and>
    (slice_id s \<noteq> slice_id t
     \<or> sh_offset (sl_storage s) + sh_size (sl_storage s) \<le> sh_offset (sl_storage t)
     \<or> sh_offset (sl_storage t) + sh_size (sl_storage t) \<le> sh_offset (sl_storage s))"

text \<open>The pool has memory behind the slice: its page or the slice itself is mapped.\<close>

fun dyn_mapped :: "'f dyn_pool \<Rightarrow> slice \<Rightarrow> bool" where
  "dyn_mapped (DynPersistent q) s \<longleftrightarrow> sl_mapped s"
| "dyn_mapped (DynDirect q) s \<longleftrightarrow> sl_mapped s"
| "dyn_mapped (DynExclusive q) s \<longleftrightarrow> True"
| "dyn_mapped (DynSliced q) s \<longleftrightarrow> list_ex (\<lambda>x. pg_mapped (fst x) \<and> snd x = slice_id s) (sp_pages q)"

definition inside :: "('st \<Rightarrow> storage_id \<rightharpoonup> nat) \<Rightarrow> 'st \<Rightarrow> slice \<Rightarrow> bool" where
  "inside held st s \<longleftrightarrow> (\<exists>b. held st (slice_id s) = Some b \<and> sh_offset (sl_storage s) + sh_size (sl_storage s) \<le> b)"

lemma sorted_wrt_filter: "sorted_wrt R xs \<Longrightarrow> sorted_wrt R (filter P xs)"
  by (induction xs) auto

lemma owned_apart:
  assumes "distinct (map sl_handle ss)" "distinct (map slice_id ss)"
  shows "sorted_wrt bytes_apart ss"
  using assms by (induction ss) (auto simp: bytes_apart_def)

lemma in_use_apart:
  assumes "distinct (map sl_handle ss)" "distinct (map slice_id ss)"
  shows "sorted_wrt bytes_apart (in_use h ss)"
  unfolding in_use_def by (rule sorted_wrt_filter [OF owned_apart [OF assms]])

lemma placed_handles: "placed at (map Some ss) h \<Longrightarrow> distinct (map sl_handle ss)"
  by (simp add: placed_def)

lemma page_apart:
  assumes "page_ok p h"
  shows "sorted_wrt bytes_apart (live h p)"
proof -
  have "distinct (map sl_handle (pg_slices p))"
    using assms placed_handles by (auto simp: page_ok_def slots_placed)
  then have d: "distinct (map sl_handle (live h p))" by (simp add: live_def distinct_map_filter)
  have s: "sorted_wrt before (live h p)" using page_ok_live [OF assms] by blast
  have "sorted_wrt (\<lambda>s t. before s t \<and> sl_handle s \<noteq> sl_handle t) ss"
    if "sorted_wrt before ss" "distinct (map sl_handle ss)" for ss
    using that by (induction ss) auto
  from sorted_wrt_mono_rel [OF _ this [OF s d], of bytes_apart] show ?thesis
    by (auto simp: bytes_apart_def before_def effective_size_def)
qed

lemma pages_apart:
  assumes "\<forall>x \<in> set ps. page_ok (fst x) h \<and> sh_id (pg_storage (fst x)) = snd x" "distinct (map snd ps)"
    "sorted_wrt (\<lambda>x y. handles_of (fst x) \<inter> handles_of (fst y) = {}) ps"
  shows "sorted_wrt bytes_apart (pool_live h ps)"
  using assms
proof (induction ps)
  case (Cons x ps)
  have of: "slice_id s = snd y" "sl_handle s \<in> handles_of (fst y)" if "y \<in> set (x # ps)" "s \<in> set (live h (fst y))" for s y
    using Cons.prems(1) that page_ok_live [of "fst y" h] by (auto simp: live_def handles_of_def)
  have "bytes_apart s t" if "s \<in> set (live h (fst x))" "t \<in> set (pool_live h ps)" for s t
  proof -
    from that(2) obtain y where y: "y \<in> set ps" "t \<in> set (live h (fst y))" by (auto simp: pool_live_def lives_def)
    have "snd x \<noteq> snd y" using Cons.prems(2) y(1) by auto
    moreover have "sl_handle s \<noteq> sl_handle t"
      using Cons.prems(3) y(1) of(2) [OF _ that(1)] of(2) [OF _ y(2)] by fastforce
    ultimately show ?thesis using of(1) [OF _ that(1)] of(1) [OF _ y(2)] y(1) by (simp add: bytes_apart_def)
  qed
  moreover have "sorted_wrt bytes_apart (live h (fst x))" using Cons.prems(1) page_apart by simp
  ultimately show ?case using Cons by (simp add: sorted_wrt_append)
qed simp

lemma owned_ids: "owned ids held bs st \<Longrightarrow> distinct (map fst bs)"
  by (simp add: owned_def)

lemma dyn_live_apart:
  assumes "dyn_served ids held sane q h st"
  shows "sorted_wrt bytes_apart (dyn_live h q)"
proof (cases q)
  case (DynPersistent p)
  then have s: "persistent_served ids held sane p h st" using assms by simp
  then have "distinct (map slice_id (pp_slices p))"
    using owned_ids [of ids held "map (need_buffer (pp_alignment p)) (pp_slices p)" st] by (simp add: persistent_served_def comp_def)
  with placed_handles [OF persistent_placed [OF s]] DynPersistent show ?thesis by (simp add: in_use_apart)
next
  case (DynDirect p)
  then have s: "direct_served ids held sane p h st" using assms by simp
  then have "distinct (map slice_id (direct_live p))"
    using owned_ids [of ids held "map buffer (direct_live p)" st] by (simp add: direct_served_def comp_def)
  moreover have "distinct (map sl_handle (direct_live p))"
    using direct_placed [OF s] by (simp add: placed_def direct_live_def)
  ultimately show ?thesis using DynDirect by (simp add: in_use_apart)
next
  case (DynExclusive p)
  then have s: "exclusive_served ids held sane p h st" using assms by simp
  then have "distinct (map slice_id (eslices (xp_pages p)))"
    using owned_ids [of ids held "map ebuffer (xp_pages p)" st] by (simp add: exclusive_served_def comp_def)
  with placed_handles [OF exclusive_placed [OF s]] DynExclusive show ?thesis using in_use_apart by (simp del: map_map)
next
  case (DynSliced p)
  with assms show ?thesis
    by (auto simp: served_def pool_ok_def pages_ok_def page_at_def backed_def intro!: pages_apart)
qed

lemma dyn_live_known:
  assumes "dyn_served ids held sane q h st" "s \<in> set (dyn_live h q)"
  shows "sl_handle s \<in> dyn_handles q" "slice_id s \<in> dyn_ids q"
proof -
  have "sl_handle s \<in> dyn_handles q \<and> slice_id s \<in> dyn_ids q"
  proof (cases q)
    case (DynSliced p)
    with assms(2) obtain x where x: "x \<in> set (sp_pages p)" "s \<in> set (live h (fst x))" by (auto simp: pool_live_def lives_def)
    then have "page_at p x h" using assms(1) DynSliced by (simp add: served_def pool_ok_def pages_ok_def)
    then have "slice_id s = snd x" "s \<in> set (pg_slices (fst x))"
      using x(2) page_ok_live [of "fst x" h] by (auto simp: page_at_def live_def)
    with x(1) DynSliced show ?thesis by (auto simp: pool_handles_def pool_ids_def all_handles_def handles_of_def)
  qed (use assms(2) in \<open>auto simp: in_use_def\<close>)
  then show "sl_handle s \<in> dyn_handles q" "slice_id s \<in> dyn_ids q" by blast+
qed

lemma dyn_live_inside:
  assumes "dyn_served ids held sane q h st" "s \<in> set (dyn_live h q)" "dyn_mapped q s"
  shows "inside held st s"
proof (cases q)
  case (DynPersistent p)
  with assms show ?thesis
    by (force simp: inside_def in_use_def persistent_served_def persistent_ok_def owned_def need_buffer_def need_def slice_sane_def list_all_iff)
next
  case (DynDirect p)
  with assms show ?thesis
    by (force simp: inside_def in_use_def direct_served_def direct_ok_def cells_ok_def direct_live_def owned_def buffer_def effective_size_def)
next
  case (DynExclusive p)
  with assms(2) obtain e where e: "e \<in> set (xp_pages p)" "s = ep_slice e" by (auto simp: in_use_def)
  then have "(slice_id s, True, ep_alloc_size e) \<in> set (map ebuffer (xp_pages p))" by (auto simp: ebuffer_def)
  with assms(1) DynExclusive have "held st (slice_id s) = Some (ep_alloc_size e)" by (auto simp: exclusive_served_def owned_def)
  moreover have "epage_ok (xp_alignment p) e" using assms(1) DynExclusive e(1) by (simp add: exclusive_served_def exclusive_ok_def list_all_iff)
  ultimately show ?thesis using e(2) by (simp add: inside_def epage_ok_def effective_size_def)
next
  case (DynSliced p)
  with assms(2) obtain x where x: "x \<in> set (sp_pages p)" "s \<in> set (live h (fst x))" by (auto simp: pool_live_def lives_def)
  have sv: "served ids held sane p h st" using assms(1) DynSliced by simp
  then have "page_at p x h" using x(1) by (simp add: served_def pool_ok_def pages_ok_def)
  then have at: "slice_id s = snd x" "sh_offset (sl_storage s) + effective_size s \<le> sp_page_size p"
    using x(2) page_ok_live [of "fst x" h] by (auto simp: page_at_def)
  from assms(3) DynSliced obtain y where y: "y \<in> set (sp_pages p)" "pg_mapped (fst y)" "snd y = slice_id s"
    by (auto simp: list_ex_iff)
  with sv have "held st (slice_id s) = Some (sp_page_size p)" by (auto simp: served_def backed_def)
  with at(2) show ?thesis by (simp add: inside_def effective_size_def)
qed

lemma group_live_apart:
  assumes "group_served ids held sane ps h st"
  shows "sorted_wrt bytes_apart (group_live h ps)"
  using assms
proof (induction ps)
  case (Cons q ps)
  then have g: "group_served ids held sane ps h st" "dyn_served ids held sane q h st" "\<forall>p \<in> set ps. dyn_apart q p"
    by (auto simp: group_served_def)
  have "bytes_apart s t" if "s \<in> set (dyn_live h q)" "t \<in> set (group_live h ps)" for s t
  proof -
    from that(2) obtain p where p: "p \<in> set ps" "t \<in> set (dyn_live h p)" by (auto simp: group_live_def)
    have "dyn_served ids held sane p h st" using g(1) p(1) by (simp add: group_served_def)
    from dyn_live_known [OF this p(2)] dyn_live_known [OF g(2) that(1)] g(3) p(1)
    show ?thesis by (fastforce simp: bytes_apart_def dyn_apart_def)
  qed
  with dyn_live_apart [OF g(2)] Cons.IH [OF g(1)] show ?case by (simp add: sorted_wrt_append)
qed simp

end
