(* ===== verification/Memory_Binding.thy ===== *)
theory Memory_Binding
  imports Memory_Lookup
begin

text \<open>
  Changing one slice of the memory of a stream: binding hands an allocation to its handle, tainting
  and writing change what is known of its bytes, and every other allocation stays as it was.
\<close>

section \<open>Binding\<close>

text \<open>What no operation on single slices changes of a pool.\<close>

fun dyn_shape :: "'f dyn_pool \<Rightarrow> memory_location \<times> nat list \<times> nat" where
  "dyn_shape (DynPersistent q) = (pp_base q, [length (pp_slices q)], 0)"
| "dyn_shape (DynDirect q) = (dp_base q, [length (dp_slices q)], 1)"
| "dyn_shape (DynExclusive q) = (xp_base q, [length (xp_pages q), xp_last_dealloc_check q], 2)"
| "dyn_shape (DynSliced q) = (sp_base q, sp_page_size q # sp_alignment q # sp_max_slice_size q
    # (if sp_near_page_size q then 1 else 0) # map (\<lambda>x. length (pg_slices (fst x))) (sp_pages q), 3)"

definition rebound :: "handle \<Rightarrow> handle \<Rightarrow> heap \<Rightarrow> heap" where
  "rebound i new h = drop_handle i (drop_handle i (update_location new (location h i) h))"

definition rebound_slice :: "'f dyn_pool \<Rightarrow> handle \<Rightarrow> nat \<Rightarrow> slice \<Rightarrow> slice" where
  "rebound_slice q new c s =
    s\<lparr>sl_cursor := (case q of DynDirect _ \<Rightarrow> sl_cursor s | _ \<Rightarrow> c), sl_tainted := [], sl_handle := new\<rparr>"

lemma list_replace: "k < length xs \<Longrightarrow> xs ! k = x \<Longrightarrow> \<exists>as bs. xs = as @ x # bs \<and> xs[k := y] = as @ y # bs"
  by (metis id_take_nth_drop upd_conv_take_nth_drop)

definition replaced :: "slice \<Rightarrow> slice \<Rightarrow> slice list \<Rightarrow> slice list \<Rightarrow> bool" where
  "replaced s t ss ts \<longleftrightarrow> (\<exists>as bs. ss = as @ s # bs \<and> ts = as @ t # bs)"

lemma replaced_update: "k < length ss \<Longrightarrow> ss ! k = s \<Longrightarrow> replaced s t ss (ss[k := t])"
  unfolding replaced_def by (rule list_replace)

lemma replaced_context: "replaced s t ss ts \<Longrightarrow> replaced s t (as @ ss @ bs) (as @ ts @ bs)"
  unfolding replaced_def by (metis append.assoc append_Cons)

lemma replaced_set: "replaced s t ss ts \<Longrightarrow> t \<in> set ts \<and> set ts \<subseteq> insert t (set ss) \<and> set ss \<subseteq> insert s (set ts)"
  by (auto simp: replaced_def)

lemma replaced_length: "replaced s t ss ts \<Longrightarrow> length ts = length ss"
  by (auto simp: replaced_def)

lemma replaced_ids: "replaced s t ss ts \<Longrightarrow> slice_id t = slice_id s \<Longrightarrow> slice_id ` set ts = slice_id ` set ss"
  by (auto simp: replaced_def)

lemma frames_rebound: "frames {i, new} h (rebound i new h)"
proof -
  let ?h1 = "update_location new (location h i) h"
  have "frames {i, new} h ?h1" "frames {i, new} ?h1 (drop_handle i ?h1)"
    "frames {i, new} (drop_handle i ?h1) (rebound i new h)"
    unfolding rebound_def by (simp_all add: frames_ops)
  then show ?thesis by (blast intro: frames_trans)
qed

lemma persistent_bind_step:
  assumes sv: "persistent_served ids held sane q h st" and s: "s \<in> set (pp_slices q)" "length (pp_slices q) \<le> 2 ^ 32"
    and new: "new \<in> dom (descs h)" "new \<notin> sl_handle ` set (pp_slices q)"
  shows "\<exists>q' g'. persistent_bind (sl_handle s) new c q h g = Ok (q', rebound (sl_handle s) new h, g')
    \<and> persistent_served ids held sane q' (rebound (sl_handle s) new h) st
    \<and> replaced s (s\<lparr>sl_cursor := c, sl_tainted := [], sl_handle := new\<rparr>) (pp_slices q) (pp_slices q') \<and> pp_base q' = pp_base q"
proof -
  from s(1) obtain k where k: "k < length (pp_slices q)" "s = pp_slices q ! k" by (auto simp: in_set_conv_nth)
  have ok: "persistent_ok q h" using sv by (simp add: persistent_served_def)
  from persistent_bind_ok [OF ok k(1) s(2) new, of c g] k(2) obtain q' h' g' where
    b: "persistent_bind (sl_handle s) new c q h g = Ok (q', h', g')" "persistent_ok q' h'" "pp_alignment q' = pp_alignment q"
      "map (need_buffer (pp_alignment q)) (pp_slices q') = map (need_buffer (pp_alignment q)) (pp_slices q)" by blast
  have "slots_ok (pp_base q) (pp_slices q) h" using ok by (simp add: persistent_ok_def)
  note index = slot_index [OF this k(1) s(2)]
  have "q' = q\<lparr>pp_slices := (pp_slices q)[k := s\<lparr>sl_cursor := c, sl_tainted := [], sl_handle := new\<rparr>]\<rparr>"
    "h' = rebound (sl_handle s) new h"
    using b(1) k index by (auto simp: persistent_bind_def Let_def get_opt_def slice_bind_def clear_def rebound_def split: prod.splits)
  with b sv k replaced_update [OF k(1)] show ?thesis by (auto simp: persistent_served_def)
qed

lemma direct_bind_step:
  assumes sv: "direct_served ids held sane q h st" and s: "s \<in> set (direct_live q)" "length (dp_slices q) \<le> 2 ^ 32"
    and new: "new \<in> dom (descs h)" "new \<notin> sl_handle ` set (direct_live q)"
  shows "\<exists>q' g'. direct_bind (sl_handle s) new c q h g = Ok (q', rebound (sl_handle s) new h, g')
    \<and> direct_served ids held sane q' (rebound (sl_handle s) new h) st
    \<and> replaced s (s\<lparr>sl_tainted := [], sl_handle := new\<rparr>) (direct_live q) (direct_live q')
    \<and> dp_base q' = dp_base q \<and> length (dp_slices q') = length (dp_slices q)"
proof -
  from somes_nth [OF s(1) [unfolded direct_live_def]] obtain k where k: "k < length (dp_slices q)" "dp_slices q ! k = Some s" by blast
  have ok: "direct_ok q h" using sv by (simp add: direct_served_def)
  from bind_direct [OF ok k s(2) new, of c g] obtain q' h' g' where
    b: "direct_bind (sl_handle s) new c q h g = Ok (q', h', g')" "direct_ok q' h'"
      "map buffer (direct_live q') = map buffer (direct_live q)" by blast
  have "k < 2 ^ 32" using k s(2) by linarith
  then have index: "slice_index h (sl_handle s) = k"
    using placed_at [OF direct_placed [OF sv] k] by (simp add: slice_index_def unat_of_nat take_bit_nat_eq_self)
  let ?s = "s\<lparr>sl_tainted := [], sl_handle := new\<rparr>"
  have q': "q' = q\<lparr>dp_slices := (dp_slices q)[k := Some ?s]\<rparr>" "h' = rebound (sl_handle s) new h"
    using b(1) k index by (auto simp: direct_bind_def Let_def get_opt_def slice_bind_def clear_def rebound_def split: prod.splits)
  have "replaced s ?s (direct_live q) (direct_live q')"
    unfolding replaced_def q' using somes_split [OF k(1)] k by (auto simp: direct_live_def somes_update)
  with b q' sv show ?thesis by (auto simp: direct_served_def)
qed

lemma bind_order:
  "s\<lparr>sl_tainted := t, sl_handle := i, sl_cursor := c\<rparr> = s\<lparr>sl_cursor := c, sl_tainted := t, sl_handle := i\<rparr>"
  by (cases s) simp

lemma exclusive_bind_step:
  assumes sv: "exclusive_served ids held sane q h st" and s: "s \<in> set (eslices (xp_pages q))" "length (xp_pages q) \<le> 2 ^ 16"
    and new: "new \<in> dom (descs h)" "new \<notin> sl_handle ` set (eslices (xp_pages q))"
  shows "\<exists>q' g'. exclusive_bind (sl_handle s) new c q h g = Ok (q', rebound (sl_handle s) new h, g')
    \<and> exclusive_served ids held sane q' (rebound (sl_handle s) new h) st
    \<and> replaced s (s\<lparr>sl_cursor := c, sl_tainted := [], sl_handle := new\<rparr>) (eslices (xp_pages q)) (eslices (xp_pages q'))
    \<and> xp_base q' = xp_base q \<and> xp_last_dealloc_check q' = xp_last_dealloc_check q"
proof -
  from s(1) obtain k where k: "k < length (xp_pages q)" "s = ep_slice (xp_pages q ! k)" by (auto simp: in_set_conv_nth)
  have ok: "exclusive_ok q h" using sv by (simp add: exclusive_served_def)
  from bind_exclusive [OF ok k(1) s(2) new, of c g] k(2) obtain q' h' g' where
    b: "exclusive_bind (sl_handle s) new c q h g = Ok (q', h', g')" "exclusive_ok q' h'"
      "map ebuffer (xp_pages q') = map ebuffer (xp_pages q)" by auto
  have "k < 2 ^ 16" using k s(2) by linarith
  then have index: "page_index h (sl_handle s) = k"
    using placed_at [OF exclusive_placed [OF sv], of k s] k by (simp add: page_index_def unat_of_nat take_bit_nat_eq_self)
  let ?s = "s\<lparr>sl_cursor := c, sl_tainted := [], sl_handle := new\<rparr>"
  have q': "q' = q\<lparr>xp_pages := (xp_pages q)[k := (xp_pages q ! k)\<lparr>ep_slice := ?s\<rparr>]\<rparr>" "h' = rebound (sl_handle s) new h"
    using b(1) k index
    by (auto simp: exclusive_bind_def Let_def get_opt_def slice_bind_def clear_def rebound_def bind_order split: prod.splits)
  have "replaced s ?s (eslices (xp_pages q)) (eslices (xp_pages q'))"
    using replaced_update [of k "eslices (xp_pages q)" s ?s] k q' by (simp add: map_update)
  with b q' sv show ?thesis by (auto simp: exclusive_served_def)
qed


lemma page_bind_heap:
  assumes ok: "page_ok p h" and j: "j < length (pg_slices p)" "length (pg_slices p) \<le> 2 ^ 32"
    and b: "page_bind (sl_handle (pg_slices p ! j)) new c p h g = Ok (p', h', g')"
  shows "h' = rebound (sl_handle (pg_slices p ! j)) new h"
proof -
  have "slots_ok (pg_base p) (pg_slices p) h" using ok by (simp add: page_ok_def)
  note index = slot_index [OF this j]
  from b j index show ?thesis
    by (auto simp: page_bind_def Let_def slice_bind_def clear_def rebound_def split: prod.splits)
qed

text \<open>One slice of one page replaced.\<close>

lemma sliced_swap:
  fixes q :: sliced_pool and p j t k a
  assumes k: "k < length (sp_pages q)" "sp_pages q ! k = (p, a)" and j: "j < length (pg_slices p)" "s = pg_slices p ! j"
  defines "q' \<equiv> q\<lparr>sp_pages := (sp_pages q)[k := (p\<lparr>pg_slices := (pg_slices p)[j := t]\<rparr>, a)]\<rparr>"
  shows "replaced s t (dyn_slices (DynSliced q :: 'f dyn_pool)) (dyn_slices (DynSliced q' :: 'f dyn_pool))"
    "dyn_shape (DynSliced q' :: 'f dyn_pool) = dyn_shape (DynSliced q)" "pool_ids q' = pool_ids q"
proof -
  let ?ps = "sp_pages q" and ?f = "\<lambda>x. pg_slices (fst x)"
  have parts: "concat (map ?f ?ps) = concat (map ?f (take k ?ps)) @ pg_slices p @ concat (map ?f (drop (Suc k) ?ps))"
    using arg_cong [OF split_at [OF k(1)], of "\<lambda>xs. concat (map ?f xs)"] k(2) by simp
  show "replaced s t (dyn_slices (DynSliced q :: 'f dyn_pool)) (dyn_slices (DynSliced q' :: 'f dyn_pool))"
    unfolding q'_def using replaced_context [OF replaced_update [OF j(1) j(2) [symmetric]], of t
      "concat (map ?f (take k ?ps))" "concat (map ?f (drop (Suc k) ?ps))"] parts
    by (simp add: update_at k(1))
  show "dyn_shape (DynSliced q' :: 'f dyn_pool) = dyn_shape (DynSliced q)"
    unfolding q'_def using k by (simp add: map_update list_update_same_conv)
  have "(map snd ?ps)[k := a] = map snd ?ps" using list_update_id [of "map snd ?ps" k] k by simp
  then have "map snd (sp_pages q') = map snd ?ps" unfolding q'_def by (simp add: map_update)
  then show "pool_ids q' = pool_ids q" unfolding pool_ids_def by (metis set_map)
qed

lemma sliced_bind_step:
  assumes sv: "served ids held sane q h st" and s: "s \<in> set (dyn_slices (DynSliced q :: 'f dyn_pool))" "sliced_small q"
    and new: "new \<in> dom (descs h)" "new \<notin> pool_handles q"
  shows "\<exists>q' g'. sliced_bind (sl_handle s) new c q h g = Ok (q', rebound (sl_handle s) new h, g')
    \<and> served ids held sane q' (rebound (sl_handle s) new h) st
    \<and> replaced s (s\<lparr>sl_cursor := c, sl_tainted := [], sl_handle := new\<rparr>)
        (dyn_slices (DynSliced q :: 'f dyn_pool)) (dyn_slices (DynSliced q' :: 'f dyn_pool))
    \<and> dyn_shape (DynSliced q' :: 'f dyn_pool) = dyn_shape (DynSliced q) \<and> pool_ids q' = pool_ids q"
proof -
  let ?ps = "sp_pages q" and ?s = "s\<lparr>sl_cursor := c, sl_tainted := [], sl_handle := new\<rparr>"
  from sliced_slice [OF s(1)] obtain k where k: "k < length ?ps" "s \<in> set (pg_slices (fst (?ps ! k)))" by blast
  obtain p a where pa: "?ps ! k = (p, a)" by (cases "?ps ! k")
  from k pa obtain j where j: "j < length (pg_slices p)" "s = pg_slices p ! j" by (auto simp: in_set_conv_nth)
  have small: "length ?ps \<le> 2 ^ 16" "length (pg_slices p) \<le> 2 ^ 32" using s(2) k(1) pa by (force simp: sliced_small_def list_all_length)+
  have ok: "pool_ok q h" using sv by (simp add: served_def)
  have k16: "k < 2 ^ 16" using k(1) small(1) by linarith
  note page = pool_page [OF ok k(1), unfolded pa fst_conv]
  from pool_bind_shown [OF ok k(1) k16, of j new c g] j small(2) new pa obtain q' h' g' where
    b: "sliced_bind (sl_handle s) new c q h g = Ok (q', h', g')" "pool_ok q' h'" "map frozen (sp_pages q') = map frozen ?ps"
    "(sp_page_size q', sp_alignment q', sp_base q') = (sp_page_size q, sp_alignment q, sp_base q)"
    by (auto simp: pool_handles_def)
  have new': "new \<notin> sl_handle ` set (pg_slices p)"
    using new(2) k(1) pa nth_mem [OF k(1)] by (fastforce simp: pool_handles_def all_handles_def handles_of_def)
  from page_bind_shown [OF page(2) j(1) small(2) new(1) new', of c g] j(2) obtain h1 g1 where
    pb: "page_bind (sl_handle s) new c p h g = Ok (p\<lparr>pg_slices := (pg_slices p)[j := ?s]\<rparr>, h1, g1)" by auto
  have index: "page_index h (sl_handle s) = k" using pool_find [OF ok small(1) k(1)] k(2) pa small(2) by simp
  have q': "q' = q\<lparr>sp_pages := ?ps[k := (p\<lparr>pg_slices := (pg_slices p)[j := ?s]\<rparr>, a)]\<rparr>" "h' = h1"
    using b(1) pb k(1) pa index by (auto simp: sliced_bind_def Let_def get_opt_def)
  have h1: "h1 = rebound (sl_handle s) new h" using page_bind_heap [OF page(2) j(1) small(2)] pb j(2) by simp
  moreover have "served ids held sane q' h' st"
    using sv b(2,4) backed_cong [OF b(3), of ids held "sp_page_size q" st] by (simp add: served_def)
  ultimately show ?thesis
    using b(1) q' h1 sliced_swap(1,2) [OF k(1) pa j, of ?s, where 'f = 'f] sliced_swap(3) [OF k(1) pa j, of ?s] by blast
qed


lemma dyn_bind_step:
  fixes q :: "'f dyn_pool"
  assumes sv: "dyn_served ids held sane q h st" and s: "s \<in> set (dyn_slices q)" "dyn_small q"
    and new: "new \<in> dom (descs h)" "new \<notin> dyn_handles q"
  shows "\<exists>q' g'. dyn_bind (sl_handle s) new c q h g = Ok (q', rebound (sl_handle s) new h, g')
    \<and> dyn_served ids held sane q' (rebound (sl_handle s) new h) st
    \<and> replaced s (rebound_slice q new c s) (dyn_slices q) (dyn_slices q')
    \<and> dyn_shape q' = dyn_shape q \<and> dyn_ids q' = dyn_ids q"
proof (cases q)
  case (DynPersistent p)
  with persistent_bind_step [of ids held sane p h st s new c g] sv s new obtain p' g' where
    b: "persistent_bind (sl_handle s) new c p h g = Ok (p', rebound (sl_handle s) new h, g')"
    "persistent_served ids held sane p' (rebound (sl_handle s) new h) st"
    "replaced s (s\<lparr>sl_cursor := c, sl_tainted := [], sl_handle := new\<rparr>) (pp_slices p) (pp_slices p')" "pp_base p' = pp_base p" by auto
  then show ?thesis using DynPersistent
    by (intro exI [of _ "DynPersistent p'"] exI [of _ g']) (auto simp: rebound_slice_def replaced_def)
next
  case (DynDirect p)
  with direct_bind_step [of ids held sane p h st s new c g] sv s new obtain p' g' where
    b: "direct_bind (sl_handle s) new c p h g = Ok (p', rebound (sl_handle s) new h, g')"
    "direct_served ids held sane p' (rebound (sl_handle s) new h) st"
    "replaced s (s\<lparr>sl_tainted := [], sl_handle := new\<rparr>) (direct_live p) (direct_live p')"
    "dp_base p' = dp_base p" "length (dp_slices p') = length (dp_slices p)" by auto
  then show ?thesis using DynDirect
    by (intro exI [of _ "DynDirect p'"] exI [of _ g']) (auto simp: rebound_slice_def replaced_def)
next
  case (DynExclusive p)
  with exclusive_bind_step [of ids held sane p h st s new c g] sv s new obtain p' g' where
    b: "exclusive_bind (sl_handle s) new c p h g = Ok (p', rebound (sl_handle s) new h, g')"
    "exclusive_served ids held sane p' (rebound (sl_handle s) new h) st"
    "replaced s (s\<lparr>sl_cursor := c, sl_tainted := [], sl_handle := new\<rparr>) (eslices (xp_pages p)) (eslices (xp_pages p'))"
    "xp_base p' = xp_base p" "xp_last_dealloc_check p' = xp_last_dealloc_check p" by auto
  from replaced_length [OF b(3)] replaced_ids [OF b(3)] show ?thesis using DynExclusive b
    by (intro exI [of _ "DynExclusive p'"] exI [of _ g']) (simp add: rebound_slice_def)
next
  case (DynSliced p)
  with sliced_bind_step [of ids held sane p h st s new c g, where 'f = 'f] sv s new obtain p' g' where
    b: "sliced_bind (sl_handle s) new c p h g = Ok (p', rebound (sl_handle s) new h, g')"
    "served ids held sane p' (rebound (sl_handle s) new h) st"
    "replaced s (s\<lparr>sl_cursor := c, sl_tainted := [], sl_handle := new\<rparr>)
        (dyn_slices (DynSliced p :: 'f dyn_pool)) (dyn_slices (DynSliced p' :: 'f dyn_pool))"
    "dyn_shape (DynSliced p' :: 'f dyn_pool) = dyn_shape (DynSliced p)" "pool_ids p' = pool_ids p" by auto
  then show ?thesis using DynSliced
    by (intro exI [of _ "DynSliced p'"] exI [of _ g']) (simp add: rebound_slice_def)
qed

lemma dyn_shape_base: "dyn_shape q' = dyn_shape q \<Longrightarrow> dyn_base q' = dyn_base q"
  by (cases q; cases q') simp_all

lemma dyn_shape_small: "dyn_shape q' = dyn_shape q \<Longrightarrow> dyn_small q' = dyn_small q"
proof (cases q)
  case (DynSliced p)
  assume sh: "dyn_shape q' = dyn_shape q"
  then obtain p' where q': "q' = DynSliced p'" using DynSliced by (cases q') simp_all
  have small: "sliced_small x \<longleftrightarrow> length (map (\<lambda>x. length (pg_slices (fst x))) (sp_pages x)) \<le> 2 ^ 16
      \<and> list_all (\<lambda>n. n \<le> 2 ^ 32) (map (\<lambda>x. length (pg_slices (fst x))) (sp_pages x))" for x
    by (simp add: sliced_small_def list.pred_map comp_def)
  from sh DynSliced q' show ?thesis by (simp add: small)
qed (cases q'; simp)+

text \<open>One pool of a group takes on a handle none of them has.\<close>

lemma group_rebind:
  assumes sv: "group_served ids held sane (xs @ q # ys) h st" and q': "dyn_served ids held sane q' h' st"
    and fr: "frames {i, new} h h'" and i: "i \<in> dyn_handles q" "new \<notin> group_handles (xs @ q # ys)"
    and own: "dyn_handles q' \<subseteq> insert new (dyn_handles q)" "dyn_ids q' = dyn_ids q"
  shows "group_served ids held sane (xs @ q' # ys) h' st" "group_live h' xs = group_live h xs" "group_live h' ys = group_live h ys"
proof -
  have hok: "heap_ok h'" "sane st" using dyn_known(3,4) [OF q'] by blast+
  have c: "confined ids held {i, new} {} h st h' st" using hok(1) fr by (simp add: confined_def)
  have p: "group_served ids held sane xs h st" "group_served ids held sane (q # ys) h st"
    "group_handles xs \<inter> group_handles (q # ys) = {}" "group_ids xs \<inter> group_ids (q # ys) = {}"
    using sv unfolding group_append by blast+
  have y: "group_served ids held sane ys h st" "group_handles [q] \<inter> group_handles ys = {}" "group_ids [q] \<inter> group_ids ys = {}"
    using p(2) group_append [of ids held sane "[q]" ys h st] by simp_all
  have x': "group_served ids held sane xs h' st \<and> group_live h' xs = group_live h xs"
    by (rule group_frame [OF p(1) c hok(2)]) (use p(3) i in auto)
  have y': "group_served ids held sane ys h' st \<and> group_live h' ys = group_live h ys"
    by (rule group_frame [OF y(1) c hok(2)]) (use y(2) i in auto)
  have "group_served ids held sane ([q'] @ ys) h' st"
    unfolding group_append using y' q' hok y own i by (auto simp: group_served_def)
  then show "group_served ids held sane (xs @ q' # ys) h' st"
    using x' p(3,4) own i by (auto simp: group_append)
  show "group_live h' xs = group_live h xs" "group_live h' ys = group_live h ys" using x' y' by blast+
qed

text \<open>A pool written back where it was found.\<close>

lemma dyn_shape_kind:
  "dyn_shape q' = dyn_shape (DynPersistent p) \<Longrightarrow> \<exists>p'. q' = DynPersistent p'"
  "dyn_shape q' = dyn_shape (DynDirect d) \<Longrightarrow> \<exists>d'. q' = DynDirect d'"
  "dyn_shape q' = dyn_shape (DynExclusive e) \<Longrightarrow> \<exists>e'. q' = DynExclusive e'"
  "dyn_shape q' = dyn_shape (DynSliced x) \<Longrightarrow> \<exists>x'. q' = DynSliced x'"
  by (cases q'; simp)+

lemma arena_put_shape:
  assumes sh: "arena_shape_ok a" and k: "k < arena_slots" "ar_slots a ! k = Some p"
    and e: "dyn_shape (DynSliced p' :: 'f dyn_pool) = dyn_shape (DynSliced p)"
  shows "arena_shape_ok (set_slot k p' a)"
    "(arena_group a :: 'f dyn_pool list) = map DynSliced (somes (take k (ar_slots a))) @ DynSliced p # map DynSliced (somes (drop (Suc k) (ar_slots a)))"
    "(arena_group (set_slot k p' a) :: 'f dyn_pool list)
      = map DynSliced (somes (take k (ar_slots a))) @ DynSliced p' # map DynSliced (somes (drop (Suc k) (ar_slots a)))"
proof -
  have len: "k < length (ar_slots a)" using sh k(1) by (simp add: arena_shape_ok_def)
  have p': "sp_base p' = sp_base p" "sp_page_size p' = sp_page_size p" "sp_alignment p' = sp_alignment p" using e by simp_all
  have the: "sp_page_size (the ((ar_slots a)[k := Some p'] ! j)) = sp_page_size (the (ar_slots a ! j))" for j
    using len k(2) p' by (cases "j = k") simp_all
  have "arena_shape_ok (a\<lparr>ar_slots := (ar_slots a)[k := Some p']\<rparr>)"
    unfolding arena_shape_ok_def
    using sh k len p' by (auto simp: arena_shape_ok_def nth_list_update carved_for_def the)
  then show "arena_shape_ok (set_slot k p' a)" by (simp add: set_slot_def)
  show "(arena_group a :: 'f dyn_pool list) = map DynSliced (somes (take k (ar_slots a))) @ DynSliced p # map DynSliced (somes (drop (Suc k) (ar_slots a)))"
    using somes_split [OF len] k(2) by (simp add: arena_group_def)
  show "(arena_group (set_slot k p' a) :: 'f dyn_pool list)
      = map DynSliced (somes (take k (ar_slots a))) @ DynSliced p' # map DynSliced (somes (drop (Suc k) (ar_slots a)))"
    using len by (simp add: arena_group_def set_slot_def somes_update)
qed

lemma dynamic_put_back:
  fixes d :: "'f dynamic_memory"
  assumes ok: "dynamic_ok nr d" and q: "q \<in> set (dynamic_pools d)" and e: "dyn_shape q' = dyn_shape q"
  shows "\<exists>xs ys. dynamic_pools d = xs @ q # ys \<and> dynamic_pools (dynamic_put (loc_pool (dyn_base q)) q' d) = xs @ q' # ys
    \<and> dynamic_ok nr (dynamic_put (loc_pool (dyn_base q)) q' d)"
proof (cases d)
  case (ExclusiveMemory qs)
  with q obtain k where k: "k < length qs" "q = DynExclusive (qs ! k)" by (auto simp: in_set_conv_nth)
  obtain p' where p': "q' = DynExclusive p'" using dyn_shape_kind(3) e k(2) by blast
  have b: "xp_base (qs ! k) = location_new (of_nat k) 0 0" "k < 254" using ok k ExclusiveMemory by (auto simp: bucket_at_def)
  then have at: "unat (loc_pool (dyn_base q)) = k" using k(2) index_8 [of k] by (simp add: location_new_def)
  have "dynamic_ok nr (ExclusiveMemory (qs[k := p']))"
    using ok ExclusiveMemory k e p' by (auto simp: nth_list_update bucket_at_def)
  then show ?thesis using k p' at ExclusiveMemory
    by (intro exI [of _ "map DynExclusive (take k qs)"] exI [of _ "map DynExclusive (drop (Suc k) qs)"])
      (use id_take_nth_drop [OF k(1)] in \<open>simp add: upd_conv_take_nth_drop flip: list.map append_Cons map_append\<close>)
next
  case (AdaptiveMemory m)
  with q consider "q = DynExclusive (ad_tiny m)" | "q = DynSliced (ad_small m)" | p where "q = DynSliced p" "p \<in> set (somes (ar_slots (ad_arena m)))"
    by (auto simp: arena_group_def)
  then show ?thesis
  proof cases
    case 1
    with e obtain p' where p': "q' = DynExclusive p'" using dyn_shape_kind(3) by blast
    have "loc_pool (dyn_base q) = tiny_pool" using ok 1 AdaptiveMemory by (simp add: bucket_at_def location_new_def tiny_pool_def)
    then show ?thesis using 1 p' e ok AdaptiveMemory
      by (intro exI [of _ "[]"] exI [of _ "DynSliced (ad_small m) # arena_group (ad_arena m)"]) (simp add: bucket_at_def)
  next
    case 2
    with e obtain p' where p': "q' = DynSliced p'" using dyn_shape_kind(4) by blast
    have "loc_pool (dyn_base q) = small_pool" "small_pool \<noteq> tiny_pool"
      using ok 2 AdaptiveMemory by (simp_all add: small_ok_def location_new_def tiny_pool_def small_pool_def)
    moreover have "small_ok p'" using ok 2 AdaptiveMemory e p' by (auto simp: small_ok_def split: if_splits)
    ultimately show ?thesis using 2 p' e ok AdaptiveMemory
      by (intro exI [of _ "[DynExclusive (ad_tiny m)]"] exI [of _ "arena_group (ad_arena m)"]) simp
  next
    case 3
    with e obtain p' where p': "q' = DynSliced p'" using dyn_shape_kind(4) by blast
    let ?a = "ad_arena m"
    have sh: "arena_shape_ok ?a" "ar_first_index ?a = arena_pools" using ok AdaptiveMemory by simp_all
    from somes_nth [OF 3(2)] sh(1) obtain k where k: "k < arena_slots" "ar_slots ?a ! k = Some p" by (auto simp: arena_shape_ok_def)
    then have "sp_base p = location_new (arena_pools + of_nat k) 0 0" using sh by (auto simp: arena_shape_ok_def carved_for_def)
    then have base: "loc_pool (dyn_base q) = arena_pools + of_nat k" using 3(1) by (simp add: location_new_def)
    note ix = arena_index [OF k(1)]
    have ne: "arena_pools + of_nat k \<noteq> tiny_pool" "arena_pools + of_nat k \<noteq> small_pool"
      using ix by (auto simp: tiny_pool_def small_pool_def)
    have "slot_of (arena_pools + of_nat k) ?a = Some k"
      using ix sh(2) by (simp add: slot_of_def checked_sub_def arena_pools_def)
    then have put: "dynamic_put (loc_pool (dyn_base q)) q' d = AdaptiveMemory (m\<lparr>ad_arena := set_slot k p' ?a\<rparr>)"
      using p' base ne AdaptiveMemory by (simp add: arena_put_def)
    have es: "dyn_shape (DynSliced p' :: 'f dyn_pool) = dyn_shape (DynSliced p)" using e 3(1) p' by simp
    note a = arena_put_shape [OF sh(1) k es]
    show ?thesis unfolding put
      using a ok AdaptiveMemory 3(1) p'
      by (intro exI [of _ "DynExclusive (ad_tiny m) # DynSliced (ad_small m) # map DynSliced (somes (take k (ar_slots ?a)))"]
          exI [of _ "map DynSliced (somes (drop (Suc k) (ar_slots ?a)))"]) (simp add: set_slot_def)
  qed
qed

lemma memory_put_back:
  fixes m :: "('f, 'st) memory"
  assumes ok: "memory_ok ids held sane m h" and q: "q \<in> set (memory_pools m)" and l: "loc_pool l = loc_pool (dyn_base q)"
    and e: "dyn_shape q' = dyn_shape q"
  shows "\<exists>xs ys. memory_pools m = xs @ q # ys \<and> memory_pools (memory_put l q' m) = xs @ q' # ys
    \<and> mm_storage (memory_put l q' m) = mm_storage m
    \<and> (\<forall>h'. group_served ids held sane (xs @ q' # ys) h' (mm_storage m) \<longrightarrow> memory_ok ids held sane (memory_put l q' m) h')"
proof -
  consider "q = DynPersistent (mm_persistent m)" | "q = DynDirect (mm_dedicated m)" | "q \<in> set (dynamic_pools (mm_pools m))"
    using q by (auto simp: memory_pools_def)
  then show ?thesis
  proof cases
    case 1
    with e obtain p' where p': "q' = DynPersistent p'" using dyn_shape_kind(1) by blast
    have "position_new (loc_pool l) = AtPersistent"
      using ok 1 l by (simp add: memory_ok_def position_new_def persistent_pool_pos_def location_new_def)
    then have put: "memory_put l q' m = m\<lparr>mm_persistent := p'\<rparr>" using p' by (simp add: memory_put_def)
    show ?thesis unfolding put using 1 p' e ok
      by (intro exI [of _ "[]"] exI [of _ "DynDirect (mm_dedicated m) # dynamic_pools (mm_pools m)"])
        (simp add: memory_pools_def memory_ok_def)
  next
    case 2
    with e obtain p' where p': "q' = DynDirect p'" using dyn_shape_kind(2) by blast
    have "position_new (loc_pool l) = AtDedicated"
      using ok 2 l by (simp add: memory_ok_def position_new_def dedicated_pool_pos_def persistent_pool_pos_def location_new_def)
    then have put: "memory_put l q' m = m\<lparr>mm_dedicated := p'\<rparr>" using p' by (simp add: memory_put_def)
    show ?thesis unfolding put using 2 p' e ok
      by (intro exI [of _ "[DynPersistent (mm_persistent m)]"] exI [of _ "dynamic_pools (mm_pools m)"])
        (simp add: memory_pools_def memory_ok_def)
  next
    case 3
    note dok = memory_okD(4) [OF ok]
    from dynamic_put_back [OF dok 3 e] obtain xs ys where
      d: "dynamic_pools (mm_pools m) = xs @ q # ys" "dynamic_pools (dynamic_put (loc_pool l) q' (mm_pools m)) = xs @ q' # ys"
      "dynamic_ok (mm_alloc_reserve_count m) (dynamic_put (loc_pool l) q' (mm_pools m))" unfolding l by blast
    have "position_new (loc_pool l) = AtDynamic (loc_pool l)"
      using dynamic_routes [OF dok 3] l by (simp add: position_dynamic)
    then have put: "memory_put l q' m = m\<lparr>mm_pools := dynamic_put (loc_pool l) q' (mm_pools m)\<rparr>" by (simp add: memory_put_def)
    show ?thesis unfolding put using d ok
      by (intro exI [of _ "DynPersistent (mm_persistent m) # DynDirect (mm_dedicated m) # xs"] exI [of _ ys])
        (simp add: memory_pools_def memory_ok_def)
  qed
qed

lemma memory_bind_shown:
  fixes m :: "('f, 'st) memory"
  assumes ok: "memory_ok ids held sane m h" and small: "memory_small m" and s: "s \<in> set (memory_slices m)"
    and new: "new \<in> dom (descs h)" "new \<notin> group_handles (memory_pools m)"
  shows "\<exists>m' h' g' t. memory_bind (sl_handle s) new c m h g = Ok (m', h', g') \<and> memory_ok ids held sane m' h' \<and> memory_small m'
    \<and> replaced s t (memory_slices m) (memory_slices m') \<and> sl_handle t = new \<and> sl_storage t = sl_storage s \<and> sl_tainted t = []
    \<and> sl_cursor t = (if loc_pool (location h (sl_handle s)) = dedicated_pool_pos then sl_cursor s else c)
    \<and> h' = rebound (sl_handle s) new h \<and> mm_storage m' = mm_storage m"
proof -
  let ?i = "sl_handle s" and ?l = "location h (sl_handle s)"
  from memory_slice_pool [OF ok s] obtain q where q: "q \<in> set (memory_pools m)" "s \<in> set (dyn_slices q)"
    "dyn_served ids held sane q h (mm_storage m)" "memory_pool_at ?l m = Ok q" "loc_pool ?l = loc_pool (dyn_base q)" "is_allocated h ?i"
    by metis
  have sm: "dyn_small q" using small q(1) by (simp add: memory_small_def list_all_iff)
  have nq: "new \<notin> dyn_handles q" using new(2) q(1) by (auto simp: group_handles_def)
  from dyn_bind_step [OF q(3,2) sm new(1) nq, of c g] obtain q' g' where
    b: "dyn_bind ?i new c q h g = Ok (q', rebound ?i new h, g')" "dyn_served ids held sane q' (rebound ?i new h) (mm_storage m)"
    "replaced s (rebound_slice q new c s) (dyn_slices q) (dyn_slices q')" "dyn_shape q' = dyn_shape q" "dyn_ids q' = dyn_ids q" by blast
  from memory_put_back [OF ok q(1) q(5) b(4)] obtain xs ys where
    p: "memory_pools m = xs @ q # ys" "memory_pools (memory_put ?l q' m) = xs @ q' # ys" "mm_storage (memory_put ?l q' m) = mm_storage m"
    "group_served ids held sane (xs @ q' # ys) (rebound ?i new h) (mm_storage m) \<Longrightarrow>
      memory_ok ids held sane (memory_put ?l q' m) (rebound ?i new h)" by blast
  have i: "?i \<in> dyn_handles q" using q(2) by (simp add: dyn_handles_slices)
  have hs: "dyn_handles q' \<subseteq> insert new (dyn_handles q)"
    using replaced_set [OF b(3)] by (auto simp: dyn_handles_slices rebound_slice_def)
  have "group_served ids held sane (xs @ q # ys) h (mm_storage m)" using ok p(1) by (simp add: memory_ok_def)
  from p(4) [OF group_rebind(1) [OF this b(2) frames_rebound i _ hs b(5)]] new(2) p(1)
  have ok': "memory_ok ids held sane (memory_put ?l q' m) (rebound ?i new h)" by simp
  have "memory_small (memory_put ?l q' m)"
    using small p(1,2) dyn_shape_small [OF b(4)] by (simp add: memory_small_def)
  moreover have "replaced s (rebound_slice q new c s) (memory_slices m) (memory_slices (memory_put ?l q' m))"
    using replaced_context [OF b(3), of "concat (map dyn_slices xs)" "concat (map dyn_slices ys)"] p(1,2)
    by (simp add: memory_slices_def)
  moreover have "(\<exists>p. q = DynDirect p) \<longleftrightarrow> loc_pool ?l = dedicated_pool_pos"
  proof -
    consider "q = DynPersistent (mm_persistent m)" | "q = DynDirect (mm_dedicated m)" | "q \<in> set (dynamic_pools (mm_pools m))"
      using q(1) by (auto simp: memory_pools_def)
    then show ?thesis
    proof cases
      case 3
      have "unat (loc_pool ?l) < 254" using dynamic_routes [OF memory_okD(4) [OF ok] 3] q(5) by simp
      moreover have "\<nexists>p. q = DynDirect p" using 3 by (cases "mm_pools m") (auto simp: arena_group_def)
      ultimately show ?thesis by (auto simp: dedicated_pool_pos_def)
    qed (use ok q(5) in \<open>simp_all add: memory_ok_def location_new_def persistent_pool_pos_def dedicated_pool_pos_def\<close>)
  qed
  then have "sl_cursor (rebound_slice q new c s) = (if loc_pool ?l = dedicated_pool_pos then sl_cursor s else c)"
    by (cases q) (auto simp: rebound_slice_def)
  moreover have "memory_bind ?i new c m h g = Ok (memory_put ?l q' m, rebound ?i new h, g')"
    using b(1) q(4,6) by (simp add: memory_bind_def allocated_def)
  ultimately show ?thesis using ok' p(3)
    by (intro exI [of _ "memory_put ?l q' m"] exI [of _ "rebound ?i new h"] exI [of _ g'] exI [of _ "rebound_slice q new c s"])
      (simp add: rebound_slice_def)
qed

section \<open>Tainting\<close>

lemma map_list_update_same: "k < length xs \<Longrightarrow> f y = f (xs ! k) \<Longrightarrow> map f (xs[k := y]) = map f xs"
  by (metis list_update_id map_update nth_map)

lemma persistent_mut_step:
  assumes sv: "persistent_served ids held sane q h st" and s: "s \<in> set (pp_slices q)" "length (pp_slices q) \<le> 2 ^ 32"
  shows "\<exists>put. persistent_find_mut (sl_handle s) q h = Ok (s, put)
    \<and> (\<forall>t. persistent_served ids held sane (put (s\<lparr>sl_tainted := t\<rparr>)) h st
        \<and> replaced s (s\<lparr>sl_tainted := t\<rparr>) (pp_slices q) (pp_slices (put (s\<lparr>sl_tainted := t\<rparr>)))
        \<and> pp_base (put (s\<lparr>sl_tainted := t\<rparr>)) = pp_base q)"
proof -
  from s(1) obtain k where k: "k < length (pp_slices q)" "s = pp_slices q ! k" by (auto simp: in_set_conv_nth)
  have ok: "persistent_ok q h" using sv by (simp add: persistent_served_def)
  then have slots: "slots_ok (pp_base q) (pp_slices q) h" by (simp add: persistent_ok_def)
  note index = slot_index [OF slots k(1) s(2)]
  have "persistent_served ids held sane (q\<lparr>pp_slices := (pp_slices q)[k := s\<lparr>sl_tainted := t\<rparr>]\<rparr>) h st" for t
  proof -
    have "placed (\<lambda>k. (pp_base q)\<lparr>loc_slice := of_nat k\<rparr>) ((map Some (pp_slices q))[k := Some (s\<lparr>sl_tainted := t\<rparr>)]) h"
      by (rule placed_same [OF persistent_placed [OF sv]]) (use k in simp_all)
    then have "slots_ok (pp_base q) ((pp_slices q)[k := s\<lparr>sl_tainted := t\<rparr>]) h" by (simp add: slots_placed map_update)
    moreover have "list_all (slice_sane (pp_alignment q)) ((pp_slices q)[k := s\<lparr>sl_tainted := t\<rparr>])"
      using ok k by (auto simp: persistent_ok_def list_all_length nth_list_update slice_sane_def)
    moreover have "need (pp_alignment q) (s\<lparr>sl_tainted := t\<rparr>) = need (pp_alignment q) s" by (simp add: need_def)
    then have "sizes_ok (pp_alignment q) ((pp_slices q)[k := s\<lparr>sl_tainted := t\<rparr>]) (pp_sizes q)"
      using ok sizes_update [OF _ k(1)] k(2) by (simp add: persistent_ok_def)
    moreover have "map (need_buffer (pp_alignment q)) ((pp_slices q)[k := s\<lparr>sl_tainted := t\<rparr>]) = map (need_buffer (pp_alignment q)) (pp_slices q)"
      by (rule map_list_update_same [OF k(1)]) (simp add: k(2) need_buffer_def need_def)
    ultimately show ?thesis using sv by (simp add: persistent_served_def persistent_ok_def)
  qed
  with k index replaced_update [OF k(1)] show ?thesis
    by (auto simp: persistent_find_mut_def Let_def get_opt_def)
qed

lemma direct_mut_step:
  assumes sv: "direct_served ids held sane q h st" and s: "s \<in> set (direct_live q)" "length (dp_slices q) \<le> 2 ^ 32"
  shows "\<exists>put. direct_find_mut (sl_handle s) q h = Ok (s, put)
    \<and> (\<forall>t. direct_served ids held sane (put (s\<lparr>sl_tainted := t\<rparr>)) h st
        \<and> replaced s (s\<lparr>sl_tainted := t\<rparr>) (direct_live q) (direct_live (put (s\<lparr>sl_tainted := t\<rparr>)))
        \<and> dp_base (put (s\<lparr>sl_tainted := t\<rparr>)) = dp_base q
        \<and> length (dp_slices (put (s\<lparr>sl_tainted := t\<rparr>))) = length (dp_slices q))"
proof -
  from somes_nth [OF s(1) [unfolded direct_live_def]] obtain k where k: "k < length (dp_slices q)" "dp_slices q ! k = Some s" by blast
  have ok: "direct_ok q h" using sv by (simp add: direct_served_def)
  then have cells: "cells_ok (dp_alignment q) (dp_base q) (dp_slices q) (dp_vacant q) h" by (simp add: direct_ok_def)
  have "k < 2 ^ 32" using k s(2) by linarith
  then have index: "slice_index h (sl_handle s) = k"
    using placed_at [OF direct_placed [OF sv] k] by (simp add: slice_index_def unat_of_nat take_bit_nat_eq_self)
  have one: "direct_served ids held sane (q\<lparr>dp_slices := (dp_slices q)[k := Some (s\<lparr>sl_tainted := t\<rparr>)]\<rparr>) h st
      \<and> replaced s (s\<lparr>sl_tainted := t\<rparr>) (direct_live q) (direct_live (q\<lparr>dp_slices := (dp_slices q)[k := Some (s\<lparr>sl_tainted := t\<rparr>)]\<rparr>))" for t
  proof -
    let ?s = "s\<lparr>sl_tainted := t\<rparr>" and ?q = "q\<lparr>dp_slices := (dp_slices q)[k := Some (s\<lparr>sl_tainted := t\<rparr>)]\<rparr>"
    have "placed (\<lambda>k. (dp_base q)\<lparr>loc_slice := of_nat k\<rparr>) ((dp_slices q)[k := Some ?s]) h"
      by (rule placed_same [OF direct_placed [OF sv] k]) simp
    then have "cells_ok (dp_alignment q) (dp_base q) ((dp_slices q)[k := Some ?s]) (dp_vacant q) h"
      by (rule cells_change [OF cells k]) (use cells nth_somes [OF k] in \<open>auto simp: cells_ok_def effective_size_def\<close>)
    then have "direct_ok ?q h" using ok by (simp add: direct_ok_def)
    moreover have parts: "direct_live ?q = somes (take k (dp_slices q)) @ ?s # somes (drop (Suc k) (dp_slices q))"
      "direct_live q = somes (take k (dp_slices q)) @ s # somes (drop (Suc k) (dp_slices q))"
      using somes_split [OF k(1)] k by (simp_all add: direct_live_def somes_update)
    then have "map buffer (direct_live ?q) = map buffer (direct_live q)" by (simp add: buffer_def effective_size_def)
    ultimately show ?thesis using sv parts by (simp add: direct_served_def replaced_def) blast
  qed
  show ?thesis
    by (rule exI [of _ "\<lambda>s. q\<lparr>dp_slices := (dp_slices q)[k := Some s]\<rparr>"])
      (use k index one in \<open>simp add: direct_find_mut_def Let_def get_opt_def\<close>)
qed

lemma exclusive_mut_step:
  assumes sv: "exclusive_served ids held sane q h st" and s: "s \<in> set (eslices (xp_pages q))" "length (xp_pages q) \<le> 2 ^ 16"
  shows "\<exists>put. exclusive_find_mut (sl_handle s) q h = Ok (s, put)
    \<and> (\<forall>t. exclusive_served ids held sane (put (s\<lparr>sl_tainted := t\<rparr>)) h st
        \<and> replaced s (s\<lparr>sl_tainted := t\<rparr>) (eslices (xp_pages q)) (eslices (xp_pages (put (s\<lparr>sl_tainted := t\<rparr>))))
        \<and> xp_base (put (s\<lparr>sl_tainted := t\<rparr>)) = xp_base q
        \<and> xp_last_dealloc_check (put (s\<lparr>sl_tainted := t\<rparr>)) = xp_last_dealloc_check q)"
proof -
  from s(1) obtain k where k: "k < length (xp_pages q)" "s = ep_slice (xp_pages q ! k)" by (auto simp: in_set_conv_nth)
  have ok: "exclusive_ok q h" using sv by (simp add: exclusive_served_def)
  have "k < 2 ^ 16" using k s(2) by linarith
  then have index: "page_index h (sl_handle s) = k"
    using placed_at [OF exclusive_placed [OF sv], of k s] k by (simp add: page_index_def unat_of_nat take_bit_nat_eq_self)
  have one: "exclusive_served ids held sane (q\<lparr>xp_pages := (xp_pages q)[k := (xp_pages q ! k)\<lparr>ep_slice := s\<lparr>sl_tainted := t\<rparr>\<rparr>]\<rparr>) h st" for t
  proof -
    let ?ps = "(xp_pages q)[k := (xp_pages q ! k)\<lparr>ep_slice := s\<lparr>sl_tainted := t\<rparr>\<rparr>]"
    have "placed (\<lambda>k. (xp_base q)\<lparr>loc_page := of_nat k\<rparr>) ((map Some (eslices (xp_pages q)))[k := Some (s\<lparr>sl_tainted := t\<rparr>)]) h"
      by (rule placed_same [OF exclusive_placed [OF sv]]) (use k in simp_all)
    then have "placed (\<lambda>k. (xp_base q)\<lparr>loc_page := of_nat k\<rparr>) (map Some (eslices ?ps)) h" by (simp add: map_update)
    moreover have "list_all (epage_ok (xp_alignment q)) ?ps"
      using ok k by (auto simp: exclusive_ok_def list_all_length nth_list_update epage_ok_def effective_size_def)
    moreover have "map ebuffer ?ps = map ebuffer (xp_pages q)"
      by (rule map_list_update_same [OF k(1)]) (simp add: k(2) ebuffer_def)
    ultimately show ?thesis using sv by (simp add: exclusive_served_def exclusive_ok_def)
  qed
  have sw: "replaced s u (eslices (xp_pages q)) (eslices ((xp_pages q)[k := (xp_pages q ! k)\<lparr>ep_slice := u\<rparr>]))" for u
    using replaced_update [of k "eslices (xp_pages q)" s u] k by (simp add: map_update)
  show ?thesis
    by (rule exI [of _ "\<lambda>s. q\<lparr>xp_pages := (xp_pages q)[k := (xp_pages q ! k)\<lparr>ep_slice := s\<rparr>]\<rparr>"])
      (use k index one sw in \<open>simp add: exclusive_find_mut_def Let_def get_opt_def\<close>)
qed

lemma page_taint_ok:
  assumes ok: "page_ok p h" and j: "j < length (pg_slices p)" "s = pg_slices p ! j"
  shows "page_ok (p\<lparr>pg_slices := (pg_slices p)[j := s\<lparr>sl_tainted := t\<rparr>]\<rparr>) h"
proof -
  let ?ss = "(pg_slices p)[j := s\<lparr>sl_tainted := t\<rparr>]"
  have "placed (\<lambda>k. (pg_base p)\<lparr>loc_slice := of_nat k\<rparr>) ((map Some (pg_slices p))[j := Some (s\<lparr>sl_tainted := t\<rparr>)]) h"
    by (rule placed_same) (use ok j in \<open>simp_all add: page_ok_def slots_placed\<close>)
  then have "slots_ok (pg_base p) ?ss h" by (simp add: slots_placed map_update)
  moreover have "laid_out 0 (page_size p) ?ss"
    using laid_out_cong [of ?ss "pg_slices p"] ok j(2)
      map_list_update_same [OF j(1), of sl_storage "s\<lparr>sl_tainted := t\<rparr>"] map_list_update_same [OF j(1), of sl_padding "s\<lparr>sl_tainted := t\<rparr>"]
    by (simp add: page_ok_def page_layout_def)
  moreover have "pg_alignment p dvd sh_offset (sl_storage u) \<and> slice_id u = sh_id (pg_storage p)" if "u \<in> set ?ss" for u
    using set_update_subset_insert [THEN subsetD, OF that] ok j by (auto simp: page_ok_def page_layout_def)
  ultimately show ?thesis using ok by (simp add: page_ok_def page_layout_def page_size_def)
qed

lemma sliced_mut_step:
  assumes sv: "served ids held sane q h st" and s: "s \<in> set (dyn_slices (DynSliced q :: 'f dyn_pool))" "sliced_small q"
  shows "\<exists>put. sliced_find_mut (sl_handle s) q h = Ok (s, put)
    \<and> (\<forall>t. served ids held sane (put (s\<lparr>sl_tainted := t\<rparr>)) h st
        \<and> replaced s (s\<lparr>sl_tainted := t\<rparr>) (dyn_slices (DynSliced q :: 'f dyn_pool))
            (dyn_slices (DynSliced (put (s\<lparr>sl_tainted := t\<rparr>)) :: 'f dyn_pool))
        \<and> dyn_shape (DynSliced (put (s\<lparr>sl_tainted := t\<rparr>)) :: 'f dyn_pool) = dyn_shape (DynSliced q)
        \<and> pool_ids (put (s\<lparr>sl_tainted := t\<rparr>)) = pool_ids q)"
proof -
  let ?ps = "sp_pages q"
  from sliced_slice [OF s(1)] obtain k where k: "k < length ?ps" "s \<in> set (pg_slices (fst (?ps ! k)))" by blast
  obtain p a where pa: "?ps ! k = (p, a)" by (cases "?ps ! k")
  from k pa obtain j where j: "j < length (pg_slices p)" "s = pg_slices p ! j" by (auto simp: in_set_conv_nth)
  have small: "length ?ps \<le> 2 ^ 16" "length (pg_slices p) \<le> 2 ^ 32" using s(2) k(1) pa by (force simp: sliced_small_def list_all_length)+
  have ok: "pool_ok q h" using sv by (simp add: served_def)
  note page = pool_page [OF ok k(1), unfolded pa fst_conv]
  have slots: "slots_ok (pg_base p) (pg_slices p) h" using page(2) by (simp add: page_ok_def)
  have index: "page_index h (sl_handle s) = k" using pool_find [OF ok small(1) k(1)] k(2) pa small(2) by simp
  have sindex: "slice_index h (sl_handle s) = j" using slot_index [OF slots j(1) small(2)] j(2) by simp
  let ?q = "\<lambda>s. q\<lparr>sp_pages := ?ps[k := (p\<lparr>pg_slices := (pg_slices p)[j := s]\<rparr>, a)]\<rparr>"
  have one: "served ids held sane (?q (s\<lparr>sl_tainted := t\<rparr>)) h st" for t
  proof -
    have at: "page_at q (p\<lparr>pg_slices := (pg_slices p)[j := s\<lparr>sl_tainted := t\<rparr>]\<rparr>, a) h"
      using page(1) page_taint_ok [OF page(2) j] by (simp add: page_at_def page_size_def)
    have "pool_ok (?q (s\<lparr>sl_tainted := t\<rparr>)) h"
      by (rule pool_ok_set_page [OF ok k(1) at]) (use j(2) pa map_list_update_same [OF j(1), of sl_handle "s\<lparr>sl_tainted := t\<rparr>"] in simp_all)
    moreover have fz: "map frozen (?ps[k := (p\<lparr>pg_slices := (pg_slices p)[j := s\<lparr>sl_tainted := t\<rparr>]\<rparr>, a)]) = map frozen ?ps"
      by (rule map_list_update_same [OF k(1)]) (simp add: pa frozen_def)
    ultimately show ?thesis using sv backed_cong [OF fz, of ids held "sp_page_size q" st] by (simp add: served_def)
  qed
  have run: "sliced_find_mut (sl_handle s) q h = Ok (s, ?q)"
    using k(1) pa j index sindex by (simp add: sliced_find_mut_def page_find_mut_def Let_def get_opt_def)
  show ?thesis
    by (intro exI [of _ ?q] conjI allI run one sliced_swap(1,2) [OF k(1) pa j] sliced_swap(3) [OF k(1) pa j])
qed

lemma replaced_taint:
  "replaced s (s\<lparr>sl_tainted := t\<rparr>) ss ts \<Longrightarrow> length ts = length ss \<and> slice_id ` set ts = slice_id ` set ss"
  by (auto simp: replaced_def)

lemma dyn_mut_step:
  fixes q :: "'f dyn_pool"
  assumes sv: "dyn_served ids held sane q h st" and s: "s \<in> set (dyn_slices q)" "dyn_small q"
  shows "\<exists>put. dyn_find_mut (sl_handle s) q h = Ok (s, put)
    \<and> (\<forall>t. dyn_served ids held sane (put (s\<lparr>sl_tainted := t\<rparr>)) h st
        \<and> replaced s (s\<lparr>sl_tainted := t\<rparr>) (dyn_slices q) (dyn_slices (put (s\<lparr>sl_tainted := t\<rparr>)))
        \<and> dyn_shape (put (s\<lparr>sl_tainted := t\<rparr>)) = dyn_shape q \<and> dyn_ids (put (s\<lparr>sl_tainted := t\<rparr>)) = dyn_ids q)"
proof (cases q)
  case (DynPersistent p)
  with persistent_mut_step [of ids held sane p h st s] sv s obtain put where
    "persistent_find_mut (sl_handle s) p h = Ok (s, put)"
    "\<forall>t. persistent_served ids held sane (put (s\<lparr>sl_tainted := t\<rparr>)) h st
        \<and> replaced s (s\<lparr>sl_tainted := t\<rparr>) (pp_slices p) (pp_slices (put (s\<lparr>sl_tainted := t\<rparr>)))
        \<and> pp_base (put (s\<lparr>sl_tainted := t\<rparr>)) = pp_base p" by auto
  moreover from this(2) have "length (pp_slices (put (s\<lparr>sl_tainted := t\<rparr>))) = length (pp_slices p)
    \<and> slice_id ` set (pp_slices (put (s\<lparr>sl_tainted := t\<rparr>))) = slice_id ` set (pp_slices p)" for t
    by (intro replaced_taint) blast
  ultimately show ?thesis using DynPersistent by (intro exI [of _ "DynPersistent \<circ> put"]) simp
next
  case (DynDirect p)
  with direct_mut_step [of ids held sane p h st s] sv s obtain put where
    "direct_find_mut (sl_handle s) p h = Ok (s, put)"
    "\<forall>t. direct_served ids held sane (put (s\<lparr>sl_tainted := t\<rparr>)) h st
        \<and> replaced s (s\<lparr>sl_tainted := t\<rparr>) (direct_live p) (direct_live (put (s\<lparr>sl_tainted := t\<rparr>)))
        \<and> dp_base (put (s\<lparr>sl_tainted := t\<rparr>)) = dp_base p \<and> length (dp_slices (put (s\<lparr>sl_tainted := t\<rparr>))) = length (dp_slices p)" by auto
  moreover from this(2) have "length (direct_live (put (s\<lparr>sl_tainted := t\<rparr>))) = length (direct_live p)
    \<and> slice_id ` set (direct_live (put (s\<lparr>sl_tainted := t\<rparr>))) = slice_id ` set (direct_live p)" for t
    by (intro replaced_taint) blast
  ultimately show ?thesis using DynDirect by (intro exI [of _ "DynDirect \<circ> put"]) simp
next
  case (DynExclusive p)
  with exclusive_mut_step [of ids held sane p h st s] sv s obtain put where
    m: "exclusive_find_mut (sl_handle s) p h = Ok (s, put)"
    "\<forall>t. exclusive_served ids held sane (put (s\<lparr>sl_tainted := t\<rparr>)) h st
        \<and> replaced s (s\<lparr>sl_tainted := t\<rparr>) (eslices (xp_pages p)) (eslices (xp_pages (put (s\<lparr>sl_tainted := t\<rparr>))))
        \<and> xp_base (put (s\<lparr>sl_tainted := t\<rparr>)) = xp_base p
        \<and> xp_last_dealloc_check (put (s\<lparr>sl_tainted := t\<rparr>)) = xp_last_dealloc_check p" by auto
  have "length (eslices (xp_pages (put (s\<lparr>sl_tainted := t\<rparr>)))) = length (eslices (xp_pages p))
    \<and> slice_id ` set (eslices (xp_pages (put (s\<lparr>sl_tainted := t\<rparr>)))) = slice_id ` set (eslices (xp_pages p))" for t
    using m(2) by (intro replaced_taint) blast
  then show ?thesis using DynExclusive m by (intro exI [of _ "DynExclusive \<circ> put"]) simp
next
  case (DynSliced p)
  with sliced_mut_step [of ids held sane p h st s, where 'f = 'f] sv s obtain put where
    "sliced_find_mut (sl_handle s) p h = Ok (s, put)"
    "\<forall>t. served ids held sane (put (s\<lparr>sl_tainted := t\<rparr>)) h st
        \<and> replaced s (s\<lparr>sl_tainted := t\<rparr>) (dyn_slices (DynSliced p :: 'f dyn_pool))
            (dyn_slices (DynSliced (put (s\<lparr>sl_tainted := t\<rparr>)) :: 'f dyn_pool))
        \<and> dyn_shape (DynSliced (put (s\<lparr>sl_tainted := t\<rparr>)) :: 'f dyn_pool) = dyn_shape (DynSliced p)
        \<and> pool_ids (put (s\<lparr>sl_tainted := t\<rparr>)) = pool_ids p" by auto
  then show ?thesis using DynSliced by (intro exI [of _ "DynSliced \<circ> put"]) simp
qed

lemma memory_mut_shown:
  fixes m :: "('f, 'st) memory"
  assumes ok: "memory_ok ids held sane m h" and small: "memory_small m" and s: "s \<in> set (memory_slices m)"
  shows "\<exists>put. memory_find_mut (sl_handle s) m h = Ok (s, put)
    \<and> (\<forall>t. memory_ok ids held sane (put (s\<lparr>sl_tainted := t\<rparr>)) h \<and> memory_small (put (s\<lparr>sl_tainted := t\<rparr>))
        \<and> replaced s (s\<lparr>sl_tainted := t\<rparr>) (memory_slices m) (memory_slices (put (s\<lparr>sl_tainted := t\<rparr>))))"
proof -
  let ?i = "sl_handle s" and ?l = "location h (sl_handle s)"
  from memory_slice_pool [OF ok s] obtain q where q: "q \<in> set (memory_pools m)" "s \<in> set (dyn_slices q)"
    "dyn_served ids held sane q h (mm_storage m)" "memory_pool_at ?l m = Ok q" "loc_pool ?l = loc_pool (dyn_base q)" "is_allocated h ?i"
    by metis
  have sm: "dyn_small q" using small q(1) by (simp add: memory_small_def list_all_iff)
  from dyn_mut_step [OF q(3,2) sm] obtain put where
    b: "dyn_find_mut ?i q h = Ok (s, put)" "\<And>t. dyn_served ids held sane (put (s\<lparr>sl_tainted := t\<rparr>)) h (mm_storage m)"
    "\<And>t. replaced s (s\<lparr>sl_tainted := t\<rparr>) (dyn_slices q) (dyn_slices (put (s\<lparr>sl_tainted := t\<rparr>)))"
    "\<And>t. dyn_shape (put (s\<lparr>sl_tainted := t\<rparr>)) = dyn_shape q" "\<And>t. dyn_ids (put (s\<lparr>sl_tainted := t\<rparr>)) = dyn_ids q" by blast
  have "memory_ok ids held sane (memory_put ?l (put (s\<lparr>sl_tainted := t\<rparr>)) m) h
      \<and> memory_small (memory_put ?l (put (s\<lparr>sl_tainted := t\<rparr>)) m)
      \<and> replaced s (s\<lparr>sl_tainted := t\<rparr>) (memory_slices m) (memory_slices (memory_put ?l (put (s\<lparr>sl_tainted := t\<rparr>)) m))" for t
  proof -
    let ?q = "put (s\<lparr>sl_tainted := t\<rparr>)"
    from memory_put_back [OF ok q(1) q(5) b(4)] obtain xs ys where
      p: "memory_pools m = xs @ q # ys" "memory_pools (memory_put ?l ?q m) = xs @ ?q # ys"
      "group_served ids held sane (xs @ ?q # ys) h (mm_storage m) \<Longrightarrow> memory_ok ids held sane (memory_put ?l ?q m) h" by blast
    have "dyn_handles ?q = dyn_handles q" using b(3) [of t] by (auto simp: dyn_handles_slices replaced_def)
    then have "dyn_step ids held sane q h (mm_storage m) ?q h (mm_storage m)"
      using memory_okD(5) [OF ok] b(2,5) by (intro dyn_stepI) (simp_all add: confined_refl fresh_from_refl)
    from group_stepD(1) [OF group_put(1) [OF _ this, of xs ys]] ok p
    have "memory_ok ids held sane (memory_put ?l ?q m) h" by (simp add: memory_ok_def)
    moreover have "memory_small (memory_put ?l ?q m)"
      using small p(1,2) dyn_shape_small [OF b(4) [of t]] by (simp add: memory_small_def)
    moreover have "replaced s (s\<lparr>sl_tainted := t\<rparr>) (memory_slices m) (memory_slices (memory_put ?l ?q m))"
      using replaced_context [OF b(3) [of t], of "concat (map dyn_slices xs)" "concat (map dyn_slices ys)"] p(1,2)
      by (simp add: memory_slices_def)
    ultimately show ?thesis by blast
  qed
  moreover have "memory_find_mut ?i m h = Ok (s, \<lambda>t. memory_put ?l (put t) m)"
    using b(1) q(4,6) by (simp add: memory_find_mut_def allocated_def owned_by_def)
  ultimately show ?thesis by blast
qed

text \<open>The other slices are found as they were.\<close>

lemma replaced_found:
  assumes ok: "memory_ok ids held sane m' h'" and small: "memory_small m'" and sw: "replaced s t (memory_slices m) (memory_slices m')"
  shows "memory_find (sl_handle t) m' h' = Ok t"
    and "u \<in> set (memory_slices m) \<Longrightarrow> u \<noteq> s \<Longrightarrow> memory_find (sl_handle u) m' h' = Ok u"
  using memory_found [OF ok small] replaced_set [OF sw] by auto

end
