(* ===== verification/Memory_Runs.thy ===== *)
theory Memory_Runs
  imports Memory_Binding
begin

text \<open>
  Runs of the memory of one stream: a configuration gives a memory that keeps its invariant, and so
  does every sequence of reservations under each page-update policy, cleanups, binds, taints, writes
  and allocation windows, with owners cloning and dropping their handles.
\<close>

section \<open>Configurations\<close>

lemma empty_served:
  assumes "heap_ok h" "sane st"
  shows "pp_slices q = [] \<Longrightarrow> pp_sizes q = Map.empty \<Longrightarrow> 0 < pp_alignment q \<Longrightarrow> persistent_served ids held sane q h st"
    "dp_slices p = [] \<Longrightarrow> dp_vacant p = [] \<Longrightarrow> 0 < dp_alignment p \<Longrightarrow> direct_served ids held sane p h st"
    "xp_pages x = [] \<Longrightarrow> 0 < xp_alignment x \<Longrightarrow> exclusive_served ids held sane x h st"
  using assms
  by (simp_all add: persistent_served_def persistent_ok_def slots_ok_def sizes_ok_def owned_def direct_served_def direct_ok_def
      cells_ok_def placed_def direct_live_def exclusive_served_def exclusive_ok_def)

lemma buckets_from_new:
  assumes "0 < al" "\<forall>n \<in> set ns. al dvd n"
  shows "\<exists>qs. buckets_from av bf al i ns = Ok qs \<and> length qs = length ns
    \<and> (\<forall>k < length qs. xp_pages (qs ! k) = [] \<and> xp_alignment (qs ! k) = al
        \<and> xp_base (qs ! k) = location_new (of_nat (i + k)) 0 0 \<and> xp_last_dealloc_check (qs ! k) = 0)"
  using assms(2)
proof (induction ns arbitrary: i)
  case (Cons n ns)
  then obtain qs where qs: "buckets_from av bf al (Suc i) ns = Ok qs" "length qs = length ns"
    "\<forall>k < length qs. xp_pages (qs ! k) = [] \<and> xp_alignment (qs ! k) = al
        \<and> xp_base (qs ! k) = location_new (of_nat (Suc i + k)) 0 0 \<and> xp_last_dealloc_check (qs ! k) = 0"
    by (metis list.set_intros(2))
  let ?q = "\<lparr>xp_pages = [], xp_alignment = al, xp_dealloc_period = bf_period bf n, xp_last_dealloc_check = 0, xp_max_alloc_size = n,
      xp_cur_avg_size = av_start av n, xp_base = location_new (of_nat i) 0 0, xp_pages_peak = 0, xp_largest_alloc = 0\<rparr>"
  have "buckets_from av bf al i (n # ns) = Ok (?q # qs)"
    using qs(1) assms(1) Cons.prems by (simp add: exclusive_new_def dvd_eq_mod_eq_0)
  moreover have "xp_pages ((?q # qs) ! k) = [] \<and> xp_alignment ((?q # qs) ! k) = al
        \<and> xp_base ((?q # qs) ! k) = location_new (of_nat (i + k)) 0 0 \<and> xp_last_dealloc_check ((?q # qs) ! k) = 0"
    if "k < length (?q # qs)" for k
    using that qs(3) by (cases k) (simp_all add: add.commute add.left_commute)
  ultimately show ?case using qs(2) by (intro exI [of _ "?q # qs"]) simp
qed simp

lemma bucket_sizes_shape: "0 < al \<Longrightarrow> length (bucket_sizes bf n al) \<le> 24 \<and> (\<forall>x \<in> set (bucket_sizes bf n al). al dvd x)"
proof -
  assume al: "0 < al"
  have "length (bucket_sizes bf n al) \<le> 24"
    unfolding bucket_sizes_def max_buckets_def using remdups_adj_length [of "map (\<lambda>index. next_multiple_of (bf_size bf n index) al) [0..<24]"] by simp
  then show ?thesis using al dvd_next_multiple_of by (auto simp: bucket_sizes_def)
qed

text \<open>Pools without slices are no obstacle to each other.\<close>

lemma group_fresh:
  assumes "heap_ok h" "sane st" "\<forall>q \<in> set ps. dyn_served ids held sane q h st \<and> dyn_slices q = [] \<and> dyn_ids q = {}"
  shows "group_served ids held sane ps h st" "group_live h ps = []"
proof -
  have "dyn_apart p q" if "p \<in> set ps" "q \<in> set ps" for p q using assms(3) that by (auto simp: dyn_apart_def dyn_handles_slices)
  then have "sorted_wrt dyn_apart ps" by (induction ps) auto
  with assms show "group_served ids held sane ps h st" by (simp add: group_served_def)
  have "dyn_live h q = []" if "q \<in> set ps" for q using dyn_live_slices [of h q] assms(3) that by auto
  then show "group_live h ps = []" by (simp add: group_live_def)
qed

lemma dynamic_new_ok:
  fixes av :: "'f average"
  assumes al: "0 < mp_alignment p" and h: "heap_ok h" "sane st"
  shows "\<exists>d. dynamic_new av bf p layout = Ok d \<and> dynamic_ok 0 d
    \<and> (\<forall>q \<in> set (dynamic_pools d). dyn_served ids held sane q h st \<and> dyn_slices q = [] \<and> dyn_ids q = {})"
proof (cases layout)
  case ExclusivePages
  from buckets_from_new [OF al, of "bucket_sizes bf (mp_max_page_size p) (mp_alignment p)" av bf 0] bucket_sizes_shape [OF al]
  obtain qs where qs: "buckets_new av bf p = Ok qs" "length qs \<le> 24"
    "\<forall>k < length qs. xp_pages (qs ! k) = [] \<and> xp_alignment (qs ! k) = mp_alignment p
        \<and> xp_base (qs ! k) = location_new (of_nat k) 0 0 \<and> xp_last_dealloc_check (qs ! k) = 0"
    by (fastforce simp: buckets_new_def)
  have "xp_pages q = [] \<and> xp_alignment q = mp_alignment p" if "q \<in> set qs" for q using qs(3) that by (auto simp: in_set_conv_nth)
  then have "dyn_served ids held sane q h st \<and> dyn_slices q = [] \<and> dyn_ids q = {}" if "q \<in> set (map DynExclusive qs)" for q
    using that al by (auto intro!: empty_served(3) [where sane = sane and st = st, OF h])
  with qs ExclusivePages show ?thesis by (simp add: dynamic_new_def bucket_at_def)
next
  case AdaptivePages
  define tiny :: "'f exclusive_pool" where "tiny = \<lparr>xp_pages = [], xp_alignment = mp_alignment p, xp_dealloc_period = 2 ^ 64 - 1,
    xp_last_dealloc_check = 0, xp_max_alloc_size = 0, xp_cur_avg_size = av_start av 0, xp_base = location_new tiny_pool 0 0,
    xp_pages_peak = 0, xp_largest_alloc = 0\<rparr>"
  define small where "small = up_to_max_slice (sliced_new
    \<lparr>ly_page_size = next_multiple_of small_page (mp_alignment p), ly_max_slice_size = next_multiple_of small_slice (mp_alignment p),
     ly_alignment = mp_alignment p, ly_pool = small_pool\<rparr>)"
  define a where "a = arena_new (sizing_new (min min_page (mp_max_page_size p)) p) arena_pools"
  define m where "m = \<lparr>ad_tiny = tiny, ad_small = small, ad_arena = a, ad_trigger = trigger_new (mp_max_memory p)\<rparr>"
  have run: "dynamic_new av bf p layout = Ok (AdaptiveMemory m)"
    using al AdaptivePages
    by (simp add: dynamic_new_def adaptive_new_def exclusive_new_def Let_def m_def tiny_def small_def a_def)
  have "arena_ok ids held sane a h st"
    unfolding a_def by (rule arena_new_ok [where sane = sane and st = st, OF sizing_new_ok [OF al] _ h]) (simp add: arena_pools_def arena_slots_def)
  then have sh: "arena_shape_ok a" "group_served ids held sane (arena_group a :: 'f dyn_pool list) h st"
    by (simp_all add: arena_ok_group [where 'f = 'f])
  have slots: "\<forall>q \<in> set (somes (ar_slots a)). sp_pages q = []"
    by (auto simp: a_def arena_new_def set_somes)
  have "small_ok small"
    using al by (simp add: small_def small_ok_def up_to_max_slice_def sliced_new_def dvd_next_multiple_of)
  then have "dynamic_ok 0 (AdaptiveMemory m)"
    using sh by (simp add: m_def bucket_at_def tiny_def tiny_pool_def) (simp add: a_def arena_new_def)
  moreover have "dyn_served ids held sane (DynSliced small :: 'f dyn_pool) h st" "dyn_served ids held sane (DynExclusive tiny) h st"
    using al by (auto simp: small_def up_to_max_slice_def sliced_new_def tiny_def
        intro!: empty_served(3) [where sane = sane and st = st, OF h] empty_pool_served h)
  moreover have "sp_pages small = []" "xp_pages tiny = []" by (simp_all add: small_def up_to_max_slice_def sliced_new_def tiny_def)
  moreover have "\<forall>q \<in> set (arena_group a :: 'f dyn_pool list). dyn_served ids held sane q h st \<and> dyn_slices q = [] \<and> dyn_ids q = {}"
    using sh(2) slots by (auto simp: group_served_def arena_group_def pool_ids_def)
  ultimately show ?thesis unfolding run by (simp add: m_def pool_ids_def)
qed

lemma configured_ok:
  fixes av :: "'f average"
  assumes al: "0 < mp_alignment p" and h: "heap_ok h" "sane st"
  shows "\<exists>m. from_configuration av bf st p layout config option = Ok m \<and> memory_ok ids held sane m h \<and> memory_live h m = []
    \<and> mm_mode m = configured_mode config option \<and> mm_storage m = st"
proof -
  from dynamic_new_ok [where sane = sane and st = st, OF al h, of av bf layout ids held] obtain d where
    d: "dynamic_new av bf p layout = Ok d" "dynamic_ok 0 d"
    "\<forall>q \<in> set (dynamic_pools d). dyn_served ids held sane q h st \<and> dyn_slices q = [] \<and> dyn_ids q = {}" by blast
  let ?p = "persistent_new (mp_max_page_size p) (mp_alignment p) persistent_pool_pos"
  let ?d = "direct_new (mp_alignment p) dedicated_pool_pos (Some 0)"
  have "\<forall>q \<in> set (DynPersistent ?p # DynDirect ?d # dynamic_pools d). dyn_served ids held sane q h st \<and> dyn_slices q = [] \<and> dyn_ids q = {}"
    using d(3) al empty_served(1,2) [where sane = sane and st = st, OF h] by (auto simp: persistent_new_def direct_new_def direct_live_def)
  from group_fresh [where sane = sane and st = st, OF h this] d show ?thesis
    by (simp add: from_configuration_def Let_def memory_ok_def memory_pools_def memory_live_def persistent_new_def direct_new_def)
qed

section \<open>Handles in the hands of others\<close>

lemma dyn_heap:
  assumes sv: "dyn_served ids held sane q h st" and h': "heap_ok h'"
    and same: "\<And>i. i \<in> dom (descs h) \<Longrightarrow> i \<in> dom (descs h') \<and> location h' i = location h i"
  shows "dyn_served ids held sane q h' st"
proof (cases q)
  case (DynPersistent p)
  with sv placed_frame [OF persistent_placed, of ids held sane p h st h'] h' same show ?thesis
    by (simp add: persistent_served_def persistent_ok_def slots_placed)
next
  case (DynDirect p)
  with sv placed_frame [OF direct_placed, of ids held sane p h st h'] h' same show ?thesis
    by (simp add: direct_served_def direct_ok_def cells_ok_def)
next
  case (DynExclusive p)
  with sv placed_frame [OF exclusive_placed, of ids held sane p h st h'] h' same show ?thesis
    by (simp add: exclusive_served_def exclusive_ok_def)
next
  case (DynSliced p)
  with sv pool_ok_heap [of p h h'] h' same show ?thesis by (simp add: served_def)
qed

lemma memory_heap:
  assumes "memory_ok ids held sane m h" "heap_ok h'"
    "\<And>i. i \<in> dom (descs h) \<Longrightarrow> i \<in> dom (descs h') \<and> location h' i = location h i"
  shows "memory_ok ids held sane m h'"
  using assms(1,2) by (auto simp: memory_ok_def group_served_def intro: dyn_heap [OF _ assms(2,3)])

lemma memory_users:
  assumes ok: "memory_ok ids held sane m h"
  shows "memory_ok ids held sane m (snd (handle_new h))" "memory_ok ids held sane m (clone_handle i h)"
    "memory_ok ids held sane m (binding i h)" "memory_ok ids held sane m (clone_binding i h)"
    "\<not> is_free h i \<Longrightarrow> memory_ok ids held sane m (drop_handle i h)"
    "\<not> is_free h i \<Longrightarrow> is_bound h i \<Longrightarrow> memory_ok ids held sane m (drop_binding i h)"
proof -
  note hok = memory_okD(5) [OF ok]
  show "memory_ok ids held sane m (snd (handle_new h))"
    by (rule memory_heap [OF ok]) (use hok heap_ok_fresh [OF hok] in \<open>auto simp: heap_simps heap_ok_ops\<close>)
  show "memory_ok ids held sane m (clone_handle i h)" "memory_ok ids held sane m (binding i h)"
    "memory_ok ids held sane m (clone_binding i h)" "\<not> is_free h i \<Longrightarrow> memory_ok ids held sane m (drop_handle i h)"
    "\<not> is_free h i \<Longrightarrow> is_bound h i \<Longrightarrow> memory_ok ids held sane m (drop_binding i h)"
    by (rule memory_heap [OF ok];
        use hok in \<open>simp add: heap_simps heap_ok_ops is_free_def not_le del: domIff\<close>)+
qed

text \<open>Others may do anything to handles this memory does not hold.\<close>

lemma memory_others:
  assumes "memory_ok ids held sane m h" "heap_ok h'" "frames (- group_handles (memory_pools m)) h h'"
  shows "memory_ok ids held sane m h'"
proof -
  have "group_served ids held sane (memory_pools m) h' (mm_storage m)"
    using group_frame [of ids held sane "memory_pools m" h "mm_storage m" "- group_handles (memory_pools m)" "{}" h' "mm_storage m"] assms
    by (simp add: memory_ok_def confined_def group_served_def)
  with assms(1) show ?thesis by (simp add: memory_ok_def)
qed

lemma memory_mode_ok: "memory_ok ids held sane m h \<Longrightarrow> memory_ok ids held sane (memory_mode w m) h"
  by (simp add: memory_mode_def Let_def memory_ok_def memory_pools_def)

section \<open>Runs\<close>

inductive memory_run ::
  "'f average \<Rightarrow> 'st storage_ops \<Rightarrow> ('st \<Rightarrow> bool) \<Rightarrow> ('f, 'st) memory \<Rightarrow> heap \<Rightarrow> error_graph \<Rightarrow> bool" for av ops sane where
  new: "heap_ok h \<Longrightarrow> sane st \<Longrightarrow> 0 < mp_alignment p \<Longrightarrow> from_configuration av bf st p layout config option = Ok m \<Longrightarrow>
    memory_run av ops sane m h g"
| mode: "memory_run av ops sane m h g \<Longrightarrow> memory_run av ops sane (memory_mode w m) h g"
| reserve: "memory_run av ops sane m h g \<Longrightarrow> memory_reserve av ops False n update m h g = (r, m', h', g') \<Longrightarrow> r \<noteq> Panic \<Longrightarrow>
    memory_run av ops sane m' h' g'"
| cleanup: "memory_run av ops sane m h g \<Longrightarrow> memory_cleanup ops c m h g = Ok (m', h', g') \<Longrightarrow> memory_run av ops sane m' h' g'"
| bind: "memory_run av ops sane m h g \<Longrightarrow> memory_small m \<Longrightarrow> s \<in> set (memory_slices m) \<Longrightarrow> i \<in> dom (descs h) \<Longrightarrow>
    i \<notin> group_handles (memory_pools m) \<Longrightarrow> memory_bind (sl_handle s) i c m h g = Ok (m', h', g') \<Longrightarrow> memory_run av ops sane m' h' g'"
| taint: "memory_run av ops sane m h g \<Longrightarrow> memory_small m \<Longrightarrow> s \<in> set (memory_slices m) \<Longrightarrow>
    memory_taint (sl_handle s) r f m h g = (m', g') \<Longrightarrow> memory_run av ops sane m' h g'"
| wrote: "memory_run av ops sane m h g \<Longrightarrow> memory_small m \<Longrightarrow> s \<in> set (memory_slices m) \<Longrightarrow>
    memory_written (sl_handle s) r m h g = (m', g') \<Longrightarrow> memory_run av ops sane m' h g'"
| fails: "memory_run av ops sane m h g \<Longrightarrow> memory_run av ops sane m h g'"
| others: "memory_run av ops sane m h g \<Longrightarrow> heap_ok h' \<Longrightarrow> frames (- group_handles (memory_pools m)) h h' \<Longrightarrow>
    memory_run av ops sane m h' g"
| user_new: "memory_run av ops sane m h g \<Longrightarrow> memory_run av ops sane m (snd (handle_new h)) g"
| user_clone: "memory_run av ops sane m h g \<Longrightarrow> memory_run av ops sane m (clone_handle i h) g"
| user_binding: "memory_run av ops sane m h g \<Longrightarrow> memory_run av ops sane m (binding i h) g"
| user_clone_binding: "memory_run av ops sane m h g \<Longrightarrow> memory_run av ops sane m (clone_binding i h) g"
| user_drop: "memory_run av ops sane m h g \<Longrightarrow> \<not> is_free h i \<Longrightarrow> memory_run av ops sane m (drop_handle i h) g"
| user_drop_binding: "memory_run av ops sane m h g \<Longrightarrow> \<not> is_free h i \<Longrightarrow> is_bound h i \<Longrightarrow>
    memory_run av ops sane m (drop_binding i h) g"

context compute_storage
begin

lemma memory_reserve_shown:
  fixes m :: "('f, 'st) memory"
  assumes ok: "memory_ok ids held sane m h" and r: "memory_reserve av ops False n update m h g = (r, m', h', g')"
  shows "reserves ops ids held sane n m h r m' h'"
    and "update = Forbidden \<Longrightarrow> mm_storage m' = mm_storage m \<and> (\<forall>e. r = Err e \<longrightarrow> e = PageUpdateForbidden n) \<and> r \<noteq> Panic"
proof -
  have "reserves ops ids held sane n m h r m' h' \<and>
    (update = Forbidden \<longrightarrow> mm_storage m' = mm_storage m \<and> (\<forall>e. r = Err e \<longrightarrow> e = PageUpdateForbidden n) \<and> r \<noteq> Panic)"
  proof (cases update)
    case Allow
    from memory_cleanup_shown [OF ok, of Periodic g] obtain m1 h1 g1 where
      c: "memory_cleanup ops Periodic m h g = Ok (m1, h1, g1)" "memory_step ids held sane m h m1 h1" "memory_live h1 m1 = memory_live h m"
      by blast
    have "reserve_adding av ops False n m1 h1 g1 = (r, m', h', g')" using r c(1) Allow by (simp add: memory_reserve_def)
    from reserves_after [OF c(2,3) reserve_adding_reserves [OF memory_step_ok [OF c(2)] this]] Allow show ?thesis by simp
  next
    case AddOnly
    with reserve_adding_reserves [OF ok] r show ?thesis by (simp add: memory_reserve_def)
  next
    case Forbidden
    from reserve_held_shown [OF ok, of av n g] obtain r1 m1 h1 g1 where
      t: "reserve_held av n m h g = Ok (r1, m1, h1, g1)" "memory_step ids held sane m h m1 h1" "mm_storage m1 = mm_storage m"
      "case r1 of Some x \<Rightarrow> one_more n x (memory_live h m) (memory_live h1 m1) | None \<Rightarrow> memory_live h1 m1 = memory_live h m"
      by blast
    show ?thesis using r t Forbidden by (cases r1) (auto simp: memory_reserve_def reserves_def)
  qed
  then show "reserves ops ids held sane n m h r m' h'"
    "update = Forbidden \<Longrightarrow> mm_storage m' = mm_storage m \<and> (\<forall>e. r = Err e \<longrightarrow> e = PageUpdateForbidden n) \<and> r \<noteq> Panic" by blast+
qed

lemma memory_taint_ok:
  assumes ok: "memory_ok ids held sane m h" "memory_small m" "s \<in> set (memory_slices m)"
  shows "memory_taint (sl_handle s) r f m h g = (m', g') \<Longrightarrow> memory_ok ids held sane m' h"
    "memory_written (sl_handle s) r m h g = (m', g') \<Longrightarrow> memory_ok ids held sane m' h"
proof -
  from memory_mut_shown [OF ok] obtain put where
    p: "memory_find_mut (sl_handle s) m h = Ok (s, put)" "\<And>t. memory_ok ids held sane (put (s\<lparr>sl_tainted := t\<rparr>)) h" by blast
  show "memory_taint (sl_handle s) r f m h g = (m', g') \<Longrightarrow> memory_ok ids held sane m' h"
    "memory_written (sl_handle s) r m h g = (m', g') \<Longrightarrow> memory_ok ids held sane m' h"
    using p by (auto simp: memory_taint_def memory_written_def split: prod.splits)
qed

lemma memory_run_ok:
  fixes m :: "('f, 'st) memory"
  assumes "memory_run av ops sane m h g"
  shows "memory_ok ids held sane m h"
  using assms
proof (induction rule: memory_run.induct)
  case (new h st p bf layout config option m g)
  from configured_ok [where sane = sane and st = st and ids = ids and held = held, OF new(3,1,2), of av bf layout config option] new(4)
  show ?case by auto
next
  case (reserve m h g n update r m' h' g')
  from memory_reserve_shown(1) [OF reserve.IH reserve.hyps(2)] reserve.hyps(3) show ?case
    by (cases r) (auto simp: reserves_def dest: memory_step_ok)
next
  case (cleanup m h g c m' h' g')
  from memory_cleanup_shown [OF cleanup.IH, of c g] cleanup.hyps(2) show ?case by (auto intro: memory_step_ok)
next
  case (bind m h g s i c m' h' g')
  from memory_bind_shown [OF bind.IH bind.hyps(2-5), of c g] bind.hyps(6) show ?case by auto
qed (auto intro: memory_mode_ok memory_taint_ok memory_others memory_users)

end

section \<open>Windows\<close>

definition windows :: "('f, 'st) memory \<Rightarrow> allocation_mode \<times> allocation_mode \<times> allocation_mode list \<times> persistent_config" where
  "windows m = (mm_mode m, mm_base_mode m, mm_windows m, mm_config m)"

text \<open>The mode is that of the innermost window.\<close>

definition windows_ok :: "('f, 'st) memory \<Rightarrow> bool" where
  "windows_ok m \<longleftrightarrow> mm_mode m = (if mm_windows m = [] then mm_base_mode m else last (mm_windows m))"

lemma windows_ok_cong: "windows m' = windows m \<Longrightarrow> windows_ok m' = windows_ok m"
  by (simp add: windows_def windows_ok_def)

lemma memory_put_windows: "windows (memory_put l q m) = windows m"
  by (cases q) (simp_all add: memory_put_def windows_def split: pool_position.splits)

lemma windows_fields [simp]:
  "windows (m\<lparr>mm_persistent := a\<rparr>) = windows m" "windows (m\<lparr>mm_dedicated := b\<rparr>) = windows m"
  "windows (m\<lparr>mm_pools := c\<rparr>) = windows m" "windows (m\<lparr>mm_storage := d\<rparr>) = windows m"
  "windows (m\<lparr>mm_alloc_reserve_count := k\<rparr>) = windows m"
  by (simp_all add: windows_def)

lemma reserve_adding_windows:
  assumes "reserve_adding av ops dry n m h g = (r, m', h', g')"
  shows "windows m' = windows m"
proof -
  have "windows (fst (snd (reserve_adding av ops dry n m h g))) = windows m"
    by (simp add: reserve_adding_def Let_def split: outcome.splits prod.splits option.splits)
  with assms show ?thesis by simp
qed

lemma reserve_held_windows: "reserve_held av n m h g = Ok (r, m', h', g') \<Longrightarrow> windows m' = windows m"
  by (cases "mm_mode m"; clarsimp simp: reserve_held_def Let_def split: option.split_asm; elim disjE exE conjE; clarsimp)

lemma memory_cleanup_windows: "memory_cleanup ops c m h g = Ok (m', h', g') \<Longrightarrow> windows m' = windows m"
  by (clarsimp simp: memory_cleanup_def Let_def split: prod.splits)

lemma memory_reserve_windows: "memory_reserve av ops dry n update m h g = (r, m', h', g') \<Longrightarrow> windows m' = windows m"
  by (auto simp: memory_reserve_def split: page_update.splits outcome.splits prod.splits
      dest!: reserve_adding_windows reserve_held_windows memory_cleanup_windows)

lemma memory_bind_windows: "memory_bind i j c m h g = Ok (m', h', g') \<Longrightarrow> windows m' = windows m"
  by (auto simp: memory_bind_def memory_put_windows split: prod.splits)

lemma memory_taint_windows:
  "memory_taint i r f m h g = (m', g') \<Longrightarrow> windows m' = windows m"
  "memory_written i r m h g = (m', g') \<Longrightarrow> windows m' = windows m"
  by (auto simp: memory_taint_def memory_written_def memory_find_mut_def memory_put_windows
      split: outcome.splits prod.splits)

lemma memory_mode_windows_ok: "windows_ok (memory_mode w m)"
  by (simp add: windows_ok_def memory_mode_def Let_def)

lemma memory_run_windows:
  assumes "memory_run av ops sane m h g"
  shows "windows_ok m"
  using assms
proof (induction rule: memory_run.induct)
  case (new h st p bf layout config option m g)
  then show ?case by (auto simp: from_configuration_def windows_ok_def Let_def)
qed (auto simp: memory_mode_windows_ok dest!: memory_reserve_windows memory_cleanup_windows memory_bind_windows
      memory_taint_windows dest: windows_ok_cong)

text \<open>Windows opened and closed in turn, whatever they hold.\<close>

inductive balanced :: "allocation_mode list \<Rightarrow> bool" where
  none: "balanced []"
| window: "w \<noteq> AutoMode \<Longrightarrow> balanced xs \<Longrightarrow> balanced ys \<Longrightarrow> balanced (w # xs @ AutoMode # ys)"

lemma memory_mode_close:
  assumes "windows_ok m" "w \<noteq> AutoMode"
  shows "memory_mode AutoMode (memory_mode w m) = m"
  using assms by (cases w) (simp_all add: memory_mode_def Let_def windows_ok_def)

lemma balanced_restores: "balanced ws \<Longrightarrow> windows_ok m \<Longrightarrow> fold memory_mode ws m = m"
proof (induction arbitrary: m rule: balanced.induct)
  case (window w xs ys)
  then show ?case by (simp add: memory_mode_windows_ok memory_mode_close)
qed simp

section \<open>What the memory of a stream promises\<close>

lemma apart_handles: "sorted_wrt bytes_apart ss \<Longrightarrow> distinct (map sl_handle ss)"
  by (induction ss) (auto simp: bytes_apart_def)

lemma memory_live_apart: "memory_ok ids held sane m h \<Longrightarrow> sorted_wrt bytes_apart (memory_live h m)"
  unfolding memory_ok_def memory_live_def by (elim conjE) (rule group_live_apart)

lemma one_more_fresh:
  assumes "one_more n x ls ls'" "distinct (map sl_handle ls')"
  shows "x \<notin> sl_handle ` set ls"
  using assms by (auto simp: one_more_def)


text \<open>C3: Reserving from the memory of a stream does what the page-update policy says: it gives
  a handle no live allocation has, adds one live allocation of the requested size to which that
  handle leads, and leaves every other live allocation alone; or it fails and leaves all of them
  alone, and under \<open>Forbidden\<close> the only failure is that a page would have been needed and the storage
  was not touched. It panics only where the storage does, and never under \<open>Forbidden\<close>.\<close>

theorem memory_reserves:
  assumes "compute_storage ops ids held sane" "memory_run av ops sane m h g"
    "memory_reserve av ops False n update m h g = (r, m', h', g')"
  shows "(case r of
      Ok x \<Rightarrow> one_more n x (memory_live h m) (memory_live h' m') \<and> x \<notin> sl_handle ` set (memory_live h m)
        \<and> (memory_small m' \<longrightarrow> (\<exists>s. memory_find x m' h' = Ok s \<and> sh_size (sl_storage s) = n))
    | Err e \<Rightarrow> memory_live h' m' = memory_live h m \<and> (update = Forbidden \<longrightarrow> e = PageUpdateForbidden n)
    | Panic \<Rightarrow> update \<noteq> Forbidden \<and> (\<exists>st. sane st \<and> storage_panics ops st))
    \<and> (update = Forbidden \<longrightarrow> mm_storage m' = mm_storage m)"
proof -
  note s = compute_storage.memory_reserve_shown [OF assms(1) compute_storage.memory_run_ok [OF assms(1,2)] assms(3)]
  show ?thesis
  proof (cases r)
    case (Ok x)
    then have step: "memory_step ids held sane m h m' h'" and one: "one_more n x (memory_live h m) (memory_live h' m')"
      using s(1) by (simp_all add: reserves_def)
    note ok' = memory_step_ok [OF step]
    from one_more_new [OF one] obtain t where t: "t \<in> set (memory_live h' m')" "sl_handle t = x" "sh_size (sl_storage t) = n" by blast
    have "memory_small m' \<longrightarrow> memory_find x m' h' = outcome.Ok t"
      using memory_found [OF ok', of t] t memory_live_slices by blast
    with t(3) one one_more_fresh [OF one apart_handles [OF memory_live_apart [OF ok']]] Ok s(2) show ?thesis by auto
  qed (use s in \<open>auto simp: reserves_def\<close>)
qed

text \<open>C6: Cleaning up the memory of a stream, periodically or on demand, never fails and loses no
  allocation: the live allocations are the same, at the same bytes, and each is still found.\<close>

theorem memory_cleanup_keeps:
  assumes "compute_storage ops ids held sane" "memory_run av ops sane m h g"
  shows "\<exists>m' h' g'. memory_cleanup ops c m h g = Ok (m', h', g') \<and> memory_live h' m' = memory_live h m
    \<and> (memory_small m' \<longrightarrow> (\<forall>s \<in> set (memory_live h m). memory_find (sl_handle s) m' h' = Ok s))"
proof -
  from compute_storage.memory_cleanup_shown [OF assms(1) compute_storage.memory_run_ok [OF assms], of c g] obtain m' h' g' where
    c: "memory_cleanup ops c m h g = Ok (m', h', g')" "memory_step ids held sane m h m' h'" "memory_live h' m' = memory_live h m"
    by blast
  have "memory_find (sl_handle s) m' h' = Ok s" if "memory_small m'" "s \<in> set (memory_live h m)" for s
    using memory_found [OF memory_step_ok [OF c(2)] that(1), of s] c(3) that(2) memory_live_slices [of h' m'] by auto
  with c(1,3) show ?thesis by blast
qed

text \<open>C4: Binding hands a reserved allocation to the handle of its buffer: it never fails, the new handle
  leads to the same bytes with no failure left on them, every other allocation is found as before,
  and the slice carries the cursor of the stream that bound it, unless the allocation is a
  dedicated one, which keeps the cursor it had.\<close>

theorem memory_binds:
  assumes "compute_storage ops ids held sane" "memory_run av ops sane m h g" "memory_small m" "s \<in> set (memory_live h m)"
    "i \<in> dom (descs h)" "i \<notin> group_handles (memory_pools m)"
  shows "\<exists>m' h' g' t. memory_bind (sl_handle s) i c m h g = Ok (m', h', g')
    \<and> memory_find i m' h' = Ok t \<and> sl_storage t = sl_storage s \<and> sl_tainted t = []
    \<and> sl_cursor t = (if loc_pool (location h (sl_handle s)) = dedicated_pool_pos then sl_cursor s else c)
    \<and> (\<forall>u \<in> set (memory_live h m). u \<noteq> s \<longrightarrow> memory_find (sl_handle u) m' h' = Ok u)"
proof -
  have sm: "s \<in> set (memory_slices m)" using assms(4) memory_live_slices by blast
  from memory_bind_shown [OF compute_storage.memory_run_ok [OF assms(1,2)] assms(3) sm assms(5,6), of c g] obtain m' h' g' t where
    b: "memory_bind (sl_handle s) i c m h g = Ok (m', h', g')" "memory_ok ids held sane m' h'" "memory_small m'"
    "replaced s t (memory_slices m) (memory_slices m')" "sl_handle t = i" "sl_storage t = sl_storage s" "sl_tainted t = []"
    "sl_cursor t = (if loc_pool (location h (sl_handle s)) = dedicated_pool_pos then sl_cursor s else c)" by blast
  note f = replaced_found [OF b(2-4)]
  have "memory_find (sl_handle u) m' h' = Ok u" if "u \<in> set (memory_live h m)" "u \<noteq> s" for u
    using f(2) that memory_live_slices by blast
  with b f(1) show ?thesis by auto
qed

text \<open>C5: What is known of the bytes of one allocation is told apart from all others through the whole
  memory: tainting a range of it makes every read inside the range name that failure, leaves the
  verdict on ranges beside it and on every other live allocation as it was, and writing the range
  makes reads inside it clean again.\<close>

theorem memory_taint_is_local:
  assumes "compute_storage ops ids held sane" "memory_run av ops sane m h g" "memory_small m" "s \<in> set (memory_live h m)"
    "taint_ok (sl_tainted s)" "memory_taint (sl_handle s) r f m h g = (m', g')" "memory_written (sl_handle s) r m h g = (w, k)"
  shows "(\<forall>x. bytes_of x \<noteq> {} \<and> bytes_of x \<subseteq> bytes_of r \<longrightarrow>
      memory_failure (sl_handle s) x m' h = Some f \<and> memory_failure (sl_handle s) x w h = None)
    \<and> (\<forall>x. bytes_of x \<inter> bytes_of r = {} \<longrightarrow>
      (memory_failure (sl_handle s) x m' h = None) = (memory_failure (sl_handle s) x m h = None)
      \<and> (memory_failure (sl_handle s) x w h = None) = (memory_failure (sl_handle s) x m h = None))
    \<and> (\<forall>u \<in> set (memory_live h m). u \<noteq> s \<longrightarrow> (\<forall>x. memory_failure (sl_handle u) x m' h = memory_failure (sl_handle u) x m h
      \<and> memory_failure (sl_handle u) x w h = memory_failure (sl_handle u) x m h))"
proof -
  note ok = compute_storage.memory_run_ok [OF assms(1,2)]
  have sm: "s \<in> set (memory_slices m)" using assms(4) memory_live_slices by blast
  let ?t = "fst (taint r f (sl_tainted s) g)" and ?w = "fst (written r (sl_tainted s) g)"
  from memory_mut_shown [OF ok assms(3) sm] obtain put where
    p: "memory_find_mut (sl_handle s) m h = Ok (s, put)" "\<And>t. memory_ok ids held sane (put (s\<lparr>sl_tainted := t\<rparr>)) h"
    "\<And>t. memory_small (put (s\<lparr>sl_tainted := t\<rparr>))"
    "\<And>t. replaced s (s\<lparr>sl_tainted := t\<rparr>) (memory_slices m) (memory_slices (put (s\<lparr>sl_tainted := t\<rparr>)))" by blast
  have m': "m' = put (s\<lparr>sl_tainted := ?t\<rparr>)" "w = put (s\<lparr>sl_tainted := ?w\<rparr>)"
    using assms(6,7) p(1) by (auto simp: memory_taint_def memory_written_def split: prod.splits)
  have found: "memory_find (sl_handle s) (put (s\<lparr>sl_tainted := t\<rparr>)) h = Ok (s\<lparr>sl_tainted := t\<rparr>)" for t
    using replaced_found(1) [OF p(2-4)] by simp
  have now: "memory_failure (sl_handle s) x m' h = failure_of ?t x" "memory_failure (sl_handle s) x w h = failure_of ?w x"
    "memory_failure (sl_handle s) x m h = failure_of (sl_tainted s) x" for x
    using found memory_found [OF ok assms(3) sm] by (simp_all add: m' memory_failure_def)
  have oks: "taint_ok ?t" "taint_ok ?w" using assms(5) by (simp_all add: taint_ok_taint taint_ok_written)
  note exact = failure_of_exact [OF oks(1)] failure_of_exact [OF oks(2)] failure_of_exact [OF assms(5)]
  have inside: "failure_of ?t x = Some f \<and> failure_of ?w x = None" if "bytes_of x \<noteq> {}" "bytes_of x \<subseteq> bytes_of r" for x
  proof -
    have c: "claim ?t b = Some f \<and> claim ?w b = None" if "b \<in> bytes_of x" for b
      using that \<open>bytes_of x \<subseteq> bytes_of r\<close> by (auto simp: claim_taint claim_written assms(5))
    from \<open>bytes_of x \<noteq> {}\<close> obtain b0 where b0: "b0 \<in> bytes_of x" by blast
    have "failure_of ?t x \<noteq> None"
    proof
      assume "failure_of ?t x = None"
      with exact(1) b0 have "claim ?t b0 = None" by blast
      with c [OF b0] show False by simp
    qed
    then obtain e where e: "failure_of ?t x = Some e" by blast
    with exact(1) obtain b where "b \<in> bytes_of x" "claim ?t b = Some e" by blast
    with c have "e = f" by simp
    moreover have "failure_of ?w x = None" using exact(2) c by simp
    ultimately show ?thesis using e by simp
  qed
  have beside: "(failure_of ?t x = None) = (failure_of (sl_tainted s) x = None)
      \<and> (failure_of ?w x = None) = (failure_of (sl_tainted s) x = None)" if "bytes_of x \<inter> bytes_of r = {}" for x
  proof -
    have "claim ?t b = claim (sl_tainted s) b \<and> claim ?w b = claim (sl_tainted s) b" if "b \<in> bytes_of x" for b
      using that \<open>bytes_of x \<inter> bytes_of r = {}\<close> by (auto simp: claim_taint claim_written assms(5))
    then show ?thesis using exact by simp
  qed
  have "memory_failure (sl_handle u) x m' h = memory_failure (sl_handle u) x m h
      \<and> memory_failure (sl_handle u) x w h = memory_failure (sl_handle u) x m h" if "u \<in> set (memory_live h m)" "u \<noteq> s" for u x
  proof -
    have um: "u \<in> set (memory_slices m)" using that(1) memory_live_slices by blast
    from replaced_found(2) [OF p(2-4) um that(2)] memory_found [OF ok assms(3) um] show ?thesis by (simp add: memory_failure_def m')
  qed
  with inside beside show ?thesis unfolding now by blast
qed

text \<open>C7: Allocation windows nest: opening and closing windows in turn, whatever is opened and closed
  inside, leaves the memory exactly as it was, and while a window is the innermost one, reservations
  follow it, except that a persistent window follows the configured mode where the configuration
  disables or enforces persistent memory.\<close>

theorem windows_nest:
  assumes "memory_run av ops sane m h g" "balanced ws" "w \<noteq> AutoMode"
  shows "fold memory_mode ws m = m \<and>
    mm_mode (fold memory_mode ws (memory_mode w m))
      = (if w = PersistentMode \<and> mm_config m \<in> {PersistentDisabled, PersistentEnforced} then mm_base_mode m else w) \<and>
    memory_mode AutoMode (fold memory_mode ws (memory_mode w m)) = m"
proof -
  note ok = memory_run_windows [OF assms(1)]
  have "fold memory_mode ws (memory_mode w m) = memory_mode w m"
    by (rule balanced_restores [OF assms(2) memory_mode_windows_ok])
  moreover have "mm_mode (memory_mode w m)
      = (if w = PersistentMode \<and> mm_config m \<in> {PersistentDisabled, PersistentEnforced} then mm_base_mode m else w)"
    using assms(3) by (cases w; cases "mm_config m") (simp_all add: memory_mode_def Let_def window_for_def)
  ultimately show ?thesis using balanced_restores [OF assms(2) ok] memory_mode_close [OF ok assms(3)] by simp
qed

section \<open>Two dedicated allocations\<close>

text \<open>\<open>reserve_held\<close> keeps the contract of a pool over the whole memory of the host.\<close>

interpretation host_memory: memory_pool "\<lambda>m h st. memory_ok bs_ids bs_held bs_sane m h \<and> mm_storage m = st" memory_small memory_live
  "reserve_held av" memory_find for av :: "'f average"
proof
  fix m :: "('f, bytes_storage) memory" and h st n g
  assume ok: "memory_ok bs_ids bs_held bs_sane m h \<and> mm_storage m = st"
  from host.reserve_held_shown [of m h av n g] ok obtain r m' h' g' where
    t: "reserve_held av n m h g = Ok (r, m', h', g')" "memory_step bs_ids bs_held bs_sane m h m' h'" "mm_storage m' = st"
    "case r of Some x \<Rightarrow> one_more n x (memory_live h m) (memory_live h' m') | None \<Rightarrow> memory_live h' m' = memory_live h m" by blast
  then show "\<exists>r m' h' g'. reserve_held av n m h g = Ok (r, m', h', g') \<and> (memory_ok bs_ids bs_held bs_sane m' h' \<and> mm_storage m' = st)
      \<and> (r = None \<longrightarrow> memory_live h' m' = memory_live h m) \<and> (\<forall>i. r = Some i \<longrightarrow> one_more n i (memory_live h m) (memory_live h' m'))"
    using memory_step_ok [OF t(2)] by (cases r) auto
next
  fix m :: "('f, bytes_storage) memory" and h st s
  assume "memory_ok bs_ids bs_held bs_sane m h \<and> mm_storage m = st" "memory_small m" "s \<in> set (memory_live h m)"
  with memory_found [of bs_ids bs_held bs_sane m h s] memory_live_slices [of h m] show "memory_find (sl_handle s) m h = Ok s" by blast
qed

definition demo_floats :: bucket_floats where
  "demo_floats = \<lparr>bf_size = \<lambda>_ _. 512, bf_period = \<lambda>_. 4\<rparr>"

definition demo_properties :: memory_properties where
  "demo_properties = \<lparr>mp_max_page_size = 1024, mp_alignment = 32, mp_max_memory = Some 4096\<rparr>"

definition demo_bucket :: "nat exclusive_pool" where
  "demo_bucket = \<lparr>xp_pages = [], xp_alignment = 32, xp_dealloc_period = 4, xp_last_dealloc_check = 0, xp_max_alloc_size = 512,
     xp_cur_avg_size = av_start flat_average 512, xp_base = location_new 0 0 0, xp_pages_peak = 0, xp_largest_alloc = 0\<rparr>"

definition demo_memory :: "(nat, bytes_storage) memory" where
  "demo_memory = \<lparr>mm_persistent = persistent_new 1024 32 persistent_pool_pos, mm_dedicated = direct_new 32 dedicated_pool_pos (Some 0),
     mm_pools = ExclusiveMemory [demo_bucket], mm_storage = bytes_storage_default, mm_alloc_reserve_count = 0,
     mm_mode = DedicatedMode, mm_base_mode = DedicatedMode, mm_windows = [], mm_config = PersistentEnabled\<rparr>"

lemma demo_configured:
  "from_configuration flat_average demo_floats bytes_storage_default demo_properties ExclusivePages PersistentEnabled (Provided DedicatedMode)
    = Ok demo_memory"
  by (simp add: from_configuration_def dynamic_new_def buckets_new_def bucket_sizes_def demo_floats_def demo_properties_def
      max_buckets_def map_replicate_const remdups_adj_replicate next_multiple_of_def exclusive_new_def Let_def configured_mode_def demo_memory_def demo_bucket_def)

definition demo_first :: "handle io \<times> (nat, bytes_storage) memory \<times> heap \<times> error_graph" where
  "demo_first = memory_reserve flat_average bytes_ops False 48 AddOnly demo_memory heap_empty graph_default"

definition demo_second :: "handle io \<times> (nat, bytes_storage) memory \<times> heap \<times> error_graph" where
  "demo_second = (case demo_first of (r, m, h, g) \<Rightarrow> memory_reserve flat_average bytes_ops False 100 AddOnly m h g)"

lemmas demo_defs = demo_first_def demo_second_def memory_reserve_def reserve_adding_def demo_memory_def direct_alloc_def direct_new_def
  mapping_current_def mapped_handle_def bytes_ops_def bs_alloc_def bs_mint_def next_grant_def bs_insert_def
  layout_fits_def bs_alignment_def bytes_storage_default_def Let_def slice_new_def handle_new_def heap_empty_def
  calculate_padding_def next_multiple_of_def

definition demo_slice :: "nat \<Rightarrow> nat \<Rightarrow> slice" where
  "demo_slice k n = \<lparr>sl_storage = \<lparr>sh_id = k, sh_offset = 0, sh_size = n\<rparr>, sl_handle = k, sl_padding = calculate_padding n 32,
     sl_cursor = 0, sl_mapped = True, sl_tainted = []\<rparr>"

definition demo_m :: "(nat, bytes_storage) memory" where
  "demo_m = fst (snd demo_second)"

definition demo_h :: heap where
  "demo_h = fst (snd (snd demo_second))"

lemma demo_results:
  "demo_first = (Ok 0, fst (snd demo_first), fst (snd (snd demo_first)), graph_default)"
  "demo_second = (Ok 1, demo_m, demo_h, graph_default)"
  by (simp_all add: demo_m_def demo_h_def) (simp_all add: demo_defs)

lemma demo_live: "memory_live demo_h demo_m = [demo_slice 0 48, demo_slice 1 100]"
  by (simp add: demo_m_def demo_h_def demo_defs memory_live_def memory_pools_def direct_live_def in_use_def persistent_new_def
      demo_bucket_def demo_slice_def clone_handle_def update_location_def slice_is_free_def is_free_def strong_count_def modify_def)

lemma demo_small: "memory_small demo_m"
  by (simp add: demo_m_def demo_defs memory_small_def memory_pools_def persistent_new_def demo_bucket_def)

lemma demo_runs:
  "memory_run flat_average bytes_ops bs_sane (fst (snd demo_first)) (fst (snd (snd demo_first))) graph_default"
  "memory_run flat_average bytes_ops bs_sane demo_m demo_h graph_default"
proof -
  have "memory_run flat_average bytes_ops bs_sane demo_memory heap_empty graph_default"
    by (rule memory_run.new [OF _ _ _ demo_configured])
      (simp_all add: heap_ok_def heap_empty_def bs_sane_def bytes_storage_default_def demo_properties_def)
  from memory_run.reserve [OF this, of 48 AddOnly] demo_results(1)
  show r: "memory_run flat_average bytes_ops bs_sane (fst (snd demo_first)) (fst (snd (snd demo_first))) graph_default"
    unfolding demo_first_def by (metis outcome.distinct(4) outcome.distinct(3))
  have "memory_reserve flat_average bytes_ops False 100 AddOnly (fst (snd demo_first)) (fst (snd (snd demo_first))) graph_default
      = (Ok 1, demo_m, demo_h, graph_default)"
    using demo_results(2) by (subst (asm) (1) demo_second_def, subst (asm) (1) demo_results(1)) simp
  from memory_run.reserve [OF r this] show "memory_run flat_average bytes_ops bs_sane demo_m demo_h graph_default" by simp
qed

lemma demo_in_live: "demo_slice 0 48 \<in> set (memory_live demo_h demo_m)" "demo_slice 1 100 \<in> set (memory_live demo_h demo_m)"
  by (simp_all add: demo_live)

lemma demo_slice_fields [simp]:
  "sl_handle (demo_slice k n) = k" "sl_tainted (demo_slice k n) = []" "sl_cursor (demo_slice k n) = 0"
  "sl_storage (demo_slice k n) = \<lparr>sh_id = k, sh_offset = 0, sh_size = n\<rparr>" "sl_mapped (demo_slice k n)"
  by (simp_all add: demo_slice_def)


theorem memory_reserves_witness:
  "fst demo_second = Ok 1 \<and> (\<exists>s. memory_find 1 demo_m demo_h = Ok s \<and> sh_size (sl_storage s) = 100)
    \<and> 1 \<notin> sl_handle ` set (memory_live (fst (snd (snd demo_first))) (fst (snd demo_first)))"
proof -
  have "memory_reserve flat_average bytes_ops False 100 AddOnly (fst (snd demo_first)) (fst (snd (snd demo_first))) graph_default
      = (Ok 1, demo_m, demo_h, graph_default)"
    using demo_results(2) by (subst (asm) (1) demo_second_def, subst (asm) (1) demo_results(1)) simp
  moreover have "fst demo_second = Ok 1" using demo_results(2) by (metis fst_conv)
  ultimately show ?thesis using memory_reserves [OF host.compute_storage_axioms demo_runs(1)] demo_small by fastforce
qed

theorem memory_cleanup_keeps_witness:
  "\<exists>m' h' g'. memory_cleanup bytes_ops Explicit demo_m demo_h graph_default = Ok (m', h', g')
    \<and> memory_live h' m' = [demo_slice 0 48, demo_slice 1 100]"
  using memory_cleanup_keeps [OF host.compute_storage_axioms demo_runs(2), of Explicit] demo_live by metis

theorem memory_binds_witness:
  "\<exists>m' h' g' t. memory_bind 0 2 7 demo_m (snd (handle_new demo_h)) graph_default = Ok (m', h', g')
    \<and> memory_find 2 m' h' = Ok t \<and> sl_cursor t = 0"
proof -
  let ?h = "snd (handle_new demo_h)"
  have "memory_live ?h demo_m = [demo_slice 0 48, demo_slice 1 100]" "2 \<in> dom (descs ?h)"
    "loc_pool (location ?h 0) = dedicated_pool_pos" "2 \<notin> group_handles (memory_pools demo_m)"
    by (simp_all add: demo_m_def demo_h_def demo_defs memory_live_def memory_pools_def direct_live_def in_use_def persistent_new_def
      demo_bucket_def demo_slice_def clone_handle_def update_location_def slice_is_free_def is_free_def strong_count_def modify_def
      location_def from_to_bits location_new_def)
  then show ?thesis
    using memory_binds [OF host.compute_storage_axioms memory_run.user_new [OF demo_runs(2)] demo_small, of "demo_slice 0 48" 2 7]
    by auto
qed

theorem memory_taint_is_local_witness:
  "memory_failure 0 (2, 4) (fst (memory_taint 0 (0, 10) 3 demo_m demo_h graph_default)) demo_h = Some 3
    \<and> memory_failure 1 (2, 4) (fst (memory_taint 0 (0, 10) 3 demo_m demo_h graph_default)) demo_h = memory_failure 1 (2, 4) demo_m demo_h"
proof -
  have "taint_ok (sl_tainted (demo_slice 0 48))" by (simp add: taint_ok_def)
  from memory_taint_is_local [OF host.compute_storage_axioms demo_runs(2) demo_small demo_in_live(1) this
      prod.collapse [symmetric] prod.collapse [symmetric], where r = "(0, 10)" and f = 3]
  have "bytes_of (2, 4) \<noteq> {} \<and> bytes_of (2, 4) \<subseteq> bytes_of (0, 10) \<longrightarrow>
      memory_failure 0 (2, 4) (fst (memory_taint 0 (0, 10) 3 demo_m demo_h graph_default)) demo_h = Some 3"
    "demo_slice 1 100 \<noteq> demo_slice 0 48 \<longrightarrow> memory_failure 1 (2, 4) (fst (memory_taint 0 (0, 10) 3 demo_m demo_h graph_default)) demo_h
      = memory_failure 1 (2, 4) demo_m demo_h"
    using demo_in_live(2) by force+
  then show ?thesis by (simp add: bytes_of_def demo_slice_def)
qed

theorem windows_nest_witness:
  "fold memory_mode [DedicatedMode, AutoMode] demo_m = demo_m
    \<and> mm_mode (fold memory_mode [DedicatedMode, AutoMode] (memory_mode PersistentMode demo_m)) = PersistentMode"
proof -
  have "balanced (DedicatedMode # [] @ AutoMode # [])" by (rule balanced.window) (simp_all add: balanced.none)
  moreover have "mm_config demo_m = PersistentEnabled" by (simp add: demo_m_def demo_defs)
  ultimately show ?thesis
    using windows_nest [OF demo_runs(2), of "[DedicatedMode, AutoMode]" PersistentMode] by simp
qed

end
