(* ===== verification/Host_Stream.thy ===== *)
theory Host_Stream
  imports Write_Scope Memory_Runs
begin

text \<open>
  The memory of a CPU stream (\<open>cubecl-cpu/src/compute/stream.rs\<close>, \<open>impl StreamMemory\<close>): a binding is
  looked up in the stream's memory management and its range is claimed or released there. The
  contract \<open>stream_memory\<close> is discharged on it, over the host storage.
\<close>

definition cpu_failure :: "heap \<Rightarrow> buffer_binding \<Rightarrow> ('f, 'st) memory \<Rightarrow> failure_id option" where
  "cpu_failure h b m = memory_failure (bb_memory b) (binding_range b) m h"

definition cpu_taint ::
  "heap \<Rightarrow> buffer_binding \<Rightarrow> failure_id \<Rightarrow> ('f, 'st) memory \<Rightarrow> error_graph \<Rightarrow> ('f, 'st) memory \<times> error_graph" where
  "cpu_taint h b f m g = memory_taint (bb_memory b) (binding_range b) f m h g"

definition cpu_written ::
  "heap \<Rightarrow> buffer_binding \<Rightarrow> ('f, 'st) memory \<Rightarrow> error_graph \<Rightarrow> ('f, 'st) memory \<times> error_graph" where
  "cpu_written h b m g = memory_written (bb_memory b) (binding_range b) m h g"

definition cpu_memory_ops :: "('f, 'st) memory memory_ops" where
  "cpu_memory_ops = \<lparr>sm_failure = cpu_failure, sm_taint = cpu_taint, sm_written = cpu_written\<rparr>"

section \<open>The graph under a taint\<close>

lemma errors_kept_untag: "1 \<le> tags g f \<Longrightarrow> errors_kept g (untag (Some f) g)"
  by (auto simp: errors_kept_def untag_def tags_def is_held_def graph_error_def split: option.splits if_splits)

lemma errors_kept_tag: "is_held g f \<Longrightarrow> errors_kept g (tag f g)"
  by (auto simp: errors_kept_def tag_def tags_def is_held_def graph_error_def split: option.splits if_splits)

lemma errors_kept_release: "\<forall>f. count_list fs f \<le> tags g f \<Longrightarrow> errors_kept g (graph.release fs g)"
proof (induction fs arbitrary: g)
  case Nil
  then show ?case by (simp add: errors_kept_refl)
next
  case (Cons f fs)
  have "1 \<le> tags g f" using Cons.prems [THEN spec, of f] by simp
  moreover have "\<forall>x. count_list fs x \<le> tags (untag (Some f) g) x"
  proof
    fix x
    show "count_list fs x \<le> tags (untag (Some f) g) x"
      using Cons.prems [THEN spec, of x] by (auto simp: graph.count_dec split: if_splits)
  qed
  ultimately show ?case using Cons.IH errors_kept_untag errors_kept_trans by (simp only: graph.release_simps) blast
qed

lemma cut_tallied:
  assumes "\<forall>x. carried es x \<le> tags g x"
  shows "count_list (map t_failure (filter (\<lambda>e. t_ranges (cut_entry sp gap e) = []) es)) x \<le> tags g x"
  using carried_retain [of es x sp gap] assms [THEN spec, of x] by linarith

lemma taint_errors:
  assumes "taint_ok es" "\<forall>x. carried es x \<le> tags g x" "is_held g f"
  shows "errors_kept g (snd (taint r f es g)) \<and> is_held (snd (taint r f es g)) f"
proof (cases "fst r < snd r")
  case True
  define fs where "fs = map t_failure (filter (\<lambda>e. t_ranges (cut_entry (\<lambda>e. t_failure e = f) r e) = []) es)"
  have "f \<notin> set fs" using assms(1) by (auto simp: fs_def cut_entry_def taint_ok_def split: if_splits)
  then have held: "is_held (graph.release fs g) f" using assms(3) by (simp add: graph.held_release)
  have rel: "errors_kept g (graph.release fs g)"
    by (rule errors_kept_release) (simp only: fs_def cut_tallied [OF assms(2)] simp_thms)
  show ?thesis
    unfolding taint_cases [OF assms(1) True refl refl, of f g, folded fs_def]
    using held rel errors_kept_trans [OF rel errors_kept_tag [OF held]] graph.held_inc [OF held] by simp
next
  case False
  with assms show ?thesis by (simp add: taint_empty errors_kept_refl)
qed

lemma written_errors:
  assumes "taint_ok es" "\<forall>x. carried es x \<le> tags g x"
  shows "errors_kept g (snd (written r es g))"
proof (cases "fst r < snd r")
  case True
  then have "snd (written r es g) = graph.release (map t_failure (filter (\<lambda>e. t_ranges (cut_entry (\<lambda>_. False) r e) = []) es)) g"
    using assms(1) nonempty_range [of r] by (simp add: written_def retain_cut_eq taint_ok_def)
  moreover have "errors_kept g (graph.release (map t_failure (filter (\<lambda>e. t_ranges (cut_entry (\<lambda>_. False) r e) = []) es)) g)"
    by (rule errors_kept_release) (simp only: cut_tallied [OF assms(2)] simp_thms)
  ultimately show ?thesis by simp
next
  case False
  then show ?thesis by (simp add: written_empty errors_kept_refl)
qed

section \<open>The slices of a memory\<close>

definition slice_claim :: "('f, 'st) memory \<Rightarrow> handle \<Rightarrow> nat \<Rightarrow> failure_id option" where
  "slice_claim m i x = (case find (\<lambda>s. sl_handle s = i) (memory_slices m) of None \<Rightarrow> None | Some s \<Rightarrow> claim (sl_tainted s) x)"

definition slice_carries :: "('f, 'st) memory \<Rightarrow> failure_id \<Rightarrow> nat" where
  "slice_carries m f = sum_list (map (\<lambda>s. carried (sl_tainted s) f) (memory_slices m))"

definition has_slice :: "('f, 'st) memory \<Rightarrow> handle \<Rightarrow> bool" where
  "has_slice m i \<longleftrightarrow> (\<exists>s \<in> set (memory_slices m). sl_handle s = i)"

definition sound_memory :: "heap \<Rightarrow> ('f, bytes_storage) memory \<Rightarrow> bool" where
  "sound_memory h m \<longleftrightarrow> memory_ok bs_ids bs_held bs_sane m h \<and> memory_small m \<and> (\<forall>s \<in> set (memory_slices m). taint_ok (sl_tainted s))"

text \<open>A handle names one slice, so any slice with it is the one a lookup finds.\<close>

lemma slice_unique:
  assumes "sound_memory h m" "s \<in> set (memory_slices m)" "u \<in> set (memory_slices m)" "sl_handle u = sl_handle s"
  shows "u = s"
  using memory_found [of bs_ids bs_held bs_sane m h s] memory_found [of bs_ids bs_held bs_sane m h u] assms
  by (simp add: sound_memory_def)

lemma slice_claim_eq:
  assumes "sound_memory h m" "s \<in> set (memory_slices m)"
  shows "slice_claim m (sl_handle s) x = claim (sl_tainted s) x"
proof -
  obtain u where u: "find (\<lambda>u. sl_handle u = sl_handle s) (memory_slices m) = Some u"
    using assms(2) by (cases "find (\<lambda>u. sl_handle u = sl_handle s) (memory_slices m)") (auto simp: find_None_iff)
  then have "u = s" using slice_unique [OF assms] by (auto simp: find_Some_iff)
  with u show ?thesis by (simp add: slice_claim_def)
qed

lemma cpu_failure_eq:
  assumes "sound_memory h m" "s \<in> set (memory_slices m)" "sl_handle s = bb_memory b"
  shows "cpu_failure h b m = failure_of (sl_tainted s) (binding_range b)"
  using memory_found [of bs_ids bs_held bs_sane m h s] assms by (simp add: sound_memory_def cpu_failure_def memory_failure_def)

lemma carries_member: "s \<in> set (memory_slices m) \<Longrightarrow> carried (sl_tainted s) f \<le> slice_carries m f"
  unfolding slice_carries_def by (rule member_le_sum_list) auto

text \<open>
  Retainting one slice: what the lookup hands out is that slice, the memory it is put back into is
  sound, keeps every other slice, and its claims and carriers change by that slice alone.
\<close>

lemma retaint:
  assumes m: "sound_memory h m" and s: "s \<in> set (memory_slices m)"
  obtains put where "memory_find_mut (sl_handle s) m h = Ok (s, put)"
    "\<And>t. taint_ok t \<Longrightarrow> sound_memory h (put (s\<lparr>sl_tainted := t\<rparr>)) \<and> has_slice (put (s\<lparr>sl_tainted := t\<rparr>)) = has_slice m \<and>
      (\<forall>i x. has_slice m i \<longrightarrow> slice_claim (put (s\<lparr>sl_tainted := t\<rparr>)) i x = (if i = sl_handle s then claim t x else slice_claim m i x)) \<and>
      (\<forall>f. slice_carries (put (s\<lparr>sl_tainted := t\<rparr>)) f + carried (sl_tainted s) f = slice_carries m f + carried t f)"
proof -
  from memory_mut_shown [of bs_ids bs_held bs_sane m h s] m s obtain put where p: "memory_find_mut (sl_handle s) m h = Ok (s, put)"
    "\<And>t. memory_ok bs_ids bs_held bs_sane (put (s\<lparr>sl_tainted := t\<rparr>)) h" "\<And>t. memory_small (put (s\<lparr>sl_tainted := t\<rparr>))"
    "\<And>t. replaced s (s\<lparr>sl_tainted := t\<rparr>) (memory_slices m) (memory_slices (put (s\<lparr>sl_tainted := t\<rparr>)))"
    by (auto simp: sound_memory_def)
  have "sound_memory h (put (s\<lparr>sl_tainted := t\<rparr>)) \<and> has_slice (put (s\<lparr>sl_tainted := t\<rparr>)) = has_slice m \<and>
      (\<forall>i x. has_slice m i \<longrightarrow> slice_claim (put (s\<lparr>sl_tainted := t\<rparr>)) i x = (if i = sl_handle s then claim t x else slice_claim m i x)) \<and>
      (\<forall>f. slice_carries (put (s\<lparr>sl_tainted := t\<rparr>)) f + carried (sl_tainted s) f = slice_carries m f + carried t f)"
    if t: "taint_ok t" for t
  proof -
    let ?s = "s\<lparr>sl_tainted := t\<rparr>" and ?m = "put (s\<lparr>sl_tainted := t\<rparr>)"
    note rs = replaced_set [OF p(4), of t]
    obtain as bs where ab: "memory_slices m = as @ s # bs" "memory_slices ?m = as @ ?s # bs"
      using p(4) [of t] by (auto simp: replaced_def)
    have snd: "sound_memory h ?m"
      using m p(2,3) rs t by (auto simp: sound_memory_def)
    have hs: "has_slice ?m = has_slice m" unfolding has_slice_def ab by auto
    have cl: "slice_claim ?m i x = (if i = sl_handle s then claim t x else slice_claim m i x)" if "has_slice m i" for i x
    proof (cases "i = sl_handle s")
      case True
      then show ?thesis using slice_claim_eq [OF snd, of ?s x] rs by simp
    next
      case False
      with that obtain u where u: "u \<in> set (memory_slices m)" "sl_handle u = i" "u \<noteq> s" by (auto simp: has_slice_def)
      then have "u \<in> set (memory_slices ?m)" unfolding ab by auto
      with u False show ?thesis using slice_claim_eq [OF snd, of u x] slice_claim_eq [OF m u(1), of x] by simp
    qed
    have "slice_carries ?m f + carried (sl_tainted s) f = slice_carries m f + carried t f" for f
      unfolding slice_carries_def ab by simp
    with snd hs cl show ?thesis by blast
  qed
  with p(1) that show ?thesis by blast
qed

lemma range_claims:
  assumes "taint_ok es"
  shows "failure_of es r = None \<longleftrightarrow> (\<forall>x \<in> bytes_of r. claim es x = None)"
    and "failure_of es r = Some f \<Longrightarrow> \<exists>x \<in> bytes_of r. claim es x = Some f"
  using failure_of_exact [OF assms] by blast+

lemma carried_claims: "taint_ok es \<Longrightarrow> claim es x = Some f \<Longrightarrow> 0 < carried es f"
proof -
  assume ok: "taint_ok es" and c: "claim es x = Some f"
  have "x \<in> own es f" using ok c claim_own [of es x f] by (auto simp: taint_ok_def)
  then have "f \<in> set (map t_failure es)" using own_absent [of f es] by auto
  with ok show ?thesis by (simp add: carried_distinct taint_ok_def)
qed

lemma claims_carried: "taint_ok es \<Longrightarrow> 0 < carried es f \<Longrightarrow> \<exists>x. claim es x = Some f"
proof -
  assume ok: "taint_ok es" and c: "0 < carried es f"
  then have "f \<in> set (map t_failure es)" by (auto simp: carried_distinct taint_ok_def split: if_splits)
  then obtain e where e: "e \<in> set es" "t_failure e = f" by auto
  have "ranges_ok (t_ranges e)" "t_ranges e \<noteq> []" using ok e(1) by (auto simp: taint_ok_def)
  then obtain r where "r \<in> set (t_ranges e)" "fst r < snd r" by (cases "t_ranges e") auto
  then have "fst r \<in> own es f" using e by (auto simp: own_def covers_def bytes_of_def)
  with ok show ?thesis using claim_own [of es "fst r" f] by (auto simp: taint_ok_def)
qed

interpretation cpu: stream_memory cpu_memory_ops sound_memory "\<lambda>h. has_slice" slice_claim slice_carries
proof unfold_locales
  fix h and m :: "('f, bytes_storage) memory" and b :: buffer_binding
  assume m: "sound_memory h m" and o: "has_slice m (bb_memory b)"
  then obtain s where s: "s \<in> set (memory_slices m)" "sl_handle s = bb_memory b" by (auto simp: has_slice_def)
  have t: "taint_ok (sl_tainted s)" using m s(1) by (auto simp: sound_memory_def)
  note c = slice_claim_eq [OF m s(1), unfolded s(2)]
  note fl = cpu_failure_eq [OF m s]
  show "sm_failure cpu_memory_ops h b m = None \<longleftrightarrow> (\<forall>x \<in> binding_bytes b. slice_claim m (bb_memory b) x = None)"
    using range_claims(1) [OF t] by (simp add: cpu_memory_ops_def fl c binding_bytes_def)
  show "\<exists>x \<in> binding_bytes b. slice_claim m (bb_memory b) x = Some f" if "sm_failure cpu_memory_ops h b m = Some f" for f
    using range_claims(2) [OF t] that by (simp add: cpu_memory_ops_def fl c binding_bytes_def)
  obtain put where put: "memory_find_mut (sl_handle s) m h = Ok (s, put)"
    "\<And>t. taint_ok t \<Longrightarrow> sound_memory h (put (s\<lparr>sl_tainted := t\<rparr>)) \<and> has_slice (put (s\<lparr>sl_tainted := t\<rparr>)) = has_slice m \<and>
      (\<forall>i x. has_slice m i \<longrightarrow> slice_claim (put (s\<lparr>sl_tainted := t\<rparr>)) i x = (if i = sl_handle s then claim t x else slice_claim m i x)) \<and>
      (\<forall>f. slice_carries (put (s\<lparr>sl_tainted := t\<rparr>)) f + carried (sl_tainted s) f = slice_carries m f + carried t f)"
    using retaint [OF m s(1)] by blast
  have cs: "carried (sl_tainted s) x \<le> tags g x" if "\<forall>x. slice_carries m x \<le> tags g x" for g x
    using carries_member [OF s(1), of x] that le_trans by blast
  show "sound_memory h s' \<and> has_slice s' = has_slice m \<and> (\<forall>i x. has_slice m i \<longrightarrow> slice_claim s' i x =
      (if i = bb_memory b \<and> x \<in> binding_bytes b then Some f else slice_claim m i x))"
    if "sm_taint cpu_memory_ops h b f m g = (s', g')" for f g s' g'
  proof -
    have "s' = put (s\<lparr>sl_tainted := fst (taint (binding_range b) f (sl_tainted s) g)\<rparr>)"
      using that put(1) s(2) by (auto simp: cpu_memory_ops_def cpu_taint_def memory_taint_def split: prod.splits)
    with put(2) [OF taint_ok_taint [OF t], of "binding_range b" f g] s(2) c show ?thesis
      by (simp add: claim_taint [OF t] binding_bytes_def)
  qed
  show "errors_kept g g' \<and> is_held g' f \<and> (\<forall>x. tags g' x + slice_carries m x = tags g x + slice_carries s' x)"
    if a: "sm_taint cpu_memory_ops h b f m g = (s', g')" "\<forall>x. slice_carries m x \<le> tags g x" "is_held g f" for f g s' g'
  proof -
    let ?t = "taint (binding_range b) f (sl_tainted s) g"
    have g': "g' = snd ?t" "s' = put (s\<lparr>sl_tainted := fst ?t\<rparr>)"
      using a(1) put(1) s(2) by (auto simp: cpu_memory_ops_def cpu_taint_def memory_taint_def split: prod.splits)
    have k: "\<forall>x. carried (sl_tainted s) x \<le> tags g x" using cs [OF a(2)] by blast
    have "tags g' x + slice_carries m x = tags g x + slice_carries s' x" for x
    proof -
      have "slice_carries s' x + carried (sl_tainted s) x = slice_carries m x + carried (fst ?t) x"
        using put(2) [OF taint_ok_taint [OF t], of "binding_range b" f g] unfolding g' by blast
      with taint_tags(1) [OF t k a(3), of "binding_range b" x] show ?thesis unfolding g'(1) by linarith
    qed
    with taint_errors [OF t k a(3)] show ?thesis unfolding g'(1) by blast
  qed
  show "sound_memory h s' \<and> has_slice s' = has_slice m \<and> (\<forall>i x. has_slice m i \<longrightarrow> slice_claim s' i x =
      (if i = bb_memory b \<and> x \<in> binding_bytes b then None else slice_claim m i x))"
    if "sm_written cpu_memory_ops h b m g = (s', g')" for g s' g'
  proof -
    have "s' = put (s\<lparr>sl_tainted := fst (written (binding_range b) (sl_tainted s) g)\<rparr>)"
      using that put(1) s(2) by (auto simp: cpu_memory_ops_def cpu_written_def memory_written_def split: prod.splits)
    with put(2) [OF taint_ok_written [OF t], of "binding_range b" g] s(2) c show ?thesis
      by (simp add: claim_written [OF t] binding_bytes_def)
  qed
  show "errors_kept g g' \<and> (\<forall>x. tags g' x + slice_carries m x = tags g x + slice_carries s' x)"
    if a: "sm_written cpu_memory_ops h b m g = (s', g')" "\<forall>x. slice_carries m x \<le> tags g x" for g s' g'
  proof -
    let ?t = "written (binding_range b) (sl_tainted s) g"
    have g': "g' = snd ?t" "s' = put (s\<lparr>sl_tainted := fst ?t\<rparr>)"
      using a(1) put(1) s(2) by (auto simp: cpu_memory_ops_def cpu_written_def memory_written_def split: prod.splits)
    have k: "\<forall>x. carried (sl_tainted s) x \<le> tags g x" using cs [OF a(2)] by blast
    have "tags g' x + slice_carries m x = tags g x + slice_carries s' x" for x
    proof -
      have "slice_carries s' x + carried (sl_tainted s) x = slice_carries m x + carried (fst ?t) x"
        using put(2) [OF taint_ok_written [OF t], of "binding_range b" g] unfolding g' by blast
      with written_tags(1) [OF t k, of "binding_range b" x] show ?thesis unfolding g'(1) by linarith
    qed
    with written_errors [OF t k] show ?thesis unfolding g'(1) by blast
  qed
next
  fix h and m :: "('f, bytes_storage) memory" and i x f
  assume m: "sound_memory h m"
  show "0 < slice_carries m f" if "has_slice m i" "slice_claim m i x = Some f"
  proof -
    from that(1) obtain s where s: "s \<in> set (memory_slices m)" "sl_handle s = i" by (auto simp: has_slice_def)
    have "taint_ok (sl_tainted s)" using m s(1) by (auto simp: sound_memory_def)
    with that(2) slice_claim_eq [OF m s(1)] s(2) have "0 < carried (sl_tainted s) f" by (auto intro: carried_claims)
    with carries_member [OF s(1), of f] show ?thesis by linarith
  qed
  show "\<exists>i x. has_slice m i \<and> slice_claim m i x = Some f" if "0 < slice_carries m f"
  proof -
    have "\<exists>s \<in> set (memory_slices m). 0 < carried (sl_tainted s) f"
    proof (rule ccontr)
      assume "\<not> ?thesis"
      then have "slice_carries m f = 0" by (simp add: slice_carries_def sum_list_eq_0_iff)
      with that show False by simp
    qed
    then obtain s where s: "s \<in> set (memory_slices m)" "0 < carried (sl_tainted s) f" by blast
    have "taint_ok (sl_tainted s)" using m s(1) by (auto simp: sound_memory_def)
    from claims_carried [OF this s(2)] slice_claim_eq [OF m s(1)] s(1) show ?thesis by (force simp: has_slice_def)
  qed
qed

end
