(* ===== verification/Metadata_Cache.thy ===== *)
theory Metadata_Cache
  imports Prelude "HOL-Library.AList"
begin

text \<open>
  The cache of metadata info buffers (\<open>cubecl-server/src/metadata_cache.rs\<close>): buffers keyed by the
  words they were built from, evicted least recently used first, and pinned by the captured graphs
  that recorded them. The hash maps are association lists with distinct keys, in the order of
  insertion; where the code depends on the order of a hash map (the victim among entries used at
  the same tick) the model takes the first. The clock and the lock counts are unbounded.

  \<open>cache_step\<close> is what a backend does with a cache: look up and store on a miss, commit or discard
  a capture, release a graph, drop what is unpinned.
\<close>

type_synonym info_cache_key = "nat list"
type_synonym graph_id = nat

datatype cache_mode = NormalCache | CaptureCache

record cache_policy =
  max_entries :: nat
  max_cached_size :: nat
  cp_mode :: cache_mode

record 'v cache_entry =
  ce_value :: 'v
  last_used :: nat
  locks :: nat

datatype 'v info_lookup = Hit 'v | Build bool

record 'v info_cache =
  mc_entries :: "(info_cache_key \<times> 'v cache_entry) list"
  mc_policy :: cache_policy
  mc_clock :: nat
  mc_pending :: "info_cache_key list"
  mc_graph_locks :: "(graph_id \<times> info_cache_key list) list"

section \<open>The policy\<close>

definition policy_new :: "nat \<Rightarrow> nat \<Rightarrow> cache_policy" where
  "policy_new n sz = \<lparr>max_entries = n, max_cached_size = sz, cp_mode = NormalCache\<rparr>"

definition policy_default :: cache_policy where
  "policy_default = policy_new 4096 2048"

definition policy_set_mode :: "cache_mode \<Rightarrow> cache_policy \<Rightarrow> cache_policy" where
  "policy_set_mode md p = p\<lparr>cp_mode := md\<rparr>"

definition policy_should_cache :: "cache_policy \<Rightarrow> nat \<Rightarrow> bool" where
  "policy_should_cache p sz = (case cp_mode p of
     CaptureCache \<Rightarrow> True | NormalCache \<Rightarrow> 0 < max_entries p \<and> sz \<le> max_cached_size p)"

definition policy_capacity :: "cache_policy \<Rightarrow> nat option" where
  "policy_capacity p = (case cp_mode p of CaptureCache \<Rightarrow> None | NormalCache \<Rightarrow> Some (max_entries p))"

definition pins_entries :: "cache_policy \<Rightarrow> bool" where
  "pins_entries p \<longleftrightarrow> cp_mode p = CaptureCache"

section \<open>The cache\<close>

definition cache_new :: "cache_policy \<Rightarrow> 'v info_cache" where
  "cache_new p = \<lparr>mc_entries = [], mc_policy = p, mc_clock = 0, mc_pending = [], mc_graph_locks = []\<rparr>"

definition cache_set_mode :: "cache_mode \<Rightarrow> 'v info_cache \<Rightarrow> 'v info_cache" where
  "cache_set_mode md c = c\<lparr>mc_policy := policy_set_mode md (mc_policy c)\<rparr>"

definition cache_should_cache :: "'v info_cache \<Rightarrow> nat \<Rightarrow> bool" where
  "cache_should_cache c = policy_should_cache (mc_policy c)"

definition cache_len :: "'v info_cache \<Rightarrow> nat" where
  "cache_len c = length (mc_entries c)"

definition cache_clear :: "'v info_cache \<Rightarrow> 'v info_cache" where
  "cache_clear c = c\<lparr>mc_entries := []\<rparr>"

definition clear_unpinned :: "'v info_cache \<Rightarrow> 'v info_cache" where
  "clear_unpinned c = c\<lparr>mc_entries := filter (\<lambda>(k, e). 0 < locks e) (mc_entries c)\<rparr>"

definition cache_get :: "info_cache_key \<Rightarrow> 'v info_cache \<Rightarrow> 'v option \<times> 'v info_cache" where
  "cache_get k c =
     (let c = c\<lparr>mc_clock := mc_clock c + 1\<rparr>;
          pin = pins_entries (mc_policy c) \<and> k \<notin> set (mc_pending c)
      in case map_of (mc_entries c) k of
           None \<Rightarrow> (None, c)
         | Some e \<Rightarrow> (Some (ce_value e),
             c\<lparr>mc_entries := AList.update k (e\<lparr>last_used := mc_clock c, locks := locks e + (if pin then 1 else 0)\<rparr>) (mc_entries c),
               mc_pending := (if pin then k # mc_pending c else mc_pending c)\<rparr>))"

definition cache_lookup :: "cache_mode \<Rightarrow> info_cache_key \<Rightarrow> 'v info_cache \<Rightarrow> 'v info_lookup \<times> 'v info_cache" where
  "cache_lookup md ws c =
     (let c = cache_set_mode md c
      in if \<not> cache_should_cache c (8 * length ws) then (Build False, c)
         else (case cache_get ws c of (Some v, c) \<Rightarrow> (Hit v, c) | (None, c) \<Rightarrow> (Build True, c)))"

text \<open>\<open>min_by_key\<close> over the entries no graph pins: the first of the least recently used.\<close>

fun oldest :: "(info_cache_key \<times> 'v cache_entry) list \<Rightarrow> (info_cache_key \<times> nat) option" where
  "oldest [] = None"
| "oldest ((k, e) # es) = (case oldest es of
     None \<Rightarrow> Some (k, last_used e)
   | Some (k', t) \<Rightarrow> if last_used e \<le> t then Some (k, last_used e) else Some (k', t))"

definition evict_lru :: "'v info_cache \<Rightarrow> 'v info_cache" where
  "evict_lru c = (case oldest (filter (\<lambda>(k, e). locks e = 0) (mc_entries c)) of
     None \<Rightarrow> c | Some (k, t) \<Rightarrow> c\<lparr>mc_entries := AList.delete k (mc_entries c)\<rparr>)"

definition insert_entry :: "info_cache_key \<Rightarrow> 'v \<Rightarrow> 'v info_cache \<Rightarrow> 'v info_cache" where
  "insert_entry k v c =
     (if pins_entries (mc_policy c) then
        c\<lparr>mc_pending := List.insert k (mc_pending c),
          mc_entries := AList.update k \<lparr>ce_value = v, last_used = mc_clock c, locks = 1\<rparr> (mc_entries c)\<rparr>
      else c\<lparr>mc_entries := AList.update k \<lparr>ce_value = v, last_used = mc_clock c, locks = 0\<rparr> (mc_entries c)\<rparr>)"

definition cache_insert :: "info_cache_key \<Rightarrow> 'v \<Rightarrow> 'v info_cache \<Rightarrow> 'v info_cache" where
  "cache_insert k v c = (case policy_capacity (mc_policy c) of
     None \<Rightarrow> insert_entry k v c
   | Some n \<Rightarrow> if n = 0 then c
       else insert_entry k v (if n \<le> cache_len c then evict_lru c else c))"

definition cache_store :: "info_cache_key \<Rightarrow> 'v \<Rightarrow> 'v info_cache \<Rightarrow> 'v info_cache" where
  "cache_store ws v c = cache_insert ws v c"

definition capture_commit :: "graph_id \<Rightarrow> 'v info_cache \<Rightarrow> 'v info_cache" where
  "capture_commit gid c = (if mc_pending c = [] then c
     else c\<lparr>mc_graph_locks := AList.update gid (mc_pending c) (mc_graph_locks c), mc_pending := []\<rparr>)"

fun discard_keys :: "info_cache_key list \<Rightarrow> (info_cache_key \<times> 'v cache_entry) list \<Rightarrow> (info_cache_key \<times> 'v cache_entry) list" where
  "discard_keys [] es = es"
| "discard_keys (k # ks) es = discard_keys ks (case map_of es k of
     Some e \<Rightarrow> AList.update k (e\<lparr>locks := locks e - 1\<rparr>) es | None \<Rightarrow> es)"

definition capture_discard :: "'v info_cache \<Rightarrow> 'v info_cache" where
  "capture_discard c = c\<lparr>mc_entries := discard_keys (mc_pending c) (mc_entries c), mc_pending := []\<rparr>"

fun release_keys :: "info_cache_key list \<Rightarrow> (info_cache_key \<times> 'v cache_entry) list \<Rightarrow> (info_cache_key \<times> 'v cache_entry) list" where
  "release_keys [] es = es"
| "release_keys (k # ks) es = release_keys ks (case map_of es k of
     Some e \<Rightarrow> if locks e - 1 = 0 then AList.delete k es else AList.update k (e\<lparr>locks := locks e - 1\<rparr>) es
   | None \<Rightarrow> es)"

definition graph_release :: "graph_id \<Rightarrow> 'v info_cache \<Rightarrow> 'v info_cache" where
  "graph_release gid c = (case map_of (mc_graph_locks c) gid of
     None \<Rightarrow> c
   | Some ks \<Rightarrow> c\<lparr>mc_graph_locks := AList.delete gid (mc_graph_locks c), mc_entries := release_keys ks (mc_entries c)\<rparr>)"

section \<open>What a backend does with it\<close>

text \<open>
  A launch asks for the buffer of its words and follows the answer: the cached buffer, or the one it
  builds, stored when the cache asked for it.
\<close>

definition launch_info :: "cache_mode \<Rightarrow> info_cache_key \<Rightarrow> 'v \<Rightarrow> 'v info_cache \<Rightarrow> 'v \<times> 'v info_cache" where
  "launch_info md ws built c = (case cache_lookup md ws c of
     (Hit v, c) \<Rightarrow> (v, c)
   | (Build keep, c) \<Rightarrow> (built, if keep then cache_store ws built c else c))"

inductive cache_step :: "graph_id set \<Rightarrow> 'v info_cache \<Rightarrow> 'v info_cache \<Rightarrow> bool" for alive where
  launch: "cache_step alive c (snd (launch_info md ws built c))"
| commit: "gid \<notin> fst ` set (mc_graph_locks c) \<Longrightarrow> cache_step alive c (capture_commit gid c)"
| discard: "cache_step alive c (capture_discard c)"
| release: "gid \<notin> alive \<Longrightarrow> cache_step alive c (graph_release gid c)"
| sweep: "cache_step alive c (clear_unpinned c)"

inductive_simps cache_step_iff: "cache_step alive c c'"

section \<open>Pins\<close>

text \<open>How many claims there are on an entry: the capture under way, and every graph that recorded it.\<close>

definition pins :: "'v info_cache \<Rightarrow> info_cache_key \<Rightarrow> nat" where
  "pins c k = (if k \<in> set (mc_pending c) then 1 else 0) + length (filter (\<lambda>gl. k \<in> set (snd gl)) (mc_graph_locks c))"

definition lock_of :: "(info_cache_key \<times> 'v cache_entry) list \<Rightarrow> info_cache_key \<Rightarrow> nat" where
  "lock_of es k = (case map_of es k of None \<Rightarrow> 0 | Some e \<Rightarrow> locks e)"

text \<open>Distinct keys everywhere, and the locks of an entry are the claims on it.\<close>

definition cache_ok :: "'v info_cache \<Rightarrow> bool" where
  "cache_ok c \<longleftrightarrow> distinct (map fst (mc_entries c)) \<and> distinct (mc_pending c) \<and> distinct (map fst (mc_graph_locks c)) \<and>
     (\<forall>gl \<in> set (mc_graph_locks c). distinct (snd gl)) \<and> pins c = lock_of (mc_entries c)"

lemma lock_of_simps [simp]:
  "lock_of [] k = 0" "lock_of (AList.update k e es) x = (if x = k then locks e else lock_of es x)"
  "lock_of (AList.delete k es) x = (if x = k then 0 else lock_of es x)"
  by (auto simp: lock_of_def update_conv' delete_conv')

lemma lock_of_Some: "map_of es k = Some e \<Longrightarrow> lock_of es k = locks e"
  by (simp add: lock_of_def)

lemma lock_of_None: "map_of es k = None \<Longrightarrow> lock_of es k = 0"
  by (simp add: lock_of_def)

lemma cache_ok_new: "cache_ok (cache_new p)"
  by (auto simp: cache_ok_def cache_new_def pins_def)

lemma pins_cong [simp]:
  "pins (c\<lparr>mc_clock := t\<rparr>) = pins c" "pins (c\<lparr>mc_entries := es\<rparr>) = pins c" "pins (c\<lparr>mc_policy := p\<rparr>) = pins c"
  by (intro ext, simp add: pins_def)+

lemma pins_pending:
  "k \<notin> set (mc_pending c) \<Longrightarrow> pins (c\<lparr>mc_pending := k # mc_pending c\<rparr>) = (pins c)(k := Suc (pins c k))"
  by (intro ext) (auto simp: pins_def)

lemma cache_ok_mode: "cache_ok c \<Longrightarrow> cache_ok (cache_set_mode md c)"
  by (simp add: cache_ok_def cache_set_mode_def)

lemma cache_get_eqs:
  "map_of (mc_entries c) k = None \<Longrightarrow> cache_get k c = (None, c\<lparr>mc_clock := mc_clock c + 1\<rparr>)"
  "map_of (mc_entries c) k = Some e \<Longrightarrow> pins_entries (mc_policy c) \<and> k \<notin> set (mc_pending c) \<Longrightarrow> cache_get k c = (Some (ce_value e),
     c\<lparr>mc_clock := mc_clock c + 1, mc_entries := AList.update k (e\<lparr>last_used := mc_clock c + 1, locks := locks e + 1\<rparr>) (mc_entries c),
       mc_pending := k # mc_pending c\<rparr>)"
  "map_of (mc_entries c) k = Some e \<Longrightarrow> \<not> (pins_entries (mc_policy c) \<and> k \<notin> set (mc_pending c)) \<Longrightarrow> cache_get k c = (Some (ce_value e),
     c\<lparr>mc_clock := mc_clock c + 1, mc_entries := AList.update k (e\<lparr>last_used := mc_clock c + 1\<rparr>) (mc_entries c)\<rparr>)"
  by (auto simp: cache_get_def Let_def)

lemma cache_ok_get:
  assumes "cache_ok c"
  shows "cache_ok (snd (cache_get k c))"
proof (cases "map_of (mc_entries c) k")
  case None
  with assms show ?thesis by (simp add: cache_get_eqs cache_ok_def)
next
  case (Some e)
  note e = lock_of_Some [OF Some]
  show ?thesis
  proof (cases "pins_entries (mc_policy c) \<and> k \<notin> set (mc_pending c)")
    case True
    then have "pins (snd (cache_get k c)) = (pins c)(k := Suc (pins c k))"
      using Some pins_pending [of k c] by (simp add: cache_get_eqs pins_def fun_eq_iff)
    with assms True Some e show ?thesis by (auto simp: cache_get_eqs cache_ok_def distinct_update fun_eq_iff)
  next
    case False
    with assms Some e show ?thesis by (auto simp: cache_get_eqs cache_ok_def distinct_update fun_eq_iff)
  qed
qed

lemma oldest_None: "oldest es = None \<longleftrightarrow> es = []"
  by (cases es rule: oldest.cases) (auto split: option.splits)

lemma oldest_least:
  "oldest es = Some (k, t) \<Longrightarrow> \<exists>e. (k, e) \<in> set es \<and> last_used e = t \<and> (\<forall>(k', e') \<in> set es. t \<le> last_used e')"
proof (induction es arbitrary: k t rule: oldest.induct)
  case (2 k' e es)
  show ?case
  proof (cases "oldest es")
    case None
    with 2 show ?thesis by (simp add: oldest_None)
  next
    case (Some kt)
    obtain k1 t1 where kt: "kt = (k1, t1)" by fastforce
    with 2(1) Some obtain e1 where "(k1, e1) \<in> set es" "last_used e1 = t1" "\<forall>(k', e') \<in> set es. t1 \<le> last_used e'" by blast
    note e1 = this
    show ?thesis
    proof (cases "last_used e \<le> t1")
      case True
      then have "k = k'" "t = last_used e" using 2(2) Some kt by auto
      moreover have "last_used e \<le> last_used e'" if "(k2, e') \<in> set es" for k2 e'
        using e1(3) True that order_trans by fastforce
      ultimately show ?thesis by (intro exI [of _ e]) auto
    next
      case False
      then have "k = k1" "t = t1" using 2(2) Some kt by auto
      with False e1 show ?thesis by (intro exI [of _ e1]) auto
    qed
  qed
qed simp

lemma evict_lru_cases:
  assumes "cache_ok c"
  obtains "evict_lru c = c" "\<forall>(k, e) \<in> set (mc_entries c). 0 < locks e"
  | k e where "evict_lru c = c\<lparr>mc_entries := AList.delete k (mc_entries c)\<rparr>" "map_of (mc_entries c) k = Some e" "locks e = 0"
    "\<forall>(k', e') \<in> set (mc_entries c). locks e' = 0 \<longrightarrow> last_used e \<le> last_used e'"
proof (cases "oldest (filter (\<lambda>(k, e). locks e = 0) (mc_entries c))")
  case None
  then have "filter (\<lambda>(k, e). locks e = 0) (mc_entries c) = []" by (simp only: oldest_None)
  then have "\<forall>(k, e) \<in> set (mc_entries c). 0 < locks e" by (auto simp: filter_empty_conv)
  with None show ?thesis by (intro that(1)) (simp_all add: evict_lru_def)
next
  case (Some kt)
  then obtain k t where kt: "oldest (filter (\<lambda>(k, e). locks e = 0) (mc_entries c)) = Some (k, t)" by (cases kt) auto
  from oldest_least [OF kt] obtain e where e: "(k, e) \<in> set (mc_entries c)" "locks e = 0" "last_used e = t"
    "\<forall>(k', e') \<in> set (mc_entries c). locks e' = 0 \<longrightarrow> t \<le> last_used e'" by fastforce
  have "map_of (mc_entries c) k = Some e" using assms e(1) by (simp add: cache_ok_def)
  with e kt show ?thesis by (intro that(2) [of k e]) (simp_all add: evict_lru_def)
qed

lemma cache_ok_evict:
  assumes "cache_ok c"
  shows "cache_ok (evict_lru c)"
  using assms
proof (cases rule: evict_lru_cases)
  case (2 k e)
  with assms lock_of_Some [OF 2(2)] show ?thesis by (auto simp: cache_ok_def distinct_delete fun_eq_iff)
qed (simp add: assms)

lemma evict_absent: "cache_ok c \<Longrightarrow> map_of (mc_entries c) k = None \<Longrightarrow> map_of (mc_entries (evict_lru c)) k = None"
  by (erule evict_lru_cases) (auto simp: delete_conv')

lemma cache_ok_insert_entry:
  assumes "cache_ok c" "map_of (mc_entries c) k = None"
  shows "cache_ok (insert_entry k v c)"
proof -
  have z: "pins c k = 0" using assms lock_of_None [OF assms(2)] by (simp add: cache_ok_def)
  then have new: "k \<notin> set (mc_pending c)" by (auto simp: pins_def)
  show ?thesis
  proof (cases "pins_entries (mc_policy c)")
    case True
    then have "pins (insert_entry k v c) = (pins c)(k := Suc (pins c k))"
      using new pins_pending [of k c] by (simp add: insert_entry_def pins_def fun_eq_iff)
    with assms True new z show ?thesis by (auto simp: insert_entry_def cache_ok_def distinct_update fun_eq_iff)
  next
    case False
    with assms z show ?thesis by (auto simp: insert_entry_def cache_ok_def distinct_update fun_eq_iff)
  qed
qed

lemma cache_ok_insert: "cache_ok c \<Longrightarrow> map_of (mc_entries c) k = None \<Longrightarrow> cache_ok (cache_insert k v c)"
  by (auto simp: cache_insert_def cache_ok_insert_entry cache_ok_evict evict_absent split: option.splits)

lemma cache_get_miss: "fst (cache_get k c) = None \<Longrightarrow> map_of (mc_entries (snd (cache_get k c))) k = None"
  by (cases "map_of (mc_entries c) k") (auto simp: cache_get_def Let_def)

lemma cache_ok_launch:
  assumes "cache_ok c"
  shows "cache_ok (snd (launch_info md ws built c))"
proof -
  note get = cache_ok_get [OF cache_ok_mode [OF assms], of ws md]
  show ?thesis
    using cache_ok_mode [OF assms, of md] get cache_ok_insert [OF get] cache_get_miss [of ws "cache_set_mode md c"]
    by (auto simp: launch_info_def cache_lookup_def Let_def cache_store_def split: prod.splits option.splits)
qed

lemma map_of_discard:
  "distinct ks \<Longrightarrow> map_of (discard_keys ks es) x = map_option (\<lambda>e. if x \<in> set ks then e\<lparr>locks := locks e - 1\<rparr> else e) (map_of es x)"
proof (induction ks es rule: discard_keys.induct)
  case (2 k ks es)
  then show ?case by (cases "x = k"; cases "map_of es k") (auto simp: update_conv')
qed (simp add: option.map_ident)

lemma distinct_discard: "distinct (map fst es) \<Longrightarrow> distinct (map fst (discard_keys ks es))"
  by (induction ks es rule: discard_keys.induct) (auto simp: distinct_update split: option.splits)

lemma cache_ok_discard:
  assumes "cache_ok c"
  shows "cache_ok (capture_discard c)"
proof -
  have d: "distinct (mc_pending c)" using assms by (simp add: cache_ok_def)
  have "pins (capture_discard c) k = lock_of (discard_keys (mc_pending c) (mc_entries c)) k" for k
  proof -
    have "pins c k = lock_of (mc_entries c) k" using assms by (simp add: cache_ok_def)
    then show ?thesis
      by (cases "map_of (mc_entries c) k") (auto simp: capture_discard_def pins_def lock_of_def map_of_discard [OF d])
  qed
  with assms show ?thesis by (auto simp: cache_ok_def capture_discard_def distinct_discard fun_eq_iff)
qed

lemma map_of_release:
  "distinct ks \<Longrightarrow> map_of (release_keys ks es) x =
     (if x \<in> set ks then Option.bind (map_of es x) (\<lambda>e. if locks e - 1 = 0 then None else Some (e\<lparr>locks := locks e - 1\<rparr>))
      else map_of es x)"
  by (induction ks es rule: release_keys.induct) (auto simp: update_conv' delete_conv' split: option.splits)

lemma distinct_release: "distinct (map fst es) \<Longrightarrow> distinct (map fst (release_keys ks es))"
  by (induction ks es rule: release_keys.induct) (auto simp: distinct_update distinct_delete split: option.splits)

lemma update_absent: "k \<notin> fst ` set al \<Longrightarrow> AList.update k v al = al @ [(k, v)]"
  by (induction al) auto

lemma cache_ok_commit:
  assumes "cache_ok c" "gid \<notin> fst ` set (mc_graph_locks c)"
  shows "cache_ok (capture_commit gid c)"
proof -
  have "pins (capture_commit gid c) = pins c"
    using assms(2) by (auto simp: capture_commit_def pins_def update_absent)
  with assms show ?thesis by (auto simp: cache_ok_def capture_commit_def update_absent)
qed

text \<open>One graph fewer takes its own claims away and nothing else.\<close>

lemma delete_locks:
  assumes "distinct (map fst gls)" "map_of gls gid = Some ks"
  shows "length (filter (\<lambda>gl. k \<in> set (snd gl)) gls) =
    length (filter (\<lambda>gl. k \<in> set (snd gl)) (AList.delete gid gls)) + (if k \<in> set ks then 1 else 0)"
  using assms
proof (induction gls)
  case (Cons gl gls)
  show ?case
  proof (cases "fst gl = gid")
    case True
    with Cons.prems have "AList.delete gid gls = gls" by (auto simp: delete_id)
    with Cons.prems True show ?thesis by (cases gl) (auto simp: delete_id)
  next
    case False
    with Cons show ?thesis by (cases gl) auto
  qed
qed simp

lemma cache_ok_release:
  assumes "cache_ok c"
  shows "cache_ok (graph_release gid c)"
proof (cases "map_of (mc_graph_locks c) gid")
  case None
  with assms show ?thesis by (simp add: graph_release_def)
next
  case (Some ks)
  have d: "distinct ks" and dg: "distinct (map fst (mc_graph_locks c))"
    using assms Some map_of_SomeD [OF Some] by (auto simp: cache_ok_def)
  have "pins (graph_release gid c) k = lock_of (release_keys ks (mc_entries c)) k" for k
  proof -
    have "pins c k = lock_of (mc_entries c) k" using assms by (simp add: cache_ok_def)
    moreover have "pins c k = pins (graph_release gid c) k + (if k \<in> set ks then 1 else 0)"
      using delete_locks [OF dg Some, of k] Some by (simp add: graph_release_def pins_def)
    ultimately show ?thesis
      by (cases "map_of (mc_entries c) k") (auto simp: lock_of_def map_of_release [OF d] split: if_splits)
  qed
  moreover have "set (AList.delete gid (mc_graph_locks c)) \<subseteq> set (mc_graph_locks c)" by (simp add: AList.delete_eq)
  ultimately show ?thesis
    using assms Some by (auto simp: cache_ok_def graph_release_def distinct_release distinct_delete fun_eq_iff)
qed

lemma map_of_filter_distinct:
  "distinct (map fst es) \<Longrightarrow> map_of (filter (\<lambda>(k, e). P e) es) k = (case map_of es k of None \<Rightarrow> None | Some e \<Rightarrow> if P e then Some e else None)"
proof (induction es)
  case (Cons a es)
  obtain k' e where a: "a = (k', e)" by fastforce
  show ?case
  proof (cases "k = k'")
    case True
    with Cons.prems a have "map_of es k = None" by (auto simp: map_of_eq_None_iff)
    with Cons a True show ?thesis by (auto split: option.splits)
  next
    case False
    with Cons a show ?thesis by simp
  qed
qed simp

lemma cache_ok_sweep:
  assumes "cache_ok c"
  shows "cache_ok (clear_unpinned c)"
proof -
  have d: "distinct (map fst (mc_entries c))" using assms by (simp add: cache_ok_def)
  have "lock_of (filter (\<lambda>(k, e). 0 < locks e) (mc_entries c)) = lock_of (mc_entries c)"
    by (intro ext) (simp add: lock_of_def map_of_filter_distinct [OF d] split: option.splits)
  moreover have "distinct (map fst (filter (\<lambda>(k, e). 0 < locks e) (mc_entries c)))"
    using d by (simp add: distinct_map inj_on_def)
  ultimately show ?thesis using assms by (simp add: cache_ok_def clear_unpinned_def)
qed

lemma cache_ok_step: "cache_step alive c c' \<Longrightarrow> cache_ok c \<Longrightarrow> cache_ok c'"
  by (induction rule: cache_step.induct)
    (simp_all add: cache_ok_launch cache_ok_commit cache_ok_discard cache_ok_release cache_ok_sweep)

section \<open>A live graph keeps its buffers\<close>

definition held_by :: "graph_id \<Rightarrow> 'v info_cache \<Rightarrow> info_cache_key set" where
  "held_by gid c = (case map_of (mc_graph_locks c) gid of None \<Rightarrow> {} | Some ks \<Rightarrow> set ks)"

definition buffer_of :: "'v info_cache \<Rightarrow> info_cache_key \<Rightarrow> 'v option" where
  "buffer_of c k = map_option ce_value (map_of (mc_entries c) k)"

lemma held_pinned: "cache_ok c \<Longrightarrow> k \<in> held_by gid c \<Longrightarrow> 0 < lock_of (mc_entries c) k"
proof -
  assume ok: "cache_ok c" and k: "k \<in> held_by gid c"
  then obtain ks where "(gid, ks) \<in> set (mc_graph_locks c)" "k \<in> set ks"
    by (auto simp: held_by_def dest: map_of_SomeD split: option.splits)
  then have "filter (\<lambda>gl. k \<in> set (snd gl)) (mc_graph_locks c) \<noteq> []" by (force simp: filter_empty_conv)
  then have "0 < pins c k" by (simp add: pins_def)
  with ok show ?thesis by (simp add: cache_ok_def)
qed

text \<open>No step gives a cached key another buffer; it keeps the one it has or loses the entry.\<close>

lemma launch_buffer:
  assumes "cache_ok c" "buffer_of c k = Some v"
  shows "buffer_of (snd (launch_info md ws built c)) k \<in> {Some v, None}"
proof -
  let ?c = "snd (cache_get ws (cache_set_mode md c))"
  have m: "buffer_of (cache_set_mode md c) k = Some v" using assms(2) by (simp add: buffer_of_def cache_set_mode_def)
  then have g: "buffer_of ?c k = Some v"
    by (auto simp: cache_get_def Let_def buffer_of_def update_conv' split: option.splits)
  have ev: "buffer_of (evict_lru ?c) k \<in> {Some v, None}"
    by (rule evict_lru_cases [OF cache_ok_get [OF cache_ok_mode [OF assms(1)]], of ws md])
      (use g in \<open>auto simp: buffer_of_def delete_conv'\<close>)
  have "buffer_of (cache_insert ws built ?c) k \<in> {Some v, None}" if "fst (cache_get ws (cache_set_mode md c)) = None"
  proof -
    have "ws \<noteq> k" using cache_get_miss [OF that] g by (auto simp: buffer_of_def)
    with g ev show ?thesis
      by (auto simp: cache_insert_def insert_entry_def buffer_of_def update_conv' split: option.splits)
  qed
  with m g show ?thesis
    by (auto simp: launch_info_def cache_lookup_def Let_def cache_store_def split: prod.splits option.splits)
qed

lemma step_buffer:
  assumes "cache_step alive c c'" "cache_ok c" "buffer_of c k = Some v"
  shows "buffer_of c' k \<in> {Some v, None}"
  using assms
proof (induction rule: cache_step.induct)
  case (launch c md ws built)
  then show ?case by (rule launch_buffer)
next
  case (discard c)
  then have "distinct (mc_pending c)" by (simp add: cache_ok_def)
  with discard show ?case by (cases "map_of (mc_entries c) k") (auto simp: buffer_of_def capture_discard_def map_of_discard)
next
  case (release gid c)
  then have "distinct ks" if "map_of (mc_graph_locks c) gid = Some ks" for ks
    using map_of_SomeD [OF that] by (auto simp: cache_ok_def)
  with release show ?case
    by (cases "map_of (mc_entries c) k"; cases "map_of (mc_graph_locks c) gid")
      (auto simp: buffer_of_def graph_release_def map_of_release)
next
  case (sweep c)
  then have "distinct (map fst (mc_entries c))" by (simp add: cache_ok_def)
  with sweep show ?case by (auto simp: buffer_of_def clear_unpinned_def map_of_filter_distinct split: if_splits)
qed (auto simp: buffer_of_def capture_commit_def)

lemma launch_locks: "mc_graph_locks (snd (launch_info md ws built c)) = mc_graph_locks c"
proof -
  have g: "mc_graph_locks (snd (cache_get ws c')) = mc_graph_locks c'" for c' :: "'a info_cache"
    by (simp add: cache_get_def Let_def split: option.splits)
  have i: "mc_graph_locks (cache_insert ws built c') = mc_graph_locks c'" for c' :: "'a info_cache"
    by (auto simp: cache_insert_def insert_entry_def evict_lru_def split: option.splits)
  have m: "mc_graph_locks (cache_set_mode md c) = mc_graph_locks c" by (simp add: cache_set_mode_def)
  obtain r c1 where r: "cache_get ws (cache_set_mode md c) = (r, c1)" by fastforce
  with g [of "cache_set_mode md c"] m have "mc_graph_locks c1 = mc_graph_locks c" by simp
  with i m r show ?thesis by (cases r) (simp_all add: launch_info_def cache_lookup_def Let_def cache_store_def)
qed

lemma step_held: "cache_step alive c c' \<Longrightarrow> gid \<in> alive \<Longrightarrow> k \<in> held_by gid c \<Longrightarrow> k \<in> held_by gid c'"
proof (induction rule: cache_step.induct)
  case (commit gid' c)
  then have "map_of (mc_graph_locks c) gid' = None" by (simp add: map_of_eq_None_iff)
  with commit show ?case by (cases "gid = gid'") (simp_all add: held_by_def capture_commit_def update_conv')
next
  case (release gid' c)
  then show ?case by (auto simp: held_by_def graph_release_def delete_conv' split: option.splits)
qed (auto simp: held_by_def launch_locks capture_discard_def clear_unpinned_def)

lemma step_keeps:
  assumes "cache_step alive c c'" "cache_ok c" "gid \<in> alive" "k \<in> held_by gid c"
  shows "buffer_of c' k = buffer_of c k"
proof -
  have "0 < lock_of (mc_entries c) k" "0 < lock_of (mc_entries c') k"
    using held_pinned [OF assms(2,4)] held_pinned [OF cache_ok_step [OF assms(1,2)] step_held [OF assms(1,3,4)]] by simp_all
  then obtain v where "buffer_of c k = Some v" "buffer_of c' k \<noteq> None"
    by (auto simp: lock_of_def buffer_of_def split: option.splits)
  with step_buffer [OF assms(1,2) this(1)] show ?thesis by auto
qed


section \<open>Eviction\<close>

definition unpinned :: "'v info_cache \<Rightarrow> nat" where
  "unpinned c = length (filter (\<lambda>(k, e). locks e = 0) (mc_entries c))"

lemma filter_delete_less:
  "distinct (map fst es) \<Longrightarrow> map_of es k = Some e \<Longrightarrow> P e \<Longrightarrow>
     Suc (length (filter (\<lambda>(k, e). P e) (AList.delete k es))) = length (filter (\<lambda>(k, e). P e) es)"
proof (induction es)
  case (Cons a es)
  then show ?case by (cases a) (auto simp: delete_id)
qed simp

lemma unpinned_insert:
  assumes "cache_ok c" "map_of (mc_entries c) k = None" "policy_capacity (mc_policy c) = Some n"
  shows "unpinned (cache_insert k v c) \<le> max (unpinned c) n"
proof -
  have np: "\<not> pins_entries (mc_policy c)" using assms(3) by (auto simp: policy_capacity_def pins_entries_def split: cache_mode.splits)
  have add: "unpinned (insert_entry k v c') = Suc (unpinned c')" if "map_of (mc_entries c') k = None" "\<not> pins_entries (mc_policy c')" for c' :: "'a info_cache"
    using that by (simp add: insert_entry_def unpinned_def update_absent map_of_eq_None_iff)
  show ?thesis
  proof (cases "n = 0 \<or> \<not> n \<le> cache_len c")
    case True
    moreover have "unpinned c \<le> cache_len c" by (simp add: unpinned_def cache_len_def)
    ultimately show ?thesis using add [OF assms(2) np] assms(3) by (auto simp: cache_insert_def)
  next
    case False
    then have i: "cache_insert k v c = insert_entry k v (evict_lru c)" using assms(3) by (simp add: cache_insert_def)
    have p: "mc_policy (evict_lru c) = mc_policy c" by (auto simp: evict_lru_def split: option.splits)
    have "unpinned (evict_lru c) = 0 \<or> Suc (unpinned (evict_lru c)) = unpinned c"
      using assms(1)
    proof (cases rule: evict_lru_cases)
      case 1
      then show ?thesis by (auto simp: unpinned_def filter_empty_conv)
    next
      case (2 k' e)
      then show ?thesis using assms(1) filter_delete_less [of "mc_entries c" k' e "\<lambda>e. locks e = 0"]
        by (simp add: unpinned_def cache_ok_def)
    qed
    moreover have "unpinned (cache_insert k v c) = Suc (unpinned (evict_lru c))"
      unfolding i by (rule add) (simp_all add: evict_absent assms p np)
    ultimately show ?thesis using False by auto
  qed
qed

lemma get_unpinned: "cache_ok c \<Longrightarrow> unpinned (snd (cache_get k c)) \<le> unpinned c"
proof -
  have "length (filter (\<lambda>(k, e). locks e = 0) (AList.update k e' es)) \<le> length (filter (\<lambda>(k, e). locks e = 0) es)"
    if "map_of es k = Some e" "locks e \<le> locks e'" for es :: "(info_cache_key \<times> 'a cache_entry) list" and e e'
    using that by (induction es) (auto split: if_splits)
  then show ?thesis by (auto simp: cache_get_def Let_def unpinned_def split: option.splits)
qed

text \<open>What an insertion drops is an unpinned entry that no other unpinned entry was used before.\<close>

lemma insert_evicts:
  assumes "cache_ok c" "map_of (mc_entries c) ws = None" "buffer_of c k \<noteq> None" "buffer_of (cache_insert ws v c) k = None"
  shows "\<exists>e. map_of (mc_entries c) k = Some e \<and> locks e = 0 \<and>
    (\<forall>(k', e') \<in> set (mc_entries c). locks e' = 0 \<longrightarrow> last_used e \<le> last_used e')"
proof -
  have "ws \<noteq> k" using assms(2,3) by (auto simp: buffer_of_def)
  then have "buffer_of (insert_entry ws v c') k = buffer_of c' k" for c' :: "'a info_cache"
    by (simp add: insert_entry_def buffer_of_def update_conv')
  with assms(3,4) have "buffer_of (evict_lru c) k = None"
    by (auto simp: cache_insert_def split: option.splits if_splits)
  with assms(1,3) show ?thesis
    by (cases rule: evict_lru_cases) (auto simp: buffer_of_def delete_conv' split: if_splits)
qed

text \<open>C21: A launch outside a capture leaves at most \<open>max_entries\<close> entries that no graph pins, or no more
  than there were; the buffer it uses is the cached one on a hit and the one it built otherwise;
  and what it evicts is an unpinned entry no other unpinned entry was used before.
\<close>

theorem launch_bounded:
  assumes "(cache_step {})\<^sup>*\<^sup>* (cache_new p) c" "launch_info NormalCache ws built c = (v, c')"
  shows "unpinned c' \<le> max (unpinned c) (max_entries (mc_policy c)) \<and>
    v = (if 0 < max_entries (mc_policy c) \<and> 8 * length ws \<le> max_cached_size (mc_policy c)
         then (case buffer_of c ws of Some b \<Rightarrow> b | None \<Rightarrow> built) else built) \<and>
    (\<forall>k. buffer_of c k \<noteq> None \<and> buffer_of c' k = None \<longrightarrow> (\<exists>e. map_of (mc_entries c) k = Some e \<and> locks e = 0 \<and>
       (\<forall>(k', e') \<in> set (mc_entries c). locks e' = 0 \<longrightarrow> last_used e \<le> last_used e')))"
proof -
  have ok: "cache_ok c" using assms(1) by (induction rule: rtranclp_induct) (auto intro: cache_ok_new cache_ok_step)
  let ?m = "cache_set_mode NormalCache c"
  have m: "unpinned ?m = unpinned c" "policy_capacity (mc_policy ?m) = Some (max_entries (mc_policy c))" "mc_entries ?m = mc_entries c"
    "cache_should_cache ?m (8 * length ws) \<longleftrightarrow> 0 < max_entries (mc_policy c) \<and> 8 * length ws \<le> max_cached_size (mc_policy c)"
    by (simp_all add: cache_set_mode_def unpinned_def policy_set_mode_def policy_capacity_def cache_should_cache_def policy_should_cache_def)
  obtain r c1 where r: "cache_get ws ?m = (r, c1)" by fastforce
  have pol: "mc_policy (snd (cache_get ws ?m)) = mc_policy ?m" by (simp add: cache_get_def Let_def split: option.splits)
  have hit: "r = buffer_of c ws" using r m(3) by (auto simp: cache_get_def Let_def buffer_of_def split: option.splits)
  have u: "unpinned c1 \<le> unpinned c" using get_unpinned [OF cache_ok_mode [OF ok], of ws NormalCache] r m(1) by simp
  show ?thesis
  proof (cases "cache_should_cache ?m (8 * length ws) \<and> r = None")
    case True
    then have c1: "mc_entries c1 = mc_entries c" "map_of (mc_entries c1) ws = None" "cache_ok c1" "mc_policy c1 = mc_policy ?m"
      using r m(3) cache_ok_get [OF cache_ok_mode [OF ok], of ws NormalCache] pol cache_get_miss [of ws ?m]
      by (auto simp: cache_get_def Let_def split: option.splits)
    have c': "c' = cache_insert ws built c1" "v = built"
      using True assms(2) r by (auto simp: launch_info_def cache_lookup_def Let_def cache_store_def)
    have "unpinned c' \<le> max (unpinned c1) (max_entries (mc_policy c))"
      unfolding c' using c1 m(2) by (intro unpinned_insert) simp_all
    moreover have "\<exists>e. map_of (mc_entries c) k = Some e \<and> locks e = 0 \<and>
        (\<forall>(k', e') \<in> set (mc_entries c). locks e' = 0 \<longrightarrow> last_used e \<le> last_used e')"
      if "buffer_of c k \<noteq> None" "buffer_of c' k = None" for k
      using insert_evicts [OF c1(3,2), of k built] that c' c1(1) by (simp add: buffer_of_def)
    ultimately show ?thesis using True u hit m(4) c'(2) by auto
  next
    case False
    then have c': "c' = (if cache_should_cache ?m (8 * length ws) then c1 else ?m)"
      using assms(2) r by (auto simp: launch_info_def cache_lookup_def Let_def split: option.splits)
    moreover have "v = (if cache_should_cache ?m (8 * length ws) then the r else built)"
      using False assms(2) r by (auto simp: launch_info_def cache_lookup_def Let_def split: option.splits)
    moreover have "buffer_of (snd (cache_get ws ?m)) k = buffer_of c k" for k
      by (auto simp: cache_get_def Let_def buffer_of_def update_conv' m(3) split: option.splits)
    then have "buffer_of c' k = buffer_of c k" for k using c' r m(3) by (simp add: buffer_of_def)
    ultimately show ?thesis using False u hit m(1,4) by auto
  qed
qed

section \<open>A cache of one entry\<close>

definition sample_cache :: "nat info_cache" where
  "sample_cache = capture_commit 9 (snd (launch_info CaptureCache [7] 70 (cache_new (policy_new 1 64))))"

lemma sample_cache_eq:
  "sample_cache = \<lparr>mc_entries = [([7], \<lparr>ce_value = 70, last_used = 1, locks = 1\<rparr>)],
     mc_policy = \<lparr>max_entries = 1, max_cached_size = 64, cp_mode = CaptureCache\<rparr>, mc_clock = 1, mc_pending = [],
     mc_graph_locks = [(9, [[7]])]\<rparr>"
  by (simp add: sample_cache_def capture_commit_def launch_info_def cache_lookup_def cache_new_def policy_new_def
      cache_set_mode_def policy_set_mode_def cache_should_cache_def policy_should_cache_def cache_get_def Let_def
      cache_store_def cache_insert_def policy_capacity_def insert_entry_def pins_entries_def)

lemma sample_cache_reached: "(cache_step {})\<^sup>*\<^sup>* (cache_new (policy_new 1 64)) sample_cache"
proof -
  let ?c = "snd (launch_info CaptureCache [7] (70 :: nat) (cache_new (policy_new 1 64)))"
  have "cache_step {} (cache_new (policy_new 1 64)) ?c" by (rule cache_step.launch)
  moreover have "cache_step {} ?c sample_cache"
    unfolding sample_cache_def by (rule cache_step.commit) (simp add: launch_locks cache_new_def)
  ultimately show ?thesis by (meson r_into_rtranclp rtranclp.rtrancl_into_rtrancl)
qed


theorem launch_bounded_witness:
  "unpinned (snd (launch_info NormalCache [8] 80 sample_cache)) \<le> 1 \<and> fst (launch_info NormalCache [8] 80 sample_cache) = 80"
proof -
  have "unpinned sample_cache = 0" "max_entries (mc_policy sample_cache) = 1" "buffer_of sample_cache [8] = None"
    by (simp_all add: sample_cache_eq unpinned_def buffer_of_def)
  then show ?thesis
    using launch_bounded [OF sample_cache_reached surjective_pairing, of "[8]" 80] by (elim conjE) (simp split: if_splits)
qed

end
