(* ===== verification/Capture.thy ===== *)
theory Capture
  imports Buffer_Binding Metadata_Cache Memory_Management "HOL-Library.Product_Lexorder"
begin

text \<open>
  The graph capture of one pooled stream (\<open>cubecl-server/src/stream/capture.rs\<close>): the lifecycle
  \<open>NoCapture \<rightarrow> Prepare \<rightarrow> Capture \<rightarrow> NoCapture\<close>, and what the recorded launches were given. The
  device's count of recording streams is shared by the captures of all its streams, so it is an
  argument and a result of the operations that move it; primed staging is held by cloned bindings,
  so those operations act on the heap of descriptors.

  An unstable sort is modelled by a stable one; the keys that decide what a deduplication keeps are
  equal exactly when the claims (or pages) are. Host bytes are lists of numbers. The report on an
  abandoned window leaves out the numbers of the two streams.
\<close>

datatype capture_state = NoCapture | Prepare stream_id | Capturing stream_id

datatype capture_end = Owned stream_id | Abandoned stream_id

record touched_page =
  tp_stream :: stream_id
  tp_location :: memory_location

record stream_capture =
  sc_state :: capture_state
  sc_recorded :: "weak_buffer_binding list"
  sc_touched :: "touched_page list"
  sc_primed :: "handle list"
  sc_retained_host :: "nat list list"
  sc_failed :: "server_error option"

section \<open>The state\<close>

definition state_is_recording :: "capture_state \<Rightarrow> bool" where
  "state_is_recording s = (case s of Capturing _ \<Rightarrow> True | _ \<Rightarrow> False)"

definition state_is_active :: "capture_state \<Rightarrow> bool" where
  "state_is_active s \<longleftrightarrow> s \<noteq> NoCapture"

definition state_owner :: "capture_state \<Rightarrow> stream_id option" where
  "state_owner s = (case s of NoCapture \<Rightarrow> None | Prepare w \<Rightarrow> Some w | Capturing w \<Rightarrow> Some w)"

definition state_cache_mode :: "capture_state \<Rightarrow> cache_mode" where
  "state_cache_mode s = (case s of NoCapture \<Rightarrow> NormalCache | Prepare _ \<Rightarrow> CaptureCache | Capturing _ \<Rightarrow> CaptureCache)"

definition graph_state :: "string \<Rightarrow> server_error" where
  "graph_state reason = Other reason"

definition state_prepare :: "stream_id \<Rightarrow> capture_state \<Rightarrow> (server_error, capture_state) outcome" where
  "state_prepare owner s = (case s of
     NoCapture \<Rightarrow> Ok (Prepare owner)
   | Prepare _ \<Rightarrow> Err (graph_state ''graph_prepare: a graph capture is already prepared on this stream'')
   | Capturing _ \<Rightarrow> Err (graph_state ''graph_prepare: a graph capture is already recording on this stream''))"

definition state_begin :: "capture_state \<Rightarrow> (server_error, capture_state) outcome" where
  "state_begin s = (case s of
     Prepare owner \<Rightarrow> Ok (Capturing owner)
   | NoCapture \<Rightarrow> Err (graph_state ''begin_capture: call graph_prepare before starting a capture'')
   | Capturing _ \<Rightarrow> Err (graph_state ''begin_capture: a graph capture is already recording on this stream''))"

definition state_end :: "stream_id \<Rightarrow> capture_state \<Rightarrow> (server_error, capture_end \<times> capture_state) outcome" where
  "state_end caller s = (case s of
     Capturing owner \<Rightarrow> Ok (if owner = caller then Owned owner else Abandoned owner, NoCapture)
   | _ \<Rightarrow> Err (graph_state ''end_capture: no graph capture is recording on this stream''))"

definition state_abort :: "capture_state \<Rightarrow> capture_state" where
  "state_abort s = NoCapture"

section \<open>What the end of a window says\<close>

definition end_owner :: "capture_end \<Rightarrow> stream_id" where
  "end_owner e = (case e of Owned w \<Rightarrow> w | Abandoned w \<Rightarrow> w)"

definition is_abandoned :: "capture_end \<Rightarrow> bool" where
  "is_abandoned e = (case e of Abandoned _ \<Rightarrow> True | Owned _ \<Rightarrow> False)"

definition abandoned_error :: "capture_end \<Rightarrow> stream_id \<Rightarrow> server_error option \<Rightarrow> server_error" where
  "abandoned_error e caller doomed =
     Several (graph_state ''end_capture: the capture belongs to another logical stream'' #
       (case doomed of None \<Rightarrow> [] | Some err \<Rightarrow> [err]))"

section \<open>The device's count\<close>

definition recording_any :: "nat \<Rightarrow> bool" where
  "recording_any n \<longleftrightarrow> 0 < n"

definition recording_enter :: "nat \<Rightarrow> nat" where
  "recording_enter n = n + 1"

text \<open>\<open>fetch_sub\<close> wraps at zero.\<close>

definition recording_leave :: "nat \<Rightarrow> nat" where
  "recording_leave n = (if n = 0 then 2 ^ 64 - 1 else n - 1)"

section \<open>The capture of a stream\<close>

definition capture_new :: stream_capture where
  "capture_new = \<lparr>sc_state = NoCapture, sc_recorded = [], sc_touched = [], sc_primed = [],
     sc_retained_host = [], sc_failed = None\<rparr>"

definition is_recording :: "stream_capture \<Rightarrow> bool" where
  "is_recording c = state_is_recording (sc_state c)"

definition is_active :: "stream_capture \<Rightarrow> bool" where
  "is_active c = state_is_active (sc_state c)"

definition capture_owner :: "stream_capture \<Rightarrow> stream_id option" where
  "capture_owner c = state_owner (sc_state c)"

definition capture_cache_mode :: "stream_capture \<Rightarrow> cache_mode" where
  "capture_cache_mode c = state_cache_mode (sc_state c)"

definition capture_record :: "buffer_binding list \<Rightarrow> stream_capture \<Rightarrow> stream_capture" where
  "capture_record bs c =
     (if is_recording c then c\<lparr>sc_recorded := sc_recorded c @ map downgrade bs\<rparr> else c)"

definition capture_touch :: "stream_id \<Rightarrow> memory_location \<Rightarrow> stream_capture \<Rightarrow> stream_capture" where
  "capture_touch sid l c =
     (if is_recording c then c\<lparr>sc_touched := sc_touched c @ [\<lparr>tp_stream = sid, tp_location = l\<rparr>]\<rparr> else c)"

definition page_key :: "touched_page \<Rightarrow> nat \<times> nat \<times> nat \<times> nat \<times> nat" where
  "page_key t = (tp_stream t, unat (loc_pool (tp_location t)), unat (loc_page (tp_location t)),
     unat (loc_slice (tp_location t)), unat (loc_init (tp_location t)))"

definition take_touched :: "stream_capture \<Rightarrow> touched_page list \<times> stream_capture" where
  "take_touched c = (remdups_adj (sort_key page_key (sc_touched c)), c\<lparr>sc_touched := []\<rparr>)"

definition capture_page_update :: "nat \<Rightarrow> stream_capture \<Rightarrow> page_update" where
  "capture_page_update n c =
     (if is_recording c then Forbidden else if recording_any n then AddOnly else Allow)"

definition capture_prime :: "handle \<Rightarrow> stream_capture \<Rightarrow> heap \<Rightarrow> stream_capture \<times> heap" where
  "capture_prime i c h = (case sc_state c of
     Prepare _ \<Rightarrow> (c\<lparr>sc_primed := sc_primed c @ [i]\<rparr>, clone_binding i h) | _ \<Rightarrow> (c, h))"

fun upgrade_all :: "weak_buffer_binding list \<Rightarrow> heap \<Rightarrow> buffer_binding list \<times> heap" where
  "upgrade_all [] h = ([], h)"
| "upgrade_all (w # ws) h = (case upgrade_binding w h of
     (None, h) \<Rightarrow> upgrade_all ws h
   | (Some b, h) \<Rightarrow> (case upgrade_all ws h of (bs, h) \<Rightarrow> (b # bs, h)))"

text \<open>\<open>dedup_by_key\<close>: of neighbours with the same key the first stays, the others are dropped.\<close>

fun dedup_by_key :: "('a \<Rightarrow> 'k) \<Rightarrow> 'a list \<Rightarrow> 'a list \<times> 'a list" where
  "dedup_by_key key [] = ([], [])"
| "dedup_by_key key [x] = ([x], [])"
| "dedup_by_key key (x # y # ys) =
     (if key x = key y then (case dedup_by_key key (x # ys) of (kept, gone) \<Rightarrow> (kept, y # gone))
      else (case dedup_by_key key (y # ys) of (kept, gone) \<Rightarrow> (x # kept, gone)))"

definition drop_bindings :: "buffer_binding list \<Rightarrow> heap \<Rightarrow> heap" where
  "drop_bindings bs h = fold (\<lambda>b. drop_binding (bb_memory b)) bs h"

definition take_recorded :: "stream_capture \<Rightarrow> heap \<Rightarrow> buffer_binding list \<times> stream_capture \<times> heap" where
  "take_recorded c h = (case upgrade_all (sc_recorded c) h of (bs, h) \<Rightarrow>
     (case dedup_by_key claim_key (sort_key claim_key bs) of (kept, gone) \<Rightarrow>
       (kept, c\<lparr>sc_recorded := []\<rparr>, drop_bindings gone h)))"

definition capture_fail :: "server_error \<Rightarrow> stream_capture \<Rightarrow> stream_capture" where
  "capture_fail e c = (if is_recording c \<and> sc_failed c = None then c\<lparr>sc_failed := Some e\<rparr> else c)"

text \<open>The \<open>debug_assert\<close> of \<open>retain_host\<close> is compiled out of a release build.\<close>

definition retain_host :: "nat list \<Rightarrow> stream_capture \<Rightarrow> stream_capture" where
  "retain_host bytes c = c\<lparr>sc_retained_host := sc_retained_host c @ [bytes]\<rparr>"

definition take_retained_host :: "stream_capture \<Rightarrow> nat list list \<times> stream_capture" where
  "take_retained_host c = (sc_retained_host c, c\<lparr>sc_retained_host := []\<rparr>)"

definition take_failure :: "stream_capture \<Rightarrow> server_error option \<times> stream_capture" where
  "take_failure c = (sc_failed c, c\<lparr>sc_failed := None\<rparr>)"

definition drop_primed :: "stream_capture \<Rightarrow> heap \<Rightarrow> stream_capture \<times> heap" where
  "drop_primed c h = (c\<lparr>sc_primed := []\<rparr>, fold drop_binding (sc_primed c) h)"

definition capture_clear :: "stream_capture \<Rightarrow> heap \<Rightarrow> stream_capture \<times> heap" where
  "capture_clear c h = (case drop_primed c h of (c, h) \<Rightarrow>
     (c\<lparr>sc_recorded := [], sc_touched := [], sc_retained_host := [], sc_failed := None\<rparr>, h))"

definition capture_prepare ::
  "stream_id \<Rightarrow> stream_capture \<Rightarrow> heap \<Rightarrow> (server_error, stream_capture \<times> heap) outcome" where
  "capture_prepare owner c h =
     try_then (state_prepare owner (sc_state c)) (\<lambda>s. Ok (capture_clear (c\<lparr>sc_state := s\<rparr>) h))"

definition capture_begin ::
  "stream_capture \<Rightarrow> nat \<Rightarrow> heap \<Rightarrow> (server_error, stream_capture \<times> nat \<times> heap) outcome" where
  "capture_begin c n h =
     try_then (state_begin (sc_state c)) (\<lambda>s. case drop_primed (c\<lparr>sc_state := s\<rparr>) h of (c, h) \<Rightarrow>
       Ok (c, recording_enter n, h))"

definition capture_finish ::
  "stream_id \<Rightarrow> stream_capture \<Rightarrow> nat \<Rightarrow> (server_error, capture_end \<times> stream_capture \<times> nat) outcome" where
  "capture_finish caller c n =
     try_then (state_end caller (sc_state c)) (\<lambda>(e, s). Ok (e, c\<lparr>sc_state := s\<rparr>, recording_leave n))"

definition capture_abort :: "stream_capture \<Rightarrow> nat \<Rightarrow> heap \<Rightarrow> stream_capture \<times> nat \<times> heap" where
  "capture_abort c n h =
     (let n' = (if is_recording c then recording_leave n else n)
      in case capture_clear (c\<lparr>sc_state := state_abort (sc_state c)\<rparr>) h of (c, h) \<Rightarrow> (c, n', h))"

text \<open>\<open>Drop\<close>: the count forgets a stream that goes away while it records.\<close>

definition capture_drop :: "stream_capture \<Rightarrow> nat \<Rightarrow> heap \<Rightarrow> nat \<times> heap" where
  "capture_drop c n h =
     (if is_recording c then recording_leave n else n, fold drop_binding (sc_primed c) h)"

section \<open>A device of several streams\<close>

text \<open>
  The captures of a device by slot, its count of recording streams, and the heap. \<open>Work\<close> is what the
  launches and copies of a stream tell its window, \<open>Take\<close> what the end of a window collects.
\<close>

record recording_device =
  rd_captures :: "stream_capture list"
  rd_count :: nat
  rd_heap :: heap

datatype window_work =
    Record "buffer_binding list"
  | Touch stream_id memory_location
  | Doom server_error
  | Retain "nat list"

fun capture_work :: "window_work \<Rightarrow> stream_capture \<Rightarrow> stream_capture" where
  "capture_work (Record bs) c = capture_record bs c"
| "capture_work (Touch sid l) c = capture_touch sid l c"
| "capture_work (Doom e) c = capture_fail e c"
| "capture_work (Retain bytes) c = retain_host bytes c"

definition set_capture :: "nat \<Rightarrow> stream_capture \<Rightarrow> recording_device \<Rightarrow> recording_device" where
  "set_capture i c d = d\<lparr>rd_captures := (rd_captures d)[i := c]\<rparr>"

inductive device_step :: "recording_device \<Rightarrow> recording_device \<Rightarrow> bool" where
  prepare: "i < length (rd_captures d) \<Longrightarrow> capture_prepare owner (rd_captures d ! i) (rd_heap d) = Ok (c, h) \<Longrightarrow>
    device_step d (set_capture i c d\<lparr>rd_heap := h\<rparr>)"
| begin_window: "i < length (rd_captures d) \<Longrightarrow> capture_begin (rd_captures d ! i) (rd_count d) (rd_heap d) = Ok (c, n, h) \<Longrightarrow>
    device_step d (set_capture i c d\<lparr>rd_count := n, rd_heap := h\<rparr>)"
| end_window: "i < length (rd_captures d) \<Longrightarrow> capture_finish caller (rd_captures d ! i) (rd_count d) = Ok (e, c, n) \<Longrightarrow>
    device_step d (set_capture i c d\<lparr>rd_count := n\<rparr>)"
| abort: "i < length (rd_captures d) \<Longrightarrow> capture_abort (rd_captures d ! i) (rd_count d) (rd_heap d) = (c, n, h) \<Longrightarrow>
    device_step d (set_capture i c d\<lparr>rd_count := n, rd_heap := h\<rparr>)"
| work: "i < length (rd_captures d) \<Longrightarrow> device_step d (set_capture i (capture_work w (rd_captures d ! i)) d)"
| prime: "i < length (rd_captures d) \<Longrightarrow> capture_prime m (rd_captures d ! i) (rd_heap d) = (c, h) \<Longrightarrow>
    device_step d (set_capture i c d\<lparr>rd_heap := h\<rparr>)"
| take_all: "i < length (rd_captures d) \<Longrightarrow> take_recorded (rd_captures d ! i) (rd_heap d) = (bs, c, h) \<Longrightarrow>
    device_step d (set_capture i (snd (take_failure (snd (take_retained_host (snd (take_touched c)))))) d\<lparr>rd_heap := h\<rparr>)"
| grow: "device_step d (d\<lparr>rd_captures := rd_captures d @ [capture_new]\<rparr>)"

definition device_new :: "heap \<Rightarrow> recording_device" where
  "device_new h = \<lparr>rd_captures = [], rd_count = 0, rd_heap = h\<rparr>"

definition recording_streams :: "recording_device \<Rightarrow> nat" where
  "recording_streams d = length (filter is_recording (rd_captures d))"

lemma filter_update:
  "i < length xs \<Longrightarrow> length (filter P (xs[i := x])) + (if P (xs ! i) then 1 else 0) = length (filter P xs) + (if P x then 1 else 0)"
proof (induction xs arbitrary: i)
  case (Cons a xs)
  then show ?case by (cases i) auto
qed simp

lemma recording_streams_set:
  "i < length (rd_captures d) \<Longrightarrow> recording_streams (set_capture i c d) + (if is_recording (rd_captures d ! i) then 1 else 0) =
     recording_streams d + (if is_recording c then 1 else 0)"
  by (simp add: recording_streams_def set_capture_def filter_update)

lemma recording_streams_cong [simp]:
  "recording_streams (d\<lparr>rd_count := n\<rparr>) = recording_streams d" "recording_streams (d\<lparr>rd_heap := h\<rparr>) = recording_streams d"
  by (simp_all add: recording_streams_def)

lemma recording_some: "i < length (rd_captures d) \<Longrightarrow> is_recording (rd_captures d ! i) \<Longrightarrow> 0 < recording_streams d"
  by (auto simp: recording_streams_def filter_empty_conv)

lemmas transition_defs = state_prepare_def state_begin_def state_end_def state_abort_def state_is_recording_def

lemma clear_state [simp]: "sc_state (fst (capture_clear c h)) = sc_state c"
  by (simp add: capture_clear_def drop_primed_def)

lemma prepare_recording: "capture_prepare owner c h = Ok (c', h') \<Longrightarrow> \<not> is_recording c \<and> \<not> is_recording c'"
  by (cases "sc_state c")
    (auto simp: capture_prepare_def transition_defs is_recording_def capture_clear_def drop_primed_def)

lemma begin_recording: "capture_begin c n h = Ok (c', n', h') \<Longrightarrow> \<not> is_recording c \<and> is_recording c' \<and> n' = n + 1"
  by (cases "sc_state c")
    (auto simp: capture_begin_def transition_defs is_recording_def drop_primed_def recording_enter_def)

lemma finish_recording:
  "capture_finish caller c n = Ok (e, c', n') \<Longrightarrow> is_recording c \<and> \<not> is_recording c' \<and> n' = recording_leave n"
  by (cases "sc_state c") (auto simp: capture_finish_def transition_defs is_recording_def)

lemma abort_recording:
  "capture_abort c n h = (c', n', h') \<Longrightarrow> \<not> is_recording c' \<and> n' = (if is_recording c then recording_leave n else n)"
  by (auto simp: capture_abort_def Let_def capture_clear_def drop_primed_def transition_defs is_recording_def)

lemma work_state [simp]: "sc_state (capture_work w c) = sc_state c"
  by (cases w) (simp_all add: capture_record_def capture_touch_def capture_fail_def retain_host_def)

lemma prime_recording: "capture_prime m c h = (c', h') \<Longrightarrow> is_recording c' = is_recording c"
  by (auto simp: capture_prime_def is_recording_def split: capture_state.splits)

lemma take_recording: "take_recorded c h = (bs, c', h') \<Longrightarrow> is_recording c' = is_recording c"
  by (auto simp: take_recorded_def is_recording_def split: prod.splits)

lemma device_step_count: "device_step d d' \<Longrightarrow> rd_count d = recording_streams d \<Longrightarrow> rd_count d' = recording_streams d'"
proof (induction rule: device_step.induct)
  case (prepare i d owner c h)
  then show ?case using recording_streams_set [of i d c] prepare_recording by (fastforce simp: set_capture_def)
next
  case (begin_window i d c n h)
  then show ?case using recording_streams_set [of i d c] begin_recording by fastforce
next
  case (end_window i d caller e c n)
  then show ?case using recording_streams_set [of i d c] finish_recording recording_some [of i d]
    by (fastforce simp: recording_leave_def)
next
  case (abort i d c n h)
  then show ?case using recording_streams_set [of i d c] abort_recording [OF abort(2)] recording_some [of i d]
    by (auto simp: recording_leave_def split: if_splits)
next
  case (work i d w)
  then show ?case using recording_streams_set [of i d "capture_work w (rd_captures d ! i)"]
    by (simp add: set_capture_def is_recording_def)
next
  case (prime i d m c h)
  then show ?case using recording_streams_set [of i d c] prime_recording by (fastforce simp: set_capture_def)
next
  case (take_all i d bs c h)
  let ?c = "snd (take_failure (snd (take_retained_host (snd (take_touched c)))))"
  have "is_recording ?c = is_recording (rd_captures d ! i)"
    using take_recording [OF take_all(2)]
    by (simp add: take_failure_def take_retained_host_def take_touched_def is_recording_def)
  then show ?case using take_all recording_streams_set [of i d ?c] by (auto simp: set_capture_def)
next
  case (grow d)
  then show ?case by (simp add: recording_streams_def capture_new_def is_recording_def state_is_recording_def)
qed


section \<open>A window\<close>

definition recorded_by :: "window_work list \<Rightarrow> buffer_binding list" where
  "recorded_by ws = concat (map (\<lambda>w. case w of Record bs \<Rightarrow> bs | _ \<Rightarrow> []) ws)"

definition touched_by :: "window_work list \<Rightarrow> touched_page list" where
  "touched_by ws = concat (map (\<lambda>w. case w of Touch sid l \<Rightarrow> [\<lparr>tp_stream = sid, tp_location = l\<rparr>] | _ \<Rightarrow> []) ws)"

definition doomed_by :: "window_work list \<Rightarrow> server_error option" where
  "doomed_by ws = (case concat (map (\<lambda>w. case w of Doom e \<Rightarrow> [e] | _ \<Rightarrow> []) ws) of [] \<Rightarrow> None | e # _ \<Rightarrow> Some e)"

lemma work_outside: "\<not> is_recording c \<Longrightarrow> sc_recorded (fold capture_work ws c) = sc_recorded c \<and>
    sc_touched (fold capture_work ws c) = sc_touched c \<and> sc_failed (fold capture_work ws c) = sc_failed c \<and>
    sc_state (fold capture_work ws c) = sc_state c"
proof (induction ws arbitrary: c)
  case (Cons w ws)
  then have "\<not> is_recording (capture_work w c)" by (simp add: is_recording_def)
  from Cons.IH [OF this] Cons.prems show ?case
    by (cases w) (simp_all add: capture_record_def capture_touch_def capture_fail_def retain_host_def)
qed simp

lemma map_downgrade [simp]: "map downgrade bs = bs"
  by (simp add: downgrade_def map_idI)

lemma work_inside:
  "is_recording c \<Longrightarrow> sc_recorded (fold capture_work ws c) = sc_recorded c @ recorded_by ws \<and>
    sc_touched (fold capture_work ws c) = sc_touched c @ touched_by ws \<and>
    sc_failed (fold capture_work ws c) = (case sc_failed c of Some e \<Rightarrow> Some e | None \<Rightarrow> doomed_by ws) \<and>
    sc_state (fold capture_work ws c) = sc_state c"
proof (induction ws arbitrary: c)
  case Nil
  then show ?case by (simp add: recorded_by_def touched_by_def doomed_by_def split: option.splits)
next
  case (Cons w ws)
  then have "is_recording (capture_work w c)" by (simp add: is_recording_def)
  from Cons.IH [OF this] Cons.prems show ?case
    by (cases w) (auto simp: capture_record_def capture_touch_def capture_fail_def retain_host_def downgrade_def
        recorded_by_def touched_by_def doomed_by_def is_recording_def split: option.splits)
qed

text \<open>C19: One whole capture, from a stream that is not capturing: each transition is accepted, the
  window collects exactly the write sets, the pages and the first failure reported while it was
  open, in order, whatever was reported before it opened, and it is sealed for the stream that
  prepared it and abandoned for any other; every call out of order is refused.
\<close>

theorem window_holds_its_work:
  assumes "sc_state c = NoCapture"
  shows "\<exists>c1 h1 c2 h2 c3. capture_prepare owner c h = Ok (c1, h1) \<and>
    capture_begin (fold capture_work us c1) n h1 = Ok (c2, n + 1, h2) \<and>
    capture_finish caller (fold capture_work vs c2) (n + 1) = Ok (if caller = owner then Owned owner else Abandoned owner, c3, n) \<and>
    sc_state c3 = NoCapture \<and> sc_recorded c3 = recorded_by vs \<and> sc_touched c3 = touched_by vs \<and>
    sc_failed c3 = doomed_by vs \<and> sc_primed c2 = [] \<and>
    (\<exists>x. capture_begin c n h = Err x) \<and> (\<exists>x. capture_finish caller c n = Err x) \<and>
    (\<exists>x. capture_prepare caller c1 h1 = Err x) \<and> (\<exists>x. capture_finish caller c1 n = Err x) \<and>
    (\<exists>x. capture_prepare caller c2 h2 = Err x) \<and> (\<exists>x. capture_begin c2 (n + 1) h2 = Err x)"
proof -
  obtain c1 h1 where c1: "capture_prepare owner c h = Ok (c1, h1)" "sc_state c1 = Prepare owner" "sc_recorded c1 = []"
    "sc_touched c1 = []" "sc_failed c1 = None"
    using assms by (auto simp: capture_prepare_def transition_defs capture_clear_def drop_primed_def)
  let ?b = "fold capture_work us c1"
  have b: "sc_state ?b = Prepare owner" "sc_recorded ?b = []" "sc_touched ?b = []" "sc_failed ?b = None"
    using work_outside [of c1 us] c1 by (simp_all add: is_recording_def state_is_recording_def)
  then obtain c2 h2 where c2: "capture_begin ?b n h1 = Ok (c2, n + 1, h2)" "sc_state c2 = Capturing owner" "sc_recorded c2 = []"
    "sc_touched c2 = []" "sc_failed c2 = None" "sc_primed c2 = []"
    by (auto simp: capture_begin_def transition_defs drop_primed_def recording_enter_def)
  let ?d = "fold capture_work vs c2"
  have d: "sc_state ?d = Capturing owner" "sc_recorded ?d = recorded_by vs" "sc_touched ?d = touched_by vs" "sc_failed ?d = doomed_by vs"
    using work_inside [of c2 vs] c2 by (simp_all add: is_recording_def state_is_recording_def)
  then have "capture_finish caller ?d (n + 1) =
      Ok (if caller = owner then Owned owner else Abandoned owner, ?d\<lparr>sc_state := NoCapture\<rparr>, n)"
    by (simp add: capture_finish_def transition_defs recording_leave_def)
  moreover have "(\<exists>x. capture_begin c n h = Err x) \<and> (\<exists>x. capture_finish caller c n = Err x) \<and>
      (\<exists>x. capture_prepare caller c1 h1 = Err x) \<and> (\<exists>x. capture_finish caller c1 n = Err x) \<and>
      (\<exists>x. capture_prepare caller c2 h2 = Err x) \<and> (\<exists>x. capture_begin c2 (n + 1) h2 = Err x)"
    using assms c1(2) c2(2) by (simp add: capture_begin_def capture_finish_def capture_prepare_def transition_defs)
  ultimately show ?thesis using c1(1) c2(1,6) d
    by (intro exI [of _ c1] exI [of _ h1] exI [of _ c2] exI [of _ h2] exI [of _ "?d\<lparr>sc_state := NoCapture\<rparr>"]) simp
qed

section \<open>Collecting the write set\<close>

lemma upgrade_all_kept: "fst (upgrade_all ws h) = filter (\<lambda>b. 1 < strong_count h (bb_memory b)) ws"
proof (induction ws arbitrary: h)
  case (Cons w ws)
  have "filter (\<lambda>b. 1 < strong_count (clone_binding (bb_memory w) h) (bb_memory b)) ws = filter (\<lambda>b. 1 < strong_count h (bb_memory b)) ws"
    if "1 < strong_count h (bb_memory w)" using that by (intro filter_cong refl) (auto simp: heap_simps)
  with Cons.IH show ?case
    using upgrade_binding_cases [of w h] by (auto simp: downgrade_def split: prod.splits) (metis fst_conv)+
qed simp

lemma dedup_sorted:
  "sorted (map key xs) \<Longrightarrow> distinct (map key (fst (dedup_by_key key xs))) \<and> key ` set (fst (dedup_by_key key xs)) = key ` set xs \<and>
     set (fst (dedup_by_key key xs)) \<subseteq> set xs"
  for key :: "'a \<Rightarrow> 'k :: linorder"
proof (induction key xs rule: dedup_by_key.induct)
  case (3 key x y ys)
  show ?case
  proof (cases "key x = key y")
    case True
    have "sorted (map key (x # ys))" using 3(3) by auto
    from 3(1) [OF True this] True show ?thesis by (auto split: prod.splits)
  next
    case False
    have "sorted (map key (y # ys))" using 3(3) by auto
    note ih = 3(2) [OF False this]
    have "key x \<notin> key ` set (y # ys)" using 3(3) False by auto
    with ih False show ?thesis by (auto split: prod.splits)
  qed
qed simp_all

text \<open>What the end of a window collects names every claim recorded in it once: one binding for
  each distinct memory and byte range whose memory something other than its pool still holds, and
  no binding that was not recorded.
\<close>

theorem take_recorded_claims:
  assumes "take_recorded c h = (bs, c', h')"
  shows "distinct (map claim_key bs) \<and> set bs \<subseteq> set (sc_recorded c) \<and>
     claim_key ` set bs = claim_key ` {b \<in> set (sc_recorded c). 1 < strong_count h (bb_memory b)} \<and> sc_recorded c' = []"
proof -
  let ?xs = "sort_key claim_key (filter (\<lambda>b. 1 < strong_count h (bb_memory b)) (sc_recorded c))"
  have bs: "bs = fst (dedup_by_key claim_key ?xs)" "sc_recorded c' = []"
    using assms upgrade_all_kept [of "sc_recorded c" h] by (auto simp: take_recorded_def split: prod.splits)
  have "sorted (map claim_key ?xs)" by simp
  from dedup_sorted [OF this] bs show ?thesis by (auto simp only: set_sort set_filter)
qed

section \<open>One window\<close>

definition sample_binding :: buffer_binding where
  "sample_binding = \<lparr>bb_memory = 0, bb_service = 0, bb_offset_start = None, bb_offset_end = None, bb_stream = 7, bb_size = 8\<rparr>"

definition sample_capture :: stream_capture where
  "sample_capture = capture_new\<lparr>sc_recorded := [sample_binding, sample_binding\<lparr>bb_stream := 8\<rparr>]\<rparr>"

definition sample_held :: heap where
  "sample_held = clone_handle 0 (snd (handle_new heap_empty))"


theorem window_holds_its_work_witness:
  "\<exists>c3 n. capture_finish 8 (fold capture_work [Record [sample_binding], Doom TornDown]
     (capture_new\<lparr>sc_state := Capturing 7\<rparr>)) 1 = Ok (Abandoned 7, c3, n) \<and> sc_failed c3 = Some TornDown"
  using window_holds_its_work [of capture_new 7 heap_empty "[]" 0 8 "[Record [sample_binding], Doom TornDown]"]
  by (auto simp: capture_new_def capture_prepare_def capture_begin_def transition_defs capture_clear_def drop_primed_def
      recording_enter_def doomed_by_def)

theorem take_recorded_claims_witness:
  "distinct (map claim_key (fst (take_recorded sample_capture sample_held))) \<and>
   claim_key ` set (fst (take_recorded sample_capture sample_held)) = {(0, 0, 8)}"
proof -
  obtain bs c' h' where t: "take_recorded sample_capture sample_held = (bs, c', h')" by (cases "take_recorded sample_capture sample_held")
  have "{b \<in> set (sc_recorded sample_capture). 1 < strong_count sample_held (bb_memory b)} = {sample_binding, sample_binding\<lparr>bb_stream := 8\<rparr>}"
    by (auto simp: sample_capture_def sample_binding_def capture_new_def sample_held_def strong_count_def clone_handle_def modify_def
        handle_new_def heap_empty_def)
  moreover have "claim_key ` {sample_binding, sample_binding\<lparr>bb_stream := 8\<rparr>} = {(0, 0, 8)}"
    by (simp add: sample_binding_def claim_key_def binding_range_def unwrap_or_def u64_sub_def)
  ultimately have "claim_key ` {b \<in> set (sc_recorded sample_capture). 1 < strong_count sample_held (bb_memory b)} = {(0, 0, 8)}" by simp
  with take_recorded_claims [OF t] t show ?thesis by simp
qed

end
