(* ===== verification/Execute_Scope.thy ===== *)
theory Execute_Scope
  imports Host_Stream Capture
begin

text \<open>
  One scope around a unit of device work (\<open>cubecl-server/src/stream/execute_scope.rs\<close>). A server is
  what \<open>WriteScoped\<close> asks of it: the failure store of its driver, the captures of its pooled
  streams, the heap of descriptors, and the rest, which only \<open>on_failure\<close> touches and which is a
  parameter. A body returns a result and the server it leaves; a panic in it unwinds through the
  scope, so the exit never runs.
\<close>

record ('s, 'f, 'x) server =
  sv_store :: "('s, 'f) failure_store"
  sv_capture :: "nat \<Rightarrow> stream_capture option"
  sv_heap :: heap
  sv_rest :: 'x

datatype 'r scoped_outcome = Executed 'r | SkippedWork | FailedWork server_error

datatype opened = Entered "failure_id option" "buffer_binding list" | SkippedScope

record execute_scope =
  es_stream :: stream_id
  es_opened :: opened

definition into_result :: "'r scoped_outcome \<Rightarrow> (server_error, 'r) outcome" where
  "into_result out = (case out of Executed r \<Rightarrow> Ok r | FailedWork e \<Rightarrow> Err e | SkippedWork \<Rightarrow> Err SkippedLaunch)"

text \<open>\<open>write_set\<close> and \<open>capturing\<close> of \<open>WriteScoped\<close>; the capture is the one of the pooled stream.\<close>

definition server_write_set :: "('s, 'f, 'x) server \<Rightarrow> buffer_binding list \<times> ('s, 'f, 'x) server" where
  "server_write_set sv = (case write_set (sv_store sv) of (bs, st) \<Rightarrow> (bs, sv\<lparr>sv_store := st\<rparr>))"

definition tell_capture :: "stream_id \<Rightarrow> (stream_capture \<Rightarrow> stream_capture) \<Rightarrow> ('s, 'f, 'x) server \<Rightarrow> ('s, 'f, 'x) server" where
  "tell_capture sid f sv =
     (let k = slot (st_pool (sv_store sv)) sid
      in sv\<lparr>sv_capture := (sv_capture sv)(k := map_option f (sv_capture sv k))\<rparr>)"

definition scope_over ::
  "'s memory_ops \<Rightarrow> stream_id \<Rightarrow> buffer_binding list \<Rightarrow> ('s, 'f, 'x) server
     \<Rightarrow> (server_error, execute_scope \<times> ('s, 'f, 'x) server) outcome" where
  "scope_over ops sid ws sv =
     try_then (enter_write ops (sv_heap sv) ws (sv_store sv)) (\<lambda>(provisional, st).
       Ok (\<lparr>es_stream = sid, es_opened = Entered provisional ws\<rparr>, sv\<lparr>sv_store := st\<rparr>))"

definition scope_launching ::
  "'s memory_ops \<Rightarrow> (stream_id \<Rightarrow> server_error \<Rightarrow> 'x \<Rightarrow> 'x) \<Rightarrow> string \<Rightarrow> stream_id \<Rightarrow> buffer_binding list \<Rightarrow> buffer_binding list
     \<Rightarrow> ('s, 'f, 'x) server \<Rightarrow> (server_error, execute_scope \<times> ('s, 'f, 'x) server) outcome" where
  "scope_launching ops on_failure k sid reads ws sv =
     try_then (read_failure ops (sv_heap sv) reads (sv_store sv)) (\<lambda>r. case r of
       None \<Rightarrow> scope_over ops sid ws sv
     | Some found \<Rightarrow>
         let sv = sv\<lparr>sv_rest := on_failure sid (rf_error found) (sv_rest sv)\<rparr>;
             sv = tell_capture sid (capture_fail (rf_error found)) sv
         in try_then (propagate ops (sv_heap sv) found k ws (sv_store sv)) (\<lambda>st.
              Ok (\<lparr>es_stream = sid, es_opened = SkippedScope\<rparr>, sv\<lparr>sv_store := st\<rparr>)))"

definition scope_skipped :: "execute_scope \<Rightarrow> bool" where
  "scope_skipped sc = (case es_opened sc of SkippedScope \<Rightarrow> True | Entered _ _ \<Rightarrow> False)"

definition scope_execute ::
  "'s memory_ops \<Rightarrow> (stream_id \<Rightarrow> server_error \<Rightarrow> 'x \<Rightarrow> 'x)
     \<Rightarrow> (('s, 'f, 'x) server \<Rightarrow> (server_error, 'r) outcome \<times> ('s, 'f, 'x) server) \<Rightarrow> execute_scope
     \<Rightarrow> ('s, 'f, 'x) server \<Rightarrow> (server_error, 'r scoped_outcome) outcome \<times> ('s, 'f, 'x) server" where
  "scope_execute ops on_failure body sc sv = (case es_opened sc of
     SkippedScope \<Rightarrow> (Ok SkippedWork, sv)
   | Entered provisional ws \<Rightarrow> (case body sv of
       (Panic, sv) \<Rightarrow> (Panic, sv)
     | (Ok r, sv) \<Rightarrow>
         let sv = tell_capture (es_stream sc) (capture_record ws) sv
         in (case exit_write ops (sv_heap sv) provisional ws None (sv_store sv) of
               Ok st \<Rightarrow> (Ok (Executed r), sv\<lparr>sv_store := st\<rparr>)
             | _ \<Rightarrow> (Panic, sv))
     | (Err e, sv) \<Rightarrow>
         let sv = tell_capture (es_stream sc) (capture_fail e) sv
         in (case exit_write ops (sv_heap sv) provisional ws (Some e) (sv_store sv) of
               Ok st \<Rightarrow> (Ok (FailedWork e), sv\<lparr>sv_store := st, sv_rest := on_failure (es_stream sc) e (sv_rest sv)\<rparr>)
             | _ \<Rightarrow> (Panic, sv))))"

definition failed_writing ::
  "'s memory_ops \<Rightarrow> (stream_id \<Rightarrow> server_error \<Rightarrow> 'x \<Rightarrow> 'x) \<Rightarrow> stream_id \<Rightarrow> buffer_binding list \<Rightarrow> server_error
     \<Rightarrow> ('s, 'f, 'x) server \<Rightarrow> (server_error, unit scoped_outcome) outcome \<times> ('s, 'f, 'x) server" where
  "failed_writing ops on_failure sid ws err sv = (case scope_over ops sid ws sv of
     Ok (sc, sv) \<Rightarrow> scope_execute ops on_failure (\<lambda>sv. (Err err, sv)) sc sv
   | _ \<Rightarrow> (Panic, sv))"

section \<open>Settling\<close>

text \<open>A body that works on the device and leaves the failure store and the descriptors alone.\<close>

definition quiet :: "(('s, 'f, 'x) server \<Rightarrow> (server_error, 'r) outcome \<times> ('s, 'f, 'x) server) \<Rightarrow> bool" where
  "quiet body \<longleftrightarrow> (\<forall>sv. sv_store (snd (body sv)) = sv_store sv \<and> sv_heap (snd (body sv)) = sv_heap sv)"

lemma tell_capture_fields [simp]:
  "sv_store (tell_capture sid f sv) = sv_store sv" "sv_heap (tell_capture sid f sv) = sv_heap sv"
  "sv_rest (tell_capture sid f sv) = sv_rest sv"
  by (simp_all add: tell_capture_def Let_def)

lemma scope_execute_settles:
  assumes "quiet body" "es_opened sc = Entered provisional ws" "body sv = (res, sv')"
  shows "scope_execute ops onf body sc sv = (out, sv2) \<Longrightarrow>
    (case res of
       Panic \<Rightarrow> out = Panic \<and> sv_store sv2 = sv_store sv
     | Ok r \<Rightarrow> (\<forall>st. exit_write ops (sv_heap sv) provisional ws None (sv_store sv) = Ok st \<longrightarrow> out = Ok (Executed r) \<and> sv_store sv2 = st)
     | Err e \<Rightarrow> (\<forall>st. exit_write ops (sv_heap sv) provisional ws (Some e) (sv_store sv) = Ok st \<longrightarrow> out = Ok (FailedWork e) \<and> sv_store sv2 = st))
    \<and> sv_heap sv2 = sv_heap sv"
proof -
  have q: "sv_store sv' = sv_store sv" "sv_heap sv' = sv_heap sv" using assms(1,3) by (metis quiet_def snd_conv)+
  show "scope_execute ops onf body sc sv = (out, sv2) \<Longrightarrow> ?thesis"
    using assms(2,3) q by (cases res) (auto simp: scope_execute_def Let_def split: outcome.splits)
qed

text \<open>Whether the bytes of the write set have a writer once the scope is left.\<close>

definition wrote :: "(server_error, 'r scoped_outcome) outcome \<Rightarrow> bool" where
  "wrote out = (case out of Ok (Executed r) \<Rightarrow> True | _ \<Rightarrow> False)"

context stream_memory
begin

text \<open>
  How a scope over a write set that is not empty ends, by what its body did, from a store at rest.
  The memories and slots are the same ones throughout; a byte outside the write set keeps its
  claim, a byte of it is clean after success and otherwise carries one failure, whose error is the
  body's, or \<open>TornDown\<close> when the body never returned.
\<close>

lemma over_settles:
  assumes "store_ok (sv_heap sv) (sv_store sv)" "\<forall>b \<in> set ws. reaches (sv_heap sv) (st_pool (sv_store sv)) b" "ws \<noteq> []"
    "minted (store_graph (sv_store sv)) + 1 < 2 ^ 64" "quiet body"
  defines "p \<equiv> st_pool (sv_store sv)" and "h \<equiv> sv_heap sv" and "f \<equiv> minted (store_graph (sv_store sv)) + 1"
  shows "\<exists>sc sv1 out sv2. scope_over ops sid ws sv = Ok (sc, sv1) \<and> scope_execute ops onf body sc sv1 = (out, sv2) \<and>
    sv_heap sv2 = h \<and> tallied h (st_pool (sv_store sv2)) (store_graph (sv_store sv2)) \<and> same_shape h p (st_pool (sv_store sv2)) \<and>
    minted (store_graph (sv_store sv2)) = f \<and>
    (case fst (body sv1) of
       Ok r \<Rightarrow> out = Ok (Executed r) \<and> store_ok h (sv_store sv2) \<and> \<not> is_held (store_graph (sv_store sv2)) f \<and>
         (\<forall>k i x. resolves h p k i \<longrightarrow> byte_claim (st_pool (sv_store sv2)) k i x = (if names p ws k i x then None else byte_claim p k i x))
     | Err e \<Rightarrow> out = Ok (FailedWork e) \<and> store_ok h (sv_store sv2) \<and>
         (is_held (store_graph (sv_store sv2)) f \<longrightarrow> graph_error (store_graph (sv_store sv2)) f = Some e) \<and>
         (\<forall>k i x. resolves h p k i \<longrightarrow> byte_claim (st_pool (sv_store sv2)) k i x = (if names p ws k i x then Some f else byte_claim p k i x))
     | Panic \<Rightarrow> out = Panic \<and> graph_error (store_graph (sv_store sv2)) f = Some TornDown \<and>
         (\<forall>x. x \<noteq> f \<and> is_held (store_graph (sv_store sv2)) x \<longrightarrow> 0 < tags (store_graph (sv_store sv2)) x) \<and>
         (\<forall>k i x. resolves h p k i \<longrightarrow> byte_claim (st_pool (sv_store sv2)) k i x = (if names p ws k i x then Some f else byte_claim p k i x))) \<and>
    (\<forall>x. x \<noteq> f \<and> is_held (store_graph (sv_store sv2)) x \<longrightarrow>
       graph_error (store_graph (sv_store sv2)) x = graph_error (store_graph (sv_store sv)) x)"
proof -
  from enter_spec [OF assms(1-4)] obtain st where e: "enter_write ops h ws (sv_store sv) = Ok (Some f, st)"
    "tallied h (st_pool st) (store_graph st)" "same_shape h p (st_pool st)" "graph_error (store_graph st) f = Some TornDown"
    "\<forall>x. x \<noteq> f \<and> is_held (store_graph st) x \<longrightarrow> 0 < tags (store_graph st) x \<and> graph_error (store_graph st) x = graph_error (store_graph (sv_store sv)) x"
    "\<forall>k i x. resolves h p k i \<longrightarrow> byte_claim (st_pool st) k i x = (if names p ws k i x then Some f else byte_claim p k i x)"
    "minted (store_graph st) = f"
    unfolding h_def p_def f_def by blast
  let ?sc = "\<lparr>es_stream = sid, es_opened = Entered (Some f) ws\<rparr>" and ?sv = "sv\<lparr>sv_store := st\<rparr>"
  have over: "scope_over ops sid ws sv = Ok (?sc, ?sv)" using e(1) by (simp add: scope_over_def h_def)
  obtain res sv' where body: "body ?sv = (res, sv')" by fastforce
  obtain out sv2 where ex: "scope_execute ops onf body ?sc ?sv = (out, sv2)" by fastforce
  note set = scope_execute_settles [OF assms(5) _ body ex, simplified]
  have hp: "sv_heap sv2 = h" using set by (simp add: h_def)
  have reach: "\<forall>b \<in> set ws. reaches h (st_pool st) b"
    using assms(2) same_shape_reaches [OF e(3)] by (simp add: h_def p_def)
  have only: "names (st_pool st) ws k i x"
    if "k < length (streams (st_pool st))" "resolves h (st_pool st) k i" "byte_claim (st_pool st) k i x = Some f" for k i x
  proof (rule ccontr)
    assume n: "\<not> names (st_pool st) ws k i x"
    have r: "resolves h p k i" "k < length (streams p)" using that(1,2) e(3) by (simp_all add: same_shape_def)
    with e(6) n that(3) same_shape_names [OF e(3)] have c: "byte_claim p k i x = Some f" by (simp split: if_splits)
    have "tallied h p (store_graph (sv_store sv))" using assms(1) by (simp add: store_ok_def p_def h_def)
    moreover from claim_held [OF this r(2,1) c] have "is_held (store_graph (sv_store sv)) f" .
    ultimately show False by (auto simp: tallied_def f_def)
  qed
  have shape: "same_shape h p q" if "same_shape h (st_pool st) q" for q using that e(3) same_shape_trans by blast
  have cases: "tallied h (st_pool (sv_store sv2)) (store_graph (sv_store sv2)) \<and> same_shape h p (st_pool (sv_store sv2)) \<and>
    minted (store_graph (sv_store sv2)) = f \<and>
    (case res of
       Ok r \<Rightarrow> out = Ok (Executed r) \<and> store_ok h (sv_store sv2) \<and> \<not> is_held (store_graph (sv_store sv2)) f \<and>
         (\<forall>k i x. resolves h p k i \<longrightarrow> byte_claim (st_pool (sv_store sv2)) k i x = (if names p ws k i x then None else byte_claim p k i x))
     | Err e \<Rightarrow> out = Ok (FailedWork e) \<and> store_ok h (sv_store sv2) \<and>
         (is_held (store_graph (sv_store sv2)) f \<longrightarrow> graph_error (store_graph (sv_store sv2)) f = Some e) \<and>
         (\<forall>k i x. resolves h p k i \<longrightarrow> byte_claim (st_pool (sv_store sv2)) k i x = (if names p ws k i x then Some f else byte_claim p k i x))
     | Panic \<Rightarrow> out = Panic \<and> graph_error (store_graph (sv_store sv2)) f = Some TornDown \<and>
         (\<forall>x. x \<noteq> f \<and> is_held (store_graph (sv_store sv2)) x \<longrightarrow> 0 < tags (store_graph (sv_store sv2)) x) \<and>
         (\<forall>k i x. resolves h p k i \<longrightarrow> byte_claim (st_pool (sv_store sv2)) k i x = (if names p ws k i x then Some f else byte_claim p k i x))) \<and>
    (\<forall>x. x \<noteq> f \<and> is_held (store_graph (sv_store sv2)) x \<longrightarrow>
       graph_error (store_graph (sv_store sv2)) x = graph_error (store_graph (sv_store sv)) x)"
  proof (cases res)
    case (Ok r)
    have rest: "\<forall>x. x \<noteq> f \<and> is_held (store_graph st) x \<longrightarrow> 0 < tags (store_graph st) x" using e(5) by blast
    obtain st' where x: "exit_write ops h (Some f) ws None st = outcome.Ok st'" "store_ok h st'" "same_shape h (st_pool st) (st_pool st')"
      "\<not> is_held (store_graph st') f" "minted (store_graph st') = minted (store_graph st)"
      "\<forall>x. is_held (store_graph st') x \<longrightarrow> graph_error (store_graph st') x = graph_error (store_graph st) x"
      "\<forall>k i x. resolves h (st_pool st) k i \<longrightarrow>
         byte_claim (st_pool st') k i x = (if names (st_pool st) ws k i x then None else byte_claim (st_pool st) k i x)"
      using exit_ok_spec [OF e(2) reach rest only] by blast
    then have s2: "out = outcome.Ok (Executed r)" "sv_store sv2 = st'" using set Ok by (simp_all add: h_def)
    have er: "graph_error (store_graph st') x = graph_error (store_graph (sv_store sv)) x" if "x \<noteq> f" "is_held (store_graph st') x" for x
    proof -
      from that(2) x(6) have "graph_error (store_graph st') x = graph_error (store_graph st) x" by blast
      moreover from this that(2) have "is_held (store_graph st) x" by (simp add: is_held_error)
      ultimately show ?thesis using e(5) that(1) by simp
    qed
    have "byte_claim (st_pool st') k i x = (if names p ws k i x then None else byte_claim p k i x)" if "resolves h p k i" for k i x
      using x(7) e(6) e(3) that same_shape_names [OF e(3)] by (simp add: same_shape_def)
    with x s2 er shape e(7) Ok show ?thesis by (simp add: store_ok_def)
  next
    case (Err er)
    have rest: "\<forall>x. x \<noteq> f \<and> is_held (store_graph st) x \<longrightarrow> 0 < tags (store_graph st) x" using e(5) by blast
    obtain st' where x: "exit_write ops h (Some f) ws (Some er) st = outcome.Ok st'" "store_ok h st'" "st_pool st' = st_pool st"
      "minted (store_graph st') = minted (store_graph st)"
      "\<forall>x. is_held (store_graph st') x \<longrightarrow> graph_error (store_graph st') x = (if x = f then Some er else graph_error (store_graph st) x)"
      using exit_err_spec [OF e(2) rest] by blast
    then have s2: "out = outcome.Ok (FailedWork er)" "sv_store sv2 = st'" using set Err by (simp_all add: h_def)
    have "graph_error (store_graph st') x = graph_error (store_graph (sv_store sv)) x" if "x \<noteq> f" "is_held (store_graph st') x" for x
    proof -
      from that x(5) have "graph_error (store_graph st') x = graph_error (store_graph st) x" by simp
      moreover from this that(2) have "is_held (store_graph st) x" by (simp add: is_held_error)
      ultimately show ?thesis using e(5) that(1) by simp
    qed
    with x s2 e(3,6,7) Err show ?thesis by (simp add: store_ok_def)
  next
    case Panic
    then have "out = outcome.Panic" "sv_store sv2 = st" using set by simp_all
    with e Panic show ?thesis by simp
  qed
  show ?thesis using over ex hp body cases by (intro exI [of _ ?sc] exI [of _ ?sv] exI [of _ out] exI [of _ sv2]) simp
qed

text \<open>An empty write set claims nothing and leaves the store as it was.\<close>

lemma over_empty:
  assumes "quiet body" "scope_over ops sid [] sv = Ok (sc, sv1)" "scope_execute ops onf body sc sv1 = (out, sv2)"
  shows "sv_heap sv2 = sv_heap sv \<and> st_pool (sv_store sv2) = st_pool (sv_store sv) \<and> store_graph (sv_store sv2) = store_graph (sv_store sv)"
proof -
  have o: "sc = \<lparr>es_stream = sid, es_opened = Entered None []\<rparr>" "sv1 = sv" using assms(2) by (simp_all add: scope_over_def enter_write_def)
  obtain res sv' where body: "body sv = (res, sv')" by fastforce
  let ?st = "sv_store sv"
  have "exit_write ops h None [] e ?st = Ok (give_back (with_graph (st_pool ?st, store_graph ?st) ?st))" for h e
    by (cases e) (simp_all add: exit_write_def store_written_def with_graph_def give_back_def)
  with scope_execute_settles [OF assms(1) _ body, of sc None "[]" ops onf out sv2] assms(3) o show ?thesis
    by (cases res) simp_all
qed

definition settles_to ::
  "buffer_binding list \<Rightarrow> bool \<Rightarrow> ('s, 'f, 'x) server \<Rightarrow> ('s, 'f, 'x) server \<Rightarrow> bool" where
  "settles_to ws ok sv sv' \<longleftrightarrow> sv_heap sv' = sv_heap sv \<and> store_ok (sv_heap sv) (sv_store sv') \<and>
     same_shape (sv_heap sv) (st_pool (sv_store sv)) (st_pool (sv_store sv')) \<and>
     (\<forall>k i x. resolves (sv_heap sv) (st_pool (sv_store sv)) k i \<longrightarrow>
        (byte_claim (st_pool (sv_store sv')) k i x = None) =
        (if names (st_pool (sv_store sv)) ws k i x then ok else byte_claim (st_pool (sv_store sv)) k i x = None))"

lemma names_slot: "regular_ok p \<Longrightarrow> names p ws k i x \<Longrightarrow> k < length (streams p)"
  by (auto simp: names_def)

lemma over_step:
  assumes "store_ok (sv_heap sv) (sv_store sv)" "\<forall>b \<in> set ws. reaches (sv_heap sv) (st_pool (sv_store sv)) b"
    "minted (store_graph (sv_store sv)) + 1 < 2 ^ 64" "quiet body"
    "scope_over ops sid ws sv = Ok (sc, sv1)" "scope_execute ops onf body sc sv1 = (out, sv2)"
    "out = Panic \<Longrightarrow> \<exists>k i x. names (st_pool (sv_store sv)) ws k i x"
  shows "settles_to ws (wrote out) sv sv2"
proof (cases "ws = []")
  case True
  then have "\<not> names (st_pool (sv_store sv)) ws k i x" for k i x by (simp add: names_def)
  moreover have "sv_heap sv2 = sv_heap sv \<and> st_pool (sv_store sv2) = st_pool (sv_store sv) \<and> store_graph (sv_store sv2) = store_graph (sv_store sv)"
    using over_empty [OF assms(4) _ assms(6)] assms(5) True by simp
  ultimately show ?thesis using assms(1) by (simp add: settles_to_def store_ok_def same_shape_refl)
next
  case False
  let ?h = "sv_heap sv" and ?p = "st_pool (sv_store sv)" and ?f = "minted (store_graph (sv_store sv)) + 1" and ?st = "sv_store sv2"
  note all = over_settles [OF assms(1,2) False assms(3,4), of sid onf, unfolded assms(5), simplified, unfolded assms(6), simplified]
  have rest: "store_ok ?h ?st" if panic: "fst (body sv1) = Panic"
  proof -
    from all panic have c: "tallied ?h (st_pool ?st) (store_graph ?st)" "same_shape ?h ?p (st_pool ?st)" "out = Panic"
      "\<forall>x. x \<noteq> ?f \<and> is_held (store_graph ?st) x \<longrightarrow> 0 < tags (store_graph ?st) x"
      "\<forall>k i x. resolves ?h ?p k i \<longrightarrow> byte_claim (st_pool ?st) k i x = (if names ?p ws k i x then Some ?f else byte_claim ?p k i x)"
      by simp_all
    from assms(7) [OF c(3)] obtain k i x where n: "names ?p ws k i x" by blast
    then have r: "resolves ?h ?p k i" using assms(2) by (auto simp: names_def)
    have "regular_ok ?p" using assms(1) by (simp add: store_ok_def tallied_def)
    with n c(2) have k: "k < length (streams (st_pool ?st))" using names_slot by (simp add: same_shape_def)
    have "resolves ?h (st_pool ?st) k i" using r c(2) by (simp add: same_shape_def)
    moreover have "byte_claim (st_pool ?st) k i x = Some ?f" using c(5) r n by simp
    ultimately have "0 < tags (store_graph ?st) ?f" by (rule claim_tagged [OF c(1) k])
    then have "0 < tags (store_graph ?st) x" if "is_held (store_graph ?st) x" for x using c(4) that by (cases "x = ?f") auto
    with c(1) show ?thesis by (simp add: store_ok_def)
  qed
  show ?thesis
    using all rest by (cases "fst (body sv1)") (simp_all add: settles_to_def wrote_def)
qed

lemma launch_step:
  assumes "store_ok (sv_heap sv) (sv_store sv)" "\<forall>b \<in> set ws. reaches (sv_heap sv) (st_pool (sv_store sv)) b"
    "\<forall>b \<in> set reads. reaches (sv_heap sv) (st_pool (sv_store sv)) b"
    "minted (store_graph (sv_store sv)) + 1 < 2 ^ 64" "quiet body"
    "scope_launching ops onf kn sid reads ws sv = Ok (sc, sv1)" "scope_execute ops onf body sc sv1 = (out, sv2)"
    "out = Panic \<Longrightarrow> \<exists>k i x. names (st_pool (sv_store sv)) ws k i x"
  shows "settles_to ws (wrote out) sv sv2"
    and "out = Ok SkippedWork \<longleftrightarrow> (\<exists>b \<in> set reads. \<exists>x \<in> binding_bytes b. claim_at (st_pool (sv_store sv)) b x \<noteq> None)"
proof -
  have c: "tallied (sv_heap sv) (st_pool (sv_store sv)) (store_graph (sv_store sv))" using assms(1) by (simp add: store_ok_def)
  from read_failure_spec [OF c assms(3)] obtain r where r: "read_failure ops (sv_heap sv) reads (sv_store sv) = Ok r"
    "r = None \<longleftrightarrow> (\<forall>b \<in> set reads. \<forall>x \<in> binding_bytes b. claim_at (st_pool (sv_store sv)) b x = None)"
    "\<And>found. r = Some found \<Longrightarrow> is_held (store_graph (sv_store sv)) (rf_failure found)" by blast
  have "settles_to ws (wrote out) sv sv2 \<and> (out = Ok SkippedWork \<longleftrightarrow> r \<noteq> None)"
  proof (cases r)
    case None
    then have o: "scope_over ops sid ws sv = Ok (sc, sv1)" using assms(6) r(1) by (simp add: scope_launching_def)
    then have "out \<noteq> Ok SkippedWork" using assms(7)
      by (auto simp: scope_over_def scope_execute_def Let_def split: outcome.splits prod.splits)
    with over_step [OF assms(1,2,4,5) o assms(7,8)] None show ?thesis by simp
  next
    case (Some found)
    from propagate_spec [OF assms(1,2) r(3) [OF Some], of kn] obtain st where s: "propagate ops (sv_heap sv) found kn ws (sv_store sv) = Ok st"
      "store_ok (sv_heap sv) st" "same_shape (sv_heap sv) (st_pool (sv_store sv)) (st_pool st)"
      "\<forall>k i x. resolves (sv_heap sv) (st_pool (sv_store sv)) k i \<longrightarrow> byte_claim (st_pool st) k i x =
         (if names (st_pool (sv_store sv)) ws k i x then Some (rf_failure found) else byte_claim (st_pool (sv_store sv)) k i x)" by blast
    have "es_opened sc = SkippedScope" "sv_store sv1 = st" "sv_heap sv1 = sv_heap sv"
      using assms(6) r(1) Some s(1) by (auto simp: scope_launching_def Let_def)
    then have "out = Ok SkippedWork" "sv_store sv2 = st" "sv_heap sv2 = sv_heap sv" using assms(7) by (auto simp: scope_execute_def)
    with s Some show ?thesis by (simp add: settles_to_def wrote_def)
  qed
  then show "settles_to ws (wrote out) sv sv2"
    and "out = Ok SkippedWork \<longleftrightarrow> (\<exists>b \<in> set reads. \<exists>x \<in> binding_bytes b. claim_at (st_pool (sv_store sv)) b x \<noteq> None)"
    using r(2) by auto
qed

end

section \<open>The CPU server's scopes\<close>

text \<open>
  Scopes one after another on the streams of a CPU device, with, as a ghost, the bytes whose last
  writer did not write them: a scope that executes takes its write set out, any other outcome
  (a failure, a skip, a panic in the body) puts it in.
\<close>

type_synonym ('m, 'f, 'x) cpu_server = "(('m, bytes_storage) memory, 'f, 'x) server"

definition named :: "('m, 'f, 'x) cpu_server \<Rightarrow> buffer_binding list \<Rightarrow> (nat \<times> handle \<times> nat) set" where
  "named sv ws = {(k, i, x). cpu.names (st_pool (sv_store sv)) ws k i x}"

definition in_reach :: "('m, 'f, 'x) cpu_server \<Rightarrow> buffer_binding list \<Rightarrow> bool" where
  "in_reach sv bs \<longleftrightarrow> (\<forall>b \<in> set bs. cpu.resolves (sv_heap sv) (st_pool (sv_store sv)) (slot (st_pool (sv_store sv)) (bb_stream b)) (bb_memory b))"

definition at_rest :: "('m, 'f, 'x) cpu_server \<Rightarrow> bool" where
  "at_rest sv \<longleftrightarrow> cpu.store_ok (sv_heap sv) (sv_store sv)"

definition clean :: "('m, 'f, 'x) cpu_server \<Rightarrow> bool" where
  "clean sv \<longleftrightarrow> (\<forall>k < length (streams (st_pool (sv_store sv))). \<forall>i x. cpu.byte_claim (st_pool (sv_store sv)) k i x = None)"

definition stale_after ::
  "(server_error, 'r scoped_outcome) outcome \<Rightarrow> (nat \<times> handle \<times> nat) set \<Rightarrow> (nat \<times> handle \<times> nat) set \<Rightarrow> (nat \<times> handle \<times> nat) set" where
  "stale_after out ns st = (if wrote out then st - ns else st \<union> ns)"

inductive scoped_run ::
  "(stream_id \<Rightarrow> server_error \<Rightarrow> 'x \<Rightarrow> 'x) \<Rightarrow> ('m, 'f, 'x) cpu_server \<Rightarrow> ('m, 'f, 'x) cpu_server \<Rightarrow> (nat \<times> handle \<times> nat) set \<Rightarrow> bool"
  for onf sv0 where
  start: "scoped_run onf sv0 sv0 {}"
| over: "scoped_run onf sv0 sv st \<Longrightarrow> in_reach sv ws \<Longrightarrow> minted (store_graph (sv_store sv)) + 1 < 2 ^ 64 \<Longrightarrow> quiet (body :: ('m, 'f, 'x) cpu_server \<Rightarrow> (server_error, unit) outcome \<times> ('m, 'f, 'x) cpu_server) \<Longrightarrow>
    scope_over cpu_memory_ops sid ws sv = Ok (sc, sv1) \<Longrightarrow> scope_execute cpu_memory_ops onf body sc sv1 = (out, sv2) \<Longrightarrow>
    (out = Panic \<Longrightarrow> named sv ws \<noteq> {}) \<Longrightarrow> scoped_run onf sv0 sv2 (stale_after out (named sv ws) st)"
| launching: "scoped_run onf sv0 sv st \<Longrightarrow> in_reach sv ws \<Longrightarrow> in_reach sv reads \<Longrightarrow> minted (store_graph (sv_store sv)) + 1 < 2 ^ 64 \<Longrightarrow>
    quiet (body :: ('m, 'f, 'x) cpu_server \<Rightarrow> (server_error, unit) outcome \<times> ('m, 'f, 'x) cpu_server) \<Longrightarrow> scope_launching cpu_memory_ops onf kn sid reads ws sv = Ok (sc, sv1) \<Longrightarrow>
    scope_execute cpu_memory_ops onf body sc sv1 = (out, sv2) \<Longrightarrow>
    (out = Panic \<Longrightarrow> named sv ws \<noteq> {}) \<Longrightarrow> scoped_run onf sv0 sv2 (stale_after out (named sv ws) st)"

definition tracks :: "('m, 'f, 'x) cpu_server \<Rightarrow> ('m, 'f, 'x) cpu_server \<Rightarrow> (nat \<times> handle \<times> nat) set \<Rightarrow> bool" where
  "tracks sv0 sv st \<longleftrightarrow> at_rest sv \<and> sv_heap sv = sv_heap sv0 \<and>
     cpu.same_shape (sv_heap sv0) (st_pool (sv_store sv0)) (st_pool (sv_store sv)) \<and>
     (\<forall>k < length (streams (st_pool (sv_store sv))). \<forall>i x. cpu.resolves (sv_heap sv) (st_pool (sv_store sv)) k i \<longrightarrow>
        (cpu.byte_claim (st_pool (sv_store sv)) k i x = None \<longleftrightarrow> (k, i, x) \<notin> st))"

lemma tracks_step:
  assumes "tracks sv0 sv st" "cpu.settles_to ws (wrote out) sv sv2"
  shows "tracks sv0 sv2 (stale_after out (named sv ws) st)"
proof -
  have s: "sv_heap sv2 = sv_heap sv" "cpu.store_ok (sv_heap sv) (sv_store sv2)"
    "cpu.same_shape (sv_heap sv) (st_pool (sv_store sv)) (st_pool (sv_store sv2))"
    "\<And>k i x. cpu.resolves (sv_heap sv) (st_pool (sv_store sv)) k i \<Longrightarrow>
        (cpu.byte_claim (st_pool (sv_store sv2)) k i x = None) =
        (if cpu.names (st_pool (sv_store sv)) ws k i x then wrote out else cpu.byte_claim (st_pool (sv_store sv)) k i x = None)"
    using assms(2) by (simp_all add: cpu.settles_to_def)
  have r: "cpu.resolves (sv_heap sv) (st_pool (sv_store sv2)) k i = cpu.resolves (sv_heap sv) (st_pool (sv_store sv)) k i" for k i
    using s(3) by (simp add: cpu.same_shape_def)
  have l: "length (streams (st_pool (sv_store sv2))) = length (streams (st_pool (sv_store sv)))" using s(3) by (simp add: cpu.same_shape_def)
  have "cpu.byte_claim (st_pool (sv_store sv2)) k i x = None \<longleftrightarrow> (k, i, x) \<notin> stale_after out (named sv ws) st"
    if "cpu.resolves (sv_heap sv) (st_pool (sv_store sv)) k i" "k < length (streams (st_pool (sv_store sv)))" for k i x
    using s(4) [OF that(1), of x] that assms(1) by (simp add: tracks_def stale_after_def named_def)
  with s r l assms(1) cpu.same_shape_trans show ?thesis by (fastforce simp: tracks_def at_rest_def)
qed

lemma scoped_run_tracks:
  assumes "at_rest sv0" "clean sv0" "scoped_run onf sv0 sv st"
  shows "tracks sv0 sv st"
  using assms(3)
proof (induction rule: scoped_run.induct)
  case start
  with assms(1,2) show ?case by (simp add: tracks_def clean_def cpu.same_shape_refl)
next
  case (over sv st ws body sid sc sv1 out sv2)
  have "cpu.settles_to ws (wrote out) sv sv2"
    using over by (intro cpu.over_step) (auto simp: tracks_def at_rest_def in_reach_def named_def)
  with over.IH show ?case by (rule tracks_step)
next
  case (launching sv st ws reads body kn sid sc sv1 out sv2)
  have "cpu.settles_to ws (wrote out) sv sv2"
    using launching by (intro cpu.launch_step(1)) (auto simp: tracks_def at_rest_def in_reach_def named_def)
  with launching.IH show ?case by (rule tracks_step)
qed


text \<open>A byte of the write set is a byte of a slot in use.\<close>

lemma named_claims:
  assumes "named sv [b] \<noteq> {}" "named sv [b] \<subseteq> named sv ws" "in_reach sv [b]"
    "cpu.same_shape (sv_heap sv) (st_pool (sv_store sv)) p"
    "\<forall>k i x. cpu.resolves (sv_heap sv) (st_pool (sv_store sv)) k i \<longrightarrow> cpu.byte_claim p k i x =
      (if cpu.names (st_pool (sv_store sv)) ws k i x then v else cpu.byte_claim (st_pool (sv_store sv)) k i x)"
  shows "binding_bytes b \<noteq> {} \<and> (\<forall>x \<in> binding_bytes b. cpu.byte_claim p (slot p (bb_stream b)) (bb_memory b) x = v)"
proof -
  have "streams (st_pool (sv_store sv)) ! slot (st_pool (sv_store sv)) (bb_stream b) \<noteq> None" "binding_bytes b \<noteq> {}"
    using assms(1) by (auto simp: named_def cpu.names_def)
  moreover from this assms(2) have "cpu.names (st_pool (sv_store sv)) ws (slot (st_pool (sv_store sv)) (bb_stream b)) (bb_memory b) x"
    if "x \<in> binding_bytes b" for x using that by (auto simp: named_def cpu.names_def)
  ultimately show ?thesis using assms(3-5) by (simp add: in_reach_def cpu.same_shape_slot)
qed

text \<open>C8: A write set is tainted unless its work is proven to have written it. A scope over it runs its
  body once, and afterwards a read of any live binding inside the set is clean if the body
  succeeded, fails naming the body's error if it failed, and fails naming \<open>TornDown\<close> if the body
  panicked and the exit never ran.
\<close>

theorem scope_settles:
  assumes "at_rest sv" "in_reach sv ws" "ws \<noteq> []" "minted (store_graph (sv_store sv)) + 1 < 2 ^ 64" "quiet body"
    "in_reach sv [b]" "is_allocated (sv_heap sv) (bb_memory b)" "named sv [b] \<noteq> {}" "named sv [b] \<subseteq> named sv ws"
  shows "\<exists>sc sv1 out sv2. scope_over cpu_memory_ops sid ws sv = Ok (sc, sv1) \<and>
    scope_execute cpu_memory_ops onf body sc sv1 = (out, sv2) \<and>
    (case fst (body sv1) of
       Ok r \<Rightarrow> out = Ok (Executed r) \<and> at_rest sv2 \<and> ensure_written cpu_memory_ops (sv_heap sv2) [b] (sv_store sv2) = Ok ()
     | Err e \<Rightarrow> out = Ok (FailedWork e) \<and> at_rest sv2 \<and> (\<exists>es f n chain.
         ensure_written cpu_memory_ops (sv_heap sv2) [b] (sv_store sv2) = Err (Several es) \<and> Unwritten f n chain e \<in> set es)
     | Panic \<Rightarrow> out = Panic \<and> (\<exists>es f n chain.
         ensure_written cpu_memory_ops (sv_heap sv2) [b] (sv_store sv2) = Err (Several es) \<and> Unwritten f n chain TornDown \<in> set es))"
proof -
  let ?h = "sv_heap sv" and ?p = "st_pool (sv_store sv)" and ?f = "minted (store_graph (sv_store sv)) + 1"
  have sok: "cpu.store_ok ?h (sv_store sv)" using assms(1) by (simp add: at_rest_def)
  have rch: "\<forall>b \<in> set ws. cpu.resolves ?h ?p (slot ?p (bb_stream b)) (bb_memory b)" using assms(2) by (simp add: in_reach_def)
  from cpu.over_settles [OF sok rch assms(3-5), of sid onf] obtain sc sv1 out sv2 where
    o: "scope_over cpu_memory_ops sid ws sv = Ok (sc, sv1)" "scope_execute cpu_memory_ops onf body sc sv1 = (out, sv2)" and
    h2: "sv_heap sv2 = ?h" and c2: "cpu.tallied ?h (st_pool (sv_store sv2)) (store_graph (sv_store sv2))" and
    sh: "cpu.same_shape ?h ?p (st_pool (sv_store sv2))" and cs: "case fst (body sv1) of
       Ok r \<Rightarrow> out = Ok (Executed r) \<and> cpu.store_ok ?h (sv_store sv2) \<and> \<not> is_held (store_graph (sv_store sv2)) ?f \<and>
         (\<forall>k i x. cpu.resolves ?h ?p k i \<longrightarrow> cpu.byte_claim (st_pool (sv_store sv2)) k i x = (if cpu.names ?p ws k i x then None else cpu.byte_claim ?p k i x))
     | Err e \<Rightarrow> out = Ok (FailedWork e) \<and> cpu.store_ok ?h (sv_store sv2) \<and>
         (is_held (store_graph (sv_store sv2)) ?f \<longrightarrow> graph_error (store_graph (sv_store sv2)) ?f = Some e) \<and>
         (\<forall>k i x. cpu.resolves ?h ?p k i \<longrightarrow> cpu.byte_claim (st_pool (sv_store sv2)) k i x = (if cpu.names ?p ws k i x then Some ?f else cpu.byte_claim ?p k i x))
     | Panic \<Rightarrow> out = Panic \<and> graph_error (store_graph (sv_store sv2)) ?f = Some TornDown \<and>
         (\<forall>x. x \<noteq> ?f \<and> is_held (store_graph (sv_store sv2)) x \<longrightarrow> 0 < tags (store_graph (sv_store sv2)) x) \<and>
         (\<forall>k i x. cpu.resolves ?h ?p k i \<longrightarrow> cpu.byte_claim (st_pool (sv_store sv2)) k i x = (if cpu.names ?p ws k i x then Some ?f else cpu.byte_claim ?p k i x))"
    by blast
  let ?q = "st_pool (sv_store sv2)"
  have live: "\<forall>b \<in> set [b]. cpu.resolves ?h ?q (slot ?q (bb_stream b)) (bb_memory b) \<and> is_allocated ?h (bb_memory b)"
    using assms(6,7) cpu.same_shape_reaches [OF sh] by (simp add: in_reach_def)
  note rd = named_claims [OF assms(8,9,6) sh]
  have held: "is_held (store_graph (sv_store sv2)) ?f"
    if "\<forall>x \<in> binding_bytes b. cpu.byte_claim ?q (slot ?q (bb_stream b)) (bb_memory b) x = Some ?f" "binding_bytes b \<noteq> {}"
  proof -
    have "slot ?q (bb_stream b) < length (streams ?q)" using c2 by (simp add: cpu.tallied_def)
    with that live cpu.claim_held [OF c2] show ?thesis by fastforce
  qed
  have "case fst (body sv1) of
       Ok r \<Rightarrow> out = Ok (Executed r) \<and> at_rest sv2 \<and> ensure_written cpu_memory_ops (sv_heap sv2) [b] (sv_store sv2) = Ok ()
     | Err e \<Rightarrow> out = Ok (FailedWork e) \<and> at_rest sv2 \<and> (\<exists>es f n chain.
         ensure_written cpu_memory_ops (sv_heap sv2) [b] (sv_store sv2) = Err (Several es) \<and> Unwritten f n chain e \<in> set es)
     | Panic \<Rightarrow> out = Panic \<and> (\<exists>es f n chain.
         ensure_written cpu_memory_ops (sv_heap sv2) [b] (sv_store sv2) = Err (Several es) \<and> Unwritten f n chain TornDown \<in> set es)"
  proof (cases "fst (body sv1)")
    case (Ok r)
    with cs rd [of None] cpu.ensure_written_spec [OF c2 live] show ?thesis
      by (simp add: at_rest_def h2)
  next
    case (Err e)
    then have "binding_bytes b \<noteq> {}" "\<forall>x \<in> binding_bytes b. cpu.byte_claim ?q (slot ?q (bb_stream b)) (bb_memory b) x = Some ?f"
      "graph_error (store_graph (sv_store sv2)) ?f = Some e" using cs rd [of "Some ?f"] held by simp_all
    from cpu.ensure_written_root [OF c2 live _ this] Err cs show ?thesis
      by (auto simp: at_rest_def h2)
  next
    case Panic
    then have "binding_bytes b \<noteq> {}" "\<forall>x \<in> binding_bytes b. cpu.byte_claim ?q (slot ?q (bb_stream b)) (bb_memory b) x = Some ?f"
      "graph_error (store_graph (sv_store sv2)) ?f = Some TornDown" using cs rd [of "Some ?f"] by simp_all
    from cpu.ensure_written_root [OF c2 live _ this] Panic cs show ?thesis
      by (auto simp: h2)
  qed
  with o show ?thesis by blast
qed


section \<open>One stream with two allocations\<close>

definition demo_server :: "(nat, unit, unit) cpu_server" where
  "demo_server = \<lparr>sv_store = \<lparr>st_pool = \<lparr>streams = [Some demo_m], factory = (), max_streams = 1\<rparr>, st_failures = failures_new\<rparr>,
     sv_capture = (\<lambda>_. None), sv_heap = demo_h, sv_rest = ()\<rparr>"

definition demo_binding :: buffer_binding where
  "demo_binding = \<lparr>bb_memory = 1, bb_service = 0, bb_offset_start = None, bb_offset_end = None, bb_stream = 0, bb_size = 100\<rparr>"

definition demo_body :: "(server_error, unit) outcome \<Rightarrow> (nat, unit, unit) cpu_server \<Rightarrow> (server_error, unit) outcome \<times> (nat, unit, unit) cpu_server" where
  "demo_body r sv = (r, sv)"

lemma demo_slices: "memory_slices demo_m = [demo_slice 0 48, demo_slice 1 100]"
  by (simp add: memory_slices_def demo_m_def demo_defs memory_pools_def persistent_new_def demo_bucket_def demo_slice_def
      direct_live_def)

lemma demo_sound: "sound_memory demo_h demo_m"
  using compute_storage.memory_run_ok [OF host.compute_storage_axioms demo_runs(2)] demo_small
  by (simp add: sound_memory_def demo_slices taint_ok_def)

lemma demo_rest: "at_rest demo_server" "clean demo_server" "quiet (demo_body r)"
  "in_reach demo_server [demo_binding]" "is_allocated (sv_heap demo_server) (bb_memory demo_binding)"
  "named demo_server [demo_binding] \<noteq> {}"
proof -
  show "at_rest demo_server"
    using demo_sound by (auto simp: at_rest_def demo_server_def cpu.store_ok_def cpu.tallied_def regular_ok_def failures_new_def graph_default_def
        is_held_def tags_def cpu.carriers_def slice_carries_def demo_slices carried_def)
  show "clean demo_server"
    by (auto simp: clean_def demo_server_def cpu.byte_claim_def slice_claim_def demo_slices split: option.splits if_splits)
  show "quiet (demo_body r)" by (simp add: quiet_def demo_body_def)
  show "in_reach demo_server [demo_binding]"
    by (simp add: in_reach_def demo_server_def demo_binding_def cpu.resolves_def slot_def has_slice_def demo_slices)
  show "is_allocated (sv_heap demo_server) (bb_memory demo_binding)"
    by (simp add: demo_server_def demo_binding_def demo_h_def demo_defs is_allocated_def location_def clone_handle_def update_location_def modify_def location_new_def)
  have "(0, 1, 0) \<in> named demo_server [demo_binding]"
    by (simp add: named_def cpu.names_def demo_server_def demo_binding_def slot_def binding_bytes_def bytes_of_def binding_range_def unwrap_or_def u64_sub_def)
  then show "named demo_server [demo_binding] \<noteq> {}" by blast
qed

theorem scope_settles_witness:
  "\<exists>out sv2 sc sv1. scope_over cpu_memory_ops 0 [demo_binding] demo_server = Ok (sc, sv1) \<and>
     scope_execute cpu_memory_ops (\<lambda>_ _ x. x) (demo_body (Err (Other ''oom''))) sc sv1 = (out, sv2) \<and>
     out = Ok (FailedWork (Other ''oom'')) \<and> ensure_written cpu_memory_ops (sv_heap sv2) [demo_binding] (sv_store sv2) \<noteq> Ok ()"
proof -
  have "minted (store_graph (sv_store demo_server)) + 1 < 2 ^ 64" by (simp add: demo_server_def failures_new_def graph_default_def)
  from scope_settles [OF demo_rest(1,4) _ this demo_rest(3,4,5,6) order_refl, of 0 "\<lambda>_ _ x. x" "Err (Other ''oom'')"]
  show ?thesis by (fastforce simp: demo_body_def)
qed



end
