(* ===== verification/Scheduler.thy ===== *)
theory Scheduler
  imports Failure_Store
begin

text \<open>
  The task scheduler over the stream pool (\<open>cubecl-server/src/stream/scheduler.rs\<close>): a queue of
  tasks beside every backend stream, executed stream after stream or interleaved on the first one.
  The backend is a record of its operations. Borrowed streams are written back when the borrow
  ends; the logger is left out, and so is \<open>SchedulerRelocation\<close>, which only forwards to the streams.

  The specification is a log of commands on the bare backend streams: open a slot, enqueue a task
  that was registered on one slot on the stream of another, flush a stream.
\<close>

record ('t, 's, 'b) sched_backend =
  sb_create :: "'b \<Rightarrow> 's \<times> 'b"
  sb_enqueue :: "'t \<Rightarrow> 's \<Rightarrow> error_graph \<Rightarrow> 's \<times> error_graph"
  sb_flush :: "'s \<Rightarrow> error_graph \<Rightarrow> 's \<times> error_graph"
  sb_isolation :: "'s \<Rightarrow> bool"

datatype strategy = Interleave | Sequential

record ('t, 's) sched_stream =
  ss_tasks :: "'t list"
  ss_stream :: 's

type_synonym ('t, 's, 'b) sched_pool = "(('t, 's) sched_stream, 'b) stream_pool"

record ('t, 's, 'b) scheduler =
  sd_pool :: "('t, 's, 'b) sched_pool"
  sd_failures :: failures
  sd_strategy :: strategy
  sd_max_tasks :: nat

record 't schedule =
  sl_tasks :: "'t list"
  sl_num_tasks :: nat
  sl_stream_index :: nat

section \<open>Operations\<close>

definition sched_new :: "'b \<Rightarrow> nat \<Rightarrow> nat \<Rightarrow> strategy \<Rightarrow> ('t, 's, 'b) scheduler" where
  "sched_new backend n max_tasks strategy =
     \<lparr>sd_pool = pool_new backend n 0, sd_failures = failures_new, sd_strategy = strategy, sd_max_tasks = max_tasks\<rparr>"

text \<open>\<open>StreamFactory::create\<close> of the scheduler's factory.\<close>

definition sched_create :: "('t, 's, 'b) sched_backend \<Rightarrow> 'b \<Rightarrow> ('t, 's) sched_stream \<times> 'b" where
  "sched_create be b = (case sb_create be b of (s, b) \<Rightarrow> (\<lparr>ss_tasks = [], ss_stream = s\<rparr>, b))"

definition stream_flush :: "('t, 's) sched_stream \<Rightarrow> 't list \<times> ('t, 's) sched_stream" where
  "stream_flush s = (ss_tasks s, s\<lparr>ss_tasks := []\<rparr>)"

definition sched_stream_ids :: "('t, 's, 'b) scheduler \<Rightarrow> (unit, stream_id list) outcome" where
  "sched_stream_ids sd = stream_ids (sd_pool sd)"

fun collect_indices :: "('t, 's, 'b) sched_pool \<Rightarrow> stream_id list \<Rightarrow> nat list \<Rightarrow> (unit, nat list) outcome" where
  "collect_indices p [] is = Ok is"
| "collect_indices p (sid # sids) is =
     try_then (pool_index p sid) (\<lambda>i. collect_indices p sids (if i \<in> set is then is else is @ [i]))"

fun make_schedules ::
  "('t, 's, 'b) sched_backend \<Rightarrow> nat list \<Rightarrow> ('t, 's, 'b) sched_pool
     \<Rightarrow> (unit, 't schedule list \<times> bool \<times> ('t, 's, 'b) sched_pool) outcome" where
  "make_schedules be [] p = Ok ([], False, p)"
| "make_schedules be (i # is) p =
     try_then (get_mut_index (sched_create be) i p) (\<lambda>(s, p). case stream_flush s of (ts, s') \<Rightarrow>
       try_then (make_schedules be is (put_stream i s' p)) (\<lambda>(scs, iso, p).
         Ok (\<lparr>sl_tasks = ts, sl_num_tasks = length ts, sl_stream_index = i\<rparr> # scs, sb_isolation be (ss_stream s) \<or> iso, p)))"

fun enqueue_all :: "('t, 's, 'b) sched_backend \<Rightarrow> 't list \<Rightarrow> 's \<Rightarrow> error_graph \<Rightarrow> 's \<times> error_graph" where
  "enqueue_all be [] s g = (s, g)"
| "enqueue_all be (t # ts) s g = (case sb_enqueue be t s g of (s, g) \<Rightarrow> enqueue_all be ts s g)"

fun execute_sequence ::
  "('t, 's, 'b) sched_backend \<Rightarrow> 't schedule list \<Rightarrow> ('t, 's, 'b) sched_pool \<Rightarrow> error_graph
     \<Rightarrow> (unit, ('t, 's, 'b) sched_pool \<times> error_graph) outcome" where
  "execute_sequence be [] p g = Ok (p, g)"
| "execute_sequence be (sc # scs) p g =
     try_then (get_mut_index (sched_create be) (sl_stream_index sc) p) (\<lambda>(s, p).
       case enqueue_all be (sl_tasks sc) (ss_stream s) g of (x, g) \<Rightarrow>
       case sb_flush be x g of (x, g) \<Rightarrow>
         execute_sequence be scs (put_stream (sl_stream_index sc) (s\<lparr>ss_stream := x\<rparr>) p) g)"

text \<open>The first loop of \<open>execute_schedules_interleave\<close>, over all schedules but the first.\<close>

fun flush_others ::
  "('t, 's, 'b) sched_backend \<Rightarrow> 't schedule list \<Rightarrow> ('t, 's, 'b) sched_pool \<Rightarrow> error_graph
     \<Rightarrow> (unit, ('t, 's, 'b) sched_pool \<times> error_graph) outcome" where
  "flush_others be [] p g = Ok (p, g)"
| "flush_others be (sc # scs) p g =
     try_then (get_mut_index (sched_create be) (sl_stream_index sc) p) (\<lambda>(s, p).
       case sb_flush be (ss_stream s) g of (x, g) \<Rightarrow>
         flush_others be scs (put_stream (sl_stream_index sc) (s\<lparr>ss_stream := x\<rparr>) p) g)"

text \<open>One round: the next task of every schedule that has one.\<close>

fun interleave_round ::
  "('t, 's, 'b) sched_backend \<Rightarrow> 't schedule list \<Rightarrow> 's \<Rightarrow> error_graph \<Rightarrow> 't schedule list \<times> 's \<times> error_graph" where
  "interleave_round be [] s g = ([], s, g)"
| "interleave_round be (sc # scs) s g = (case sl_tasks sc of
     [] \<Rightarrow> (case interleave_round be scs s g of (scs, s, g) \<Rightarrow> (sc # scs, s, g))
   | t # ts \<Rightarrow> (case sb_enqueue be t s g of (s, g) \<Rightarrow>
       case interleave_round be scs s g of (scs, s, g) \<Rightarrow> (sc\<lparr>sl_tasks := ts\<rparr> # scs, s, g)))"

fun interleave_rounds ::
  "('t, 's, 'b) sched_backend \<Rightarrow> nat \<Rightarrow> 't schedule list \<Rightarrow> 's \<Rightarrow> error_graph \<Rightarrow> 't schedule list \<times> 's \<times> error_graph" where
  "interleave_rounds be 0 scs s g = (scs, s, g)"
| "interleave_rounds be (Suc n) scs s g =
     (case interleave_round be scs s g of (scs, s, g) \<Rightarrow> interleave_rounds be n scs s g)"

definition execute_interleave ::
  "('t, 's, 'b) sched_backend \<Rightarrow> 't schedule list \<Rightarrow> ('t, 's, 'b) sched_pool \<Rightarrow> error_graph
     \<Rightarrow> (unit, ('t, 's, 'b) sched_pool \<times> error_graph) outcome" where
  "execute_interleave be scs p g =
     try_then (flush_others be (drop 1 scs) p g) (\<lambda>(p, g).
       case scs of
         [] \<Rightarrow> Panic
       | sc # _ \<Rightarrow>
           try_then (get_mut_index (sched_create be) (sl_stream_index sc) p) (\<lambda>(s, p).
             case interleave_rounds be (Max (set (map sl_num_tasks scs))) scs (ss_stream s) g of (_, x, g) \<Rightarrow>
             case sb_flush be x g of (x, g) \<Rightarrow>
               Ok (put_stream (sl_stream_index sc) (s\<lparr>ss_stream := x\<rparr>) p, g)))"

definition with_pool ::
  "('t, 's, 'b) scheduler \<Rightarrow> ('t, 's, 'b) sched_pool \<times> error_graph \<Rightarrow> ('t, 's, 'b) scheduler" where
  "with_pool sd pg = sd\<lparr>sd_pool := fst pg, sd_failures := (sd_failures sd)\<lparr>fs_graph := snd pg\<rparr>\<rparr>"

definition execute_streams ::
  "('t, 's, 'b) sched_backend \<Rightarrow> stream_id list \<Rightarrow> ('t, 's, 'b) scheduler \<Rightarrow> (unit, ('t, 's, 'b) scheduler) outcome" where
  "execute_streams be sids sd =
     try_then (collect_indices (sd_pool sd) sids []) (\<lambda>is.
     try_then (make_schedules be is (sd_pool sd)) (\<lambda>(scs, iso, p).
       if scs = [] then Ok (sd\<lparr>sd_pool := p\<rparr>)
       else try_then
         (if sd_strategy sd = Interleave \<and> \<not> iso then execute_interleave be scs p (fs_graph (sd_failures sd))
          else execute_sequence be scs p (fs_graph (sd_failures sd)))
         (\<lambda>pg. Ok (with_pool sd pg))))"

text \<open>The argument streams on another slot than the target, in order.\<close>

fun foreign_streams :: "('t, 's, 'b) sched_pool \<Rightarrow> nat \<Rightarrow> stream_id list \<Rightarrow> (unit, stream_id list) outcome" where
  "foreign_streams p i [] = Ok []"
| "foreign_streams p i (a # as) =
     try_then (pool_index p a) (\<lambda>j. try_then (foreign_streams p i as) (\<lambda>rest. Ok (if i \<noteq> j then a # rest else rest)))"

definition align_streams ::
  "('t, 's, 'b) sched_backend \<Rightarrow> stream_id \<Rightarrow> stream_id list \<Rightarrow> ('t, 's, 'b) scheduler \<Rightarrow> (unit, ('t, 's, 'b) scheduler) outcome" where
  "align_streams be sid args sd =
     try_then (pool_index (sd_pool sd) sid) (\<lambda>i.
     try_then (foreign_streams (sd_pool sd) i args) (\<lambda>to_flush.
       if to_flush = [] then Ok sd else execute_streams be to_flush sd))"

definition register_task ::
  "('t, 's, 'b) sched_backend \<Rightarrow> stream_id \<Rightarrow> 't \<Rightarrow> stream_id list \<Rightarrow> ('t, 's, 'b) scheduler \<Rightarrow> (unit, ('t, 's, 'b) scheduler) outcome" where
  "register_task be sid t args sd =
     try_then (align_streams be sid args sd) (\<lambda>sd.
     try_then (pool_index (sd_pool sd) sid) (\<lambda>i.
     try_then (get_mut (sched_create be) sid (sd_pool sd)) (\<lambda>(s, p).
       let s = s\<lparr>ss_tasks := ss_tasks s @ [t]\<rparr>;
           sd = sd\<lparr>sd_pool := put_stream i s p\<rparr>
       in if sd_max_tasks sd \<le> length (ss_tasks s) then execute_streams be [sid] sd else Ok sd)))"

text \<open>The loop of \<open>flush_all\<close> over the slots in use.\<close>

fun flush_each ::
  "('t, 's, 'b) sched_backend \<Rightarrow> ('t, 's) sched_stream option list \<Rightarrow> error_graph \<Rightarrow> ('t, 's) sched_stream option list \<times> error_graph" where
  "flush_each be [] g = ([], g)"
| "flush_each be (None # ss) g = (case flush_each be ss g of (ss, g) \<Rightarrow> (None # ss, g))"
| "flush_each be (Some s # ss) g = (case sb_flush be (ss_stream s) g of (x, g) \<Rightarrow>
     case flush_each be ss g of (ss, g) \<Rightarrow> (Some (s\<lparr>ss_stream := x\<rparr>) # ss, g))"

definition flush_all :: "('t, 's, 'b) sched_backend \<Rightarrow> ('t, 's, 'b) scheduler \<Rightarrow> (unit, ('t, 's, 'b) scheduler) outcome" where
  "flush_all be sd =
     try_then (sched_stream_ids sd) (\<lambda>sids.
     try_then (execute_streams be sids sd) (\<lambda>sd.
       case flush_each be (streams (sd_pool sd)) (fs_graph (sd_failures sd)) of (ss, g) \<Rightarrow>
         Ok (with_pool sd ((sd_pool sd)\<lparr>streams := ss\<rparr>, g))))"

section \<open>The commands of an execution\<close>

datatype 't command = Open nat | Enqueue nat nat 't | FlushOn nat

definition bare :: "('t, 's, 'b) sched_pool \<Rightarrow> ('s, 'b) stream_pool" where
  "bare p = \<lparr>streams = map (map_option ss_stream) (streams p), factory = factory p, max_streams = max_streams p\<rparr>"

definition queue :: "('t, 's, 'b) sched_pool \<Rightarrow> nat \<Rightarrow> 't list" where
  "queue p k = (case streams p ! k of None \<Rightarrow> [] | Some s \<Rightarrow> ss_tasks s)"

fun run_command ::
  "('t, 's, 'b) sched_backend \<Rightarrow> 't command \<Rightarrow> ('s, 'b) stream_pool \<times> error_graph \<Rightarrow> ('s, 'b) stream_pool \<times> error_graph" where
  "run_command be (Open k) (p, g) = (filled (sb_create be) k p, g)"
| "run_command be (Enqueue j k t) (p, g) = (case sb_enqueue be t (stream_at k p) g of (x, g) \<Rightarrow> (put_stream k x p, g))"
| "run_command be (FlushOn k) (p, g) = (case sb_flush be (stream_at k p) g of (x, g) \<Rightarrow> (put_stream k x p, g))"

definition run_commands ::
  "('t, 's, 'b) sched_backend \<Rightarrow> 't command list \<Rightarrow> ('s, 'b) stream_pool \<times> error_graph \<Rightarrow> ('s, 'b) stream_pool \<times> error_graph" where
  "run_commands be cs pg = fold (run_command be) cs pg"

text \<open>The tasks of one slot, in the order the commands enqueue them.\<close>

definition enqueued_from :: "nat \<Rightarrow> 't command list \<Rightarrow> 't list" where
  "enqueued_from k cs = concat (map (\<lambda>c. case c of Enqueue j _ t \<Rightarrow> if j = k then [t] else [] | _ \<Rightarrow> []) cs)"

text \<open>Round robin: every queue gives its next task in turn, for a number of rounds.\<close>

fun round_robin :: "nat \<Rightarrow> (nat \<times> 't list) list \<Rightarrow> (nat \<times> 't) list" where
  "round_robin 0 qs = []"
| "round_robin (Suc n) qs =
     concat (map (\<lambda>(i, ts). map (Pair i) (take 1 ts)) qs) @ round_robin n (map (\<lambda>(i, ts). (i, drop 1 ts)) qs)"

definition slots_of :: "('t, 's, 'b) sched_pool \<Rightarrow> stream_id list \<Rightarrow> nat list" where
  "slots_of p sids = foldl (\<lambda>is sid. if slot p sid \<in> set is then is else is @ [slot p sid]) [] sids"

definition sequence_commands :: "(nat \<times> 't list) list \<Rightarrow> 't command list" where
  "sequence_commands qs = concat (map (\<lambda>(i, ts). map (Enqueue i i) ts @ [FlushOn i]) qs)"

definition interleave_commands :: "(nat \<times> 't list) list \<Rightarrow> 't command list" where
  "interleave_commands qs = (case qs of [] \<Rightarrow> [] | (i, _) # rest \<Rightarrow>
     map (\<lambda>q. FlushOn (fst q)) rest @
     map (\<lambda>(j, t). Enqueue j i t) (round_robin (Max (set (map (\<lambda>q. length (snd q)) qs))) qs) @ [FlushOn i])"

definition isolated :: "('t, 's, 'b) sched_backend \<Rightarrow> nat list \<Rightarrow> ('t, 's, 'b) sched_pool \<Rightarrow> bool" where
  "isolated be is p \<longleftrightarrow>
     (\<exists>i \<in> set is. sb_isolation be (stream_at i (fold (filled (sb_create be)) is (bare p))))"

definition execution :: "('t, 's, 'b) sched_backend \<Rightarrow> stream_id list \<Rightarrow> ('t, 's, 'b) scheduler \<Rightarrow> 't command list" where
  "execution be sids sd =
     (let p = sd_pool sd; is = slots_of p sids; qs = map (\<lambda>i. (i, queue p i)) is
      in map Open is @
         (if sd_strategy sd = Interleave \<and> \<not> isolated be is p then interleave_commands qs else sequence_commands qs))"

section \<open>The pool with its queues, and without\<close>

lemma run_commands_simps [simp]:
  "run_commands be [] pg = pg" "run_commands be (c # cs) pg = run_commands be cs (run_command be c pg)"
  "run_commands be (cs @ ds) pg = run_commands be ds (run_commands be cs pg)"
  by (simp_all add: run_commands_def)

lemma enqueued_from_simps [simp]:
  "enqueued_from k [] = []" "enqueued_from k (cs @ ds) = enqueued_from k cs @ enqueued_from k ds"
  "enqueued_from k (Open j # cs) = enqueued_from k cs" "enqueued_from k (FlushOn j # cs) = enqueued_from k cs"
  "enqueued_from k (Enqueue i j t # cs) = (if i = k then t # enqueued_from k cs else enqueued_from k cs)"
  by (simp_all add: enqueued_from_def)

lemma bare_fields [simp]:
  "length (streams (bare p)) = length (streams p)" "max_streams (bare p) = max_streams p"
  "k < length (streams p) \<Longrightarrow> streams (bare p) ! k = map_option ss_stream (streams p ! k)"
  by (simp_all add: bare_def)

lemma bare_put: "bare (put_stream i s p) = put_stream i (ss_stream s) (bare p)"
  by (simp add: bare_def put_stream_def map_update)

lemma bare_filled: "i < length (streams p) \<Longrightarrow> bare (filled (sched_create be) i p) = filled (sb_create be) i (bare p)"
  by (cases "streams p ! i") (auto simp: filled_def bare_def sched_create_def map_update split: prod.splits)

lemma bare_at: "i < length (streams p) \<Longrightarrow> streams p ! i = Some s \<Longrightarrow> stream_at i (bare p) = ss_stream s"
  by (simp add: stream_at_def)

lemma queue_put: "i < length (streams p) \<Longrightarrow> queue (put_stream i s p) k = (if k = i then ss_tasks s else queue p k)"
  by (simp add: queue_def)

lemma queue_filled: "i < length (streams p) \<Longrightarrow> queue (filled (sched_create be) i p) k = queue p k"
  by (cases "k = i") (auto simp: queue_def filled_def sched_create_def split: option.splits prod.splits)

section \<open>The loops\<close>

lemma make_schedules_spec:
  assumes "\<forall>i \<in> set is. i < length (streams p)" "distinct is"
  shows "\<exists>p'. make_schedules be is p = Ok (map (\<lambda>i. \<lparr>sl_tasks = queue p i, sl_num_tasks = length (queue p i), sl_stream_index = i\<rparr>) is,
      \<exists>i \<in> set is. sb_isolation be (stream_at i (bare p')), p') \<and>
    bare p' = fold (filled (sb_create be)) is (bare p) \<and> grows p p' \<and> (\<forall>i \<in> set is. streams p' ! i \<noteq> None) \<and>
    (\<forall>k. queue p' k = (if k \<in> set is then [] else queue p k)) \<and> (\<forall>k. k \<notin> set is \<longrightarrow> streams p' ! k = streams p ! k)"
  using assms
proof (induction "is" arbitrary: p)
  case Nil
  then show ?case by (simp add: grows_refl)
next
  case (Cons i "is")
  let ?f = "filled (sched_create be) i p"
  have i: "i < length (streams p)" using Cons.prems by simp
  obtain s where s: "streams ?f ! i = Some s" using filled_some [OF i] by blast
  let ?p = "put_stream i (s\<lparr>ss_tasks := []\<rparr>) ?f"
  have g: "grows p ?p" using grows_trans [OF grows_filled [OF i] grows_put] i by simp
  have b: "bare ?p = filled (sb_create be) i (bare p)"
    using s i by (simp add: bare_put bare_filled [symmetric] put_same)
  have q: "queue ?p k = (if k = i then [] else queue p k)" for k using i by (simp add: queue_put queue_filled)
  have qs: "queue p i = ss_tasks s" using queue_filled [OF i, of be i] s by (simp add: queue_def)
  obtain p' where ih: "make_schedules be is ?p = Ok (map (\<lambda>i. \<lparr>sl_tasks = queue ?p i, sl_num_tasks = length (queue ?p i), sl_stream_index = i\<rparr>) is,
      \<exists>i \<in> set is. sb_isolation be (stream_at i (bare p')), p')"
    "bare p' = fold (filled (sb_create be)) is (bare ?p)" "grows ?p p'" "\<forall>i \<in> set is. streams p' ! i \<noteq> None"
    "\<forall>k. queue p' k = (if k \<in> set is then [] else queue ?p k)" "\<forall>k. k \<notin> set is \<longrightarrow> streams p' ! k = streams ?p ! k"
    using Cons.IH [of ?p] Cons.prems by auto
  have m: "map (\<lambda>i. \<lparr>sl_tasks = queue ?p i, sl_num_tasks = length (queue ?p i), sl_stream_index = i\<rparr>) is =
      map (\<lambda>i. \<lparr>sl_tasks = queue p i, sl_num_tasks = length (queue p i), sl_stream_index = i\<rparr>) is"
    using Cons.prems(2) q by auto
  have pi: "streams p' ! i = Some (s\<lparr>ss_tasks := []\<rparr>)" using ih(6) Cons.prems(2) i by simp
  then have "stream_at i (bare p') = ss_stream s" using i ih(3) g by (simp add: bare_at grows_def)
  then have "make_schedules be (i # is) p = Ok (map (\<lambda>i. \<lparr>sl_tasks = queue p i, sl_num_tasks = length (queue p i), sl_stream_index = i\<rparr>) (i # is),
      \<exists>i \<in> set (i # is). sb_isolation be (stream_at i (bare p')), p')"
    using s ih(1) m qs by (simp add: get_mut_index_filled [OF i] stream_at_def stream_flush_def)
  moreover have "streams p' ! k = streams p ! k" if "k \<notin> set (i # is)" for k using that ih(6) by simp
  ultimately show ?case using ih b g q pi grows_trans by auto
qed

lemma enqueue_all_run:
  "k < length (streams p) \<Longrightarrow> run_commands be (map (\<lambda>(j, t). Enqueue j k t) ts) (p, g) =
     (if ts = [] then p else put_stream k (fst (enqueue_all be (map snd ts) (stream_at k p) g)) p,
      snd (enqueue_all be (map snd ts) (stream_at k p) g))"
proof (induction ts arbitrary: p g)
  case (Cons jt ts)
  then show ?case by (cases jt; cases "ts = []") (simp_all add: at_put put_twice split: prod.splits)
qed simp

lemma filled_run: "run_commands be (map Open is) (p, g) = (fold (filled (sb_create be)) is p, g)"
  by (induction "is" arbitrary: p) simp_all

text \<open>A step on one slot that leaves the queues alone.\<close>

lemma put_stream_step:
  assumes "k < length (streams p)" "streams p ! k = Some s"
  shows "bare (put_stream k (s\<lparr>ss_stream := x\<rparr>) p) = put_stream k x (bare p)" "grows p (put_stream k (s\<lparr>ss_stream := x\<rparr>) p)"
    "queue (put_stream k (s\<lparr>ss_stream := x\<rparr>) p) = queue p"
  using assms by (auto simp: bare_put grows_put queue_put fun_eq_iff) (simp add: queue_def)

lemma execute_sequence_spec:
  assumes "slots_used (map sl_stream_index scs) p"
  shows "\<exists>p' g'. execute_sequence be scs p g = Ok (p', g') \<and> grows p p' \<and> queue p' = queue p \<and>
    (bare p', g') = run_commands be (sequence_commands (map (\<lambda>sc. (sl_stream_index sc, sl_tasks sc)) scs)) (bare p, g)"
  using assms
proof (induction scs arbitrary: p g)
  case Nil
  then show ?case by (simp add: grows_refl sequence_commands_def)
next
  case (Cons sc scs)
  let ?k = "sl_stream_index sc"
  obtain s where s: "streams p ! ?k = Some s" "?k < length (streams p)" using slots_used_get [OF Cons.prems, of ?k] by auto
  obtain x g1 where x: "enqueue_all be (sl_tasks sc) (ss_stream s) g = (x, g1)" by fastforce
  obtain y g2 where y: "sb_flush be x g1 = (y, g2)" by fastforce
  note step = put_stream_step [OF s(2,1), of y]
  have "slots_used (map sl_stream_index scs) (put_stream ?k (s\<lparr>ss_stream := y\<rparr>) p)"
    using slots_used_grows [OF slots_used_tail step(2)] Cons.prems by simp
  from Cons.IH [OF this, of g2] obtain p' g' where ih: "execute_sequence be scs (put_stream ?k (s\<lparr>ss_stream := y\<rparr>) p) g2 = Ok (p', g')"
    "grows (put_stream ?k (s\<lparr>ss_stream := y\<rparr>) p) p'" "queue p' = queue (put_stream ?k (s\<lparr>ss_stream := y\<rparr>) p)"
    "(bare p', g') = run_commands be (sequence_commands (map (\<lambda>sc. (sl_stream_index sc, sl_tasks sc)) scs)) (bare (put_stream ?k (s\<lparr>ss_stream := y\<rparr>) p), g2)" by blast
  have "run_commands be (map (Enqueue ?k ?k) (sl_tasks sc) @ [FlushOn ?k]) (bare p, g) = (put_stream ?k y (bare p), g2)"
  proof -
    have "map (Enqueue ?k ?k) (sl_tasks sc) = map (\<lambda>(j, t). Enqueue j ?k t) (map (Pair ?k) (sl_tasks sc))" by simp
    then show ?thesis
      using enqueue_all_run [of ?k "bare p" be "map (Pair ?k) (sl_tasks sc)" g] s x y bare_at [OF s(2,1)]
      by (cases "sl_tasks sc") (auto simp: comp_def at_put put_twice)
  qed
  then have "run_commands be (sequence_commands (map (\<lambda>sc. (sl_stream_index sc, sl_tasks sc)) (sc # scs))) (bare p, g) = (bare p', g')"
    using ih(4) step(1) by (simp add: sequence_commands_def)
  moreover have "execute_sequence be (sc # scs) p g = Ok (p', g')"
    using s x y ih(1) by (simp add: get_mut_index_def get_opt_def)
  ultimately show ?case using ih(2,3) step(2,3) grows_trans by (intro exI [of _ p'] exI [of _ g']) auto
qed

lemma flush_others_spec:
  assumes "slots_used (map sl_stream_index scs) p"
  shows "\<exists>p' g'. flush_others be scs p g = Ok (p', g') \<and> grows p p' \<and> queue p' = queue p \<and>
    (bare p', g') = run_commands be (map (\<lambda>sc. FlushOn (sl_stream_index sc)) scs) (bare p, g)"
  using assms
proof (induction scs arbitrary: p g)
  case Nil
  then show ?case by (simp add: grows_refl)
next
  case (Cons sc scs)
  let ?k = "sl_stream_index sc"
  obtain s where s: "streams p ! ?k = Some s" "?k < length (streams p)" using slots_used_get [OF Cons.prems, of ?k] by auto
  obtain y g2 where y: "sb_flush be (ss_stream s) g = (y, g2)" by fastforce
  note step = put_stream_step [OF s(2,1), of y]
  have "slots_used (map sl_stream_index scs) (put_stream ?k (s\<lparr>ss_stream := y\<rparr>) p)"
    using slots_used_grows [OF slots_used_tail step(2)] Cons.prems by simp
  from Cons.IH [OF this, of g2] obtain p' g' where ih: "flush_others be scs (put_stream ?k (s\<lparr>ss_stream := y\<rparr>) p) g2 = Ok (p', g')"
    "grows (put_stream ?k (s\<lparr>ss_stream := y\<rparr>) p) p'" "queue p' = queue (put_stream ?k (s\<lparr>ss_stream := y\<rparr>) p)"
    "(bare p', g') = run_commands be (map (\<lambda>sc. FlushOn (sl_stream_index sc)) scs) (bare (put_stream ?k (s\<lparr>ss_stream := y\<rparr>) p), g2)" by blast
  then show ?case using s y step grows_trans bare_at [OF s(2,1)]
    by (intro exI [of _ p'] exI [of _ g']) (auto simp: get_mut_index_def get_opt_def)
qed

lemma enqueue_all_append: "enqueue_all be (ts @ us) s g = (case enqueue_all be ts s g of (s, g) \<Rightarrow> enqueue_all be us s g)"
  by (induction ts arbitrary: s g) (simp_all split: prod.splits)

lemma interleave_round_eq:
  "interleave_round be scs s g = (map (\<lambda>sc. sc\<lparr>sl_tasks := drop 1 (sl_tasks sc)\<rparr>) scs,
     enqueue_all be (concat (map (\<lambda>sc. take 1 (sl_tasks sc)) scs)) s g)"
proof (induction scs arbitrary: s g)
  case (Cons sc scs)
  then show ?case by (cases "sl_tasks sc") (auto split: prod.splits)
qed simp

lemma interleave_rounds_eq:
  "snd (interleave_rounds be n scs s g) =
     enqueue_all be (map snd (round_robin n (map (\<lambda>sc. (sl_stream_index sc, sl_tasks sc)) scs))) s g"
proof (induction n arbitrary: scs s g)
  case (Suc n)
  have m: "map snd (concat (map (\<lambda>(i, ts). map (Pair i) (take 1 ts)) (map (\<lambda>sc. (sl_stream_index sc, sl_tasks sc)) scs))) =
      concat (map (\<lambda>sc. take 1 (sl_tasks sc)) scs)" by (induction scs) (simp_all add: comp_def)
  show ?case unfolding round_robin.simps map_append m
    by (simp add: interleave_round_eq enqueue_all_append Suc comp_def split: prod.splits)
qed simp

lemma execute_interleave_spec:
  assumes "slots_used (map sl_stream_index scs) p" "scs \<noteq> []" "\<forall>sc \<in> set scs. sl_num_tasks sc = length (sl_tasks sc)"
  shows "\<exists>p' g'. execute_interleave be scs p g = Ok (p', g') \<and> grows p p' \<and> queue p' = queue p \<and>
    (bare p', g') = run_commands be (interleave_commands (map (\<lambda>sc. (sl_stream_index sc, sl_tasks sc)) scs)) (bare p, g)"
proof -
  obtain sc rest where scs: "scs = sc # rest" using assms(2) by (cases scs) auto
  let ?k = "sl_stream_index sc" and ?qs = "map (\<lambda>sc. (sl_stream_index sc, sl_tasks sc)) scs"
  let ?n = "Max (set (map sl_num_tasks scs))"
  have "slots_used (map sl_stream_index rest) p" using assms(1) scs by (simp add: slots_used_def)
  from flush_others_spec [OF this, of be g] obtain p1 g1 where f: "flush_others be rest p g = Ok (p1, g1)" "grows p p1" "queue p1 = queue p"
    "(bare p1, g1) = run_commands be (map (\<lambda>sc. FlushOn (sl_stream_index sc)) rest) (bare p, g)" by blast
  obtain s where s: "streams p1 ! ?k = Some s" "?k < length (streams p1)"
    using slots_used_get [OF slots_used_grows [OF assms(1) f(2)], of ?k] scs by auto
  obtain x g2 where x: "enqueue_all be (map snd (round_robin ?n ?qs)) (ss_stream s) g1 = (x, g2)" by fastforce
  obtain y g3 where y: "sb_flush be x g2 = (y, g3)" by fastforce
  note step = put_stream_step [OF s(2,1), of y]
  have n: "Max (set (map (\<lambda>q. length (snd q)) ?qs)) = ?n"
    using assms(3) by (intro arg_cong [where f = Max]) (force simp: comp_def image_iff)
  have "execute_interleave be scs p g = Ok (put_stream ?k (s\<lparr>ss_stream := y\<rparr>) p1, g3)"
    using f(1) s x y interleave_rounds_eq [of be ?n scs "ss_stream s" g1] scs
    by (auto simp: execute_interleave_def get_mut_index_def get_opt_def split: prod.splits)
  moreover have "run_commands be (map (\<lambda>(j, t). Enqueue j ?k t) (round_robin ?n ?qs) @ [FlushOn ?k]) (bare p1, g1) = (put_stream ?k y (bare p1), g3)"
    using enqueue_all_run [of ?k "bare p1" be "round_robin ?n ?qs" g1] s x y bare_at [OF s(2,1)]
    by (cases "round_robin ?n ?qs") (auto simp: at_put put_twice)
  then have "run_commands be (interleave_commands ?qs) (bare p, g) = (put_stream ?k y (bare p1), g3)"
    unfolding interleave_commands_def using f(4) scs n [unfolded scs] by (simp add: comp_def)
  ultimately show ?thesis using step f(2,3) grows_trans by (intro exI [of _ "put_stream ?k (s\<lparr>ss_stream := y\<rparr>) p1"] exI [of _ g3]) auto
qed

section \<open>Executing streams\<close>

lemma collect_indices_eq:
  "regular_ok p \<Longrightarrow> collect_indices p sids is = Ok (foldl (\<lambda>is sid. if slot p sid \<in> set is then is else is @ [slot p sid]) is sids)"
  by (induction sids arbitrary: "is") auto

lemma slots_of_props:
  assumes "regular_ok p"
  shows "distinct (slots_of p sids)" "set (slots_of p sids) = slot p ` set sids" "i \<in> set (slots_of p sids) \<Longrightarrow> i < length (streams p)"
proof -
  have *: "distinct is \<Longrightarrow> distinct (foldl (\<lambda>is sid. if slot p sid \<in> set is then is else is @ [slot p sid]) is sids) \<and>
      set (foldl (\<lambda>is sid. if slot p sid \<in> set is then is else is @ [slot p sid]) is sids) = set is \<union> slot p ` set sids" for "is"
    by (induction sids arbitrary: "is") auto
  from * [of "[]"] show "distinct (slots_of p sids)" "set (slots_of p sids) = slot p ` set sids" by (simp_all add: slots_of_def)
  then show "i \<in> set (slots_of p sids) \<Longrightarrow> i < length (streams p)" using assms by auto
qed

lemma round_robin_from:
  "distinct (map fst qs) \<Longrightarrow> (i, ts) \<in> set qs \<Longrightarrow>
     map snd (filter (\<lambda>jt. fst jt = i) (round_robin n qs)) = take n ts"
proof (induction n arbitrary: qs ts)
  case (Suc n)
  have one: "map snd (filter (\<lambda>jt. fst jt = i) (concat (map (\<lambda>(i, ts). map (Pair i) (take 1 ts)) qs))) = take 1 ts"
    using Suc.prems
  proof (induction qs)
    case (Cons q qs)
    have none: "filter (\<lambda>jt. fst jt = i) (concat (map (\<lambda>(i, ts). map (Pair i) (take 1 ts)) qs)) = []" if "i \<notin> fst ` set qs" for qs :: "(nat \<times> 'a list) list"
      using that by (induction qs) (auto simp: filter_empty_conv)
    show ?case
    proof (cases "fst q = i")
      case True
      then have "q = (i, ts)" "i \<notin> fst ` set qs" using Cons.prems by (auto simp: rev_image_eqI)
      with none [of qs] show ?thesis by (cases ts) simp_all
    next
      case False
      with Cons show ?thesis by (cases q) (auto simp: filter_empty_conv)
    qed
  qed simp
  have "map snd (filter (\<lambda>jt. fst jt = i) (round_robin n (map (\<lambda>(i, ts). (i, drop 1 ts)) qs))) = take n (drop 1 ts)"
    using Suc.prems by (intro Suc.IH) (force simp: comp_def case_prod_unfold)+
  with one show ?case by (cases ts) (simp_all add: case_prod_unfold)
qed simp

lemma round_robin_foreign: "i \<notin> fst ` set qs \<Longrightarrow> filter (\<lambda>jt. fst jt = i) (round_robin n qs) = []"
proof (induction n arbitrary: qs)
  case (Suc n)
  have "i \<notin> fst ` set (map (\<lambda>(i, ts). (i, drop 1 ts)) qs)" using Suc.prems by force
  from Suc.IH [OF this] Suc.prems show ?case by (auto simp: filter_empty_conv case_prod_unfold)
qed simp

lemma enqueued_from_pairs: "enqueued_from k (map (\<lambda>(j, t). Enqueue j i t) jts) = map snd (filter (\<lambda>jt. fst jt = k) jts)"
  by (induction jts) auto

lemma enqueued_from_same: "enqueued_from k (map (Enqueue i j) ts) = (if i = k then ts else [])"
  by (induction ts) auto

lemma enqueued_from_flushes: "enqueued_from k (map (\<lambda>q. FlushOn (f q)) qs) = []"
  by (induction qs) simp_all

lemma enqueued_from_opens: "enqueued_from k (map Open is) = []"
  by (induction "is") simp_all

lemmas enqueued_from_none = enqueued_from_flushes enqueued_from_opens

lemma sequence_from:
  "distinct (map fst qs) \<Longrightarrow> enqueued_from k (sequence_commands qs) = (case map_of qs k of None \<Rightarrow> [] | Some ts \<Rightarrow> ts)"
proof (induction qs)
  case (Cons q qs)
  have none: "enqueued_from k (sequence_commands qs) = []" if "k \<notin> fst ` set qs" for qs :: "(nat \<times> 'a list) list"
    using that by (induction qs) (auto simp: sequence_commands_def enqueued_from_same)
  from Cons show ?case using none [of qs] by (cases q) (auto simp: sequence_commands_def enqueued_from_same)
qed (simp add: sequence_commands_def)

lemma interleave_from:
  assumes "distinct (map fst qs)"
  shows "enqueued_from k (interleave_commands qs) = (case map_of qs k of None \<Rightarrow> [] | Some ts \<Rightarrow> ts)"
proof (cases qs)
  case Nil
  then show ?thesis by (simp add: interleave_commands_def)
next
  case (Cons q rest)
  obtain i ts where q: "q = (i, ts)" by fastforce
  let ?n = "Max (set (map (\<lambda>q. length (snd q)) qs))"
  have e: "enqueued_from k (interleave_commands qs) = map snd (filter (\<lambda>jt. fst jt = k) (round_robin ?n qs))"
    by (simp add: interleave_commands_def Cons q enqueued_from_none enqueued_from_pairs)
  show ?thesis
  proof (cases "map_of qs k")
    case None
    then have "k \<notin> fst ` set qs" by (simp add: map_of_eq_None_iff)
    with None e show ?thesis by (simp add: round_robin_foreign)
  next
    case (Some us)
    then have us: "(k, us) \<in> set qs" by (rule map_of_SomeD)
    then have "length us \<le> ?n" by (intro Max_ge) force+
    with e Some round_robin_from [OF assms us, of ?n] show ?thesis by simp
  qed
qed

lemma execution_from:
  assumes "regular_ok (sd_pool sd)"
  shows "enqueued_from k (execution be sids sd) = (if k \<in> set (slots_of (sd_pool sd) sids) then queue (sd_pool sd) k else [])"
proof -
  let ?is = "slots_of (sd_pool sd) sids"
  have d: "distinct (map fst (map (\<lambda>i. (i, queue (sd_pool sd) i)) ?is))" using slots_of_props(1) [OF assms] by (simp add: comp_def)
  have m: "map_of (map (\<lambda>i. (i, queue (sd_pool sd) i)) ?is) k = (if k \<in> set ?is then Some (queue (sd_pool sd) k) else None)"
    by (simp add: map_of_map_restrict restrict_map_def)
  show ?thesis using sequence_from [OF d, of k] interleave_from [OF d, of k] m
    by (simp add: execution_def Let_def enqueued_from_none)
qed

text \<open>What \<open>execute_streams\<close> does, on every strategy: run the commands of the execution.\<close>

lemma execute_streams_spec:
  assumes "regular_ok (sd_pool sd)"
  shows "\<exists>sd'. execute_streams be sids sd = Ok sd' \<and> grows (sd_pool sd) (sd_pool sd') \<and>
    sd_strategy sd' = sd_strategy sd \<and> sd_max_tasks sd' = sd_max_tasks sd \<and>
    (bare (sd_pool sd'), fs_graph (sd_failures sd')) = run_commands be (execution be sids sd) (bare (sd_pool sd), fs_graph (sd_failures sd)) \<and>
    (\<forall>k. queue (sd_pool sd') k = (if k \<in> set (slots_of (sd_pool sd) sids) then [] else queue (sd_pool sd) k))"
proof -
  let ?p = "sd_pool sd" and ?g = "fs_graph (sd_failures sd)" and ?is = "slots_of (sd_pool sd) sids"
  let ?scs = "map (\<lambda>i. \<lparr>sl_tasks = queue ?p i, sl_num_tasks = length (queue ?p i), sl_stream_index = i\<rparr>) ?is"
  let ?qs = "map (\<lambda>i. (i, queue ?p i)) ?is"
  have "\<forall>i \<in> set ?is. i < length (streams ?p)" "distinct ?is" using slots_of_props [OF assms] by auto
  from make_schedules_spec [OF this, of be] obtain p' where m: "make_schedules be ?is ?p = Ok (?scs,
      \<exists>i \<in> set ?is. sb_isolation be (stream_at i (bare p')), p')"
    "bare p' = fold (filled (sb_create be)) ?is (bare ?p)" "grows ?p p'" "\<forall>i \<in> set ?is. streams p' ! i \<noteq> None"
    "\<forall>k. queue p' k = (if k \<in> set ?is then [] else queue ?p k)" by blast
  have iso: "(\<exists>i \<in> set ?is. sb_isolation be (stream_at i (bare p'))) = isolated be ?is ?p" by (simp add: isolated_def m(2))
  have use: "slots_used (map sl_stream_index ?scs) p'" using m(3,4) slots_of_props(3) [OF assms] by (auto simp: slots_used_def grows_def comp_def)
  have q: "map (\<lambda>sc. (sl_stream_index sc, sl_tasks sc)) ?scs = ?qs" by simp
  have opened: "run_commands be (map Open ?is) (bare ?p, ?g) = (bare p', ?g)" by (simp add: filled_run m(2))
  have c: "collect_indices ?p sids [] = Ok ?is" using collect_indices_eq [OF assms] by (simp add: slots_of_def)
  show ?thesis
  proof (cases "?is = []")
    case True
    then show ?thesis using c m opened by (auto simp: execute_streams_def execution_def Let_def interleave_commands_def sequence_commands_def)
  next
    case False
    then have ne: "?scs \<noteq> []" by simp
    let ?il = "sd_strategy sd = Interleave \<and> \<not> isolated be ?is ?p"
    obtain p2 g2 where r: "(if ?il then execute_interleave be ?scs p' ?g else execute_sequence be ?scs p' ?g) = Ok (p2, g2)"
      "grows p' p2" "queue p2 = queue p'" "(bare p2, g2) = run_commands be (if ?il then interleave_commands ?qs else sequence_commands ?qs) (bare p', ?g)"
      using execute_interleave_spec [OF use ne, of be ?g, unfolded q] execute_sequence_spec [OF use, of be ?g, unfolded q] by (cases ?il) auto
    have "execute_streams be sids sd = Ok (with_pool sd (p2, g2))"
      using c m(1) iso r(1) ne by (simp add: execute_streams_def)
    moreover have "(bare p2, g2) = run_commands be (execution be sids sd) (bare ?p, ?g)"
      using r(4) opened by (simp add: execution_def Let_def)
    ultimately show ?thesis using m(3,5) r(2,3) grows_trans by (intro exI [of _ "with_pool sd (p2, g2)"]) (auto simp: with_pool_def)
  qed
qed

section \<open>Registering and flushing\<close>

datatype 't sched_call = Register stream_id 't "stream_id list" | Execute "stream_id list" | FlushAll

fun sched_op :: "('t, 's, 'b) sched_backend \<Rightarrow> 't sched_call \<Rightarrow> ('t, 's, 'b) scheduler \<Rightarrow> (unit, ('t, 's, 'b) scheduler) outcome" where
  "sched_op be (Register sid t args) sd = register_task be sid t args sd"
| "sched_op be (Execute sids) sd = execute_streams be sids sd"
| "sched_op be FlushAll sd = flush_all be sd"

definition foreign :: "('t, 's, 'b) sched_pool \<Rightarrow> stream_id \<Rightarrow> stream_id list \<Rightarrow> stream_id list" where
  "foreign p sid args = filter (\<lambda>a. slot p a \<noteq> slot p sid) args"

definition align_log :: "('t, 's, 'b) sched_backend \<Rightarrow> stream_id \<Rightarrow> stream_id list \<Rightarrow> ('t, 's, 'b) scheduler \<Rightarrow> 't command list" where
  "align_log be sid args sd = (if foreign (sd_pool sd) sid args = [] then [] else execution be (foreign (sd_pool sd) sid args) sd)"

text \<open>The scheduler with a task more on the slot of a stream.\<close>

definition pushed :: "('t, 's, 'b) sched_backend \<Rightarrow> stream_id \<Rightarrow> 't \<Rightarrow> ('t, 's, 'b) scheduler \<Rightarrow> ('t, 's, 'b) scheduler" where
  "pushed be sid t sd = (let i = slot (sd_pool sd) sid; p = filled (sched_create be) i (sd_pool sd); s = stream_at i p
     in sd\<lparr>sd_pool := put_stream i (s\<lparr>ss_tasks := ss_tasks s @ [t]\<rparr>) p\<rparr>)"

definition push_log :: "('t, 's, 'b) sched_backend \<Rightarrow> stream_id \<Rightarrow> 't \<Rightarrow> ('t, 's, 'b) scheduler \<Rightarrow> 't command list" where
  "push_log be sid t sd = Open (slot (sd_pool sd) sid) #
     (if sd_max_tasks sd \<le> Suc (length (queue (sd_pool sd) (slot (sd_pool sd) sid))) then execution be [sid] (pushed be sid t sd) else [])"

fun flush_log :: "nat \<Rightarrow> 'a option list \<Rightarrow> 't command list" where
  "flush_log n [] = []"
| "flush_log n (None # ss) = flush_log (Suc n) ss"
| "flush_log n (Some s # ss) = FlushOn n # flush_log (Suc n) ss"

definition all_ids :: "('t, 's, 'b) scheduler \<Rightarrow> stream_id list" where
  "all_ids sd = filter (\<lambda>i. streams (sd_pool sd) ! i \<noteq> None) [0..<max_streams (sd_pool sd)]"

fun op_log :: "('t, 's, 'b) sched_backend \<Rightarrow> 't sched_call \<Rightarrow> ('t, 's, 'b) scheduler \<Rightarrow> 't command list" where
  "op_log be (Register sid t args) sd = align_log be sid args sd @
     (case align_streams be sid args sd of Ok sd1 \<Rightarrow> push_log be sid t sd1 | _ \<Rightarrow> [])"
| "op_log be (Execute sids) sd = execution be sids sd"
| "op_log be FlushAll sd = execution be (all_ids sd) sd @
     (case execute_streams be (all_ids sd) sd of Ok sd1 \<Rightarrow> flush_log 0 (streams (sd_pool sd1)) | _ \<Rightarrow> [])"

text \<open>One operation against its commands: the streams ran them, and each queue lost exactly what they enqueued.\<close>

definition follows ::
  "('t, 's, 'b) sched_backend \<Rightarrow> 't command list \<Rightarrow> (nat \<Rightarrow> 't list) \<Rightarrow> ('t, 's, 'b) scheduler \<Rightarrow> ('t, 's, 'b) scheduler \<Rightarrow> bool" where
  "follows be cs new sd sd' \<longleftrightarrow> grows (sd_pool sd) (sd_pool sd') \<and> sd_strategy sd' = sd_strategy sd \<and> sd_max_tasks sd' = sd_max_tasks sd \<and>
     (bare (sd_pool sd'), fs_graph (sd_failures sd')) = run_commands be cs (bare (sd_pool sd), fs_graph (sd_failures sd)) \<and>
     (\<forall>k < length (streams (sd_pool sd)). queue (sd_pool sd) k @ new k = enqueued_from k cs @ queue (sd_pool sd') k)"

lemma follows_queue: "follows be cs new sd sd' \<Longrightarrow> k < length (streams (sd_pool sd)) \<Longrightarrow>
    queue (sd_pool sd) k @ new k = enqueued_from k cs @ queue (sd_pool sd') k"
  by (simp add: follows_def)

lemma follows_refl: "follows be [] (\<lambda>_. []) sd sd"
  by (simp add: follows_def grows_refl)

lemma follows_trans:
  assumes "follows be cs new sd sd1" "follows be ds old sd1 sd2"
  shows "follows be (cs @ ds) (\<lambda>k. new k @ old k) sd sd2"
proof -
  have l: "length (streams (sd_pool sd1)) = length (streams (sd_pool sd))" using assms(1) by (simp add: follows_def grows_def)
  have "queue (sd_pool sd) k @ new k @ old k = (enqueued_from k cs @ enqueued_from k ds) @ queue (sd_pool sd2) k"
    if "k < length (streams (sd_pool sd))" for k
  proof -
    have "queue (sd_pool sd) k @ new k = enqueued_from k cs @ queue (sd_pool sd1) k" using assms(1) that by (simp add: follows_def)
    moreover have "queue (sd_pool sd1) k @ old k = enqueued_from k ds @ queue (sd_pool sd2) k" using assms(2) that l by (simp add: follows_def)
    ultimately show ?thesis by (metis append.assoc)
  qed
  moreover have "(bare (sd_pool sd2), fs_graph (sd_failures sd2)) = run_commands be (cs @ ds) (bare (sd_pool sd), fs_graph (sd_failures sd))"
    using assms by (simp add: follows_def)
  ultimately show ?thesis using assms grows_trans by (auto simp: follows_def)
qed

lemma execute_follows:
  assumes "regular_ok (sd_pool sd)"
  shows "\<exists>sd'. execute_streams be sids sd = Ok sd' \<and> follows be (execution be sids sd) (\<lambda>_. []) sd sd' \<and>
    (\<forall>k. queue (sd_pool sd') k = (if k \<in> slot (sd_pool sd) ` set sids then [] else queue (sd_pool sd) k))"
  using execute_streams_spec [OF assms, of be sids] execution_from [OF assms, of _ be sids]
  by (auto simp: follows_def slots_of_props(2) [OF assms])

lemma foreign_streams_eq: "regular_ok p \<Longrightarrow> foreign_streams p (slot p sid) args = Ok (foreign p sid args)"
  by (induction args) (auto simp: foreign_def)

lemma align_follows:
  assumes "regular_ok (sd_pool sd)"
  shows "\<exists>sd1. align_streams be sid args sd = Ok sd1 \<and> follows be (align_log be sid args sd) (\<lambda>_. []) sd sd1 \<and>
    (\<forall>a \<in> set args. slot (sd_pool sd) a \<noteq> slot (sd_pool sd) sid \<longrightarrow> queue (sd_pool sd1) (slot (sd_pool sd) a) = []) \<and>
    queue (sd_pool sd1) (slot (sd_pool sd) sid) = queue (sd_pool sd) (slot (sd_pool sd) sid)"
proof (cases "foreign (sd_pool sd) sid args = []")
  case True
  then show ?thesis using assms follows_refl [of be sd] foreign_streams_eq [OF assms, of sid args]
    by (auto simp: align_streams_def align_log_def foreign_def filter_empty_conv)
next
  case False
  then show ?thesis using execute_follows [OF assms, of be "foreign (sd_pool sd) sid args"] foreign_streams_eq [OF assms, of sid args] assms
    by (auto simp: align_streams_def align_log_def foreign_def)
qed

lemma pushed_follows:
  assumes "regular_ok (sd_pool sd)"
  shows "follows be [Open (slot (sd_pool sd) sid)] (\<lambda>k. if k = slot (sd_pool sd) sid then [t] else []) sd (pushed be sid t sd)"
    "queue (sd_pool (pushed be sid t sd)) k = queue (sd_pool sd) k @ (if k = slot (sd_pool sd) sid then [t] else [])"
proof -
  let ?i = "slot (sd_pool sd) sid"
  let ?p = "filled (sched_create be) ?i (sd_pool sd)"
  have i: "?i < length (streams (sd_pool sd))" using assms by simp
  obtain s where s: "streams ?p ! ?i = Some s" using filled_some [OF i] by blast
  have q: "queue (sd_pool (pushed be sid t sd)) k = queue (sd_pool sd) k @ (if k = ?i then [t] else [])" for k
  proof -
    have "ss_tasks s = queue (sd_pool sd) ?i" using queue_filled [OF i, of be ?i] s by (simp add: queue_def)
    then show ?thesis using i s by (simp add: pushed_def Let_def queue_put queue_filled stream_at_def)
  qed
  then show "queue (sd_pool (pushed be sid t sd)) k = queue (sd_pool sd) k @ (if k = ?i then [t] else [])" .
  have "bare (sd_pool (pushed be sid t sd)) = filled (sb_create be) ?i (bare (sd_pool sd))"
    using s i by (simp add: pushed_def Let_def bare_put bare_filled [symmetric] stream_at_def put_same)
  moreover have "grows (sd_pool sd) (sd_pool (pushed be sid t sd))"
    using grows_trans [OF grows_filled [OF i] grows_put] i by (simp add: pushed_def Let_def)
  ultimately show "follows be [Open ?i] (\<lambda>k. if k = ?i then [t] else []) sd (pushed be sid t sd)"
    using q by (simp add: follows_def) (simp add: pushed_def Let_def)
qed

lemma follows_ok: "follows be cs new sd sd' \<Longrightarrow> regular_ok (sd_pool sd') = regular_ok (sd_pool sd)"
    "follows be cs new sd sd' \<Longrightarrow> slot (sd_pool sd') sid = slot (sd_pool sd) sid"
  by (simp_all add: follows_def grows_ok)

lemma register_follows:
  assumes "regular_ok (sd_pool sd)"
  shows "\<exists>sd'. register_task be sid t args sd = Ok sd' \<and>
    follows be (op_log be (Register sid t args) sd) (\<lambda>k. if k = slot (sd_pool sd) sid then [t] else []) sd sd' \<and>
    (sd_max_tasks sd \<le> Suc (length (queue (sd_pool sd) (slot (sd_pool sd) sid))) \<longrightarrow> queue (sd_pool sd') (slot (sd_pool sd) sid) = [])"
proof -
  let ?i = "slot (sd_pool sd) sid"
  from align_follows [OF assms, of be sid args] obtain sd1 where a: "align_streams be sid args sd = Ok sd1"
    "follows be (align_log be sid args sd) (\<lambda>_. []) sd sd1" "queue (sd_pool sd1) ?i = queue (sd_pool sd) ?i" by blast
  have ok: "regular_ok (sd_pool sd1)" "slot (sd_pool sd1) sid = ?i" using assms follows_ok [OF a(2)] by simp_all
  have mx: "sd_max_tasks sd1 = sd_max_tasks sd" using a(2) by (simp add: follows_def)
  note p = pushed_follows [OF ok(1), of be sid t, unfolded ok(2)]
  have ok2: "regular_ok (sd_pool (pushed be sid t sd1))" "slot (sd_pool (pushed be sid t sd1)) sid = ?i" using ok follows_ok [OF p(1)] by simp_all
  have len: "length (queue (sd_pool (pushed be sid t sd1)) ?i) = Suc (length (queue (sd_pool sd) ?i))" using p(2) a(3) by simp
  have st: "ss_tasks (stream_at ?i (filled (sched_create be) ?i (sd_pool sd1))) = queue (sd_pool sd1) ?i"
  proof -
    have "?i < length (streams (sd_pool sd1))" using slot_in_range [OF ok(1), of sid] ok(2) by simp
    then show ?thesis using queue_filled [of ?i "sd_pool sd1" be ?i] filled_some [of ?i "sd_pool sd1" "sched_create be"]
      by (auto simp: queue_def stream_at_def)
  qed
  have reg: "register_task be sid t args sd = (if sd_max_tasks sd \<le> Suc (length (queue (sd_pool sd) ?i))
      then execute_streams be [sid] (pushed be sid t sd1) else Ok (pushed be sid t sd1))"
    using a(1,3) ok mx st by (simp add: register_task_def Let_def get_mut_filled pushed_def)
  show ?thesis
  proof (cases "sd_max_tasks sd \<le> Suc (length (queue (sd_pool sd) ?i))")
    case True
    from execute_follows [OF ok2(1), of be "[sid]"] obtain sd' where e: "execute_streams be [sid] (pushed be sid t sd1) = Ok sd'"
      "follows be (execution be [sid] (pushed be sid t sd1)) (\<lambda>_. []) (pushed be sid t sd1) sd'" "queue (sd_pool sd') ?i = []"
      using ok2(2) by auto
    from follows_trans [OF follows_trans [OF a(2) p(1)] e(2)] True reg e a ok mx show ?thesis
      by (intro exI [of _ sd']) (simp add: push_log_def)
  next
    case False
    with follows_trans [OF a(2) p(1)] reg a ok mx show ?thesis by (simp add: push_log_def)
  qed
qed

lemma flush_each_run:
  "flush_each be ss g = (ss', g') \<Longrightarrow> run_commands be (flush_log (length pre) ss)
     (\<lparr>streams = pre @ map (map_option ss_stream) ss, factory = f, max_streams = m\<rparr>, g) =
     (\<lparr>streams = pre @ map (map_option ss_stream) ss', factory = f, max_streams = m\<rparr>, g') \<and>
     map (map_option ss_tasks) ss' = map (map_option ss_tasks) ss"
proof (induction ss arbitrary: g ss' g' pre)
  case (Cons x ss)
  show ?case
  proof (cases x)
    case None
    with Cons.prems obtain us where "flush_each be ss g = (us, g')" "ss' = None # us" by (auto split: prod.splits)
    with None Cons.IH [of g us g' "pre @ [None]"] show ?thesis by simp
  next
    case (Some s)
    obtain y g1 where y: "sb_flush be (ss_stream s) g = (y, g1)" by fastforce
    with Some Cons.prems obtain us where "flush_each be ss g1 = (us, g')" "ss' = Some (s\<lparr>ss_stream := y\<rparr>) # us" by (auto split: prod.splits)
    with Some y Cons.IH [of g1 us g' "pre @ [Some y]"] show ?thesis by (simp add: stream_at_def put_stream_def nth_append)
  qed
qed simp

lemma flush_log_from: "enqueued_from k (flush_log n ss) = []"
  by (induction n ss rule: flush_log.induct) simp_all

lemma flush_all_follows:
  assumes "regular_ok (sd_pool sd)"
  shows "\<exists>sd'. flush_all be sd = Ok sd' \<and> follows be (op_log be FlushAll sd) (\<lambda>_. []) sd sd' \<and>
    (\<forall>k < max_streams (sd_pool sd). queue (sd_pool sd') k = [])"
proof -
  have ids: "sched_stream_ids sd = Ok (all_ids sd)" using stream_ids_slots [OF assms] by (simp add: sched_stream_ids_def all_ids_def)
  from execute_follows [OF assms, of be "all_ids sd"] obtain sd1 where e: "execute_streams be (all_ids sd) sd = Ok sd1"
    "follows be (execution be (all_ids sd) sd) (\<lambda>_. []) sd sd1"
    "\<forall>k. queue (sd_pool sd1) k = (if k \<in> slot (sd_pool sd) ` set (all_ids sd) then [] else queue (sd_pool sd) k)" by blast
  obtain ss' g' where f: "flush_each be (streams (sd_pool sd1)) (fs_graph (sd_failures sd1)) = (ss', g')" by fastforce
  let ?sd' = "with_pool sd1 ((sd_pool sd1)\<lparr>streams := ss'\<rparr>, g')"
  note r = flush_each_run [OF f, of "[]" "factory (sd_pool sd1)" "max_streams (sd_pool sd1)", simplified]
  have l: "length ss' = length (streams (sd_pool sd1))" using r by (metis length_map)
  have opt: "map_option ss_tasks (ss' ! k) = map_option ss_tasks (streams (sd_pool sd1) ! k)" if "k < length ss'" for k
    using that r l by (metis nth_map)
  have q: "queue (sd_pool ?sd') k = queue (sd_pool sd1) k" if "k < length ss'" for k
    using opt [OF that] by (auto simp: with_pool_def queue_def split: option.splits)
  have gr: "grows (sd_pool sd1) (sd_pool ?sd')"
    using opt l by (auto simp: with_pool_def grows_def) (metis map_option_eq_Some option.exhaust)
  have "follows be (flush_log 0 (streams (sd_pool sd1))) (\<lambda>_. []) sd1 ?sd'"
    using r q l gr by (simp add: follows_def with_pool_def bare_def flush_log_from)
  from follows_trans [OF e(2) this] have fo: "follows be (op_log be FlushAll sd) (\<lambda>_. []) sd ?sd'" using e(1) by simp
  moreover have "queue (sd_pool ?sd') k = []" if k: "k < max_streams (sd_pool sd)" for k
  proof -
    have "k < length (streams (sd_pool sd))" using k assms by (simp add: regular_ok_def)
    then have "k < length ss'" using e(2) l by (simp add: follows_def grows_def)
    moreover have "slot (sd_pool sd) k = k" using k by (simp add: slot_def)
    then have "queue (sd_pool sd1) k = []" using e(3) k by (cases "streams (sd_pool sd) ! k") (auto simp: all_ids_def queue_def image_iff)
    ultimately show ?thesis using q by simp
  qed
  moreover have "flush_all be sd = Ok ?sd'" using ids e(1) f by (simp add: flush_all_def)
  ultimately show ?thesis by blast
qed

section \<open>What the commands do\<close>

text \<open>Every enqueued task is followed by a flush of the stream it went to.\<close>

fun settled :: "'t command list \<Rightarrow> bool" where
  "settled [] = True"
| "settled (Enqueue j k t # cs) = (FlushOn k \<in> set cs \<and> settled cs)"
| "settled (Open k # cs) = settled cs"
| "settled (FlushOn k # cs) = settled cs"

text \<open>Every task is enqueued on the stream it was registered on.\<close>

fun kept_apart :: "'t command list \<Rightarrow> bool" where
  "kept_apart [] = True"
| "kept_apart (Enqueue j k t # cs) = (j = k \<and> kept_apart cs)"
| "kept_apart (Open k # cs) = kept_apart cs"
| "kept_apart (FlushOn k # cs) = kept_apart cs"

lemma settled_append [simp]: "settled cs \<Longrightarrow> settled ds \<Longrightarrow> settled (cs @ ds)"
  by (induction cs rule: settled.induct) auto

lemma kept_apart_append [simp]: "kept_apart (cs @ ds) = (kept_apart cs \<and> kept_apart ds)"
  by (induction cs rule: kept_apart.induct) auto

lemma quiet_commands [simp]:
  "settled (map Open is)" "kept_apart (map Open is)" "settled (flush_log n ss)" "kept_apart (flush_log n ss)"
  "settled (map (\<lambda>q. FlushOn (f q)) qs)" "kept_apart (map (\<lambda>q. FlushOn (f q)) qs)"
proof -
  show "settled (flush_log n ss)" "kept_apart (flush_log n ss)" by (induction n ss rule: flush_log.induct) simp_all
  show "settled (map (\<lambda>q. FlushOn (f q)) qs)" "kept_apart (map (\<lambda>q. FlushOn (f q)) qs)" by (induction qs) simp_all
qed (induction "is", simp_all)+

lemma settled_batch: "settled (map (\<lambda>(j, t). Enqueue j k t) jts @ [FlushOn k])"
  by (induction jts) auto

lemma own_batch: "settled (map (Enqueue k k) ts @ [FlushOn k])" "kept_apart (map (Enqueue k k) ts)"
  by (induction ts) auto

lemma sequence_settled: "settled (sequence_commands qs)" "kept_apart (sequence_commands qs)"
  by (induction qs) (auto simp: sequence_commands_def own_batch intro: settled_append [OF own_batch(1), simplified])

lemma execution_settled: "settled (execution be sids sd)"
proof -
  have "settled (interleave_commands qs)" for qs :: "(nat \<times> 'a list) list"
    by (auto simp: interleave_commands_def settled_batch split: list.splits prod.splits)
  then show ?thesis by (simp add: execution_def Let_def sequence_settled)
qed

lemma op_log_settled: "settled (op_log be c sd)"
  by (cases c) (auto simp: align_log_def push_log_def execution_settled split: outcome.splits)

lemma execution_apart:
  "sd_strategy sd = Sequential \<or> isolated be (slots_of (sd_pool sd) sids) (sd_pool sd) \<Longrightarrow> kept_apart (execution be sids sd)"
  by (auto simp: execution_def Let_def sequence_settled)

text \<open>A stream that is open stays as it is while the others are opened.\<close>

lemma opened_kept: "streams p ! i = Some s \<Longrightarrow> streams (fold (filled c) is p) ! i = Some s"
  by (induction "is" arbitrary: p) (simp_all add: filled_kept)

lemma isolated_open:
  assumes "regular_ok p" "sid \<in> set sids" "streams p ! slot p sid = Some s" "sb_isolation be (ss_stream s)"
  shows "isolated be (slots_of p sids) p"
proof -
  have "streams (bare p) ! slot p sid = Some (ss_stream s)" using assms by simp
  from opened_kept [OF this] have "stream_at (slot p sid) (fold (filled (sb_create be)) (slots_of p sids) (bare p)) = ss_stream s"
    by (simp add: stream_at_def)
  moreover have "slot p sid \<in> set (slots_of p sids)" using assms(2) slots_of_props(2) [OF assms(1)] by blast
  ultimately show ?thesis using assms(4) unfolding isolated_def by (intro bexI [of _ "slot p sid"]) simp_all
qed

section \<open>Runs\<close>

fun sched_run :: "('t, 's, 'b) sched_backend \<Rightarrow> 't sched_call list \<Rightarrow> ('t, 's, 'b) scheduler \<Rightarrow> (unit, ('t, 's, 'b) scheduler) outcome" where
  "sched_run be [] sd = Ok sd"
| "sched_run be (c # cs) sd = try_then (sched_op be c sd) (sched_run be cs)"

lemma sched_run_append: "sched_run be (cs @ ds) sd = try_then (sched_run be cs sd) (sched_run be ds)"
proof (induction cs arbitrary: sd)
  case (Cons c cs)
  then show ?case by (cases "sched_op be c sd") simp_all
qed simp

text \<open>The tasks registered on a slot of a pool with \<open>n\<close> slots, in order.\<close>

fun registered :: "nat \<Rightarrow> nat \<Rightarrow> 't sched_call list \<Rightarrow> 't list" where
  "registered n k [] = []"
| "registered n k (Register sid t args # cs) = (if sid mod n = k then t # registered n k cs else registered n k cs)"
| "registered n k (c # cs) = registered n k cs"

definition queues_short :: "('t, 's, 'b) scheduler \<Rightarrow> bool" where
  "queues_short sd \<longleftrightarrow> (\<forall>k < length (streams (sd_pool sd)). length (queue (sd_pool sd) k) < max 1 (sd_max_tasks sd))"

lemma shorter_queue:
  assumes "follows be cs (\<lambda>k. if k = i then new else []) sd sd'" "queues_short sd"
    "i < length (streams (sd_pool sd)) \<Longrightarrow> length (queue (sd_pool sd') i) < max 1 (sd_max_tasks sd)"
  shows "queues_short sd'"
proof -
  have "length (queue (sd_pool sd') k) < max 1 (sd_max_tasks sd)" if k: "k < length (streams (sd_pool sd))" for k
  proof (cases "k = i")
    case False
    then have "queue (sd_pool sd) k = enqueued_from k cs @ queue (sd_pool sd') k" using follows_queue [OF assms(1) k] by simp
    then have "length (queue (sd_pool sd') k) \<le> length (queue (sd_pool sd) k)" by simp
    with assms(2) k show ?thesis unfolding queues_short_def by (meson le_less_trans)
  qed (use assms(3) k in simp)
  then show ?thesis using assms(1) by (simp add: queues_short_def follows_def grows_def)
qed

lemma shrunk_queue: "follows be cs (\<lambda>_. []) sd sd' \<Longrightarrow> queues_short sd \<Longrightarrow> queues_short sd'"
  by (rule shorter_queue [where i = "length (streams (sd_pool sd))" and new = "[]"]) (auto simp: less_irrefl)

lemma sched_op_spec:
  assumes "regular_ok (sd_pool sd)"
  shows "\<exists>sd'. sched_op be c sd = Ok sd' \<and> follows be (op_log be c sd) (\<lambda>k. registered (max_streams (sd_pool sd)) k [c]) sd sd' \<and>
    (queues_short sd \<longrightarrow> queues_short sd')"
proof (cases c)
  case (Register sid t args)
  let ?i = "slot (sd_pool sd) sid" and ?q = "queue (sd_pool sd) (slot (sd_pool sd) sid)"
  from register_follows [OF assms, of be sid t args] obtain sd' where r: "register_task be sid t args sd = Ok sd'"
    "follows be (op_log be c sd) (\<lambda>k. if k = ?i then [t] else []) sd sd'"
    "sd_max_tasks sd \<le> Suc (length ?q) \<longrightarrow> queue (sd_pool sd') ?i = []" using Register by blast
  have "queues_short sd'" if "queues_short sd"
  proof (rule shorter_queue [OF r(2) that])
    assume "?i < length (streams (sd_pool sd))"
    from arg_cong [OF follows_queue [OF r(2) this], of length] have "length ?q + 1 = length (enqueued_from ?i (op_log be c sd)) + length (queue (sd_pool sd') ?i)"
      by simp
    with r(3) show "length (queue (sd_pool sd') ?i) < max 1 (sd_max_tasks sd)" by (cases "sd_max_tasks sd \<le> Suc (length ?q)") auto
  qed
  moreover have "(\<lambda>k. registered (max_streams (sd_pool sd)) k [c]) = (\<lambda>k. if k = ?i then [t] else [])" using Register by (auto simp: slot_def)
  ultimately show ?thesis using r(1,2) Register by simp
next
  case (Execute sids)
  with execute_follows [OF assms, of be sids] show ?thesis using shrunk_queue by fastforce
next
  case FlushAll
  with flush_all_follows [OF assms, of be] show ?thesis using shrunk_queue by fastforce
qed

lemma op_log_apart:
  assumes "regular_ok (sd_pool sd)" "sd_strategy sd = Sequential"
  shows "kept_apart (op_log be c sd)"
proof (cases c)
  case (Register sid t args)
  from align_follows [OF assms(1), of be sid args] obtain sd1 where a: "align_streams be sid args sd = Ok sd1"
    "sd_strategy sd1 = sd_strategy sd" by (auto simp: follows_def)
  with Register assms show ?thesis by (simp add: align_log_def push_log_def execution_apart pushed_def Let_def)
qed (use assms in \<open>auto simp: execution_apart split: outcome.splits\<close>)

lemma registered_append: "registered n k (cs @ ds) = registered n k cs @ registered n k ds"
  by (induction n k cs rule: registered.induct) simp_all

lemma sched_run_spec:
  "regular_ok (sd_pool sd) \<Longrightarrow> \<exists>sd' log. sched_run be cs sd = Ok sd' \<and>
     follows be log (\<lambda>k. registered (max_streams (sd_pool sd)) k cs) sd sd' \<and> settled log \<and>
     (queues_short sd \<longrightarrow> queues_short sd') \<and> (sd_strategy sd = Sequential \<longrightarrow> kept_apart log)"
proof (induction cs arbitrary: sd)
  case Nil
  then show ?case using follows_refl by (intro exI [of _ sd] exI [of _ "[]"]) simp
next
  case (Cons c cs)
  from sched_op_spec [OF Cons.prems, of be c] obtain sd1 where c: "sched_op be c sd = Ok sd1"
    "follows be (op_log be c sd) (\<lambda>k. registered (max_streams (sd_pool sd)) k [c]) sd sd1" "queues_short sd \<longrightarrow> queues_short sd1" by blast
  have m: "max_streams (sd_pool sd1) = max_streams (sd_pool sd)" "sd_strategy sd1 = sd_strategy sd" "regular_ok (sd_pool sd1)"
    using c(2) Cons.prems by (simp_all add: follows_def grows_def regular_ok_def)
  from Cons.IH [OF m(3)] obtain sd' log where ih: "sched_run be cs sd1 = Ok sd'"
    "follows be log (\<lambda>k. registered (max_streams (sd_pool sd)) k cs) sd1 sd'" "settled log"
    "queues_short sd1 \<longrightarrow> queues_short sd'" "sd_strategy sd = Sequential \<longrightarrow> kept_apart log" unfolding m by blast
  have "follows be (op_log be c sd @ log) (\<lambda>k. registered (max_streams (sd_pool sd)) k (c # cs)) sd sd'"
    using follows_trans [OF c(2) ih(2)] by (simp flip: registered_append)
  then show ?case using c ih op_log_apart [OF Cons.prems]
    by (intro exI [of _ sd'] exI [of _ "op_log be c sd @ log"]) (auto simp: op_log_settled)
qed

section \<open>Properties of the scheduler\<close>

definition demo_backend :: "(nat, nat list, unit) sched_backend" where
  "demo_backend = \<lparr>sb_create = \<lambda>u. ([], u), sb_enqueue = \<lambda>t s g. (s @ [t], g), sb_flush = \<lambda>s g. (s @ [0], g),
     sb_isolation = \<lambda>s. 9 \<in> set s\<rparr>"

definition demo_scheduler :: "(nat, nat list, unit) scheduler" where
  "demo_scheduler = (sched_new () 3 4 Interleave)\<lparr>sd_pool :=
     \<lparr>streams = [Some \<lparr>ss_tasks = [5, 6], ss_stream = [9]\<rparr>, Some \<lparr>ss_tasks = [7], ss_stream = []\<rparr>, None], factory = (), max_streams = 3\<rparr>\<rparr>"

lemma demo_scheduler_ok: "regular_ok (sd_pool demo_scheduler)"
  by (simp add: demo_scheduler_def regular_ok_def)

text \<open>C12: Whatever calls reach the scheduler, in whatever order, none of them panics, and what they do
  to the backend streams and to the error graph is what one log of commands does: each slot's
  tasks enter the backend once each and in the order they were registered, the ones not yet
  entered being exactly the slot's queue, and every task that entered is followed by a flush of
  the stream it entered.
\<close>

theorem tasks_run_once_in_order:
  assumes "regular_ok (sd_pool sd)"
  shows "\<exists>sd' log. sched_run be cs sd = Ok sd' \<and> settled log \<and>
    (bare (sd_pool sd'), fs_graph (sd_failures sd')) = run_commands be log (bare (sd_pool sd), fs_graph (sd_failures sd)) \<and>
    (\<forall>k < length (streams (sd_pool sd)).
      queue (sd_pool sd) k @ registered (max_streams (sd_pool sd)) k cs = enqueued_from k log @ queue (sd_pool sd') k)"
  using sched_run_spec [OF assms, of be cs] by (auto simp: follows_def)

theorem tasks_run_once_in_order_witness:
  "\<exists>sd' log. sched_run demo_backend [Register 4 8 [3], Execute [1, 0], FlushAll] demo_scheduler = Ok sd' \<and> settled log \<and>
    (bare (sd_pool sd'), fs_graph (sd_failures sd')) =
      run_commands demo_backend log (bare (sd_pool demo_scheduler), fs_graph (sd_failures demo_scheduler)) \<and>
    (\<forall>k < length (streams (sd_pool demo_scheduler)). queue (sd_pool demo_scheduler) k @
       registered (max_streams (sd_pool demo_scheduler)) k [Register 4 8 [3], Execute [1, 0], FlushAll] = enqueued_from k log @ queue (sd_pool sd') k)"
  using tasks_run_once_in_order [OF demo_scheduler_ok] .

text \<open>C15: Once \<open>flush_all\<close> has run, nothing registered since the scheduler was made is left waiting:
  every task has entered the backend, in the order of its slot; under the sequential strategy, on
  the very stream it was registered on.
\<close>

theorem flush_all_runs_everything:
  fixes be :: "('t, 's, 'b) sched_backend"
  assumes "0 < n" "n \<le> 255"
  shows "\<exists>sd' log. sched_run be (cs @ [FlushAll]) (sched_new b n m st) = Ok sd' \<and>
    (bare (sd_pool sd'), fs_graph (sd_failures sd')) =
      run_commands be log (\<lparr>streams = replicate n None, factory = b, max_streams = n\<rparr>, fs_graph failures_new) \<and>
    (st = Sequential \<longrightarrow> kept_apart log) \<and>
    (\<forall>k < n. enqueued_from k log = registered n k cs \<and> queue (sd_pool sd') k = [])"
proof -
  let ?sd = "sched_new b n m st :: ('t, 's, 'b) scheduler"
  have new: "sd_pool ?sd = pool_new b n 0" "regular_ok (sd_pool ?sd)" using assms by (simp_all add: sched_new_def regular_new_ok)
  have fields: "max_streams (sd_pool ?sd) = n" "length (streams (sd_pool ?sd)) = n" "sd_strategy ?sd = st" "sd_failures ?sd = failures_new"
    "bare (sd_pool ?sd) = \<lparr>streams = replicate n None, factory = b, max_streams = n\<rparr>"
    using assms by (simp_all add: sched_new_def pool_new_def u8_saturating_add_def bare_def)
  have q0: "queue (sd_pool ?sd) k = []" if "k < n" for k
    using that assms by (simp add: sched_new_def pool_new_def u8_saturating_add_def queue_def)
  from sched_run_spec [OF new(2), of be "cs @ [FlushAll]", unfolded fields] obtain sd' log where
    r: "sched_run be (cs @ [FlushAll]) ?sd = Ok sd'" "st = Sequential \<longrightarrow> kept_apart log"
    "follows be log (\<lambda>k. registered n k (cs @ [FlushAll])) ?sd sd'" by blast
  from sched_run_spec [OF new(2), of be cs, unfolded fields] obtain sd1 log1 where
    r1: "sched_run be cs ?sd = Ok sd1" "follows be log1 (\<lambda>k. registered n k cs) ?sd sd1" by blast
  have ok1: "regular_ok (sd_pool sd1)" "max_streams (sd_pool sd1) = n" using follows_ok(1) [OF r1(2)] new(2) r1(2) fields(1) by (simp_all add: follows_def grows_def)
  have "flush_all be sd1 = Ok sd'" using r(1) r1(1) by (simp add: sched_run_append)
  then have "\<forall>k < n. queue (sd_pool sd') k = []" using flush_all_follows [OF ok1(1), of be] ok1(2) by auto
  moreover have "enqueued_from k log = registered n k cs" if "k < n" for k
    using follows_queue [OF r(3), of k] that calculation q0 fields by (simp add: registered_append)
  ultimately show ?thesis using r fields by (auto simp: follows_def)
qed

theorem flush_all_runs_everything_witness:
  "\<exists>sd' log. sched_run demo_backend ([Register 4 8 [3], Register 0 6 [4]] @ [FlushAll]) (sched_new () 3 4 Sequential) = Ok sd' \<and>
    (bare (sd_pool sd'), fs_graph (sd_failures sd')) =
      run_commands demo_backend log (\<lparr>streams = replicate 3 None, factory = (), max_streams = 3\<rparr>, fs_graph failures_new) \<and>
    (Sequential = Sequential \<longrightarrow> kept_apart log) \<and>
    (\<forall>k < 3. enqueued_from k log = registered 3 k [Register 4 8 [3], Register 0 6 [4]] \<and> queue (sd_pool sd') k = [])"
  by (rule flush_all_runs_everything) simp_all

text \<open>C16: A stream's queue never reaches the limit: after any calls, every slot of a scheduler made
  with a limit of \<open>m\<close> tasks has fewer than \<open>m\<close> waiting (none, for a limit of zero or one).
\<close>

theorem queues_stay_short:
  fixes be :: "('t, 's, 'b) sched_backend"
  assumes "0 < n" "n \<le> 255"
  shows "\<exists>sd'. sched_run be cs (sched_new b n m st) = Ok sd' \<and> (\<forall>k < n. length (queue (sd_pool sd') k) < max 1 m)"
proof -
  let ?sd = "sched_new b n m st :: ('t, 's, 'b) scheduler"
  have ok: "regular_ok (sd_pool ?sd)" "length (streams (sd_pool ?sd)) = n" "sd_max_tasks ?sd = m"
    using assms regular_new_ok [of n b 0] by (simp_all add: sched_new_def pool_new_def u8_saturating_add_def)
  have "queues_short ?sd" using assms by (simp add: queues_short_def sched_new_def pool_new_def u8_saturating_add_def queue_def less_max_iff_disj)
  with sched_run_spec [OF ok(1), of be cs] obtain sd' log where
    "sched_run be cs ?sd = Ok sd'" "follows be log (\<lambda>k. registered (max_streams (sd_pool ?sd)) k cs) ?sd sd'" "queues_short sd'" by blast
  then show ?thesis using ok(2,3) by (simp add: follows_def grows_def queues_short_def)
qed

theorem queues_stay_short_witness:
  "\<exists>sd'. sched_run demo_backend [Register 0 5 [], Register 3 6 [], Register 0 7 [1]] (sched_new () 3 2 Interleave) = Ok sd' \<and>
    (\<forall>k < 3. length (queue (sd_pool sd') k) < max 1 2)"
  by (rule queues_stay_short) simp_all

text \<open>C13: A task is registered behind the streams its arguments come from: before anything of its own
  slot moves, every task waiting on an argument's slot has entered the backend, in order, each
  followed by a flush of the stream it entered.
\<close>

theorem register_aligns:
  assumes "regular_ok (sd_pool sd)"
  shows "\<exists>sd' first rest. register_task be sid t args sd = Ok sd' \<and>
    (bare (sd_pool sd'), fs_graph (sd_failures sd')) = run_commands be (first @ rest) (bare (sd_pool sd), fs_graph (sd_failures sd)) \<and>
    settled first \<and> enqueued_from (slot (sd_pool sd) sid) first = [] \<and>
    enqueued_from (slot (sd_pool sd) sid) rest @ queue (sd_pool sd') (slot (sd_pool sd) sid) = queue (sd_pool sd) (slot (sd_pool sd) sid) @ [t] \<and>
    (\<forall>a \<in> set args. slot (sd_pool sd) a \<noteq> slot (sd_pool sd) sid \<longrightarrow>
      enqueued_from (slot (sd_pool sd) a) first = queue (sd_pool sd) (slot (sd_pool sd) a) \<and>
      queue (sd_pool sd') (slot (sd_pool sd) a) = [])"
proof -
  let ?p = "sd_pool sd" and ?i = "slot (sd_pool sd) sid" and ?first = "align_log be sid args sd"
  from align_follows [OF assms, of be sid args] obtain sd1 where a: "align_streams be sid args sd = Ok sd1" "follows be ?first (\<lambda>_. []) sd sd1"
    "\<forall>a \<in> set args. slot ?p a \<noteq> ?i \<longrightarrow> queue (sd_pool sd1) (slot ?p a) = []" "queue (sd_pool sd1) ?i = queue ?p ?i" by blast
  let ?rest = "push_log be sid t sd1"
  from register_follows [OF assms, of be sid t args] obtain sd' where r: "register_task be sid t args sd = Ok sd'"
    "follows be (?first @ ?rest) (\<lambda>k. if k = ?i then [t] else []) sd sd'" using a(1) by auto
  have q1: "queue ?p (slot ?p x) = enqueued_from (slot ?p x) ?first @ queue (sd_pool sd1) (slot ?p x)" for x
    using follows_queue [OF a(2), of "slot ?p x"] assms by simp
  have q2: "queue ?p (slot ?p x) @ (if slot ?p x = ?i then [t] else []) =
      (enqueued_from (slot ?p x) ?first @ enqueued_from (slot ?p x) ?rest) @ queue (sd_pool sd') (slot ?p x)" for x
    using follows_queue [OF r(2), of "slot ?p x"] assms by simp
  have "settled ?first" by (simp add: align_log_def execution_settled)
  moreover have "enqueued_from ?i ?first = []" using q1 [of sid] a(4) by simp
  moreover have "enqueued_from (slot ?p x) ?first = queue ?p (slot ?p x) \<and> queue (sd_pool sd') (slot ?p x) = []"
    if "x \<in> set args" "slot ?p x \<noteq> ?i" for x using that a(3) q1 [of x] q2 [of x] by auto
  ultimately show ?thesis using r q2 [of sid] by (intro exI [of _ sd'] exI [of _ ?first] exI [of _ ?rest]) (simp add: follows_def)
qed

theorem register_aligns_witness:
  "\<exists>sd' first rest. register_task demo_backend 4 8 [3, 2] demo_scheduler = Ok sd' \<and>
    (bare (sd_pool sd'), fs_graph (sd_failures sd')) =
      run_commands demo_backend (first @ rest) (bare (sd_pool demo_scheduler), fs_graph (sd_failures demo_scheduler)) \<and>
    settled first \<and> enqueued_from (slot (sd_pool demo_scheduler) 4) first = [] \<and>
    enqueued_from (slot (sd_pool demo_scheduler) 4) rest @ queue (sd_pool sd') (slot (sd_pool demo_scheduler) 4) =
      queue (sd_pool demo_scheduler) (slot (sd_pool demo_scheduler) 4) @ [8] \<and>
    (\<forall>a \<in> set [3, 2]. slot (sd_pool demo_scheduler) a \<noteq> slot (sd_pool demo_scheduler) 4 \<longrightarrow>
      enqueued_from (slot (sd_pool demo_scheduler) a) first = queue (sd_pool demo_scheduler) (slot (sd_pool demo_scheduler) a) \<and>
      queue (sd_pool sd') (slot (sd_pool demo_scheduler) a) = [])"
  using register_aligns [OF demo_scheduler_ok] .

text \<open>C14: A stream that requires isolation, such as one that records a graph, is never interleaved:
  when any of the executed streams requires it, every task enters the stream it was registered
  on, whatever the strategy.
\<close>

theorem isolated_tasks_stay:
  assumes "regular_ok (sd_pool sd)" "sid \<in> set sids" "streams (sd_pool sd) ! slot (sd_pool sd) sid = Some s" "sb_isolation be (ss_stream s)"
  shows "\<exists>sd' log. execute_streams be sids sd = Ok sd' \<and> kept_apart log \<and> settled log \<and>
    (bare (sd_pool sd'), fs_graph (sd_failures sd')) = run_commands be log (bare (sd_pool sd), fs_graph (sd_failures sd)) \<and>
    (\<forall>a \<in> set sids. enqueued_from (slot (sd_pool sd) a) log = queue (sd_pool sd) (slot (sd_pool sd) a))"
proof -
  have "kept_apart (execution be sids sd)" using isolated_open [where be = be, OF assms] by (intro execution_apart disjI2)
  moreover from execute_streams_spec [OF assms(1), of be sids] obtain sd' where "execute_streams be sids sd = Ok sd'"
    "(bare (sd_pool sd'), fs_graph (sd_failures sd')) = run_commands be (execution be sids sd) (bare (sd_pool sd), fs_graph (sd_failures sd))" by blast
  moreover have "enqueued_from (slot (sd_pool sd) a) (execution be sids sd) = queue (sd_pool sd) (slot (sd_pool sd) a)" if "a \<in> set sids" for a
    using execution_from [OF assms(1), of "slot (sd_pool sd) a" be sids] that slots_of_props(2) [OF assms(1), of sids] by simp
  ultimately show ?thesis using execution_settled [of be sids sd] by (intro exI [of _ sd'] exI [of _ "execution be sids sd"]) simp
qed

theorem isolated_tasks_stay_witness:
  "\<exists>sd' log. execute_streams demo_backend [1, 3] demo_scheduler = Ok sd' \<and> kept_apart log \<and> settled log \<and>
    (bare (sd_pool sd'), fs_graph (sd_failures sd')) =
      run_commands demo_backend log (bare (sd_pool demo_scheduler), fs_graph (sd_failures demo_scheduler)) \<and>
    (\<forall>a \<in> set [1, 3]. enqueued_from (slot (sd_pool demo_scheduler) a) log = queue (sd_pool demo_scheduler) (slot (sd_pool demo_scheduler) a))"
  by (rule isolated_tasks_stay [OF demo_scheduler_ok, of 3 _ "\<lparr>ss_tasks = [5, 6], ss_stream = [9]\<rparr>"])
    (simp_all add: demo_scheduler_def demo_backend_def slot_def)



end
