(* ===== verification/Event_Streams.thy ===== *)
theory Event_Streams
  imports Failure_Store
begin

text \<open>
  The streams of a device with events (\<open>cubecl-server/src/stream/event.rs\<close>): work that reads the
  memory of another stream waits for an event of it, unless the cursors say the streams met since
  the memory was last used, and the memory is pinned until an event of the reader is reached.

  The backend is a record of its operations, and its documented behaviour, what an event covers and
  what a wait orders, is the predicate \<open>event_contract\<close>. The keys of a \<open>HashMap\<close> come in an order
  that is a parameter. The thread that collects the pinned memory is the list of the tasks sent to
  it and the step \<open>gc_reclaim\<close> it takes on each. The logger is left out.
\<close>

record ('s, 'ev, 'b) event_backend =
  eb_create :: "'b \<Rightarrow> 's"
  eb_cursor :: "'s \<Rightarrow> buffer_binding \<Rightarrow> nat"
  eb_flush :: "'s \<Rightarrow> error_graph \<Rightarrow> 'ev \<times> 's \<times> error_graph"
  eb_wait :: "'s \<Rightarrow> 'ev \<Rightarrow> 's"
  eb_wait_sync :: "'ev \<Rightarrow> (server_error, unit) outcome"

record 's stream_wrapper =
  sw_stream :: 's
  sw_cursor :: nat
  sw_last_synced :: "nat \<rightharpoonup> nat"

type_synonym ('s, 'b) event_pool = "('s stream_wrapper, 'b) stream_pool"

record 'ev gc_task =
  gt_to_drop :: "handle list"
  gt_event :: 'ev

record ('s, 'ev, 'b) multi_stream =
  mt_pool :: "('s, 'b) event_pool"
  mt_failures :: failures
  mt_max_streams :: nat
  mt_gc :: "'ev gc_task list"
  mt_shared_pool :: "(handle \<times> stream_id \<times> nat) list"

record binding_analysis =
  an_slices :: "(nat \<times> handle list) list"
  an_pinned :: "handle list"

record resolved =
  rv_cursor :: nat
  rv_current :: stream_id
  rv_pinned :: "handle list"

section \<open>Operations\<close>

definition wrapper_create :: "('s, 'ev, 'b) event_backend \<Rightarrow> 'b \<Rightarrow> 's stream_wrapper \<times> 'b" where
  "wrapper_create be b = (\<lparr>sw_stream = eb_create be b, sw_cursor = 0, sw_last_synced = Map.empty\<rparr>, b)"

definition multi_new :: "'b \<Rightarrow> nat \<Rightarrow> ('s, 'ev, 'b) multi_stream" where
  "multi_new b n = \<lparr>mt_pool = pool_new b n 1, mt_failures = failures_new, mt_max_streams = n, mt_gc = [], mt_shared_pool = []\<rparr>"

definition analysis_shared :: "handle \<Rightarrow> nat \<Rightarrow> binding_analysis \<Rightarrow> binding_analysis" where
  "analysis_shared i origin an = (case map_of (an_slices an) origin of
     Some _ \<Rightarrow> an\<lparr>an_slices := map (\<lambda>(k, is). (k, if k = origin then is @ [i] else is)) (an_slices an)\<rparr>
   | None \<Rightarrow> an\<lparr>an_slices := an_slices an @ [(origin, [i])]\<rparr>)"

text \<open>The two loops of \<open>update_shared_bindings\<close>.\<close>

fun collect_shared ::
  "('s, 'ev, 'b) event_backend \<Rightarrow> nat \<Rightarrow> buffer_binding list \<Rightarrow> ('s, 'b) event_pool \<Rightarrow> heap
     \<Rightarrow> (unit, (handle \<times> stream_id \<times> nat) list \<times> handle list \<times> ('s, 'b) event_pool \<times> heap) outcome" where
  "collect_shared be n [] p h = Ok ([], [], p, h)"
| "collect_shared be n (b # bs) p h =
     try_then (stream_index (bb_stream b) n) (\<lambda>i. try_then (get_mut_index (wrapper_create be) i p) (\<lambda>(w, p).
       try_then (collect_shared be n bs p (clone_binding (bb_memory b) h)) (\<lambda>(shared, pins, p, h).
         Ok ((bb_memory b, bb_stream b, eb_cursor be (sw_stream w) b) # shared, bb_memory b # pins, p, h))))"

fun analyse_shared ::
  "nat \<Rightarrow> (nat \<rightharpoonup> nat) \<Rightarrow> (handle \<times> stream_id \<times> nat) list \<Rightarrow> binding_analysis \<Rightarrow> (unit, binding_analysis) outcome" where
  "analyse_shared n synced [] an = Ok an"
| "analyse_shared n synced ((i, sid, c) # shared) an =
     try_then (stream_index sid n) (\<lambda>origin. analyse_shared n synced shared
       (case synced origin of
          Some met \<Rightarrow> if met < c then analysis_shared i origin an else an
        | None \<Rightarrow> analysis_shared i origin an))"

definition update_shared_bindings ::
  "('s, 'ev, 'b) event_backend \<Rightarrow> stream_id \<Rightarrow> buffer_binding list \<Rightarrow> ('s, 'ev, 'b) multi_stream \<Rightarrow> heap
     \<Rightarrow> (unit, binding_analysis \<times> ('s, 'ev, 'b) multi_stream \<times> heap) outcome" where
  "update_shared_bindings be sid bs ms h =
     try_then (collect_shared be (mt_max_streams ms) (filter (\<lambda>b. bb_stream b \<noteq> sid) bs) (mt_pool ms) h) (\<lambda>(shared, pins, p, h).
     try_then (get_mut (wrapper_create be) sid p) (\<lambda>(w, p).
     try_then (analyse_shared (mt_max_streams ms) (sw_last_synced w) shared \<lparr>an_slices = [], an_pinned = pins\<rparr>) (\<lambda>an.
       Ok (an, ms\<lparr>mt_pool := p, mt_shared_pool := shared\<rparr>, h))))"

text \<open>The two loops of \<open>apply_analysis\<close>: flush the origins, then wait for their events.\<close>

fun flush_origins ::
  "('s, 'ev, 'b) event_backend \<Rightarrow> nat list \<Rightarrow> ('s, 'b) event_pool \<Rightarrow> error_graph
     \<Rightarrow> (unit, (nat \<times> nat \<times> 'ev) list \<times> ('s, 'b) event_pool \<times> error_graph) outcome" where
  "flush_origins be [] p g = Ok ([], p, g)"
| "flush_origins be (i # is) p g =
     try_then (get_mut_index (wrapper_create be) i p) (\<lambda>(w, p). case eb_flush be (sw_stream w) g of (ev, s, g) \<Rightarrow>
       try_then (flush_origins be is (put_stream i (w\<lparr>sw_stream := s\<rparr>) p) g) (\<lambda>(events, p, g).
         Ok ((i, sw_cursor w, ev) # events, p, g)))"

fun wait_events :: "('s, 'ev, 'b) event_backend \<Rightarrow> (nat \<times> nat \<times> 'ev) list \<Rightarrow> 's stream_wrapper \<Rightarrow> 's stream_wrapper" where
  "wait_events be [] w = w"
| "wait_events be ((origin, c, ev) # events) w = wait_events be events
     (w\<lparr>sw_last_synced := (sw_last_synced w)(origin \<mapsto> c), sw_stream := eb_wait be (sw_stream w) ev\<rparr>)"

definition apply_analysis ::
  "('s, 'ev, 'b) event_backend \<Rightarrow> (nat list \<Rightarrow> nat list) \<Rightarrow> stream_id \<Rightarrow> binding_analysis \<Rightarrow> ('s, 'ev, 'b) multi_stream
     \<Rightarrow> (unit, ('s, 'ev, 'b) multi_stream) outcome" where
  "apply_analysis be hash_order sid an ms =
     (if an_slices an = [] then Ok ms
      else try_then (flush_origins be (hash_order (map fst (an_slices an))) (mt_pool ms) (fs_graph (mt_failures ms))) (\<lambda>(events, p, g).
        try_then (pool_index p sid) (\<lambda>i. try_then (get_mut (wrapper_create be) sid p) (\<lambda>(w, p).
          Ok (ms\<lparr>mt_pool := put_stream i (wait_events be events w) p, mt_failures := (mt_failures ms)\<lparr>fs_graph := g\<rparr>\<rparr>)))))"

definition resolve ::
  "('s, 'ev, 'b) event_backend \<Rightarrow> (nat list \<Rightarrow> nat list) \<Rightarrow> stream_id \<Rightarrow> buffer_binding list \<Rightarrow> ('s, 'ev, 'b) multi_stream \<Rightarrow> heap
     \<Rightarrow> (unit, resolved \<times> ('s, 'ev, 'b) multi_stream \<times> heap) outcome" where
  "resolve be hash_order sid bs ms h =
     try_then (update_shared_bindings be sid bs ms h) (\<lambda>(an, ms, h).
     try_then (apply_analysis be hash_order sid an ms) (\<lambda>ms.
     try_then (pool_index (mt_pool ms) sid) (\<lambda>i. try_then (get_mut (wrapper_create be) sid (mt_pool ms)) (\<lambda>(w, p).
       let w = w\<lparr>sw_cursor := u64_add (sw_cursor w) 1\<rparr>
       in Ok (\<lparr>rv_cursor = sw_cursor w, rv_current = sid, rv_pinned = an_pinned an\<rparr>, ms\<lparr>mt_pool := put_stream i w p\<rparr>, h)))))"

text \<open>What the holder of the resolved streams does on the current one, through \<open>current\<close>.\<close>

definition on_current ::
  "('s, 'ev, 'b) event_backend \<Rightarrow> ('s \<Rightarrow> 's) \<Rightarrow> resolved \<Rightarrow> ('s, 'ev, 'b) multi_stream \<Rightarrow> (unit, ('s, 'ev, 'b) multi_stream) outcome" where
  "on_current be work rv ms =
     try_then (pool_index (mt_pool ms) (rv_current rv)) (\<lambda>i. try_then (get_mut (wrapper_create be) (rv_current rv) (mt_pool ms)) (\<lambda>(w, p).
       Ok (ms\<lparr>mt_pool := put_stream i (w\<lparr>sw_stream := work (sw_stream w)\<rparr>) p\<rparr>)))"

text \<open>\<open>Drop for ResolvedStreams\<close>.\<close>

definition drop_resolved ::
  "('s, 'ev, 'b) event_backend \<Rightarrow> resolved \<Rightarrow> ('s, 'ev, 'b) multi_stream \<Rightarrow> (unit, ('s, 'ev, 'b) multi_stream) outcome" where
  "drop_resolved be rv ms =
     (if rv_pinned rv = [] then Ok ms
      else try_then (pool_index (mt_pool ms) (rv_current rv)) (\<lambda>i.
        try_then (get_mut (wrapper_create be) (rv_current rv) (mt_pool ms)) (\<lambda>(w, p).
        case eb_flush be (sw_stream w) (fs_graph (mt_failures ms)) of (ev, s, g) \<Rightarrow>
        try_then (get_special (wrapper_create be) 0 (put_stream i (w\<lparr>sw_stream := s\<rparr>) p)) (\<lambda>(gc, p).
        case eb_flush be (eb_wait be (sw_stream gc) ev) g of (ev, s, g) \<Rightarrow>
          Ok (ms\<lparr>mt_pool := put_stream (max_streams p) (gc\<lparr>sw_stream := s\<rparr>) p, mt_failures := (mt_failures ms)\<lparr>fs_graph := g\<rparr>,
            mt_gc := mt_gc ms @ [\<lparr>gt_to_drop = rv_pinned rv, gt_event = ev\<rparr>]\<rparr>)))))"

text \<open>One turn of the collecting thread: the event, then the bindings.\<close>

definition gc_reclaim :: "('s, 'ev, 'b) event_backend \<Rightarrow> 'ev gc_task \<Rightarrow> heap \<Rightarrow> (unit, heap) outcome" where
  "gc_reclaim be task h = (case eb_wait_sync be (gt_event task) of
     Ok _ \<Rightarrow> Ok (fold drop_binding (gt_to_drop task) h) | _ \<Rightarrow> Panic)"

section \<open>Sessions\<close>

text \<open>
  A borrow of the resolved streams from end to end: resolve, work on the current stream, drop. The
  operations the work puts on the stream are named, for the properties.
\<close>

record ('s, 'x) session =
  se_stream :: stream_id
  se_bindings :: "buffer_binding list"
  se_work :: "'s \<Rightarrow> 's"
  se_ops :: "'x list"

definition run_session ::
  "('s, 'ev, 'b) event_backend \<Rightarrow> (nat list \<Rightarrow> nat list) \<Rightarrow> ('s, 'x) session \<Rightarrow> ('s, 'ev, 'b) multi_stream \<Rightarrow> heap
     \<Rightarrow> (unit, (nat \<times> nat \<times> 'x) list \<times> ('s, 'ev, 'b) multi_stream \<times> heap) outcome" where
  "run_session be hash_order se ms h =
     try_then (resolve be hash_order (se_stream se) (se_bindings se) ms h) (\<lambda>(rv, ms, h).
     try_then (on_current be (se_work se) rv ms) (\<lambda>ms.
     try_then (drop_resolved be rv ms) (\<lambda>ms.
       Ok (map (\<lambda>x. (slot (mt_pool ms) (se_stream se), rv_cursor rv, x)) (se_ops se), ms, h))))"

text \<open>A run of sessions, and the operations done: the slot, the cursor the session had, the operation.\<close>

fun run_sessions ::
  "('s, 'ev, 'b) event_backend \<Rightarrow> (nat list \<Rightarrow> nat list) \<Rightarrow> ('s, 'x) session list \<Rightarrow> ('s, 'ev, 'b) multi_stream \<Rightarrow> heap
     \<Rightarrow> (unit, (nat \<times> nat \<times> 'x) list \<times> ('s, 'ev, 'b) multi_stream \<times> heap) outcome" where
  "run_sessions be hash_order [] ms h = Ok ([], ms, h)"
| "run_sessions be hash_order (se # ses) ms h =
     try_then (run_session be hash_order se ms h) (\<lambda>(xs, ms, h).
     try_then (run_sessions be hash_order ses ms h) (\<lambda>(ys, ms, h). Ok (xs @ ys, ms, h)))"

section \<open>What the backend promises\<close>

text \<open>
  \<open>after s\<close> are the operations everything enqueued on the stream \<open>s\<close> from now on runs after, and
  \<open>ended ev\<close> those that are over once the event is reached: a flush submits what the stream holds
  and its event covers it, and a wait orders the stream after the event.
\<close>

definition event_contract :: "('s, 'ev, 'b) event_backend \<Rightarrow> ('s \<Rightarrow> 'x set) \<Rightarrow> ('ev \<Rightarrow> 'x set) \<Rightarrow> bool" where
  "event_contract be after ended \<longleftrightarrow>
     (\<forall>s g. case eb_flush be s g of (ev, s', g') \<Rightarrow> after s \<subseteq> ended ev \<and> after s \<subseteq> after s') \<and>
     (\<forall>s ev. after s \<union> ended ev \<subseteq> after (eb_wait be s ev))"

definition session_ok :: "('s \<Rightarrow> 'x set) \<Rightarrow> ('s, 'x) session \<Rightarrow> bool" where
  "session_ok after se \<longleftrightarrow> (\<forall>s. after s \<union> set (se_ops se) \<subseteq> after (se_work se s))"

lemma flush_covers:
  "event_contract be after ended \<Longrightarrow> eb_flush be s g = (ev, s', g') \<Longrightarrow> after s \<subseteq> ended ev \<and> after s \<subseteq> after s'"
  unfolding event_contract_def by (metis (mono_tags, lifting) case_prod_conv)

lemma wait_orders: "event_contract be after ended \<Longrightarrow> after s \<union> ended ev \<subseteq> after (eb_wait be s ev)"
  by (simp add: event_contract_def)

text \<open>A stream that went on: nothing it was ordered after is lost, and its cursors are as they were.\<close>

definition went_on :: "('s \<Rightarrow> 'x set) \<Rightarrow> 's stream_wrapper \<Rightarrow> 's stream_wrapper \<Rightarrow> bool" where
  "went_on after w w' \<longleftrightarrow> sw_cursor w' = sw_cursor w \<and> sw_last_synced w' = sw_last_synced w \<and> after (sw_stream w) \<subseteq> after (sw_stream w')"

definition fresh_wrapper :: "'s stream_wrapper \<Rightarrow> bool" where
  "fresh_wrapper w \<longleftrightarrow> sw_cursor w = 0 \<and> sw_last_synced w = Map.empty"

definition pool_went_on :: "('s \<Rightarrow> 'x set) \<Rightarrow> ('s, 'b) event_pool \<Rightarrow> ('s, 'b) event_pool \<Rightarrow> bool" where
  "pool_went_on after p p' \<longleftrightarrow> max_streams p' = max_streams p \<and> length (streams p') = length (streams p) \<and>
     (\<forall>k < length (streams p). case streams p ! k of
        Some w \<Rightarrow> \<exists>w'. streams p' ! k = Some w' \<and> went_on after w w'
      | None \<Rightarrow> (\<forall>w'. streams p' ! k = Some w' \<longrightarrow> fresh_wrapper w'))"

lemma went_on_refl: "went_on after w w"
  by (simp add: went_on_def)

lemma went_on_trans: "went_on after a b \<Longrightarrow> went_on after b c \<Longrightarrow> went_on after a c"
  by (auto simp: went_on_def)

lemma fresh_went_on: "fresh_wrapper w \<Longrightarrow> went_on after w w' \<Longrightarrow> fresh_wrapper w'"
  by (simp add: fresh_wrapper_def went_on_def)

lemma pool_went_on_refl: "pool_went_on after p p"
  by (auto simp: pool_went_on_def went_on_refl split: option.splits)

lemma pool_went_on_some: "pool_went_on after p p' \<Longrightarrow> k < length (streams p) \<Longrightarrow> streams p ! k = Some w \<Longrightarrow>
    \<exists>w'. streams p' ! k = Some w' \<and> went_on after w w'"
  unfolding pool_went_on_def by fastforce

lemma pool_went_on_none: "pool_went_on after p p' \<Longrightarrow> k < length (streams p) \<Longrightarrow> streams p ! k = None \<Longrightarrow>
    streams p' ! k = Some w' \<Longrightarrow> fresh_wrapper w'"
  unfolding pool_went_on_def by fastforce

lemma pool_went_on_trans:
  assumes "pool_went_on after p q" "pool_went_on after q r"
  shows "pool_went_on after p r"
proof -
  have l: "length (streams q) = length (streams p)" "max_streams q = max_streams p" using assms(1) by (simp_all add: pool_went_on_def)
  have "\<exists>w'. streams r ! k = Some w' \<and> went_on after w w'" if "k < length (streams p)" "streams p ! k = Some w" for k w
    using pool_went_on_some [OF assms(1) that] pool_went_on_some [OF assms(2)] that(1) l went_on_trans by metis
  moreover have "fresh_wrapper w'" if k: "k < length (streams p)" "streams p ! k = None" "streams r ! k = Some w'" for k w'
  proof (cases "streams q ! k")
    case None
    then show ?thesis using pool_went_on_none [OF assms(2)] k l by metis
  next
    case (Some w)
    then have "fresh_wrapper w" using pool_went_on_none [OF assms(1)] k by metis
    with Some show ?thesis using pool_went_on_some [OF assms(2)] k l fresh_went_on by (metis option.inject)
  qed
  ultimately show ?thesis using assms by (auto simp: pool_went_on_def split: option.splits)
qed

lemma pool_went_on_filled: "i < length (streams p) \<Longrightarrow> pool_went_on after p (filled (wrapper_create be) i p)"
  by (cases "streams p ! i") (auto simp: pool_went_on_def filled_def wrapper_create_def fresh_wrapper_def went_on_refl nth_list_update split: option.splits)

lemma pool_went_on_put:
  "i < length (streams p) \<Longrightarrow> streams p ! i = Some w \<Longrightarrow> went_on after w w' \<Longrightarrow> pool_went_on after p (put_stream i w' p)"
  by (auto simp: pool_went_on_def put_stream_def nth_list_update went_on_refl split: option.splits)

section \<open>The loops\<close>

lemma stream_index_slot: "regular_ok p \<Longrightarrow> stream_index sid (max_streams p) = Ok (slot p sid)"
  using pool_index_ok [of p sid] by (simp add: pool_index_def)

lemma collect_shared_spec:
  "regular_ok p \<Longrightarrow> \<exists>p'. collect_shared be (max_streams p) bs p h =
      Ok (map (\<lambda>b. (bb_memory b, bb_stream b, eb_cursor be (sw_stream (stream_at (slot p (bb_stream b)) p')) b)) bs,
          map bb_memory bs, p', fold clone_binding (map bb_memory bs) h) \<and>
    pool_went_on after p p' \<and> (\<forall>k w. streams p ! k = Some w \<longrightarrow> streams p' ! k = Some w) \<and>
    slots_used (map (\<lambda>b. slot p (bb_stream b)) bs) p'"
proof (induction bs arbitrary: p h)
  case Nil
  then show ?case by (simp add: pool_went_on_refl slots_used_def)
next
  case (Cons b bs)
  let ?i = "slot p (bb_stream b)"
  let ?q = "filled (wrapper_create be) ?i p"
  have i: "?i < length (streams p)" using Cons.prems by simp
  obtain w where w: "streams ?q ! ?i = Some w" using filled_some [OF i] by blast
  have q: "regular_ok ?q" "max_streams ?q = max_streams p" "slot ?q = slot p" using Cons.prems by (auto simp: fun_eq_iff)
  from Cons.IH [OF q(1), of "clone_binding (bb_memory b) h", unfolded q(2,3)] obtain p' where ih:
    "collect_shared be (max_streams p) bs ?q (clone_binding (bb_memory b) h) =
      Ok (map (\<lambda>b. (bb_memory b, bb_stream b, eb_cursor be (sw_stream (stream_at (slot p (bb_stream b)) p')) b)) bs,
          map bb_memory bs, p', fold clone_binding (map bb_memory bs) (clone_binding (bb_memory b) h))"
    "pool_went_on after ?q p'" "\<forall>k w. streams ?q ! k = Some w \<longrightarrow> streams p' ! k = Some w"
    "slots_used (map (\<lambda>b. slot p (bb_stream b)) bs) p'" by blast
  have p': "streams p' ! ?i = Some w" "length (streams p') = length (streams p)" using ih(2,3) w by (auto simp: pool_went_on_def)
  have "slots_used (map (\<lambda>b. slot p (bb_stream b)) (b # bs)) p'" using ih(4) p' i by (simp add: slots_used_def)
  moreover have "pool_went_on after p p'" by (rule pool_went_on_trans [OF pool_went_on_filled [OF i] ih(2)])
  moreover have "\<forall>k w. streams p ! k = Some w \<longrightarrow> streams p' ! k = Some w" by (blast intro: ih(3) [rule_format] filled_kept)
  moreover have "stream_at ?i ?q = w" "stream_at ?i p' = w" using w p' by (simp_all add: stream_at_def)
  ultimately show ?case using ih(1) Cons.prems i by (intro exI [of _ p']) (simp add: stream_index_slot get_mut_index_filled)
qed

text \<open>Whether the cursors leave a wait to do.\<close>

definition needs_wait :: "(nat \<rightharpoonup> nat) \<Rightarrow> nat \<Rightarrow> nat \<Rightarrow> bool" where
  "needs_wait synced origin c \<longleftrightarrow> (\<forall>l. synced origin = Some l \<longrightarrow> l < c)"

lemma analysis_shared_keys:
  "fst ` set (an_slices (analysis_shared i origin an)) = insert origin (fst ` set (an_slices an))"
  "an_pinned (analysis_shared i origin an) = an_pinned an"
proof -
  show "fst ` set (an_slices (analysis_shared i origin an)) = insert origin (fst ` set (an_slices an))"
  proof (cases "map_of (an_slices an) origin")
    case None
    then show ?thesis by (simp add: analysis_shared_def)
  next
    case (Some js)
    then have "origin \<in> fst ` set (an_slices an)" by (metis domI dom_map_of_conv_image_fst)
    with Some show ?thesis by (force simp: analysis_shared_def image_image)
  qed
qed (simp add: analysis_shared_def split: option.splits)

lemma analyse_shared_spec:
  "0 < n \<Longrightarrow> \<exists>an'. analyse_shared n synced shared an = Ok an' \<and> an_pinned an' = an_pinned an \<and>
     fst ` set (an_slices an') = fst ` set (an_slices an) \<union>
       set (map (\<lambda>(i, sid, c). sid mod n) (filter (\<lambda>(i, sid, c). needs_wait synced (sid mod n) c) shared))"
proof (induction n synced shared an rule: analyse_shared.induct)
  case (2 n synced i sid c shared an)
  let ?an = "if needs_wait synced (sid mod n) c then analysis_shared i (sid mod n) an else an"
  have step: "analyse_shared n synced ((i, sid, c) # shared) an = analyse_shared n synced shared ?an"
    using "2.prems" by (auto simp: stream_index_def needs_wait_def split: option.splits)
  have "\<exists>an'. analyse_shared n synced shared ?an = Ok an' \<and> an_pinned an' = an_pinned ?an \<and>
      fst ` set (an_slices an') = fst ` set (an_slices ?an) \<union>
       set (map (\<lambda>(i, sid, c). sid mod n) (filter (\<lambda>(i, sid, c). needs_wait synced (sid mod n) c) shared))"
    using "2.IH" [of "sid mod n"] "2.prems" by (simp add: stream_index_def needs_wait_def split: option.splits if_splits)
  then show ?case unfolding step by (cases "needs_wait synced (sid mod n) c") (simp_all add: analysis_shared_keys)
qed simp

lemma flush_origins_spec:
  assumes "event_contract be after ended" "slots_used is p"
  shows "\<exists>es p' g'. flush_origins be is p g = Ok (es, p', g') \<and> pool_went_on after p p' \<and> fst ` set es = set is \<and>
    (\<forall>(origin, c, ev) \<in> set es. \<exists>v. streams p ! origin = Some v \<and> c = sw_cursor v \<and> after (sw_stream v) \<subseteq> ended ev)"
  using assms(2)
proof (induction "is" arbitrary: p g)
  case Nil
  then show ?case by (simp add: pool_went_on_refl)
next
  case (Cons i "is")
  obtain w where w: "streams p ! i = Some w" "i < length (streams p)" using slots_used_get [OF Cons.prems, of i] by auto
  obtain ev s g1 where f: "eb_flush be (sw_stream w) g = (ev, s, g1)" using prod_cases3 by blast
  note fc = flush_covers [OF assms(1) f]
  let ?p = "put_stream i (w\<lparr>sw_stream := s\<rparr>) p"
  have on: "pool_went_on after p ?p" using fc by (intro pool_went_on_put [OF w(2,1)]) (simp add: went_on_def)
  have "slots_used is ?p" using slots_used_grows [OF slots_used_tail [OF Cons.prems] grows_put [OF w(2)]] .
  from Cons.IH [OF this, of g1] obtain es p' g' where ih: "flush_origins be is ?p g1 = Ok (es, p', g')" "pool_went_on after ?p p'" "fst ` set es = set is"
    "\<forall>(origin, c, ev) \<in> set es. \<exists>v. streams ?p ! origin = Some v \<and> c = sw_cursor v \<and> after (sw_stream v) \<subseteq> ended ev" by blast
  have "\<exists>v. streams p ! origin = Some v \<and> c = sw_cursor v \<and> after (sw_stream v) \<subseteq> ended ev'" if e: "(origin, c, ev') \<in> set es" for origin c ev'
  proof -
    obtain v where v: "streams ?p ! origin = Some v" "c = sw_cursor v" "after (sw_stream v) \<subseteq> ended ev'" using bspec [OF ih(4) e] by auto
    show ?thesis using v w fc by (cases "origin = i") (auto simp: subset_iff)
  qed
  with fc w f ih pool_went_on_trans [OF on ih(2)] show ?case
    by (intro exI [of _ "(i, sw_cursor w, ev) # es"] exI [of _ p'] exI [of _ g']) (auto simp: get_mut_index_def get_opt_def)
qed

lemma wait_events_spec:
  assumes "event_contract be after ended"
  shows "sw_cursor (wait_events be es w) = sw_cursor w \<and> after (sw_stream w) \<subseteq> after (sw_stream (wait_events be es w)) \<and>
    (\<forall>(origin, c, ev) \<in> set es. ended ev \<subseteq> after (sw_stream (wait_events be es w))) \<and>
    (\<forall>origin l. sw_last_synced (wait_events be es w) origin = Some l \<longrightarrow> sw_last_synced w origin = Some l \<or> (\<exists>ev. (origin, l, ev) \<in> set es))"
proof (induction es arbitrary: w)
  case (Cons e es)
  obtain origin c ev where e: "e = (origin, c, ev)" using prod_cases3 by blast
  let ?w = "w\<lparr>sw_last_synced := (sw_last_synced w)(origin \<mapsto> c), sw_stream := eb_wait be (sw_stream w) ev\<rparr>"
  have "after (sw_stream w) \<union> ended ev \<subseteq> after (sw_stream ?w)" using wait_orders [OF assms] by simp
  moreover have "sw_cursor ?w = sw_cursor w" by simp
  moreover have "sw_last_synced w o' = Some l \<or> (o' = origin \<and> l = c)" if "sw_last_synced ?w o' = Some l" for o' l
    using that by (simp split: if_splits)
  moreover have "wait_events be (e # es) w = wait_events be es ?w" by (simp add: e)
  ultimately show ?case using Cons.IH [of ?w] unfolding e by (simp only: set_simps ball_simps prod.case) blast
qed simp

section \<open>Aligning\<close>

abbreviation others :: "stream_id \<Rightarrow> buffer_binding list \<Rightarrow> buffer_binding list" where
  "others sid bs \<equiv> filter (\<lambda>b. bb_stream b \<noteq> sid) bs"

definition multi_ok :: "('s, 'ev, 'b) multi_stream \<Rightarrow> bool" where
  "multi_ok ms \<longleftrightarrow> regular_ok (mt_pool ms) \<and> mt_max_streams ms = max_streams (mt_pool ms) \<and> max_streams (mt_pool ms) < length (streams (mt_pool ms))"

text \<open>Which origins an analysis names: those of the bindings whose cursor the reader has not met.\<close>

lemma update_shared_spec:
  assumes "multi_ok ms"
  shows "\<exists>an q w. update_shared_bindings be sid bs ms h =
      Ok (an, ms\<lparr>mt_pool := q, mt_shared_pool := map (\<lambda>b. (bb_memory b, bb_stream b,
        eb_cursor be (sw_stream (stream_at (slot q (bb_stream b)) q)) b)) (others sid bs)\<rparr>, fold clone_binding (map bb_memory (others sid bs)) h) \<and>
    an_pinned an = map bb_memory (others sid bs) \<and> pool_went_on after (mt_pool ms) q \<and> streams q ! slot q sid = Some w \<and>
    slots_used (map (\<lambda>b. slot q (bb_stream b)) (others sid bs)) q \<and>
    (\<forall>k w. streams (mt_pool ms) ! k = Some w \<longrightarrow> streams q ! k = Some w) \<and>
    fst ` set (an_slices an) = {slot q (bb_stream b) | b. b \<in> set (others sid bs) \<and>
      needs_wait (sw_last_synced w) (slot q (bb_stream b)) (eb_cursor be (sw_stream (stream_at (slot q (bb_stream b)) q)) b)}"
proof -
  let ?p = "mt_pool ms" and ?bs = "others sid bs"
  have ok: "regular_ok ?p" "mt_max_streams ms = max_streams ?p" using assms by (simp_all add: multi_ok_def)
  from collect_shared_spec [OF ok(1), of be ?bs h after] obtain p' where c: "collect_shared be (max_streams ?p) ?bs ?p h =
      Ok (map (\<lambda>b. (bb_memory b, bb_stream b, eb_cursor be (sw_stream (stream_at (slot ?p (bb_stream b)) p')) b)) ?bs,
          map bb_memory ?bs, p', fold clone_binding (map bb_memory ?bs) h)" "pool_went_on after ?p p'"
    "\<forall>k w. streams ?p ! k = Some w \<longrightarrow> streams p' ! k = Some w" "slots_used (map (\<lambda>b. slot ?p (bb_stream b)) ?bs) p'" by blast
  have l: "length (streams p') = length (streams ?p)" "max_streams p' = max_streams ?p" using c(2) by (simp_all add: pool_went_on_def)
  have sl: "slot p' = slot ?p" "regular_ok p'" using l ok by (auto simp: slot_def regular_ok_def fun_eq_iff)
  let ?q = "filled (wrapper_create be) (slot p' sid) p'"
  have i: "slot p' sid < length (streams p')" using sl(2) by simp
  have slq: "slot ?q = slot ?p" using sl by (auto simp: fun_eq_iff)
  obtain w where w: "streams ?q ! slot p' sid = Some w" using filled_some [OF i] by blast
  have at: "stream_at (slot ?p (bb_stream b)) ?q = stream_at (slot ?p (bb_stream b)) p'" if "b \<in> set ?bs" for b
  proof -
    have "streams p' ! slot ?p (bb_stream b) \<noteq> None" using c(4) that by (simp add: slots_used_def)
    then show ?thesis using filled_kept by (fastforce simp: stream_at_def)
  qed
  let ?sh = "map (\<lambda>b. (bb_memory b, bb_stream b, eb_cursor be (sw_stream (stream_at (slot ?p (bb_stream b)) ?q)) b)) ?bs"
  have sh: "map (\<lambda>b. (bb_memory b, bb_stream b, eb_cursor be (sw_stream (stream_at (slot ?p (bb_stream b)) p')) b)) ?bs = ?sh" using at by simp
  have "0 < max_streams ?p" using ok by (simp add: regular_ok_def)
  from analyse_shared_spec [OF this, of "sw_last_synced w" ?sh "\<lparr>an_slices = [], an_pinned = map bb_memory ?bs\<rparr>"] obtain an where
    an: "analyse_shared (max_streams ?p) (sw_last_synced w) ?sh \<lparr>an_slices = [], an_pinned = map bb_memory ?bs\<rparr> = Ok an" "an_pinned an = map bb_memory ?bs"
    "fst ` set (an_slices an) = set (map (\<lambda>(i, sid, c). sid mod max_streams ?p) (filter (\<lambda>(i, sid, c). needs_wait (sw_last_synced w) (sid mod max_streams ?p) c) ?sh))"
    by auto
  have "update_shared_bindings be sid bs ms h = Ok (an, ms\<lparr>mt_pool := ?q, mt_shared_pool := ?sh\<rparr>, fold clone_binding (map bb_memory ?bs) h)"
  proof -
    have "get_mut (wrapper_create be) sid p' = (Ok (w, ?q) :: (unit, _) outcome)" using w sl(2) by (simp add: get_mut_filled stream_at_def)
    then show ?thesis using c(1) [unfolded sh] an(1) ok by (simp add: update_shared_bindings_def)
  qed
  moreover have "pool_went_on after ?p ?q" by (rule pool_went_on_trans [OF c(2) pool_went_on_filled [OF i]])
  moreover have "\<forall>k w. streams ?p ! k = Some w \<longrightarrow> streams ?q ! k = Some w" by (blast intro: c(3) [rule_format] filled_kept)
  moreover have "slots_used (map (\<lambda>b. slot ?q (bb_stream b)) ?bs) ?q" unfolding slq by (rule slots_used_grows [OF c(4) grows_filled [OF i]])
  moreover have "fst ` set (an_slices an) = {slot ?q (bb_stream b) | b. b \<in> set ?bs \<and>
      needs_wait (sw_last_synced w) (slot ?q (bb_stream b)) (eb_cursor be (sw_stream (stream_at (slot ?q (bb_stream b)) ?q)) b)}"
    unfolding an(3) slq filter_map map_map comp_def by (auto simp: slot_def)
  ultimately show ?thesis using w an(2) sl slq by (intro exI [of _ an] exI [of _ ?q] exI [of _ w]) simp
qed

text \<open>What aligning leaves on the reader: it is ordered after every origin it had not met.\<close>

definition aligned ::
  "('s, 'ev, 'b) event_backend \<Rightarrow> ('s \<Rightarrow> 'x set) \<Rightarrow> stream_id \<Rightarrow> buffer_binding list \<Rightarrow> ('s, 'b) event_pool
     \<Rightarrow> ('s, 'b) event_pool \<Rightarrow> 's stream_wrapper \<Rightarrow> 's stream_wrapper \<Rightarrow> bool" where
  "aligned be after sid bs p q w w' \<longleftrightarrow> pool_went_on after p q \<and> streams q ! slot q sid = Some w \<and>
     sw_cursor w' = sw_cursor w \<and> after (sw_stream w) \<subseteq> after (sw_stream w') \<and>
     (\<forall>origin l. sw_last_synced w' origin = Some l \<longrightarrow> sw_last_synced w origin = Some l \<or>
       (origin < max_streams q \<and> (\<exists>v. streams q ! origin = Some v \<and> l = sw_cursor v \<and> (\<forall>u. streams p ! origin = Some u \<longrightarrow> after (sw_stream u) \<subseteq> after (sw_stream w'))))) \<and>
     (\<forall>b \<in> set (others sid bs). \<forall>u. streams p ! slot q (bb_stream b) = Some u \<longrightarrow>
       (\<exists>l. sw_last_synced w (slot q (bb_stream b)) = Some l \<and> eb_cursor be (sw_stream u) b \<le> l) \<or> after (sw_stream u) \<subseteq> after (sw_stream w'))"

lemma aligned_binding:
  "aligned be after sid bs p q w w' \<Longrightarrow> b \<in> set (others sid bs) \<Longrightarrow> streams p ! slot q (bb_stream b) = Some u \<Longrightarrow>
     (\<exists>l. sw_last_synced w (slot q (bb_stream b)) = Some l \<and> eb_cursor be (sw_stream u) b \<le> l) \<or> after (sw_stream u) \<subseteq> after (sw_stream w')"
  unfolding aligned_def by blast

lemma align_spec:
  assumes "event_contract be after ended" "multi_ok ms" "\<forall>ks. set (hash_order ks) = set ks"
  shows "\<exists>an ms1 ms2 q w w'. update_shared_bindings be sid bs ms h = Ok (an, ms1, fold clone_binding (map bb_memory (others sid bs)) h) \<and>
    an_pinned an = map bb_memory (others sid bs) \<and> apply_analysis be hash_order sid an ms1 = Ok ms2 \<and>
    mt_pool ms2 = put_stream (slot q sid) w' q \<and> mt_gc ms2 = mt_gc ms \<and> mt_max_streams ms2 = mt_max_streams ms \<and>
    aligned be after sid bs (mt_pool ms) q w w'"
proof -
  let ?p = "mt_pool ms"
  from update_shared_spec [OF assms(2), of be sid bs h after] obtain an q w sh where
    u: "update_shared_bindings be sid bs ms h = Ok (an, ms\<lparr>mt_pool := q, mt_shared_pool := sh\<rparr>, fold clone_binding (map bb_memory (others sid bs)) h)"
    "an_pinned an = map bb_memory (others sid bs)" "pool_went_on after ?p q" "streams q ! slot q sid = Some w"
    "slots_used (map (\<lambda>b. slot q (bb_stream b)) (others sid bs)) q" "\<forall>k w. streams ?p ! k = Some w \<longrightarrow> streams q ! k = Some w"
    "fst ` set (an_slices an) = {slot q (bb_stream b) | b. b \<in> set (others sid bs) \<and>
      needs_wait (sw_last_synced w) (slot q (bb_stream b)) (eb_cursor be (sw_stream (stream_at (slot q (bb_stream b)) q)) b)}" by blast
  let ?ms = "ms\<lparr>mt_pool := q, mt_shared_pool := sh\<rparr>"
  have ok: "regular_ok q" using u(3) assms(2) by (simp add: pool_went_on_def multi_ok_def regular_ok_def)
  note ok = ok slot_in_range [OF ok, of sid]
  have met: "eb_cursor be (sw_stream v) b \<le> l" if "slot q (bb_stream b) \<notin> fst ` set (an_slices an)" "b \<in> set (others sid bs)"
    "streams ?p ! slot q (bb_stream b) = Some v" "sw_last_synced w (slot q (bb_stream b)) = Some l" for b v l
    using that u(6,7) by (auto simp: needs_wait_def stream_at_def)
  have never: "slot q (bb_stream b) \<in> fst ` set (an_slices an)" if "b \<in> set (others sid bs)" "sw_last_synced w (slot q (bb_stream b)) = None" for b
    using that u(7) by (auto simp: needs_wait_def)
  show ?thesis
  proof (cases "an_slices an = []")
    case True
    have "aligned be after sid bs ?p q w w" using u(3,4) met never True by (fastforce simp: aligned_def)
    moreover have "put_stream (slot q sid) w q = q" using put_same [OF ok(2) u(4)] .
    ultimately show ?thesis using u(1,2) True
      by (intro exI [of _ an] exI [of _ ?ms] exI [of _ q] exI [of _ w]) (simp add: apply_analysis_def)
  next
    case False
    let ?is = "hash_order (map fst (an_slices an))"
    have used: "slots_used ?is q" "\<forall>i \<in> set ?is. i < max_streams q" using u(5,7) assms(3) slot_less [OF ok(1)] by (auto simp: slots_used_def)
    from flush_origins_spec [OF assms(1) used(1), of "fs_graph (mt_failures ms)"] obtain es q' g' where
      f: "flush_origins be ?is q (fs_graph (mt_failures ms)) = Ok (es, q', g')" "pool_went_on after q q'" "fst ` set es = set ?is"
      "\<forall>(origin, c, ev) \<in> set es. \<exists>v. streams q ! origin = Some v \<and> c = sw_cursor v \<and> after (sw_stream v) \<subseteq> ended ev" by blast
    have ok': "regular_ok q'" "slot q' = slot q" using f(2) ok(1) by (auto simp: pool_went_on_def regular_ok_def slot_def fun_eq_iff)
    obtain w1 where w1: "streams q' ! slot q sid = Some w1" "went_on after w w1" using pool_went_on_some [OF f(2) ok(2) u(4)] by blast
    let ?w' = "wait_events be es w1"
    note ws = wait_events_spec [OF assms(1), of es w1]
    have seen: "\<exists>v. streams q ! origin = Some v \<and> c = sw_cursor v \<and> after (sw_stream v) \<subseteq> after (sw_stream ?w')" if e: "(origin, c, ev) \<in> set es" for origin c ev
    proof -
      have "ended ev \<subseteq> after (sw_stream ?w')" using ws e by fast
      then show ?thesis using bspec [OF f(4) e] by auto
    qed
    have reached: "after (sw_stream u) \<subseteq> after (sw_stream ?w')" if "(origin, c, ev) \<in> set es" "streams ?p ! origin = Some u" for origin c ev u
      using seen [OF that(1)] u(6) that(2) by auto
    have synced: "origin < max_streams q' \<and> (\<exists>v. streams q' ! origin = Some v \<and> l = sw_cursor v)" if e: "(origin, l, ev) \<in> set es" for origin l ev
    proof -
      have "origin \<in> set ?is" using e f(3) by force
      then have "origin < max_streams q" "origin < length (streams q)" using used by (auto simp: slots_used_def)
      then show ?thesis using seen [OF e] pool_went_on_some [OF f(2), of origin] f(2) by (fastforce simp: went_on_def pool_went_on_def)
    qed
    have last: "sw_last_synced w1 origin = Some l \<or> (origin < max_streams q' \<and> (\<exists>v. streams q' ! origin = Some v \<and> l = sw_cursor v \<and>
        (\<forall>u. streams ?p ! origin = Some u \<longrightarrow> after (sw_stream u) \<subseteq> after (sw_stream ?w'))))" if "sw_last_synced ?w' origin = Some l" for origin l
      using that ws synced reached by blast
    have bound: "(\<exists>l. sw_last_synced w1 (slot q (bb_stream b)) = Some l \<and> eb_cursor be (sw_stream u) b \<le> l) \<or> after (sw_stream u) \<subseteq> after (sw_stream ?w')"
      if b: "b \<in> set (others sid bs)" "streams ?p ! slot q (bb_stream b) = Some u" for b u
    proof (cases "slot q (bb_stream b) \<in> fst ` set (an_slices an)")
      case True
      then have "slot q (bb_stream b) \<in> fst ` set es" using f(3) assms(3) by simp
      then show ?thesis using reached b(2) by fastforce
    next
      case False
      then obtain l where "sw_last_synced w (slot q (bb_stream b)) = Some l" using never [OF b(1)] by fastforce
      then show ?thesis using met [OF False b] w1(2) by (auto simp: went_on_def)
    qed
    have "aligned be after sid bs ?p q' w1 ?w'"
      unfolding aligned_def ok'(2) using pool_went_on_trans [OF u(3) f(2)] w1(1) ws last bound by blast
    moreover have "apply_analysis be hash_order sid an ?ms = Ok (?ms\<lparr>mt_pool := put_stream (slot q sid) ?w' q', mt_failures := (mt_failures ms)\<lparr>fs_graph := g'\<rparr>\<rparr>)"
    proof -
      have "filled (wrapper_create be) (slot q sid) q' = q'" using w1(1) by (simp add: filled_def)
      then show ?thesis using False f(1) ok' w1(1) by (simp add: apply_analysis_def get_mut_filled stream_at_def)
    qed
    ultimately show ?thesis using u(1,2) ok'(2)
      by (intro exI [of _ an] exI [of _ ?ms] exI [of _ "?ms\<lparr>mt_pool := put_stream (slot q sid) ?w' q', mt_failures := (mt_failures ms)\<lparr>fs_graph := g'\<rparr>\<rparr>"]
          exI [of _ q'] exI [of _ w1] exI [of _ ?w']) simp
  qed
qed

section \<open>Order across sessions\<close>

text \<open>
  Given the operations done so far: each is in its own stream's past, and a stream that met another
  at a cursor has everything the other did up to that cursor in its past. \<open>N\<close> bounds the cursors.
\<close>

definition in_order :: "('s \<Rightarrow> 'x set) \<Rightarrow> nat \<Rightarrow> (nat \<times> nat \<times> 'x) list \<Rightarrow> ('s, 'b) event_pool \<Rightarrow> bool" where
  "in_order after N D p \<longleftrightarrow>
     (\<forall>origin c x. (origin, c, x) \<in> set D \<longrightarrow> origin < max_streams p \<and>
        (\<exists>v. streams p ! origin = Some v \<and> c \<le> sw_cursor v \<and> x \<in> after (sw_stream v))) \<and>
     (\<forall>k < max_streams p. \<forall>w. streams p ! k = Some w \<longrightarrow> sw_cursor w \<le> N \<and>
        (\<forall>origin l. sw_last_synced w origin = Some l \<longrightarrow> origin < max_streams p \<and> (\<exists>v. streams p ! origin = Some v \<and> l \<le> sw_cursor v) \<and>
          (\<forall>c x. (origin, c, x) \<in> set D \<and> c \<le> l \<longrightarrow> x \<in> after (sw_stream w))))"

lemma in_order_done: "in_order after N D p \<Longrightarrow> (origin, c, x) \<in> set D \<Longrightarrow>
    origin < max_streams p \<and> (\<exists>v. streams p ! origin = Some v \<and> c \<le> sw_cursor v \<and> x \<in> after (sw_stream v))"
  by (simp add: in_order_def)

lemma in_order_cursor: "in_order after N D p \<Longrightarrow> k < max_streams p \<Longrightarrow> streams p ! k = Some w \<Longrightarrow> sw_cursor w \<le> N"
  by (simp add: in_order_def)

lemma in_order_synced: "in_order after N D p \<Longrightarrow> k < max_streams p \<Longrightarrow> streams p ! k = Some w \<Longrightarrow> sw_last_synced w origin = Some l \<Longrightarrow>
    origin < max_streams p \<and> (\<exists>v. streams p ! origin = Some v \<and> l \<le> sw_cursor v) \<and>
    (\<forall>c x. (origin, c, x) \<in> set D \<and> c \<le> l \<longrightarrow> x \<in> after (sw_stream w))"
  by (simp add: in_order_def)

lemma in_orderI:
  assumes "\<And>origin c x. (origin, c, x) \<in> set D \<Longrightarrow> origin < max_streams p \<and>
      (\<exists>v. streams p ! origin = Some v \<and> c \<le> sw_cursor v \<and> x \<in> after (sw_stream v))"
    "\<And>k w. k < max_streams p \<Longrightarrow> streams p ! k = Some w \<Longrightarrow> sw_cursor w \<le> N"
    "\<And>k w origin l. k < max_streams p \<Longrightarrow> streams p ! k = Some w \<Longrightarrow> sw_last_synced w origin = Some l \<Longrightarrow> origin < max_streams p \<and>
      (\<exists>v. streams p ! origin = Some v \<and> l \<le> sw_cursor v) \<and> (\<forall>c x. (origin, c, x) \<in> set D \<and> c \<le> l \<longrightarrow> x \<in> after (sw_stream w))"
  shows "in_order after N D p"
  using assms unfolding in_order_def by blast

lemma in_order_went_on:
  assumes "pool_went_on after p q" "in_order after N D p" "max_streams p \<le> length (streams p)"
  shows "in_order after N D q"
proof -
  have m: "max_streams q = max_streams p" using assms(1) by (simp add: pool_went_on_def)
  have kept: "\<exists>v'. streams q ! k = Some v' \<and> went_on after v v'" if "k < max_streams p" "streams p ! k = Some v" for k v
    using pool_went_on_some [OF assms(1) _ that(2)] that(1) assms(3) by simp
  have came: "(\<exists>v. streams p ! k = Some v \<and> went_on after v w) \<or> fresh_wrapper w" if "k < max_streams p" "streams q ! k = Some w" for k w
    using that assms(3) pool_went_on_none [OF assms(1)] kept by (cases "streams p ! k") fastforce+
  show ?thesis
  proof (rule in_orderI, unfold m)
    fix origin c x
    assume "(origin, c, x) \<in> set D"
    from in_order_done [OF assms(2) this] obtain v where v: "origin < max_streams p" "streams p ! origin = Some v" "c \<le> sw_cursor v" "x \<in> after (sw_stream v)" by blast
    from kept [OF v(1,2)] v show "origin < max_streams p \<and> (\<exists>v. streams q ! origin = Some v \<and> c \<le> sw_cursor v \<and> x \<in> after (sw_stream v))"
      by (auto simp: went_on_def)
  next
    fix k w
    assume "k < max_streams p" "streams q ! k = Some w"
    then show "sw_cursor w \<le> N" using came [of k w] in_order_cursor [OF assms(2)] by (auto simp: went_on_def fresh_wrapper_def)
  next
    fix k w origin l
    assume k: "k < max_streams p" "streams q ! k = Some w" and l: "sw_last_synced w origin = Some l"
    with came [OF k] obtain v where v: "streams p ! k = Some v" "went_on after v w" by (auto simp: fresh_wrapper_def)
    then have "sw_last_synced v origin = Some l" using l by (simp add: went_on_def)
    note s = in_order_synced [OF assms(2) k(1) v(1) this]
    then obtain u where u: "origin < max_streams p" "streams p ! origin = Some u" "l \<le> sw_cursor u" by blast
    from kept [OF u(1,2)] u(3) have "\<exists>u. streams q ! origin = Some u \<and> l \<le> sw_cursor u" by (auto simp: went_on_def)
    moreover have "\<forall>c x. (origin, c, x) \<in> set D \<and> c \<le> l \<longrightarrow> x \<in> after (sw_stream w)" using s v(2) unfolding went_on_def by blast
    ultimately show "origin < max_streams p \<and> (\<exists>v. streams q ! origin = Some v \<and> l \<le> sw_cursor v) \<and> (\<forall>c x. (origin, c, x) \<in> set D \<and> c \<le> l \<longrightarrow> x \<in> after (sw_stream w))"
      using u(1) by blast
  qed
qed

text \<open>The reader after aligning, its cursor moved on: nobody has met it at its new cursor.\<close>

lemma in_order_aligned:
  assumes "aligned be after sid bs p q w w'" "in_order after N D p" "regular_ok p"
  shows "in_order after (Suc N) D (put_stream (slot q sid) (w'\<lparr>sw_cursor := Suc (sw_cursor w')\<rparr>) q)"
    "\<forall>j < max_streams q. \<forall>v l. streams (put_stream (slot q sid) (w'\<lparr>sw_cursor := Suc (sw_cursor w')\<rparr>) q) ! j = Some v \<and>
       sw_last_synced v (slot q sid) = Some l \<longrightarrow> l < Suc (sw_cursor w')"
proof -
  let ?k = "slot q sid"
  let ?w = "w'\<lparr>sw_cursor := Suc (sw_cursor w')\<rparr>"
  let ?p = "put_stream ?k ?w q"
  have a: "pool_went_on after p q" "streams q ! ?k = Some w" "sw_cursor w' = sw_cursor w" "after (sw_stream w) \<subseteq> after (sw_stream w')"
    "\<And>origin l. sw_last_synced w' origin = Some l \<Longrightarrow> sw_last_synced w origin = Some l \<or>
       (origin < max_streams q \<and> (\<exists>v. streams q ! origin = Some v \<and> l = sw_cursor v \<and> (\<forall>u. streams p ! origin = Some u \<longrightarrow> after (sw_stream u) \<subseteq> after (sw_stream w'))))"
    using assms(1) by (auto simp: aligned_def)
  have q: "in_order after N D q" using in_order_went_on [OF a(1) assms(2)] assms(3) by (simp add: regular_ok_def)
  have rq: "regular_ok q" using a(1) assms(3) by (simp add: pool_went_on_def regular_ok_def)
  note k = slot_less [OF rq, of sid] slot_in_range [OF rq, of sid]
  have at: "\<exists>v'. streams ?p ! origin = Some v' \<and> sw_cursor v \<le> sw_cursor v' \<and> after (sw_stream v) \<subseteq> after (sw_stream v')"
    if "streams q ! origin = Some v" for origin v using that a(2-4) k by (cases "origin = ?k") auto
  have met: "origin < max_streams q \<and> (\<exists>v. streams q ! origin = Some v \<and> l \<le> sw_cursor v) \<and>
      (\<forall>c x. (origin, c, x) \<in> set D \<and> c \<le> l \<longrightarrow> x \<in> after (sw_stream v))"
    if v: "j < max_streams q" "streams ?p ! j = Some v" "sw_last_synced v origin = Some l" for j v origin l
  proof (cases "j = ?k")
    case False
    then show ?thesis using in_order_synced [OF q v(1) _ v(3)] v(2) by simp
  next
    case True
    then have v': "v = ?w" using v(2) k by simp
    then consider "sw_last_synced w origin = Some l" | "origin < max_streams q" "\<exists>v. streams q ! origin = Some v \<and> l = sw_cursor v"
      "\<forall>u. streams p ! origin = Some u \<longrightarrow> after (sw_stream u) \<subseteq> after (sw_stream w')" using a(5) [of origin l] v(3) by auto
    then show ?thesis
    proof cases
      case 1
      from in_order_synced [OF q k(1) a(2) this] show ?thesis using v' a(4) by fastforce
    next
      case 2
      then show ?thesis using v' in_order_done [OF assms(2)] by fastforce
    qed
  qed
  show "in_order after (Suc N) D ?p"
  proof (rule in_orderI)
    fix origin c x
    assume "(origin, c, x) \<in> set D"
    from in_order_done [OF q this] at show "origin < max_streams ?p \<and> (\<exists>v. streams ?p ! origin = Some v \<and> c \<le> sw_cursor v \<and> x \<in> after (sw_stream v))"
      by fastforce
  next
    fix j v
    assume "j < max_streams ?p" "streams ?p ! j = Some v"
    then show "sw_cursor v \<le> Suc N" using in_order_cursor [OF q, of j] in_order_cursor [OF q k(1) a(2)] a(3) k by (cases "j = ?k") fastforce+
  next
    fix j v origin l
    assume v: "j < max_streams ?p" "streams ?p ! j = Some v" "sw_last_synced v origin = Some l"
    then show "origin < max_streams ?p \<and> (\<exists>v. streams ?p ! origin = Some v \<and> l \<le> sw_cursor v) \<and>
        (\<forall>c x. (origin, c, x) \<in> set D \<and> c \<le> l \<longrightarrow> x \<in> after (sw_stream v))" using met [of j v origin l] at by fastforce
  qed
  show "\<forall>j < max_streams q. \<forall>v l. streams ?p ! j = Some v \<and> sw_last_synced v ?k = Some l \<longrightarrow> l < Suc (sw_cursor w')"
    using met a(2,3) by fastforce
qed

lemma in_order_work:
  assumes "in_order after N D p" "k < max_streams p" "k < length (streams p)" "streams p ! k = Some w"
    "\<forall>j < max_streams p. \<forall>v l. streams p ! j = Some v \<and> sw_last_synced v k = Some l \<longrightarrow> l < sw_cursor w"
    "after (sw_stream w) \<union> set xs \<subseteq> after s"
  shows "in_order after N (D @ map (\<lambda>x. (k, sw_cursor w, x)) xs) (put_stream k (w\<lparr>sw_stream := s\<rparr>) p)"
proof (rule in_orderI)
  let ?p = "put_stream k (w\<lparr>sw_stream := s\<rparr>) p"
  fix origin c x
  assume "(origin, c, x) \<in> set (D @ map (\<lambda>x. (k, sw_cursor w, x)) xs)"
  then consider "(origin, c, x) \<in> set D" | "origin = k" "c = sw_cursor w" "x \<in> set xs" by auto
  then show "origin < max_streams ?p \<and> (\<exists>v. streams ?p ! origin = Some v \<and> c \<le> sw_cursor v \<and> x \<in> after (sw_stream v))"
  proof cases
    case 1
    then show ?thesis using in_order_done [OF assms(1)] assms(3,4,6) by (cases "origin = k") fastforce+
  qed (use assms in auto)
next
  fix j v
  assume "j < max_streams (put_stream k (w\<lparr>sw_stream := s\<rparr>) p)" "streams (put_stream k (w\<lparr>sw_stream := s\<rparr>) p) ! j = Some v"
  then show "sw_cursor v \<le> N" using in_order_cursor [OF assms(1), of j] assms(3,4) by (cases "j = k") auto
next
  let ?p = "put_stream k (w\<lparr>sw_stream := s\<rparr>) p"
  fix j v origin l
  assume j: "j < max_streams ?p" "streams ?p ! j = Some v" "sw_last_synced v origin = Some l"
  obtain u where u: "streams p ! j = Some u" "sw_last_synced u origin = Some l" "after (sw_stream u) \<subseteq> after (sw_stream v)"
    using j assms(3,4,6) by (cases "j = k") auto
  have jp: "j < max_streams p" using j(1) by simp
  note s = in_order_synced [OF assms(1) jp u(1,2)]
  have "\<exists>v. streams ?p ! origin = Some v \<and> l \<le> sw_cursor v" using s assms(3,4) by (cases "origin = k") auto
  moreover have "x \<in> after (sw_stream v)" if "(origin, c, x) \<in> set (D @ map (\<lambda>x. (k, sw_cursor w, x)) xs)" "c \<le> l" for c x
  proof -
    have "(origin, c, x) \<in> set D" using that assms(5) jp u(1,2) by fastforce
    then show ?thesis using s u(3) that(2) by blast
  qed
  ultimately show "origin < max_streams ?p \<and> (\<exists>v. streams ?p ! origin = Some v \<and> l \<le> sw_cursor v) \<and>
      (\<forall>c x. (origin, c, x) \<in> set (D @ map (\<lambda>x. (k, sw_cursor w, x)) xs) \<and> c \<le> l \<longrightarrow> x \<in> after (sw_stream v))" using s by simp blast
qed

lemma resolve_spec:
  assumes "event_contract be after ended" "multi_ok ms" "\<forall>ks. set (hash_order ks) = set ks"
    "in_order after N D (mt_pool ms)" "Suc N < 2 ^ 64"
  shows "\<exists>q w w' ms'. resolve be hash_order sid bs ms h =
      Ok (\<lparr>rv_cursor = Suc (sw_cursor w'), rv_current = sid, rv_pinned = map bb_memory (others sid bs)\<rparr>, ms',
          fold clone_binding (map bb_memory (others sid bs)) h) \<and>
    mt_pool ms' = put_stream (slot q sid) (w'\<lparr>sw_cursor := Suc (sw_cursor w')\<rparr>) q \<and>
    aligned be after sid bs (mt_pool ms) q w w' \<and> mt_gc ms' = mt_gc ms \<and> multi_ok ms'"
proof -
  from align_spec [OF assms(1-3), of sid bs h] obtain an ms1 ms2 q w w' where a:
    "update_shared_bindings be sid bs ms h = Ok (an, ms1, fold clone_binding (map bb_memory (others sid bs)) h)"
    "an_pinned an = map bb_memory (others sid bs)" "apply_analysis be hash_order sid an ms1 = Ok ms2"
    "mt_pool ms2 = put_stream (slot q sid) w' q" "mt_gc ms2 = mt_gc ms" "mt_max_streams ms2 = mt_max_streams ms"
    "aligned be after sid bs (mt_pool ms) q w w'" by blast
  have on: "pool_went_on after (mt_pool ms) q" "streams q ! slot q sid = Some w" "sw_cursor w' = sw_cursor w" using a(7) by (auto simp: aligned_def)
  have rq: "regular_ok q" using on(1) assms(2) by (simp add: pool_went_on_def multi_ok_def regular_ok_def)
  have "in_order after N D q" using in_order_went_on [OF on(1) assms(4)] assms(2) by (simp add: multi_ok_def)
  then have "sw_cursor w \<le> N" using slot_less [OF rq] on(2) by (rule in_order_cursor)
  then have c: "u64_add (sw_cursor w') 1 = Suc (sw_cursor w')" using on(3) assms(5) by (simp add: u64_add_def)
  have "get_mut (wrapper_create be) sid (mt_pool ms2) = (Ok (w', mt_pool ms2) :: (unit, _) outcome)"
    using rq slot_in_range [OF rq, of sid] by (simp add: get_mut_filled a(4) stream_at_def filled_def)
  then have "resolve be hash_order sid bs ms h =
      Ok (\<lparr>rv_cursor = Suc (sw_cursor w'), rv_current = sid, rv_pinned = map bb_memory (others sid bs)\<rparr>,
          ms2\<lparr>mt_pool := put_stream (slot q sid) (w'\<lparr>sw_cursor := Suc (sw_cursor w')\<rparr>) q\<rparr>, fold clone_binding (map bb_memory (others sid bs)) h)"
    using a(1-4) c rq by (simp add: resolve_def put_twice)
  moreover have "multi_ok (ms2\<lparr>mt_pool := put_stream (slot q sid) (w'\<lparr>sw_cursor := Suc (sw_cursor w')\<rparr>) q\<rparr>)"
    using assms(2) on(1) a(6) by (simp add: multi_ok_def pool_went_on_def regular_ok_def)
  ultimately show ?thesis using a(5,7) by (intro exI [of _ q] exI [of _ w] exI [of _ w']) simp
qed

lemma drop_spec:
  assumes "event_contract be after ended" "multi_ok ms" "streams (mt_pool ms) ! slot (mt_pool ms) (rv_current rv) = Some w"
  shows "\<exists>ms' ev. drop_resolved be rv ms = Ok ms' \<and> pool_went_on after (mt_pool ms) (mt_pool ms') \<and> multi_ok ms' \<and>
    mt_gc ms' = mt_gc ms @ (if rv_pinned rv = [] then [] else [\<lparr>gt_to_drop = rv_pinned rv, gt_event = ev\<rparr>]) \<and>
    (rv_pinned rv \<noteq> [] \<longrightarrow> after (sw_stream w) \<subseteq> ended ev)"
proof (cases "rv_pinned rv = []")
  case True
  then show ?thesis using assms(2) by (simp add: drop_resolved_def pool_went_on_refl)
next
  case False
  let ?p = "mt_pool ms" and ?k = "slot (mt_pool ms) (rv_current rv)"
  have ok: "regular_ok ?p" "?k < length (streams ?p)" "max_streams ?p < length (streams ?p)" using assms(2) by (simp_all add: multi_ok_def)
  obtain e1 s1 g1 where f1: "eb_flush be (sw_stream w) (fs_graph (mt_failures ms)) = (e1, s1, g1)" using prod_cases3 by blast
  note c1 = flush_covers [OF assms(1) f1]
  let ?p1 = "put_stream ?k (w\<lparr>sw_stream := s1\<rparr>) ?p"
  let ?p2 = "filled (wrapper_create be) (max_streams ?p) ?p1"
  have l: "max_streams ?p < length (streams ?p1)" using ok(3) by simp
  obtain gc where gc: "streams ?p2 ! max_streams ?p = Some gc" using filled_some [OF l] by blast
  obtain e2 s2 g2 where f2: "eb_flush be (eb_wait be (sw_stream gc) e1) g1 = (e2, s2, g2)" using prod_cases3 by blast
  note c2 = flush_covers [OF assms(1) f2] and wc = wait_orders [OF assms(1), of "sw_stream gc" e1]
  let ?p3 = "put_stream (max_streams ?p) (gc\<lparr>sw_stream := s2\<rparr>) ?p2"
  have "pool_went_on after ?p ?p1" using c1 by (intro pool_went_on_put [OF ok(2) assms(3)]) (simp add: went_on_def)
  moreover have "pool_went_on after ?p1 ?p2" by (rule pool_went_on_filled [OF l])
  moreover have "pool_went_on after ?p2 ?p3" using c2 wc l gc by (intro pool_went_on_put [where w = gc]) (auto simp: went_on_def)
  ultimately have on: "pool_went_on after ?p ?p3" using pool_went_on_trans by blast
  have "drop_resolved be rv ms = Ok (ms\<lparr>mt_pool := ?p3, mt_failures := (mt_failures ms)\<lparr>fs_graph := g2\<rparr>,
      mt_gc := mt_gc ms @ [\<lparr>gt_to_drop = rv_pinned rv, gt_event = e2\<rparr>]\<rparr>)"
  proof -
    have g1: "get_mut (wrapper_create be) (rv_current rv) ?p = (Ok (w, ?p) :: (unit, _) outcome)"
      using ok assms(3) by (simp add: get_mut_filled stream_at_def filled_def)
    have g2: "get_special (wrapper_create be) 0 ?p1 = (Ok (gc, ?p2) :: (unit, _) outcome)"
      using l gc by (simp add: get_special_def get_mut_index_filled stream_at_def)
    show ?thesis using False g1 g2 f1 f2 ok(1) by (simp add: drop_resolved_def)
  qed
  moreover have "multi_ok (ms\<lparr>mt_pool := ?p3, mt_failures := (mt_failures ms)\<lparr>fs_graph := g2\<rparr>,
      mt_gc := mt_gc ms @ [\<lparr>gt_to_drop = rv_pinned rv, gt_event = e2\<rparr>]\<rparr>)" using assms(2) by (simp add: multi_ok_def)
  moreover have "after (sw_stream w) \<subseteq> ended e2" using c1 c2 wc by blast
  ultimately show ?thesis using on False by (intro exI conjI) (assumption | simp)+
qed

section \<open>Whole sessions\<close>

lemma session_spec:
  assumes "event_contract be after ended" "multi_ok ms" "\<forall>ks. set (hash_order ks) = set ks"
    "in_order after N D (mt_pool ms)" "Suc N < 2 ^ 64" "session_ok after se"
  shows "\<exists>xs ms' ev. run_session be hash_order se ms h = Ok (xs, ms', fold clone_binding (map bb_memory (others (se_stream se) (se_bindings se))) h) \<and>
    multi_ok ms' \<and> in_order after (Suc N) (D @ xs) (mt_pool ms') \<and> max_streams (mt_pool ms') = max_streams (mt_pool ms) \<and>
    (if others (se_stream se) (se_bindings se) = [] then mt_gc ms' = mt_gc ms
     else mt_gc ms' = mt_gc ms @ [\<lparr>gt_to_drop = map bb_memory (others (se_stream se) (se_bindings se)), gt_event = ev\<rparr>] \<and> set (se_ops se) \<subseteq> ended ev)"
proof -
  let ?sid = "se_stream se" and ?pins = "map bb_memory (others (se_stream se) (se_bindings se))"
  from resolve_spec [OF assms(1-5), of ?sid "se_bindings se" h] obtain q w w' ms1 where r:
    "resolve be hash_order ?sid (se_bindings se) ms h = Ok (\<lparr>rv_cursor = Suc (sw_cursor w'), rv_current = ?sid, rv_pinned = ?pins\<rparr>, ms1, fold clone_binding ?pins h)"
    "mt_pool ms1 = put_stream (slot q ?sid) (w'\<lparr>sw_cursor := Suc (sw_cursor w')\<rparr>) q" "aligned be after ?sid (se_bindings se) (mt_pool ms) q w w'"
    "mt_gc ms1 = mt_gc ms" "multi_ok ms1" by blast
  let ?k = "slot q ?sid" and ?w = "w'\<lparr>sw_cursor := Suc (sw_cursor w')\<rparr>" and ?s = "se_work se (sw_stream w')"
  let ?rv = "\<lparr>rv_cursor = Suc (sw_cursor w'), rv_current = ?sid, rv_pinned = ?pins\<rparr>"
  let ?ms2 = "ms1\<lparr>mt_pool := put_stream ?k (?w\<lparr>sw_stream := ?s\<rparr>) (mt_pool ms1)\<rparr>"
  have reg: "regular_ok (mt_pool ms)" "regular_ok q" "max_streams q = max_streams (mt_pool ms)"
    using assms(2) r(3) by (simp_all add: multi_ok_def aligned_def pool_went_on_def regular_ok_def)
  note k = slot_less [OF reg(2), of ?sid] slot_in_range [OF reg(2), of ?sid]
  have at: "streams (mt_pool ms1) ! ?k = Some ?w" "slot (mt_pool ms1) ?sid = ?k" using k by (simp_all add: r(2))
  have "on_current be (se_work se) ?rv ms1 = Ok ?ms2"
    using r(5) at by (simp add: on_current_def multi_ok_def get_mut_filled stream_at_def filled_def)
  moreover have ok2: "multi_ok ?ms2" using r(5) by (simp add: multi_ok_def)
  moreover have at2: "streams (mt_pool ?ms2) ! slot (mt_pool ?ms2) (rv_current ?rv) = Some (?w\<lparr>sw_stream := ?s\<rparr>)"
    using k at by (simp add: r(2))
  from drop_spec [OF assms(1) ok2 at2] obtain ms3 ev where d0: "drop_resolved be ?rv ?ms2 = Ok ms3" "pool_went_on after (mt_pool ?ms2) (mt_pool ms3)" "multi_ok ms3"
    "mt_gc ms3 = mt_gc ?ms2 @ (if rv_pinned ?rv = [] then [] else [\<lparr>gt_to_drop = rv_pinned ?rv, gt_event = ev\<rparr>])"
    "rv_pinned ?rv \<noteq> [] \<longrightarrow> after (sw_stream (?w\<lparr>sw_stream := ?s\<rparr>)) \<subseteq> ended ev" by blast
  then have d: "drop_resolved be ?rv ?ms2 = Ok ms3" "pool_went_on after (mt_pool ?ms2) (mt_pool ms3)" "multi_ok ms3"
    "mt_gc ms3 = mt_gc ms @ (if ?pins = [] then [] else [\<lparr>gt_to_drop = ?pins, gt_event = ev\<rparr>])" "?pins \<noteq> [] \<longrightarrow> after ?s \<subseteq> ended ev"
    by (simp_all add: r(4))
  have work: "after (sw_stream ?w) \<union> set (se_ops se) \<subseteq> after ?s" using assms(6) by (simp add: session_ok_def)
  note al = in_order_aligned [OF r(3) assms(4) reg(1)]
  have "in_order after (Suc N) (D @ map (\<lambda>x. (?k, sw_cursor ?w, x)) (se_ops se)) (mt_pool ?ms2)"
    using in_order_work [OF al(1) _ _ _ _ work, of ?k] k al(2) by (simp add: r(2))
  then have "in_order after (Suc N) (D @ map (\<lambda>x. (?k, sw_cursor ?w, x)) (se_ops se)) (mt_pool ms3)"
    using ok2 by (intro in_order_went_on [OF d(2)]) (auto simp: multi_ok_def)
  moreover have "max_streams (mt_pool ms3) = max_streams (mt_pool ms)" "slot (mt_pool ms3) ?sid = ?k"
    using d(2) reg(3) by (simp_all add: pool_went_on_def r(2) slot_def)
  moreover have "set (se_ops se) \<subseteq> ended ev" if "?pins \<noteq> []" using d(5) work that by auto
  ultimately show ?thesis using r(1) d(1,3,4)
    by (intro exI [of _ "map (\<lambda>x. (?k, sw_cursor ?w, x)) (se_ops se)"] exI [of _ ms3] exI [of _ ev]) (simp add: run_session_def)
qed

lemma sessions_spec:
  assumes "event_contract be after ended" "\<forall>ks. set (hash_order ks) = set ks" "\<forall>se \<in> set ses. session_ok after se"
  shows "multi_ok ms \<Longrightarrow> in_order after N D (mt_pool ms) \<Longrightarrow> N + length ses < 2 ^ 64 \<Longrightarrow>
    \<exists>xs ms' h'. run_sessions be hash_order ses ms h = Ok (xs, ms', h') \<and> multi_ok ms' \<and>
      in_order after (N + length ses) (D @ xs) (mt_pool ms') \<and> max_streams (mt_pool ms') = max_streams (mt_pool ms)"
  using assms(3)
proof (induction ses arbitrary: ms h N D)
  case Nil
  then show ?case by simp
next
  case (Cons se ses)
  have "Suc N < 2 ^ 64" "session_ok after se" using Cons.prems by simp_all
  from session_spec [OF assms(1) Cons.prems(1) assms(2) Cons.prems(2) this, of h] obtain xs ms1 h1 where
    s: "run_session be hash_order se ms h = Ok (xs, ms1, h1)" "multi_ok ms1" "in_order after (Suc N) (D @ xs) (mt_pool ms1)"
    "max_streams (mt_pool ms1) = max_streams (mt_pool ms)" by blast
  have "Suc N + length ses < 2 ^ 64" "\<forall>se \<in> set ses. session_ok after se" using Cons.prems by simp_all
  from Cons.IH [OF s(2,3) this, of h1] obtain ys ms' h' where "run_sessions be hash_order ses ms1 h1 = Ok (ys, ms', h')" "multi_ok ms'"
    "in_order after (Suc N + length ses) ((D @ xs) @ ys) (mt_pool ms')" "max_streams (mt_pool ms') = max_streams (mt_pool ms1)" by blast
  with s show ?case by (intro exI [of _ "xs @ ys"] exI [of _ ms'] exI [of _ h']) simp
qed

lemma multi_new_ok: "0 < n \<Longrightarrow> n \<le> 254 \<Longrightarrow> multi_ok (multi_new b n)"
  by (simp add: multi_ok_def multi_new_def regular_new_ok) (simp add: pool_new_def u8_saturating_add_def)

lemma multi_new_order: "n \<le> 254 \<Longrightarrow> in_order after 0 [] (mt_pool (multi_new b n))"
  by (simp add: in_order_def multi_new_def pool_new_def u8_saturating_add_def del: replicate.simps)

section \<open>Properties of the streams with events\<close>

text \<open>A backend whose streams are the operations they run after, and whose events are snapshots.\<close>

definition demo_events :: "(nat list, nat list, unit) event_backend" where
  "demo_events = \<lparr>eb_create = \<lambda>u. [], eb_cursor = \<lambda>s b. bb_size b, eb_flush = \<lambda>s g. (s, s, g), eb_wait = \<lambda>s ev. s @ ev, eb_wait_sync = \<lambda>ev. Ok ()\<rparr>"

definition demo_session :: "stream_id \<Rightarrow> buffer_binding list \<Rightarrow> nat \<Rightarrow> (nat list, nat) session" where
  "demo_session sid bs x = \<lparr>se_stream = sid, se_bindings = bs, se_work = \<lambda>s. s @ [x], se_ops = [x]\<rparr>"

definition demo_bound :: "stream_id \<Rightarrow> nat \<Rightarrow> buffer_binding" where
  "demo_bound sid c = \<lparr>bb_memory = 0, bb_service = 0, bb_offset_start = None, bb_offset_end = None, bb_stream = sid, bb_size = c\<rparr>"

lemma demo_contract: "event_contract demo_events set set" "session_ok set (demo_session sid bs x)"
  by (simp_all add: event_contract_def demo_events_def session_ok_def demo_session_def)

text \<open>C10: Work never overtakes the work that wrote its inputs: after any sessions, whatever streams
  they ran on and whatever they shared, resolving a stream for some bindings succeeds and leaves it
  ordered after everything that was done on each binding's own stream up to the binding's cursor.
\<close>

theorem shared_work_is_seen:
  fixes be :: "('s, 'ev, 'b) event_backend" and after :: "'s \<Rightarrow> 'x set"
  assumes "event_contract be after ended" "\<forall>ks. set (hash_order ks) = set ks" "\<forall>se \<in> set ses. session_ok after se"
    "0 < n" "n \<le> 254" "Suc (length ses) < 2 ^ 64"
  shows "\<exists>xs ms h' rv ms' h''. run_sessions be hash_order ses (multi_new b n) h = Ok (xs, ms, h') \<and>
    resolve be hash_order sid bs ms h' = Ok (rv, ms', h'') \<and>
    (\<forall>bd \<in> set bs. \<forall>v c x. streams (mt_pool ms) ! (bb_stream bd mod n) = Some v \<and> (bb_stream bd mod n, c, x) \<in> set xs \<and>
       c \<le> eb_cursor be (sw_stream v) bd \<longrightarrow> x \<in> after (sw_stream (stream_at (sid mod n) (mt_pool ms'))))"
proof -
  let ?new = "multi_new b n :: ('s, 'ev, 'b) multi_stream"
  have "0 + length ses < 2 ^ 64" using assms(6) by simp
  from sessions_spec [OF assms(1-3) multi_new_ok [OF assms(4,5)] multi_new_order [OF assms(5)] this, where h = h and b1 = b] obtain xs ms h' where
    r: "run_sessions be hash_order ses ?new h = Ok (xs, ms, h')" "multi_ok ms" "in_order after (length ses) xs (mt_pool ms)"
    "max_streams (mt_pool ms) = n" by (auto simp: multi_new_def pool_new_def)
  from resolve_spec [OF assms(1) r(2) assms(2) r(3) assms(6), of sid bs h'] obtain q w w' ms' rv h'' where
    e: "resolve be hash_order sid bs ms h' = Ok (rv, ms', h'')" "mt_pool ms' = put_stream (slot q sid) (w'\<lparr>sw_cursor := Suc (sw_cursor w')\<rparr>) q"
    "aligned be after sid bs (mt_pool ms) q w w'" by blast
  have on: "pool_went_on after (mt_pool ms) q" "streams q ! slot q sid = Some w" "after (sw_stream w) \<subseteq> after (sw_stream w')"
    using e(3) by (auto simp: aligned_def)
  have q: "regular_ok q" "max_streams q = n" using on(1) r(2,4) by (simp_all add: pool_went_on_def multi_ok_def regular_ok_def)
  have inq: "in_order after (length ses) xs q" using in_order_went_on [OF on(1) r(3)] r(2) by (simp add: multi_ok_def)
  have at: "stream_at (sid mod n) (mt_pool ms') = w'\<lparr>sw_cursor := Suc (sw_cursor w')\<rparr>"
    using slot_in_range [OF q(1), of sid] by (simp add: e(2) stream_at_def slot_def q(2))
  have "x \<in> after (sw_stream w')" if bd: "bd \<in> set bs" "streams (mt_pool ms) ! (bb_stream bd mod n) = Some v"
    "(bb_stream bd mod n, c, x) \<in> set xs" "c \<le> eb_cursor be (sw_stream v) bd" for bd v c x
  proof (cases "bb_stream bd = sid")
    case True
    then show ?thesis using in_order_done [OF inq bd(3)] on(2,3) q(2) by (auto simp: slot_def)
  next
    case False
    then have "bd \<in> set (others sid bs)" "streams (mt_pool ms) ! slot q (bb_stream bd) = Some v" using bd(1,2) q(2) by (simp_all add: slot_def)
    from aligned_binding [OF e(3) this] consider l where "sw_last_synced w (bb_stream bd mod n) = Some l" "eb_cursor be (sw_stream v) bd \<le> l" |
      "after (sw_stream v) \<subseteq> after (sw_stream w')" using q(2) by (auto simp: slot_def)
    then show ?thesis
    proof cases
      case 1
      then show ?thesis using in_order_synced [OF inq _ on(2) 1(1)] slot_less [OF q(1)] bd(3,4) on(3) by (meson le_trans subsetD)
    next
      case 2
      then show ?thesis using in_order_done [OF r(3) bd(3)] bd(2) by auto
    qed
  qed
  then have "\<forall>bd \<in> set bs. \<forall>v c x. streams (mt_pool ms) ! (bb_stream bd mod n) = Some v \<and> (bb_stream bd mod n, c, x) \<in> set xs \<and>
       c \<le> eb_cursor be (sw_stream v) bd \<longrightarrow> x \<in> after (sw_stream (stream_at (sid mod n) (mt_pool ms')))" unfolding at by auto
  with r(1) e(1) show ?thesis by blast
qed

theorem shared_work_is_seen_witness:
  "\<exists>xs ms h' rv ms' h''. run_sessions demo_events rev [demo_session 1 [] 7, demo_session 2 [demo_bound 1 1] 8] (multi_new () 3) heap_empty = Ok (xs, ms, h') \<and>
    resolve demo_events rev 0 [demo_bound 2 1, demo_bound 1 1] ms h' = Ok (rv, ms', h'') \<and>
    (\<forall>bd \<in> set [demo_bound 2 1, demo_bound 1 1]. \<forall>v c x. streams (mt_pool ms) ! (bb_stream bd mod 3) = Some v \<and>
       (bb_stream bd mod 3, c, x) \<in> set xs \<and> c \<le> eb_cursor demo_events (sw_stream v) bd \<longrightarrow>
       x \<in> set (sw_stream (stream_at (0 mod 3) (mt_pool ms'))))"
  by (rule shared_work_is_seen [OF demo_contract(1)]) (simp_all add: demo_contract(2))

lemma strong_fold:
  "i \<in> dom (descs h) \<Longrightarrow> strong_count (fold clone_binding js h) i = strong_count h i + count_list js i"
  "strong_count (fold drop_binding js h) i = strong_count h i - count_list js i"
  by (induction js arbitrary: h) (auto simp: heap_simps)



text \<open>C29: A binding whose cursor was never set is not waited for: once the reader has met the streams
  its bindings come from, bindings of cursor zero name no origin to flush, and aligning changes
  nothing, no matter what those streams have done since.
\<close>

theorem zero_cursor_never_waits:
  assumes "multi_ok ms" "streams (mt_pool ms) ! slot (mt_pool ms) sid = Some w" "\<forall>bd \<in> set bs. \<forall>s. eb_cursor be s bd = 0"
    "\<forall>bd \<in> set bs. sw_last_synced w (slot (mt_pool ms) (bb_stream bd)) \<noteq> None"
  shows "\<exists>an ms' h'. update_shared_bindings be sid bs ms h = Ok (an, ms', h') \<and> an_slices an = [] \<and> apply_analysis be hash_order sid an ms' = Ok ms'"
proof -
  from update_shared_spec [OF assms(1), of be sid bs h "\<lambda>_. {} :: unit set"] obtain an ms' h' q v where
    u: "update_shared_bindings be sid bs ms h = Ok (an, ms', h')" "pool_went_on (\<lambda>_. {} :: unit set) (mt_pool ms) q" "streams q ! slot q sid = Some v"
    "\<forall>k w. streams (mt_pool ms) ! k = Some w \<longrightarrow> streams q ! k = Some w"
    "fst ` set (an_slices an) = {slot q (bb_stream b) | b. b \<in> set (others sid bs) \<and>
      needs_wait (sw_last_synced v) (slot q (bb_stream b)) (eb_cursor be (sw_stream (stream_at (slot q (bb_stream b)) q)) b)}" by blast
  have sl: "slot q = slot (mt_pool ms)" using u(2) by (auto simp: pool_went_on_def slot_def fun_eq_iff)
  then have "v = w" using u(3,4) assms(2) by auto
  then have "fst ` set (an_slices an) = {}" unfolding u(5) using assms(3,4) by (fastforce simp: needs_wait_def sl)
  then have "an_slices an = []" by simp
  then show ?thesis using u(1) by (simp add: apply_analysis_def)
qed

definition demo_met :: "(nat list, nat list, unit) multi_stream" where
  "demo_met = (multi_new () 2)\<lparr>mt_pool := \<lparr>streams = [Some \<lparr>sw_stream = [7], sw_cursor = 5, sw_last_synced = Map.empty\<rparr>,
     Some \<lparr>sw_stream = [], sw_cursor = 1, sw_last_synced = [0 \<mapsto> 2]\<rparr>, None], factory = (), max_streams = 2\<rparr>\<rparr>"

theorem zero_cursor_never_waits_witness:
  "\<exists>an ms' h'. update_shared_bindings demo_events 1 [demo_bound 0 0] demo_met heap_empty = Ok (an, ms', h') \<and> an_slices an = [] \<and>
    apply_analysis demo_events rev 1 an ms' = Ok ms'"
  by (rule zero_cursor_never_waits [where w = "\<lparr>sw_stream = [], sw_cursor = 1, sw_last_synced = [0 \<mapsto> 2]\<rparr>"])
    (simp_all add: demo_met_def multi_new_def multi_ok_def regular_ok_def slot_def demo_events_def demo_bound_def)

end
