(* ===== verification/Zspace_Index.thy ===== *)
theory Zspace_Index
  imports Prelude
begin

text \<open>
  Index arithmetic of \<open>cubecl-zspace\<close>: conversion to a signed index
  (\<open>indexing/type_conversion.rs\<close>), wrapping of negative indices and the row-major ravel
  (\<open>indexing/wrapping.rs\<close>), the contiguous strides (\<open>striding/layout_builders.rs\<close>) and the
  stride validation (\<open>striding/layout_validation.rs\<close>).

  Indices are \<open>int\<close>; \<open>as_index\<close> is the two's complement cast \<open>as isize\<close> of a 64-bit target.
  Sizes, strides and element counts are \<open>nat\<close>: they agree with \<open>usize\<close> while they stay below
  \<open>2 ^ 63\<close>, which a buffer that can be allocated never exceeds. A failed \<open>expect\<close> and a failed
  \<open>assert!\<close> are \<open>Panic\<close>.
\<close>

section \<open>Wrapping\<close>

datatype index_kind = Element | Dimension

datatype bounds_error = GenericBounds string | IndexBounds index_kind int int int

record index_wrap =
  iw_kind :: index_kind
  iw_wrap_scalar :: bool

text \<open>\<open>AsIndex::as_index\<close>: \<open>self as isize\<close>.\<close>

definition as_index :: "int \<Rightarrow> int" where
  "as_index i = sint (word_of_int i :: 64 word)"

text \<open>\<open>AsSize::as_size\<close>: \<open>try_into\<close> a \<open>usize\<close>, a panic when it does not fit.\<close>

definition as_size :: "int \<Rightarrow> (bounds_error, nat) outcome" where
  "as_size i = (if 0 \<le> i \<and> i < 2 ^ 64 then Ok (nat i) else Panic)"

definition try_wrap :: "int \<Rightarrow> nat \<Rightarrow> index_kind \<Rightarrow> bool \<Rightarrow> (bounds_error, nat) outcome" where
  "try_wrap idx size0 kind wrap_scalar =
    (let source_idx = as_index idx in
     if size0 = 0 \<and> \<not> wrap_scalar then Err (IndexBounds kind source_idx 0 0)
     else
       let sz = (if 0 < size0 then size0 else 1) in
       if 0 \<le> source_idx \<and> nat source_idx < sz then Ok (nat source_idx)
       else
         let i = (if source_idx < 0 then source_idx + int sz else source_idx) in
         if i < 0 \<or> sz \<le> nat i then Err (IndexBounds kind source_idx 0 (int sz))
         else Ok (nat i))"

definition expect_wrap :: "int \<Rightarrow> nat \<Rightarrow> index_kind \<Rightarrow> bool \<Rightarrow> (bounds_error, nat) outcome" where
  "expect_wrap idx n kind wrap_scalar =
    (case try_wrap idx n kind wrap_scalar of Ok i \<Rightarrow> Ok i | _ \<Rightarrow> Panic)"

definition iw_index :: index_wrap where
  "iw_index = \<lparr>iw_kind = Element, iw_wrap_scalar = False\<rparr>"

definition iw_dim :: index_wrap where
  "iw_dim = \<lparr>iw_kind = Dimension, iw_wrap_scalar = False\<rparr>"

definition with_wrap_scalar :: "index_wrap \<Rightarrow> bool \<Rightarrow> index_wrap" where
  "with_wrap_scalar w b = w\<lparr>iw_wrap_scalar := b\<rparr>"

definition iw_try_wrap :: "index_wrap \<Rightarrow> int \<Rightarrow> nat \<Rightarrow> (bounds_error, nat) outcome" where
  "iw_try_wrap w idx n = try_wrap idx n (iw_kind w) (iw_wrap_scalar w)"

definition iw_expect_wrap :: "index_wrap \<Rightarrow> int \<Rightarrow> nat \<Rightarrow> (bounds_error, nat) outcome" where
  "iw_expect_wrap w idx n = expect_wrap idx n (iw_kind w) (iw_wrap_scalar w)"

definition expect_elem :: "int \<Rightarrow> nat \<Rightarrow> (bounds_error, nat) outcome" where
  "expect_elem idx n = iw_expect_wrap iw_index idx n"

definition expect_dim :: "int \<Rightarrow> nat \<Rightarrow> (bounds_error, nat) outcome" where
  "expect_dim idx n = iw_expect_wrap iw_dim idx n"

definition wrap_index :: "int \<Rightarrow> nat \<Rightarrow> nat" where
  "wrap_index idx n =
    (if n = 0 then 0
     else let wrapped = as_index idx mod int n in
       if wrapped < 0 then nat (wrapped + int n) else nat wrapped)"

text \<open>\<open>ravel_index\<close>: the loop visits the dimensions from the last to the first.\<close>

fun ravel_loop :: "(int \<times> nat) list \<Rightarrow> nat \<Rightarrow> nat \<Rightarrow> (bounds_error, nat) outcome" where
  "ravel_loop [] ravel_idx stride = Ok ravel_idx"
| "ravel_loop ((idx, dim) # rest) ravel_idx stride =
    try_then (iw_expect_wrap iw_index idx dim)
      (\<lambda>coord. ravel_loop rest (ravel_idx + coord * stride) (stride * dim))"

definition ravel_index :: "int list \<Rightarrow> nat list \<Rightarrow> (bounds_error, nat) outcome" where
  "ravel_index indices shape =
    (if length shape \<noteq> length indices then Panic
     else ravel_loop (rev (zip indices shape)) 0 1)"

section \<open>Strides\<close>

text \<open>\<open>row_major_contiguous_strides\<close>: every stride starts at one and the loop fills them from
  the last but one to the first.\<close>

definition stride_step :: "nat list \<Rightarrow> nat \<Rightarrow> nat list \<Rightarrow> nat list" where
  "stride_step shape i strides = strides[i := strides ! (i + 1) * shape ! (i + 1)]"

definition row_major_contiguous_strides :: "nat list \<Rightarrow> nat list" where
  "row_major_contiguous_strides shape =
    (let rank = length shape; strides = replicate rank 1 in
     if 1 < rank then
       fold (stride_step shape) (rev [0..<rank - 1]) strides
     else strides)"

record stride_record =
  sr_shape :: "nat list"
  sr_strides :: "nat list"

datatype stride_error =
    MalformedRanks stride_record
  | UnsupportedRank nat stride_record
  | InvalidStrides string stride_record

definition from_usize_strides :: "nat list \<Rightarrow> nat list \<Rightarrow> stride_record" where
  "from_usize_strides shape strides = \<lparr>sr_shape = shape, sr_strides = strides\<rparr>"

definition try_check_matching_ranks :: "nat list \<Rightarrow> nat list \<Rightarrow> (stride_error, nat) outcome" where
  "try_check_matching_ranks shape strides =
    (if length strides \<noteq> length shape
     then Err (MalformedRanks (from_usize_strides shape strides))
     else Ok (length shape))"

definition try_check_pitched_row_major_strides ::
  "nat list \<Rightarrow> nat list \<Rightarrow> (stride_error, unit) outcome" where
  "try_check_pitched_row_major_strides shape strides =
    try_then (try_check_matching_ranks shape strides) (\<lambda>rank.
      if rank = 0 then Err (UnsupportedRank rank (from_usize_strides shape strides))
      else
        let valid_layout = (strides ! (rank - 1) = 1 \<and> list_all (\<lambda>s. s \<noteq> 0) strides);
            valid_layout =
              (if valid_layout \<and> 1 < rank then
                 \<not> strides ! (rank - 2) < shape ! (rank - 1)
                 \<and> list_all (\<lambda>i. strides ! i = shape ! (i + 1) * strides ! (i + 1)) [0..<rank - 2]
               else valid_layout)
        in if valid_layout then Ok ()
           else Err (InvalidStrides ''strides are not valid pitched row major order''
                  (from_usize_strides shape strides)))"

definition try_check_contiguous_row_major_strides ::
  "nat list \<Rightarrow> nat list \<Rightarrow> (stride_error, unit) outcome" where
  "try_check_contiguous_row_major_strides shape strides =
    try_then (try_check_matching_ranks shape strides) (\<lambda>rank.
      if rank = 0 then Err (UnsupportedRank rank (from_usize_strides shape strides))
      else
        let valid_layout = (strides ! (rank - 1) = 1);
            valid_layout =
              (if valid_layout \<and> 1 < rank then
                 list_all (\<lambda>i. strides ! i = shape ! (i + 1) * strides ! (i + 1)) [0..<rank - 1]
               else valid_layout)
        in if valid_layout then Ok ()
           else Err (InvalidStrides ''strides are not contiguous in row major order''
                  (from_usize_strides shape strides)))"

text \<open>The \<open>has_..\<close> forms: a panic on a rank problem, \<open>false\<close> on an invalid layout.\<close>

definition has_of_try :: "(stride_error, unit) outcome \<Rightarrow> (stride_error, bool) outcome" where
  "has_of_try r =
    (case r of Ok _ \<Rightarrow> Ok True
     | Err (UnsupportedRank _ _) \<Rightarrow> Panic
     | Err (MalformedRanks _) \<Rightarrow> Panic
     | Err (InvalidStrides _ _) \<Rightarrow> Ok False
     | Panic \<Rightarrow> Panic)"

definition has_pitched_row_major_strides :: "nat list \<Rightarrow> nat list \<Rightarrow> (stride_error, bool) outcome" where
  "has_pitched_row_major_strides shape strides =
    has_of_try (try_check_pitched_row_major_strides shape strides)"

definition has_contiguous_row_major_strides :: "nat list \<Rightarrow> nat list \<Rightarrow> (stride_error, bool) outcome" where
  "has_contiguous_row_major_strides shape strides =
    has_of_try (try_check_contiguous_row_major_strides shape strides)"

section \<open>Wrapping lemmas\<close>

text \<open>The indices an \<open>isize\<close> can hold.\<close>

definition isize_range :: "int \<Rightarrow> bool" where
  "isize_range i \<longleftrightarrow> - (2 ^ 63) \<le> i \<and> i < 2 ^ 63"

lemma as_index_id [simp]: "isize_range i \<Longrightarrow> as_index i = i"
  unfolding as_index_def isize_range_def sint_sbintrunc'
  by (intro signed_take_bit_int_eq_self) simp_all

definition in_wrap_range :: "int \<Rightarrow> nat \<Rightarrow> bool" where
  "in_wrap_range i n \<longleftrightarrow> - int n \<le> i \<and> i < int n"

lemma in_wrap_range_isize: "in_wrap_range i n \<Longrightarrow> n < 2 ^ 63 \<Longrightarrow> isize_range i"
  by (auto simp: in_wrap_range_def isize_range_def)

lemma wrap_index_isize: "isize_range i \<Longrightarrow> 0 < n \<Longrightarrow> wrap_index i n = nat (i mod int n)"
proof -
  assume "isize_range i" "0 < n"
  moreover from this have "\<not> i mod int n < 0"
    by (metis of_nat_0_less_iff not_less pos_mod_sign)
  ultimately show ?thesis by (simp add: wrap_index_def Let_def)
qed

lemma wrap_index_less: "0 < n \<Longrightarrow> wrap_index i n < n"
  by (auto simp: wrap_index_def Let_def nat_less_iff)

lemma wrap_index_of_nat [simp]: "k < n \<Longrightarrow> n < 2 ^ 63 \<Longrightarrow> wrap_index (int k) n = k"
  by (subst wrap_index_isize) (auto simp: isize_range_def)

lemma in_wrap_range_wrap:
  assumes "isize_range i" "0 < n"
  shows "in_wrap_range i n \<Longrightarrow>
    wrap_index i n = nat (if i < 0 then i + int n else i)"
proof -
  assume r: "in_wrap_range i n"
  have "i mod int n = (if i < 0 then i + int n else i)"
  proof (cases "i < 0")
    case True
    with r assms(2) have "(i + int n) mod int n = i + int n"
      by (intro mod_pos_pos_trivial) (auto simp: in_wrap_range_def)
    with True show ?thesis by simp
  next
    case False
    with r show ?thesis by (simp add: in_wrap_range_def)
  qed
  with assms show ?thesis by (simp add: wrap_index_isize)
qed

lemma try_wrap_cases:
  assumes "isize_range i"
  shows "try_wrap i n kind ws =
    (let m = (if n = 0 \<and> ws then 1 else n) in
     if in_wrap_range i m then Ok (wrap_index i m) else Err (IndexBounds kind i 0 (int m)))"
proof (cases "n = 0 \<and> \<not> ws")
  case True
  with assms show ?thesis by (auto simp: try_wrap_def in_wrap_range_def)
next
  case False
  define m where "m = (if n = 0 \<and> ws then 1 else n)"
  with False have m: "0 < m" "(if 0 < n then n else 1) = m" by auto
  have "try_wrap i n kind ws =
    (if 0 \<le> i \<and> nat i < m then Ok (nat i)
     else let j = (if i < 0 then i + int m else i) in
       if j < 0 \<or> m \<le> nat j then Err (IndexBounds kind i 0 (int m)) else Ok (nat j))"
    using False assms m by (auto simp: try_wrap_def Let_def)
  moreover have "in_wrap_range i m \<longleftrightarrow>
      0 \<le> i \<and> nat i < m \<or> i < 0 \<and> 0 \<le> i + int m"
    using m(1) by (auto simp: in_wrap_range_def)
  ultimately show ?thesis
    using in_wrap_range_wrap [OF assms m(1)] unfolding m_def [symmetric]
    by (auto simp: Let_def in_wrap_range_def)
qed

lemma expect_wrap_index:
  assumes "isize_range i"
  shows "iw_expect_wrap iw_index i n = (if in_wrap_range i n then Ok (wrap_index i n) else Panic)"
  using assms by (simp add: iw_expect_wrap_def expect_wrap_def iw_index_def try_wrap_cases)

section \<open>Strides and offsets\<close>

definition offset_of :: "nat list \<Rightarrow> nat list \<Rightarrow> nat" where
  "offset_of coords strides = sum_list (map2 (*) coords strides)"

lemma offset_of_Nil [simp]: "offset_of [] ss = 0"
  by (simp add: offset_of_def)

lemma offset_of_Cons [simp]: "offset_of (c # cs) (s # ss) = c * s + offset_of cs ss"
  by (simp add: offset_of_def)

lemma stride_fold_suffix:
  fixes shape :: "nat list"
  assumes "k < length shape"
  shows "fold (stride_step shape)
      (rev [k..<length shape - 1]) (replicate (length shape) 1)
    = replicate k 1 @ map (\<lambda>i. prod_list (drop (Suc i) shape)) [k..<length shape]"
  using assms
proof (induction "length shape - 1 - k" arbitrary: k)
  case 0
  then have "length shape = Suc k" by simp
  then show ?case by (simp add: replicate_append_same)
next
  case (Suc n)
  then have k: "Suc k < length shape" by simp
  have up: "rev [k..<length shape - 1] = rev [Suc k..<length shape - 1] @ [k]"
    using k by (simp add: upt_conv_Cons)
  have IH: "fold (stride_step shape)
      (rev [Suc k..<length shape - 1]) (replicate (length shape) 1)
    = replicate k 1 @ 1 # map (\<lambda>i. prod_list (drop (Suc i) shape)) [Suc k..<length shape]"
    using Suc.hyps(1) [of "Suc k"] Suc.hyps(2) k by (simp add: replicate_app_Cons_same)
  have "prod_list (drop (Suc k) shape) = prod_list (drop (Suc (Suc k)) shape) * shape ! Suc k"
    using k by (simp add: Cons_nth_drop_Suc [symmetric] mult.commute [of "shape ! _"])
  then show ?case
    using k unfolding up fold_append
    by (simp add: IH [simplified] stride_step_def nth_append upt_conv_Cons list_update_append
        del: upt_Suc)
qed

lemma row_major_suffix:
  "row_major_contiguous_strides shape = map (\<lambda>i. prod_list (drop (Suc i) shape)) [0..<length shape]"
proof (cases "1 < length shape")
  case True
  then have "0 < length shape" by linarith
  from stride_fold_suffix [OF this] True show ?thesis
    by (simp add: row_major_contiguous_strides_def Let_def)
next
  case False
  then consider "shape = []" | d where "shape = [d]"
    by (cases shape; cases "tl shape") auto
  then show ?thesis by cases (auto simp: row_major_contiguous_strides_def)
qed

lemma row_major_Nil [simp]: "row_major_contiguous_strides [] = []"
  by (simp add: row_major_suffix)

lemma row_major_Cons [simp]:
  "row_major_contiguous_strides (d # ds) = prod_list ds # row_major_contiguous_strides ds"
proof -
  have "map (\<lambda>i. prod_list (drop (Suc i) (d # ds))) [0..<length (d # ds)]
    = prod_list ds # map (\<lambda>i. prod_list (drop (Suc i) ds)) [0..<length ds]"
    by (rule nth_equalityI) (auto simp: nth_Cons' simp del: upt_Suc)
  then show ?thesis unfolding row_major_suffix .
qed

lemma length_row_major [simp]: "length (row_major_contiguous_strides ds) = length ds"
  by (induction ds) auto

lemma offset_row_major_less:
  "list_all2 (<) cs ds \<Longrightarrow> offset_of cs (row_major_contiguous_strides ds) < prod_list ds"
proof (induction rule: list_all2_induct)
  case Nil
  then show ?case by simp
next
  case (Cons c cs d ds)
  then have "Suc c * prod_list ds \<le> d * prod_list ds" by (intro mult_le_mono1) simp
  with Cons.IH show ?case by simp
qed

lemma offset_row_major_inj:
  assumes "list_all2 (<) cs ds" "list_all2 (<) cs' ds"
    and "offset_of cs (row_major_contiguous_strides ds) = offset_of cs' (row_major_contiguous_strides ds)"
  shows "cs = cs'"
  using assms
proof (induction arbitrary: cs' rule: list_all2_induct)
  case Nil
  then show ?case by simp
next
  case (Cons c cs d ds)
  from Cons.prems(1) obtain c' cs'' where cs': "cs' = c' # cs''" "c' < d" "list_all2 (<) cs'' ds"
    by (auto simp: list_all2_Cons2)
  let ?o = "\<lambda>x. offset_of x (row_major_contiguous_strides ds)"
  have less: "?o cs < prod_list ds" "?o cs'' < prod_list ds"
    using Cons.hyps cs'(3) by (auto intro: offset_row_major_less)
  have eq: "c * prod_list ds + ?o cs = c' * prod_list ds + ?o cs''"
    using Cons.prems(2) cs'(1) by simp
  have "c = (c * prod_list ds + ?o cs) div prod_list ds" using less(1) by simp
  moreover have "c' = (c' * prod_list ds + ?o cs'') div prod_list ds" using less(2) by simp
  ultimately have "c = c'" using eq by simp
  with eq cs' Cons.IH [of cs''] show ?case by simp
qed

lemma offset_row_major_surj:
  "k < prod_list ds \<Longrightarrow> \<exists>cs. list_all2 (<) cs ds \<and> offset_of cs (row_major_contiguous_strides ds) = k"
proof (induction ds arbitrary: k)
  case Nil
  then show ?case by simp
next
  case (Cons d ds)
  then have pos: "0 < prod_list ds" by (auto intro: ccontr)
  then have "k mod prod_list ds < prod_list ds" by simp
  from Cons.IH [OF this] obtain cs where
    cs: "list_all2 (<) cs ds" "offset_of cs (row_major_contiguous_strides ds) = k mod prod_list ds" by blast
  moreover have "k div prod_list ds < d"
    using Cons.prems pos by (simp add: div_less_iff_less_mult mult.commute)
  ultimately show ?case by (intro exI [of _ "k div prod_list ds # cs"]) simp
qed

section \<open>Raveling\<close>

lemma ravel_loop_append:
  "ravel_loop (xs @ ys) r s =
    try_then (ravel_loop xs r s) (\<lambda>r'. ravel_loop ys r' (s * prod_list (map snd xs)))"
proof (induction xs r s rule: ravel_loop.induct)
  case (2 idx dim rest ravel_idx stride)
  then show ?case by (cases "iw_expect_wrap iw_index idx dim") (auto simp: mult.assoc)
qed simp

lemma ravel_index_Cons:
  "length is = length ds \<Longrightarrow>
    ravel_index (i # is) (d # ds) =
      try_then (ravel_index is ds) (\<lambda>r. try_then (iw_expect_wrap iw_index i d)
        (\<lambda>c. Ok (r + c * prod_list ds)))"
proof -
  assume len: "length is = length ds"
  then have "prod_list (map snd (rev (zip is ds))) = prod_list ds"
    by (simp add: rev_map [symmetric] prod_list.rev)
  with len show ?thesis by (simp add: ravel_index_def ravel_loop_append)
qed

definition wrapped_coords :: "int list \<Rightarrow> nat list \<Rightarrow> nat list" where
  "wrapped_coords is ds = map2 wrap_index is ds"

lemma ravel_index_eq:
  assumes "list_all isize_range is" "length is = length ds"
  shows "ravel_index is ds =
    (if list_all2 in_wrap_range is ds
     then Ok (offset_of (wrapped_coords is ds) (row_major_contiguous_strides ds)) else Panic)"
  using assms
proof (induction "is" ds rule: list_induct2')
  case 1
  then show ?case by (simp add: ravel_index_def wrapped_coords_def)
next
  case (4 i "is" d ds)
  then show ?case
    by (simp add: ravel_index_Cons expect_wrap_index wrapped_coords_def)
qed auto

lemma wrapped_coords_less: "list_all2 in_wrap_range is ds \<Longrightarrow> list_all2 (<) (wrapped_coords is ds) ds"
proof (induction rule: list_all2_induct)
  case (Cons i "is" d ds)
  then have "0 < d" by (auto simp: in_wrap_range_def)
  with Cons show ?case by (simp add: wrapped_coords_def wrap_index_less)
qed (simp add: wrapped_coords_def)

lemma wrapped_coords_nat:
  "list_all2 (<) cs ds \<Longrightarrow> list_all (\<lambda>d. d < 2 ^ 63) ds \<Longrightarrow>
    list_all2 in_wrap_range (map int cs) ds \<and> wrapped_coords (map int cs) ds = cs
    \<and> list_all isize_range (map int cs)"
proof (induction rule: list_all2_induct)
  case (Cons c cs d ds)
  then show ?case by (auto simp: wrapped_coords_def in_wrap_range_def isize_range_def)
qed (simp add: wrapped_coords_def)

section \<open>Properties\<close>



text \<open>Row-major raveling is a bijection between the coordinates of a shape and the offsets of
  its buffer: every offset below the number of elements is the ravel of exactly one list of
  coordinates inside the shape.\<close>

theorem ravel_is_a_bijection:
  assumes "list_all (\<lambda>d. d < 2 ^ 63) ds"
  shows "(\<forall>cs. list_all2 (<) cs ds \<longrightarrow> (\<exists>k < prod_list ds. ravel_index (map int cs) ds = Ok k))
    \<and> (\<forall>k < prod_list ds. \<exists>!cs. list_all2 (<) cs ds \<and> ravel_index (map int cs) ds = Ok k)"
proof -
  have ravel: "ravel_index (map int cs) ds = Ok (offset_of cs (row_major_contiguous_strides ds))"
    if "list_all2 (<) cs ds" for cs
    using wrapped_coords_nat [OF that assms] ravel_index_eq [of "map int cs" ds]
    by (simp add: list_all2_lengthD [OF that])
  show ?thesis
  proof (intro conjI allI impI)
    fix cs assume "list_all2 (<) cs ds"
    then show "\<exists>k < prod_list ds. ravel_index (map int cs) ds = Ok k"
      using ravel offset_row_major_less by blast
  next
    fix k assume "k < prod_list ds"
    then obtain cs where cs: "list_all2 (<) cs ds" "offset_of cs (row_major_contiguous_strides ds) = k"
      using offset_row_major_surj by blast
    show "\<exists>!cs. list_all2 (<) cs ds \<and> ravel_index (map int cs) ds = Ok k"
      by (rule ex1I [of _ cs]) (use cs ravel in \<open>auto intro: offset_row_major_inj\<close>)
  qed
qed

theorem ravel_is_a_bijection_witness:
  "\<exists>!cs. list_all2 (<) cs [2, 3, 4] \<and> ravel_index (map int cs) [2, 3, 4] = Ok 17"
  using ravel_is_a_bijection [of "[2, 3, 4]"] by simp

text \<open>The recurrence the checks test on a prefix of the strides.\<close>

definition stride_chain :: "nat list \<Rightarrow> nat list \<Rightarrow> nat \<Rightarrow> bool" where
  "stride_chain ds ss n \<longleftrightarrow> list_all (\<lambda>i. ss ! i = ds ! (i + 1) * ss ! (i + 1)) [0..<n]"

lemma stride_chainD: "stride_chain ds ss n \<Longrightarrow> i < n \<Longrightarrow> ss ! i = ds ! (i + 1) * ss ! (i + 1)"
  by (simp add: stride_chain_def list_all_iff)

lemma stride_chainI: "(\<And>i. i < n \<Longrightarrow> ss ! i = ds ! (i + 1) * ss ! (i + 1)) \<Longrightarrow> stride_chain ds ss n"
  unfolding stride_chain_def list_all_iff by (metis atLeastLessThan_iff set_upt)

lemma suffix_recurrence:
  assumes "length ss = length ds" "ds \<noteq> []" "ss ! (length ds - 1) = c"
    and "stride_chain ds ss (length ds - 1)"
  shows "ss = map (\<lambda>s. s * c) (row_major_contiguous_strides ds)"
  using assms
proof (induction ds arbitrary: ss)
  case Nil
  then show ?case by simp
next
  case (Cons d ds)
  then obtain s ss' where ss: "ss = s # ss'" by (cases ss) auto
  show ?case
  proof (cases "ds = []")
    case True
    with Cons.prems ss show ?thesis by simp
  next
    case False
    have "ss' = map (\<lambda>s. s * c) (row_major_contiguous_strides ds)"
    proof (rule Cons.IH)
      show "stride_chain ds ss' (length ds - 1)"
      proof (rule stride_chainI)
        fix i assume "i < length ds - 1"
        then have "Suc i < length (d # ds) - 1" using False by auto
        from stride_chainD [OF Cons.prems(4) this] show "ss' ! i = ds ! (i + 1) * ss' ! (i + 1)" by (simp add: ss)
      qed
    qed (use Cons.prems ss False in \<open>auto simp: nth_Cons'\<close>)
    moreover have "s = ds ! 0 * ss' ! 0"
      using stride_chainD [OF Cons.prems(4), of 0] False ss by simp
    ultimately show ?thesis using False ss
      by (cases ds) (auto simp: mult.assoc)
  qed
qed

lemma row_major_recurrence:
  "i + 1 < length ds \<Longrightarrow> row_major_contiguous_strides ds ! i
    = ds ! (i + 1) * row_major_contiguous_strides ds ! (i + 1)"
proof (induction ds arbitrary: i)
  case (Cons d ds)
  then show ?case by (cases i; cases ds) auto
qed simp

lemma row_major_last: "ds \<noteq> [] \<Longrightarrow> row_major_contiguous_strides ds ! (length ds - 1) = 1"
proof (induction ds)
  case (Cons d ds)
  then show ?case by (cases ds) auto
qed simp

text \<open>C37: The contiguity check accepts exactly the strides the builder makes: it answers \<open>Ok\<close>
  when the shape is not a scalar and the strides are \<open>row_major_contiguous_strides\<close> of it, refuses
  a rank mismatch and a scalar with their own errors, and the \<open>has_\<close> form answers the same
  question with a panic for the two rank errors.\<close>

theorem contiguous_check_exact:
  "try_check_contiguous_row_major_strides ds ss =
     (if length ss \<noteq> length ds then Err (MalformedRanks (from_usize_strides ds ss))
      else if ds = [] then Err (UnsupportedRank 0 (from_usize_strides ds ss))
      else if ss = row_major_contiguous_strides ds then Ok ()
      else Err (InvalidStrides ''strides are not contiguous in row major order''
             (from_usize_strides ds ss)))
   \<and> has_contiguous_row_major_strides ds ss =
     (if length ss = length ds \<and> ds \<noteq> [] then Ok (ss = row_major_contiguous_strides ds) else Panic)"
proof -
  have "ss = row_major_contiguous_strides ds \<longleftrightarrow>
      ss ! (length ds - 1) = 1 \<and> stride_chain ds ss (length ds - 1)"
    if "length ss = length ds" "ds \<noteq> []"
  proof
    assume "ss ! (length ds - 1) = 1 \<and> stride_chain ds ss (length ds - 1)"
    with suffix_recurrence [OF that] show "ss = row_major_contiguous_strides ds" by auto
  next
    assume "ss = row_major_contiguous_strides ds"
    with that show "ss ! (length ds - 1) = 1 \<and> stride_chain ds ss (length ds - 1)"
      using row_major_last [of ds] by (auto intro!: stride_chainI row_major_recurrence [simplified])
  qed
  moreover have "ds \<noteq> [] \<Longrightarrow> \<not> 1 < length ds \<Longrightarrow> length ds - 1 = 0" by simp
  ultimately have "try_check_contiguous_row_major_strides ds ss =
     (if length ss \<noteq> length ds then Err (MalformedRanks (from_usize_strides ds ss))
      else if ds = [] then Err (UnsupportedRank 0 (from_usize_strides ds ss))
      else if ss = row_major_contiguous_strides ds then Ok ()
      else Err (InvalidStrides ''strides are not contiguous in row major order''
             (from_usize_strides ds ss)))"
    unfolding try_check_contiguous_row_major_strides_def try_check_matching_ranks_def Let_def
      stride_chain_def [symmetric]
    by (auto simp: stride_chain_def)
  then show ?thesis
    by (simp add: has_contiguous_row_major_strides_def has_of_try_def)
qed

lemma pitched_offset:
  assumes "length cs = Suc (length ds)" "length ss = length ds"
  shows "offset_of cs (map (\<lambda>s. s * p) ss @ [1]) = offset_of (butlast cs) ss * p + last cs"
  using assms
proof (induction ds arbitrary: cs ss)
  case Nil
  then show ?case by (cases cs) auto
next
  case (Cons d ds)
  then obtain c c' cs' s ss' where "cs = c # c' # cs'" "ss = s # ss'"
    by (metis length_Suc_conv)
  with Cons show ?case by (simp add: algebra_simps)
qed

lemma pitched_check_iff:
  "try_check_pitched_row_major_strides ds ss = Ok () \<longleftrightarrow>
    length ss = length ds \<and> ds \<noteq> [] \<and> ss ! (length ds - 1) = 1 \<and> list_all (\<lambda>s. s \<noteq> 0) ss
    \<and> (1 < length ds \<longrightarrow> ds ! (length ds - 1) \<le> ss ! (length ds - 2) \<and> stride_chain ds ss (length ds - 2))"
  unfolding try_check_pitched_row_major_strides_def try_check_matching_ranks_def Let_def
    stride_chain_def [symmetric]
  by (auto simp: not_less)

lemma pitched_form:
  assumes "length ss = length ds" "1 < length ds" "ss ! (length ds - 1) = 1" "stride_chain ds ss (length ds - 2)"
  shows "ss = map (\<lambda>s. s * ss ! (length ds - 2)) (row_major_contiguous_strides (butlast ds)) @ [1]"
proof -
  let ?n = "length ds"
  have snoc: "ss = butlast ss @ [1]"
    using assms by (metis append_butlast_last_id last_conv_nth length_0_conv not_one_less_zero)
  have "butlast ss = map (\<lambda>s. s * ss ! (?n - 2)) (row_major_contiguous_strides (butlast ds))"
  proof (rule suffix_recurrence)
    show "butlast ss ! (length (butlast ds) - 1) = ss ! (?n - 2)"
      using assms by (simp add: nth_butlast numeral_2_eq_2)
    show "stride_chain (butlast ds) (butlast ss) (length (butlast ds) - 1)"
      using stride_chainD [OF assms(4)] assms(1) by (intro stride_chainI) (simp add: nth_butlast)
  qed (use assms in \<open>auto simp: length_greater_0_conv [symmetric] simp del: length_greater_0_conv\<close>)
  with snoc show ?thesis by simp
qed

lemma pitched_shape:
  assumes "try_check_pitched_row_major_strides ds ss = Ok ()"
  shows "ds \<noteq> [] \<and> (\<exists>p. (length ds = 1 \<or> last ds \<le> p) \<and> 0 < p \<and>
    ss = map (\<lambda>s. s * p) (row_major_contiguous_strides (butlast ds)) @ [1])"
proof -
  let ?n = "length ds"
  from assms have len: "length ss = ?n" and ne: "ds \<noteq> []" and last: "ss ! (?n - 1) = 1"
    and pos: "\<forall>s \<in> set ss. s \<noteq> 0"
    and pitch: "1 < ?n \<Longrightarrow> ds ! (?n - 1) \<le> ss ! (?n - 2)"
    and rec: "1 < ?n \<Longrightarrow> stride_chain ds ss (?n - 2)"
    unfolding pitched_check_iff by (auto simp: list_all_iff)
  have snoc: "ss = butlast ss @ [1]"
    using len ne last by (metis append_butlast_last_id last_conv_nth length_0_conv)
  show ?thesis
  proof (cases "?n = 1")
    case True
    then have "butlast ss = []" "butlast ds = []" using len by (cases ss; cases ds; auto)+
    with snoc True ne show ?thesis by (auto intro!: exI [of _ 1])
  next
    case False
    with ne have n: "1 < ?n" by (cases ds) auto
    let ?p = "ss ! (?n - 2)"
    have "ss = map (\<lambda>s. s * ?p) (row_major_contiguous_strides (butlast ds)) @ [1]"
      using len n last rec [OF n] by (rule pitched_form)
    moreover have "0 < ?p" using pos n len by (metis diff_less gr0I nth_mem zero_less_numeral less_trans zero_less_one)
    moreover have "last ds \<le> ?p" using pitch [OF n] ne by (simp add: last_conv_nth)
    ultimately show ?thesis using ne by blast
  qed
qed



end
