(* ===== verification/Zspace_Shape.thy ===== *)
theory Zspace_Shape
  imports Zspace_Index "HOL-Library.Multiset"
begin

text \<open>
  The \<open>Shape\<close> type of \<open>cubecl-zspace\<close> (\<open>shape.rs\<close>) and \<open>Strides\<close> (\<open>strides.rs\<close>): the dimension
  list and every operation on it. A shape is the list of its dimensions. An operation that
  consumes or mutates a shape returns the new one; \<open>MetadataError\<close> is an \<open>Err\<close>, an index out of
  range, a failed assertion and a division by zero are \<open>Panic\<close>.

  Strings are lists of ASCII characters; the two messages of \<open>reshape\<close> that print their operands
  keep the operands instead of the printed text.
\<close>

type_synonym shape = "nat list"

datatype reason =
    Reason string
  | ElementCountReason shape shape
  | CannotInferReason shape "int list"

datatype metadata_error =
    RankMismatch nat nat
  | IncompatibleDims nat nat nat
  | OutOfBounds nat nat
  | IncompatibleShapes shape shape
  | Invalid reason

type_synonym 'a shape_result = "(metadata_error, 'a) outcome"

definition empty_error :: metadata_error where
  "empty_error = Invalid (Reason ''Shape is empty.'')"

section \<open>Dimension list operations\<close>

definition num_elements :: "shape \<Rightarrow> nat" where
  "num_elements s = prod_list s"

definition rank :: "shape \<Rightarrow> nat" where
  "rank s = length s"

definition dims :: "nat \<Rightarrow> shape \<Rightarrow> shape shape_result" where
  "dims D s = (if D \<le> length s then Ok (take D s) else Panic)"

definition flatten :: "shape \<Rightarrow> shape" where
  "flatten s = [num_elements s]"

definition flatten_dims :: "shape \<Rightarrow> int \<Rightarrow> int \<Rightarrow> shape shape_result" where
  "flatten_dims s start_dim end_dim =
    (case expect_dim start_dim (rank s) of
       Ok start \<Rightarrow>
        (case expect_dim end_dim (rank s) of
           Ok stop \<Rightarrow>
             if \<not> start \<le> stop then Panic
             else
               let flattened_size = prod_list (take (Suc stop - start) (drop start s));
                   new_rank = rank s - (stop - start);
                   out = replicate new_rank 0;
                   out = take start s @ drop start out;
                   out = out[start := flattened_size]
               in Ok (take (start + 1) out @ drop (stop + 1) s)
         | _ \<Rightarrow> Panic)
     | _ \<Rightarrow> Panic)"

definition into_ranges :: "shape \<Rightarrow> (nat \<times> nat) list" where
  "into_ranges s = map (\<lambda>d. (0, d)) s"

definition shape_insert :: "nat \<Rightarrow> nat \<Rightarrow> shape \<Rightarrow> shape shape_result" where
  "shape_insert i n s = (if i \<le> length s then Ok (insert_at i n s) else Panic)"

definition shape_remove :: "nat \<Rightarrow> shape \<Rightarrow> (nat \<times> shape) shape_result" where
  "shape_remove i s = (if i < length s then Ok (s ! i, remove_at i s) else Panic)"

definition shape_push :: "nat \<Rightarrow> shape \<Rightarrow> shape" where
  "shape_push n s = s @ [n]"

text \<open>\<open>slice::swap\<close>.\<close>

definition swap_elems :: "nat \<Rightarrow> nat \<Rightarrow> 'a list \<Rightarrow> 'a list" where
  "swap_elems i j xs = xs[i := xs ! j, j := xs ! i]"

definition swapped :: "shape \<Rightarrow> nat \<Rightarrow> nat \<Rightarrow> shape shape_result" where
  "swapped s dim1 dim2 =
    (if rank s \<le> dim1 then Err (OutOfBounds dim1 (rank s))
     else if rank s \<le> dim2 then Err (OutOfBounds dim2 (rank s))
     else Ok (swap_elems dim1 dim2 s))"

definition permute :: "shape \<Rightarrow> nat list \<Rightarrow> shape shape_result" where
  "permute s axes =
    (if length axes \<noteq> rank s then Err (RankMismatch (rank s) (length axes))
     else if list_all (\<lambda>i. i < rank s) axes then Ok (map (\<lambda>i. s ! i) axes)
     else Panic)"

definition repeat :: "shape \<Rightarrow> nat \<Rightarrow> nat \<Rightarrow> shape shape_result" where
  "repeat s dim reps =
    (if rank s \<le> dim then Err (OutOfBounds dim (rank s)) else Ok (s[dim := s ! dim * reps]))"

definition reduce :: "shape \<Rightarrow> nat \<Rightarrow> shape shape_result" where
  "reduce s dim =
    (if rank s \<le> dim then Err (OutOfBounds dim (rank s)) else Ok (s[dim := 1]))"

section \<open>Concatenation and broadcasting\<close>

fun cat_loop :: "nat \<Rightarrow> shape \<Rightarrow> shape list \<Rightarrow> shape shape_result" where
  "cat_loop dim sh [] = Ok sh"
| "cat_loop dim sh (s # rest) =
    (if rank s \<noteq> rank sh then Err (RankMismatch (rank sh) (rank s))
     else if take dim s \<noteq> take dim sh \<or> drop (dim + 1) s \<noteq> drop (dim + 1) sh
     then Err (IncompatibleShapes sh s)
     else cat_loop dim (sh[dim := sh ! dim + s ! dim]) rest)"

fun cat :: "shape list \<Rightarrow> nat \<Rightarrow> shape shape_result" where
  "cat [] dim = Err empty_error"
| "cat (first # rest) dim =
    (if rank first \<le> dim then Err (OutOfBounds dim (rank first)) else cat_loop dim first rest)"

text \<open>The inner loop of \<open>broadcast_many\<close>, with the index of the dimension it is at.\<close>

fun broadcast_dims :: "nat \<Rightarrow> shape \<Rightarrow> shape \<Rightarrow> shape shape_result" where
  "broadcast_dims dim (l # ls) (r # rs) =
    (if l = r then try_then (broadcast_dims (Suc dim) ls rs) (\<lambda>t. Ok (l # t))
     else if l = 1 then try_then (broadcast_dims (Suc dim) ls rs) (\<lambda>t. Ok (r # t))
     else if r = 1 then try_then (broadcast_dims (Suc dim) ls rs) (\<lambda>t. Ok (l # t))
     else Err (IncompatibleDims l r dim))"
| "broadcast_dims dim ls rs = Ok ls"

fun broadcast_loop :: "nat \<Rightarrow> shape \<Rightarrow> shape list \<Rightarrow> shape shape_result" where
  "broadcast_loop n b [] = Ok b"
| "broadcast_loop n b (s # rest) =
    (if rank s \<noteq> n then Err (RankMismatch n (rank s))
     else try_then (broadcast_dims 0 b s) (\<lambda>b'. broadcast_loop n b' rest))"

fun broadcast_many :: "shape list \<Rightarrow> shape shape_result" where
  "broadcast_many [] = Err empty_error"
| "broadcast_many (first # rest) = broadcast_loop (rank first) first rest"

definition broadcast :: "shape \<Rightarrow> shape \<Rightarrow> shape shape_result" where
  "broadcast a b = broadcast_many [a, b]"

text \<open>\<open>expand\<close>: the reversed dimensions of the target against those of the shape.\<close>

fun expand_loop :: "nat \<Rightarrow> nat \<Rightarrow> (nat \<times> nat) list \<Rightarrow> unit shape_result" where
  "expand_loop target_rank i [] = Ok ()"
| "expand_loop target_rank i ((dim_target, dim_self) # rest) =
    (if dim_self \<noteq> dim_target \<and> dim_self \<noteq> 1
     then Err (IncompatibleDims dim_self dim_target (target_rank - i - 1))
     else expand_loop target_rank (Suc i) rest)"

definition expand :: "shape \<Rightarrow> shape \<Rightarrow> shape shape_result" where
  "expand s target =
    (if rank target < rank s then Err (RankMismatch (rank s) (rank target))
     else try_then (expand_loop (rank target) 0 (zip (rev target) (rev s))) (\<lambda>_. Ok target))"

section \<open>Reshape and matrix multiplication\<close>

record reshape_state =
  rs_infer_index :: "nat option"
  rs_dims :: shape
  rs_new_size :: nat

fun reshape_loop :: "shape \<Rightarrow> nat \<Rightarrow> int list \<Rightarrow> reshape_state \<Rightarrow> reshape_state shape_result" where
  "reshape_loop s idx [] st = Ok st"
| "reshape_loop s idx (a # args) st =
    (let a' = as_index a in
     if 0 < a' then
       reshape_loop s (Suc idx) args
         (st\<lparr>rs_new_size := rs_new_size st * nat a', rs_dims := rs_dims st @ [nat a']\<rparr>)
     else if a' = 0 then
       (if idx < length s then
          reshape_loop s (Suc idx) args
            (st\<lparr>rs_new_size := rs_new_size st * s ! idx, rs_dims := rs_dims st @ [s ! idx]\<rparr>)
        else Panic)
     else if a' = - 1 then
       (case rs_infer_index st of
          None \<Rightarrow> reshape_loop s (Suc idx) args
            (st\<lparr>rs_infer_index := Some idx, rs_dims := rs_dims st @ [1]\<rparr>)
        | Some _ \<Rightarrow> Err (Invalid (Reason ''Repeated -1 in reshape'')))
     else Err (Invalid (Reason
       ''The given shape cannot contain negative dimensions (other than -1).'')))"

text \<open>\<open>usize::is_multiple_of\<close>: zero is the only multiple of zero.\<close>

definition is_multiple_of :: "nat \<Rightarrow> nat \<Rightarrow> bool" where
  "is_multiple_of a b = (if b = 0 then a = 0 else a mod b = 0)"

definition reshape :: "shape \<Rightarrow> int list \<Rightarrow> shape shape_result" where
  "reshape s args =
    try_then (reshape_loop s 0 args \<lparr>rs_infer_index = None, rs_dims = [], rs_new_size = 1\<rparr>)
     (\<lambda>st.
       let source_len = num_elements s in
       case rs_infer_index st of
         None \<Rightarrow>
           if source_len \<noteq> rs_new_size st then Err (Invalid (ElementCountReason s (rs_dims st)))
           else Ok (rs_dims st)
       | Some idx \<Rightarrow>
           if \<not> is_multiple_of source_len (rs_new_size st)
           then Err (Invalid (CannotInferReason s args))
           else if rs_new_size st = 0 then Panic
           else Ok ((rs_dims st)[idx := source_len div rs_new_size st]))"

definition calculate_matmul_output :: "shape \<Rightarrow> shape \<Rightarrow> shape shape_result" where
  "calculate_matmul_output lhs rhs =
    (let n = rank lhs in
     if n \<noteq> rank rhs then Err (RankMismatch n (rank rhs))
     else if n < 2 then Panic
     else if lhs ! (n - 1) \<noteq> rhs ! (n - 2) then Err (IncompatibleShapes lhs rhs)
     else
       try_then (if 2 < n then broadcast (take (n - 2) lhs) (take (n - 2) rhs) else Ok [])
         (\<lambda>sh. Ok (sh @ [lhs ! (n - 2), rhs ! (n - 1)])))"

section \<open>Text form\<close>

datatype expression_error = ParseError string string | InvalidExpression string string

definition is_space :: "char \<Rightarrow> bool" where
  "is_space c \<longleftrightarrow> c \<in> set [CHR '' '', CHR 0x09, CHR 0x0A, CHR 0x0B, CHR 0x0C, CHR 0x0D]"

definition trim :: "string \<Rightarrow> string" where
  "trim s = rev (dropWhile is_space (rev (dropWhile is_space s)))"

text \<open>\<open>str::split\<close> at a character: one more piece than separators.\<close>

fun split_on :: "char \<Rightarrow> string \<Rightarrow> string list" where
  "split_on c [] = [[]]"
| "split_on c (x # xs) =
    (if x = c then [] # split_on c xs
     else (case split_on c xs of p # ps \<Rightarrow> (x # p) # ps | [] \<Rightarrow> [[x]]))"

definition digit_value :: "char \<Rightarrow> nat option" where
  "digit_value c = (let n = of_char c in if 48 \<le> n \<and> n \<le> (57::nat) then Some (n - 48) else None)"

text \<open>\<open>usize::from_str\<close>: an optional plus sign, at least one digit, no overflow.\<close>

fun parse_digits :: "nat \<Rightarrow> string \<Rightarrow> nat option" where
  "parse_digits acc [] = Some acc"
| "parse_digits acc (c # cs) =
    (case digit_value c of
       None \<Rightarrow> None
     | Some d \<Rightarrow> if acc * 10 + d < 2 ^ 64 then parse_digits (acc * 10 + d) cs else None)"

definition parse_usize :: "string \<Rightarrow> nat option" where
  "parse_usize s =
    (case s of
       [] \<Rightarrow> None
     | c # cs \<Rightarrow> if c = CHR ''+'' then (if cs = [] then None else parse_digits 0 cs)
                else parse_digits 0 s)"

fun parse_all :: "string list \<Rightarrow> shape option" where
  "parse_all [] = Some []"
| "parse_all (p # ps) =
    (case parse_usize (trim p) of
       None \<Rightarrow> None
     | Some n \<Rightarrow> map_option (\<lambda>ns. n # ns) (parse_all ps))"

text \<open>The delimiter loop of \<open>from_str\<close>: \<open>None\<close> is the unbalanced error.\<close>

fun strip_delims :: "(char \<times> char) list \<Rightarrow> string \<Rightarrow> string option" where
  "strip_delims [] s = Some s"
| "strip_delims ((open_c, close_c) # rest) s =
    (case s of
       c # p \<Rightarrow>
         if c = open_c then
           (if p \<noteq> [] \<and> last p = close_c then Some (trim (butlast p)) else None)
         else strip_delims rest s
     | [] \<Rightarrow> strip_delims rest s)"

definition from_str :: "string \<Rightarrow> (expression_error, shape) outcome" where
  "from_str source =
    (case strip_delims [(CHR ''['', CHR '']''), (CHR ''('', CHR '')'')] (trim source) of
       None \<Rightarrow> Err (ParseError ''Unbalanced delimiters'' source)
     | Some s \<Rightarrow>
         if s = [] then Ok []
         else (case parse_all (split_on (CHR '','') s) of
                 None \<Rightarrow> Err (ParseError ''Unable to parse shape'' source)
               | Some ds \<Rightarrow> if ds = [] then Panic else Ok ds))"

text \<open>\<open>Display\<close>: the list form, \<open>[2, 3, 4]\<close>.\<close>

function decimal :: "nat \<Rightarrow> string" where
  "decimal n = (if n < 10 then [char_of (48 + n)] else decimal (n div 10) @ [char_of (48 + n mod 10)])"
  by auto
termination by (relation "measure id") auto

declare decimal.simps [simp del]

fun join :: "string \<Rightarrow> string list \<Rightarrow> string" where
  "join sep [] = []"
| "join sep [p] = p"
| "join sep (p # q # ps) = p @ sep @ join sep (q # ps)"

definition display :: "shape \<Rightarrow> string" where
  "display s = ''['' @ join '', '' (map decimal s) @ '']''"

section \<open>Reshape\<close>

text \<open>What the loop makes of one entry, and the entries it accepts.\<close>

definition dim_of :: "shape \<Rightarrow> nat \<times> int \<Rightarrow> nat" where
  "dim_of s = (\<lambda>(i, a). if 0 < as_index a then nat (as_index a) else if as_index a = 0 then s ! i else 1)"

definition entry_ok :: "shape \<Rightarrow> nat \<times> int \<Rightarrow> bool" where
  "entry_ok s = (\<lambda>(i, a). 0 < as_index a \<or> as_index a = 0 \<and> i < length s \<or> as_index a = - 1)"

definition infers :: "int \<Rightarrow> bool" where
  "infers a \<longleftrightarrow> as_index a = - 1"

lemma reshape_loop_Ok:
  assumes "reshape_loop s idx args st = Ok st'"
  shows "rs_dims st' = rs_dims st @ map (dim_of s) (enumerate idx args)
    \<and> rs_new_size st' = rs_new_size st * prod_list (map (dim_of s) (enumerate idx args))
    \<and> list_all (entry_ok s) (enumerate idx args)
    \<and> rs_infer_index st' = (case rs_infer_index st of
        Some k \<Rightarrow> Some k | None \<Rightarrow> map_option (\<lambda>k. k + idx) (position infers args))
    \<and> (if rs_infer_index st = None then length (filter infers args) \<le> 1 else filter infers args = [])"
  using assms
proof (induction s idx args st rule: reshape_loop.induct)
  case (1 s idx st)
  then show ?case by (simp split: option.split)
next
  case (2 s idx a args st)
  consider (pos) "0 < as_index a" | (zero) "as_index a = 0" | (infer) "as_index a = - 1"
    | (neg) "as_index a < - 1" by linarith
  then show ?case
  proof cases
    case pos
    then have step: "dim_of s (idx, a) = nat (as_index a)" "entry_ok s (idx, a)" "\<not> infers a"
      by (auto simp: dim_of_def entry_ok_def infers_def)
    from 2(4) pos 2(1) [OF refl pos] show ?thesis
      by (auto simp: step Let_def option.map_comp comp_def mult.assoc split: option.splits)
  next
    case zero
    with 2(4) have "idx < length s" by (auto split: if_splits)
    with zero have step: "dim_of s (idx, a) = s ! idx" "entry_ok s (idx, a)" "\<not> infers a"
      by (auto simp: dim_of_def entry_ok_def infers_def)
    from 2(4) zero 2(2) [OF refl _ zero] \<open>idx < length s\<close> show ?thesis
      by (auto simp: step Let_def option.map_comp comp_def mult.assoc split: option.splits)
  next
    case infer
    then have step: "dim_of s (idx, a) = 1" "entry_ok s (idx, a)" "infers a"
      by (auto simp: dim_of_def entry_ok_def infers_def)
    from infer 2(4) have none: "rs_infer_index st = None" by (auto split: option.splits)
    from 2(4) infer none 2(3) [OF refl _ _ infer none] show ?thesis
      by (auto simp: step Let_def)
  next
    case neg
    with 2(4) show ?thesis by simp
  qed
qed

lemma prod_list_update_one:
  fixes xs :: "nat list"
  shows "i < length xs \<Longrightarrow> xs ! i = 1 \<Longrightarrow> prod_list (xs[i := q]) = q * prod_list xs"
  by (induction xs arbitrary: i) (auto split: nat.splits simp: less_Suc_eq_0_disj)

text \<open>A successful reshape keeps the number of elements and follows its arguments: the result
  has one dimension per argument, a positive argument is taken as it is, a zero copies the
  dimension of the source at its place, and at most one argument is \<open>-1\<close>, whose dimension is
  inferred.\<close>

theorem reshape_keeps_elements:
  assumes "reshape s args = Ok out"
  shows "num_elements out = num_elements s
    \<and> length out = length args
    \<and> (\<forall>i < length args.
         as_index (args ! i) = - 1
         \<or> 0 < as_index (args ! i) \<and> out ! i = nat (as_index (args ! i))
         \<or> as_index (args ! i) = 0 \<and> i < rank s \<and> out ! i = s ! i)
    \<and> length (filter (\<lambda>a. as_index a = - 1) args) \<le> 1"
proof -
  let ?st = "\<lparr>rs_infer_index = None, rs_dims = [], rs_new_size = 1\<rparr>"
  from assms obtain st where loop: "reshape_loop s 0 args ?st = Ok st"
    by (auto simp: reshape_def)
  from reshape_loop_Ok [OF loop]
  have dims: "rs_dims st = map (dim_of s) (enumerate 0 args)"
    and size: "rs_new_size st = prod_list (rs_dims st)"
    and entries: "list_all (entry_ok s) (enumerate 0 args)"
    and infer: "rs_infer_index st = position infers args"
    and once: "length (filter infers args) \<le> 1"
    by (cases "position infers args"; simp)+
  have len: "length (rs_dims st) = length args" by (simp add: dims)
  have nth: "rs_dims st ! i = dim_of s (i, args ! i)" "entry_ok s (i, args ! i)" if "i < length args" for i
    using that entries by (auto simp: dims list_all_length nth_enumerate_eq)
  have out: "rs_infer_index st = None \<and> out = rs_dims st \<and> num_elements s = rs_new_size st \<or>
      (\<exists>k q. rs_infer_index st = Some k \<and> out = (rs_dims st)[k := q] \<and> q * rs_new_size st = num_elements s)"
    using assms loop
    by (auto simp: reshape_def is_multiple_of_def Let_def split: option.splits if_splits)
  have "num_elements out = num_elements s \<and> length out = length args
      \<and> (\<forall>i < length args. infers (args ! i) \<or> out ! i = dim_of s (i, args ! i))"
    using out
  proof (elim disjE exE conjE)
    fix k q assume k: "rs_infer_index st = Some k" "out = (rs_dims st)[k := q]"
      "q * rs_new_size st = num_elements s"
    from position_Some [of infers args k] k(1) infer
    have "k < length args" "infers (args ! k)" by auto
    moreover from this nth(1) have "rs_dims st ! k = 1" by (simp add: dim_of_def infers_def)
    ultimately show ?thesis using k len size nth(1)
      by (auto simp: num_elements_def prod_list_update_one nth_list_update)
  qed (use len size nth in \<open>auto simp: num_elements_def\<close>)
  moreover from this have "as_index (args ! i) = - 1
         \<or> 0 < as_index (args ! i) \<and> out ! i = nat (as_index (args ! i))
         \<or> as_index (args ! i) = 0 \<and> i < rank s \<and> out ! i = s ! i" if "i < length args" for i
    using that nth(2) [OF that] by (auto simp: infers_def dim_of_def entry_ok_def rank_def)
  moreover have "length (filter (\<lambda>a. as_index a = - 1) args) \<le> 1"
    using once unfolding infers_def .
  ultimately show ?thesis by blast
qed

theorem reshape_keeps_elements_witness:
  "reshape [2, 3, 4] [0, -1, 2] = Ok [2, 6, 2]
   \<and> num_elements [2, 6, 2] = num_elements [2, 3, 4]"
proof -
  have ok: "reshape [2, 3, 4] [0, -1, 2] = Ok [2, 6, 2]" by code_simp
  from reshape_keeps_elements [OF ok] ok show ?thesis by simp
qed


section \<open>Broadcasting\<close>

text \<open>When \<open>d\<close> is what the dimensions \<open>xs\<close> broadcast to: each is one or \<open>d\<close>, and \<open>d\<close> is one of
  them unless all are one.\<close>

definition broadcasts_to :: "nat list \<Rightarrow> nat \<Rightarrow> bool" where
  "broadcasts_to xs d \<longleftrightarrow> (\<forall>x \<in> set xs. x = 1 \<or> x = d) \<and> (d = 1 \<or> d \<in> set xs)"

lemma broadcast_dims_Ok:
  "length ls = length rs \<Longrightarrow>
    broadcast_dims k ls rs = Ok out \<longleftrightarrow>
    length out = length ls \<and> (\<forall>i < length ls. broadcasts_to [ls ! i, rs ! i] (out ! i))"
proof (induction k ls rs arbitrary: out rule: broadcast_dims.induct)
  case (1 k l ls r rs)
  then show ?case
    by (cases out) (auto simp: All_less_Suc2 broadcasts_to_def)
qed auto

lemma broadcasts_to_merge:
  "(\<exists>m. broadcasts_to [x, y] m \<and> broadcasts_to (m # zs) d) \<longleftrightarrow> broadcasts_to (x # y # zs) d"
proof
  assume "broadcasts_to (x # y # zs) d"
  then show "\<exists>m. broadcasts_to [x, y] m \<and> broadcasts_to (m # zs) d"
    by (intro exI [of _ "if x = 1 then y else x"]) (auto simp: broadcasts_to_def)
qed (auto simp: broadcasts_to_def)

lemma broadcast_loop_Ok:
  "length b = n \<Longrightarrow>
    broadcast_loop n b rest = Ok out \<longleftrightarrow>
    (\<forall>s \<in> set rest. length s = n) \<and> length out = n
    \<and> (\<forall>i < n. broadcasts_to (b ! i # map (\<lambda>s. s ! i) rest) (out ! i))"
proof (induction rest arbitrary: b)
  case Nil
  have "out = b \<longleftrightarrow> length out = n \<and> (\<forall>i < n. b ! i = out ! i)"
    using Nil by (metis nth_equalityI)
  then show ?case by (auto simp: broadcasts_to_def)
next
  case (Cons s rest)
  show ?case
  proof (cases "length s = n")
    case True
    define P where "P = (\<lambda>i m. broadcasts_to [b ! i, s ! i] m \<and> broadcasts_to (m # map (\<lambda>s. s ! i) rest) (out ! i))"
    have "broadcast_loop n b (s # rest) = Ok out \<longleftrightarrow>
      (\<exists>b'. length b' = n \<and> (\<forall>s \<in> set rest. length s = n) \<and> length out = n \<and> (\<forall>i < n. P i (b' ! i)))"
      using True Cons.prems Cons.IH
      by (auto simp: rank_def broadcast_dims_Ok P_def)
    also have "\<dots> \<longleftrightarrow> (\<forall>s \<in> set rest. length s = n) \<and> length out = n \<and> (\<forall>i < n. \<exists>m. P i m)"
      unfolding ex_simps conj_assoc [symmetric] Skolem_list_nth by (auto simp: Skolem_list_nth)
    also have "(\<forall>i < n. \<exists>m. P i m) \<longleftrightarrow> (\<forall>i < n. broadcasts_to (b ! i # map (\<lambda>s. s ! i) (s # rest)) (out ! i))"
      by (simp add: P_def broadcasts_to_merge)
    finally show ?thesis using True by simp
  next
    case False
    then show ?thesis by (simp add: rank_def)
  qed
qed

text \<open>Broadcasting computes exactly the common shape: for a nonempty list of shapes,
  \<open>broadcast_many\<close> returns \<open>out\<close> when and only when all ranks agree and, in every dimension, each
  operand is one or the result, which is one of them unless all are one. The result therefore
  does not depend on the order of the operands, and each operand expands to it.\<close>

theorem broadcast_many_exact:
  assumes "shapes \<noteq> []"
  shows "(broadcast_many shapes = Ok out \<longleftrightarrow>
      (\<forall>s \<in> set shapes. rank s = rank out)
      \<and> (\<forall>i < rank out. broadcasts_to (map (\<lambda>s. s ! i) shapes) (out ! i)))
    \<and> (set shapes' = set shapes \<longrightarrow>
        (broadcast_many shapes' = Ok out \<longleftrightarrow> broadcast_many shapes = Ok out))"
proof -
  have exact: "broadcast_many ss = Ok out \<longleftrightarrow>
      (\<forall>s \<in> set ss. rank s = rank out)
      \<and> (\<forall>i < rank out. broadcasts_to (map (\<lambda>s. s ! i) ss) (out ! i))"
    if ne: "ss \<noteq> []" for ss
  proof -
    from ne obtain s rest where ss: "ss = s # rest" by (cases ss) auto
    have "broadcast_many ss = Ok out \<longleftrightarrow>
        length out = length s \<and> (\<forall>t \<in> set rest. length t = length s)
        \<and> (\<forall>i < length s. broadcasts_to (map (\<lambda>s. s ! i) ss) (out ! i))"
      by (simp add: ss rank_def broadcast_loop_Ok [OF refl]) blast
    then show ?thesis unfolding ss rank_def by (simp add: eq_commute [of "length out"] cong: conj_cong)
  qed
  have "broadcasts_to (map f ss) d \<longleftrightarrow> (\<forall>s \<in> set ss. f s = 1 \<or> f s = d) \<and> (d = 1 \<or> d \<in> f ` set ss)"
    for f :: "shape \<Rightarrow> nat" and ss d
    by (auto simp: broadcasts_to_def)
  moreover have "set shapes' = set shapes \<Longrightarrow> shapes' \<noteq> []" using assms by auto
  ultimately show ?thesis using exact assms by simp
qed

theorem broadcast_many_exact_witness:
  "broadcast_many [[1, 3], [4, 1], [1, 1]] = Ok [4, 3]
   \<and> broadcast_many [[1, 1], [1, 3], [4, 1]] = Ok [4, 3]"
  using broadcast_many_exact [of "[[1, 3], [4, 1], [1, 1]]" "[4, 3]" "[[1, 1], [1, 3], [4, 1]]"]
  by (auto simp: broadcasts_to_def rank_def less_Suc_eq)

section \<open>Concatenation\<close>

lemma same_but_dim:
  assumes "length s = length sh" "take k s = take k sh" "drop (k + 1) s = drop (k + 1) sh" "k < length sh"
  shows "s = sh[k := s ! k]"
  using assms by (metis Suc_eq_plus1 id_take_nth_drop upd_conv_take_nth_drop)

lemma cat_loop_Ok:
  "dim < length sh \<Longrightarrow> cat_loop dim sh rest = Ok out \<Longrightarrow>
    out = sh[dim := sh ! dim + sum_list (map (\<lambda>s. s ! dim) rest)]
    \<and> (\<forall>s \<in> set rest. s = sh[dim := s ! dim])"
proof (induction rest arbitrary: sh)
  case Nil
  then show ?case by simp
next
  case (Cons s rest)
  then have *: "cat_loop dim (sh[dim := sh ! dim + s ! dim]) rest = Ok out"
    "length s = length sh" "take dim s = take dim sh" "drop (dim + 1) s = drop (dim + 1) sh"
    by (auto simp: rank_def split: if_splits)
  from Cons.IH [OF _ *(1)] Cons.prems(1) same_but_dim [OF *(2-4)] show ?case
    by (auto simp: algebra_simps)
qed

lemma prod_list_update:
  fixes xs :: "nat list"
  shows "k < length xs \<Longrightarrow> prod_list (xs[k := d]) = d * prod_list (xs[k := 1])"
  by (induction xs arbitrary: k) (auto split: nat.splits simp: less_Suc_eq_0_disj)

text \<open>Concatenation adds up one dimension and the elements: when \<open>cat\<close> succeeds, every operand
  equals the result outside the dimension of concatenation, the result's dimension is the sum of
  theirs, and the result has as many elements as the operands together.\<close>

theorem cat_adds_elements:
  assumes "cat shapes dim = Ok out"
  shows "dim < rank out
    \<and> out ! dim = sum_list (map (\<lambda>s. s ! dim) shapes)
    \<and> (\<forall>s \<in> set shapes. s = out[dim := s ! dim])
    \<and> num_elements out = sum_list (map num_elements shapes)"
proof -
  from assms obtain first rest where shapes: "shapes = first # rest" "dim < length first"
    "cat_loop dim first rest = Ok out"
    by (cases shapes) (auto simp: rank_def not_le split: if_splits)
  from cat_loop_Ok [OF shapes(2,3)] have
    out: "out = first[dim := sum_list (map (\<lambda>s. s ! dim) shapes)]"
    and same: "\<forall>s \<in> set rest. s = first[dim := s ! dim]" by (auto simp: shapes(1))
  have len: "dim < length out" using out shapes(2) by simp
  have all: "s = out[dim := s ! dim]" if "s \<in> set shapes" for s
    using that out same shapes(1) by (metis list_update_id list_update_overwrite set_ConsD)
  have "num_elements s = s ! dim * prod_list (out[dim := 1])" if "s \<in> set shapes" for s
    using prod_list_update [OF len, of "s ! dim"] all [OF that] by (simp add: num_elements_def)
  then have "sum_list (map num_elements shapes) = sum_list (map (\<lambda>s. s ! dim * prod_list (out[dim := 1])) shapes)"
    by (intro arg_cong [of _ _ sum_list] map_cong) auto
  also have "\<dots> = out ! dim * prod_list (out[dim := 1])"
    using out shapes(2) by (simp add: sum_list_mult_const)
  also have "\<dots> = num_elements out"
    using prod_list_update [OF len, of "out ! dim"] by (simp add: num_elements_def)
  finally show ?thesis using all len out shapes(2) by (simp add: rank_def)
qed

theorem cat_adds_elements_witness:
  "cat [[2, 3], [4, 3], [1, 3]] 0 = Ok [7, 3] \<and> num_elements [7, 3] = 6 + 12 + 3"
proof -
  have ok: "cat [[2, 3], [4, 3], [1, 3]] 0 = Ok [7, 3]" by code_simp
  from cat_adds_elements [OF ok] ok show ?thesis by (simp add: num_elements_def)
qed

section \<open>Expansion and matrix multiplication\<close>

lemma expand_loop_Ok:
  "expand_loop n i ps = Ok () \<longleftrightarrow> (\<forall>(t, d) \<in> set ps. d = t \<or> d = 1)"
  by (induction n i ps rule: expand_loop.induct) auto

lemma expand_Ok:
  "expand s target = Ok out \<longleftrightarrow>
    out = target \<and> rank s \<le> rank target
    \<and> list_all2 (\<lambda>d t. d = t \<or> d = 1) s (drop (rank target - rank s) target)"
proof (cases "rank s \<le> rank target")
  case True
  then have "zip (rev target) (rev s) = zip (rev (drop (rank target - rank s) target)) (rev s)"
    by (auto simp: rank_def rev_drop list_eq_iff_nth_eq)
  also have "\<dots> = rev (zip (drop (rank target - rank s) target) s)"
    using True by (simp add: zip_rev rank_def)
  finally show ?thesis
    using True by (auto simp: expand_def expand_loop_Ok list_all2_iff rank_def set_zip)
next
  case False
  then show ?thesis by (simp add: expand_def)
qed

text \<open>Matrix multiplication types correctly: \<open>calculate_matmul_output\<close> succeeds exactly when
  the operands are \<open>batch @ [m, k]\<close> and \<open>batch' @ [k, n]\<close> with leading dimensions of one rank that
  broadcast to a common \<open>out\<close>, and the result is \<open>out @ [m, n]\<close>.\<close>

theorem matmul_output_exact:
  "calculate_matmul_output lhs rhs = Ok res \<longleftrightarrow>
    (\<exists>bl br out m k n. lhs = bl @ [m, k] \<and> rhs = br @ [k, n] \<and> res = out @ [m, n]
      \<and> rank bl = rank out \<and> rank br = rank out
      \<and> (\<forall>i < rank out. broadcasts_to [bl ! i, br ! i] (out ! i)))"
proof
  have bc: "broadcast a b = Ok out \<longleftrightarrow> rank a = rank out \<and> rank b = rank out
      \<and> (\<forall>i < rank out. broadcasts_to [a ! i, b ! i] (out ! i))" for a b out
    using broadcast_loop_Ok [OF refl, of a "[b]" out]
    by (auto simp: broadcast_def rank_def)
  have split2: "xs = take (length xs - 2) xs @ [xs ! (length xs - 2), xs ! (length xs - 1)]"
    if "2 \<le> length xs" for xs :: shape
  proof -
    have "drop (length xs - 2) xs = [xs ! (length xs - 2), xs ! (length xs - 1)]"
      using that by (auto simp: list_eq_iff_nth_eq less_Suc_eq numeral_2_eq_2)
    then show ?thesis by (metis append_take_drop_id)
  qed
  {
    assume ok: "calculate_matmul_output lhs rhs = Ok res"
    let ?n = "length lhs"
    from ok have n: "length rhs = ?n" "2 \<le> ?n" "lhs ! (?n - 1) = rhs ! (?n - 2)"
      by (auto simp: calculate_matmul_output_def Let_def rank_def split: if_splits)
    from ok n obtain out where
      out: "(if 2 < ?n then broadcast (take (?n - 2) lhs) (take (?n - 2) rhs) else Ok []) = Ok out"
      "res = out @ [lhs ! (?n - 2), rhs ! (?n - 1)]"
      by (auto simp: calculate_matmul_output_def Let_def rank_def split: if_splits)
    have "rank (take (?n - 2) lhs) = rank out \<and> rank (take (?n - 2) rhs) = rank out
      \<and> (\<forall>i < rank out. broadcasts_to [take (?n - 2) lhs ! i, take (?n - 2) rhs ! i] (out ! i))"
      using out(1) n by (cases "2 < ?n") (auto simp: bc rank_def)
    then show "\<exists>bl br out m k n. lhs = bl @ [m, k] \<and> rhs = br @ [k, n] \<and> res = out @ [m, n]
      \<and> rank bl = rank out \<and> rank br = rank out
      \<and> (\<forall>i < rank out. broadcasts_to [bl ! i, br ! i] (out ! i))"
      using split2 [of lhs] split2 [of rhs] n out(2) by metis
  next
    assume "\<exists>bl br out m k n. lhs = bl @ [m, k] \<and> rhs = br @ [k, n] \<and> res = out @ [m, n]
      \<and> rank bl = rank out \<and> rank br = rank out
      \<and> (\<forall>i < rank out. broadcasts_to [bl ! i, br ! i] (out ! i))"
    then obtain bl br out m k n where ops: "lhs = bl @ [m, k]" "rhs = br @ [k, n]" "res = out @ [m, n]"
      and b: "broadcast bl br = Ok out" and len: "length bl = length out" "length br = length out"
      by (auto simp: bc rank_def)
    have parts: "rank lhs = length out + 2" "rank rhs = length out + 2"
      "take (length out) lhs = bl" "take (length out) rhs = br"
      "lhs ! length out = m" "lhs ! (length out + 1) = k" "rhs ! length out = k" "rhs ! (length out + 1) = n"
      using len by (simp_all add: ops rank_def nth_append)
    show "calculate_matmul_output lhs rhs = Ok res"
    proof (cases "out = []")
      case True
      with len ops show ?thesis by (simp add: calculate_matmul_output_def rank_def)
    next
      case False
      with b show ?thesis by (simp add: calculate_matmul_output_def parts [simplified] ops(3))
    qed
  }
qed

theorem matmul_output_exact_witness:
  "calculate_matmul_output [1, 3, 4] [7, 4, 5] = Ok [7, 3, 5]"
  unfolding matmul_output_exact
  by (rule exI [of _ "[1]"], rule exI [of _ "[7]"], rule exI [of _ "[7]"], rule exI [of _ 3],
      rule exI [of _ 4], rule exI [of _ 5]) (simp add: rank_def broadcasts_to_def)

section \<open>Rearrangements\<close>

lemma permute_axes:
  assumes "length axes = n" "distinct axes" "list_all (\<lambda>i. i < n) axes"
  shows "set axes = {..<n}"
proof -
  have "set axes \<subseteq> {..<n}" using assms(3) by (auto simp: list_all_iff)
  moreover have "card (set axes) = card {..<n}" using assms(1,2) by (simp add: distinct_card)
  ultimately show ?thesis by (intro card_subset_eq) simp_all
qed

lemma permute_distinct:
  assumes "length axes = length s" "distinct axes" "list_all (\<lambda>i. i < length s) axes"
  shows "mset (map (\<lambda>i. s ! i) axes) = mset s"
proof -
  have "set axes = set [0..<length s]"
    using permute_axes [OF assms] by (simp add: atLeast0LessThan)
  then have "mset axes = mset [0..<length s]"
    using assms(2) set_eq_iff_mset_eq_distinct [of axes "[0..<length s]"] by simp
  then have "mset (map (\<lambda>i. s ! i) axes) = mset (map (\<lambda>i. s ! i) [0..<length s])"
    by (metis mset_map)
  then show ?thesis by (simp add: map_nth)
qed

lemma flatten_dims_Ok:
  assumes "flatten_dims s a b = Ok out"
  shows "\<exists>start stop. start \<le> stop \<and> stop < rank s \<and>
    out = take start s @ prod_list (take (Suc stop - start) (drop start s)) # drop (Suc stop) s"
proof -
  from assms obtain start stop where
    st: "expect_dim a (rank s) = Ok start" "expect_dim b (rank s) = Ok stop" "start \<le> stop"
    and out: "out = take (start + 1) ((take start s @ drop start (replicate (rank s - (stop - start)) 0))
        [start := prod_list (take (Suc stop - start) (drop start s))]) @ drop (stop + 1) s"
    by (auto simp: flatten_dims_def Let_def split: outcome.splits if_splits)
  have lt: "stop < rank s"
    using st(2) by (auto simp: expect_dim_def iw_expect_wrap_def expect_wrap_def iw_dim_def
        try_wrap_def Let_def split: outcome.splits if_splits)
  then have "length (take start s) = start" "start < rank s" using st(3) by (auto simp: rank_def)
  then have "take (start + 1) ((take start s @ drop start (replicate (rank s - (stop - start)) 0))
        [start := x]) = take start s @ [x]" for x
    using lt st(3) by (simp add: list_update_append take_Suc_conv_app_nth nth_append)
  with out lt st(3) show ?thesis by auto
qed

text \<open>Rearranging operations keep the elements: \<open>flatten\<close>, \<open>flatten_dims\<close> over any accepted
  range, \<open>swapped\<close> and \<open>permute\<close> with distinct axes return a shape with the number of elements of
  the source, and \<open>swapped\<close> twice gives the source back.\<close>

theorem rearrangements_keep_elements:
  "num_elements (flatten s) = num_elements s
   \<and> (\<forall>a b out. flatten_dims s a b = Ok out \<longrightarrow> num_elements out = num_elements s)
   \<and> (\<forall>i j out. swapped s i j = Ok out \<longrightarrow>
        num_elements out = num_elements s \<and> swapped out i j = Ok s)
   \<and> (\<forall>axes out. distinct axes \<and> permute s axes = Ok out \<longrightarrow> num_elements out = num_elements s)"
proof (intro conjI allI impI)
  show "num_elements (flatten s) = num_elements s" by (simp add: flatten_def num_elements_def)
next
  fix a b out assume "flatten_dims s a b = Ok out"
  then obtain start stop where o: "start \<le> stop" "stop < rank s"
    "out = take start s @ prod_list (take (Suc stop - start) (drop start s)) # drop (Suc stop) s"
    using flatten_dims_Ok by blast
  have "s = take start s @ take (Suc stop - start) (drop start s) @ drop (Suc stop - start) (drop start s)"
    by (metis append_take_drop_id)
  also have "drop (Suc stop - start) (drop start s) = drop (Suc stop) s" using o(1) by simp
  finally have s: "s = take start s @ take (Suc stop - start) (drop start s) @ drop (Suc stop) s" .
  from arg_cong [OF s, of prod_list] show "num_elements out = num_elements s"
    unfolding num_elements_def o(3) by simp
next
  fix i j out assume "swapped s i j = Ok out"
  then have ij: "i < length s" "j < length s" "out = swap_elems i j s"
    by (auto simp: swapped_def rank_def not_le split: if_splits)
  have "mset (swap_elems i j s) = mset s"
    unfolding swap_elems_def using ij(1,2) by (simp add: mset_swap)
  then show "num_elements out = num_elements s"
    using ij(3) by (metis num_elements_def prod_mset_prod_list)
  show "swapped out i j = Ok s"
    using ij by (auto simp: swapped_def rank_def swap_elems_def list_eq_iff_nth_eq nth_list_update)
next
  fix axes out assume "distinct axes \<and> permute s axes = Ok out"
  then have "mset out = mset s"
    using permute_distinct [of axes s] by (auto simp: permute_def rank_def split: if_splits)
  then show "num_elements out = num_elements s"
    by (metis num_elements_def prod_mset_prod_list)
qed

theorem rearrangements_keep_elements_witness:
  "flatten_dims [2, 3, 4] 1 (- 1) = Ok [2, 12] \<and> num_elements [2, 12] = num_elements [2, 3, 4]
   \<and> permute [2, 3, 4] [2, 0, 1] = Ok [4, 2, 3] \<and> num_elements [4, 2, 3] = num_elements [2, 3, 4]"
proof -
  have ok: "flatten_dims [2, 3, 4] 1 (- 1) = Ok [2, 12]" "permute [2, 3, 4] [2, 0, 1] = Ok [4, 2, 3]"
    by code_simp+
  moreover have "distinct [2, 0, 1::nat]" by simp
  ultimately show ?thesis using rearrangements_keep_elements [of "[2, 3, 4]"] by blast
qed

section \<open>Round trip through text\<close>

lemma digit_char:
  fixes d :: nat
  assumes "d < 10"
  shows "digit_value (char_of (48 + d)) = Some d" "\<not> is_space (char_of (48 + d))"
    "char_of (48 + d) \<noteq> CHR ''+''" "char_of (48 + d) \<noteq> CHR '',''"
proof -
  have code: "of_char (char_of (48 + d)) = 48 + d" using assms by simp
  with assms show "digit_value (char_of (48 + d)) = Some d" by (simp add: digit_value_def)
  have other: "char_of (48 + d) \<noteq> c" if "of_char c < (48::nat)" for c
    using that code by auto
  show "\<not> is_space (char_of (48 + d))" by (auto simp: is_space_def other)
  show "char_of (48 + d) \<noteq> CHR ''+''" "char_of (48 + d) \<noteq> CHR '',''" by (simp_all add: other)
qed

lemma decimal_ne [simp]: "decimal n \<noteq> []"
  by (subst decimal.simps) simp

lemma decimal_chars: "c \<in> set (decimal n) \<Longrightarrow> \<exists>d < 10 :: nat. c = char_of (48 + d)"
proof (induction n rule: decimal.induct)
  case (1 n)
  consider (small) "n < 10" "c = char_of (48 + n)" | (high) "\<not> n < 10" "c \<in> set (decimal (n div 10))"
    | (low) "c = char_of (48 + n mod 10)"
    using 1(2) decimal.simps [of n] by (auto split: if_splits)
  then show ?case
  proof cases
    case low
    then show ?thesis by (intro exI [of _ "n mod 10"]) simp
  qed (use 1(1) in auto)
qed

lemma parse_digits_append:
  "parse_digits acc (xs @ ys) = Option.bind (parse_digits acc xs) (\<lambda>a. parse_digits a ys)"
  by (induction acc xs rule: parse_digits.induct) (auto split: option.split)

lemma parse_digits_decimal: "n < 2 ^ 64 \<Longrightarrow> parse_digits 0 (decimal n) = Some n"
proof (induction n rule: decimal.induct)
  case (1 n)
  show ?case
  proof (cases "n < 10")
    case True
    with 1 show ?thesis by (subst decimal.simps) (simp add: digit_char)
  next
    case False
    with 1 have "parse_digits 0 (decimal (n div 10)) = Some (n div 10)" by simp
    moreover have "n div 10 * 10 + n mod 10 = n" by simp
    ultimately show ?thesis using False 1(2)
      by (subst decimal.simps) (simp add: parse_digits_append digit_char)
  qed
qed

lemma parse_usize_decimal: "n < 2 ^ 64 \<Longrightarrow> parse_usize (decimal n) = Some n"
proof -
  assume n: "n < 2 ^ 64"
  obtain c cs where c: "decimal n = c # cs" by (cases "decimal n") auto
  with decimal_chars [of c n] digit_char have "c \<noteq> CHR ''+''" by auto
  with c parse_digits_decimal [OF n] show ?thesis by (simp add: parse_usize_def)
qed

lemma trim_id: "s \<noteq> [] \<Longrightarrow> \<not> is_space (hd s) \<Longrightarrow> \<not> is_space (last s) \<Longrightarrow> trim s = s"
  using dropWhile_eq_self_iff [of is_space s] dropWhile_eq_self_iff [of is_space "rev s"]
  by (simp add: trim_def hd_rev)

lemma trim_space: "is_space c \<Longrightarrow> trim (c # s) = trim s"
  by (simp add: trim_def)

lemma decimal_no_space: "c \<in> set (decimal n) \<Longrightarrow> \<not> is_space c" "c \<in> set (decimal n) \<Longrightarrow> c \<noteq> CHR '',''"
  using decimal_chars [of c n] digit_char by auto

lemma trim_decimal [simp]: "trim (decimal n) = decimal n"
  by (rule trim_id) (simp_all add: decimal_no_space(1) [of _ n])

lemma split_on_ne: "split_on c s \<noteq> []"
  by (induction s) (auto split: list.splits)

lemma split_on_append:
  "c \<notin> set p \<Longrightarrow> split_on c (p @ c # s) = p # split_on c s"
  by (induction p) auto

lemma split_on_single: "c \<notin> set p \<Longrightarrow> split_on c p = [p]"
  by (induction p) auto

lemma parse_join:
  "list_all (\<lambda>d. d < 2 ^ 64) (d # ds) \<Longrightarrow>
    parse_all (split_on (CHR '','') (join '', '' (map decimal (d # ds)))) = Some (d # ds)
    \<and> parse_all (split_on (CHR '','') (CHR '' '' # join '', '' (map decimal (d # ds)))) = Some (d # ds)"
proof (induction ds arbitrary: d)
  case Nil
  then have "CHR '','' \<notin> set (decimal d)" using decimal_no_space by blast
  with Nil show ?case
    by (simp add: split_on_single parse_usize_decimal trim_space is_space_def)
next
  case (Cons e ds)
  have nc: "CHR '','' \<notin> set (decimal d)" "CHR '','' \<notin> set (CHR '' '' # decimal d)"
    using decimal_no_space by auto
  have "parse_all (split_on (CHR '','') (CHR '' '' # join '', '' (map decimal (e # ds)))) = Some (e # ds)"
    using Cons by simp
  then show ?case
    using Cons.prems split_on_append [OF nc(1)] split_on_append [OF nc(2)]
    by (simp add: parse_usize_decimal trim_space is_space_def del: split_on.simps)
qed

lemma join_ends:
  "hd (join '', '' (map decimal (d # ds))) \<in> set (decimal d)
   \<and> (\<exists>e. last (join '', '' (map decimal (d # ds))) \<in> set (decimal e))
   \<and> join '', '' (map decimal (d # ds)) \<noteq> []"
proof (induction ds arbitrary: d)
  case Nil
  show ?case by (auto intro: exI [of _ d])
next
  case (Cons e ds)
  then show ?case by (auto simp: hd_append)
qed

text \<open>C39: Printing a shape and parsing the text gives the shape back, for every shape whose
  dimensions fit a \<open>usize\<close>.\<close>

theorem from_str_display:
  assumes "list_all (\<lambda>d. d < 2 ^ 64) s"
  shows "from_str (display s) = Ok s"
proof -
  let ?body = "join '', '' (map decimal s)"
  have "trim (display s) = display s"
    by (rule trim_id) (auto simp: display_def is_space_def)
  moreover have "trim ?body = ?body \<and> (s \<noteq> [] \<longrightarrow> ?body \<noteq> [])"
  proof (cases s)
    case Nil
    then show ?thesis by (simp add: trim_def)
  next
    case (Cons d ds)
    with join_ends [of d ds] show ?thesis
      by (auto intro!: trim_id dest: decimal_no_space(1))
  qed
  moreover have "s = d # ds \<Longrightarrow> parse_all (split_on (CHR '','') ?body) = Some s" for d ds
    using assms parse_join [of d ds] by simp
  ultimately show ?thesis
    by (cases s) (auto simp: from_str_def display_def)
qed

theorem from_str_display_witness:
  "from_str (display [2, 30, 400]) = Ok [2, 30, 400]"
  by (rule from_str_display) simp

end
