(* ===== verification/Zspace_Metadata.thy ===== *)
theory Zspace_Metadata
  imports Zspace_Shape
begin

unbundle bit_operations_syntax

text \<open>
  Storage tilings (\<open>tiling.rs\<close>), the strides operations (\<open>strides.rs\<close>) and \<open>Metadata\<close>
  (\<open>metadata.rs\<close>) of \<open>cubecl-zspace\<close>: a shape, its strides and the tiling that says how many
  fragments each logical dimension is stored as.

  A tiling is the \<open>u16\<close> of the source, two bits per logical dimension. A shift by the width of
  the word or more is an overflow and modelled as \<open>Panic\<close>, as are the \<open>debug_assert!\<close>s: the model
  is that of a build with overflow and debug checks on.
\<close>

section \<open>Tilings\<close>

type_synonym tiling = "16 word"

definition max_logical_dims :: nat where
  "max_logical_dims = 8"

definition max_fragments :: nat where
  "max_fragments = 4"

definition untiled :: tiling where
  "untiled = 0"

text \<open>\<open>Tiling::new\<close>; the two rules are the ones its messages name.\<close>

definition tiling_field :: "nat \<times> nat \<Rightarrow> tiling" where
  "tiling_field = (\<lambda>(dim, count). push_bit (2 * dim) (of_nat (count - 1)))"

definition tiling_new :: "nat list \<Rightarrow> tiling shape_result" where
  "tiling_new fragments =
    (if \<not> length fragments \<le> max_logical_dims
     then Err (Invalid (Reason ''at most 8 logical dims''))
     else if \<not> list_all (\<lambda>f. 1 \<le> f \<and> f \<le> max_fragments) fragments
     then Err (Invalid (Reason ''1 to 4 fragments a dim''))
     else Ok (sum_list (map tiling_field (enumerate 0 fragments))))"

definition levels :: "tiling \<Rightarrow> nat \<Rightarrow> nat shape_result" where
  "levels t dim = (if 16 \<le> 2 * dim then Panic else Ok (unat (drop_bit (2 * dim) t AND 3)))"

fun collect_levels :: "tiling \<Rightarrow> nat list \<Rightarrow> nat list shape_result" where
  "collect_levels t [] = Ok []"
| "collect_levels t (d # ds) =
    try_then (levels t d) (\<lambda>n. try_then (collect_levels t ds) (\<lambda>ns. Ok (n # ns)))"

definition fragments :: "tiling \<Rightarrow> nat \<Rightarrow> nat list shape_result" where
  "fragments t logical_rank =
    try_then (collect_levels t [0..<logical_rank]) (\<lambda>ls. Ok (map (\<lambda>n. n + 1) ls))"

definition logical_rank :: "tiling \<Rightarrow> nat \<Rightarrow> nat shape_result" where
  "logical_rank t r =
    try_then (collect_levels t [0..<max_logical_dims]) (\<lambda>ls.
      case checked_sub r (sum_list ls) of
        None \<Rightarrow> Err (Invalid (Reason ''does not fit the rank''))
      | Some logical \<Rightarrow>
          try_then (fragments t logical) (\<lambda>fs.
            if tiling_new fs = Ok t then Ok logical
            else Err (Invalid (Reason ''does not fit the rank''))))"

definition is_tiled :: "tiling \<Rightarrow> bool" where
  "is_tiled t \<longleftrightarrow> t \<noteq> 0"

section \<open>Metadata\<close>

record metadata =
  m_shape :: shape
  m_strides :: "nat list"
  m_tiling :: tiling

definition metadata_new :: "shape \<Rightarrow> nat list \<Rightarrow> metadata shape_result" where
  "metadata_new sh st =
    (if rank sh \<noteq> length st then Panic
     else Ok \<lparr>m_shape = sh, m_strides = st, m_tiling = untiled\<rparr>)"

definition with_tiling :: "tiling \<Rightarrow> metadata \<Rightarrow> metadata shape_result" where
  "with_tiling t m = try_then (logical_rank t (rank (m_shape m))) (\<lambda>_. Ok (m\<lparr>m_tiling := t\<rparr>))"

definition meta_logical_rank :: "metadata \<Rightarrow> nat shape_result" where
  "meta_logical_rank m = logical_rank (m_tiling m) (rank (m_shape m))"

text \<open>One step of the nested loop of \<open>logical_shape\<close>: the extents so far and the next physical
  dimension.\<close>

definition extent_step ::
  "nat list \<Rightarrow> nat \<times> nat \<times> nat \<Rightarrow> nat list \<times> nat \<Rightarrow> (nat list \<times> nat) shape_result" where
  "extent_step ds = (\<lambda>(level, dim, count) (extents, physical).
    if level < count then
      (if physical < length ds
       then Ok (extents[dim := extents ! dim * ds ! physical], physical + 1) else Panic)
    else Ok (extents, physical))"

definition logical_shape :: "metadata \<Rightarrow> shape shape_result" where
  "logical_shape m =
    try_then (meta_logical_rank m) (\<lambda>n.
      try_then (fragments (m_tiling m) n) (\<lambda>fs.
        try_then (fold_try (extent_step (m_shape m))
            (List.product [0..<max_fragments] (enumerate 0 fs)) (replicate (length fs) 1, 0))
          (\<lambda>(extents, physical). Ok extents)))"

definition assert_untiled :: "metadata \<Rightarrow> unit shape_result" where
  "assert_untiled m = (if is_tiled (m_tiling m) then Panic else Ok ())"

definition meta_swap :: "nat \<Rightarrow> nat \<Rightarrow> metadata \<Rightarrow> metadata shape_result" where
  "meta_swap dim0 dim1 m =
    try_then (assert_untiled m) (\<lambda>_.
      if dim0 < rank (m_shape m) \<and> dim1 < rank (m_shape m)
         \<and> dim0 < length (m_strides m) \<and> dim1 < length (m_strides m)
      then Ok (m\<lparr>m_shape := swap_elems dim0 dim1 (m_shape m),
                 m_strides := swap_elems dim0 dim1 (m_strides m)\<rparr>)
      else Panic)"

text \<open>\<open>Strides::permute\<close> is the same code as \<open>Shape::permute\<close> on the strides.\<close>

definition strides_permute :: "nat list \<Rightarrow> nat list \<Rightarrow> nat list shape_result" where
  "strides_permute st axes =
    (if length axes \<noteq> length st then Err (RankMismatch (length st) (length axes))
     else if list_all (\<lambda>i. i < length st) axes then Ok (map (\<lambda>i. st ! i) axes)
     else Panic)"

text \<open>An error of the strides would leave the shape permuted; it needs ranks that disagree, which
  no operation produces (\<open>metadata_invariant\<close>), and the model returns the error alone.\<close>

definition meta_permute :: "nat list \<Rightarrow> metadata \<Rightarrow> metadata shape_result" where
  "meta_permute axes m =
    try_then (assert_untiled m) (\<lambda>_.
      try_then (permute (m_shape m) axes) (\<lambda>sh.
        try_then (strides_permute (m_strides m) axes) (\<lambda>st.
          Ok (m\<lparr>m_shape := sh, m_strides := st\<rparr>))))"

definition meta_insert :: "nat \<Rightarrow> nat \<Rightarrow> nat \<Rightarrow> metadata \<Rightarrow> metadata shape_result" where
  "meta_insert i sh st m =
    try_then (assert_untiled m) (\<lambda>_.
      if i \<le> length (m_shape m) \<and> i \<le> length (m_strides m)
      then Ok (m\<lparr>m_shape := insert_at i sh (m_shape m), m_strides := insert_at i st (m_strides m)\<rparr>)
      else Panic)"

definition meta_remove :: "nat \<Rightarrow> metadata \<Rightarrow> ((nat \<times> nat) \<times> metadata) shape_result" where
  "meta_remove i m =
    try_then (assert_untiled m) (\<lambda>_.
      if i < length (m_shape m) \<and> i < length (m_strides m)
      then Ok ((m_shape m ! i, m_strides m ! i),
               m\<lparr>m_shape := remove_at i (m_shape m), m_strides := remove_at i (m_strides m)\<rparr>)
      else Panic)"

definition meta_push :: "nat \<Rightarrow> nat \<Rightarrow> metadata \<Rightarrow> metadata shape_result" where
  "meta_push sh st m =
    try_then (assert_untiled m) (\<lambda>_.
      Ok (m\<lparr>m_shape := m_shape m @ [sh], m_strides := m_strides m @ [st]\<rparr>))"

section \<open>The code of a tiling\<close>

fun tiling_code :: "nat list \<Rightarrow> nat" where
  "tiling_code [] = 0"
| "tiling_code (f # fs) = (f - 1) + 4 * tiling_code fs"

lemma tiling_code_less:
  "list_all (\<lambda>f. 1 \<le> f \<and> f \<le> 4) fs \<Longrightarrow> tiling_code fs < 4 ^ length fs"
  by (induction fs) auto

lemma tiling_sum_code:
  "sum_list (map tiling_field (enumerate k fs)) = of_nat (4 ^ k * tiling_code fs)"
proof (induction fs arbitrary: k)
  case (Cons f fs)
  have "tiling_field (k, f) = of_nat (4 ^ k * (f - 1))"
    by (simp add: tiling_field_def push_bit_eq_mult power_mult)
  with Cons show ?case by (simp add: algebra_simps)
qed simp

lemma unat_tiling:
  assumes "tiling_new fs = Ok t"
  shows "unat t = tiling_code fs" "length fs \<le> 8" "list_all (\<lambda>f. 1 \<le> f \<and> f \<le> 4) fs"
proof -
  from assms show len: "length fs \<le> 8" and all: "list_all (\<lambda>f. 1 \<le> f \<and> f \<le> 4) fs"
    by (auto simp: tiling_new_def max_logical_dims_def max_fragments_def split: if_splits)
  have "tiling_code fs < 4 ^ 8"
    using tiling_code_less [OF all] len power_increasing [of "length fs" 8 "4::nat"] by simp
  moreover from assms have "t = of_nat (tiling_code fs)"
    by (auto simp: tiling_new_def tiling_sum_code split: if_splits)
  ultimately show "unat t = tiling_code fs"
    by (simp add: unat_of_nat take_bit_nat_eq_self)
qed

lemma levels_div: "dim < 8 \<Longrightarrow> levels t dim = Ok ((unat t div 4 ^ dim) mod 4)"
proof -
  have "drop_bit (2 * dim) t AND 3 = take_bit 2 (drop_bit (2 * dim) t)"
    by (simp add: take_bit_eq_mask mask_eq_exp_minus_1)
  moreover have "unat t < 2 ^ LENGTH(16)" by (rule unsigned_less)
  then have "take_bit 16 (unat t) = unat t" by (simp add: take_bit_nat_eq_self)
  ultimately have "unat (drop_bit (2 * dim) t AND 3) = take_bit 2 (drop_bit (2 * dim) (unat t))"
    by (simp add: unsigned_take_bit_eq unsigned_drop_bit_eq)
  also have "\<dots> = (unat t div 4 ^ dim) mod 4"
    by (simp add: take_bit_eq_mod drop_bit_eq_div power_mult)
  finally show "dim < 8 \<Longrightarrow> levels t dim = Ok ((unat t div 4 ^ dim) mod 4)"
    by (simp add: levels_def)
qed

lemma tiling_code_nth:
  "list_all (\<lambda>f. 1 \<le> f \<and> f \<le> 4) fs \<Longrightarrow>
    (tiling_code fs div 4 ^ i) mod 4 = (if i < length fs then fs ! i - 1 else 0)"
proof (induction fs arbitrary: i)
  case (Cons f fs)
  from Cons.prems obtain g where g: "f = Suc g" "g < 4" by (cases f) auto
  show ?case
  proof (cases i)
    case 0
    with Cons g show ?thesis by simp
  next
    case (Suc j)
    have "(f - 1 + 4 * tiling_code fs) div 4 ^ Suc j = (f - 1 + 4 * tiling_code fs) div 4 div 4 ^ j"
      by (simp add: div_mult2_eq)
    also have "(f - 1 + 4 * tiling_code fs) div 4 = tiling_code fs" using g by simp
    finally show ?thesis using Suc Cons by simp
  qed
qed simp

lemma collect_levels_Ok:
  "list_all (\<lambda>d. d < 8) ds \<Longrightarrow> collect_levels t ds = Ok (map (\<lambda>d. (unat t div 4 ^ d) mod 4) ds)"
  by (induction ds) (auto simp: levels_div)

lemma fragments_Ok:
  "n \<le> 8 \<Longrightarrow> fragments t n = Ok (map (\<lambda>d. (unat t div 4 ^ d) mod 4 + 1) [0..<n])"
proof -
  assume "n \<le> 8"
  then have "list_all (\<lambda>d. d < 8) [0..<n]" by (auto simp: list_all_iff)
  then show ?thesis by (simp add: fragments_def collect_levels_Ok)
qed

lemma sum_levels:
  assumes "list_all (\<lambda>f. 1 \<le> f \<and> f \<le> 4) fs" "length fs \<le> n"
  shows "(\<Sum>d\<leftarrow>[0..<n]. (tiling_code fs div 4 ^ d) mod 4) + length fs = sum_list fs"
proof -
  have "[0..<n] = [0..<length fs] @ [length fs..<n]"
    using assms(2) upt_add_eq_append [of 0 "length fs" "n - length fs"] by simp
  then have "(\<Sum>d\<leftarrow>[0..<n]. (tiling_code fs div 4 ^ d) mod 4)
      = (\<Sum>d\<leftarrow>[0..<length fs] @ [length fs..<n]. if d < length fs then fs ! d - 1 else 0)"
    using assms(1) by (simp add: tiling_code_nth)
  also have "\<dots> = (\<Sum>d\<leftarrow>[0..<length fs]. fs ! d - 1)"
  proof -
    have "map (\<lambda>d. if d < length fs then fs ! d - 1 else 0) [length fs..<n] = map (\<lambda>_. 0) [length fs..<n]"
      by (rule map_cong) auto
    moreover have "map (\<lambda>d. if d < length fs then fs ! d - 1 else 0) [0..<length fs] = map (\<lambda>d. fs ! d - 1) [0..<length fs]"
      by (rule map_cong) auto
    ultimately show ?thesis unfolding map_append sum_list_append by (simp del: map_eq_conv)
  qed
  also have "\<dots> = (\<Sum>f\<leftarrow>fs. f - 1)"
    by (rule arg_cong [of _ _ sum_list], rule nth_equalityI) auto
  also have "\<dots> + length fs = sum_list fs"
    using assms(1) by (induction fs) auto
  finally show ?thesis by simp
qed

lemma tiling_reads_back:
  assumes t: "tiling_new fs = Ok t"
  shows "fragments t (length fs) = Ok fs \<and> logical_rank t (sum_list fs) = Ok (length fs)"
proof
  note code = unat_tiling [OF t]
  have "map (\<lambda>d. (unat t div 4 ^ d) mod 4 + 1) [0..<length fs] = fs"
  proof (rule nth_equalityI)
    fix i assume "i < length (map (\<lambda>d. (unat t div 4 ^ d) mod 4 + 1) [0..<length fs])"
    then have "i < length fs" by simp
    moreover from this code(3) have "1 \<le> fs ! i" by (simp add: list_all_length)
    ultimately show "map (\<lambda>d. (unat t div 4 ^ d) mod 4 + 1) [0..<length fs] ! i = fs ! i"
      using tiling_code_nth [OF code(3), of i] by (simp add: code(1))
  qed simp
  with code(2) show fr: "fragments t (length fs) = Ok fs" by (simp add: fragments_Ok)
  have "list_all (\<lambda>d. d < 8) [0..<8]" by (auto simp: list_all_iff)
  from collect_levels_Ok [OF this, of t]
  have "collect_levels t [0..<8] = Ok (map (\<lambda>d. (tiling_code fs div 4 ^ d) mod 4) [0..<8])"
    unfolding code(1) .
  moreover have "checked_sub (sum_list fs) (\<Sum>d\<leftarrow>[0..<8]. (tiling_code fs div 4 ^ d) mod 4) = Some (length fs)"
    unfolding checked_sub_def sum_levels [OF code(3,2), symmetric] by simp
  ultimately show "logical_rank t (sum_list fs) = Ok (length fs)"
    using t fr unfolding logical_rank_def max_logical_dims_def by (simp del: upt_rec_numeral)
qed

text \<open>Tilings round trip: a list of at most eight counts between one and four encodes into a
  \<open>u16\<close>, any other list is refused, reading the fragments of the tiling gives the counts back, and
  a buffer with one physical dimension per fragment has as many logical dimensions as the list.\<close>

theorem tiling_roundtrip:
  "is_ok (tiling_new fs) = (length fs \<le> 8 \<and> (\<forall>f \<in> set fs. 1 \<le> f \<and> f \<le> 4))
   \<and> (\<forall>t. tiling_new fs = Ok t \<longrightarrow>
        fragments t (length fs) = Ok fs \<and> logical_rank t (sum_list fs) = Ok (length fs))"
  using tiling_reads_back [of fs]
  by (auto simp: tiling_new_def list_all_iff max_logical_dims_def max_fragments_def)

theorem tiling_roundtrip_witness:
  "fragments 0x14 3 = Ok [1, 2, 2] \<and> logical_rank 0x14 5 = Ok 3 \<and> \<not> is_ok (tiling_new [5])"
proof -
  have t: "tiling_new [1, 2, 2] = Ok 0x14" by code_simp
  from tiling_roundtrip [of "[1, 2, 2]"] t have "fragments 0x14 (length [1, 2, 2::nat]) = Ok [1, 2, 2]"
    "logical_rank 0x14 (sum_list [1, 2, 2]) = Ok (length [1, 2, 2::nat])" by blast+
  moreover from tiling_roundtrip [of "[5]"] have "\<not> is_ok (tiling_new [5])" by simp
  ultimately show ?thesis by (simp add: numeral_eq_Suc)
qed

section \<open>The logical shape\<close>

text \<open>The logical dimension each physical one belongs to, level by level, coarsest first.\<close>

definition labels_of :: "(nat \<times> nat \<times> nat) list \<Rightarrow> nat list" where
  "labels_of steps = map (\<lambda>(l, d, c). d) (filter (\<lambda>(l, d, c). l < c) steps)"

definition level_major :: "nat list \<Rightarrow> nat list" where
  "level_major fs = labels_of (List.product [0..<max_fragments] (enumerate 0 fs))"

definition fragments_product :: "nat list \<Rightarrow> nat list \<Rightarrow> nat \<Rightarrow> nat" where
  "fragments_product ls ds d = prod_list (map snd (filter (\<lambda>p. fst p = d) (zip ls ds)))"

lemma labels_of_simps [simp]:
  "labels_of [] = []"
  "labels_of ((l, d, c) # steps) = (if l < c then d # labels_of steps else labels_of steps)"
  "labels_of (xs @ ys) = labels_of xs @ labels_of ys"
  by (auto simp: labels_of_def)

lemma fragments_product_simps [simp]:
  "fragments_product [] ds d = 1"
  "fragments_product (l # ls) (x # ds) d = (if l = d then x * fragments_product ls ds d else fragments_product ls ds d)"
  by (auto simp: fragments_product_def)

lemma extent_fold:
  assumes "p + length (labels_of steps) \<le> length ds" "\<forall>l \<in> set (labels_of steps). l < length ext"
  shows "\<exists>ext'. fold_try (extent_step ds) steps (ext, p) = Ok (ext', p + length (labels_of steps))
    \<and> length ext' = length ext
    \<and> (\<forall>d < length ext. ext' ! d = ext ! d * fragments_product (labels_of steps) (drop p ds) d)"
  using assms
proof (induction steps arbitrary: ext p)
  case Nil
  then show ?case by simp
next
  case (Cons step steps)
  obtain l d c where step: "step = (l, d, c)" by (cases step)
  show ?case
  proof (cases "l < c")
    case True
    with Cons.prems step have p: "p < length ds" "d < length ext" by auto
    let ?e = "ext[d := ext ! d * ds ! p]"
    have dr: "drop p ds = ds ! p # drop (Suc p) ds" using p(1) by (simp add: Cons_nth_drop_Suc)
    from Cons.IH [of "Suc p" ?e] Cons.prems True step obtain ext' where
      "fold_try (extent_step ds) steps (?e, Suc p) = Ok (ext', Suc p + length (labels_of steps))"
      "length ext' = length ext"
      "\<forall>k < length ext. ext' ! k = ?e ! k * fragments_product (labels_of steps) (drop (Suc p) ds) k"
      by auto
    with p True show ?thesis
      by (auto simp: step extent_step_def dr nth_list_update mult.assoc)
  next
    case False
    with Cons step show ?thesis by (simp add: extent_step_def)
  qed
qed

lemma prod_fragments:
  "length ls = length ds \<Longrightarrow> \<forall>l \<in> set ls. l < n \<Longrightarrow>
    prod_list (map (fragments_product ls ds) [0..<n]) = prod_list ds"
proof (induction ls ds rule: list_induct2)
  case Nil
  then show ?case by (induction n) auto
next
  case (Cons l ls x ds)
  have upd: "map (fragments_product (l # ls) (x # ds)) [0..<n]
      = (map (fragments_product ls ds) [0..<n])[l := x * fragments_product ls ds l]"
    using Cons.prems by (auto simp: list_eq_iff_nth_eq nth_list_update)
  have len: "l < length (map (fragments_product ls ds) [0..<n])" using Cons.prems by simp
  have "prod_list (map (fragments_product (l # ls) (x # ds)) [0..<n])
      = x * (fragments_product ls ds l * prod_list ((map (fragments_product ls ds) [0..<n])[l := 1]))"
    unfolding upd prod_list_update [OF len, of "x * _"] by (simp add: mult.assoc)
  also have "\<dots> = x * prod_list (map (fragments_product ls ds) [0..<n])"
  proof -
    have "(map (fragments_product ls ds) [0..<n])[l := fragments_product ls ds l]
        = map (fragments_product ls ds) [0..<n]"
      using len list_update_id [of "map (fragments_product ls ds) [0..<n]" l] by simp
    then show ?thesis using prod_list_update [OF len, of "fragments_product ls ds l"] by simp
  qed
  also have "\<dots> = prod_list (x # ds)" using Cons by simp
  finally show ?case .
qed

lemma level_major_less: "l \<in> set (level_major fs) \<Longrightarrow> l < length fs"
  by (auto simp: level_major_def labels_of_def in_set_enumerate_eq)

lemma length_level_major:
  assumes "list_all (\<lambda>f. 1 \<le> f \<and> f \<le> 4) fs"
  shows "length (level_major fs) = sum_list fs"
proof -
  have count: "length (labels_of (map (Pair l) (enumerate k fs))) = length (filter (\<lambda>c. l < c) fs)" for l k
    by (induction fs arbitrary: k) auto
  have "[0..<max_fragments] = [0, 1, 2, 3]" by (simp add: max_fragments_def upt_rec)
  then have "length (level_major fs) = (\<Sum>l\<leftarrow>[0, 1, 2, 3]. length (filter (\<lambda>c. l < c) fs))"
    by (simp add: level_major_def count)
  also have "\<dots> = sum_list fs"
    using assms by (induction fs) auto
  finally show ?thesis .
qed

lemma logical_shape_shown:
  assumes "tiling_new fs = Ok (m_tiling m)" "rank (m_shape m) = sum_list fs"
  shows "logical_shape m = Ok (map (fragments_product (level_major fs) (m_shape m)) [0..<length fs])
    \<and> num_elements (map (fragments_product (level_major fs) (m_shape m)) [0..<length fs])
      = num_elements (m_shape m)"
proof
  note code = unat_tiling [OF assms(1)]
  have len: "length (level_major fs) = length (m_shape m)"
    using length_level_major [OF code(3)] assms(2) by (simp add: rank_def)
  have fr: "fragments (m_tiling m) (length fs) = Ok fs"
    and lr: "logical_rank (m_tiling m) (sum_list fs) = Ok (length fs)"
    using tiling_reads_back [OF assms(1)] by auto
  let ?steps = "List.product [0..<max_fragments] (enumerate 0 fs)"
  have "0 + length (labels_of ?steps) \<le> length (m_shape m)"
    "\<forall>l \<in> set (labels_of ?steps). l < length (replicate (length fs) 1)"
    using len level_major_less [of _ fs] unfolding level_major_def by auto
  from extent_fold [OF this]
  obtain ext where ext: "fold_try (extent_step (m_shape m)) ?steps (replicate (length fs) 1, 0)
      = Ok (ext, 0 + length (labels_of ?steps))" "length ext = length fs"
    "\<forall>d < length fs. ext ! d = fragments_product (level_major fs) (m_shape m) d"
    unfolding level_major_def [symmetric] length_replicate by (metis (no_types) drop0 mult_1 nth_replicate)
  have "ext = map (fragments_product (level_major fs) (m_shape m)) [0..<length fs]"
    by (rule nth_equalityI) (use ext(2,3) in \<open>simp_all del: upt_rec_numeral\<close>)
  then show "logical_shape m = Ok (map (fragments_product (level_major fs) (m_shape m)) [0..<length fs])"
    unfolding logical_shape_def meta_logical_rank_def assms(2) lr try_then.simps fr ext(1) by simp
  show "num_elements (map (fragments_product (level_major fs) (m_shape m)) [0..<length fs])
      = num_elements (m_shape m)"
    using prod_fragments [OF len] level_major_less by (simp add: num_elements_def)
qed


text \<open>The logical shape multiplies the fragments of each dimension back together: for a
  metadata whose tiling describes its rank, \<open>logical_shape\<close> returns one extent per logical
  dimension, each the product of the physical dimensions that the level-major order assigns to
  it, and no element is lost or gained.\<close>

theorem logical_shape_exact:
  assumes "tiling_new fs = Ok (m_tiling m)" "rank (m_shape m) = sum_list fs"
  shows "logical_shape m = Ok (map (fragments_product (level_major fs) (m_shape m)) [0..<length fs])
    \<and> num_elements (map (fragments_product (level_major fs) (m_shape m)) [0..<length fs])
      = num_elements (m_shape m)"
  using assms by (rule logical_shape_shown)

theorem logical_shape_exact_witness:
  "logical_shape \<lparr>m_shape = [2, 128, 344, 32, 32], m_strides = [1, 1, 1, 1, 1], m_tiling = 0x14\<rparr>
    = Ok [2, 4096, 11008]"
proof -
  let ?m = "\<lparr>m_shape = [2, 128, 344, 32, 32], m_strides = [1, 1, 1, 1, 1], m_tiling = 0x14\<rparr>"
  have t: "tiling_new [1, 2, 2] = Ok (m_tiling ?m)" "rank (m_shape ?m) = sum_list [1, 2, 2]"
    by code_simp+
  have "map (fragments_product (level_major [1, 2, 2]) (m_shape ?m)) [0..<length [1, 2, 2::nat]]
      = [2, 4096, 11008]" by code_simp
  with logical_shape_exact [OF t] show ?thesis by simp
qed

lemma untiled_code: "tiling_new (replicate n 1) = (if n \<le> 8 then Ok untiled else Err (Invalid (Reason ''at most 8 logical dims'')))"
proof -
  have "tiling_code (replicate n 1) = 0" by (induction n) auto
  then show ?thesis
    by (auto simp: tiling_new_def tiling_sum_code untiled_def max_logical_dims_def max_fragments_def
        list_all_iff)
qed

lemma level_major_untiled: "level_major (replicate n 1) = [0..<n]"
proof -
  have lv: "labels_of (map (Pair l) (enumerate k (replicate n 1))) = (if l = 0 then [k..<k + n] else [])" for l k
    by (induction n arbitrary: k) (auto simp: upt_conv_Cons simp del: upt_Suc)
  have "[0..<max_fragments] = [0, 1, 2, 3]" by (simp add: max_fragments_def upt_rec)
  then show ?thesis by (simp add: level_major_def lv [simplified])
qed

lemma fragments_product_upt:
  "i < length ds \<Longrightarrow> fragments_product [k..<k + length ds] ds (k + i) = ds ! i"
proof (induction ds arbitrary: i k)
  case (Cons x ds)
  have miss: "fragments_product [Suc k..<Suc k + length ds] ds k = 1"
  proof -
    have "filter (\<lambda>p. fst p = k) (zip [Suc k..<Suc k + length ds] ds) = []"
      unfolding filter_empty_conv by (auto dest!: set_zip_leftD simp del: upt_Suc)
    then show ?thesis by (simp add: fragments_product_def del: upt_Suc)
  qed
  show ?case
  proof (cases i)
    case 0
    with miss show ?thesis by (simp add: upt_conv_Cons del: upt_Suc)
  next
    case (Suc j)
    with Cons.IH [of j "Suc k"] Cons.prems show ?thesis by (simp add: upt_conv_Cons del: upt_Suc)
  qed
qed simp

lemma collect_levels_Panic: "8 \<in> set ds \<Longrightarrow> collect_levels t ds = Panic"
  by (induction ds) (auto simp: levels_def)

text \<open>Untiled metadata stands for its own shape, up to eight dimensions: the logical shape is
  the shape when the rank is at most eight, and at a higher rank reading the tiling shifts a
  sixteen bit word by sixteen, which panics.\<close>

theorem untiled_logical_shape:
  assumes "m_tiling m = untiled"
  shows "logical_shape m = (if rank (m_shape m) \<le> 8 then Ok (m_shape m) else Panic)"
proof (cases "rank (m_shape m) \<le> 8")
  case True
  let ?n = "rank (m_shape m)"
  have "tiling_new (replicate ?n 1) = Ok (m_tiling m)" "rank (m_shape m) = sum_list (replicate ?n 1)"
    using True assms untiled_code [of ?n] by (auto simp: sum_list_replicate)
  from logical_shape_shown [OF this]
  have "logical_shape m = Ok (map (fragments_product [0..<?n] (m_shape m)) [0..<?n])"
    using level_major_untiled [of ?n] by simp
  also have "map (fragments_product [0..<?n] (m_shape m)) [0..<?n] = m_shape m"
    using fragments_product_upt [of _ "m_shape m" 0] by (intro nth_equalityI) (auto simp: rank_def)
  finally show ?thesis using True by simp
next
  case False
  then have "8 \<in> set [0..<rank (m_shape m)]" by auto
  moreover have "collect_levels 0 [0..<8] = Ok (map (\<lambda>_. 0) [0..<8])"
    using collect_levels_Ok [of "[0..<8]" 0] by (simp add: list_all_iff)
  ultimately show ?thesis
    using False assms collect_levels_Panic [of "[0..<rank (m_shape m)]" 0]
    by (simp add: logical_shape_def meta_logical_rank_def logical_rank_def untiled_def
        max_logical_dims_def fragments_def checked_sub_def del: set_upt)
qed

theorem untiled_logical_shape_witness:
  "logical_shape \<lparr>m_shape = replicate 9 2, m_strides = replicate 9 1, m_tiling = untiled\<rparr> = Panic
   \<and> logical_shape \<lparr>m_shape = [2, 3], m_strides = [3, 1], m_tiling = untiled\<rparr> = Ok [2, 3]"
  using untiled_logical_shape [of "\<lparr>m_shape = replicate 9 2, m_strides = replicate 9 1, m_tiling = untiled\<rparr>"]
    untiled_logical_shape [of "\<lparr>m_shape = [2, 3], m_strides = [3, 1], m_tiling = untiled\<rparr>"]
  by (simp add: rank_def)

section \<open>Operations on metadata\<close>

definition meta_ok :: "metadata \<Rightarrow> bool" where
  "meta_ok m \<longleftrightarrow> rank (m_shape m) = length (m_strides m)
    \<and> (\<exists>n. logical_rank (m_tiling m) (rank (m_shape m)) = Ok n \<or> m_tiling m = untiled)"

text \<open>The operations that change the dimensions, as one step relation.\<close>

inductive meta_step :: "metadata \<Rightarrow> metadata \<Rightarrow> bool" where
  swap: "meta_swap i j m = Ok m' \<Longrightarrow> meta_step m m'"
| permute: "meta_permute axes m = Ok m' \<Longrightarrow> meta_step m m'"
| insert: "meta_insert i sh st m = Ok m' \<Longrightarrow> meta_step m m'"
| remove: "meta_remove i m = Ok (d, m') \<Longrightarrow> meta_step m m'"
| push: "meta_push sh st m = Ok m' \<Longrightarrow> meta_step m m'"
| tile: "with_tiling t m = Ok m' \<Longrightarrow> meta_step m m'"

lemma assert_untiled_Ok [simp]: "assert_untiled m = Ok u \<longleftrightarrow> m_tiling m = untiled"
  by (auto simp: assert_untiled_def is_tiled_def untiled_def)

lemma meta_step_ok: "meta_step m m' \<Longrightarrow> meta_ok m \<Longrightarrow> meta_ok m'"
proof (induction rule: meta_step.induct)
  case (permute axes m m')
  then show ?case
    by (auto simp: meta_permute_def meta_ok_def permute_def strides_permute_def rank_def split: if_splits)
qed (auto simp: meta_swap_def meta_insert_def meta_remove_def meta_push_def with_tiling_def
    meta_ok_def rank_def swap_elems_def split: if_splits)



lemma offset_of_sum: "length cs = length ss \<Longrightarrow> offset_of cs ss = (\<Sum>i<length ss. cs ! i * ss ! i)"
  by (simp add: offset_of_def sum_list_sum_nth atLeast0LessThan)

text \<open>Permuting metadata keeps every element where it is: with distinct axes, the element at
  coordinates \<open>cs\<close> of the source is at the permuted coordinates of the result, at the same buffer
  offset.\<close>

theorem permute_keeps_addresses:
  assumes "meta_permute axes m = Ok m'" "distinct axes" "rank (m_shape m) = length (m_strides m)"
    and "length cs = rank (m_shape m)"
  shows "offset_of (map (\<lambda>i. cs ! i) axes) (m_strides m') = offset_of cs (m_strides m)
    \<and> (list_all2 (<) cs (m_shape m) \<longrightarrow> list_all2 (<) (map (\<lambda>i. cs ! i) axes) (m_shape m'))"
proof -
  let ?n = "rank (m_shape m)"
  from assms(1) have m': "length axes = ?n" "list_all (\<lambda>i. i < ?n) axes"
    "m_shape m' = map (\<lambda>i. m_shape m ! i) axes" "m_strides m' = map (\<lambda>i. m_strides m ! i) axes"
    by (auto simp: meta_permute_def permute_def strides_permute_def rank_def split: if_splits)
  have bij: "set axes = {..<?n}" using permute_axes [of axes ?n] m' assms(2) by simp
  have "offset_of (map (\<lambda>i. cs ! i) axes) (m_strides m')
      = sum_list (map (\<lambda>i. cs ! i * m_strides m ! i) axes)"
    by (simp add: offset_of_def m' map2_map_map)
  also have "\<dots> = (\<Sum>i\<in>set axes. cs ! i * m_strides m ! i)"
    using assms(2) by (simp add: sum_list_distinct_conv_sum_set)
  also have "\<dots> = offset_of cs (m_strides m)"
    using assms(3,4) bij by (simp add: offset_of_sum)
  finally show ?thesis
    using m' assms(4) by (auto simp: list_all2_conv_all_nth list_all_length rank_def)
qed

theorem permute_keeps_addresses_witness:
  "offset_of [3, 1] [1, 4] = offset_of [1, 3] [4, 1::nat]"
proof -
  let ?m = "\<lparr>m_shape = [2, 4], m_strides = [4, 1], m_tiling = untiled\<rparr>"
  have step: "meta_permute [1, 0] ?m = Ok \<lparr>m_shape = [4, 2], m_strides = [1, 4], m_tiling = untiled\<rparr>"
    by (simp add: meta_permute_def permute_def strides_permute_def rank_def assert_untiled_def
        is_tiled_def untiled_def)
  from permute_keeps_addresses [OF step, of "[1, 3]"] show ?thesis by (simp add: rank_def)
qed

end
