(* ===== verification/Spec2Isabelle.thy ===== *)
theory Spec2Isabelle
  imports Drop_Queue Execute_Scope Scheduler Event_Streams Zspace_Metadata
begin

text \<open>
  CubeCL: the memory management of a compute server and the metadata of the tensors in it.

  \<^bold>\<open>The program.\<close> A CubeCL server (\<^verbatim>\<open>src/crates/cubecl-server\<close>) serves device memory to the kernels it
  launches. A storage (\<^verbatim>\<open>storage\<close>) owns the device buffers. Pools (\<^verbatim>\<open>memory_management/memory_pool\<close>)
  carve them into slices and hand out reference-counted handles, whose descriptors say in which
  pool, page and slice the memory is. A kernel that fails taints the memory it would have written
  (\<^verbatim>\<open>taint.rs\<close>, \<^verbatim>\<open>error_graph.rs\<close>), so that a later read reports the failure. Host buffers a device still reads
  wait in a queue for a fence (\<^verbatim>\<open>drop_queue\<close>). The crate \<^verbatim>\<open>cubecl-zspace\<close> has the shapes, strides and tilings
  every layer shares.

  \<^bold>\<open>The theories\<close>, from the bottom up:
    \<^item> \<open>Prelude\<close>: results (\<open>outcome\<close>: a value, an error or a panic), saturating and checked arithmetic,
      list operations with the panics of \<open>Vec\<close>, \<open>next_multiple_of\<close>.
    \<^item> \<open>Drop_Queue\<close> (\<^verbatim>\<open>drop_queue/queue.rs\<close>, \<^verbatim>\<open>policy.rs\<close>): the two-stage queue over a log of device events. No
      allocation is freed before a fence minted after it was staged is waited on; draining frees
      everything.
    \<^item> \<open>Error_Graph\<close> (\<^verbatim>\<open>error_graph.rs\<close>), \<open>Taint\<close> (\<^verbatim>\<open>taint.rs\<close>): failures counted by the memories that carry
      them, and the byte ranges a failure claims. Tainting refines point updates of a map from bytes
      to failures, the counts are exact, and reports follow the path of skipped kernels.
    \<^item> \<open>Memory_Handle\<close> (\<^verbatim>\<open>cubecl-runtime/memory_management/handle.rs\<close>): descriptors in a heap with the counts
      of owners and of bindings, locations packed in 64 bits.
    \<^item> \<open>Storage\<close> (\<^verbatim>\<open>storage/base.rs\<close>, \<^verbatim>\<open>bytes_cpu.rs\<close>): the \<open>ComputeStorage\<close> trait as a record of operations, its
      contract as the locale \<open>compute_storage\<close>, the host storage as the interpretation \<open>host\<close>.
    \<^item> \<open>Memory_Page\<close> (\<^verbatim>\<open>memory_pool/base.rs\<close>, \<^verbatim>\<open>memory_page.rs\<close>): slices and the pages that split and merge them.
    \<^item> \<open>Pool_Interface\<close>: what a client relies on of the \<open>MemoryPool\<close> trait, the locale \<open>memory_pool\<close>;
      each pool theory interprets it on its own operations.
    \<^item> \<open>Sliced_Pool\<close>, \<open>Direct_Pool\<close>, \<open>Persistent_Pool\<close>, \<open>Exclusive_Pool\<close> (the files of the same name; the last one
      also the buckets of \<^verbatim>\<open>dynamic/exclusive.rs\<close>), the middle two and the last over \<open>Owned_Slices\<close>, the facts on
      slices that own a whole buffer. Each has its operations, an inductive relation of its runs
      (pool operations, owners cloning and dropping handles, others using the storage), an
      invariant over every run and the functional facts on reservation and cleanup.
    \<^item> \<open>Pool_Frame\<close>: what an operation of a sliced pool leaves alone, and that pools apart from it keep
      their invariant. \<open>Relocation\<close> (\<^verbatim>\<open>relocation/*.rs\<close>): when memory moves, what can move and in which order a
      server does it. \<open>Arena\<close> (\<^verbatim>\<open>dynamic/arena.rs\<close>): page sizing, growth, draining, and the planning and
      committing of moves.
    \<^item> \<open>Dynamic_Memory\<close> (\<^verbatim>\<open>dynamic/adaptive.rs\<close>, \<^verbatim>\<open>dynamic/base.rs\<close>), \<open>Memory_Management\<close> (\<^verbatim>\<open>memory_manage.rs\<close>): the
      routing of requests over the pools and the memory of one stream, definitions only.
    \<^item> \<open>Pool_Group\<close>, \<open>Pool_Steps\<close>, \<open>Arena_Group\<close>, \<open>Dynamic_Safety\<close>, \<open>Memory_Safety\<close>: pools of every kind side by side
      over one heap and one storage. A pool has a footprint of handles and buffers; an operation
      that stays inside it is a step of the whole group, and steps compose up to the whole memory.
    \<^item> \<open>Memory_Lookup\<close>, \<open>Memory_Binding\<close>, \<open>Memory_Runs\<close>: no two live allocations of a stream share a byte,
      every handle finds its slice, and what reserving, binding, tainting and cleaning up do, over
      every run from every configuration.
    \<^item> \<open>Zspace_Index\<close>, \<open>Zspace_Shape\<close>, \<open>Zspace_Metadata\<close> (\<^verbatim>\<open>cubecl-zspace\<close>): index wrapping and raveling, strides
      and their checks, shape algebra with parsing and printing, metadata and tilings.

  \<^bold>\<open>Correspondence.\<close> A Rust struct is a record with its fields, prefixed by the type (\<open>sp_pages\<close> for \<open>pages\<close>
  of \<open>SlicedPool\<close>); an enum is a datatype. A method that takes \<open>&mut self\<close> takes the record and returns it
  updated, together with the heap of descriptors, the error graph and the storage when it reaches
  them. \<open>Err\<close> is \<open>Err\<close>, and \<open>unwrap\<close>, an index out of range, a failed assertion and arithmetic that would
  underflow are \<open>Panic\<close>. Backtraces, log output and \<open>Display\<close> of the pools are dropped. A \<open>HashMap\<close> is a map, and
  handles are names of heap cells, so that two pools that hold the same handle share its counts.

  \<^bold>\<open>Bounds.\<close> Byte sizes and offsets (\<open>u64\<close>) are natural numbers: no theorem states anything about sums
  beyond 64 bits, which a device cannot hold. Page and slice indices are words of 16 and 32 bits, as
  the location packs them; that a handle finds its slice is stated for pools of at most \<open>2 ^ 16\<close> pages
  of at most \<open>2 ^ 32\<close> slices, since the index is truncated beyond. The \<open>f64\<close> running average of the exclusive
  pool is a parameter (\<open>average\<close>); its theorems hold for every such arithmetic. Every loop of the model
  is structural or over a list the code consumes, so no definition needs fuel.

  \<^bold>\<open>Not modelled.\<close> That relocating keeps the bytes of every allocation is stated by the model
  (\<open>arena_plan\<close>, \<open>arena_commit\<close>) and not proved; the runs of \<open>Memory_Runs\<close> map pages when they are allocated
  and leave relocation out. The stream scheduler, graph capture and the metadata cache come next.
  Drivers, code generators, macros and the IR are outside: their meaning rests on device APIs and on
  an IR framework that is not part of the repository.
\<close>

end
